(* ===== verification/C_Prelude.thy ===== *)
theory C_Prelude
  imports Main "HOL-Library.Word" "HOL-Library.Char_ord" "HOL-Library.Sublist"
    "HOL-Library.Code_Target_Nat"
begin

text \<open>
  Shared vocabulary of the development: C strings and buffers, the small ASCII helpers that
  every module of the browser repeats, bounded copies, and the generic list and character
  lemmas the component theories rest on.

  A C string is the list of its bytes before the terminating NUL (\<open>cstr\<close> says that no NUL is
  among them). A \<^verbatim>\<open>const char *\<close> argument is a \<open>cptr\<close>, with \<open>None\<close> for NULL; an output buffer
  \<^verbatim>\<open>(char *out, size_t cap)\<close> is a \<open>cbuf\<close>, \<open>None\<close> for NULL and \<open>Some cap\<close> otherwise. A dynamic
  allocation asks an allocator \<open>mem\<close> whether a request of that many bytes is granted.
\<close>

section \<open>C strings, pointers and buffers\<close>

type_synonym cptr = "string option"
type_synonym cbuf = "nat option"
type_synonym allocator = "nat \<Rightarrow> bool"

named_theorems ascii_simps \<open>rewrite rules on the case mapping and the ASCII classes\<close>

definition NUL :: char where
  "NUL = CHR 0x00"

definition cstr :: "string \<Rightarrow> bool" where
  "cstr s \<longleftrightarrow> NUL \<notin> set s"

definition is_upper :: "char \<Rightarrow> bool" where
  "is_upper c \<longleftrightarrow> CHR ''A'' \<le> c \<and> c \<le> CHR ''Z''"

definition is_lower :: "char \<Rightarrow> bool" where
  "is_lower c \<longleftrightarrow> CHR ''a'' \<le> c \<and> c \<le> CHR ''z''"

definition is_digit :: "char \<Rightarrow> bool" where
  "is_digit c \<longleftrightarrow> CHR ''0'' \<le> c \<and> c \<le> CHR ''9''"

definition is_alpha :: "char \<Rightarrow> bool" where
  "is_alpha c \<longleftrightarrow> is_upper c \<or> is_lower c"

definition is_alnum :: "char \<Rightarrow> bool" where
  "is_alnum c \<longleftrightarrow> is_alpha c \<or> is_digit c"

text \<open>The locale-free \<^verbatim>\<open>lower\<close> that each module defines for itself.\<close>

definition ascii_lower :: "char \<Rightarrow> char" where
  "ascii_lower c = (if is_upper c then char_of ((of_char c :: nat) + 32) else c)"

abbreviation lower_str :: "string \<Rightarrow> string" where
  "lower_str \<equiv> map ascii_lower"

text \<open>Case-insensitive prefix test, byte by byte as the source's loop.\<close>

fun ci_prefix :: "string \<Rightarrow> string \<Rightarrow> bool" where
  "ci_prefix s [] = True"
| "ci_prefix [] (p # ps) = False"
| "ci_prefix (c # s) (p # ps) = (ascii_lower c = ascii_lower p \<and> ci_prefix s ps)"

text \<open>\<^verbatim>\<open>strstr\<close>: the suffix that starts at the first occurrence.\<close>

fun strstr :: "string \<Rightarrow> string \<Rightarrow> string option" where
  "strstr [] needle = (if needle = [] then Some [] else None)"
| "strstr (c # s) needle = (if prefix needle (c # s) then Some (c # s) else strstr s needle)"

text \<open>Splitting at every occurrence of a separator byte (labels of a host, segments of a path).\<close>

fun split_on :: "char \<Rightarrow> string \<Rightarrow> string list" where
  "split_on d [] = [[]]"
| "split_on d (c # s) = (if c = d then [] # split_on d s
     else (case split_on d s of [] \<Rightarrow> [[c]] | w # ws \<Rightarrow> (c # w) # ws))"


section \<open>Bounded copies\<close>

text \<open>
  Every assembly in the source is bounded: \<^verbatim>\<open>copy_checked\<close>, \<^verbatim>\<open>cat_checked\<close> and \<^verbatim>\<open>ncat_checked\<close> of
  \<^verbatim>\<open>url.c\<close> refuse (here \<open>None\<close>) rather than truncate. The contents of a buffer after a refusal
  are not part of any contract and are not modelled.
\<close>

definition fits :: "string \<Rightarrow> nat \<Rightarrow> bool" where
  "fits s cap \<longleftrightarrow> length s + 1 \<le> cap"

definition copy_checked :: "nat \<Rightarrow> string \<Rightarrow> string option" where
  "copy_checked outsz src = (if length src + 1 > outsz then None else Some src)"

definition cat_checked :: "string \<Rightarrow> nat \<Rightarrow> string \<Rightarrow> string option" where
  "cat_checked out outsz src =
     (if length out + length src + 1 > outsz then None else Some (out @ src))"

definition ncat_checked :: "string \<Rightarrow> nat \<Rightarrow> string \<Rightarrow> nat \<Rightarrow> string option" where
  "ncat_checked out outsz src n =
     (if length out + n + 1 > outsz then None else Some (out @ take n src))"

lemma copy_checked_Some [simp]:
  "copy_checked n s = Some t \<longleftrightarrow> t = s \<and> fits s n"
  by (auto simp: copy_checked_def fits_def)

lemma cat_checked_Some [simp]:
  "cat_checked o1 n s = Some t \<longleftrightarrow> t = o1 @ s \<and> fits (o1 @ s) n"
  by (auto simp: cat_checked_def fits_def)

lemma ncat_checked_Some [simp]:
  "ncat_checked o1 n s k = Some t \<longleftrightarrow> t = o1 @ take k s \<and> length o1 + k + 1 \<le> n"
  by (auto simp: ncat_checked_def)

lemma copy_checked_fits [simp]: "fits s n \<Longrightarrow> copy_checked n s = Some s"
  by simp

lemma cat_checked_fits [simp]: "fits (o1 @ s) n \<Longrightarrow> cat_checked o1 n s = Some (o1 @ s)"
  by simp

section \<open>Case mapping and ASCII classes\<close>

lemmas ascii_class_defs = is_upper_def is_lower_def is_digit_def is_alpha_def is_alnum_def

lemma of_char_upper: "is_upper c \<longleftrightarrow> 65 \<le> (of_char c :: nat) \<and> (of_char c :: nat) \<le> 90"
  by (simp add: is_upper_def less_eq_char_def)

lemma of_char_lower: "is_lower c \<longleftrightarrow> 97 \<le> (of_char c :: nat) \<and> (of_char c :: nat) \<le> 122"
  by (simp add: is_lower_def less_eq_char_def)

lemma of_char_digit: "is_digit c \<longleftrightarrow> 48 \<le> (of_char c :: nat) \<and> (of_char c :: nat) \<le> 57"
  by (simp add: is_digit_def less_eq_char_def)

lemmas of_char_classes = of_char_upper of_char_lower of_char_digit

lemma char_eq_of_char: "c = d \<longleftrightarrow> (of_char c :: nat) = of_char d"
  by simp

lemma of_char_ascii_lower:
  "(of_char (ascii_lower c) :: nat) = (if is_upper c then of_char c + 32 else of_char c)"
  by (simp add: ascii_lower_def of_char_upper)

lemma ascii_lower_not_upper [ascii_simps, simp]: "\<not> is_upper (ascii_lower c)"
  unfolding of_char_upper of_char_ascii_lower by simp

lemma ascii_lower_idem [ascii_simps, simp]: "ascii_lower (ascii_lower c) = ascii_lower c"
  by (metis ascii_lower_def ascii_lower_not_upper)

lemma ascii_lower_id [ascii_simps]: "\<not> is_upper c \<Longrightarrow> ascii_lower c = c"
  by (simp add: ascii_lower_def)

lemma ascii_lower_upper_is_lower: "is_upper c \<Longrightarrow> is_lower (ascii_lower c)"
  unfolding of_char_lower of_char_ascii_lower by (simp add: of_char_upper)

lemma ascii_lower_eq_nonletter:
  "\<not> is_alpha d \<Longrightarrow> ascii_lower c = d \<longleftrightarrow> c = d"
  by (metis ascii_lower_id ascii_lower_upper_is_lower is_alpha_def)

lemma ascii_lower_alpha [ascii_simps, simp]: "is_alpha (ascii_lower c) \<longleftrightarrow> is_alpha c"
  by (metis ascii_lower_id ascii_lower_upper_is_lower is_alpha_def)

lemma is_digit_not_upper: "is_digit c \<Longrightarrow> \<not> is_upper c"
  by (simp add: of_char_classes)

lemma ascii_lower_digit [ascii_simps, simp]: "is_digit (ascii_lower c) \<longleftrightarrow> is_digit c"
  unfolding of_char_digit of_char_ascii_lower by (simp add: of_char_upper)

lemma ascii_lower_sep [ascii_simps, simp]:
  "ascii_lower c = CHR ''/'' \<longleftrightarrow> c = CHR ''/''"
  "ascii_lower c = CHR ''?'' \<longleftrightarrow> c = CHR ''?''"
  "ascii_lower c = CHR ''#'' \<longleftrightarrow> c = CHR ''#''"
  "ascii_lower c = CHR '':'' \<longleftrightarrow> c = CHR '':''"
  "ascii_lower c = CHR ''.'' \<longleftrightarrow> c = CHR ''.''"
  "ascii_lower c = CHR ''-'' \<longleftrightarrow> c = CHR ''-''"
  by (rule ascii_lower_eq_nonletter; simp add: ascii_class_defs)+

lemma ascii_lower_nul [ascii_simps, simp]: "ascii_lower c = NUL \<longleftrightarrow> c = NUL"
  by (rule ascii_lower_eq_nonletter) (simp add: NUL_def ascii_class_defs)

lemma ascii_lower_comp [simp]: "ascii_lower \<circ> ascii_lower = ascii_lower"
  by (rule ext) simp

lemma lower_str_idem [simp]: "lower_str (lower_str s) = lower_str s"
  by simp

lemma cstr_lower_str [simp]: "cstr (lower_str s) \<longleftrightarrow> cstr s"
proof -
  have "NUL \<in> ascii_lower ` set s \<longleftrightarrow> NUL \<in> set s"
    by (metis ascii_lower_nul image_iff)
  then show ?thesis by (simp add: cstr_def)
qed

lemma cstr_append [simp]: "cstr (s @ t) \<longleftrightarrow> cstr s \<and> cstr t"
  by (auto simp: cstr_def)

lemma cstr_Nil [simp]: "cstr []"
  by (simp add: cstr_def)

lemma ci_prefix_iff: "ci_prefix s p \<longleftrightarrow> prefix (lower_str p) (lower_str s)"
  by (induction s p rule: ci_prefix.induct) auto

lemma ci_prefix_length: "ci_prefix s p \<Longrightarrow> length p \<le> length s"
  by (induction s p rule: ci_prefix.induct) auto

lemma ci_prefix_self_append [simp]: "ci_prefix (p @ s) p"
  by (simp add: ci_prefix_iff)

lemma ci_prefix_append: "ci_prefix s p \<Longrightarrow> ci_prefix (s @ t) p"
  by (simp add: ci_prefix_iff)

section \<open>Lists: scanning and splitting\<close>

lemma dropWhile_hd_stop: "dropWhile P s = c # r \<Longrightarrow> \<not> P c"
  by (simp add: dropWhile_eq_Cons_conv)

lemma dropWhile_until [simp]: "d \<notin> set a \<Longrightarrow> dropWhile (\<lambda>x. x \<noteq> d) (a @ d # b) = d # b"
  by (induction a) auto

lemma takeWhile_until [simp]: "d \<notin> set a \<Longrightarrow> takeWhile (\<lambda>x. x \<noteq> d) (a @ d # b) = a"
  by (induction a) auto

lemma dropWhile_until_none [simp]: "d \<notin> set a \<Longrightarrow> dropWhile (\<lambda>x. x \<noteq> d) a = []"
  by (induction a) auto

lemma takeWhile_until_none [simp]: "d \<notin> set a \<Longrightarrow> takeWhile (\<lambda>x. x \<noteq> d) a = a"
  by (induction a) auto

lemma prefix_single_iff: "prefix [d] s \<longleftrightarrow> (\<exists>r. s = d # r)"
  by (cases s) auto

lemma drop_length_takeWhile: "drop (length (takeWhile P s)) s = dropWhile P s"
  by (metis dropWhile_eq_drop)

lemma length_dropWhile_less: "s \<noteq> [] \<Longrightarrow> P (hd s) \<Longrightarrow> length (dropWhile P s) < length s"
  by (cases s) (simp_all add: le_imp_less_Suc length_dropWhile_le)

lemma length_drop1_dropWhile_less: "s \<noteq> [] \<Longrightarrow> length (drop 1 (dropWhile P s)) < length s"
  using length_dropWhile_le [of P s] by (cases s) auto

lemma length_tl_dropWhile_less:
  assumes "dropWhile Q s \<noteq> []"
  shows "length (drop 1 (dropWhile P (tl (dropWhile Q s)))) < length s"
proof -
  have "length (drop 1 (dropWhile P (tl (dropWhile Q s)))) \<le> length (tl (dropWhile Q s))"
    using length_dropWhile_le [of P "tl (dropWhile Q s)"] unfolding length_drop by linarith
  also have "\<dots> < length (dropWhile Q s)" using assms by (cases "dropWhile Q s") auto
  also have "\<dots> \<le> length s" by (rule length_dropWhile_le)
  finally show ?thesis .
qed

lemma split_on_nonempty [simp]: "split_on d s \<noteq> []"
  by (induction s) (auto split: list.splits)

lemma split_on_append_sep: "split_on d (a @ d # b) = split_on d a @ split_on d b"
  by (induction a) (auto split: list.splits simp: append_eq_Cons_conv)

lemma split_on_no_sep: "d \<notin> set s \<Longrightarrow> split_on d s = [s]"
  by (induction s) auto

lemma split_on_no_sep_elem: "w \<in> set (split_on d s) \<Longrightarrow> d \<notin> set w"
  by (induction s arbitrary: w) (auto split: list.splits if_splits)

lemma split_on_singleton: "split_on d s = [s] \<longleftrightarrow> d \<notin> set s"
  by (metis list.set_intros(1) split_on_no_sep split_on_no_sep_elem)

lemma rsplit_at:
  assumes "d \<in> set s"
  obtains a b where "s = a @ d # b" and "d \<notin> set b"
  using assms by (metis split_list_last)

lemma strstr_Some: "strstr s n = Some t \<Longrightarrow> prefix n t \<and> suffix t s"
  by (induction s n rule: strstr.induct) (auto split: if_splits simp: suffix_ConsI)

section \<open>Machines that keep an invariant\<close>

text \<open>
  A component whose state changes by one operation at a time: what every operation keeps holds after
  every sequence of operations.
\<close>

locale invariant_machine =
  fixes step :: "'s \<Rightarrow> 'op \<Rightarrow> 's"
    and inv :: "'s \<Rightarrow> bool"
  assumes step_inv: "inv s \<Longrightarrow> inv (step s op)"
begin

lemma run_inv: "inv s \<Longrightarrow> inv (foldl step s ops)"
  by (induction ops arbitrary: s) (simp_all add: step_inv)

text \<open>The same along the way: every prefix of a run ends in a state with the invariant.\<close>

lemma run_inv_prefix: "inv s \<Longrightarrow> prefix ops' ops \<Longrightarrow> inv (foldl step s ops')"
  by (rule run_inv)

end

text \<open>A machine that implements an abstract one through an abstraction function on the states of its
  invariant.\<close>

locale simulation = invariant_machine +
  fixes astep :: "'a \<Rightarrow> 'op \<Rightarrow> 'a"
    and abs :: "'s \<Rightarrow> 'a"
  assumes step_abs: "inv s \<Longrightarrow> abs (step s op) = astep (abs s) op"
begin

lemma run_abs: "inv s \<Longrightarrow> abs (foldl step s ops) = foldl astep (abs s) ops"
  by (induction ops arbitrary: s) (simp_all add: step_inv step_abs)

end

text \<open>Components with interleaved steps: an invariant along every run of a step relation, and, where each step lowers a
  rank, a bound on the length of runs.\<close>

locale step_invariant =
  fixes step :: "'s \<Rightarrow> 's \<Rightarrow> bool"
    and inv :: "'s \<Rightarrow> bool"
  assumes step_keeps: "step s s' \<Longrightarrow> inv s \<Longrightarrow> inv s'"
begin

lemma reach_keeps: "step\<^sup>*\<^sup>* s s' \<Longrightarrow> inv s \<Longrightarrow> inv s'"
  by (induction rule: rtranclp_induct) (auto intro: step_keeps)

lemma run_keeps: "(step ^^ k) s s' \<Longrightarrow> inv s \<Longrightarrow> inv s'"
  using reach_keeps relpowp_imp_rtranclp by metis

end

locale ranked_steps = step_invariant +
  fixes rank :: "'s \<Rightarrow> nat"
  assumes step_lowers: "step s s' \<Longrightarrow> inv s \<Longrightarrow> rank s' < rank s"
begin

lemma run_bound: "(step ^^ k) s s' \<Longrightarrow> inv s \<Longrightarrow> k + rank s' \<le> rank s"
proof (induction k arbitrary: s')
  case (Suc k)
  then obtain t where t: "(step ^^ k) s t" "step t s'" by auto
  then show ?case using Suc.IH [OF t(1)] Suc.prems(2) step_lowers [OF t(2)] run_keeps [OF t(1)] by fastforce
qed simp

end

section \<open>Percent encoding\<close>

definition hex_digit :: "nat \<Rightarrow> char" where
  "hex_digit n = ''0123456789ABCDEF'' ! n"

definition hex_val :: "char \<Rightarrow> nat" where
  "hex_val c = (if is_digit c then of_char c - 48
     else if is_upper c then of_char c - 55 else of_char c - 87)"

text \<open>The reading side of \<^verbatim>\<open>application/x-www-form-urlencoded\<close>, as a server applies it.\<close>

fun form_decode :: "string \<Rightarrow> string" where
  "form_decode [] = []"
| "form_decode (c # s) =
     (if c = CHR ''+'' then CHR '' '' # form_decode s
      else if c = CHR ''%'' then
        (case s of h # l # r \<Rightarrow> char_of (16 * hex_val h + hex_val l) # form_decode r
         | _ \<Rightarrow> c # form_decode s)
      else c # form_decode s)"

lemma hex_val_digit: "n < 16 \<Longrightarrow> hex_val (hex_digit n) = n"
proof -
  have all: "\<forall>n \<in> set [0..<16]. hex_val (hex_digit n) = n" by code_simp
  assume "n < 16" then show ?thesis using all by simp
qed

lemma percent_decode:
  "form_decode (CHR ''%'' # hex_digit (of_char c div 16 mod 16) # hex_digit (of_char c mod 16) # s)
    = c # form_decode s"
proof -
  have "(of_char c :: nat) div 16 < 16" by (simp add: less_mult_imp_div_less)
  then have "16 * (of_char c div 16 mod 16) + of_char c mod 16 = (of_char c :: nat)" by simp
  then show ?thesis by (simp add: hex_val_digit)
qed

lemma form_decode_plain: "c \<noteq> CHR ''+'' \<Longrightarrow> c \<noteq> CHR ''%'' \<Longrightarrow> form_decode (c # s) = c # form_decode s"
  by simp

declare map_eq_Cons_D [rule del] Cons_eq_map_D [rule del]

end
