(* ===== verification/Url.thy ===== *)
theory Url
  imports C_Prelude
begin

text \<open>
  The module \<^verbatim>\<open>src/url.c\<close>: what an absolute https URL is, RFC 3986 dot-segment removal, reference
  resolution against an https or a local base, the omnibox, the search rewrite, userinfo
  extraction, the location decomposition and the History API target. A function that fills a
  caller buffer returns \<open>Inl status\<close> for a failure and \<open>Inr out\<close> for \<^verbatim>\<open>URL_OK\<close>.
\<close>

section \<open>Model\<close>

datatype url_status = URL_OK | URL_ERR_NULL_ARG | URL_ERR_NOT_HTTPS | URL_ERR_OVERFLOW
  | URL_ERR_NOT_LOCAL

definition URL_MAX_LEN :: nat where
  "URL_MAX_LEN = 8192"

definition URL_SEARCH_ENDPOINT :: string where
  "URL_SEARCH_ENDPOINT = ''https://html.duckduckgo.com/html/?q=''"

subsection \<open>Scheme and validation\<close>

definition scheme_char :: "char \<Rightarrow> bool" where
  "scheme_char c \<longleftrightarrow> is_alnum c \<or> c = CHR ''+'' \<or> c = CHR ''-'' \<or> c = CHR ''.''"

fun scheme_scan :: "string \<Rightarrow> bool" where
  "scheme_scan [] = False"
| "scheme_scan (c # s) = (if c = CHR '':'' then True else if scheme_char c then scheme_scan s else False)"

fun url_has_scheme :: "cptr \<Rightarrow> bool" where
  "url_has_scheme None = False"
| "url_has_scheme (Some []) = False"
| "url_has_scheme (Some (c # s)) = (is_alpha c \<and> scheme_scan s)"

fun url_is_https :: "cptr \<Rightarrow> bool" where
  "url_is_https None = False"
| "url_is_https (Some s) =
     (ci_prefix s ''https://'' \<and> (case drop 8 s of [] \<Rightarrow> False | h # _ \<Rightarrow> h \<noteq> CHR ''/''))"

fun url_validate_https :: "cptr \<Rightarrow> url_status" where
  "url_validate_https None = URL_ERR_NULL_ARG"
| "url_validate_https (Some url) =
     (if length url > URL_MAX_LEN then URL_ERR_NOT_HTTPS
      else if url_is_https (Some url) then URL_OK else URL_ERR_NOT_HTTPS)"

definition authority_char :: "char \<Rightarrow> bool" where
  "authority_char c \<longleftrightarrow> c \<noteq> CHR ''/'' \<and> c \<noteq> CHR ''?'' \<and> c \<noteq> CHR ''#''"

definition url_authority_len :: "string \<Rightarrow> nat" where
  "url_authority_len url = 8 + length (takeWhile authority_char (drop 8 url))"

subsection \<open>Dot-segment removal\<close>

definition out_pop_segment :: "string \<Rightarrow> string" where
  "out_pop_segment out = rev (tl (dropWhile (\<lambda>c. c \<noteq> CHR ''/'') (rev out)))"

text \<open>The segment the last branch of the loop moves: the leading slash if any, then the bytes up
  to the next slash.\<close>

fun first_segment :: "string \<Rightarrow> string" where
  "first_segment [] = []"
| "first_segment (c # s) = c # takeWhile (\<lambda>x. x \<noteq> CHR ''/'') s"

text \<open>
  One iteration of the main loop on the unread input and the output written so far (\<open>None\<close>: the
  output does not fit), and the loop itself. In the source the last branch starts counting behind
  a leading slash and at zero otherwise; where it is reached the input is not empty and a first
  byte other than a slash belongs to the segment either way.
\<close>

definition dots_step :: "nat \<Rightarrow> string \<Rightarrow> string \<Rightarrow> (string \<times> string) option" where
  "dots_step outsz inp out =
     (if prefix ''../'' inp then Some (drop 3 inp, out)
      else if prefix ''./'' inp then Some (drop 2 inp, out)
      else if prefix ''/./'' inp then Some (drop 2 inp, out)
      else if inp = ''/.'' then Some (''/'', out)
      else if prefix ''/../'' inp then Some (drop 3 inp, out_pop_segment out)
      else if inp = ''/..'' then Some (''/'', out_pop_segment out)
      else if inp = ''.'' \<or> inp = ''..'' then Some ([], out)
      else
        let seg = first_segment inp in
        if length out + length seg \<ge> outsz then None
        else Some (drop (length seg) inp, out @ seg))"

lemma dots_step_length:
  "dots_step n inp out = Some (i, t) \<Longrightarrow> inp \<noteq> [] \<Longrightarrow> length i < length inp"
  by (cases inp) (auto simp: dots_step_def Let_def prefix_def split: if_splits)

function remove_dots :: "nat \<Rightarrow> string \<Rightarrow> string \<Rightarrow> string option" where
  "remove_dots outsz inp out =
     (if inp = [] then Some out
      else case dots_step outsz inp out of
          None \<Rightarrow> None
        | Some (inp', out') \<Rightarrow> remove_dots outsz inp' out')"
  by pat_completeness auto
termination
  by (relation "measure (\<lambda>(n, inp, out). length inp)") (auto dest: dots_step_length)

declare remove_dots.simps [simp del]

fun url_remove_dot_segments :: "cptr \<Rightarrow> cbuf \<Rightarrow> url_status + string" where
  "url_remove_dot_segments (Some path) (Some outsz) =
     (if outsz = 0 then Inl URL_ERR_NULL_ARG
      else if length path + 1 > URL_MAX_LEN + 1 then Inl URL_ERR_OVERFLOW
      else (case remove_dots outsz path [] of
          None \<Rightarrow> Inl URL_ERR_OVERFLOW
        | Some out \<Rightarrow> if length out + 1 > outsz then Inl URL_ERR_OVERFLOW else Inr out))"
| "url_remove_dot_segments _ _ = Inl URL_ERR_NULL_ARG"

subsection \<open>Reference resolution\<close>

text \<open>\<open>last_slash\<close> is the loop of \<^verbatim>\<open>dir_len\<close>: one past the last slash of the path, if it has one.\<close>

fun last_slash :: "nat \<Rightarrow> string \<Rightarrow> nat option \<Rightarrow> nat option" where
  "last_slash i [] found = found"
| "last_slash i (c # s) found =
     (if c = CHR ''?'' \<or> c = CHR ''#'' then found
      else if c = CHR ''/'' then last_slash (Suc i) s (Some i)
      else last_slash (Suc i) s found)"

definition dir_len :: "string \<Rightarrow> nat" where
  "dir_len base =
     (let auth = url_authority_len base in
      case last_slash auth (drop auth base) None of None \<Rightarrow> auth | Some k \<Rightarrow> k + 1)"

text \<open>The path the relative branch merges before it is normalised.\<close>

definition merge_path :: "string \<Rightarrow> string \<Rightarrow> string option" where
  "merge_path base ref =
     (if prefix ''/'' ref then copy_checked (URL_MAX_LEN + 1) ref
      else
        let auth = url_authority_len base; dir = dir_len base in
        (case ncat_checked [] (URL_MAX_LEN + 1) (drop auth base) (dir - auth) of
          None \<Rightarrow> None
        | Some m \<Rightarrow>
            (case (if dir = auth then cat_checked m (URL_MAX_LEN + 1) ''/'' else Some m) of
              None \<Rightarrow> None
            | Some m' \<Rightarrow> cat_checked m' (URL_MAX_LEN + 1) ref)))"

definition resolve_relative :: "string \<Rightarrow> string \<Rightarrow> nat \<Rightarrow> url_status + string" where
  "resolve_relative base ref outsz =
     (let auth = url_authority_len base in
      if auth \<le> 8 then Inl URL_ERR_NOT_HTTPS
      else case merge_path base ref of
          None \<Rightarrow> Inl URL_ERR_OVERFLOW
        | Some merged \<Rightarrow>
          (case url_remove_dot_segments (Some merged) (Some (URL_MAX_LEN + 1)) of
            Inl ns \<Rightarrow> Inl ns
          | Inr norm \<Rightarrow>
            (case ncat_checked [] outsz base auth of
              None \<Rightarrow> Inl URL_ERR_OVERFLOW
            | Some o1 \<Rightarrow>
              (case cat_checked o1 outsz norm of
                None \<Rightarrow> Inl URL_ERR_OVERFLOW
              | Some o2 \<Rightarrow> Inr o2))))"

text \<open>Every branch of \<^verbatim>\<open>url_resolve_https\<close> that assembles an output validates it at the end.\<close>

definition validated :: "url_status + string \<Rightarrow> url_status + string" where
  "validated r = (case r of Inl e \<Rightarrow> Inl e
     | Inr out \<Rightarrow> (if url_validate_https (Some out) = URL_OK then Inr out
                    else Inl (url_validate_https (Some out))))"

fun url_resolve_https :: "cptr \<Rightarrow> cptr \<Rightarrow> cbuf \<Rightarrow> url_status + string" where
  "url_resolve_https (Some base) (Some ref) (Some outsz) =
     (if outsz = 0 then Inl URL_ERR_NULL_ARG
      else if url_validate_https (Some base) \<noteq> URL_OK then Inl URL_ERR_NOT_HTTPS
      else if ref = [] then Inl URL_ERR_NOT_HTTPS
      else if ci_prefix ref ''https://'' then
        validated (case copy_checked outsz ref of None \<Rightarrow> Inl URL_ERR_OVERFLOW | Some s \<Rightarrow> Inr s)
      else if ci_prefix ref ''http://'' then Inl URL_ERR_NOT_HTTPS
      else if prefix ''//'' ref then
        validated (case copy_checked outsz ''https:'' of
            None \<Rightarrow> Inl URL_ERR_OVERFLOW
          | Some s \<Rightarrow> (case cat_checked s outsz ref of
              None \<Rightarrow> Inl URL_ERR_OVERFLOW
            | Some t \<Rightarrow> Inr t))
      else if url_has_scheme (Some ref) then Inl URL_ERR_NOT_HTTPS
      else validated (resolve_relative base ref outsz))"
| "url_resolve_https _ _ _ = Inl URL_ERR_NULL_ARG"

subsection \<open>Omnibox\<close>

definition is_space :: "char \<Rightarrow> bool" where
  "is_space c \<longleftrightarrow> c \<in> {CHR '' '', CHR 0x09, CHR 0x0A, CHR 0x0D, CHR 0x0C, CHR 0x0B}"

definition is_unreserved :: "char \<Rightarrow> bool" where
  "is_unreserved c \<longleftrightarrow> is_alnum c \<or> c \<in> {CHR ''-'', CHR ''.'', CHR ''_'', CHR ''~''}"

text \<open>The bytes one iteration of \<^verbatim>\<open>append_query_encoded\<close> writes.\<close>

definition query_encode_char :: "char \<Rightarrow> string" where
  "query_encode_char c =
     (if c = CHR '' '' then ''+''
      else if is_unreserved c then [c]
      else [CHR ''%'', hex_digit (of_char c div 16 mod 16), hex_digit (of_char c mod 16)])"

fun append_query_encoded :: "string \<Rightarrow> nat \<Rightarrow> string \<Rightarrow> string option" where
  "append_query_encoded out outsz [] = Some out"
| "append_query_encoded out outsz (c # s) =
     (let e = query_encode_char c in
      if length out + length e + 1 > outsz then None
      else append_query_encoded (out @ e) outsz s)"

definition label_closes :: "string \<Rightarrow> bool" where
  "label_closes l \<longleftrightarrow> l \<noteq> [] \<and> hd l \<noteq> CHR ''-'' \<and> last l \<noteq> CHR ''-''"

text \<open>The label loop of \<^verbatim>\<open>looks_like_host\<close> on the current label and the unread host: the number of
  dots and the final label, or \<open>None\<close> where the source returns 0.\<close>

fun label_scan :: "string \<Rightarrow> nat \<Rightarrow> string \<Rightarrow> (nat \<times> string) option" where
  "label_scan l dots [] = (if label_closes l then Some (dots, l) else None)"
| "label_scan l dots (c # s) =
     (if c = CHR ''.'' then (if label_closes l then label_scan [] (Suc dots) s else None)
      else if is_alnum c \<or> c = CHR ''-'' then label_scan (l @ [c]) dots s
      else None)"

definition looks_like_host :: "string \<Rightarrow> bool" where
  "looks_like_host s =
     (let host = takeWhile (\<lambda>c. c \<noteq> CHR '':'') (takeWhile authority_char s) in
      if host = [] then False
      else if length host = 9 \<and> ci_prefix s ''localhost''
              \<and> (case drop 9 s of [] \<Rightarrow> True | c # _ \<Rightarrow> c = CHR '':'' \<or> \<not> authority_char c)
      then True
      else (case label_scan [] 0 host of
          None \<Rightarrow> False
        | Some (dots, tld) \<Rightarrow> dots \<ge> 1 \<and> length tld \<ge> 2 \<and> list_all is_alpha tld))"

datatype url_omni_kind = URL_OMNI_NAVIGATE | URL_OMNI_SEARCH

definition build_search :: "string \<Rightarrow> nat \<Rightarrow> url_status + string" where
  "build_search query outsz =
     (case copy_checked outsz URL_SEARCH_ENDPOINT of
        None \<Rightarrow> Inl URL_ERR_OVERFLOW
      | Some s \<Rightarrow> (case append_query_encoded s outsz query of
          None \<Rightarrow> Inl URL_ERR_OVERFLOW
        | Some t \<Rightarrow> Inr t))"

definition trim_end :: "string \<Rightarrow> string" where
  "trim_end s = rev (dropWhile is_space (rev s))"

text \<open>An output of the omnibox: the kind it reports and the status or the URL.\<close>

definition navigate_to :: "string \<Rightarrow> nat \<Rightarrow> url_omni_kind \<times> (url_status + string)" where
  "navigate_to url outsz = (URL_OMNI_NAVIGATE,
     case copy_checked outsz url of None \<Rightarrow> Inl URL_ERR_OVERFLOW | Some s \<Rightarrow> Inr s)"

definition search_for :: "string \<Rightarrow> nat \<Rightarrow> url_omni_kind \<times> (url_status + string)" where
  "search_for query outsz = (URL_OMNI_SEARCH, build_search query outsz)"

definition omnibox_token :: "string \<Rightarrow> string \<Rightarrow> nat \<Rightarrow> url_omni_kind \<times> (url_status + string)" where
  "omnibox_token start tok outsz =
     (if ci_prefix tok ''https://'' then
        (if url_validate_https (Some tok) \<noteq> URL_OK then search_for start outsz
         else navigate_to tok outsz)
      else if ci_prefix tok ''http://'' then
        (case cat_checked ''https://'' (URL_MAX_LEN + 1) (drop 7 tok) of
           None \<Rightarrow> search_for start outsz
         | Some up \<Rightarrow> (if url_validate_https (Some up) \<noteq> URL_OK then search_for start outsz
                       else navigate_to up outsz))
      else if looks_like_host tok then
        (case cat_checked ''https://'' (URL_MAX_LEN + 1) tok of
           None \<Rightarrow> search_for start outsz
         | Some built \<Rightarrow> (if url_validate_https (Some built) = URL_OK then navigate_to built outsz
                          else search_for start outsz))
      else search_for start outsz)"

definition omnibox_choice :: "string \<Rightarrow> nat \<Rightarrow> url_omni_kind \<times> (url_status + string)" where
  "omnibox_choice start outsz =
     (let tok = trim_end start in
      if tok = [] then search_for [] outsz
      else if list_ex is_space tok then search_for start outsz
      else if length tok + 1 > URL_MAX_LEN + 1 then search_for start outsz
      else omnibox_token start tok outsz)"

text \<open>The second argument is whether the caller passes a place for the kind.\<close>

fun url_omnibox :: "cptr \<Rightarrow> bool \<Rightarrow> cbuf \<Rightarrow> url_status + (url_omni_kind \<times> string)" where
  "url_omnibox (Some input) True (Some outsz) =
     (if outsz = 0 then Inl URL_ERR_NULL_ARG
      else
        let choice = omnibox_choice (dropWhile is_space input) outsz
        in case snd choice of Inl e \<Rightarrow> Inl e | Inr out \<Rightarrow> Inr (fst choice, out))"
| "url_omnibox _ _ _ = Inl URL_ERR_NULL_ARG"

subsection \<open>Location decomposition\<close>

text \<open>A span (pointer into the URL and length) is the substring it denotes.\<close>

record url_parts =
  url_href :: string
  url_protocol :: string
  url_origin :: string
  url_host :: string
  url_hostname :: string
  url_port :: string
  url_pathname :: string
  url_search :: string
  url_hash :: string

definition split_host_port :: "string \<Rightarrow> string \<times> string" where
  "split_host_port h =
     (if prefix ''['' h then
        (let inner = takeWhile (\<lambda>c. c \<noteq> CHR '']'') h; rest = dropWhile (\<lambda>c. c \<noteq> CHR '']'') h in
         if rest = [] then (h, [])
         else (inner @ '']'', if prefix '':'' (tl rest) then drop 1 (tl rest) else []))
      else
        (takeWhile (\<lambda>c. c \<noteq> CHR '':'') h, drop 1 (dropWhile (\<lambda>c. c \<noteq> CHR '':'') h)))"

fun url_split :: "cptr \<Rightarrow> url_status + url_parts" where
  "url_split None = Inl URL_ERR_NULL_ARG"
| "url_split (Some url) =
     (if \<not> url_is_https (Some url) then Inl URL_ERR_NOT_HTTPS
      else
        let auth = url_authority_len url;
            h = drop 8 (take auth url);
            rem = drop auth url;
            before = takeWhile (\<lambda>c. c \<noteq> CHR ''#'') rem
        in Inr \<lparr> url_href = url, url_protocol = take 6 url, url_origin = take auth url, url_host = h,
                 url_hostname = fst (split_host_port h), url_port = snd (split_host_port h),
                 url_pathname = takeWhile (\<lambda>c. c \<noteq> CHR ''?'') before,
                 url_search = dropWhile (\<lambda>c. c \<noteq> CHR ''?'') before,
                 url_hash = dropWhile (\<lambda>c. c \<noteq> CHR ''#'') rem \<rparr>)"

subsection \<open>Search rewrite\<close>

definition host_equals :: "url_parts \<Rightarrow> string \<Rightarrow> bool" where
  "host_equals p want \<longleftrightarrow> length (url_hostname p) = length want \<and> lower_str (url_hostname p) = lower_str want"

function find_q :: "string \<Rightarrow> string option" where
  "find_q s =
     (if s = [] then None
      else
        let key = takeWhile (\<lambda>c. c \<noteq> CHR ''='' \<and> c \<noteq> CHR ''&'') s;
            r = dropWhile (\<lambda>c. c \<noteq> CHR ''='' \<and> c \<noteq> CHR ''&'') s
        in if prefix ''='' r then
             (let v = takeWhile (\<lambda>c. c \<noteq> CHR ''&'') (tl r) in
              if key = ''q'' then Some v
              else find_q (drop 1 (dropWhile (\<lambda>c. c \<noteq> CHR ''&'') (tl r))))
           else find_q (drop 1 r))"
  by pat_completeness auto
termination
proof (relation "measure length", goal_cases)
  case (2 s x xa xb)
  then have "xa \<noteq> []" by (metis prefix_bot.extremum_uniqueI list.distinct(1))
  then show ?case unfolding 2(3) in_measure by (rule length_tl_dropWhile_less)
next
  case (3 s x xa)
  then show ?case unfolding 3(3) in_measure by (rule_tac length_drop1_dropWhile_less) simp
qed simp

declare find_q.simps [simp del]

definition query_find_q :: "string \<Rightarrow> string option" where
  "query_find_q s = find_q (if prefix ''?'' s then tl s else s)"

fun url_search_rewrite :: "cptr \<Rightarrow> cbuf \<Rightarrow> url_status + string" where
  "url_search_rewrite (Some url) (Some outsz) =
     (if outsz = 0 then Inl URL_ERR_NULL_ARG
      else case url_split (Some url) of
          Inl _ \<Rightarrow> Inl URL_ERR_NOT_HTTPS
        | Inr p \<Rightarrow>
          (if \<not> host_equals p ''duckduckgo.com'' \<and> \<not> host_equals p ''www.duckduckgo.com''
           then Inl URL_ERR_NOT_HTTPS
           else if url_search p = [] then Inl URL_ERR_NOT_HTTPS
           else case query_find_q (url_search p) of
               None \<Rightarrow> Inl URL_ERR_NOT_HTTPS
             | Some q \<Rightarrow> (if length URL_SEARCH_ENDPOINT + length q + 1 > outsz
                          then Inl URL_ERR_OVERFLOW else Inr (URL_SEARCH_ENDPOINT @ q))))"
| "url_search_rewrite _ _ = Inl URL_ERR_NULL_ARG"

subsection \<open>Userinfo\<close>

text \<open>The result of a successful extraction: the URL written and the two strings handed out.\<close>

record userinfo =
  clean_url :: string
  username :: "string option"
  password :: "string option"

definition pass_through :: "string \<Rightarrow> nat \<Rightarrow> url_status + userinfo" where
  "pass_through url outsz =
     (case copy_checked outsz url of None \<Rightarrow> Inl URL_ERR_OVERFLOW
      | Some s \<Rightarrow> Inr \<lparr> clean_url = s, username = None, password = None \<rparr>)"

text \<open>\<open>want_user\<close> and \<open>want_pass\<close>: whether the caller passes the two output pointers.\<close>

definition hand_out :: "allocator \<Rightarrow> string \<Rightarrow> bool \<Rightarrow> bool \<Rightarrow> string \<Rightarrow> string
    \<Rightarrow> url_status + userinfo" where
  "hand_out mem url want_user want_pass user pass =
     (if want_user \<and> \<not> mem (length user + 1) then Inl URL_ERR_NULL_ARG
      else if want_pass \<and> \<not> mem (length pass + 1) then Inl URL_ERR_NULL_ARG
      else Inr \<lparr> clean_url = url, username = (if want_user then Some user else None),
                 password = (if want_pass then Some pass else None) \<rparr>)"

fun url_extract_userinfo :: "allocator \<Rightarrow> cptr \<Rightarrow> cbuf \<Rightarrow> bool \<Rightarrow> bool \<Rightarrow> url_status + userinfo" where
  "url_extract_userinfo mem (Some url) (Some outsz) want_user want_pass =
     (if outsz = 0 then Inl URL_ERR_NULL_ARG
      else if \<not> url_is_https (Some url) then pass_through url outsz
      else
        let auth = drop 8 url;
            authority = takeWhile authority_char auth;
            info = takeWhile (\<lambda>c. c \<noteq> CHR ''@'') authority
        in if CHR ''@'' \<notin> set authority then pass_through url outsz
           else if info = [] then pass_through url outsz
           else
             let user = takeWhile (\<lambda>c. c \<noteq> CHR '':'') info;
                 pass = drop 1 (dropWhile (\<lambda>c. c \<noteq> CHR '':'') info)
             in if length user > 255 then pass_through url outsz
                else if length pass \<ge> 256 then pass_through url outsz
                else (case cat_checked ''https://'' (URL_MAX_LEN + 1) (drop (length info + 1) auth) of
                    None \<Rightarrow> Inl URL_ERR_OVERFLOW
                  | Some cleaned \<Rightarrow>
                    (case copy_checked outsz cleaned of
                      None \<Rightarrow> Inl URL_ERR_OVERFLOW
                    | Some s \<Rightarrow> hand_out mem s want_user want_pass user pass)))"
| "url_extract_userinfo _ _ _ _ _ = Inl URL_ERR_NULL_ARG"

subsection \<open>Local file origin\<close>

fun url_is_file :: "cptr \<Rightarrow> bool" where
  "url_is_file None = False"
| "url_is_file (Some s) = (ci_prefix s ''file://'' \<and> prefix ''/'' (drop 7 s))"

fun url_file_path :: "cptr \<Rightarrow> cptr" where
  "url_file_path None = None"
| "url_file_path (Some s) = (if url_is_file (Some s) then Some (drop 7 s) else None)"

text \<open>The directory of an absolute path: everything up to and including its last slash.\<close>

definition base_dir :: "string \<Rightarrow> string" where
  "base_dir path = rev (dropWhile (\<lambda>c. c \<noteq> CHR ''/'') (rev path))"

definition file_candidate :: "string \<Rightarrow> string \<Rightarrow> url_status + string" where
  "file_candidate dir ref =
     (let bounded = (\<lambda>r. case r of None \<Rightarrow> Inl URL_ERR_OVERFLOW | Some m \<Rightarrow> Inr m) in
      if url_has_scheme (Some ref) then
        (if \<not> url_is_file (Some ref) then Inl URL_ERR_NOT_LOCAL
         else bounded (copy_checked (URL_MAX_LEN + 1) (drop 7 ref)))
      else if prefix ''//'' ref then Inl URL_ERR_NOT_LOCAL
      else if prefix ''/'' ref then bounded (copy_checked (URL_MAX_LEN + 1) ref)
      else if ref = [] then Inl URL_ERR_NOT_LOCAL
      else (case ncat_checked [] (URL_MAX_LEN + 1) dir (length dir) of
          None \<Rightarrow> Inl URL_ERR_OVERFLOW
        | Some m \<Rightarrow> bounded (cat_checked m (URL_MAX_LEN + 1) ref)))"

fun url_resolve_file :: "cptr \<Rightarrow> cptr \<Rightarrow> cbuf \<Rightarrow> url_status + string" where
  "url_resolve_file (Some base) (Some ref) (Some outsz) =
     (if outsz = 0 then Inl URL_ERR_NULL_ARG
      else if \<not> url_is_file (Some base) then Inl URL_ERR_NOT_LOCAL
      else
        let dir = base_dir (drop 7 base) in
        if dir = [] then Inl URL_ERR_NOT_LOCAL
        else case file_candidate dir ref of
            Inl e \<Rightarrow> Inl e
          | Inr merged \<Rightarrow>
            (case url_remove_dot_segments (Some merged) (Some (URL_MAX_LEN + 1)) of
              Inl ns \<Rightarrow> Inl ns
            | Inr canon \<Rightarrow>
              (if \<not> prefix dir canon then Inl URL_ERR_NOT_LOCAL
               else case cat_checked [] outsz ''file://'' of
                   None \<Rightarrow> Inl URL_ERR_OVERFLOW
                 | Some o1 \<Rightarrow> (case cat_checked o1 outsz canon of
                     None \<Rightarrow> Inl URL_ERR_OVERFLOW
                   | Some o2 \<Rightarrow> Inr o2))))"
| "url_resolve_file _ _ _ = Inl URL_ERR_NULL_ARG"

subsection \<open>History target\<close>

definition copy_bounded :: "nat \<Rightarrow> string \<Rightarrow> string \<Rightarrow> url_status + string" where
  "copy_bounded outsz a b =
     (if length a > outsz \<or> length b \<ge> outsz - length a then Inl URL_ERR_OVERFLOW
      else Inr (a @ b))"

definition cut_query :: "string \<Rightarrow> string" where
  "cut_query s = takeWhile (\<lambda>c. c \<noteq> CHR ''?'' \<and> c \<noteq> CHR ''#'') s"

definition cut_hash :: "string \<Rightarrow> string" where
  "cut_hash s = takeWhile (\<lambda>c. c \<noteq> CHR ''#'') s"

fun url_history_target :: "cptr \<Rightarrow> cptr \<Rightarrow> cbuf \<Rightarrow> url_status + string" where
  "url_history_target (Some base) (Some ref) (Some outsz) =
     (if outsz = 0 then Inl URL_ERR_NULL_ARG
      else if url_is_file (Some base) then
        (if prefix ''?'' ref then copy_bounded outsz (cut_query base) ref
         else if prefix ''#'' ref then copy_bounded outsz (cut_hash base) ref
         else if ref \<noteq> [] then Inl URL_ERR_NOT_LOCAL
         else copy_bounded outsz base ref)
      else if url_validate_https (Some base) \<noteq> URL_OK then Inl URL_ERR_NOT_HTTPS
      else if ref = [] then copy_bounded outsz base []
      else if prefix ''?'' ref then copy_bounded outsz (cut_query base) ref
      else if prefix ''#'' ref then copy_bounded outsz (cut_hash base) ref
      else case url_resolve_https (Some base) (Some ref) (Some outsz) of
          Inl st \<Rightarrow> Inl st
        | Inr out \<Rightarrow>
          (case (url_split (Some base), url_split (Some out)) of
            (Inr pb, Inr po) \<Rightarrow>
              (if length (url_origin pb) \<noteq> length (url_origin po)
                  \<or> lower_str (url_origin pb) \<noteq> lower_str (url_origin po)
               then Inl URL_ERR_NOT_HTTPS else Inr out)
          | _ \<Rightarrow> Inl URL_ERR_NOT_HTTPS))"
| "url_history_target _ _ _ = Inl URL_ERR_NULL_ARG"

section \<open>Dot segments\<close>

text \<open>A path is dot free when no segment between slashes is \<^verbatim>\<open>.\<close> or \<^verbatim>\<open>..\<close>.\<close>

definition dot_free :: "string \<Rightarrow> bool" where
  "dot_free p \<longleftrightarrow> (\<forall>seg \<in> set (split_on CHR ''/'' p). seg \<noteq> ''.'' \<and> seg \<noteq> ''..'')"

lemma dot_free_append_slash [simp]: "dot_free (a @ CHR ''/'' # b) \<longleftrightarrow> dot_free a \<and> dot_free b"
  by (auto simp: dot_free_def split_on_append_sep)

lemma dot_free_slash [simp]: "dot_free (CHR ''/'' # b) \<longleftrightarrow> dot_free b"
  by (simp add: dot_free_def)

lemma dot_free_Nil [simp]: "dot_free []"
  by (simp add: dot_free_def)

lemma dot_free_segment: "CHR ''/'' \<notin> set w \<Longrightarrow> dot_free w \<longleftrightarrow> w \<noteq> ''.'' \<and> w \<noteq> ''..''"
  by (simp add: dot_free_def split_on_no_sep)

lemma out_pop_segment_slash: "CHR ''/'' \<notin> set b \<Longrightarrow> out_pop_segment (a @ CHR ''/'' # b) = a"
proof -
  assume "CHR ''/'' \<notin> set b"
  then have "dropWhile (\<lambda>c. c \<noteq> CHR ''/'') (rev b @ CHR ''/'' # rev a) = CHR ''/'' # rev a"
    by simp
  then show ?thesis by (simp add: out_pop_segment_def)
qed

lemma out_pop_segment_none: "CHR ''/'' \<notin> set out \<Longrightarrow> out_pop_segment out = []"
proof -
  assume "CHR ''/'' \<notin> set out"
  then have "dropWhile (\<lambda>c. c \<noteq> CHR ''/'') (rev out) = []"
    by simp
  then show ?thesis unfolding out_pop_segment_def by (simp only: list.sel rev.simps)
qed

lemma dot_free_pop: "dot_free out \<Longrightarrow> dot_free (out_pop_segment out)"
proof (cases "CHR ''/'' \<in> set out")
  case True
  assume df: "dot_free out"
  from True obtain a b where "out = a @ CHR ''/'' # b" "CHR ''/'' \<notin> set b" by (rule rsplit_at)
  with df show ?thesis by (simp add: out_pop_segment_slash)
qed (simp add: out_pop_segment_none)

lemma takeWhile_no_slash: "CHR ''/'' \<notin> set (takeWhile (\<lambda>x. x \<noteq> CHR ''/'') s)"
  by (auto dest: set_takeWhileD)

text \<open>What the loop keeps: the output so far has no dot segment, and once something has been
  written the unread input starts at a slash.\<close>

definition dots_inv :: "string \<Rightarrow> string \<Rightarrow> bool" where
  "dots_inv inp out \<longleftrightarrow> dot_free out \<and> (out \<noteq> [] \<longrightarrow> inp = [] \<or> prefix ''/'' inp)"

lemma drop_first_segment: "drop (length (first_segment (c # s))) (c # s) = dropWhile (\<lambda>x. x \<noteq> CHR ''/'') s"
  by (simp add: drop_length_takeWhile)

lemma dropWhile_slash_prefix: 
  "dropWhile (\<lambda>x. x \<noteq> CHR ''/'') s = [] \<or> prefix ''/'' (dropWhile (\<lambda>x. x \<noteq> CHR ''/'') s)"
  by (cases "dropWhile (\<lambda>x. x \<noteq> CHR ''/'') s") (auto dest: dropWhile_hd_stop)

lemma first_segment_cases:
  "c # s = first_segment (c # s) @ dropWhile (\<lambda>x. x \<noteq> CHR ''/'') s"
  by simp

lemma takeWhile_seg_prefix:
  assumes "takeWhile (\<lambda>x. x \<noteq> CHR ''/'') s = w"
  shows "s = w \<or> prefix (w @ ''/'') s"
proof -
  have "s = w @ dropWhile (\<lambda>x. x \<noteq> CHR ''/'') s" using assms takeWhile_dropWhile_id by metis
  with dropWhile_slash_prefix [of s] show ?thesis
    by (metis append_Nil2 same_prefix_prefix)
qed

lemma dots_inv_move:
  assumes inv: "dots_inv (c # s) out"
    and nodots: "\<not> prefix ''../'' (c # s)" "\<not> prefix ''./'' (c # s)" "\<not> prefix ''/./'' (c # s)"
      "c # s \<noteq> ''/.''" "\<not> prefix ''/../'' (c # s)" "c # s \<noteq> ''/..''" "c # s \<noteq> ''.''" "c # s \<noteq> ''..''"
  shows "dots_inv (dropWhile (\<lambda>x. x \<noteq> CHR ''/'') s) (out @ first_segment (c # s))"
proof -
  let ?w = "takeWhile (\<lambda>x. x \<noteq> CHR ''/'') s"
  have "dot_free (out @ c # ?w)"
  proof (cases "c = CHR ''/''")
    case True
    have "?w \<noteq> ''.''" using takeWhile_seg_prefix [of s "''.''"] nodots True by auto
    moreover have "?w \<noteq> ''..''" using takeWhile_seg_prefix [of s "''..''"] nodots True by auto
    ultimately have "dot_free ?w" by (simp add: dot_free_segment takeWhile_no_slash)
    with inv True show ?thesis by (simp add: dots_inv_def)
  next
    case False
    with inv have "out = []" by (auto simp: dots_inv_def)
    have "c # ?w \<noteq> ''.''" using takeWhile_seg_prefix [of s "[]"] nodots False by auto
    moreover have "c # ?w \<noteq> ''..''" using takeWhile_seg_prefix [of s "''.''"] nodots False by auto
    ultimately have "dot_free (c # ?w)" using False
      by (subst dot_free_segment) (auto dest: set_takeWhileD)
    with \<open>out = []\<close> show ?thesis by simp
  qed
  with dropWhile_slash_prefix [of s] show ?thesis by (auto simp: dots_inv_def)
qed



text \<open>What one iteration of the loop does, case by case.\<close>

definition plain_segment_next :: "string \<Rightarrow> bool" where
  "plain_segment_next inp \<longleftrightarrow> \<not> prefix ''../'' inp \<and> \<not> prefix ''./'' inp \<and> \<not> prefix ''/./'' inp
     \<and> inp \<noteq> ''/.'' \<and> \<not> prefix ''/../'' inp \<and> inp \<noteq> ''/..'' \<and> inp \<noteq> ''.'' \<and> inp \<noteq> ''..''"

lemma dots_step_plain:
  "plain_segment_next (c # s) \<Longrightarrow> dots_step n (c # s) out =
     (let seg = first_segment (c # s) in
      if length out + length seg \<ge> n then None
      else Some (dropWhile (\<lambda>x. x \<noteq> CHR ''/'') s, out @ seg))"
  unfolding plain_segment_next_def dots_step_def drop_first_segment Let_def
  by (simp only: if_False simp_thms)

lemma dots_step_cases:
  assumes "dots_step n inp out = Some (i, t)" and "inp \<noteq> []"
  obtains (skip_rel) "\<not> prefix ''/'' inp" "t = out"
    | (skip_abs) "prefix ''/'' i" "t = out"
    | (pop) "prefix ''/'' i" "t = out_pop_segment out"
    | (move) c s where "inp = c # s" "plain_segment_next inp"
        "i = dropWhile (\<lambda>x. x \<noteq> CHR ''/'') s" "t = out @ first_segment inp"
        "length out + length (first_segment inp) < n"
proof (cases "plain_segment_next inp")
  case True
  moreover obtain c s where "inp = c # s" using assms(2) by (cases inp) auto
  ultimately show ?thesis
    using assms(1) by (intro move [of c s]) (simp_all add: dots_step_plain Let_def split: if_splits)
next
  case False
  then consider "prefix ''../'' inp" | "prefix ''./'' inp" | "prefix ''/./'' inp" | "inp = ''/.''"
    | "prefix ''/../'' inp" | "inp = ''/..''" | "inp = ''.'' \<or> inp = ''..''"
    unfolding plain_segment_next_def by blast
  then show ?thesis
  proof cases
    case 1
    with assms(1) show ?thesis by (intro skip_rel) (auto simp: dots_step_def elim!: prefixE)
  next
    case 2
    with assms(1) show ?thesis by (intro skip_rel) (auto simp: dots_step_def elim!: prefixE)
  next
    case 3
    with assms(1) show ?thesis by (intro skip_abs) (auto simp: dots_step_def elim!: prefixE)
  next
    case 4
    with assms(1) show ?thesis by (intro skip_abs) (auto simp: dots_step_def)
  next
    case 5
    with assms(1) show ?thesis by (intro pop) (auto simp: dots_step_def elim!: prefixE)
  next
    case 6
    with assms(1) show ?thesis by (intro pop) (auto simp: dots_step_def)
  next
    case 7
    with assms(1) show ?thesis by (intro skip_rel) (auto simp: dots_step_def)
  qed
qed

lemma dots_inv_step:
  assumes "dots_inv inp out" and "dots_step n inp out = Some (i, t)" and "inp \<noteq> []"
  shows "dots_inv i t"
  using assms(2,3)
proof (cases rule: dots_step_cases)
  case (move c s)
  with dots_inv_move [of c s out] assms(1) show ?thesis by (simp add: plain_segment_next_def)
qed (use assms(1,3) in \<open>auto simp: dots_inv_def dot_free_pop\<close>)

text \<open>The invariant rule of the loop: what every iteration keeps holds of the result.\<close>

lemma remove_dots_invariant:
  assumes "remove_dots n inp out = Some res" and "P inp out"
    and "\<And>inp out i t. P inp out \<Longrightarrow> inp \<noteq> [] \<Longrightarrow> dots_step n inp out = Some (i, t) \<Longrightarrow> P i t"
  shows "P [] res"
  using assms
proof (induction n inp out rule: remove_dots.induct)
  case (1 n inp out)
  show ?case
  proof (cases "inp = []")
    case True
    with 1 show ?thesis by (simp add: remove_dots.simps)
  next
    case False
    with "1.prems"(1) obtain i t where "dots_step n inp out = Some (i, t)" "remove_dots n i t = Some res"
      by (auto simp: remove_dots.simps [of n inp] split: option.splits)
    with "1.IH" [OF False, of "(i, t)" i t] "1.prems"(2,3) False show ?thesis by blast
  qed
qed

lemma out_pop_segment_length: "length (out_pop_segment out) \<le> length out"
  unfolding out_pop_segment_def using length_dropWhile_le [of "\<lambda>c. c \<noteq> CHR ''/''" "rev out"] by auto

lemma dots_step_shrinks:
  assumes "dots_step n inp out = Some (i, t)" and "inp \<noteq> []"
  shows "length t + length i \<le> length out + length inp"
  using assms
proof (cases rule: dots_step_cases)
  case (move c s)
  have "length (takeWhile (\<lambda>x. x \<noteq> CHR ''/'') s) + length (dropWhile (\<lambda>x. x \<noteq> CHR ''/'') s) = length s"
    by (metis length_append takeWhile_dropWhile_id)
  with move show ?thesis by simp
qed (use dots_step_length [OF assms] out_pop_segment_length [of out] in auto)


lemma remove_dots_dot_free: "remove_dots n inp [] = Some res \<Longrightarrow> dot_free res"
  using remove_dots_invariant [of n inp "[]" res dots_inv] dots_inv_step
  by (simp add: dots_inv_def)

lemma remove_dots_shrinks: "remove_dots n inp [] = Some res \<Longrightarrow> length res \<le> length inp"
  using remove_dots_invariant [of n inp "[]" res "\<lambda>i t. length t + length i \<le> length inp"]
    dots_step_shrinks by fastforce

lemma dots_step_fits:
  assumes "dots_step n inp out = Some (i, t)" and "inp \<noteq> []" and "length out < n"
  shows "length t < n"
  using assms(1,2) by (cases rule: dots_step_cases)
    (use assms(3) out_pop_segment_length [of out] in auto)

lemma remove_dots_fits: "remove_dots n inp [] = Some res \<Longrightarrow> 0 < n \<Longrightarrow> length res < n"
  using remove_dots_invariant [of n inp "[]" res "\<lambda>i t. length t < n"] dots_step_fits by fastforce

text \<open>Absolute input stays absolute: until the input is exhausted it starts with a slash.\<close>

definition abs_inv :: "string \<Rightarrow> string \<Rightarrow> bool" where
  "abs_inv inp out \<longleftrightarrow> (out = [] \<or> prefix ''/'' out) \<and> (prefix ''/'' inp \<or> inp = [] \<and> out \<noteq> [])"

lemma out_pop_segment_abs:
  "out = [] \<or> prefix ''/'' out \<Longrightarrow> out_pop_segment out = [] \<or> prefix ''/'' (out_pop_segment out)"
proof (cases "CHR ''/'' \<in> set out")
  case True
  assume abs: "out = [] \<or> prefix ''/'' out"
  from True obtain a b where "out = a @ CHR ''/'' # b" "CHR ''/'' \<notin> set b" by (rule rsplit_at)
  with abs out_pop_segment_slash [of b a] show ?thesis by (cases a) auto
qed (simp add: out_pop_segment_none)

lemma abs_inv_step:
  assumes "abs_inv inp out" and "inp \<noteq> []" and "dots_step n inp out = Some (i, t)"
  shows "abs_inv i t"
  using assms(3,2)
proof (cases rule: dots_step_cases)
  case (move c s)
  have "prefix ''/'' (out @ first_segment (c # s))"
    using assms(1) move(1) by (cases out) (auto simp: abs_inv_def)
  with move(1,3,4) dropWhile_slash_prefix [of s] show ?thesis by (auto simp: abs_inv_def)
qed (use assms(1,2) out_pop_segment_abs [of out] in \<open>simp_all add: abs_inv_def\<close>)

lemma remove_dots_absolute:
  assumes "remove_dots n inp [] = Some res" and "prefix ''/'' inp"
  shows "prefix ''/'' res"
proof -
  have "abs_inv [] res"
    using assms(1) by (rule remove_dots_invariant) (use assms(2) abs_inv_step in \<open>auto simp: abs_inv_def\<close>)
  then show ?thesis by (auto simp: abs_inv_def)
qed

text \<open>On dot-free input the loop copies: the reference behaviour is the identity.\<close>

lemma dot_free_plain:
  assumes "dot_free (c # s)" shows "plain_segment_next (c # s)"
proof -
  have no: "\<not> prefix p (c # s)" if "\<And>z. \<not> dot_free (p @ z)" for p
    using assms that by (auto simp: prefix_def)
  have "\<not> dot_free (''../'' @ z)" "\<not> dot_free (''./'' @ z)" "\<not> dot_free (''/./'' @ z)"
    "\<not> dot_free (''/../'' @ z)" for z
    by (simp_all add: dot_free_def)
  note pre = this [THEN no]
  have "\<not> dot_free ''/.''" "\<not> dot_free ''/..''" "\<not> dot_free ''.''" "\<not> dot_free ''..''"
    by (simp_all add: dot_free_def)
  with assms have "c # s \<noteq> ''/.''" "c # s \<noteq> ''/..''" "c # s \<noteq> ''.''" "c # s \<noteq> ''..''"
    by metis+
  with pre show ?thesis unfolding plain_segment_next_def by (intro conjI)
qed

lemma dot_free_rest:
  assumes "dot_free (c # s)" shows "dot_free (dropWhile (\<lambda>x. x \<noteq> CHR ''/'') s)"
proof (cases "CHR ''/'' \<in> set s")
  case True
  then obtain a b where s: "s = a @ CHR ''/'' # b" "CHR ''/'' \<notin> set a"
    by (metis split_list_first)
  then have "dropWhile (\<lambda>x. x \<noteq> CHR ''/'') s = CHR ''/'' # b"
    by simp
  moreover have "c # s = (c # a) @ CHR ''/'' # b" using s by simp
  ultimately show ?thesis using assms by (metis dot_free_append_slash dot_free_slash)
next
  case False
  then show ?thesis by simp
qed

lemma remove_dots_dot_free_id:
  "dot_free inp \<Longrightarrow> length out + length inp < n \<Longrightarrow> remove_dots n inp out = Some (out @ inp)"
proof (induction n inp out rule: remove_dots.induct)
  case (1 n inp out)
  show ?case
  proof (cases inp)
    case Nil
    then show ?thesis by (simp add: remove_dots.simps)
  next
    case (Cons c s)
    let ?r = "dropWhile (\<lambda>x. x \<noteq> CHR ''/'') s" and ?seg = "first_segment (c # s)"
    have split: "c # s = ?seg @ ?r" by simp
    then have len: "length (c # s) = length ?seg + length ?r" by (metis length_append)
    have step: "dots_step n inp out = Some (?r, out @ ?seg)"
      using "1.prems" Cons len dot_free_plain [of c s] by (auto simp: dots_step_plain Let_def)
    have "remove_dots n ?r (out @ ?seg) = Some ((out @ ?seg) @ ?r)"
      using "1.prems" Cons len
      by (intro "1.IH" [OF _ step refl]) (auto intro: dot_free_rest)
    with step Cons split show ?thesis by (subst remove_dots.simps) simp
  qed
qed

lemma url_remove_dot_segments_Inr:
  assumes "url_remove_dot_segments (Some path) (Some n) = Inr out"
  shows "dot_free out" and "fits out n" and "prefix ''/'' path \<Longrightarrow> prefix ''/'' out"
    and "length out \<le> length path"
proof -
  from assms have res: "remove_dots n path [] = Some out" and n: "0 < n"
    by (auto split: if_splits option.splits)
  show "dot_free out" using res by (rule remove_dots_dot_free)
  show "fits out n" using remove_dots_fits [OF res n] by (simp add: fits_def)
  show "prefix ''/'' path \<Longrightarrow> prefix ''/'' out" using remove_dots_absolute [OF res] .
  show "length out \<le> length path" using remove_dots_shrinks [OF res] .
qed

text \<open>A successful dot-segment removal yields a path with no \<^verbatim>\<open>.\<close> or \<^verbatim>\<open>..\<close> segment that fits the
  buffer, keeps an absolute path absolute, and is a fixed point: removing dot segments again
  changes nothing.\<close>

theorem url_remove_dot_segments_canonical:
  assumes "url_remove_dot_segments (Some path) (Some n) = Inr out"
  shows "dot_free out \<and> fits out n \<and> (prefix ''/'' path \<longrightarrow> prefix ''/'' out)
    \<and> url_remove_dot_segments (Some out) (Some n) = Inr out"
proof -
  note facts = url_remove_dot_segments_Inr [OF assms]
  have "0 < n" "length path \<le> URL_MAX_LEN" using assms by (auto split: if_splits)
  moreover have "remove_dots n out [] = Some out"
    using remove_dots_dot_free_id [OF facts(1), of "[]" n] facts(2) by (simp add: fits_def)
  ultimately show ?thesis using facts by (simp add: fits_def)
qed

theorem url_remove_dot_segments_canonical_witness:
  "url_remove_dot_segments (Some ''/a/b/../c/./d'') (Some 32) = Inr ''/a/c/d''
    \<and> url_remove_dot_segments (Some ''/a/c/d'') (Some 32) = Inr ''/a/c/d''"
proof -
  have run: "url_remove_dot_segments (Some ''/a/b/../c/./d'') (Some 32) = Inr ''/a/c/d''" by code_simp
  from url_remove_dot_segments_canonical [OF run] run show ?thesis by (elim conjE) (intro conjI)
qed

section \<open>Reference resolution\<close>

lemma url_is_https_split: 
  "url_is_https (Some u) \<Longrightarrow> \<exists>h r. drop 8 u = h # r \<and> h \<noteq> CHR ''/''"
  by (auto split: list.splits)

lemma url_is_https_length: "url_is_https (Some u) \<Longrightarrow> 8 < length u"
  using url_is_https_split [of u] by (cases "8 < length u") auto

lemma url_validate_https_OK:
  "url_validate_https (Some u) = URL_OK \<longleftrightarrow> length u \<le> URL_MAX_LEN \<and> url_is_https (Some u)"
  by (simp del: url_is_https.simps)

lemma takeWhile_append_stop:
  "list_all P a \<Longrightarrow> rest = [] \<or> \<not> P (hd rest) \<Longrightarrow> takeWhile P (a @ rest) = a"
  by (induction a) (auto, cases rest, auto)

lemma authority_len_le: "8 \<le> length url \<Longrightarrow> url_authority_len url \<le> length url"
  unfolding url_authority_len_def using length_takeWhile_le [of authority_char "drop 8 url"] by simp

text \<open>The authority is determined by the part of the URL up to its end: replacing what follows by
  anything that starts at a delimiter keeps it.\<close>

lemma url_authority_len_replace:
  assumes "8 \<le> length url" and "rest = [] \<or> \<not> authority_char (hd rest)"
  shows "url_authority_len (take (url_authority_len url) url @ rest) = url_authority_len url"
proof -
  let ?a = "takeWhile authority_char (drop 8 url)"
  have tk: "take (url_authority_len url) url = take 8 url @ ?a"
    by (simp add: url_authority_len_def take_add flip: takeWhile_eq_take)
  have "takeWhile authority_char (?a @ rest) = ?a"
    by (rule takeWhile_append_stop) (use assms(2) in \<open>auto simp: list_all_iff dest: set_takeWhileD\<close>)
  then show ?thesis using assms(1) unfolding tk by (simp add: url_authority_len_def)
qed

lemma origin_replace:
  assumes "url_is_https (Some base)" and "prefix ''/'' norm"
    and "url_is_https (Some (take (url_authority_len base) base @ norm))"
  shows "map_sum id url_origin (url_split (Some (take (url_authority_len base) base @ norm)))
       = map_sum id url_origin (url_split (Some base))"
proof -
  have len: "8 < length base" using assms(1) by (rule url_is_https_length)
  have auth: "url_authority_len (take (url_authority_len base) base @ norm) = url_authority_len base"
    using len assms(2) by (intro url_authority_len_replace) (auto simp: authority_char_def prefix_single_iff)
  have le: "url_authority_len base \<le> length base" using len by (intro authority_len_le) simp
  show ?thesis using assms(1,3) auth le by (simp add: Let_def del: url_is_https.simps)
qed

lemma last_slash_bounds:
  "last_slash i s f = Some k \<Longrightarrow> f = Some k \<or> (i \<le> k \<and> k < i + length s)"
  by (induction s arbitrary: i f) (fastforce split: if_splits)+

lemma last_slash_first:
  "last_slash i s None = Some k \<Longrightarrow> \<exists>c r. s = c # r \<and> c \<noteq> CHR ''?'' \<and> c \<noteq> CHR ''#''"
  by (cases s) (auto split: if_splits)

lemma merge_path_absolute:
  assumes "merge_path base ref = Some m"
  shows "prefix ''/'' m"
proof (cases "prefix ''/'' ref")
  case True
  with assms show ?thesis by (simp add: merge_path_def)
next
  case False
  let ?auth = "url_authority_len base"
  show ?thesis
  proof (cases "last_slash ?auth (drop ?auth base) None")
    case None
    with assms False show ?thesis 
      by (auto simp: merge_path_def dir_len_def Let_def split: option.splits)
  next
    case (Some k)
    then obtain c r where cr: "drop ?auth base = c # r" "c \<noteq> CHR ''?''" "c \<noteq> CHR ''#''"
      using last_slash_first by blast
    have "\<not> authority_char c"
    proof -
      have "drop ?auth base = dropWhile authority_char (drop 8 base)"
        by (metis add.commute drop_drop drop_length_takeWhile url_authority_len_def)
      with cr(1) show ?thesis using dropWhile_hd_stop by metis
    qed
    with cr have "c = CHR ''/''" by (simp add: authority_char_def)
    moreover have "?auth \<le> k" using last_slash_bounds [OF Some] by simp
    ultimately show ?thesis using assms False Some cr
      by (auto simp: merge_path_def dir_len_def Let_def Suc_diff_le split: option.splits)
  qed
qed

lemma resolve_relative_Inr:
  assumes "resolve_relative base ref n = Inr out"
  obtains norm where "out = take (url_authority_len base) base @ norm" "prefix ''/'' norm" "dot_free norm" "fits out n"
proof -
  let ?auth = "url_authority_len base"
  from assms obtain m norm where m: "merge_path base ref = Some m"
    and norm: "url_remove_dot_segments (Some m) (Some (URL_MAX_LEN + 1)) = Inr norm"
    and out: "out = take ?auth base @ norm" "fits out n"
    by (auto simp: resolve_relative_def Let_def split: if_splits option.splits sum.splits)
  show ?thesis
    by (rule that [OF out(1) _ _ out(2)])
      (use url_remove_dot_segments_Inr [OF norm] merge_path_absolute [OF m] in auto)
qed

lemma validated_Inr: "validated r = Inr out \<longleftrightarrow> r = Inr out \<and> url_validate_https (Some out) = URL_OK"
  by (auto simp: validated_def split: sum.splits if_splits)


text \<open>C1: whatever \<^verbatim>\<open>url_resolve_https\<close> writes is a valid https URL that fits the buffer, and a reference
  that is neither absolute nor protocol-relative never leaves the origin of the base: the output is
  the base's origin followed by an absolute path with no dot segment.\<close>

theorem url_resolve_https_safe:
  assumes "url_resolve_https (Some base) (Some ref) (Some n) = Inr out"
  shows "url_validate_https (Some out) = URL_OK \<and> fits out n
    \<and> (\<not> ci_prefix ref ''https://'' \<and> \<not> prefix ''//'' ref \<longrightarrow>
        map_sum id url_origin (url_split (Some out)) = map_sum id url_origin (url_split (Some base))
        \<and> (\<exists>path. out = take (url_authority_len base) base @ path \<and> prefix ''/'' path \<and> dot_free path))"
proof -
  have base: "url_validate_https (Some base) = URL_OK" using assms by (auto split: if_splits)
  have ok: "url_validate_https (Some out) = URL_OK" and fit: "fits out n"
    using assms by (auto simp: validated_Inr split: if_splits option.splits elim: resolve_relative_Inr simp del: url_validate_https.simps)
  show ?thesis
  proof (cases "ci_prefix ref ''https://'' \<or> prefix ''//'' ref")
    case True
    with ok fit show ?thesis by blast
  next
    case False
    with assms have "resolve_relative base ref n = Inr out"
      by (auto simp: validated_Inr split: if_splits simp del: url_validate_https.simps)
    then obtain norm where "out = take (url_authority_len base) base @ norm" "prefix ''/'' norm" "dot_free norm"
      by (rule resolve_relative_Inr)
    with ok fit base origin_replace [of base norm] show ?thesis
      unfolding url_validate_https_OK by blast
  qed
qed

theorem url_resolve_https_safe_witness:
  "url_resolve_https (Some ''https://a.b/c/d?x'') (Some ''../../e'') (Some 64) = Inr ''https://a.b/e''
    \<and> url_validate_https (Some ''https://a.b/e'') = URL_OK"
proof -
  have run: "url_resolve_https (Some ''https://a.b/c/d?x'') (Some ''../../e'') (Some 64) = Inr ''https://a.b/e''"
    by code_simp
  from url_resolve_https_safe [OF run] run show ?thesis by (elim conjE) (intro conjI)
qed

text \<open>C2: a local reference that resolves stays below the directory of the local base: the result is
  \<^verbatim>\<open>file://\<close> followed by an absolute path without dot segments that starts with that directory.\<close>

theorem url_resolve_file_confined:
  assumes "url_resolve_file (Some base) (Some ref) (Some n) = Inr out"
  shows "\<exists>canon. out = ''file://'' @ canon \<and> prefix (base_dir (drop 7 base)) canon
    \<and> prefix ''/'' canon \<and> dot_free canon \<and> fits out n"
proof -
  from assms obtain m canon
    where base: "url_is_file (Some base)" and dir: "base_dir (drop 7 base) \<noteq> []"
    and norm: "url_remove_dot_segments (Some m) (Some (URL_MAX_LEN + 1)) = Inr canon"
    and pre: "prefix (base_dir (drop 7 base)) canon"
    and out: "out = ''file://'' @ canon" "fits out n"
    by (auto simp: Let_def simp del: url_is_file.simps url_remove_dot_segments.simps
        split: if_splits sum.splits option.splits)
  have "prefix ''/'' (base_dir (drop 7 base))"
  proof -
    obtain a b where ab: "drop 7 base = a @ CHR ''/'' # b" "CHR ''/'' \<notin> set b"
      using base by (metis rsplit_at list.set_intros(1) prefix_single_iff url_is_file.simps(2))
    then have "base_dir (drop 7 base) = a @ ''/''"
      by (simp add: base_dir_def)
    moreover have "prefix ''/'' (a @ CHR ''/'' # b)" using base ab(1) by simp
    ultimately show ?thesis by (cases a) auto
  qed
  with pre out url_remove_dot_segments_Inr(1) [OF norm] show ?thesis
    by (metis prefix_order.trans)
qed

theorem url_resolve_file_confined_witness:
  "url_resolve_file (Some ''file:///home/u/p.html'') (Some ''img/../x.png'') (Some 64)
      = Inr ''file:///home/u/x.png''
    \<and> (\<exists>canon. ''file:///home/u/x.png'' = ''file://'' @ canon \<and> dot_free canon)"
proof -
  have run: "url_resolve_file (Some ''file:///home/u/p.html'') (Some ''img/../x.png'') (Some 64)
      = Inr ''file:///home/u/x.png''" by code_simp
  from url_resolve_file_confined [OF run] run show ?thesis by (elim exE conjE) (intro conjI exI)
qed

text \<open>The decomposition loses nothing.\<close>

lemma prefix_takeWhile_stop:
  "dropWhile (\<lambda>c. c \<noteq> d) s = [] \<or> prefix [d] (dropWhile (\<lambda>c. c \<noteq> d) s)"
  by (cases "dropWhile (\<lambda>c. c \<noteq> d) s") (auto dest: dropWhile_hd_stop)

lemma split_host_port_bracket:
  assumes "h = i @ CHR '']'' # t" and "CHR '']'' \<notin> set i" and "prefix ''['' h"
  shows "split_host_port h = (i @ '']'', if prefix '':'' t then drop 1 t else [])"
  using assms by (simp add: split_host_port_def Let_def)

lemma split_host_port_parts:
  "prefix (fst (split_host_port h)) h \<and> suffix (snd (split_host_port h)) h"
proof (cases "prefix ''['' h \<and> CHR '']'' \<in> set h")
  case True
  then obtain i t where h: "h = i @ CHR '']'' # t" "CHR '']'' \<notin> set i"
    by (metis split_list_first)
  have "suffix (drop 1 t) h" using h(1) by (simp add: suffix_appendI suffix_ConsI suffix_drop)
  with split_host_port_bracket [OF h] True h(1) show ?thesis by auto
next
  case False
  have "suffix (drop 1 (dropWhile (\<lambda>c. c \<noteq> CHR '':'') h)) h"
    by (meson suffix_drop suffix_dropWhile suffix_order.trans)
  with False show ?thesis
    by (auto simp: split_host_port_def Let_def takeWhile_is_prefix)
qed

lemma drop_authority:
  "drop (url_authority_len url) url = dropWhile authority_char (drop 8 url)"
  by (metis add.commute drop_drop drop_length_takeWhile url_authority_len_def)

lemma pathname_starts:
  assumes "r = [] \<or> \<not> authority_char (hd r)"
  shows "takeWhile (\<lambda>c. c \<noteq> CHR ''?'') (takeWhile (\<lambda>c. c \<noteq> CHR ''#'') r) = []
    \<or> prefix ''/'' (takeWhile (\<lambda>c. c \<noteq> CHR ''?'') (takeWhile (\<lambda>c. c \<noteq> CHR ''#'') r))"
  using assms by (cases r) (auto simp: authority_char_def)

lemma dropWhile_stops: "dropWhile P s = [] \<or> \<not> P (hd (dropWhile P s))"
  by (metis hd_dropWhile)

text \<open>The location decomposition loses no byte: origin, pathname, search and hash concatenate to the
  URL, the origin is the scheme followed by the host, host name and port are the two ends of the
  host, and each optional part is empty or starts with its delimiter.\<close>

theorem url_split_partition:
  assumes "url_split (Some url) = Inr p"
  shows "url_origin p @ url_pathname p @ url_search p @ url_hash p = url
    \<and> url_origin p = take 8 url @ url_host p
    \<and> prefix (url_hostname p) (url_host p) \<and> suffix (url_port p) (url_host p)
    \<and> (url_pathname p = [] \<or> prefix ''/'' (url_pathname p))
    \<and> (url_search p = [] \<or> prefix ''?'' (url_search p))
    \<and> (url_hash p = [] \<or> prefix ''#'' (url_hash p))"
proof -
  let ?n = "url_authority_len url" and ?r = "drop (url_authority_len url) url"
  let ?b = "takeWhile (\<lambda>c. c \<noteq> CHR ''#'') ?r"
  from assms have https: "url_is_https (Some url)"
    and p: "url_origin p = take ?n url" "url_host p = drop 8 (take ?n url)"
      "url_hostname p = fst (split_host_port (url_host p))" "url_port p = snd (split_host_port (url_host p))"
      "url_pathname p = takeWhile (\<lambda>c. c \<noteq> CHR ''?'') ?b" "url_search p = dropWhile (\<lambda>c. c \<noteq> CHR ''?'') ?b"
      "url_hash p = dropWhile (\<lambda>c. c \<noteq> CHR ''#'') ?r"
    by (auto simp: Let_def simp del: url_is_https.simps split: if_splits)
  have join: "url_pathname p @ url_search p @ url_hash p = ?r"
    unfolding p by (simp only: append_assoc [symmetric] takeWhile_dropWhile_id)
  have org: "url_origin p = take 8 url @ url_host p"
    unfolding p by (metis append_take_drop_id min.absorb1 take_take url_authority_len_def le_add1)
  have "url_pathname p = [] \<or> prefix ''/'' (url_pathname p)"
    unfolding p drop_authority by (rule pathname_starts [OF dropWhile_stops])
  moreover have "url_search p = [] \<or> prefix ''?'' (url_search p)" "url_hash p = [] \<or> prefix ''#'' (url_hash p)"
    unfolding p by (simp_all only: prefix_takeWhile_stop)
  moreover have "url_origin p @ url_pathname p @ url_search p @ url_hash p = url"
    by (simp only: join p(1) append_take_drop_id)
  ultimately show ?thesis
    using org split_host_port_parts [of "url_host p"] unfolding p(3,4) by blast
qed

theorem url_split_partition_witness:
  "\<exists>p. url_split (Some ''https://a.b:80/c?d#e'') = Inr p \<and> url_port p = ''80''
    \<and> url_origin p @ url_pathname p @ url_search p @ url_hash p = ''https://a.b:80/c?d#e''"
proof -
  define p where "p = \<lparr> url_href = ''https://a.b:80/c?d#e'', url_protocol = ''https:'', url_origin = ''https://a.b:80'',
    url_host = ''a.b:80'', url_hostname = ''a.b'', url_port = ''80'', url_pathname = ''/c'', url_search = ''?d'', url_hash = ''#e'' \<rparr>"
  have run: "url_split (Some ''https://a.b:80/c?d#e'') = Inr p" unfolding p_def by code_simp
  have "url_port p = ''80''" by (simp add: p_def)
  with url_split_partition [OF run] run show ?thesis by (elim conjE) (intro exI conjI)
qed

lemma url_resolve_https_fits:
  "url_resolve_https (Some base) (Some ref) (Some n) = Inr out \<Longrightarrow> fits out n"
  by (auto simp: validated_Inr split: if_splits option.splits elim: resolve_relative_Inr simp del: url_validate_https.simps)

section \<open>History target\<close>

lemma cut_query_append: 
  "prefix ''?'' r \<or> prefix ''#'' r \<Longrightarrow> cut_query (cut_query s @ r) = cut_query s"
  unfolding cut_query_def by (rule takeWhile_append_stop) (auto simp: list_all_iff prefix_single_iff dest: set_takeWhileD)

lemma takeWhile_cut:
  "(\<And>c. P c \<Longrightarrow> Q c) \<Longrightarrow> rest = [] \<or> \<not> P (hd rest) \<Longrightarrow> takeWhile P (takeWhile Q s @ rest) = takeWhile P s"
proof (induction s)
  case Nil
  then show ?case by (cases rest) auto
next
  case (Cons c s)
  then show ?case by (cases "Q c"; cases rest) auto
qed

lemma cut_query_cut_hash:
  "prefix ''#'' r \<Longrightarrow> cut_query (cut_hash s @ r) = cut_query s"
  unfolding cut_query_def cut_hash_def by (rule takeWhile_cut) (auto simp: prefix_single_iff)

lemma ci_prefix_take: "ci_prefix u p \<longleftrightarrow> length p \<le> length u \<and> lower_str (take (length p) u) = lower_str p"
  by (induction u p rule: ci_prefix.induct) auto

lemma takeWhile_all_take:
  "list_all Q (take k s) \<Longrightarrow> takeWhile Q s = take k s @ takeWhile Q (drop k s)"
  by (metis append_take_drop_id list.pred_set takeWhile_append2)

lemma lower_scheme_chars:
  assumes "lower_str s = ''https://'' \<or> lower_str s = ''file://''"
  shows "list_all (\<lambda>c. c \<noteq> CHR ''?'' \<and> c \<noteq> CHR ''#'') s"
proof -
  have "list_all (\<lambda>c. c \<noteq> CHR ''?'' \<and> c \<noteq> CHR ''#'') (lower_str s)" using assms by auto
  then show ?thesis by (simp add: list_all_iff)
qed

lemma lower_https: "lower_str ''https://'' = ''https://''" "lower_str ''file://'' = ''file://''"
  by code_simp+

lemma ci_prefix_https: "ci_prefix u ''https://'' \<longleftrightarrow> 8 \<le> length u \<and> lower_str (take 8 u) = ''https://''"
proof -
  have len: "length ''https://'' = 8" by simp
  from ci_prefix_take [of u "''https://''"] show ?thesis unfolding len lower_https .
qed

lemma ci_prefix_file: "ci_prefix u ''file://'' \<longleftrightarrow> 7 \<le> length u \<and> lower_str (take 7 u) = ''file://''"
proof -
  have len: "length ''file://'' = 7" by simp
  from ci_prefix_take [of u "''file://''"] show ?thesis unfolding len lower_https .
qed

lemma url_is_https_iff:
  "url_is_https (Some u) \<longleftrightarrow> lower_str (take 8 u) = ''https://'' \<and> (\<exists>h t. drop 8 u = h # t \<and> h \<noteq> CHR ''/'')"
proof -
  have "8 \<le> length u" if "drop 8 u = h # t" for h t using arg_cong [OF that, of length] by simp
  then show ?thesis by (auto simp only: url_is_https.simps ci_prefix_https split: list.splits)
qed

lemma url_is_file_iff:
  "url_is_file (Some u) \<longleftrightarrow> lower_str (take 7 u) = ''file://'' \<and> (\<exists>t. drop 7 u = CHR ''/'' # t)"
proof -
  have "7 \<le> length u" if "drop 7 u = h # t" for h t using arg_cong [OF that, of length] by simp
  then show ?thesis by (auto simp only: url_is_file.simps ci_prefix_file prefix_single_iff)
qed

text \<open>Cutting an https URL behind its authority and appending a query or a fragment keeps the origin.\<close>

lemma take_authority:
  "take (url_authority_len u) u = take 8 u @ takeWhile authority_char (drop 8 u)"
  by (simp add: url_authority_len_def take_add flip: takeWhile_eq_take)

lemma https_cut_append:
  assumes https: "url_is_https (Some base)"
    and Q: "\<And>c. authority_char c \<Longrightarrow> Q c" "\<And>c. c \<noteq> CHR ''?'' \<and> c \<noteq> CHR ''#'' \<Longrightarrow> Q c"
    and r: "prefix ''?'' r \<or> prefix ''#'' r"
  defines "u \<equiv> takeWhile Q base @ r"
  shows "url_is_https (Some u)" and "take (url_authority_len u) u = take (url_authority_len base) base"
proof -
  obtain h t where pre: "lower_str (take 8 base) = ''https://''" and ht: "drop 8 base = h # t" "h \<noteq> CHR ''/''"
    using https unfolding url_is_https_iff by (elim conjE exE)
  have len: "8 < length base" using https by (rule url_is_https_length)
  have "takeWhile Q base = take 8 base @ takeWhile Q (drop 8 base)"
    by (rule takeWhile_all_take) (use lower_scheme_chars [OF disjI1 [OF pre]] Q(2) in \<open>simp add: list_all_iff\<close>)
  then have u: "u = take 8 base @ takeWhile Q (drop 8 base) @ r" by (simp add: u_def)
  then have parts: "take 8 u = take 8 base" "drop 8 u = takeWhile Q (drop 8 base) @ r"
    using len by simp_all
  have auth: "takeWhile authority_char (drop 8 u) = takeWhile authority_char (drop 8 base)"
    unfolding parts by (rule takeWhile_cut [OF Q(1)]) (use r in \<open>auto simp: prefix_single_iff authority_char_def\<close>)
  then show "take (url_authority_len u) u = take (url_authority_len base) base"
    unfolding take_authority parts(1) by simp
  have "\<exists>h t. drop 8 u = h # t \<and> h \<noteq> CHR ''/''"
    using ht r unfolding parts(2) by (cases "Q h") (auto simp: prefix_single_iff)
  with pre show "url_is_https (Some u)" unfolding url_is_https_iff parts(1) by (rule conjI)
qed

lemma url_split_https:
  "url_is_https (Some u) \<Longrightarrow> \<exists>p. url_split (Some u) = Inr p \<and> url_origin p = take (url_authority_len u) u"
  by (simp add: Let_def del: url_is_https.simps)

lemma copy_bounded_Inr: "copy_bounded n a b = Inr out \<longleftrightarrow> out = a @ b \<and> fits out n"
  by (auto simp: copy_bounded_def fits_def)

lemma file_cut_append:
  assumes "url_is_file (Some base)" and Q: "\<And>c. c \<noteq> CHR ''?'' \<and> c \<noteq> CHR ''#'' \<Longrightarrow> Q c"
  shows "url_is_file (Some (takeWhile Q base @ r))"
proof -
  obtain t where pre: "lower_str (take 7 base) = ''file://''" and t: "drop 7 base = CHR ''/'' # t"
    using assms(1) unfolding url_is_file_iff by (elim conjE exE)
  have len: "7 < length base" using arg_cong [OF t, of length] by simp
  have "takeWhile Q base = take 7 base @ takeWhile Q (drop 7 base)"
    by (rule takeWhile_all_take) (use lower_scheme_chars [OF disjI2 [OF pre]] Q in \<open>simp add: list_all_iff\<close>)
  moreover have "Q CHR ''/''" by (rule Q) simp
  ultimately have "take 7 (takeWhile Q base @ r) = take 7 base"
    "drop 7 (takeWhile Q base @ r) = CHR ''/'' # takeWhile Q t @ r"
    using len t by simp_all
  with pre show ?thesis unfolding url_is_file_iff by simp
qed

lemma history_file:
  assumes "url_history_target (Some base) (Some ref) (Some n) = Inr out" and fl: "url_is_file (Some base)"
  shows "url_is_file (Some out) \<and> cut_query out = cut_query base \<and> fits out n"
proof -
  note del = url_is_file.simps
  consider (q) "prefix ''?'' ref" "out = cut_query base @ ref" | (h) "prefix ''#'' ref" "out = cut_hash base @ ref"
    | (e) "out = base"
    using assms by (auto simp: copy_bounded_Inr simp del: del split: if_splits)
  moreover have "fits out n" using assms by (auto simp: copy_bounded_Inr simp del: del split: if_splits)
  ultimately show ?thesis
  proof cases
    case q
    then show ?thesis using file_cut_append [OF fl] \<open>fits out n\<close> 
      by (simp add: cut_query_append del: del) (simp add: cut_query_def del: del)
  next
    case h
    then show ?thesis using file_cut_append [OF fl] \<open>fits out n\<close> 
      by (simp add: cut_query_cut_hash del: del) (simp add: cut_hash_def del: del)
  qed (simp add: fl del: del)
qed

lemma history_https_cases:
  assumes "url_history_target (Some base) (Some ref) (Some n) = Inr out" and "\<not> url_is_file (Some base)"
  obtains (keep) "out = base" "fits out n"
    | (query) "prefix ''?'' ref" "out = cut_query base @ ref" "fits out n"
    | (frag) "prefix ''#'' ref" "out = cut_hash base @ ref" "fits out n"
    | (nav) pb po where "url_resolve_https (Some base) (Some ref) (Some n) = Inr out"
        "url_split (Some base) = Inr pb" "url_split (Some out) = Inr po" 
        "lower_str (url_origin pb) = lower_str (url_origin po)"
  using assms
  by (auto simp: copy_bounded_Inr simp del: url_is_file.simps url_validate_https.simps url_resolve_https.simps
     url_split.simps split: if_splits sum.splits)

lemma history_https:
  assumes "url_history_target (Some base) (Some ref) (Some n) = Inr out" and nf: "\<not> url_is_file (Some base)"
  shows "fits out n \<and> url_is_https (Some base) \<and> (\<exists>pb po. url_split (Some base) = Inr pb \<and> url_split (Some out) = Inr po
    \<and> lower_str (url_origin pb) = lower_str (url_origin po))"
proof -
  have https: "url_is_https (Some base)"
  proof -
    have "url_validate_https (Some base) = URL_OK" using assms 
     by (auto simp del: url_is_file.simps url_validate_https.simps split: if_splits)
    then show ?thesis by (simp only: url_validate_https_OK)
  qed
  have same: ?thesis if "url_is_https (Some out)" "take (url_authority_len out) out = take (url_authority_len base) base" "fits out n"
    using url_split_https [OF https] url_split_https [OF that(1)] that(2,3) https by force
  show ?thesis using assms
  proof (cases rule: history_https_cases)
    case keep
    then show ?thesis using same https by blast
  next
    case query
    then show ?thesis 
      using https_cut_append [OF https, of "\<lambda>c. c \<noteq> CHR ''?'' \<and> c \<noteq> CHR ''#''" ref] same
      by (auto simp: cut_query_def authority_char_def simp del: url_is_https.simps)
  next
    case frag
    then show ?thesis 
      using https_cut_append [OF https, of "\<lambda>c. c \<noteq> CHR ''#''" ref] same
      by (auto simp: cut_hash_def authority_char_def simp del: url_is_https.simps)
  next
    case (nav pb po)
    then show ?thesis using https url_resolve_https_fits by blast
  qed
qed

text \<open>A History API target never leaves the document: on a local page the path stays the same and only
  query or fragment change; on a web page the new URL has the origin of the old one up to case.\<close>

theorem url_history_target_same_origin:
  assumes "url_history_target (Some base) (Some ref) (Some n) = Inr out"
  shows "fits out n \<and>
    (if url_is_file (Some base) then url_is_file (Some out) \<and> cut_query out = cut_query base
     else \<exists>pb po. url_split (Some base) = Inr pb \<and> url_split (Some out) = Inr po
       \<and> lower_str (url_origin pb) = lower_str (url_origin po))"
  using history_file [OF assms] history_https [OF assms] by (simp del: url_is_file.simps url_split.simps)

theorem url_history_target_same_origin_witness:
  "url_history_target (Some ''https://a.b/c?d'') (Some ''/e#f'') (Some 64) = Inr ''https://a.b/e#f''
    \<and> fits ''https://a.b/e#f'' 64"
proof -
  have run: "url_history_target (Some ''https://a.b/c?d'') (Some ''/e#f'') (Some 64) = Inr ''https://a.b/e#f''"
    by code_simp
  from url_history_target_same_origin [OF run] run show ?thesis by (elim conjE) (intro conjI)
qed

section \<open>Omnibox\<close>

lemma query_decode_char: "form_decode (query_encode_char c @ s) = c # form_decode s"
proof -
  have "is_unreserved c \<Longrightarrow> c \<noteq> CHR ''+'' \<and> c \<noteq> CHR ''%''"
    by (auto simp: is_unreserved_def ascii_class_defs)
  then show ?thesis using percent_decode [of c s] 
   by (simp add: query_encode_char_def del: form_decode.simps) (simp add: form_decode_plain)
qed

lemma query_decode_encode: "form_decode (concat (map query_encode_char s)) = s"
  by (induction s) (simp_all add: query_decode_char)

lemma append_query_encoded_Some:
  "append_query_encoded out n s = Some t \<Longrightarrow> t = out @ concat (map query_encode_char s) \<and> (fits out n \<longrightarrow> fits t n)"
  by (induction s arbitrary: out) (fastforce simp: Let_def fits_def split: if_splits)+

lemma append_query_encoded_enough:
  "length out + length (concat (map query_encode_char s)) < n \<Longrightarrow>
    append_query_encoded out n s = Some (out @ concat (map query_encode_char s))"
  by (induction s arbitrary: out) (auto simp: Let_def)

lemma build_search_Inr:
  "build_search q n = Inr out \<Longrightarrow> out = URL_SEARCH_ENDPOINT @ concat (map query_encode_char q) \<and> fits out n"
  by (auto simp: build_search_def split: option.splits dest: append_query_encoded_Some)

lemma trim_end_Nil: "trim_end (dropWhile is_space s) = [] \<Longrightarrow> dropWhile is_space s = []"
  by (metis dropWhile_eq_Nil_conv hd_dropWhile hd_in_set rev_is_Nil_conv set_rev trim_end_def)

definition omni_result :: "string \<Rightarrow> nat \<Rightarrow> url_omni_kind \<times> (url_status + string) \<Rightarrow> bool" where
  "omni_result start n r \<longleftrightarrow> (\<forall>out. snd r = Inr out \<longrightarrow> fits out n \<and>
     (case fst r of URL_OMNI_NAVIGATE \<Rightarrow> url_validate_https (Some out) = URL_OK
      | URL_OMNI_SEARCH \<Rightarrow> out = URL_SEARCH_ENDPOINT @ concat (map query_encode_char start)))"

lemma omni_search: "omni_result start n (search_for start n)"
  unfolding omni_result_def search_for_def by (auto dest: build_search_Inr)

lemma omni_navigate: "url_validate_https (Some u) = URL_OK \<Longrightarrow> omni_result start n (navigate_to u n)"
  unfolding omni_result_def navigate_to_def by (auto simp del: url_validate_https.simps split: option.splits)

lemma omni_token: "omni_result start n (omnibox_token start tok n)"
  unfolding omnibox_token_def
  by (auto intro!: omni_search omni_navigate simp del: url_validate_https.simps split: option.split)

lemma omni_choice: "omni_result (dropWhile is_space input) n (omnibox_choice (dropWhile is_space input) n)"
proof (cases "trim_end (dropWhile is_space input) = []")
  case True
  then have "dropWhile is_space input = []" by (rule trim_end_Nil)
  with True show ?thesis using omni_search [of "[]" n] by (simp only: omnibox_choice_def Let_def simp_thms if_True)
next
  case False
  then show ?thesis unfolding omnibox_choice_def Let_def
    by (simp only: if_False omni_search omni_token split: if_split) simp
qed

text \<open>Whatever is typed into the address bar, a result is either a valid https URL or the search
  endpoint followed by an encoding from which the server decodes exactly the typed text without
  its leading blanks; the result fits the buffer.\<close>

theorem url_omnibox_safe:
  assumes "url_omnibox (Some input) True (Some n) = Inr (kind, out)"
  shows "fits out n \<and>
    (case kind of URL_OMNI_NAVIGATE \<Rightarrow> url_validate_https (Some out) = URL_OK
     | URL_OMNI_SEARCH \<Rightarrow> prefix URL_SEARCH_ENDPOINT out \<and>
         form_decode (drop (length URL_SEARCH_ENDPOINT) out) = dropWhile is_space input)"
proof -
  let ?start = "dropWhile is_space input"
  let ?r = "omnibox_choice ?start n"
  have "snd ?r = Inr out" "fst ?r = kind"
    using assms by (auto simp: Let_def split: sum.splits if_splits)
  with omni_choice [of input n]
  have "fits out n \<and> (case kind of URL_OMNI_NAVIGATE \<Rightarrow> url_validate_https (Some out) = URL_OK
      | URL_OMNI_SEARCH \<Rightarrow> out = URL_SEARCH_ENDPOINT @ concat (map query_encode_char ?start))"
    unfolding omni_result_def by blast
  then show ?thesis by (cases kind) (auto simp: query_decode_encode simp del: url_validate_https.simps)
qed

theorem url_omnibox_safe_witness:
  "url_omnibox (Some '' a b&c'') True (Some 64)
      = Inr (URL_OMNI_SEARCH, ''https://html.duckduckgo.com/html/?q=a+b%26c'')
    \<and> fits ''https://html.duckduckgo.com/html/?q=a+b%26c'' 64"
proof -
  have run: "url_omnibox (Some '' a b&c'') True (Some 64)
      = Inr (URL_OMNI_SEARCH, ''https://html.duckduckgo.com/html/?q=a+b%26c'')" by code_simp
  from url_omnibox_safe [OF run] run show ?thesis by (elim conjE) (intro conjI)
qed

lemma query_encode_length: "length (concat (map query_encode_char s)) \<le> 3 * length s"
  by (induction s) (auto simp: query_encode_char_def)


lemma search_for_total:
  assumes "length URL_SEARCH_ENDPOINT + 3 * length q < n"
  shows "\<exists>out. snd (search_for q n) = Inr out"
proof -
  have "fits URL_SEARCH_ENDPOINT n"
    using assms by (simp add: fits_def)
  moreover have "append_query_encoded URL_SEARCH_ENDPOINT n q
      = Some (URL_SEARCH_ENDPOINT @ concat (map query_encode_char q))"
    using assms query_encode_length [of q] by (intro append_query_encoded_enough) linarith
  ultimately show ?thesis unfolding search_for_def build_search_def by simp
qed

lemma navigate_to_total:
  assumes "URL_MAX_LEN < n" and "url_validate_https (Some u) = URL_OK"
  shows "\<exists>out. snd (navigate_to u n) = Inr out"
proof -
  have "length u \<le> URL_MAX_LEN" using assms(2) by (simp only: url_validate_https_OK)
  then show ?thesis using assms(1) by (simp add: navigate_to_def copy_checked_def)
qed

lemma omnibox_token_total:
  assumes "URL_MAX_LEN < n" and "length URL_SEARCH_ENDPOINT + 3 * length start < n"
  shows "\<exists>out. snd (omnibox_token start tok n) = Inr out"
  unfolding omnibox_token_def
  using navigate_to_total [OF assms(1)] search_for_total [OF assms(2)]
  by (simp del: url_validate_https.simps split: option.split)

text \<open>The omnibox always produces a destination when the caller's buffer holds the longest URL and
  the fully escaped input.\<close>

theorem url_omnibox_total:
  assumes "URL_MAX_LEN < n" and "length URL_SEARCH_ENDPOINT + 3 * length input < n"
  shows "\<exists>kind out. url_omnibox (Some input) True (Some n) = Inr (kind, out)"
proof -
  let ?start = "dropWhile is_space input"
  have start: "length URL_SEARCH_ENDPOINT + 3 * length ?start < n"
    using assms(2) length_dropWhile_le [of is_space input] by linarith
  then have "length URL_SEARCH_ENDPOINT + 3 * length ([] :: string) < n" by simp
  with start have "\<exists>out. snd (omnibox_choice ?start n) = Inr out"
    using omnibox_token_total [OF assms(1)] search_for_total
    by (simp add: omnibox_choice_def Let_def del: list.size)
  then show ?thesis using assms(1) by (auto simp: Let_def)
qed

theorem url_omnibox_total_witness:
  "\<exists>kind out. url_omnibox (Some ''example.org'') True (Some 9000) = Inr (kind, out)"
  by (rule url_omnibox_total) code_simp+

section \<open>Userinfo\<close>

lemma pass_through_Inr:
  "pass_through url n = Inr r \<longleftrightarrow> r = \<lparr> clean_url = url, username = None, password = None \<rparr> \<and> fits url n"
  by (cases "fits url n") (auto simp: pass_through_def copy_checked_def fits_def split: if_splits)

lemma hand_out_Inr:
  "hand_out mem u wu wp a b = Inr r \<Longrightarrow> r = \<lparr> clean_url = u, username = (if wu then Some a else None),
     password = (if wp then Some b else None) \<rparr>"
  by (auto simp: hand_out_def split: if_splits)

lemma takeWhile_at_split:
  assumes "d \<in> set (takeWhile P s)"
  defines "info \<equiv> takeWhile (\<lambda>c. c \<noteq> d) (takeWhile P s)"
  shows "s = info @ d # drop (length info + 1) s" and "d \<notin> set info"
proof -
  obtain a b where ab: "takeWhile P s = a @ d # b" "d \<notin> set a"
    using split_list_first [OF assms(1)] by blast
  then have info: "info = a" by (simp add: info_def)
  obtain t where "s = (a @ d # b) @ t" using ab(1) by (metis takeWhile_dropWhile_id)
  then show "s = info @ d # drop (length info + 1) s" by (simp add: info)
  show "d \<notin> set info" using ab info by simp
qed

text \<open>Extraction either hands out no credentials and the URL unchanged, or splits the URL exactly at
  the first \<^verbatim>\<open>@\<close> of its authority: user and password are the two sides of the first colon of what
  stands before it, both shorter than 256 bytes, and the clean URL is https followed by what
  stands behind it.\<close>

theorem url_extract_userinfo_strips:
  assumes "url_extract_userinfo mem (Some url) (Some n) True True = Inr r"
  shows "fits (clean_url r) n \<and>
   (case (username r, password r) of
      (Some user, Some pass) \<Rightarrow> \<exists>info rest. url = take 8 url @ info @ CHR ''@'' # rest
          \<and> clean_url r = ''https://'' @ rest \<and> CHR ''@'' \<notin> set info \<and> CHR ''/'' \<notin> set info
          \<and> (info = user @ CHR '':'' # pass \<or> info = user \<and> pass = [])
          \<and> CHR '':'' \<notin> set user \<and> length user < 256 \<and> length pass < 256
    | (u, p) \<Rightarrow> u = None \<and> p = None \<and> clean_url r = url)"
proof -
  let ?auth = "takeWhile authority_char (drop 8 url)"
  let ?info = "takeWhile (\<lambda>c. c \<noteq> CHR ''@'') ?auth"
  let ?user = "takeWhile (\<lambda>c. c \<noteq> CHR '':'') ?info"
  let ?pass = "drop 1 (dropWhile (\<lambda>c. c \<noteq> CHR '':'') ?info)"
  let ?rest = "drop (length ?info + 1) (drop 8 url)"
  consider (pass) "pass_through url n = Inr r"
    | (out) "CHR ''@'' \<in> set ?auth" "length ?user \<le> 255" "length ?pass < 256" "fits (''https://'' @ ?rest) n"
        "hand_out mem (''https://'' @ ?rest) True True ?user ?pass = Inr r"
    using assms unfolding url_extract_userinfo.simps Let_def
    by (simp only: not_less not_le split: if_splits option.splits)
     (simp_all only: copy_checked_Some cat_checked_Some not_less not_le not_not sum.distinct)
  then show ?thesis
  proof cases
    case pass
    then show ?thesis by (simp add: pass_through_Inr)
  next
    case out
    have r: "clean_url r = ''https://'' @ ?rest" "username r = Some ?user" "password r = Some ?pass"
      using hand_out_Inr [OF out(5)] by simp_all
    have split: "drop 8 url = ?info @ CHR ''@'' # ?rest" "CHR ''@'' \<notin> set ?info"
      by (rule takeWhile_at_split [OF out(1)])+
    then have "url = take 8 url @ ?info @ CHR ''@'' # ?rest" by (metis append_take_drop_id)
    moreover have "CHR ''/'' \<notin> set ?info"
      by (metis authority_char_def set_takeWhileD)
    moreover have "?info = ?user @ CHR '':'' # ?pass \<or> ?info = ?user \<and> ?pass = []"
      using prefix_takeWhile_stop [of "CHR '':''" ?info] takeWhile_dropWhile_id [of "\<lambda>c. c \<noteq> CHR '':''" ?info]
      by (elim disjE) (auto simp only: prefix_single_iff append_Nil2 drop_Nil drop_Suc_Cons drop_0 One_nat_def)
    moreover have "CHR '':'' \<notin> set ?user" by (metis set_takeWhileD)
    moreover have "length ?user < 256" using out(2) by linarith
    ultimately show ?thesis using split(2) out(3,4) unfolding r option.case prod.case
      by (intro conjI exI [of _ ?info] exI [of _ ?rest] refl)
  qed
qed

theorem url_extract_userinfo_strips_witness:
  "\<exists>r. url_extract_userinfo (\<lambda>_. True) (Some ''https://u:p@h/x'') (Some 64) True True = Inr r
    \<and> clean_url r = ''https://h/x'' \<and> fits (clean_url r) 64"
proof -
  define r where "r = \<lparr> clean_url = ''https://h/x'', username = Some ''u'', password = Some ''p'' \<rparr>"
  have run: "url_extract_userinfo (\<lambda>_. True) (Some ''https://u:p@h/x'') (Some 64) True True = Inr r"
    unfolding r_def by code_simp
  have "clean_url r = ''https://h/x''" by (simp add: r_def)
  with url_extract_userinfo_strips [OF run] run show ?thesis by (elim conjE) (intro exI conjI)
qed

end
