(* ===== verification/Request_Policy.thy ===== *)
theory Request_Policy
  imports Url "HOL-Library.List_Lexorder"
begin

text \<open>
  The module \<^verbatim>\<open>src/request_policy.c\<close>: the site (registrable domain) of a host under the Public Suffix
  List, the third-party decision of a subresource request, and the filter on the headers a page
  may attach. The suffix tables are generated at build time, so they are a parameter \<open>psl\<close> of the
  model; what the header \<^verbatim>\<open>psl_data.h\<close> documents of them, that they are sorted by \<^verbatim>\<open>strcmp\<close>, is the
  hypothesis \<open>psl_sorted\<close>.
\<close>

section \<open>Model\<close>

record psl =
  psl_exceptions :: "string list"
  psl_rules :: "string list"
  psl_wildcards :: "string list"

definition psl_sorted :: "psl \<Rightarrow> bool" where
  "psl_sorted p \<longleftrightarrow> sorted (psl_exceptions p) \<and> sorted (psl_rules p) \<and> sorted (psl_wildcards p)"

datatype rp_decision = RP_ALLOW | RP_BLOCK_THIRD_PARTY | RP_BLOCK_SCHEME | RP_BLOCK_INVALID

definition RP_MAX_HOST :: nat where
  "RP_MAX_HOST = 255"

definition RP_MAX_LABELS :: nat where
  "RP_MAX_LABELS = 128"

subsection \<open>Public Suffix List lookup\<close>

text \<open>
  \<^verbatim>\<open>bsearch\<close> of the C library on the half-open range of indices from \<open>l\<close> to \<open>u\<close>. \<^verbatim>\<open>strcmp\<close> compares
  bytes as unsigned numbers, which is the lexicographic order of \<open>List_Lexorder\<close> on strings.
\<close>

function psl_bsearch :: "string list \<Rightarrow> string \<Rightarrow> nat \<Rightarrow> nat \<Rightarrow> bool" where
  "psl_bsearch arr key l u =
     (if l < u then
        let idx = (l + u) div 2 in
        if key < arr ! idx then psl_bsearch arr key l idx
        else if arr ! idx < key then psl_bsearch arr key (idx + 1) u
        else True
      else False)"
  by pat_completeness auto
termination
  by (relation "measure (\<lambda>(arr, key, l, u). u - l)") auto

declare psl_bsearch.simps [simp del]

definition psl_in :: "string list \<Rightarrow> string \<Rightarrow> bool" where
  "psl_in arr key = psl_bsearch arr key 0 (length arr)"

text \<open>One iteration of the loop over the label start \<open>s\<close>, on the pair of the longest matching rule
  and the longest matching exception so far.\<close>

definition psl_step :: "psl \<Rightarrow> string \<Rightarrow> nat list \<Rightarrow> nat \<Rightarrow> int \<times> int \<Rightarrow> nat \<Rightarrow> int \<times> int" where
  "psl_step p host off n st s =
     (let (best, exc) = st;
          cand = drop (off ! s) host;
          ncand = int n - int s;
          exc' = (if psl_in (psl_exceptions p) cand \<and> ncand - 1 > exc then ncand - 1 else exc);
          best' = (if psl_in (psl_rules p) cand \<and> ncand > best then ncand else best);
          best'' = (if s + 1 < n \<and> psl_in (psl_wildcards p) (drop (off ! (s + 1)) host) \<and> ncand > best'
                    then ncand else best')
      in (best'', exc'))"

definition public_suffix_labels :: "psl \<Rightarrow> string \<Rightarrow> nat list \<Rightarrow> nat \<Rightarrow> nat" where
  "public_suffix_labels p host off n =
     (let (best, exc) = foldl (psl_step p host off n) (-1, -1) [0..<n] in
      if exc \<ge> 0 then nat exc else if best \<ge> 1 then nat best else 1)"

subsection \<open>Host and site\<close>

definition skip_userinfo :: "string \<Rightarrow> string" where
  "skip_userinfo p =
     (if CHR ''@'' \<in> set (takeWhile authority_char p)
      then drop 1 (dropWhile (\<lambda>c. c \<noteq> CHR ''@'') p) else p)"

fun rp_host_of :: "cptr \<Rightarrow> cbuf \<Rightarrow> string option" where
  "rp_host_of (Some url) (Some out_size) =
     (if out_size = 0 then None
      else case strstr url ''://'' of
          None \<Rightarrow> None
        | Some q \<Rightarrow>
          (let h = takeWhile (\<lambda>c. authority_char c \<and> c \<noteq> CHR '':'') (skip_userinfo (drop 3 q)) in
           if h = [] \<or> length h + 1 > out_size then None else Some (lower_str h)))"
| "rp_host_of _ _ = None"

text \<open>The loop that records the start of every label; \<open>None\<close>: more labels than the array holds.\<close>

fun label_offsets :: "nat \<Rightarrow> string \<Rightarrow> nat list \<Rightarrow> nat list option" where
  "label_offsets i [] off = Some off"
| "label_offsets i (c # s) off =
     (if c = CHR ''.'' then
        (if length off \<ge> RP_MAX_LABELS then None else label_offsets (i + 1) s (off @ [i + 1]))
      else label_offsets (i + 1) s off)"

fun rp_site_of :: "psl \<Rightarrow> cptr \<Rightarrow> cbuf \<Rightarrow> string option" where
  "rp_site_of p (Some host) (Some out_size) =
     (if out_size = 0 then None
      else if length host = 0 \<or> length host > RP_MAX_HOST then None
      else case label_offsets 0 host [0] of
          None \<Rightarrow> None
        | Some off \<Rightarrow>
          (let buf = lower_str host;
               nlabels = length off;
               ps = public_suffix_labels p buf off nlabels;
               site = (if ps + 1 \<le> nlabels then drop (off ! (nlabels - (ps + 1))) buf else buf)
           in if length site + 1 > out_size then None else Some site))"
| "rp_site_of _ _ _ = None"

definition rp_same_site :: "psl \<Rightarrow> cptr \<Rightarrow> cptr \<Rightarrow> bool" where
  "rp_same_site p top_level_url request_url =
     (case rp_host_of top_level_url (Some 256) of None \<Rightarrow> False | Some th \<Rightarrow>
       (case rp_host_of request_url (Some 256) of None \<Rightarrow> False | Some rh \<Rightarrow>
         (case rp_site_of p (Some th) (Some 256) of None \<Rightarrow> False | Some ts \<Rightarrow>
           (case rp_site_of p (Some rh) (Some 256) of None \<Rightarrow> False | Some rs \<Rightarrow> ts = rs))))"

fun ci_starts_with :: "cptr \<Rightarrow> string \<Rightarrow> bool" where
  "ci_starts_with None pre = False"
| "ci_starts_with (Some s) pre = ci_prefix s pre"

text \<open>The source only tests the scheme of a pointer for which \<open>rp_host_of\<close> succeeded, so the first
  equation of \<open>ci_starts_with\<close> is never reached from here.\<close>

definition rp_evaluate :: "psl \<Rightarrow> cptr \<Rightarrow> cptr \<Rightarrow> rp_decision" where
  "rp_evaluate p top_level_url request_url =
     (case rp_host_of request_url (Some 256) of None \<Rightarrow> RP_BLOCK_INVALID | Some rh \<Rightarrow>
      if \<not> ci_starts_with request_url ''https://'' then RP_BLOCK_SCHEME
      else (case rp_host_of top_level_url (Some 256) of None \<Rightarrow> RP_BLOCK_INVALID | Some th \<Rightarrow>
      if \<not> ci_starts_with top_level_url ''https://'' then RP_BLOCK_INVALID
      else (case rp_site_of p (Some rh) (Some 256) of None \<Rightarrow> RP_BLOCK_INVALID | Some rs \<Rightarrow>
       (case rp_site_of p (Some th) (Some 256) of None \<Rightarrow> RP_BLOCK_INVALID | Some ts \<Rightarrow>
         if rs = ts then RP_ALLOW else RP_BLOCK_THIRD_PARTY))))"

subsection \<open>Request headers\<close>

definition RP_HDR_MAX_COUNT :: nat where
  "RP_HDR_MAX_COUNT = 32"

definition RP_HDR_MAX_BYTES :: nat where
  "RP_HDR_MAX_BYTES = 4096"

definition RP_HDR_NAME_MAX :: nat where
  "RP_HDR_NAME_MAX = 64"

definition RP_HDR_VALUE_MAX :: nat where
  "RP_HDR_VALUE_MAX = 1024"

abbreviation newline :: char where
  "newline \<equiv> CHR 0x0A"

function headers_have :: "string \<Rightarrow> string \<Rightarrow> bool" where
  "headers_have p name =
     (if p = [] then False
      else
        let l = takeWhile (\<lambda>c. c \<noteq> newline \<and> c \<noteq> CHR '':'') p;
            r = dropWhile (\<lambda>c. c \<noteq> newline \<and> c \<noteq> CHR '':'') p
        in if prefix '':'' r \<and> length l = length name \<and> lower_str l = lower_str name then True
           else headers_have (drop 1 (dropWhile (\<lambda>c. c \<noteq> newline) p)) name)"
  by pat_completeness auto
termination
  by (relation "measure (\<lambda>(p, name). length p)") (auto intro: length_drop1_dropWhile_less [simplified])

declare headers_have.simps [simp del]

fun rp_headers_have :: "cptr \<Rightarrow> cptr \<Rightarrow> bool" where
  "rp_headers_have (Some lines) (Some name) = headers_have lines name"
| "rp_headers_have _ _ = False"

definition hdr_token_char :: "char \<Rightarrow> bool" where
  "hdr_token_char c \<longleftrightarrow> is_digit c \<or> is_lower c \<or> is_upper c
     \<or> c \<in> set (''!#$%&*+-.^_|~'' @ [CHR 0x27, CHR 0x60])"

definition hdr_name_ieq :: "string \<Rightarrow> string \<Rightarrow> bool" where
  "hdr_name_ieq a lit \<longleftrightarrow> length a = length lit \<and> lower_str a = lit"

definition hdr_name_has_prefix :: "string \<Rightarrow> string \<Rightarrow> bool" where
  "hdr_name_has_prefix a lit \<longleftrightarrow> length a \<ge> length lit \<and> lower_str (take (length lit) a) = lit"

definition hdr_exact :: "string list" where
  "hdr_exact = [''host'', ''cookie'', ''cookie2'', ''set-cookie'', ''referer'', ''user-agent'',
     ''accept-language'', ''accept-encoding'', ''connection'', ''content-length'',
     ''transfer-encoding'', ''te'', ''upgrade'', ''keep-alive'', ''expect'', ''date'', ''dnt'',
     ''via'', ''trailer'', ''origin'', ''content-encoding'']"

definition hdr_forbidden :: "string \<Rightarrow> bool" where
  "hdr_forbidden n \<longleftrightarrow> list_ex (hdr_name_ieq n) hdr_exact
     \<or> hdr_name_has_prefix n ''sec-'' \<or> hdr_name_has_prefix n ''proxy-''
     \<or> hdr_name_has_prefix n ''x-http-method'' \<or> hdr_name_has_prefix n ''access-control-request-''"

definition is_blank :: "char \<Rightarrow> bool" where
  "is_blank c \<longleftrightarrow> c = CHR '' '' \<or> c = CHR 0x09"

definition value_char :: "char \<Rightarrow> bool" where
  "value_char c \<longleftrightarrow> \<not> (c < CHR 0x20 \<and> c \<noteq> CHR 0x09 \<or> c = CHR 0x7F)"

definition trim_blank :: "string \<Rightarrow> string" where
  "trim_blank s = rev (dropWhile is_blank (rev (dropWhile is_blank s)))"

text \<open>The checks of the loop body that look at one line only: the name and the value the line
  carries, or \<open>None\<close> where the body continues with the next line.\<close>

definition parse_header :: "string \<Rightarrow> (string \<times> string) option" where
  "parse_header line =
     (let name = takeWhile (\<lambda>c. c \<noteq> CHR '':'') line;
          v = trim_blank (drop 1 (dropWhile (\<lambda>c. c \<noteq> CHR '':'') line))
      in if CHR '':'' \<notin> set line \<or> name = [] then None
         else if length name > RP_HDR_NAME_MAX then None
         else if \<not> list_all hdr_token_char name \<or> hdr_forbidden name then None
         else if length v > RP_HDR_VALUE_MAX then None
         else if \<not> list_all value_char v then None
         else Some (name, v))"

definition render_header :: "string \<times> string \<Rightarrow> string" where
  "render_header h = fst h @ '': '' @ snd h @ [newline]"

text \<open>The loop body on one line, then the loop.\<close>

definition sanitize_line :: "nat \<Rightarrow> string \<Rightarrow> string \<times> nat \<Rightarrow> string \<times> nat" where
  "sanitize_line cap line st =
     (case parse_header line of
        None \<Rightarrow> st
      | Some (name, v) \<Rightarrow>
        (if rp_headers_have (Some (fst st)) (Some (lower_str name)) then st
         else
           let used = length (fst st); need = length name + 2 + length v + 1 in
           if used + need + 1 > cap \<or> used + need > RP_HDR_MAX_BYTES then st
           else (fst st @ render_header (name, v), snd st + 1)))"

function sanitize_lines :: "nat \<Rightarrow> string \<Rightarrow> string \<times> nat \<Rightarrow> string \<times> nat" where
  "sanitize_lines cap p st =
     (if p = [] \<or> snd st \<ge> RP_HDR_MAX_COUNT then st
      else sanitize_lines cap (drop 1 (dropWhile (\<lambda>c. c \<noteq> newline) p))
             (sanitize_line cap (takeWhile (\<lambda>c. c \<noteq> newline) p) st))"
  by pat_completeness auto
termination
  by (relation "measure (\<lambda>(cap, p, st). length p)")
    (auto intro: length_drop1_dropWhile_less [simplified])

declare sanitize_lines.simps [simp del]

text \<open>\<open>None\<close> is the result \<^verbatim>\<open>-1\<close>.\<close>

fun rp_sanitize_request_headers :: "cptr \<Rightarrow> cbuf \<Rightarrow> (string \<times> nat) option" where
  "rp_sanitize_request_headers (Some raw) (Some cap) =
     (if cap = 0 then None else Some (sanitize_lines cap raw ([], 0)))"
| "rp_sanitize_request_headers _ _ = None"

section \<open>Binary search\<close>

lemma psl_bsearch_sound: "psl_bsearch arr key l u \<Longrightarrow> u \<le> length arr \<Longrightarrow> key \<in> set arr"
proof (induction arr key l u rule: psl_bsearch.induct)
  case (1 arr key l u)
  then show ?case
    by (subst (asm) (2) psl_bsearch.simps) (auto simp: Let_def not_less split: if_splits)
qed

lemma psl_bsearch_complete:
  "sorted arr \<Longrightarrow> l \<le> i \<Longrightarrow> i < u \<Longrightarrow> u \<le> length arr \<Longrightarrow> arr ! i = key \<Longrightarrow> psl_bsearch arr key l u"
proof (induction arr key l u rule: psl_bsearch.induct)
  case (1 arr key l u)
  let ?m = "(l + u) div 2"
  have m: "l \<le> ?m" "?m < u" "?m < length arr" using 1 by linarith+
  have "arr ! ?m \<le> key" if "?m \<le> i" using sorted_nth_mono [of arr ?m i] 1 that by auto
  moreover have "key \<le> arr ! ?m" if "i \<le> ?m" using sorted_nth_mono [of arr i ?m] 1 that m by auto
  ultimately have "key < arr ! ?m \<Longrightarrow> i < ?m" "arr ! ?m < key \<Longrightarrow> ?m + 1 \<le> i"
    by (meson leD not_le_imp_less, metis Suc_eq_plus1 Suc_leI leD not_le_imp_less)
  with 1 m show ?case by (subst psl_bsearch.simps) (auto simp: Let_def)
qed

lemma psl_in_set: "sorted arr \<Longrightarrow> psl_in arr key \<longleftrightarrow> key \<in> set arr"
  unfolding psl_in_def
  by (metis in_set_conv_nth le0 order_refl psl_bsearch_complete psl_bsearch_sound)

section \<open>The public suffix of a host\<close>

text \<open>The domain suffixes of a host, the longest first: the host itself, then what follows each dot.\<close>

fun tails_after :: "char \<Rightarrow> string \<Rightarrow> string list" where
  "tails_after d [] = []"
| "tails_after d (c # s) = (if c = d then s # tails_after d s else tails_after d s)"

definition domain_suffixes :: "string \<Rightarrow> string list" where
  "domain_suffixes h = h # tails_after CHR ''.'' h"

text \<open>The suffix of a host that has \<open>k\<close> labels.\<close>

definition label_suffix :: "string \<Rightarrow> nat \<Rightarrow> string" where
  "label_suffix h k = domain_suffixes h ! (length (domain_suffixes h) - k)"

abbreviation label_count :: "string \<Rightarrow> nat" where
  "label_count h \<equiv> length (domain_suffixes h)"

text \<open>
  The algorithm as \<^verbatim>\<open>publicsuffix.org\<close> states it: an exception rule wins and gives its own length
  less one label; otherwise the longest matching rule, where \<^verbatim>\<open>*.x\<close> matches one label more than
  \<^verbatim>\<open>x\<close>; otherwise one label.
\<close>

definition exception_lengths :: "psl \<Rightarrow> string \<Rightarrow> nat set" where
  "exception_lengths p h = {k \<in> {1..label_count h}. label_suffix h k \<in> set (psl_exceptions p)}"

definition rule_lengths :: "psl \<Rightarrow> string \<Rightarrow> nat set" where
  "rule_lengths p h = {k \<in> {1..label_count h}. label_suffix h k \<in> set (psl_rules p)
     \<or> 2 \<le> k \<and> label_suffix h (k - 1) \<in> set (psl_wildcards p)}"

definition psl_suffix_len :: "psl \<Rightarrow> string \<Rightarrow> nat" where
  "psl_suffix_len p h =
     (if exception_lengths p h \<noteq> {} then Max (exception_lengths p h) - 1
      else if rule_lengths p h \<noteq> {} then Max (rule_lengths p h) else 1)"

definition registrable :: "psl \<Rightarrow> string \<Rightarrow> string" where
  "registrable p h = domain_suffixes h ! (label_count h - (psl_suffix_len p h + 1))"

lemma label_offsets_tails:
  assumes "label_offsets i s off = Some off'" and "hst = a @ s" and "length a = i"
  shows "map (\<lambda>k. drop k hst) off' = map (\<lambda>k. drop k hst) off @ tails_after CHR ''.'' s"
  using assms
proof (induction i s off arbitrary: a rule: label_offsets.induct)
  case (2 i c s off)
  show ?case
  proof (cases "c = CHR ''.''")
    case True
    with 2 have "map (\<lambda>k. drop k hst) off' = map (\<lambda>k. drop k hst) (off @ [i + 1]) @ tails_after CHR ''.'' s"
      by (intro "2.IH"(1) [of "a @ [c]"]) (auto split: if_splits)
    moreover have "drop (i + 1) hst = s" using "2.prems" by simp
    ultimately show ?thesis using True by simp
  next
    case False
    with 2 show ?thesis by (auto intro: "2.IH"(2) [of "a @ [c]"])
  qed
qed simp

lemma label_offsets_suffixes:
  "label_offsets 0 hst [0] = Some off \<Longrightarrow> map (\<lambda>k. drop k hst) off = domain_suffixes hst"
  using label_offsets_tails [of 0 hst "[0]" off hst "[]"] by (simp add: domain_suffixes_def)

lemma length_tails_after: "length (tails_after d s) = count_list s d"
  by (induction s) auto

lemma label_offsets_lower:
  "label_offsets i (lower_str s) off = label_offsets i s off"
  by (induction i s off rule: label_offsets.induct) auto

lemma label_offsets_Some:
  "length off \<le> RP_MAX_LABELS \<Longrightarrow>
    (\<exists>off'. label_offsets i s off = Some off') \<longleftrightarrow> length off + count_list s CHR ''.'' \<le> RP_MAX_LABELS"
  by (induction i s off rule: label_offsets.induct) auto

text \<open>The accumulating loop computes the maximum of the values that pass its test.\<close>

lemma Max_insert_max: "finite S \<Longrightarrow> Max (insert (max a b) S) = Max (insert a (insert (b :: int) S))"
  by (cases "S = {}") (simp_all add: max.assoc)

lemma foldl_running_max:
  "foldl (\<lambda>b s. if P s \<and> f s > b then f s else b) (b :: int) xs = Max (insert b (f ` {s \<in> set xs. P s}))"
proof (induction xs arbitrary: b)
  case (Cons x xs)
  have step: "(if P x \<and> f x > b then f x else b) = (if P x then max b (f x) else b)" by (simp add: max_def)
  have "f ` {s \<in> set (x # xs). P s} = (if P x then insert (f x) (f ` {s \<in> set xs. P s}) else f ` {s \<in> set xs. P s})"
    by auto
  then show ?case using Max_insert_max [of "f ` {s \<in> set xs. P s}" b "f x"]
    unfolding foldl_Cons step Cons by (cases "P x") simp_all
qed simp

lemma foldl_pair:
  "foldl (\<lambda>st s. (f (fst st) s, g (snd st) s)) (a, b) xs = (foldl f a xs, foldl g b xs)"
  by (induction xs arbitrary: a b) auto

lemma Max_insert_shift:
  fixes K :: "nat set"
  assumes "finite K" and "K \<noteq> {}" and "\<And>k. k \<in> K \<Longrightarrow> c \<le> k"
  shows "Max (insert (-1) ((\<lambda>k. int k - int c) ` K)) = int (Max K - c)"
proof -
  have "mono (\<lambda>k. int k - int c)" by (rule monoI) simp
  then have "Max ((\<lambda>k. int k - int c) ` K) = int (Max K) - int c"
    using mono_Max_commute [of "\<lambda>k. int k - int c" K] assms(1,2) by simp
  moreover have "c \<le> Max K" using assms Max_in [of K] by blast
  ultimately show ?thesis using assms(1,2) by simp
qed

lemma from_left_to_length:
  assumes "n = label_count h"
  shows "(\<lambda>s. int n - int s - c) ` {s \<in> {0..<n}. P (domain_suffixes h ! s) s}
       = (\<lambda>k. int k - c) ` {k \<in> {1..n}. P (label_suffix h k) (n - k)}" (is "?f ` ?A = ?g ` ?B")
proof (intro equalityI subsetI)
  fix x assume "x \<in> ?f ` ?A"
  then obtain s where s: "s < n" "P (domain_suffixes h ! s) s" "x = ?f s" by auto
  then have "n - s \<in> ?B" "x = ?g (n - s)" using assms by (auto simp: label_suffix_def)
  then show "x \<in> ?g ` ?B" by blast
next
  fix x assume "x \<in> ?g ` ?B"
  then obtain k where k: "1 \<le> k" "k \<le> n" "P (label_suffix h k) (n - k)" "x = ?g k" by auto
  then have "n - k \<in> ?A" "x = ?f (n - k)" using assms by (auto simp: label_suffix_def)
  then show "x \<in> ?f ` ?A" by blast
qed

lemma public_suffix_labels_correct:
  assumes srt: "psl_sorted p" and off: "label_offsets 0 h [0] = Some off"
  shows "public_suffix_labels p h off (length off) = psl_suffix_len p h"
proof -
  let ?n = "length off" and ?D = "domain_suffixes h"
  let ?R = "\<lambda>s. ?D ! s \<in> set (psl_rules p) \<or> s + 1 < ?n \<and> ?D ! (s + 1) \<in> set (psl_wildcards p)"
  let ?E = "\<lambda>s. ?D ! s \<in> set (psl_exceptions p)"
  let ?f = "\<lambda>b s. if ?R s \<and> int ?n - int s - 0 > b then int ?n - int s - 0 else b"
  let ?g = "\<lambda>b s. if ?E s \<and> int ?n - int s - 1 > b then int ?n - int s - 1 else b"
  have D: "map (\<lambda>k. drop k h) off = ?D" using off by (rule label_offsets_suffixes)
  then have n: "?n = label_count h" by (metis length_map)
  have nth: "drop (off ! s) h = ?D ! s" if "s < ?n" for s using that by (simp flip: D)
  have step: "psl_step p h off ?n st s = (?f (fst st) s, ?g (snd st) s)" if "s < ?n" for st s
    using srt that by (cases st) (auto simp: psl_step_def Let_def nth psl_in_set psl_sorted_def)
  have fold: "foldl (psl_step p h off ?n) (-1, -1) [0..<?n] = (foldl ?f (-1) [0..<?n], foldl ?g (-1) [0..<?n])"
    unfolding foldl_pair [symmetric] by (rule foldl_cong) (auto simp: step)
  have rules: "{k \<in> {1..?n}. label_suffix h k \<in> set (psl_rules p) \<or> ?n - k + 1 < ?n \<and> ?D ! (?n - k + 1) \<in> set (psl_wildcards p)}
      = rule_lengths p h"
    unfolding rule_lengths_def n label_suffix_def by (intro Collect_cong conj_cong refl disj_cong) (auto simp: Suc_diff_le)
  have excs: "{k \<in> {1..?n}. label_suffix h k \<in> set (psl_exceptions p)} = exception_lengths p h"
    by (simp add: exception_lengths_def n)
  have best: "foldl ?f (-1) [0..<?n] = Max (insert (-1) ((\<lambda>k. int k - 0) ` rule_lengths p h))"
    unfolding foldl_running_max set_upt rules [symmetric]
    using from_left_to_length [OF n, of 0 "\<lambda>d s. d \<in> set (psl_rules p) \<or> s + 1 < ?n \<and> ?D ! (s + 1) \<in> set (psl_wildcards p)"]
    by presburger
  have exc: "foldl ?g (-1) [0..<?n] = Max (insert (-1) ((\<lambda>k. int k - 1) ` exception_lengths p h))"
    unfolding foldl_running_max set_upt excs [symmetric]
    using from_left_to_length [OF n, of 1 "\<lambda>d s. d \<in> set (psl_exceptions p)"] by presburger
  have fin: "finite (rule_lengths p h)" "finite (exception_lengths p h)"
    and pos: "\<And>k. k \<in> rule_lengths p h \<Longrightarrow> 1 \<le> k" "\<And>k. k \<in> exception_lengths p h \<Longrightarrow> 1 \<le> k"
    by (auto simp: rule_lengths_def exception_lengths_def)
  have best': "foldl ?f (-1) [0..<?n] = (if rule_lengths p h = {} then -1 else int (Max (rule_lengths p h)))"
    using Max_insert_shift [OF fin(1), of 0] unfolding best by auto
  have exc': "foldl ?g (-1) [0..<?n] = (if exception_lengths p h = {} then -1 else int (Max (exception_lengths p h) - 1))"
    using Max_insert_shift [OF fin(2), of 1] pos(2) unfolding exc by auto
  have "1 \<le> Max (rule_lengths p h)" if "rule_lengths p h \<noteq> {}" using that fin(1) pos(1) Max_in by blast
  then show ?thesis
    unfolding public_suffix_labels_def fold best' exc' Let_def prod.case psl_suffix_len_def by auto
qed


section \<open>Sites and decisions\<close>

lemma site_of_registrable:
  assumes srt: "psl_sorted p"
  shows "rp_site_of p (Some h) (Some n) = 
    (if h \<noteq> [] \<and> length h \<le> RP_MAX_HOST \<and> label_count h \<le> RP_MAX_LABELS
        \<and> length (registrable p (lower_str h)) < n
     then Some (registrable p (lower_str h)) else None)"
proof (cases "label_offsets 0 h [0]")
  case None
  then have "\<not> label_count h \<le> RP_MAX_LABELS"
    using label_offsets_Some [of "[0]" 0 h]
    by (simp add: domain_suffixes_def length_tails_after RP_MAX_LABELS_def)
  with None show ?thesis by simp
next
  case (Some off)
  let ?b = "lower_str h"
  have off: "label_offsets 0 ?b [0] = Some off" using Some by (simp add: label_offsets_lower)
  then have D: "map (\<lambda>k. drop k ?b) off = domain_suffixes ?b" by (rule label_offsets_suffixes)
  then have n: "length off = label_count ?b" by (metis length_map)
  have cnt: "label_count ?b = label_count h" 
    using label_offsets_suffixes [OF Some] n by (metis length_map)
  have le: "label_count h \<le> RP_MAX_LABELS"
    using label_offsets_Some [of "[0]" 0 h] Some
    by (simp add: domain_suffixes_def length_tails_after RP_MAX_LABELS_def)
  have nth: "drop (off ! s) ?b = domain_suffixes ?b ! s" if "s < length off" for s using that by (simp flip: D)
  have whole: "?b = domain_suffixes ?b ! 0" by (simp add: domain_suffixes_def)
  let ?ps = "psl_suffix_len p ?b"
  have site: "(if ?ps + 1 \<le> length off then drop (off ! (length off - (?ps + 1))) ?b else ?b) = registrable p ?b"
    unfolding registrable_def n [symmetric] using nth whole by auto
  show ?thesis
    unfolding rp_site_of.simps Some option.case Let_def public_suffix_labels_correct [OF srt off] site
    using le by (auto simp del: length_map)
qed

text \<open>With sorted suffix tables the site of a host is its registrable domain as the Public Suffix List
  algorithm defines it (exception rules first, then the longest rule, wildcards included, then one
  label; plus one label), and the call fails exactly on an empty or oversized host, too many labels
  or a short buffer.\<close>

theorem rp_site_of_registrable:
  assumes "psl_sorted p"
  shows "rp_site_of p (Some h) (Some n) =
    (if h \<noteq> [] \<and> length h \<le> RP_MAX_HOST \<and> label_count h \<le> RP_MAX_LABELS
        \<and> length (registrable p (lower_str h)) < n
     then Some (registrable p (lower_str h)) else None)"
  using assms by (rule site_of_registrable)

definition sample_psl :: psl where
  "sample_psl = \<lparr> psl_exceptions = [''www.ck''], psl_rules = [''co.uk'', ''com'', ''uk''],
     psl_wildcards = [''ck''] \<rparr>"

lemma sample_psl_sorted: "psl_sorted sample_psl"
  by code_simp

theorem rp_site_of_registrable_witness:
  "psl_sorted sample_psl \<and> registrable sample_psl (lower_str ''News.BBC.co.uk'') = ''bbc.co.uk''"
proof -
  have "rp_site_of sample_psl (Some ''News.BBC.co.uk'') (Some 256) = Some ''bbc.co.uk''" by code_simp
  then show ?thesis
    unfolding rp_site_of_registrable [OF sample_psl_sorted] by (simp only: sample_psl_sorted split: if_splits) simp_all
qed

lemma rp_host_of_Some:
  "rp_host_of (Some u) (Some n) = Some h \<Longrightarrow> h \<noteq> [] \<and> length h < n \<and> lower_str h = h"
  by (auto simp: Let_def split: if_splits option.splits)

lemma tails_after_length: "t \<in> set (tails_after d s) \<Longrightarrow> length t < length s"
  by (induction s) (auto split: if_splits)

lemma registrable_in: "registrable p h \<in> set (domain_suffixes h)"
  unfolding registrable_def by (rule nth_mem) (simp add: domain_suffixes_def)

lemma registrable_length: "length (registrable p h) \<le> length h"
  using registrable_in [of p h] by (auto simp: domain_suffixes_def dest: tails_after_length)

lemma site_of_host:
  assumes "psl_sorted p" and "rp_host_of (Some u) (Some 256) = Some h"
  shows "rp_site_of p (Some h) (Some 256) = 
    (if label_count h \<le> RP_MAX_LABELS then Some (registrable p h) else None)"
  using site_of_registrable [OF assms(1), of h 256] rp_host_of_Some [OF assms(2)] registrable_length [of p h]
  by (simp add: RP_MAX_HOST_def)

text \<open>C3: a subresource request is allowed exactly when document and request are both https and the hosts
  they name have the same registrable domain.\<close>

theorem rp_evaluate_allow:
  assumes "psl_sorted p"
  shows "rp_evaluate p (Some doc) (Some req) = RP_ALLOW \<longleftrightarrow>
    ci_prefix doc ''https://'' \<and> ci_prefix req ''https://'' \<and>
    (\<exists>th rh. rp_host_of (Some doc) (Some 256) = Some th \<and> rp_host_of (Some req) (Some 256) = Some rh
       \<and> label_count th \<le> RP_MAX_LABELS \<and> label_count rh \<le> RP_MAX_LABELS
       \<and> registrable p th = registrable p rh)"
  unfolding rp_evaluate_def
  using site_of_host [OF assms, of doc] site_of_host [OF assms, of req]
  by (auto split: option.splits if_splits simp del: rp_host_of.simps rp_site_of.simps)

theorem rp_evaluate_allow_witness:
  "rp_evaluate sample_psl (Some ''https://www.bbc.co.uk/'') (Some ''https://img.bbc.co.uk/x.png'') = RP_ALLOW
   \<and> (\<exists>th rh. rp_host_of (Some ''https://www.bbc.co.uk/'') (Some 256) = Some th
       \<and> rp_host_of (Some ''https://img.bbc.co.uk/x.png'') (Some 256) = Some rh
       \<and> registrable sample_psl th = registrable sample_psl rh)"
proof -
  have run: "rp_evaluate sample_psl (Some ''https://www.bbc.co.uk/'') (Some ''https://img.bbc.co.uk/x.png'') = RP_ALLOW"
    by code_simp
  from run [unfolded rp_evaluate_allow [OF sample_psl_sorted]] run show ?thesis
    by (elim conjE exE) (intro conjI exI)
qed

section \<open>Request headers\<close>

lemma takeWhile_append_both: "list_all P a \<Longrightarrow> takeWhile P (a @ b) = a @ takeWhile P b"
  by (simp add: list_all_iff takeWhile_append)

lemma dropWhile_append_both: "list_all P a \<Longrightarrow> dropWhile P (a @ b) = dropWhile P b"
  by (simp add: list_all_iff dropWhile_append)

text \<open>What the filter promises of a header it lets through.\<close>

definition header_ok :: "string \<times> string \<Rightarrow> bool" where
  "header_ok h \<longleftrightarrow> fst h \<noteq> [] \<and> length (fst h) \<le> RP_HDR_NAME_MAX \<and> list_all hdr_token_char (fst h)
     \<and> \<not> hdr_forbidden (fst h) \<and> length (snd h) \<le> RP_HDR_VALUE_MAX \<and> list_all value_char (snd h)"

lemma parse_header_ok: "parse_header line = Some h \<Longrightarrow> header_ok h"
  by (auto simp: parse_header_def header_ok_def Let_def split: if_splits)

lemma token_char_delims: "hdr_token_char c \<Longrightarrow> c \<noteq> newline \<and> c \<noteq> CHR '':''"
  by (auto simp: hdr_token_char_def of_char_classes)

lemma value_char_newline: "value_char c \<Longrightarrow> c \<noteq> newline"
  by (auto simp: value_char_def less_char_def)

lemma render_header_delims:
  assumes "header_ok h"
  shows "list_all (\<lambda>c. c \<noteq> newline \<and> c \<noteq> CHR '':'') (fst h)"
    and "list_all (\<lambda>c. c \<noteq> newline) (fst h @ '': '' @ snd h)"
  using assms token_char_delims value_char_newline
  by (auto simp: header_ok_def list_all_iff)

text \<open>One rendered header at the front of a block: the scan compares its name and moves on to the
  next line.\<close>

lemma headers_have_Cons:
  assumes "header_ok h"
  shows "headers_have (render_header h @ rest) name \<longleftrightarrow> lower_str (fst h) = lower_str name \<or> headers_have rest name"
proof -
  let ?p = "render_header h @ rest"
  have p: "?p = fst h @ CHR '':'' # (CHR '' '' # snd h @ newline # rest)"
    and p2: "?p = (fst h @ '': '' @ snd h) @ newline # rest" by (simp_all add: render_header_def)
  have "takeWhile (\<lambda>c. c \<noteq> newline \<and> c \<noteq> CHR '':'') ?p = fst h"
    "dropWhile (\<lambda>c. c \<noteq> newline \<and> c \<noteq> CHR '':'') ?p = CHR '':'' # (CHR '' '' # snd h @ newline # rest)"
    unfolding p takeWhile_append_both [OF render_header_delims(1) [OF assms]]
      dropWhile_append_both [OF render_header_delims(1) [OF assms]] by simp_all
  moreover have "dropWhile (\<lambda>c. c \<noteq> newline) ?p = newline # rest"
    unfolding p2 dropWhile_append_both [OF render_header_delims(2) [OF assms]] by simp
  moreover have "?p \<noteq> []" by (simp add: render_header_def)
  moreover have "lower_str (fst h) = lower_str name \<Longrightarrow> length (fst h) = length name" by (metis length_map)
  ultimately show ?thesis by (subst headers_have.simps) (auto simp: Let_def)
qed

lemma headers_have_render:
  "list_all header_ok hs \<Longrightarrow>
    headers_have (concat (map render_header hs)) name \<longleftrightarrow> lower_str name \<in> (\<lambda>h. lower_str (fst h)) ` set hs"
proof (induction hs)
  case Nil
  then show ?case by (simp add: headers_have.simps)
next
  case (Cons h hs)
  then show ?case using headers_have_Cons [of h "concat (map render_header hs)" name] by auto
qed

text \<open>The state of the filter between two lines: the block written is the rendering of a list of
  admissible headers with different names, each of them carried by one of the lines read.\<close>

definition hdr_inv :: "string \<Rightarrow> nat \<Rightarrow> string \<times> nat \<Rightarrow> bool" where
  "hdr_inv raw cap st \<longleftrightarrow> (\<exists>hs. fst st = concat (map render_header hs) \<and> length hs = snd st
     \<and> snd st \<le> RP_HDR_MAX_COUNT \<and> list_all header_ok hs \<and> distinct (map (\<lambda>h. lower_str (fst h)) hs)
     \<and> Some ` set hs \<subseteq> parse_header ` set (split_on newline raw)
     \<and> fits (fst st) cap \<and> length (fst st) \<le> RP_HDR_MAX_BYTES)"

lemma hdr_inv_add:
  assumes "hdr_inv raw cap st" and "snd st < RP_HDR_MAX_COUNT"
    and parse: "parse_header line = Some (name, v)" and line: "line \<in> set (split_on newline raw)"
    and new: "\<not> rp_headers_have (Some (fst st)) (Some (lower_str name))"
    and room: "length (fst st) + (length name + 2 + length v + 1) + 1 \<le> cap"
      "length (fst st) + (length name + 2 + length v + 1) \<le> RP_HDR_MAX_BYTES"
  shows "hdr_inv raw cap (fst st @ render_header (name, v), snd st + 1)"
proof -
  obtain hs where hs: "fst st = concat (map render_header hs)" "length hs = snd st" "list_all header_ok hs"
    "distinct (map (\<lambda>h. lower_str (fst h)) hs)" "Some ` set hs \<subseteq> parse_header ` set (split_on newline raw)"
    using assms(1) unfolding hdr_inv_def by blast
  have "Some (name, v) \<in> parse_header ` set (split_on newline raw)"
    using line by (rule rev_image_eqI) (simp add: parse)
  moreover have "lower_str name \<notin> (\<lambda>h. lower_str (fst h)) ` set hs"
    using new headers_have_render [OF hs(3)] by (simp add: hs(1))
  ultimately show ?thesis
    unfolding hdr_inv_def using hs assms(2) room parse_header_ok [OF parse]
    by (intro exI [of _ "hs @ [(name, v)]"]) (auto simp: fits_def render_header_def)
qed

lemma sanitize_line_inv:
  assumes "hdr_inv raw cap st" and "snd st < RP_HDR_MAX_COUNT" and "line \<in> set (split_on newline raw)"
  shows "hdr_inv raw cap (sanitize_line cap line st)"
  using hdr_inv_add [OF assms(1,2) _ assms(3)] assms(1)
  by (auto simp: sanitize_line_def Let_def simp del: rp_headers_have.simps split: option.splits)

lemma split_on_first_line:
  "set (split_on d p) = insert (takeWhile (\<lambda>c. c \<noteq> d) p)
     (if d \<in> set p then set (split_on d (drop 1 (dropWhile (\<lambda>c. c \<noteq> d) p))) else {})"
proof (cases "d \<in> set p")
  case True
  then obtain a b where "p = a @ d # b" "d \<notin> set a" by (metis split_list_first)
  then show ?thesis by (simp add: split_on_append_sep split_on_no_sep)
qed (simp add: split_on_no_sep)

lemma sanitize_lines_inv:
  "hdr_inv raw cap st \<Longrightarrow> p = [] \<or> set (split_on newline p) \<subseteq> set (split_on newline raw)
    \<Longrightarrow> hdr_inv raw cap (sanitize_lines cap p st)"
proof (induction cap p st rule: sanitize_lines.induct)
  case (1 cap p st)
  show ?case
  proof (cases "p = [] \<or> snd st \<ge> RP_HDR_MAX_COUNT")
    case True
    with "1.prems"(1) show ?thesis by (subst sanitize_lines.simps) simp
  next
    case False
    let ?p = "drop 1 (dropWhile (\<lambda>c. c \<noteq> newline) p)"
    have "?p = [] \<or> set (split_on newline ?p) \<subseteq> set (split_on newline raw)"
      using "1.prems"(2) False split_on_first_line [of newline p] by (cases "newline \<in> set p") auto
    moreover have "hdr_inv raw cap (sanitize_line cap (takeWhile (\<lambda>c. c \<noteq> newline) p) st)"
      using "1.prems" False split_on_first_line [of newline p] by (intro sanitize_line_inv) auto
    ultimately show ?thesis using "1.IH" [OF False] False by (subst sanitize_lines.simps) simp
  qed
qed

text \<open>C7: the header block the filter writes is the rendering of at most 32 headers, each carried by a line
  the page supplied, with a bounded token name that is not one the browser owns and a bounded value
  free of control bytes, no name repeated in any case, within the buffer and 4096 bytes.\<close>

theorem rp_sanitize_request_headers_safe:
  assumes "rp_sanitize_request_headers (Some raw) (Some cap) = Some (out, kept)"
  shows "\<exists>hs. out = concat (map render_header hs) \<and> length hs = kept \<and> kept \<le> RP_HDR_MAX_COUNT
    \<and> list_all header_ok hs \<and> distinct (map (\<lambda>h. lower_str (fst h)) hs)
    \<and> Some ` set hs \<subseteq> parse_header ` set (split_on newline raw)
    \<and> fits out cap \<and> length out \<le> RP_HDR_MAX_BYTES"
proof -
  from assms have "0 < cap" and run: "sanitize_lines cap raw ([], 0) = (out, kept)" by (auto split: if_splits)
  then have "hdr_inv raw cap ([], 0)" by (simp add: hdr_inv_def fits_def)
  from sanitize_lines_inv [OF this, of raw] run show ?thesis unfolding hdr_inv_def by auto
qed

theorem rp_sanitize_request_headers_safe_witness:
  "rp_sanitize_request_headers (Some (''X-A: 1'' @ [newline] @ ''Cookie: c'' @ [newline] @ ''x-a: 2'')) (Some 64)
      = Some (''X-A: 1'' @ [newline], 1)
   \<and> (\<exists>hs. ''X-A: 1'' @ [newline] = concat (map render_header hs) \<and> length hs = 1 \<and> list_all header_ok hs)"
proof -
  have run: "rp_sanitize_request_headers (Some (''X-A: 1'' @ [newline] @ ''Cookie: c'' @ [newline] @ ''x-a: 2'')) (Some 64)
      = Some (''X-A: 1'' @ [newline], 1)" by code_simp
  from rp_sanitize_request_headers_safe [OF run] run show ?thesis by (elim exE conjE) (intro conjI exI)
qed

end
