(* ===== verification/Net_Realm.thy ===== *)
theory Net_Realm
  imports Request_Policy
begin

text \<open>
  The module \<^verbatim>\<open>src/net_realm.c\<close>: the anonymity realm of a host (clearnet, Tor onion service, I2P) by its
  final label, and the fail-closed choice of the route for a URL.
\<close>

section \<open>Model\<close>

datatype nr_realm = NR_CLEARNET | NR_ONION | NR_I2P

datatype nr_route = NR_ROUTE_DIRECT | NR_ROUTE_TOR | NR_ROUTE_I2P | NR_ROUTE_BLOCKED

record nr_config =
  tor_enabled :: bool
  i2p_enabled :: bool
  torify_clearnet :: bool

definition NR_MAX_HOST :: nat where
  "NR_MAX_HOST = 253"

definition ends_with_realm :: "string \<Rightarrow> string \<Rightarrow> bool" where
  "ends_with_realm hst suffx =
     (let n = length hst; sl = length suffx in
      if n < sl + 2 then False
      else if hst ! (n - sl - 1) \<noteq> CHR ''.'' then False
      else if drop (n - sl) hst \<noteq> suffx then False
      else n - sl - 1 > 0)"

fun nr_classify_host :: "cptr \<Rightarrow> nr_realm" where
  "nr_classify_host None = NR_CLEARNET"
| "nr_classify_host (Some hst) =
     (if hst = [] \<or> length hst > NR_MAX_HOST then NR_CLEARNET
      else
        let low = lower_str hst;
            buf = (if last low = CHR ''.'' then butlast low else low)
        in if buf = [] then NR_CLEARNET
           else if ends_with_realm buf ''onion'' then NR_ONION
           else if ends_with_realm buf ''i2p'' then NR_I2P
           else NR_CLEARNET)"

definition host_of :: "string \<Rightarrow> nat \<Rightarrow> string option" where
  "host_of url out_size =
     (if out_size = 0 then None
      else case strstr url ''://'' of
          None \<Rightarrow> None
        | Some q \<Rightarrow>
          (let h = takeWhile (\<lambda>c. authority_char c \<and> c \<noteq> CHR '':'') (drop 3 q) in
           if h = [] \<or> length h + 1 > out_size then None else Some h))"

fun nr_classify_url :: "cptr \<Rightarrow> nr_realm" where
  "nr_classify_url None = NR_CLEARNET"
| "nr_classify_url (Some url) =
     (case host_of url (NR_MAX_HOST + 1) of None \<Rightarrow> NR_CLEARNET | Some h \<Rightarrow> nr_classify_host (Some h))"

fun nr_route_for :: "cptr \<Rightarrow> nr_config \<Rightarrow> nr_route" where
  "nr_route_for None cfg = NR_ROUTE_BLOCKED"
| "nr_route_for (Some url) cfg =
     (case nr_classify_url (Some url) of
        NR_ONION \<Rightarrow> if tor_enabled cfg then NR_ROUTE_TOR else NR_ROUTE_BLOCKED
      | NR_I2P \<Rightarrow> if i2p_enabled cfg then NR_ROUTE_I2P else NR_ROUTE_BLOCKED
      | NR_CLEARNET \<Rightarrow> if tor_enabled cfg \<and> torify_clearnet cfg then NR_ROUTE_TOR else NR_ROUTE_DIRECT)"

definition nr_realm_allows_http :: "nr_realm \<Rightarrow> bool" where
  "nr_realm_allows_http r \<longleftrightarrow> r = NR_I2P"

fun nr_realm_name :: "nr_realm \<Rightarrow> string" where
  "nr_realm_name NR_CLEARNET = ''clearnet''"
| "nr_realm_name NR_ONION = ''onion''"
| "nr_realm_name NR_I2P = ''i2p''"

fun nr_route_name :: "nr_route \<Rightarrow> string" where
  "nr_route_name NR_ROUTE_DIRECT = ''direct''"
| "nr_route_name NR_ROUTE_TOR = ''tor''"
| "nr_route_name NR_ROUTE_I2P = ''i2p''"
| "nr_route_name NR_ROUTE_BLOCKED = ''blocked''"

section \<open>Realms\<close>

lemma ends_with_realm_iff:
  "ends_with_realm h s \<longleftrightarrow> (\<exists>x. x \<noteq> [] \<and> h = x @ CHR ''.'' # s)"
proof
  assume e: "ends_with_realm h s"
  let ?k = "length h - length s - 1"
  have k: "0 < ?k" "?k < length h" and dot: "h ! ?k = CHR ''.''" and d: "drop (Suc ?k) h = s"
    using e by (auto simp: ends_with_realm_def Let_def Suc_diff_Suc split: if_splits)
  have "h = take ?k h @ h ! ?k # drop (Suc ?k) h" using k(2) by (rule id_take_nth_drop)
  moreover have "take ?k h \<noteq> []" using k by auto
  ultimately show "\<exists>x. x \<noteq> [] \<and> h = x @ CHR ''.'' # s" unfolding dot d by blast
next
  assume "\<exists>x. x \<noteq> [] \<and> h = x @ CHR ''.'' # s"
  then obtain x where x: "x \<noteq> []" "h = x @ CHR ''.'' # s" by blast
  then have "Suc 0 \<le> length x" by (cases x) auto
  with x show "ends_with_realm h s" by (auto simp: ends_with_realm_def Let_def)
qed

text \<open>A host name in the sense of the realm test: lower case, one trailing dot ignored.\<close>

definition canonical_host :: "string \<Rightarrow> string" where
  "canonical_host h = (let low = lower_str h in if low \<noteq> [] \<and> last low = CHR ''.'' then butlast low else low)"

definition under_tld :: "string \<Rightarrow> string \<Rightarrow> bool" where
  "under_tld tld h \<longleftrightarrow> (\<exists>x. x \<noteq> [] \<and> canonical_host h = x @ CHR ''.'' # tld)"

lemma under_tld_nonempty: "under_tld tld h \<Longrightarrow> h \<noteq> [] \<and> canonical_host h \<noteq> []"
  by (auto simp: under_tld_def canonical_host_def)

lemma under_tld_unique: "under_tld ''onion'' h \<Longrightarrow> \<not> under_tld ''i2p'' h"
proof
  assume "under_tld ''onion'' h" "under_tld ''i2p'' h"
  then obtain x y where "x @ ''.onion'' = y @ ''.i2p''" unfolding under_tld_def by metis
  then have "last (x @ ''.onion'') = last (y @ ''.i2p'')" by (simp only:)
  then show False by simp
qed

lemma nr_classify_host_realm:
  assumes "length h \<le> NR_MAX_HOST"
  shows "nr_classify_host (Some h) =
    (if under_tld ''onion'' h then NR_ONION else if under_tld ''i2p'' h then NR_I2P else NR_CLEARNET)"
proof (cases "h = []")
  case True
  then show ?thesis by (simp add: under_tld_def canonical_host_def Let_def)
next
  case False
  then have "nr_classify_host (Some h) = (if canonical_host h = [] then NR_CLEARNET
      else if ends_with_realm (canonical_host h) ''onion'' then NR_ONION
      else if ends_with_realm (canonical_host h) ''i2p'' then NR_I2P else NR_CLEARNET)"
    using assms by (simp add: canonical_host_def Let_def)
  then show ?thesis unfolding ends_with_realm_iff under_tld_def [symmetric]
    using under_tld_nonempty [of "''onion''" h] under_tld_nonempty [of "''i2p''" h] by (simp split: if_splits)
qed

text \<open>Realm isolation and fail-closed routing: Tor carries only onion services and, when asked, the
  clearnet; I2P carries only I2P hosts; a direct connection is made only for a clearnet URL that is
  not torified; a missing URL is blocked.\<close>

theorem nr_route_isolation:
  "(nr_route_for (Some url) cfg = NR_ROUTE_TOR \<longleftrightarrow> tor_enabled cfg \<and>
      (nr_classify_url (Some url) = NR_ONION \<or> nr_classify_url (Some url) = NR_CLEARNET \<and> torify_clearnet cfg))
   \<and> (nr_route_for (Some url) cfg = NR_ROUTE_I2P \<longleftrightarrow> i2p_enabled cfg \<and> nr_classify_url (Some url) = NR_I2P)
   \<and> (nr_route_for (Some url) cfg = NR_ROUTE_DIRECT \<longleftrightarrow>
      nr_classify_url (Some url) = NR_CLEARNET \<and> \<not> (tor_enabled cfg \<and> torify_clearnet cfg))
   \<and> nr_route_for None cfg = NR_ROUTE_BLOCKED"
  by (auto simp del: nr_classify_url.simps split: nr_realm.split)

text \<open>Without userinfo the realm test looks at the host the request policy sees.\<close>

lemma host_of_agrees:
  assumes "CHR ''@'' \<notin> set url"
  shows "rp_host_of (Some url) (Some n) = map_option lower_str (host_of url n)"
proof (cases "strstr url ''://''")
  case None
  then show ?thesis by (simp add: host_of_def)
next
  case (Some q)
  then have "suffix q url" using strstr_Some by blast
  then have "set (drop 3 q) \<subseteq> set url" by (meson order_trans set_drop_subset set_mono_suffix)
  then have "CHR ''@'' \<notin> set (takeWhile authority_char (drop 3 q))"
    using assms by (meson set_takeWhileD subset_iff)
  then show ?thesis using Some by (simp add: host_of_def skip_userinfo_def Let_def)
qed

lemma under_tld_lower: "under_tld tld (lower_str h) \<longleftrightarrow> under_tld tld h"
  by (simp add: under_tld_def canonical_host_def)

text \<open>C8: for a URL without credentials whose host, as the request policy parses it, lies under \<^verbatim>\<open>.onion\<close> or
  \<^verbatim>\<open>.i2p\<close>, the route is the overlay's own proxy when it is enabled and blocked otherwise, never a
  direct connection.\<close>

theorem nr_overlay_never_direct:
  assumes "CHR ''@'' \<notin> set url" and "rp_host_of (Some url) (Some (NR_MAX_HOST + 1)) = Some h"
    and "under_tld ''onion'' h \<or> under_tld ''i2p'' h"
  shows "nr_route_for (Some url) cfg =
    (if under_tld ''onion'' h then (if tor_enabled cfg then NR_ROUTE_TOR else NR_ROUTE_BLOCKED)
     else (if i2p_enabled cfg then NR_ROUTE_I2P else NR_ROUTE_BLOCKED))"
proof -
  from host_of_agrees [OF assms(1), of "NR_MAX_HOST + 1"] assms(2)
  obtain g where g: "host_of url (NR_MAX_HOST + 1) = Some g" "h = lower_str g"
    by (auto simp del: rp_host_of.simps)
  then have len: "length g \<le> NR_MAX_HOST"
    by (auto simp: host_of_def Let_def split: if_splits option.splits)
  have "nr_classify_url (Some url) = (if under_tld ''onion'' h then NR_ONION else NR_I2P)"
    using nr_classify_host_realm [OF len] assms(3) unfolding g(2) under_tld_lower
    by (simp only: nr_classify_url.simps g(1) option.case) auto
  then show ?thesis by (simp del: nr_classify_url.simps)
qed

theorem nr_overlay_never_direct_witness:
  "nr_route_for (Some ''https://Abc.ONION./x'') \<lparr> tor_enabled = False, i2p_enabled = True, torify_clearnet = False \<rparr>
     = NR_ROUTE_BLOCKED"
proof -
  have h: "rp_host_of (Some ''https://Abc.ONION./x'') (Some (NR_MAX_HOST + 1)) = Some ''abc.onion.''" by code_simp
  have c: "canonical_host ''abc.onion.'' = ''abc.onion''" by code_simp
  have u: "under_tld ''onion'' ''abc.onion.''"
    unfolding under_tld_def c by (rule exI [of _ "''abc''"]) simp
  show ?thesis
    by (subst nr_overlay_never_direct [OF _ h disjI1 [OF u]]) (simp_all add: u)
qed


end
