(* ===== verification/Data_Url.thy ===== *)
theory Data_Url
  imports C_Prelude
begin

unbundle bit_operations_syntax

text \<open>
  The module \<^verbatim>\<open>src/data_url.c\<close>: recognising a \<^verbatim>\<open>data:\<close> URL, locating its base64 payload, decoding
  RFC 4648 base64, and the full processor with media type, forgiving base64 and percent decoding.
  Decoded bytes are \<open>8 word\<close>s and the bit arithmetic is done on \<open>32 word\<close>s as in the source.
\<close>

section \<open>Model\<close>

datatype du_status = DU_OK | DU_ERR_NULL_ARG | DU_ERR_NOT_DATA_URL | DU_ERR_NOT_BASE64
  | DU_ERR_BAD_BASE64 | DU_ERR_TOO_LARGE | DU_ERR_OOM

type_synonym byte = "8 word"

definition DU_MAX_ENCODED_LEN :: nat where
  "DU_MAX_ENCODED_LEN = 16 * 1024 * 1024"

fun du_is_data_url :: "cptr \<Rightarrow> bool" where
  "du_is_data_url None = False"
| "du_is_data_url (Some url) = ci_prefix url ''data:''"

text \<open>The output pointers of the next function are never NULL in the model; the payload pointer and
  length are the string they denote.\<close>

fun du_base64_payload :: "cptr \<Rightarrow> du_status + string" where
  "du_base64_payload None = Inl DU_ERR_NULL_ARG"
| "du_base64_payload (Some url) =
     (if \<not> du_is_data_url (Some url) then Inl DU_ERR_NOT_DATA_URL
      else
        let p = drop 5 url; header = takeWhile (\<lambda>c. c \<noteq> CHR '','') p in
        if CHR '','' \<notin> set p then Inl DU_ERR_NOT_BASE64
        else if length header < 7 then Inl DU_ERR_NOT_BASE64
        else if lower_str (drop (length header - 7) header) \<noteq> '';base64'' then Inl DU_ERR_NOT_BASE64
        else
          let payload = drop (length header + 1) p in
          if length payload > DU_MAX_ENCODED_LEN then Inl DU_ERR_TOO_LARGE else Inr payload)"

fun du_shape_ok :: "cptr \<Rightarrow> du_status" where
  "du_shape_ok None = DU_ERR_NULL_ARG"
| "du_shape_ok (Some url) =
     (if \<not> du_is_data_url (Some url) then DU_ERR_NOT_DATA_URL
      else
        let p = drop 5 url in
        if CHR '','' \<notin> set p then DU_ERR_NOT_BASE64
        else if length (drop 1 (dropWhile (\<lambda>c. c \<noteq> CHR '','') p)) > DU_MAX_ENCODED_LEN then DU_ERR_TOO_LARGE
        else DU_OK)"

definition b64_val :: "char \<Rightarrow> nat option" where
  "b64_val c =
     (if is_upper c then Some (of_char c - 65)
      else if is_lower c then Some (of_char c - 97 + 26)
      else if is_digit c then Some (of_char c - 48 + 52)
      else if c = CHR ''+'' then Some 62
      else if c = CHR ''/'' then Some 63
      else None)"

definition quad_val :: "char \<Rightarrow> nat option" where
  "quad_val c = (if c = CHR ''='' then Some 0 else b64_val c)"

definition push_byte :: "nat \<Rightarrow> byte \<Rightarrow> byte list \<Rightarrow> byte list" where
  "push_byte out_cap b buf = (if length buf < out_cap then buf @ [b] else buf)"

definition quad_triple :: "nat \<Rightarrow> nat \<Rightarrow> nat \<Rightarrow> nat \<Rightarrow> 32 word" where
  "quad_triple v0 v1 v2 v3 = push_bit 18 (word_of_nat v0) OR push_bit 12 (word_of_nat v1)
     OR push_bit 6 (word_of_nat v2) OR word_of_nat v3"

text \<open>The loop over groups of four characters. It runs on a text whose length is a multiple of four,
  so its last equation only serves the empty text.\<close>

fun decode_quads :: "nat \<Rightarrow> string \<Rightarrow> byte list \<Rightarrow> byte list option" where
  "decode_quads out_cap (c0 # c1 # c2 # c3 # s) buf =
     (case (quad_val c0, quad_val c1, quad_val c2, quad_val c3) of
        (Some v0, Some v1, Some v2, Some v3) \<Rightarrow>
          (let triple = quad_triple v0 v1 v2 v3 in
           decode_quads out_cap s
             (push_byte out_cap (ucast (triple AND 0xFF))
             (push_byte out_cap (ucast (drop_bit 8 triple AND 0xFF))
             (push_byte out_cap (ucast (drop_bit 16 triple AND 0xFF)) buf))))
      | _ \<Rightarrow> None)"
| "decode_quads out_cap _ buf = Some buf"

definition pad_count :: "string \<Rightarrow> nat" where
  "pad_count b64 =
     (if length b64 \<ge> 1 \<and> b64 ! (length b64 - 1) = CHR ''='' then 1 else 0)
   + (if length b64 \<ge> 2 \<and> b64 ! (length b64 - 2) = CHR ''='' then 1 else 0)"

definition du_base64_decode :: "allocator \<Rightarrow> string \<Rightarrow> du_status + byte list" where
  "du_base64_decode mem b64 =
     (if length b64 > DU_MAX_ENCODED_LEN then Inl DU_ERR_TOO_LARGE
      else if length b64 mod 4 \<noteq> 0 then Inl DU_ERR_BAD_BASE64
      else
        let pad = pad_count b64 in
        if CHR ''='' \<in> set (take (length b64 - pad) b64) then Inl DU_ERR_BAD_BASE64
        else
          let out_cap = length b64 div 4 * 3 - pad in
          if \<not> mem (if out_cap > 0 then out_cap else 1) then Inl DU_ERR_OOM
          else (case decode_quads out_cap b64 [] of
              None \<Rightarrow> Inl DU_ERR_BAD_BASE64
            | Some buf \<Rightarrow> Inr buf))"

definition hexval :: "char \<Rightarrow> nat option" where
  "hexval c =
     (if is_digit c then Some (of_char c - 48)
      else if CHR ''a'' \<le> c \<and> c \<le> CHR ''f'' then Some (of_char c - 97 + 10)
      else if CHR ''A'' \<le> c \<and> c \<le> CHR ''F'' then Some (of_char c - 65 + 10)
      else None)"

definition ascii_ws :: "char \<Rightarrow> bool" where
  "ascii_ws c \<longleftrightarrow> c \<in> {CHR '' '', CHR 0x09, CHR 0x0A, CHR 0x0C, CHR 0x0D}"

definition ends_ci :: "string \<Rightarrow> string \<Rightarrow> bool" where
  "ends_ci s suf \<longleftrightarrow> length suf \<le> length s \<and> lower_str (drop (length s - length suf) s) = suf"

definition rstrip_ws :: "string \<Rightarrow> string" where
  "rstrip_ws s = rev (dropWhile ascii_ws (rev s))"

text \<open>The media type part: whether the payload is base64, and the trimmed type.\<close>

definition media_type :: "string \<Rightarrow> bool \<times> string" where
  "media_type meta =
     (let t = rstrip_ws meta;
          is_b64 = ends_ci t '';base64'';
          m = (if is_b64 then take (length t - 7) t else meta)
      in (is_b64, rstrip_ws (dropWhile ascii_ws m)))"

definition write_mime :: "string \<Rightarrow> nat \<Rightarrow> string" where
  "write_mime m mime_cap =
     take (mime_cap - 1) (if m = [] then ''text/plain;charset=US-ASCII'' else m)"

definition strip_pad :: "string \<Rightarrow> string" where
  "strip_pad s = rev (dropWhile (\<lambda>c. c = CHR ''='') (rev s))"

definition forgiving_clean :: "string \<Rightarrow> string option" where
  "forgiving_clean body =
     (let s = strip_pad (filter (\<lambda>c. \<not> ascii_ws c) body) in
      if length s mod 4 = 1 then None
      else Some (s @ replicate ((4 - length s mod 4) mod 4) CHR ''=''))"

text \<open>The percent branch: \<^verbatim>\<open>%XX\<close> with two hex digits is a byte, any other percent sign stays.\<close>

fun percent_bytes :: "string \<Rightarrow> byte list" where
  "percent_bytes [] = []"
| "percent_bytes (c # s) =
     (case s of
        h # l # r \<Rightarrow>
          (if c = CHR ''%'' then
             (case (hexval h, hexval l) of
                (Some hi, Some lo) \<Rightarrow> (push_bit 4 (word_of_nat hi) OR word_of_nat lo) # percent_bytes r
              | _ \<Rightarrow> word_of_nat (of_char c) # percent_bytes s)
           else word_of_nat (of_char c) # percent_bytes s)
      | _ \<Rightarrow> word_of_nat (of_char c) # percent_bytes s)"

definition decode_body :: "allocator \<Rightarrow> bool \<Rightarrow> string \<Rightarrow> du_status + byte list" where
  "decode_body mem is_b64 body =
     (if is_b64 then
        (if \<not> mem (length body + 4) then Inl DU_ERR_OOM
         else case forgiving_clean body of
             None \<Rightarrow> Inl DU_ERR_BAD_BASE64
           | Some clean \<Rightarrow>
             (case du_base64_decode mem clean of
                Inl st \<Rightarrow> Inl st
              | Inr bytes \<Rightarrow> (if \<not> mem (length bytes + 1) then Inl DU_ERR_OOM else Inr bytes)))
      else if \<not> mem (length body + 1) then Inl DU_ERR_OOM
      else Inr (percent_bytes body))"

text \<open>The result is what is written to the media type buffer, \<open>None\<close> when the caller passes none or
  one of size zero, and the status or the bytes.\<close>

fun du_decode :: "allocator \<Rightarrow> cptr \<Rightarrow> cbuf \<Rightarrow> string option \<times> (du_status + byte list)" where
  "du_decode mem None mime = (None, Inl DU_ERR_NULL_ARG)"
| "du_decode mem (Some url) mime =
     (let blank = (case mime of None \<Rightarrow> None | Some cap \<Rightarrow> if cap = 0 then None else Some []) in
      if \<not> du_is_data_url (Some url) then (blank, Inl DU_ERR_NOT_DATA_URL)
      else
        let p = drop 5 url;
            meta = takeWhile (\<lambda>c. c \<noteq> CHR '','') p;
            body = drop 1 (dropWhile (\<lambda>c. c \<noteq> CHR '','') p)
        in if CHR '','' \<notin> set p then (blank, Inl DU_ERR_NOT_BASE64)
           else if length body > DU_MAX_ENCODED_LEN then (blank, Inl DU_ERR_TOO_LARGE)
           else
             (case mime of None \<Rightarrow> None
                | Some cap \<Rightarrow> if cap = 0 then None else Some (write_mime (snd (media_type meta)) cap),
              decode_body mem (fst (media_type meta)) body))"

section \<open>Base64 round trip\<close>

text \<open>The encoder of RFC 4648, which a page author's tool applies.\<close>

definition b64_alphabet :: string where
  "b64_alphabet = ''ABCDEFGHIJKLMNOPQRSTUVWXYZabcdefghijklmnopqrstuvwxyz0123456789+/''"

definition b64_char :: "nat \<Rightarrow> char" where
  "b64_char n = b64_alphabet ! n"

definition sextet0 :: "byte \<Rightarrow> byte" where
  "sextet0 a = drop_bit 2 a"

definition sextet1 :: "byte \<Rightarrow> byte \<Rightarrow> byte" where
  "sextet1 a b = push_bit 4 (take_bit 2 a) OR drop_bit 4 b"

definition sextet2 :: "byte \<Rightarrow> byte \<Rightarrow> byte" where
  "sextet2 b c = push_bit 2 (take_bit 4 b) OR drop_bit 6 c"

definition sextet3 :: "byte \<Rightarrow> byte" where
  "sextet3 c = take_bit 6 c"

fun b64_encode :: "byte list \<Rightarrow> string" where
  "b64_encode (a # b # c # s) =
     b64_char (unat (sextet0 a)) # b64_char (unat (sextet1 a b)) # b64_char (unat (sextet2 b c))
       # b64_char (unat (sextet3 c)) # b64_encode s"
| "b64_encode [a, b] =
     [b64_char (unat (sextet0 a)), b64_char (unat (sextet1 a b)), b64_char (unat (sextet2 b 0)), CHR ''='']"
| "b64_encode [a] = [b64_char (unat (sextet0 a)), b64_char (unat (sextet1 a 0)), CHR ''='', CHR ''='']"
| "b64_encode [] = []"

lemma bit_byte_high: "8 \<le> n \<Longrightarrow> \<not> bit (w :: byte) n"
  using bit_imp_le_length [of w n] by auto

lemma less_8_cases: "n < 8 \<longleftrightarrow> n \<in> {0, 1, 2, 3, 4, 5, 6, 7}" for n :: nat
  by auto

lemma quad_triple_bytes:
  fixes a b c :: byte
  defines "t \<equiv> quad_triple (unat (sextet0 a)) (unat (sextet1 a b)) (unat (sextet2 b c)) (unat (sextet3 c))"
  shows "(ucast (drop_bit 16 t AND 0xFF) :: byte) = a"
    and "(ucast (drop_bit 8 t AND 0xFF) :: byte) = b"
    and "(ucast (t AND 0xFF) :: byte) = c"
proof -
  note d = t_def quad_triple_def sextet0_def sextet1_def sextet2_def sextet3_def
  have m: "(0xFF :: 32 word) = mask 8" by (simp add: mask_eq_exp_minus_1)
  have u: "(word_of_nat (unat w) :: 32 word) = ucast w" for w :: byte by simp
  show "(ucast (drop_bit 16 t AND 0xFF) :: byte) = a"
    unfolding d m u by (rule bit_word_eqI)
      (simp add: less_8_cases bit_simps, elim disjE; simp add: bit_byte_high; simp add: eval_nat_numeral)
  show "(ucast (drop_bit 8 t AND 0xFF) :: byte) = b"
    unfolding d m u by (rule bit_word_eqI)
      (simp add: less_8_cases bit_simps, elim disjE; simp add: bit_byte_high; simp add: eval_nat_numeral)
  show "(ucast (t AND 0xFF) :: byte) = c"
    unfolding d m u by (rule bit_word_eqI)
      (simp add: less_8_cases bit_simps, elim disjE; simp add: bit_byte_high; simp add: eval_nat_numeral)
qed

lemma b64_alphabet_values: "map b64_val b64_alphabet = map Some [0..<64]"
  unfolding b64_alphabet_def by code_simp

lemma b64_alphabet_plain: "list_all (\<lambda>c. c \<noteq> CHR ''='' \<and> \<not> ascii_ws c) b64_alphabet"
  unfolding b64_alphabet_def by code_simp

lemma b64_val_char:
  assumes "n < 64"
  shows "b64_val (b64_char n) = Some n \<and> b64_char n \<noteq> CHR ''='' \<and> \<not> ascii_ws (b64_char n)"
proof -
  have len: "length b64_alphabet = 64" using arg_cong [OF b64_alphabet_values, of length] by simp
  have "b64_val (b64_char n) = map b64_val b64_alphabet ! n" using assms len by (simp add: b64_char_def)
  also have "\<dots> = Some n" unfolding b64_alphabet_values using assms by simp
  finally show ?thesis
    using b64_alphabet_plain assms len by (auto simp: list_all_length b64_char_def)
qed

lemma byte_lt_64: "(\<And>n. 6 \<le> n \<Longrightarrow> \<not> bit (w :: byte) n) \<Longrightarrow> unat w < 64"
proof -
  assume "\<And>n. 6 \<le> n \<Longrightarrow> \<not> bit w n"
  then have "take_bit 6 w = w" by (intro bit_eqI) (auto simp: bit_simps simp flip: not_le)
  then have "unat w = unat (w mod 64)" by (simp add: take_bit_eq_mod)
  then show ?thesis by (simp add: unat_mod_distrib)
qed

lemma sextet_bounds [simp]:
  "unat (sextet0 a) < 64" "unat (sextet1 a b) < 64" "unat (sextet2 b c) < 64" "unat (sextet3 c) < 64"
  by (rule byte_lt_64; auto simp: sextet0_def sextet1_def sextet2_def sextet3_def bit_simps bit_byte_high)+

lemma sextet_zero [simp]: "sextet2 0 0 = 0" "sextet3 0 = 0"
  by (simp_all add: sextet2_def sextet3_def)

lemma quad_val_char [simp]: "n < 64 \<Longrightarrow> quad_val (b64_char n) = Some n" "quad_val CHR ''='' = Some 0"
  by (simp_all add: quad_val_def b64_val_char)

lemma decode_quads_encode:
  "cap = length buf + length bs \<Longrightarrow> decode_quads cap (b64_encode bs) buf = Some (buf @ bs)"
proof (induction bs arbitrary: buf rule: b64_encode.induct)
  case (1 a b c s)
  have "decode_quads cap (b64_encode s) (buf @ [a, b, c]) = Some ((buf @ [a, b, c]) @ s)"
    using 1 by (intro "1.IH") simp
  then show ?case using "1.prems" by (simp add: Let_def quad_triple_bytes push_byte_def)
next
  case (2 a b)
  then show ?case using quad_triple_bytes [of a b 0] by (simp add: Let_def push_byte_def)
next
  case (3 a)
  then show ?case using quad_triple_bytes [of a 0 0] by (simp add: Let_def push_byte_def)
qed simp

lemma b64_encode_shape:
  "\<exists>core pad. b64_encode bs = core @ replicate pad CHR ''='' \<and> list_all (\<lambda>c. c \<noteq> CHR ''='' \<and> \<not> ascii_ws c) core
    \<and> pad \<le> 2 \<and> (pad \<noteq> 0 \<or> bs \<noteq> [] \<longrightarrow> 2 \<le> length core)
    \<and> length core + pad = 4 * ((length bs + 2) div 3) \<and> length bs + pad = 3 * ((length bs + 2) div 3)"
proof (induction bs rule: b64_encode.induct)
  case (1 a b c s)
  then obtain core pad where "b64_encode s = core @ replicate pad CHR ''=''"
    "list_all (\<lambda>c. c \<noteq> CHR ''='' \<and> \<not> ascii_ws c) core" "pad \<le> 2"
    "length core + pad = 4 * ((length s + 2) div 3)" "length s + pad = 3 * ((length s + 2) div 3)" by blast
  moreover have "(length (a # b # c # s) + 2) div 3 = (length s + 2) div 3 + 1" by simp
  ultimately show ?case
    by (intro exI [of _ "b64_char (unat (sextet0 a)) # b64_char (unat (sextet1 a b)) # b64_char (unat (sextet2 b c))
       # b64_char (unat (sextet3 c)) # core"] exI [of _ pad]) (simp add: b64_val_char)
next
  case (2 a b)
  then show ?case
    by (intro exI [of _ "[b64_char (unat (sextet0 a)), b64_char (unat (sextet1 a b)), b64_char (unat (sextet2 b 0))]"]
      exI [of _ 1]) (simp add: b64_val_char)
next
  case (3 a)
  then show ?case
    by (intro exI [of _ "[b64_char (unat (sextet0 a)), b64_char (unat (sextet1 a 0))]"]
      exI [of _ 2]) (simp add: b64_val_char numeral_2_eq_2)
qed simp

lemma pad_count_core:
  assumes "CHR ''='' \<notin> set core" and "pad \<le> 2" and "pad \<noteq> 0 \<or> core \<noteq> [] \<longrightarrow> 2 \<le> length core"
  shows "pad_count (core @ replicate pad CHR ''='') = pad"
proof -
  consider "pad = 0" | "pad = 1" | "pad = 2" using assms(2) by linarith
  then show ?thesis
  proof cases
    case 1
    show ?thesis
    proof (cases "core = []")
      case False
      with assms(3) have "core ! (length core - 1) \<in> set core" "core ! (length core - 2) \<in> set core" by auto
      with 1 assms(1) show ?thesis by (auto simp: pad_count_def)
    qed (simp add: 1 pad_count_def)
  next
    case 2
    with assms(3) have "core ! (length core - 1) \<in> set core" by auto
    with 2 assms(1) show ?thesis by (auto simp: pad_count_def nth_append)
  next
    case 3
    with assms(3) show ?thesis by (auto simp: pad_count_def nth_append numeral_2_eq_2)
  qed
qed

lemma base64_decode_encode:
  assumes "length (b64_encode bs) \<le> DU_MAX_ENCODED_LEN" and "mem (max 1 (length bs))"
  shows "du_base64_decode mem (b64_encode bs) = Inr bs"
proof -
  obtain core pad where e: "b64_encode bs = core @ replicate pad CHR ''=''"
    and core: "list_all (\<lambda>c. c \<noteq> CHR ''='' \<and> \<not> ascii_ws c) core"
    and pad: "pad \<le> 2" "pad \<noteq> 0 \<or> bs \<noteq> [] \<longrightarrow> 2 \<le> length core"
    and len: "length core + pad = 4 * ((length bs + 2) div 3)" "length bs + pad = 3 * ((length bs + 2) div 3)"
    using b64_encode_shape [of bs] by blast
  have noeq: "CHR ''='' \<notin> set core" using core by (auto simp: list_all_iff)
  have "bs = [] \<Longrightarrow> core = []" using len(1) by simp
  then have pc: "pad_count (b64_encode bs) = pad" unfolding e using noeq pad by (intro pad_count_core) auto
  have l: "length (b64_encode bs) = 4 * ((length bs + 2) div 3)" using e len by simp
  have cap: "length (b64_encode bs) div 4 * 3 - pad = length bs" using l len(2) by simp
  have "take (length (b64_encode bs) - pad) (b64_encode bs) = core" by (simp add: e)
  moreover have "(if length bs > 0 then length bs else 1) = max 1 (length bs)" by (cases bs) auto
  ultimately show ?thesis
    using assms l noeq decode_quads_encode [of "length bs" "[]" bs]
    unfolding du_base64_decode_def Let_def pc cap by simp
qed

lemma strip_pad_core: "CHR ''='' \<notin> set core \<Longrightarrow> strip_pad (core @ replicate k CHR ''='') = core"
proof -
  assume "CHR ''='' \<notin> set core"
  then have "dropWhile (\<lambda>c. c = CHR ''='') (rev core) = rev core"
    by (cases "rev core") (auto simp: dropWhile_eq_self_iff dest: list.set_sel(1))
  then show ?thesis by (simp add: strip_pad_def dropWhile_append)
qed

lemma pad_from_length:
  fixes n pad m :: nat
  assumes "n + pad = 4 * m" and "pad \<le> 2"
  shows "n mod 4 \<noteq> 1 \<and> (4 - n mod 4) mod 4 = pad"
proof -
  have pad: "pad = 0 \<or> pad = 1 \<or> pad = 2" using assms(2) by linarith
  then have "n mod 4 = (4 - pad) mod 4" using assms(1) by (elim disjE; simp; presburger)
  with pad show ?thesis by (elim disjE) simp_all
qed

lemma forgiving_clean_encode:
  assumes "filter (\<lambda>c. \<not> ascii_ws c) body = strip_pad (b64_encode bs) @ replicate k CHR ''=''"
  shows "forgiving_clean body = Some (b64_encode bs)"
proof -
  obtain core pad where e: "b64_encode bs = core @ replicate pad CHR ''=''"
    and core: "list_all (\<lambda>c. c \<noteq> CHR ''='' \<and> \<not> ascii_ws c) core"
    and pad: "pad \<le> 2" and len: "length core + pad = 4 * ((length bs + 2) div 3)"
    using b64_encode_shape [of bs] by blast
  have noeq: "CHR ''='' \<notin> set core" using core by (auto simp: list_all_iff)
  have s: "strip_pad (filter (\<lambda>c. \<not> ascii_ws c) body) = core"
    unfolding assms e strip_pad_core [OF noeq] ..
  from pad_from_length [OF len pad] show ?thesis by (simp add: forgiving_clean_def Let_def s e)
qed


text \<open>Decoding inverts the RFC 4648 encoder on every byte string whose encoding is within the size cap,
  when the one allocation is granted.\<close>

theorem du_base64_decode_encode:
  assumes "length (b64_encode bs) \<le> DU_MAX_ENCODED_LEN" and "mem (max 1 (length bs))"
  shows "du_base64_decode mem (b64_encode bs) = Inr bs"
  using assms by (rule base64_decode_encode)

theorem du_base64_decode_encode_witness:
  "b64_encode [0x66, 0x6F] = ''Zm8='' \<and> du_base64_decode (\<lambda>n. n \<le> 2) (b64_encode [0x66, 0x6F]) = Inr [0x66, 0x6F]"
proof
  show "b64_encode [0x66, 0x6F] = ''Zm8=''" by code_simp
  show "du_base64_decode (\<lambda>n. n \<le> 2) (b64_encode [0x66, 0x6F]) = Inr [0x66, 0x6F]"
    by (rule du_base64_decode_encode) code_simp+
qed

lemma takeWhile_not_mem: "d \<notin> set a \<Longrightarrow> takeWhile (\<lambda>c. c \<noteq> d) (a @ d # b) = a \<and> dropWhile (\<lambda>c. c \<noteq> d) (a @ d # b) = d # b"
  by simp

text \<open>The full processor decodes the base64 body of a \<^verbatim>\<open>data:\<close> URL to the encoded bytes no matter where
  ASCII whitespace is inserted and how much padding is present.\<close>

theorem du_decode_forgiving:
  assumes meta: "CHR '','' \<notin> set meta" "fst (media_type meta)"
    and body: "filter (\<lambda>c. \<not> ascii_ws c) body = strip_pad (b64_encode bs) @ replicate k CHR ''=''"
    and small: "length body \<le> DU_MAX_ENCODED_LEN" "length (b64_encode bs) \<le> DU_MAX_ENCODED_LEN"
    and mem: "\<And>n. mem n"
  shows "snd (du_decode mem (Some (''data:'' @ meta @ CHR '','' # body)) mime) = Inr bs"
proof -
  have "du_base64_decode mem (b64_encode bs) = Inr bs" using small(2) mem by (intro base64_decode_encode)
  then have "decode_body mem True body = Inr bs"
    using mem forgiving_clean_encode [OF body] by (simp add: decode_body_def)
  then show ?thesis using meta small(1) by (simp add: Let_def)
qed

theorem du_decode_forgiving_witness:
  "snd (du_decode (\<lambda>_. True) (Some (''data:'' @ ''text/x;BASE64'' @ CHR '','' # ''Z m8'')) (Some 8))
     = Inr [0x66, 0x6F]"
  by (rule du_decode_forgiving [where k = 0]) code_simp+

end
