(* ===== verification/Page_Caps.thy ===== *)
theory Page_Caps
  imports Request_Policy Data_Url
begin

text \<open>
  The three pure policy modules that decide what a page may do: \<^verbatim>\<open>src/js_policy.c\<close> (JavaScript per
  host), \<^verbatim>\<open>src/render_policy.c\<close> (the decision for one image) and \<^verbatim>\<open>src/webcaps.c\<close> (the capability set
  of a page). A C \<^verbatim>\<open>int\<close> used as a flag is an \<open>int\<close> and true when it is not zero.
\<close>

section \<open>Model\<close>

subsection \<open>JavaScript policy\<close>

text \<open>\<open>JSP_OTHER\<close> stands for a value outside the enumeration, for which the source fails closed.\<close>

datatype jsp_mode = JSP_OFF | JSP_ALLOWLIST | JSP_ON | JSP_OTHER int

fun jsp_enabled :: "jsp_mode \<Rightarrow> int \<Rightarrow> bool" where
  "jsp_enabled JSP_OFF host_allowlisted = False"
| "jsp_enabled JSP_ALLOWLIST host_allowlisted = (host_allowlisted \<noteq> 0)"
| "jsp_enabled JSP_ON host_allowlisted = True"
| "jsp_enabled (JSP_OTHER _) host_allowlisted = False"

definition jsp_trusted :: "bool \<Rightarrow> int \<Rightarrow> bool" where
  "jsp_trusted js_enabled host_allowlisted \<longleftrightarrow> js_enabled \<and> host_allowlisted \<noteq> 0"

definition jsp_present_trusted :: "int \<Rightarrow> bool" where
  "jsp_present_trusted host_allowlisted \<longleftrightarrow> host_allowlisted \<noteq> 0"

definition eq_ci :: "string \<Rightarrow> string \<Rightarrow> bool" where
  "eq_ci a b \<longleftrightarrow> lower_str a = lower_str b"

fun jsp_mode_from_str :: "cptr \<Rightarrow> jsp_mode" where
  "jsp_mode_from_str None = JSP_ALLOWLIST"
| "jsp_mode_from_str (Some s) =
     (if list_ex (eq_ci s) [''off'', ''0'', ''no'', ''false'', ''none''] then JSP_OFF
      else if list_ex (eq_ci s) [''on'', ''1'', ''yes'', ''true'', ''all''] then JSP_ON
      else JSP_ALLOWLIST)"

fun jsp_mode_str :: "jsp_mode \<Rightarrow> string" where
  "jsp_mode_str JSP_OFF = ''off''"
| "jsp_mode_str JSP_ALLOWLIST = ''allowlist''"
| "jsp_mode_str JSP_ON = ''on''"
| "jsp_mode_str (JSP_OTHER _) = ''off''"

subsection \<open>Image policy\<close>

record rdp_caps =
  rdp_images :: bool
  rdp_css :: bool
  rdp_js :: bool

datatype rdp_img_decision = RDP_IMG_ALLOW | RDP_IMG_BLOCK_DISABLED | RDP_IMG_BLOCK_INVALID
  | RDP_IMG_BLOCK_SCHEME | RDP_IMG_BLOCK_TRACKER

definition RDP_TRACKER_MAX_DIM :: int where
  "RDP_TRACKER_MAX_DIM = 2"

definition rdp_caps_safe :: rdp_caps where
  "rdp_caps_safe = \<lparr> rdp_images = False, rdp_css = False, rdp_js = False \<rparr>"

definition rdp_is_tracking_pixel :: "int \<Rightarrow> int \<Rightarrow> bool" where
  "rdp_is_tracking_pixel w h =
     (if w < 0 \<or> h < 0 then False
      else if w = 0 \<or> h = 0 then True
      else w \<le> RDP_TRACKER_MAX_DIM \<and> h \<le> RDP_TRACKER_MAX_DIM)"

definition rdp_image_decision :: "psl \<Rightarrow> rdp_caps \<Rightarrow> cptr \<Rightarrow> cptr \<Rightarrow> int \<Rightarrow> int \<Rightarrow> rdp_img_decision" where
  "rdp_image_decision p caps top_level_url image_url declared_w declared_h =
     (if \<not> rdp_images caps then RDP_IMG_BLOCK_DISABLED
      else if du_is_data_url image_url then
        (if du_shape_ok image_url = DU_OK then RDP_IMG_ALLOW else RDP_IMG_BLOCK_INVALID)
      else
        let rest = (if rdp_is_tracking_pixel declared_w declared_h then RDP_IMG_BLOCK_TRACKER
                    else RDP_IMG_ALLOW)
        in case rp_evaluate p top_level_url image_url of
             RP_BLOCK_INVALID \<Rightarrow> RDP_IMG_BLOCK_INVALID
           | RP_BLOCK_SCHEME \<Rightarrow> RDP_IMG_BLOCK_SCHEME
           | RP_ALLOW \<Rightarrow> rest
           | RP_BLOCK_THIRD_PARTY \<Rightarrow> rest)"

fun rdp_img_reason :: "rdp_img_decision \<Rightarrow> string" where
  "rdp_img_reason RDP_IMG_ALLOW = ''allow''"
| "rdp_img_reason RDP_IMG_BLOCK_DISABLED = ''images-disabled''"
| "rdp_img_reason RDP_IMG_BLOCK_INVALID = ''invalid-url''"
| "rdp_img_reason RDP_IMG_BLOCK_SCHEME = ''non-https-scheme''"
| "rdp_img_reason RDP_IMG_BLOCK_TRACKER = ''tracking-pixel''"

subsection \<open>Page capabilities\<close>

record wc_caps =
  wc_js :: bool
  wc_css :: bool
  wc_images :: bool
  wc_net :: bool
  wc_cookies :: bool
  wc_persist :: bool
  wc_readback :: bool
  wc_gpu :: bool
  wc_sw :: bool
  wc_rtc :: bool

record wc_input =
  js_mode :: jsp_mode
  host_in_js :: int
  host_in_allow :: int
  reader :: int
  user_css :: int
  user_images :: int

definition wc_safe :: wc_caps where
  "wc_safe = \<lparr> wc_js = False, wc_css = False, wc_images = False, wc_net = False, wc_cookies = False,
     wc_persist = False, wc_readback = False, wc_gpu = False, wc_sw = False, wc_rtc = False \<rparr>"

definition wc_derive :: "wc_input \<Rightarrow> wc_caps" where
  "wc_derive inp =
     (let js_enabled = jsp_enabled (js_mode inp) (host_in_js inp);
          present = jsp_present_trusted (host_in_allow inp);
          trusted = jsp_trusted js_enabled (host_in_allow inp);
          not_reader = (reader inp = 0)
      in \<lparr> wc_js = js_enabled,
           wc_css = (user_css inp \<noteq> 0 \<or> present) \<and> not_reader,
           wc_images = (user_images inp \<noteq> 0 \<or> present) \<and> not_reader,
           wc_net = trusted, wc_cookies = trusted, wc_persist = trusted, wc_readback = trusted,
           wc_gpu = trusted, wc_sw = trusted, wc_rtc = trusted \<rparr>)"

definition wc_from_flags :: "bool \<Rightarrow> bool \<Rightarrow> bool \<Rightarrow> wc_caps" where
  "wc_from_flags js css images =
     \<lparr> wc_js = js, wc_css = css, wc_images = images, wc_net = js, wc_cookies = js, wc_persist = js,
       wc_readback = js, wc_gpu = js, wc_sw = js, wc_rtc = js \<rparr>"

definition wc_render_caps :: "wc_caps \<Rightarrow> rdp_caps" where
  "wc_render_caps c = \<lparr> rdp_images = wc_images c, rdp_css = wc_css c, rdp_js = wc_js c \<rparr>"

section \<open>Consent\<close>

text \<open>The seven privacy-sensitive capabilities.\<close>

definition privacy_caps :: "wc_caps \<Rightarrow> bool list" where
  "privacy_caps c = [wc_net c, wc_cookies c, wc_persist c, wc_readback c, wc_gpu c, wc_sw c, wc_rtc c]"

text \<open>The seven privacy-sensitive capabilities of a page are granted together and exactly when the host
  is on the presentation allowlist and JavaScript is enabled for it; JavaScript is enabled only by
  the mode and the JavaScript allowlist; reader mode withdraws author CSS and images.\<close>

theorem wc_derive_double_consent:
  "privacy_caps (wc_derive i) = replicate 7 (host_in_allow i \<noteq> 0 \<and> wc_js (wc_derive i))
   \<and> (wc_js (wc_derive i) \<longleftrightarrow> js_mode i = JSP_ON \<or> js_mode i = JSP_ALLOWLIST \<and> host_in_js i \<noteq> 0)
   \<and> (wc_css (wc_derive i) \<longleftrightarrow> reader i = 0 \<and> \<not> (user_css i = 0 \<and> host_in_allow i = 0))
   \<and> (wc_images (wc_derive i) \<longleftrightarrow> reader i = 0 \<and> \<not> (user_images i = 0 \<and> host_in_allow i = 0))"
  by (cases "js_mode i")
    (auto simp: privacy_caps_def wc_derive_def Let_def jsp_trusted_def jsp_present_trusted_def numeral_eq_Suc)

theorem jsp_mode_roundtrip:
  "jsp_mode_from_str (Some (jsp_mode_str JSP_OFF)) = JSP_OFF
   \<and> jsp_mode_from_str (Some (jsp_mode_str JSP_ALLOWLIST)) = JSP_ALLOWLIST
   \<and> jsp_mode_from_str (Some (jsp_mode_str JSP_ON)) = JSP_ON
   \<and> jsp_enabled (jsp_mode_from_str (Some (jsp_mode_str (JSP_OTHER v)))) h = jsp_enabled (JSP_OTHER v) h"
  by (intro conjI; code_simp?)

text \<open>An image is loaded over the network only for an https image on an https document.\<close>

lemma rp_evaluate_https:
  assumes "rp_evaluate p doc url \<in> {RP_ALLOW, RP_BLOCK_THIRD_PARTY}"
  shows "ci_starts_with doc ''https://'' \<and> ci_starts_with url ''https://''"
  using assms by (auto simp: rp_evaluate_def split: option.splits if_splits)

text \<open>An image is let through only with the images capability and then either as a well-shaped \<^verbatim>\<open>data:\<close>
  URL, which opens no connection, or as an https image of an https document that is not declared
  with tracking-pixel dimensions.\<close>

theorem rdp_image_allow_cases:
  assumes "rdp_image_decision p caps doc img w h = RDP_IMG_ALLOW"
  shows "rdp_images caps \<and> (if du_is_data_url img then du_shape_ok img = DU_OK
    else ci_starts_with doc ''https://'' \<and> ci_starts_with img ''https://'' \<and> \<not> rdp_is_tracking_pixel w h)"
proof (cases "du_is_data_url img")
  case True
  with assms show ?thesis by (auto simp: rdp_image_decision_def split: if_splits)
next
  case False
  with assms have "rp_evaluate p doc img \<in> {RP_ALLOW, RP_BLOCK_THIRD_PARTY}" "rdp_images caps"
    "\<not> rdp_is_tracking_pixel w h"
    by (auto simp: rdp_image_decision_def Let_def split: if_splits rp_decision.splits)
  with False rp_evaluate_https show ?thesis by simp
qed

theorem rdp_image_allow_cases_witness:
  "rdp_image_decision sample_psl (wc_render_caps (wc_from_flags False False True))
      (Some ''https://a.com/'') (Some ''https://cdn.b.com/i.png'') 10 (- 1) = RDP_IMG_ALLOW
   \<and> \<not> rdp_is_tracking_pixel 10 (- 1)"
proof -
  have run: "rdp_image_decision sample_psl (wc_render_caps (wc_from_flags False False True))
      (Some ''https://a.com/'') (Some ''https://cdn.b.com/i.png'') 10 (- 1) = RDP_IMG_ALLOW" by code_simp
  have "\<not> du_is_data_url (Some ''https://cdn.b.com/i.png'')" by code_simp
  with rdp_image_allow_cases [OF run] run show ?thesis by (simp del: du_is_data_url.simps)
qed

end
