(* ===== verification/Host_Block.thy ===== *)
theory Host_Block
  imports Request_Policy "HOL-Library.Monad_Syntax"
begin

unbundle bit_operations_syntax

text \<open>
  The modules \<^verbatim>\<open>src/hostblock.c\<close> and \<^verbatim>\<open>src/host_conf.c\<close>: the host filter. A table is the open-addressing
  hash set of the source, with FNV-1a hashing on \<open>64 word\<close>s, linear probing and growth by doubling;
  a probe loop may run forever on a full table, so it is a partial function whose value \<open>None\<close> means
  that it does not return, and the operations carry that through the option monad. The locale
  \<open>string_set\<close> states what the filter needs of a table, and is interpreted on the table operations.
\<close>

section \<open>Hash table\<close>

subsection \<open>Model\<close>

record hb_table =
  tbl_slots :: "string option list"
  tbl_cap :: nat
  tbl_count :: nat

definition HB_MAX_HOST :: nat where
  "HB_MAX_HOST = 253"

definition HB_INIT_CAP :: nat where
  "HB_INIT_CAP = 64"

definition fnv1a :: "string \<Rightarrow> 64 word" where
  "fnv1a s = foldl (\<lambda>h c. (h XOR word_of_nat (of_char c)) * 1099511628211) 1469598103934665603 s"

text \<open>The probing loop shared by look-up and rehashing: advance until \<open>stop\<close> holds.\<close>

partial_function (option) scan :: "(nat \<Rightarrow> bool) \<Rightarrow> nat \<Rightarrow> nat \<Rightarrow> nat option" where
  "scan stop msk i = (if stop i then Some i else scan stop msk ((i + 1) AND msk))"

declare scan.simps [code]

definition home :: "nat \<Rightarrow> string \<Rightarrow> nat" where
  "home n key = unat (fnv1a key) AND (n - 1)"

definition table_probe :: "hb_table \<Rightarrow> string \<Rightarrow> nat option" where
  "table_probe t key = scan (\<lambda>i. tbl_slots t ! i = None \<or> tbl_slots t ! i = Some key) (tbl_cap t - 1) (home (tbl_cap t) key)"

text \<open>One iteration of the rehash: the string of an old slot moves to the first free new slot.\<close>

definition rehash_slot :: "nat \<Rightarrow> string option list \<Rightarrow> string option \<Rightarrow> string option list option" where
  "rehash_slot newcap ns old =
     (case old of
        None \<Rightarrow> Some ns
      | Some s \<Rightarrow> do { i \<leftarrow> scan (\<lambda>i. ns ! i = None) (newcap - 1) (home newcap s); Some (ns[i := Some s]) })"

fun rehash :: "nat \<Rightarrow> string option list \<Rightarrow> string option list \<Rightarrow> string option list option" where
  "rehash newcap ns [] = Some ns"
| "rehash newcap ns (old # olds) = do { ns' \<leftarrow> rehash_slot newcap ns old; rehash newcap ns' olds }"

text \<open>The flag of a result is whether the source returns 0; a pointer takes eight bytes.\<close>

definition table_grow :: "allocator \<Rightarrow> hb_table \<Rightarrow> nat \<Rightarrow> (hb_table \<times> bool) option" where
  "table_grow mem t newcap =
     (if \<not> mem (newcap * 8) then Some (t, False)
      else do { ns \<leftarrow> rehash newcap (replicate newcap None) (tbl_slots t);
                Some (t\<lparr>tbl_slots := ns, tbl_cap := newcap\<rparr>, True) })"

definition make_room :: "allocator \<Rightarrow> hb_table \<Rightarrow> (hb_table \<times> bool) option" where
  "make_room mem t =
     (if tbl_cap t = 0 then table_grow mem t HB_INIT_CAP
      else if (tbl_count t + 1) * 10 \<ge> tbl_cap t * 7 then table_grow mem t (tbl_cap t * 2)
      else Some (t, True))"

definition table_insert :: "allocator \<Rightarrow> hb_table \<Rightarrow> string \<Rightarrow> (hb_table \<times> bool) option" where
  "table_insert mem t key =
     do { (t, ok) \<leftarrow> make_room mem t;
          if \<not> ok then Some (t, False)
          else do { i \<leftarrow> table_probe t key;
                    if tbl_slots t ! i \<noteq> None then Some (t, True)
                    else if \<not> mem (length key + 1) then Some (t, False)
                    else Some (t\<lparr>tbl_slots := (tbl_slots t)[i := Some key], tbl_count := tbl_count t + 1\<rparr>, True) } }"

definition table_contains :: "hb_table \<Rightarrow> string \<Rightarrow> bool option" where
  "table_contains t key =
     (if tbl_cap t = 0 then Some False
      else do { i \<leftarrow> table_probe t key; Some (tbl_slots t ! i \<noteq> None) })"

definition empty_table :: hb_table where
  "empty_table = \<lparr> tbl_slots = [], tbl_cap = 0, tbl_count = 0 \<rparr>"

subsection \<open>Invariant\<close>

text \<open>The index a probe visits after \<open>j\<close> steps, and whether a key stored at a slot is found from its
  home by a run of occupied slots.\<close>

definition visit :: "nat \<Rightarrow> string \<Rightarrow> nat \<Rightarrow> nat" where
  "visit n s j = (home n s + j) mod n"

definition reachable_slot :: "string option list \<Rightarrow> string \<Rightarrow> nat \<Rightarrow> bool" where
  "reachable_slot ns s i \<longleftrightarrow> (\<exists>j. i = visit (length ns) s j
     \<and> (\<forall>j' < j. ns ! visit (length ns) s j' \<noteq> None \<and> ns ! visit (length ns) s j' \<noteq> Some s))"

definition occupied :: "string option list \<Rightarrow> nat" where
  "occupied ns = length (filter (\<lambda>x. x \<noteq> None) ns)"

definition slots_ok :: "string option list \<Rightarrow> bool" where
  "slots_ok ns \<longleftrightarrow> (\<exists>k. length ns = 2 ^ k) \<and> (\<forall>i < length ns. \<forall>s. ns ! i = Some s \<longrightarrow> reachable_slot ns s i)"

definition keys :: "string option list \<Rightarrow> string set" where
  "keys ns = {s. Some s \<in> set ns}"

definition table_inv :: "hb_table \<Rightarrow> bool" where
  "table_inv t \<longleftrightarrow> t = empty_table \<or>
     (slots_ok (tbl_slots t) \<and> length (tbl_slots t) = tbl_cap t \<and> occupied (tbl_slots t) = tbl_count t
      \<and> tbl_count t * 10 < tbl_cap t * 7 \<and> HB_INIT_CAP \<le> tbl_cap t)"

definition table_elems :: "hb_table \<Rightarrow> string set" where
  "table_elems t = keys (tbl_slots t)"

lemma and_mask_mod: "n = 2 ^ k \<Longrightarrow> x AND (n - 1) = x mod (n :: nat)"
proof -
  have "(2 ^ k - 1 :: nat) = mask k" by (simp add: mask_eq_exp_minus_1)
  then show "n = 2 ^ k \<Longrightarrow> ?thesis" by (simp only: take_bit_eq_mod flip: take_bit_eq_mask)
qed

lemma home_less: "n = 2 ^ k \<Longrightarrow> home n s < n"
  unfolding home_def by (simp only: and_mask_mod) simp

text \<open>The loop returns the first index at which it may stop.\<close>

lemma scan_first:
  assumes n: "n = 2 ^ k" and "h < n" and "stop ((h + J) mod n)" and "\<And>j. j < J \<Longrightarrow> \<not> stop ((h + j) mod n)"
  shows "scan stop (n - 1) h = Some ((h + J) mod n)"
  using assms(2-)
proof (induction J arbitrary: h)
  case 0
  then show ?case by (simp add: scan.simps)
next
  case (Suc J)
  let ?h = "(h + 1) mod n"
  have "\<not> stop h" using Suc.prems(3) [of 0] Suc.prems(1) by simp
  moreover have "scan stop (n - 1) ?h = Some ((?h + J) mod n)"
  proof (rule Suc.IH)
    show "?h < n" using n by simp
    show "stop ((?h + J) mod n)" using Suc.prems(2) by (simp add: mod_simps)
    show "\<not> stop ((?h + j) mod n)" if "j < J" for j using Suc.prems(3) [of "Suc j"] that by (simp add: mod_simps)
  qed
  ultimately show ?case unfolding scan.simps [of stop _ h] and_mask_mod [OF n] by (simp add: mod_simps)
qed


lemma keys_nth: "s \<in> keys ns \<longleftrightarrow> (\<exists>i < length ns. ns ! i = Some s)"
  by (auto simp: keys_def in_set_conv_nth)

lemma visit_bound: "ns \<noteq> [] \<Longrightarrow> visit (length ns) s j < length ns"
  by (simp add: visit_def)

lemma visit_onto:
  assumes "length ns = 2 ^ k" and "i < length ns"
  shows "\<exists>j. visit (length ns) s j = i"
proof -
  have "home (length ns) s < length ns" using assms(1) by (rule home_less)
  then have "visit (length ns) s (i + length ns - home (length ns) s) = i"
    using assms(2) by (simp add: visit_def)
  then show ?thesis ..
qed

lemma scan_visit:
  assumes "length ns = 2 ^ k" and "stop (visit (length ns) s J)" and "\<And>j. j < J \<Longrightarrow> \<not> stop (visit (length ns) s j)"
  shows "scan stop (length ns - 1) (home (length ns) s) = Some (visit (length ns) s J)"
  unfolding visit_def by (rule scan_first [OF assms(1) home_less [OF assms(1)]]) (use assms(2,3) in \<open>auto simp: visit_def\<close>)

text \<open>The first free slot on the path of a key that is not stored.\<close>

lemma first_free:
  assumes "slots_ok ns" and "None \<in> set ns" and "s \<notin> keys ns"
  obtains J where "ns ! visit (length ns) s J = None"
    "\<And>j. j < J \<Longrightarrow> ns ! visit (length ns) s j \<noteq> None \<and> ns ! visit (length ns) s j \<noteq> Some s"
proof -
  obtain k where k: "length ns = 2 ^ k" using assms(1) by (auto simp: slots_ok_def)
  obtain i where "i < length ns" "ns ! i = None" using assms(2) by (metis in_set_conv_nth)
  then have ex: "\<exists>j. ns ! visit (length ns) s j = None" using visit_onto [OF k] by metis
  have "ns ! visit (length ns) s j \<noteq> Some s" for j
    using assms(2,3) visit_bound [of ns s j] by (cases "ns = []") (auto simp: keys_nth)
  then show ?thesis
    using that [of "LEAST j. ns ! visit (length ns) s j = None"] LeastI_ex [OF ex] not_less_Least by blast
qed

lemma probe_free:
  assumes "slots_ok ns" and "None \<in> set ns" and "s \<notin> keys ns"
    and stop: "\<And>i. stop i \<longleftrightarrow> ns ! i = None \<or> both \<and> ns ! i = Some s"
  shows "\<exists>i. scan stop (length ns - 1) (home (length ns) s) = Some i \<and> i < length ns \<and> ns ! i = None
    \<and> reachable_slot ns s i"
proof -
  obtain k where k: "length ns = 2 ^ k" using assms(1) by (auto simp: slots_ok_def)
  obtain J where J: "ns ! visit (length ns) s J = None"
    "\<And>j. j < J \<Longrightarrow> ns ! visit (length ns) s j \<noteq> None \<and> ns ! visit (length ns) s j \<noteq> Some s"
    using first_free [OF assms(1-3)] by blast
  then have "scan stop (length ns - 1) (home (length ns) s) = Some (visit (length ns) s J)"
    by (intro scan_visit [OF k]) (auto simp: stop)
  with J assms(2) show ?thesis unfolding reachable_slot_def by (metis visit_bound length_pos_if_in_set length_greater_0_conv)
qed

lemma probe_found:
  assumes "slots_ok ns" and "s \<in> keys ns"
  shows "\<exists>i. scan (\<lambda>i. ns ! i = None \<or> ns ! i = Some s) (length ns - 1) (home (length ns) s) = Some i
    \<and> ns ! i = Some s"
proof -
  obtain k where k: "length ns = 2 ^ k" using assms(1) by (auto simp: slots_ok_def)
  obtain i where i: "i < length ns" "ns ! i = Some s" using assms(2) by (auto simp: keys_nth)
  then have "reachable_slot ns s i" using assms(1) by (simp add: slots_ok_def)
  then obtain J where "i = visit (length ns) s J"
    "\<And>j. j < J \<Longrightarrow> ns ! visit (length ns) s j \<noteq> None \<and> ns ! visit (length ns) s j \<noteq> Some s"
    unfolding reachable_slot_def by blast
  with i scan_visit [OF k, of "\<lambda>i. ns ! i = None \<or> ns ! i = Some s" s J] show ?thesis by auto
qed

text \<open>Storing a key at the slot its probe ends at.\<close>

lemma put_ok:
  assumes "slots_ok ns" and "i < length ns" and "ns ! i = None" and "reachable_slot ns s i"
  shows "slots_ok (ns[i := Some s])"
proof -
  have keep: "reachable_slot (ns[i := Some s]) s' i'" if r: "reachable_slot ns s' i'" for s' i'
  proof -
    obtain J where J: "i' = visit (length ns) s' J"
      "\<forall>j < J. ns ! visit (length ns) s' j \<noteq> None \<and> ns ! visit (length ns) s' j \<noteq> Some s'"
      using r unfolding reachable_slot_def by blast
    then have "\<forall>j < J. i \<noteq> visit (length ns) s' j" using assms(3) by metis
    with J show ?thesis unfolding reachable_slot_def by (intro exI [of _ J]) simp
  qed
  have "reachable_slot (ns[i := Some s]) s' i'" if "i' < length ns" "ns[i := Some s] ! i' = Some s'" for i' s'
    using that assms keep by (cases "i' = i") (auto simp: slots_ok_def)
  then show ?thesis using assms(1) by (simp add: slots_ok_def)
qed

lemma put_keys: "i < length ns \<Longrightarrow> ns ! i = None \<Longrightarrow> keys (ns[i := Some s]) = insert s (keys ns)"
  by (auto simp: keys_nth nth_list_update split: if_splits) (metis option.distinct(1))+

lemma put_occupied: "i < length ns \<Longrightarrow> ns ! i = None \<Longrightarrow> occupied (ns[i := Some s]) = Suc (occupied ns)"
  unfolding occupied_def by (induction ns arbitrary: i) (auto split: nat.split simp: nth_Cons)

lemma occupied_less: "None \<in> set ns \<longleftrightarrow> occupied ns < length ns"
proof
  assume "None \<in> set ns"
  then show "occupied ns < length ns" unfolding occupied_def by (intro length_filter_less) auto
next
  assume "occupied ns < length ns"
  then have "filter (\<lambda>x. x \<noteq> None) ns \<noteq> ns" unfolding occupied_def by force
  then show "None \<in> set ns" by (auto simp: filter_id_conv)
qed

lemma distinct_filter_nth:
  "(\<And>i j. i < j \<Longrightarrow> j < length xs \<Longrightarrow> P (xs ! i) \<Longrightarrow> xs ! i \<noteq> xs ! j) \<Longrightarrow> distinct (filter P xs)"
proof (induction xs)
  case (Cons x xs)
  have "distinct (filter P xs)" by (rule Cons.IH) (use Cons.prems [of "Suc i" "Suc j" for i j] in auto)
  moreover have "P x \<Longrightarrow> x \<notin> set xs" using Cons.prems [of 0 "Suc j" for j] by (auto simp: in_set_conv_nth)
  ultimately show ?case by auto
qed simp

lemma slots_ok_distinct:
  assumes "slots_ok ns"
  shows "distinct (filter (\<lambda>x. x \<noteq> None) ns)"
proof (rule distinct_filter_nth)
  fix i j assume ij: "i < j" "j < length ns" "ns ! i \<noteq> None"
  then obtain s where s: "ns ! i = Some s" by blast
  show "ns ! i \<noteq> ns ! j"
  proof
    assume eq: "ns ! i = ns ! j"
    then have "reachable_slot ns s i" "reachable_slot ns s j" using assms ij s by (auto simp: slots_ok_def)
    then obtain a b where a: "i = visit (length ns) s a" "\<forall>j < a. ns ! visit (length ns) s j \<noteq> Some s"
      and b: "j = visit (length ns) s b" "\<forall>j < b. ns ! visit (length ns) s j \<noteq> Some s"
      unfolding reachable_slot_def by blast
    have "a = b" using a b s eq by (metis linorder_neqE_nat)
    with a b ij show False by simp
  qed
qed

lemma rehash_correct:
  assumes "slots_ok ns" and "length ns = n" and "occupied ns + occupied olds < n"
    and "distinct (filter (\<lambda>x. x \<noteq> None) olds)" and "keys ns \<inter> keys olds = {}"
  shows "\<exists>ns'. rehash n ns olds = Some ns' \<and> slots_ok ns' \<and> length ns' = n
    \<and> keys ns' = keys ns \<union> keys olds \<and> occupied ns' = occupied ns + occupied olds"
  using assms
proof (induction olds arbitrary: ns)
  case Nil
  then show ?case by (simp add: keys_def occupied_def)
next
  case (Cons x olds)
  show ?case
  proof (cases x)
    case None
    with Cons show ?thesis by (simp add: rehash_slot_def occupied_def keys_def)
  next
    case (Some s)
    have new: "s \<notin> keys ns" "s \<notin> keys olds" using Cons.prems(4,5) Some by (auto simp: keys_def)
    have "None \<in> set ns" using Cons.prems(2,3) by (simp add: occupied_less)
    from probe_free [OF Cons.prems(1) this new(1), of "\<lambda>i. ns ! i = None" False]
    obtain i where i: "scan (\<lambda>i. ns ! i = None) (n - 1) (home n s) = Some i" "i < n" "ns ! i = None" "reachable_slot ns s i"
      using Cons.prems(2) by auto
    let ?ns = "ns[i := Some s]"
    have k: "keys ?ns = insert s (keys ns)" and o: "occupied ?ns = Suc (occupied ns)"
      using i Cons.prems(2) by (auto simp: put_keys put_occupied)
    have "\<exists>ns'. rehash n ?ns olds = Some ns' \<and> slots_ok ns' \<and> length ns' = n
      \<and> keys ns' = keys ?ns \<union> keys olds \<and> occupied ns' = occupied ?ns + occupied olds"
    proof (rule Cons.IH)
      show "slots_ok ?ns" using put_ok [OF Cons.prems(1)] i Cons.prems(2) by simp
      show "occupied ?ns + occupied olds < n" using Cons.prems(3) Some o by (simp add: occupied_def)
      show "keys ?ns \<inter> keys olds = {}" using Cons.prems(5) new k by (auto simp: keys_def)
    qed (use Cons.prems Some in auto)
    then show ?thesis using i(1) Some k o by (auto simp: rehash_slot_def keys_def occupied_def)
  qed
qed


subsection \<open>Operations\<close>

lemma table_inv_cases:
  assumes "table_inv t" and "tbl_cap t \<noteq> 0"
  shows "slots_ok (tbl_slots t)" "length (tbl_slots t) = tbl_cap t" "occupied (tbl_slots t) = tbl_count t"
    "tbl_count t * 10 < tbl_cap t * 7" "HB_INIT_CAP \<le> tbl_cap t" "None \<in> set (tbl_slots t)"
proof -
  show inv: "slots_ok (tbl_slots t)" "length (tbl_slots t) = tbl_cap t" "occupied (tbl_slots t) = tbl_count t"
    "tbl_count t * 10 < tbl_cap t * 7" "HB_INIT_CAP \<le> tbl_cap t"
    using assms by (auto simp: table_inv_def empty_table_def)
  show "None \<in> set (tbl_slots t)" unfolding occupied_less using inv by linarith
qed

lemma slots_ok_replicate: "slots_ok (replicate (2 ^ k) None)"
  by (auto simp: slots_ok_def)

lemma table_grow_correct:
  assumes slots: "tbl_slots t = [] \<or> slots_ok (tbl_slots t)" and occ: "occupied (tbl_slots t) = tbl_count t"
    and n: "n = 2 ^ k" and room: "tbl_count t < n"
  shows "\<exists>t' ok. table_grow mem t n = Some (t', ok) \<and> (\<not> ok \<longrightarrow> t' = t)
    \<and> (ok \<longrightarrow> slots_ok (tbl_slots t') \<and> length (tbl_slots t') = n \<and> tbl_cap t' = n
        \<and> tbl_count t' = tbl_count t \<and> occupied (tbl_slots t') = tbl_count t \<and> table_elems t' = table_elems t)"
proof -
  have "distinct (filter (\<lambda>x. x \<noteq> None) (tbl_slots t))" using slots slots_ok_distinct by auto
  moreover have "keys (replicate n None) = {}" "occupied (replicate n None) = 0"
    by (auto simp: keys_def occupied_def)
  ultimately obtain ns where "rehash n (replicate n None) (tbl_slots t) = Some ns" "slots_ok ns" "length ns = n"
    "keys ns = keys (tbl_slots t)" "occupied ns = tbl_count t"
    using rehash_correct [of "replicate n None" n "tbl_slots t"] slots_ok_replicate [of k] n occ room by auto
  then show ?thesis by (auto simp: table_grow_def table_elems_def)
qed

text \<open>Making room keeps the contents and leaves space for one more key.\<close>

lemma make_room_correct:
  assumes "table_inv t"
  shows "\<exists>t' ok. make_room mem t = Some (t', ok) \<and> table_inv t' \<and> table_elems t' = table_elems t
    \<and> (ok \<longrightarrow> tbl_cap t' \<noteq> 0 \<and> (tbl_count t' + 1) * 10 < tbl_cap t' * 7)"
proof (cases "tbl_cap t = 0")
  case True
  then have t: "t = empty_table" using assms by (auto simp: table_inv_def HB_INIT_CAP_def)
  then have "tbl_slots t = []" "tbl_count t = 0" by (simp_all add: empty_table_def)
  then obtain t' ok where "table_grow mem t HB_INIT_CAP = Some (t', ok)" "\<not> ok \<longrightarrow> t' = t"
    "ok \<longrightarrow> slots_ok (tbl_slots t') \<and> length (tbl_slots t') = HB_INIT_CAP \<and> tbl_cap t' = HB_INIT_CAP
      \<and> tbl_count t' = 0 \<and> occupied (tbl_slots t') = 0 \<and> table_elems t' = table_elems t"
    using table_grow_correct [of t HB_INIT_CAP 6 mem] by (auto simp: HB_INIT_CAP_def occupied_def)
  with True assms show ?thesis by (cases ok) (auto simp: make_room_def table_inv_def HB_INIT_CAP_def)
next
  case False
  note inv = table_inv_cases [OF assms False]
  obtain k where "tbl_cap t = 2 ^ k" using inv(1,2) by (auto simp: slots_ok_def)
  then have k: "tbl_cap t * 2 = 2 ^ Suc k" by simp
  have "tbl_count t < tbl_cap t * 2" using inv(4) by linarith
  then obtain t' ok where "table_grow mem t (tbl_cap t * 2) = Some (t', ok)" "\<not> ok \<longrightarrow> t' = t"
    "ok \<longrightarrow> slots_ok (tbl_slots t') \<and> length (tbl_slots t') = tbl_cap t * 2 \<and> tbl_cap t' = tbl_cap t * 2
      \<and> tbl_count t' = tbl_count t \<and> occupied (tbl_slots t') = tbl_count t \<and> table_elems t' = table_elems t"
    using table_grow_correct [OF disjI2 [OF inv(1)] inv(3) k, of mem] by auto
  with False assms inv show ?thesis
    by (cases ok) (auto simp: make_room_def table_inv_def HB_INIT_CAP_def)
qed

lemma table_probe_correct:
  assumes "table_inv t" and "tbl_cap t \<noteq> 0"
  shows "\<exists>i. table_probe t s = Some i \<and> (if s \<in> table_elems t then tbl_slots t ! i = Some s
    else i < tbl_cap t \<and> tbl_slots t ! i = None \<and> reachable_slot (tbl_slots t) s i)"
proof -
  note inv = table_inv_cases [OF assms]
  show ?thesis
    using probe_found [OF inv(1), of s]
      probe_free [OF inv(1,6), of s "\<lambda>i. tbl_slots t ! i = None \<or> tbl_slots t ! i = Some s" True]
    unfolding table_probe_def table_elems_def inv(2) by auto
qed

lemma table_contains_correct: "table_inv t \<Longrightarrow> table_contains t s = Some (s \<in> table_elems t)"
proof (cases "tbl_cap t = 0")
  case True
  assume "table_inv t"
  then show ?thesis using True
    by (auto simp: table_contains_def table_inv_def HB_INIT_CAP_def table_elems_def empty_table_def keys_def)
next
  case False
  assume "table_inv t"
  from table_probe_correct [OF this False, of s] False show ?thesis
    by (auto simp: table_contains_def split: if_splits)
qed

lemma table_insert_correct:
  assumes "table_inv t"
  shows "\<exists>t' ok. table_insert mem t s = Some (t', ok) \<and> table_inv t'
    \<and> table_elems t' = (if ok then insert s (table_elems t) else table_elems t)"
proof -
  obtain r ok where r: "make_room mem t = Some (r, ok)" "table_inv r" "table_elems r = table_elems t"
    and ok: "ok \<longrightarrow> tbl_cap r \<noteq> 0 \<and> (tbl_count r + 1) * 10 < tbl_cap r * 7"
    using make_room_correct [OF assms] by blast
  show ?thesis
  proof (cases ok)
    case False
    with r show ?thesis by (auto simp: table_insert_def)
  next
    case True
    with ok have cap: "tbl_cap r \<noteq> 0" "(tbl_count r + 1) * 10 < tbl_cap r * 7" by auto
    note inv = table_inv_cases [OF r(2) cap(1)]
    obtain i where i: "table_probe r s = Some i" "if s \<in> table_elems r then tbl_slots r ! i = Some s
      else i < tbl_cap r \<and> tbl_slots r ! i = None \<and> reachable_slot (tbl_slots r) s i"
      using table_probe_correct [OF r(2) cap(1)] by blast
    show ?thesis
    proof (cases "s \<in> table_elems r")
      case True
      with i r \<open>ok\<close> show ?thesis by (auto simp: table_insert_def insert_absorb)
    next
      case False
      with i have f: "i < tbl_cap r" "tbl_slots r ! i = None" "reachable_slot (tbl_slots r) s i" by auto
      let ?t = "r\<lparr>tbl_slots := (tbl_slots r)[i := Some s], tbl_count := tbl_count r + 1\<rparr>"
      have "table_inv ?t"
        using put_ok [OF inv(1) _ f(2,3)] put_occupied [of i "tbl_slots r" s] f inv cap by (auto simp: table_inv_def)
      moreover have "table_elems ?t = insert s (table_elems t)"
        using put_keys [of i "tbl_slots r" s] f inv(2) r(3) by (simp add: table_elems_def)
      ultimately show ?thesis using i(1) f(2) r \<open>ok\<close> by (auto simp: table_insert_def)
    qed
  qed
qed


section \<open>Filter\<close>

subsection \<open>Model\<close>

datatype hb_status = HB_OK | HB_ERR_NULL_ARG | HB_ERR_OOM

datatype hb_list = HB_LIST_BLOCK | HB_LIST_ALLOW

datatype hb_decision = HB_ALLOW | HB_BLOCK

record hb_set =
  hb_block :: hb_table
  hb_allow :: hb_table

definition is_ip_token :: "string \<Rightarrow> bool" where
  "is_ip_token s \<longleftrightarrow> list_all (\<lambda>c. is_digit c \<or> c = CHR ''.'' \<or> c = CHR '':'') s"

definition is_domain_char :: "char \<Rightarrow> bool" where
  "is_domain_char c \<longleftrightarrow> is_lower c \<or> is_digit c \<or> c = CHR ''.'' \<or> c = CHR ''-'' \<or> c = CHR ''_''"

definition trim_dot :: "string \<Rightarrow> string" where
  "trim_dot s = (if s \<noteq> [] \<and> last s = CHR ''.'' then butlast s else s)"

definition normalise_domain :: "string \<Rightarrow> nat \<Rightarrow> string option" where
  "normalise_domain tok out_size =
     (if tok = [] \<or> length tok + 1 > out_size then None
      else
        let out = trim_dot (lower_str tok) in
        if out = [] \<or> length out > HB_MAX_HOST then None
        else if \<not> list_all is_domain_char out then None else Some out)"

definition hb_new :: "allocator \<Rightarrow> hb_set option" where
  "hb_new mem = (if mem 48 then Some \<lparr> hb_block = empty_table, hb_allow = empty_table \<rparr> else None)"

definition hb_space :: "char \<Rightarrow> bool" where
  "hb_space c \<longleftrightarrow> c \<in> {CHR '' '', CHR 0x09, CHR 0x0D, CHR 0x0C, CHR 0x0B}"

text \<open>The tokens of a line and the domains among them, in order.\<close>

function tokens :: "string \<Rightarrow> string list" where
  "tokens q =
     (let ts = dropWhile hb_space q in
      if ts = [] then []
      else takeWhile (\<lambda>c. \<not> hb_space c) ts # tokens (dropWhile (\<lambda>c. \<not> hb_space c) ts))"
  by pat_completeness auto
termination
proof (relation "measure length", goal_cases)
  case (2 q x)
  then have "\<not> hb_space (hd x)" by (metis hd_dropWhile)
  then have "length (dropWhile (\<lambda>c. \<not> hb_space c) x) < length x"
    using 2 by (intro length_dropWhile_less) auto
  also have "\<dots> \<le> length q" unfolding 2(1) by (rule length_dropWhile_le)
  finally show ?case by simp
qed simp

declare tokens.simps [simp del]

definition line_domains :: "string \<Rightarrow> string list" where
  "line_domains line =
     List.map_filter (\<lambda>tok. if is_ip_token tok then None else normalise_domain tok (HB_MAX_HOST + 2))
       (tokens (takeWhile (\<lambda>c. c \<noteq> CHR ''#'') line))"

fun insert_all :: "('t \<Rightarrow> string \<Rightarrow> ('t \<times> bool) option) \<Rightarrow> 't \<Rightarrow> string list \<Rightarrow> ('t \<times> bool) option" where
  "insert_all ins t [] = Some (t, True)"
| "insert_all ins t (s # ss) =
     do { (t', ok) \<leftarrow> ins t s; if ok then insert_all ins t' ss else Some (t', False) }"

function load_text :: "allocator \<Rightarrow> hb_table \<Rightarrow> string \<Rightarrow> (hb_table \<times> bool) option" where
  "load_text mem t p =
     (if p = [] then Some (t, True)
      else do { (t', ok) \<leftarrow> insert_all (table_insert mem) t (line_domains (takeWhile (\<lambda>c. c \<noteq> newline) p));
                if ok then load_text mem t' (drop 1 (dropWhile (\<lambda>c. c \<noteq> newline) p))
                else Some (t', False) })"
  by pat_completeness auto
termination
  by (relation "measure (\<lambda>(mem, t, p). length p)") (auto intro: length_drop1_dropWhile_less [simplified])

declare load_text.simps [simp del]

fun hb_load :: "allocator \<Rightarrow> hb_set option \<Rightarrow> cptr \<Rightarrow> hb_list \<Rightarrow> (hb_set option \<times> hb_status) option" where
  "hb_load mem (Some s) (Some text) HB_LIST_ALLOW =
     do { (t, ok) \<leftarrow> load_text mem (hb_allow s) text;
          Some (Some (s\<lparr>hb_allow := t\<rparr>), if ok then HB_OK else HB_ERR_OOM) }"
| "hb_load mem (Some s) (Some text) HB_LIST_BLOCK =
     do { (t, ok) \<leftarrow> load_text mem (hb_block s) text;
          Some (Some (s\<lparr>hb_block := t\<rparr>), if ok then HB_OK else HB_ERR_OOM) }"
| "hb_load mem s text lst = Some (s, HB_ERR_NULL_ARG)"

text \<open>The copy of the host both queries walk; \<open>None\<close> where the source answers at once.\<close>

definition query_host :: "string \<Rightarrow> string option" where
  "query_host hst =
     (if hst = [] \<or> length hst > HB_MAX_HOST then None
      else let buf = trim_dot (lower_str hst) in if buf = [] then None else Some buf)"

definition next_suffix :: "string \<Rightarrow> string option" where
  "next_suffix s = (case dropWhile (\<lambda>c. c \<noteq> CHR ''.'') s of [] \<Rightarrow> None | _ # r \<Rightarrow> Some r)"

lemma next_suffix_less: "next_suffix s = Some r \<Longrightarrow> length r < length s"
proof -
  assume "next_suffix s = Some r"
  then have "length (dropWhile (\<lambda>c. c \<noteq> CHR ''.'') s) = Suc (length r)"
    by (auto simp: next_suffix_def split: list.splits)
  then show ?thesis using length_dropWhile_le [of "\<lambda>c. c \<noteq> CHR ''.''" s] by simp
qed

function check_walk :: "(string \<Rightarrow> bool option) \<Rightarrow> (string \<Rightarrow> bool option) \<Rightarrow> bool \<Rightarrow> string \<Rightarrow> hb_decision option" where
  "check_walk allow block blocked suffx =
     do { a \<leftarrow> allow suffx;
          if a then Some HB_ALLOW
          else do { b \<leftarrow> (if blocked then Some True else block suffx);
                    (case next_suffix suffx of
                       None \<Rightarrow> Some (if b then HB_BLOCK else HB_ALLOW)
                     | Some r \<Rightarrow> check_walk allow block b r) } }"
  by pat_completeness auto
termination
  by (relation "measure (\<lambda>(allow, block, b, s). length s)") (auto dest: next_suffix_less)

declare check_walk.simps [simp del]

fun hb_check :: "hb_set option \<Rightarrow> cptr \<Rightarrow> hb_decision option" where
  "hb_check (Some s) (Some hst) =
     (case query_host hst of
        None \<Rightarrow> Some HB_ALLOW
      | Some buf \<Rightarrow> check_walk (table_contains (hb_allow s)) (table_contains (hb_block s)) False buf)"
| "hb_check _ _ = Some HB_ALLOW"

definition hb_check_subresource :: "hb_set option \<Rightarrow> cptr \<Rightarrow> bool \<Rightarrow> hb_decision option" where
  "hb_check_subresource s hst page_trusted = (if page_trusted then Some HB_ALLOW else hb_check s hst)"

function any_suffix :: "(string \<Rightarrow> bool option) \<Rightarrow> string \<Rightarrow> bool option" where
  "any_suffix member suffx =
     do { a \<leftarrow> member suffx;
          if a then Some True
          else (case next_suffix suffx of None \<Rightarrow> Some False | Some r \<Rightarrow> any_suffix member r) }"
  by pat_completeness auto
termination
  by (relation "measure (\<lambda>(m, s). length s)") (auto dest: next_suffix_less)

declare any_suffix.simps [simp del]

fun hb_is_allowlisted :: "hb_set option \<Rightarrow> cptr \<Rightarrow> bool option" where
  "hb_is_allowlisted (Some s) (Some hst) =
     (case query_host hst of
        None \<Rightarrow> Some False
      | Some buf \<Rightarrow> any_suffix (table_contains (hb_allow s)) buf)"
| "hb_is_allowlisted _ _ = Some False"

fun hb_count :: "hb_set option \<Rightarrow> hb_list \<Rightarrow> nat" where
  "hb_count None lst = 0"
| "hb_count (Some s) HB_LIST_ALLOW = tbl_count (hb_allow s)"
| "hb_count (Some s) HB_LIST_BLOCK = tbl_count (hb_block s)"

text \<open>The walk visits the domain suffixes.\<close>

lemma tails_after_step:
  "tails_after d s = (case dropWhile (\<lambda>c. c \<noteq> d) s of [] \<Rightarrow> [] | _ # r \<Rightarrow> r # tails_after d r)"
  by (induction s) auto

lemma domain_suffixes_next:
  "domain_suffixes s = s # (case next_suffix s of None \<Rightarrow> [] | Some r \<Rightarrow> domain_suffixes r)"
  unfolding domain_suffixes_def next_suffix_def tails_after_step [of _ s]
  by (simp add: list.case_eq_if) blast

lemma any_suffix_total:
  "any_suffix (\<lambda>s. Some (P s)) s = Some (\<exists>d \<in> set (domain_suffixes s). P d)"
proof (induction s rule: measure_induct_rule [of length])
  case (less s)
  show ?case
  proof (cases "next_suffix s")
    case None
    then show ?thesis unfolding any_suffix.simps [of _ s] domain_suffixes_next [of s] by simp
  next
    case (Some r)
    with less.IH [OF next_suffix_less [OF Some]] show ?thesis
      unfolding any_suffix.simps [of _ s] domain_suffixes_next [of s] by simp
  qed
qed

lemma check_walk_total:
  "check_walk (\<lambda>s. Some (A s)) (\<lambda>s. Some (B s)) b s =
    Some (if \<exists>d \<in> set (domain_suffixes s). A d then HB_ALLOW
          else if b \<or> (\<exists>d \<in> set (domain_suffixes s). B d) then HB_BLOCK else HB_ALLOW)"
proof (induction s arbitrary: b rule: measure_induct_rule [of length])
  case (less s)
  show ?case
  proof (cases "next_suffix s")
    case None
    then show ?thesis unfolding check_walk.simps [of _ _ _ s] domain_suffixes_next [of s] by simp
  next
    case (Some r)
    with less.IH [OF next_suffix_less [OF Some]] show ?thesis
      unfolding check_walk.simps [of _ _ _ s] domain_suffixes_next [of s] by simp
  qed
qed

subsection \<open>The interface of a set of strings\<close>

text \<open>\<open>reliable\<close> says that no allocation fails.\<close>

locale string_set =
  fixes empty_set :: 't
    and ins :: "'t \<Rightarrow> string \<Rightarrow> ('t \<times> bool) option"
    and member :: "'t \<Rightarrow> string \<Rightarrow> bool option"
    and invar :: "'t \<Rightarrow> bool"
    and elems :: "'t \<Rightarrow> string set"
    and reliable :: bool
  assumes empty_law: "invar empty_set" "elems empty_set = {}"
    and member_law: "invar t \<Longrightarrow> member t s = Some (s \<in> elems t)"
    and ins_law: "invar t \<Longrightarrow> \<exists>t' ok. ins t s = Some (t', ok) \<and> invar t'
          \<and> elems t' = (if ok then insert s (elems t) else elems t) \<and> (reliable \<longrightarrow> ok)"
begin

lemma insert_all_law:
  "invar t \<Longrightarrow> \<exists>t' ok. insert_all ins t ss = Some (t', ok) \<and> invar t' \<and> elems t \<subseteq> elems t'
    \<and> elems t' \<subseteq> elems t \<union> set ss \<and> (ok \<longrightarrow> elems t' = elems t \<union> set ss) \<and> (reliable \<longrightarrow> ok)"
proof (induction ss arbitrary: t)
  case (Cons s ss)
  obtain u ok where u: "ins t s = Some (u, ok)" "invar u"
    "elems u = (if ok then insert s (elems t) else elems t)" "reliable \<longrightarrow> ok"
    using ins_law [OF Cons.prems] by blast
  show ?case
  proof (cases ok)
    case True
    obtain t' ok' where "insert_all ins u ss = Some (t', ok')" "invar t'" "elems u \<subseteq> elems t'"
      "elems t' \<subseteq> elems u \<union> set ss" "ok' \<longrightarrow> elems t' = elems u \<union> set ss" "reliable \<longrightarrow> ok'"
      using Cons.IH [OF u(2)] by blast
    with True u show ?thesis by (intro exI [of _ t'] exI [of _ ok']) auto
  next
    case False
    with u show ?thesis by auto
  qed
qed auto

lemma member_fun: "invar t \<Longrightarrow> member t = (\<lambda>s. Some (s \<in> elems t))"
  using member_law by blast

lemma any_suffix_law:
  "invar t \<Longrightarrow> any_suffix (member t) s = Some (\<exists>d \<in> set (domain_suffixes s). d \<in> elems t)"
  unfolding member_fun by (rule any_suffix_total)

lemma check_walk_law:
  assumes "invar ta" and "invar tb"
  shows "check_walk (member ta) (member tb) False s =
    Some (if \<exists>d \<in> set (domain_suffixes s). d \<in> elems ta then HB_ALLOW
          else if \<exists>d \<in> set (domain_suffixes s). d \<in> elems tb then HB_BLOCK else HB_ALLOW)"
  unfolding member_fun [OF assms(1)] member_fun [OF assms(2)] check_walk_total by simp

end


lemma table_insert_reliable:
  "(\<And>n. mem n) \<Longrightarrow> table_insert mem t s = Some (t', ok) \<Longrightarrow> ok"
  by (auto simp: table_insert_def make_room_def table_grow_def split: if_splits bind_splits)

interpretation hb: string_set empty_table "table_insert mem" table_contains table_inv table_elems "\<forall>n. mem n"
  for mem
proof unfold_locales
  fix t s assume inv: "table_inv t"
  show "table_contains t s = Some (s \<in> table_elems t)" using inv by (rule table_contains_correct)
  obtain t' ok where "table_insert mem t s = Some (t', ok)" "table_inv t'"
    "table_elems t' = (if ok then insert s (table_elems t) else table_elems t)"
    using table_insert_correct [OF inv] by blast
  then show "\<exists>t' ok. table_insert mem t s = Some (t', ok) \<and> table_inv t'
      \<and> table_elems t' = (if ok then insert s (table_elems t) else table_elems t) \<and> ((\<forall>n. mem n) \<longrightarrow> ok)"
    using table_insert_reliable by blast
qed (simp_all add: table_inv_def table_elems_def empty_table_def keys_def)

subsection \<open>Correctness of the filter\<close>

definition set_inv :: "hb_set \<Rightarrow> bool" where
  "set_inv s \<longleftrightarrow> table_inv (hb_block s) \<and> table_inv (hb_allow s)"

definition blocked_domains :: "hb_set \<Rightarrow> string set" where
  "blocked_domains s = table_elems (hb_block s)"

definition allowed_domains :: "hb_set \<Rightarrow> string set" where
  "allowed_domains s = table_elems (hb_allow s)"

text \<open>A list covers a host when one of the host's domain suffixes is on it.\<close>

definition covers :: "string set \<Rightarrow> string \<Rightarrow> bool" where
  "covers D h \<longleftrightarrow> (case query_host h of None \<Rightarrow> False | Some b \<Rightarrow> \<exists>d \<in> set (domain_suffixes b). d \<in> D)"

text \<open>The domains a configuration text lists.\<close>

definition conf_domains :: "string \<Rightarrow> string set" where
  "conf_domains text = (\<Union>line \<in> set (split_on newline text). set (line_domains line))"

lemma line_domains_Nil [simp]: "line_domains [] = []"
  by (simp add: line_domains_def tokens.simps)

lemma conf_domains_line:
  "p \<noteq> [] \<Longrightarrow> conf_domains p = set (line_domains (takeWhile (\<lambda>c. c \<noteq> newline) p))
     \<union> conf_domains (drop 1 (dropWhile (\<lambda>c. c \<noteq> newline) p))"
  using split_on_first_line [of newline p] by (cases "newline \<in> set p") (auto simp: conf_domains_def)

lemma load_text_step:
  assumes "p \<noteq> []"
    and "insert_all (table_insert mem) t (line_domains (takeWhile (\<lambda>c. c \<noteq> newline) p)) = Some (u, ok)"
  shows "load_text mem t p =
    (if ok then load_text mem u (drop 1 (dropWhile (\<lambda>c. c \<noteq> newline) p)) else Some (u, False))"
  using assms by (simp add: load_text.simps [of mem t p])

text \<open>What loading a text does to the set a table stands for: nothing but listed domains is added, and
  all of them unless memory runs out.\<close>

definition loaded :: "allocator \<Rightarrow> string set \<Rightarrow> string set \<Rightarrow> hb_table \<Rightarrow> bool \<Rightarrow> bool" where
  "loaded mem old new t ok \<longleftrightarrow> table_inv t \<and> old \<subseteq> table_elems t \<and> table_elems t \<subseteq> old \<union> new
     \<and> (ok \<longrightarrow> table_elems t = old \<union> new) \<and> ((\<forall>n. mem n) \<longrightarrow> ok)"

lemma loaded_Un:
  "loaded mem A B u True \<Longrightarrow> loaded mem (table_elems u) C t ok \<Longrightarrow> loaded mem A (B \<union> C) t ok"
  "loaded mem A B u False \<Longrightarrow> loaded mem A (B \<union> C) u False"
  by (auto simp: loaded_def)

lemma load_text_correct:
  "table_inv t \<Longrightarrow> \<exists>t' ok. load_text mem t p = Some (t', ok) \<and> loaded mem (table_elems t) (conf_domains p) t' ok"
proof (induction p arbitrary: t rule: measure_induct_rule [of length])
  case (less p)
  show ?case
  proof (cases "p = []")
    case True
    then show ?thesis using less.prems by (auto simp: load_text.simps conf_domains_def loaded_def)
  next
    case False
    let ?rest = "drop 1 (dropWhile (\<lambda>c. c \<noteq> newline) p)"
    let ?ds = "line_domains (takeWhile (\<lambda>c. c \<noteq> newline) p)"
    obtain u ok where u: "insert_all (table_insert mem) t ?ds = Some (u, ok)"
      and lu: "loaded mem (table_elems t) (set ?ds) u ok"
      using hb.insert_all_law [OF less.prems, of mem ?ds] unfolding loaded_def by blast
    have "table_inv u" using lu by (simp add: loaded_def)
    from less.IH [OF length_drop1_dropWhile_less [OF False] this]
    obtain t' ok' where "load_text mem u ?rest = Some (t', ok')"
      "loaded mem (table_elems u) (conf_domains ?rest) t' ok'" by blast
    then show ?thesis
      unfolding load_text_step [OF False u] conf_domains_line [OF False]
      using lu loaded_Un by (cases ok) auto
  qed
qed

text \<open>C4: the open-addressing table implements a set: on every table that satisfies the invariant a look-up
  returns (the probe loop ends) and answers membership, and an insertion returns with the invariant
  kept and either the key added or, when an allocation fails, the contents unchanged.\<close>

theorem table_refines_set:
  assumes "table_inv t"
  shows "table_contains t s = Some (s \<in> table_elems t)
    \<and> (\<exists>t' ok. table_insert mem t s = Some (t', ok) \<and> table_inv t'
        \<and> table_elems t' = (if ok then insert s (table_elems t) else table_elems t)
        \<and> ((\<forall>n. mem n) \<longrightarrow> ok))"
  using hb.member_law [OF assms] hb.ins_law [OF assms] by blast

theorem table_refines_set_witness:
  "table_inv empty_table \<and> (\<exists>t' ok. table_insert (\<lambda>_. True) empty_table ''ads.example'' = Some (t', ok)
     \<and> table_elems t' = {''ads.example''})"
proof -
  have inv: "table_inv empty_table" by (rule hb.empty_law(1))
  have "table_elems empty_table = {}" by (rule hb.empty_law(2))
  with table_refines_set [OF inv, of "''ads.example''" "\<lambda>_. True"] inv show ?thesis by auto
qed

text \<open>Loading a hosts-format text always returns; it adds exactly the domains the text lists to the
  chosen list and leaves the other list alone, or reports that memory ran out, which cannot happen
  when every allocation is granted.\<close>

theorem hb_load_adds_domains:
  assumes "set_inv s"
  shows "\<exists>s' st. hb_load mem (Some s) (Some text) lst = Some (Some s', st) \<and> set_inv s'
    \<and> st \<in> {HB_OK, HB_ERR_OOM} \<and> ((\<forall>n. mem n) \<longrightarrow> st = HB_OK)
    \<and> (st = HB_OK \<longrightarrow> (case lst of
        HB_LIST_BLOCK \<Rightarrow> blocked_domains s' = blocked_domains s \<union> conf_domains text
          \<and> allowed_domains s' = allowed_domains s
      | HB_LIST_ALLOW \<Rightarrow> allowed_domains s' = allowed_domains s \<union> conf_domains text
          \<and> blocked_domains s' = blocked_domains s))"
proof (cases lst)
  case HB_LIST_BLOCK
  with load_text_correct [of "hb_block s" mem "text"] assms show ?thesis
    by (auto simp: set_inv_def blocked_domains_def allowed_domains_def loaded_def split: if_splits)
next
  case HB_LIST_ALLOW
  with load_text_correct [of "hb_allow s" mem "text"] assms show ?thesis
    by (auto simp: set_inv_def blocked_domains_def allowed_domains_def loaded_def split: if_splits)
qed

theorem hb_load_adds_domains_witness:
  "\<exists>s' st. hb_load (\<lambda>_. True) (Some \<lparr> hb_block = empty_table, hb_allow = empty_table \<rparr>)
     (Some ''0.0.0.0 ads.example # x'') HB_LIST_BLOCK = Some (Some s', st) \<and> st = HB_OK
     \<and> blocked_domains s' = {''ads.example''}"
proof -
  let ?s = "\<lparr> hb_block = empty_table, hb_allow = empty_table \<rparr>"
  have inv: "set_inv ?s" and none: "blocked_domains ?s = {}"
    using hb.empty_law by (simp_all add: set_inv_def blocked_domains_def)
  have "conf_domains ''0.0.0.0 ads.example # x'' = {''ads.example''}" by code_simp
  with hb_load_adds_domains [OF inv, of "\<lambda>_. True" "''0.0.0.0 ads.example # x''" HB_LIST_BLOCK] none
  show ?thesis by (auto simp del: hb_load.simps)
qed

lemma check_and_query:
  assumes "set_inv s"
  shows "hb_check (Some s) (Some h) =
      Some (if covers (allowed_domains s) h then HB_ALLOW
            else if covers (blocked_domains s) h then HB_BLOCK else HB_ALLOW)
    \<and> hb_is_allowlisted (Some s) (Some h) = Some (covers (allowed_domains s) h)"
  using assms
  by (auto simp: set_inv_def covers_def allowed_domains_def blocked_domains_def hb.check_walk_law
      hb.any_suffix_law split: option.split)

text \<open>C5: the filter's decision is the specified one: a host is blocked exactly when one of its domain
  suffixes is on the blocklist and none is on the allowlist, and the allowlist query answers whether
  one is; both always return.\<close>

theorem hb_check_decision:
  assumes "set_inv s"
  shows "hb_check (Some s) (Some h) =
      Some (if covers (allowed_domains s) h then HB_ALLOW
            else if covers (blocked_domains s) h then HB_BLOCK else HB_ALLOW)
    \<and> hb_is_allowlisted (Some s) (Some h) = Some (covers (allowed_domains s) h)"
  using assms by (rule check_and_query)

theorem hb_check_decision_witness:
  "hb_check (Some \<lparr> hb_block = empty_table, hb_allow = empty_table \<rparr>) (Some ''www.ads.example'') = Some HB_ALLOW"
proof -
  have inv: "set_inv \<lparr> hb_block = empty_table, hb_allow = empty_table \<rparr>"
    using hb.empty_law by (simp add: set_inv_def)
  from hb_check_decision [OF inv, of "''www.ads.example''"] show ?thesis
    by (simp add: covers_def allowed_domains_def blocked_domains_def hb.empty_law split: option.split
        del: hb_check.simps hb_is_allowlisted.simps)
qed

section \<open>Configuration files\<close>

subsection \<open>Model\<close>

text \<open>
  \<open>files\<close> stands for the file system: the bytes of the file at a path, \<open>None\<close> if it cannot be opened
  and read. The environment variables are arguments, as in \<^verbatim>\<open>hcf_search_dirs\<close>.
\<close>

definition HCF_MAX_DIRS :: nat where
  "HCF_MAX_DIRS = 3"

definition HCF_PATH_MAX :: nat where
  "HCF_PATH_MAX = 1024"

definition HCF_MAX_FILE_BYTES :: nat where
  "HCF_MAX_FILE_BYTES = 16 * 1024 * 1024"

fun add_dir :: "string list \<Rightarrow> cptr \<Rightarrow> string list" where
  "add_dir dirs None = dirs"
| "add_dir dirs (Some path) =
     (if path = [] \<or> length dirs \<ge> HCF_MAX_DIRS then dirs
      else if length path \<ge> HCF_PATH_MAX then dirs
      else if path \<in> set dirs then dirs
      else dirs @ [path])"

definition hcf_search_dirs :: "cptr \<Rightarrow> cptr \<Rightarrow> string list" where
  "hcf_search_dirs env homedir =
     (let d1 = add_dir [] env;
          d2 = (case homedir of
                  None \<Rightarrow> d1
                | Some h \<Rightarrow> if h = [] then d1
                    else let user = h @ ''/.config/freedom'' in
                         if length user < HCF_PATH_MAX then add_dir d1 (Some user) else d1)
      in add_dir d2 (Some ''config''))"

definition read_conf :: "allocator \<Rightarrow> (string \<Rightarrow> string option) \<Rightarrow> string \<Rightarrow> string \<Rightarrow> string option" where
  "read_conf mem files dir name =
     (let path = dir @ ''/'' @ name in
      if length path \<ge> HCF_PATH_MAX * 2 then None
      else case files path of
          None \<Rightarrow> None
        | Some bytes \<Rightarrow>
          (if length bytes > HCF_MAX_FILE_BYTES then None
           else if \<not> mem (length bytes + 1) then None
           else Some (takeWhile (\<lambda>c. c \<noteq> NUL) bytes)))"

definition load_into :: "allocator \<Rightarrow> (string \<Rightarrow> string option) \<Rightarrow> hb_set \<Rightarrow> string \<Rightarrow> string \<Rightarrow> hb_list
    \<Rightarrow> hb_set option" where
  "load_into mem files s dir name lst =
     (case read_conf mem files dir name of
        None \<Rightarrow> Some s
      | Some txt \<Rightarrow> do { (s', st) \<leftarrow> hb_load mem (Some s) (Some txt) lst; s' })"

fun load_filter_dirs :: "allocator \<Rightarrow> (string \<Rightarrow> string option) \<Rightarrow> hb_set \<Rightarrow> string list \<Rightarrow> hb_set option" where
  "load_filter_dirs mem files s [] = Some s"
| "load_filter_dirs mem files s (d # ds) =
     do { s1 \<leftarrow> load_into mem files s d ''block.conf'' HB_LIST_BLOCK;
          s2 \<leftarrow> load_into mem files s1 d ''allow.conf'' HB_LIST_ALLOW;
          load_filter_dirs mem files s2 ds }"

text \<open>The outer option is for a run that does not return, the inner for the NULL result.\<close>

fun hcf_load_filter :: "allocator \<Rightarrow> (string \<Rightarrow> string option) \<Rightarrow> string list option \<Rightarrow> hb_set option option" where
  "hcf_load_filter mem files None = Some None"
| "hcf_load_filter mem files (Some dirs) =
     (case hb_new mem of
        None \<Rightarrow> Some None
      | Some s \<Rightarrow> do { s' \<leftarrow> load_filter_dirs mem files s dirs; Some (Some s') })"

fun load_allow_dirs :: "allocator \<Rightarrow> (string \<Rightarrow> string option) \<Rightarrow> string \<Rightarrow> hb_set \<Rightarrow> string list \<Rightarrow> hb_set option" where
  "load_allow_dirs mem files fname s [] = Some s"
| "load_allow_dirs mem files fname s (d # ds) =
     do { s1 \<leftarrow> load_into mem files s d fname HB_LIST_ALLOW; load_allow_dirs mem files fname s1 ds }"

fun hcf_load_allowlist :: "allocator \<Rightarrow> (string \<Rightarrow> string option) \<Rightarrow> string list option \<Rightarrow> cptr \<Rightarrow> hb_set option option" where
  "hcf_load_allowlist mem files (Some dirs) (Some fname) =
     (case hb_new mem of
        None \<Rightarrow> Some None
      | Some s \<Rightarrow> do { s' \<leftarrow> load_allow_dirs mem files fname s dirs; Some (Some s') })"
| "hcf_load_allowlist mem files _ _ = Some None"


subsection \<open>Correctness of loading\<close>

definition file_domains :: "allocator \<Rightarrow> (string \<Rightarrow> string option) \<Rightarrow> string \<Rightarrow> string \<Rightarrow> string set" where
  "file_domains mem files dir name =
     (case read_conf mem files dir name of None \<Rightarrow> {} | Some content \<Rightarrow> conf_domains content)"

lemma hb_load_reliable:
  assumes "set_inv s" and "\<forall>n. mem n"
  shows "\<exists>s'. hb_load mem (Some s) (Some content) lst = Some (Some s', HB_OK) \<and> set_inv s'
    \<and> blocked_domains s' = blocked_domains s \<union> (if lst = HB_LIST_BLOCK then conf_domains content else {})
    \<and> allowed_domains s' = allowed_domains s \<union> (if lst = HB_LIST_ALLOW then conf_domains content else {})"
  using load_text_correct [of "hb_block s" mem content] load_text_correct [of "hb_allow s" mem content] assms
  by (cases lst) (auto simp: set_inv_def blocked_domains_def allowed_domains_def loaded_def)

lemma load_into_reliable:
  assumes "set_inv s" and "\<forall>n. mem n"
  shows "\<exists>s'. load_into mem files s dir name lst = Some s' \<and> set_inv s'
    \<and> blocked_domains s' = blocked_domains s \<union> (if lst = HB_LIST_BLOCK then file_domains mem files dir name else {})
    \<and> allowed_domains s' = allowed_domains s \<union> (if lst = HB_LIST_ALLOW then file_domains mem files dir name else {})"
proof (cases "read_conf mem files dir name")
  case None
  with assms(1) show ?thesis by (simp add: load_into_def file_domains_def)
next
  case (Some content)
  with hb_load_reliable [OF assms, of content lst] show ?thesis
    by (auto simp: load_into_def file_domains_def simp del: hb_load.simps)
qed

lemma load_filter_dirs_reliable:
  assumes "set_inv s" and mem: "\<forall>n. mem n"
  shows "\<exists>s'. load_filter_dirs mem files s dirs = Some s' \<and> set_inv s'
    \<and> blocked_domains s' = blocked_domains s \<union> (\<Union>d \<in> set dirs. file_domains mem files d ''block.conf'')
    \<and> allowed_domains s' = allowed_domains s \<union> (\<Union>d \<in> set dirs. file_domains mem files d ''allow.conf'')"
  using assms(1)
proof (induction dirs arbitrary: s)
  case (Cons d dirs)
  obtain s1 where s1: "load_into mem files s d ''block.conf'' HB_LIST_BLOCK = Some s1" "set_inv s1"
    "blocked_domains s1 = blocked_domains s \<union> file_domains mem files d ''block.conf''"
    "allowed_domains s1 = allowed_domains s"
    using load_into_reliable [OF Cons.prems mem, of files d "''block.conf''" HB_LIST_BLOCK] by auto
  obtain s2 where s2: "load_into mem files s1 d ''allow.conf'' HB_LIST_ALLOW = Some s2" "set_inv s2"
    "blocked_domains s2 = blocked_domains s1"
    "allowed_domains s2 = allowed_domains s1 \<union> file_domains mem files d ''allow.conf''"
    using load_into_reliable [OF s1(2) mem, of files d "''allow.conf''" HB_LIST_ALLOW] by auto
  obtain s' where "load_filter_dirs mem files s2 dirs = Some s'" "set_inv s'"
    "blocked_domains s' = blocked_domains s2 \<union> (\<Union>d \<in> set dirs. file_domains mem files d ''block.conf'')"
    "allowed_domains s' = allowed_domains s2 \<union> (\<Union>d \<in> set dirs. file_domains mem files d ''allow.conf'')"
    using Cons.IH [OF s2(2)] by (elim exE conjE)
  with s1 s2 show ?case by (intro exI [of _ s']) (simp add: Un_assoc)
qed simp

text \<open>The filter built from the configuration directories blocks and re-enables exactly the domains that
  the readable \<^verbatim>\<open>block.conf\<close> and \<^verbatim>\<open>allow.conf\<close> files of those directories list.\<close>

theorem hcf_load_filter_union:
  assumes "\<forall>n. mem n"
  shows "\<exists>s. hcf_load_filter mem files (Some dirs) = Some (Some s) \<and> set_inv s
    \<and> blocked_domains s = (\<Union>d \<in> set dirs. file_domains mem files d ''block.conf'')
    \<and> allowed_domains s = (\<Union>d \<in> set dirs. file_domains mem files d ''allow.conf'')"
proof -
  let ?s = "\<lparr> hb_block = empty_table, hb_allow = empty_table \<rparr>"
  have e: "set_inv ?s" "blocked_domains ?s = {}" "allowed_domains ?s = {}"
    using hb.empty_law by (simp_all add: set_inv_def blocked_domains_def allowed_domains_def)
  have "hb_new mem = Some ?s" using assms by (simp add: hb_new_def)
  with load_filter_dirs_reliable [OF e(1) assms, of files dirs] show ?thesis unfolding e by auto
qed

theorem hcf_load_filter_union_witness:
  "\<exists>s. hcf_load_filter (\<lambda>_. True) (\<lambda>p. if p = ''config/block.conf'' then Some ''t.example'' else None) (Some [''config''])
      = Some (Some s) \<and> blocked_domains s = {''t.example''}"
proof -
  let ?f = "\<lambda>p. if p = ''config/block.conf'' then Some ''t.example'' else None"
  have "file_domains (\<lambda>_. True) ?f ''config'' ''block.conf'' = {''t.example''}" by code_simp
  with hcf_load_filter_union [of "\<lambda>_. True" ?f "[''config'']"] show ?thesis
    by (auto simp del: hcf_load_filter.simps)
qed

lemma add_dir_keeps:
  "distinct dirs \<and> length dirs \<le> HCF_MAX_DIRS \<and> list_all (\<lambda>d. d \<noteq> [] \<and> length d < HCF_PATH_MAX) dirs
   \<Longrightarrow> distinct (add_dir dirs p) \<and> length (add_dir dirs p) \<le> HCF_MAX_DIRS
     \<and> list_all (\<lambda>d. d \<noteq> [] \<and> length d < HCF_PATH_MAX) (add_dir dirs p)"
  by (cases p) auto

theorem hcf_search_dirs_bounds:
  "distinct (hcf_search_dirs env hom) \<and> length (hcf_search_dirs env hom) \<le> HCF_MAX_DIRS
   \<and> list_all (\<lambda>d. d \<noteq> [] \<and> length d < HCF_PATH_MAX) (hcf_search_dirs env hom)
   \<and> ''config'' \<in> set (hcf_search_dirs env hom)"
proof -
  define d1 where "d1 = add_dir [] env"
  define d2 where "d2 = (case hom of None \<Rightarrow> d1 | Some h \<Rightarrow> if h = [] then d1
     else let user = h @ ''/.config/freedom'' in if length user < HCF_PATH_MAX then add_dir d1 (Some user) else d1)"
  have res: "hcf_search_dirs env hom = add_dir d2 (Some ''config'')"
    unfolding hcf_search_dirs_def d1_def d2_def Let_def ..
  have "length d1 \<le> 1" unfolding d1_def by (cases env) auto
  then have len: "length d2 \<le> 2" by (cases hom) (auto simp: d2_def Let_def)
  have "distinct d1 \<and> length d1 \<le> HCF_MAX_DIRS \<and> list_all (\<lambda>d. d \<noteq> [] \<and> length d < HCF_PATH_MAX) d1"
    unfolding d1_def by (rule add_dir_keeps) simp
  then have "distinct d2 \<and> length d2 \<le> HCF_MAX_DIRS \<and> list_all (\<lambda>d. d \<noteq> [] \<and> length d < HCF_PATH_MAX) d2"
    using add_dir_keeps [of d1] by (cases hom) (auto simp only: d2_def Let_def option.case split: if_split)
  moreover have "''config'' \<in> set (add_dir d2 (Some ''config''))"
    using len by (auto simp: HCF_MAX_DIRS_def HCF_PATH_MAX_def)
  ultimately show ?thesis unfolding res using add_dir_keeps [of d2] by blast
qed

end
