(* ===== verification/Host_Edit.thy ===== *)
theory Host_Edit
  imports Host_Block
begin

text \<open>
  The module \<^verbatim>\<open>src/hostedit.c\<close>: building the line that adds a host to a host list, testing whether a
  list has a host, suggesting hosts of a list for a typed text, and classifying a resource by its
  extension.
\<close>

section \<open>Model\<close>

datatype he_status = HE_OK | HE_ERR_NULL_ARG | HE_ERR_INVALID_HOST | HE_ERR_RANGE

datatype he_cdn_kind_t = HE_CDN_CSS | HE_CDN_JS | HE_CDN_RES

definition HE_MAX_HOST :: nat where
  "HE_MAX_HOST = 253"

definition is_label_char :: "char \<Rightarrow> bool" where
  "is_label_char c \<longleftrightarrow> is_lower c \<or> is_upper c \<or> is_digit c \<or> c = CHR ''-''"

text \<open>The loop of \<^verbatim>\<open>valid_host\<close> on the length of the current label and the unread host.\<close>

fun valid_scan :: "nat \<Rightarrow> string \<Rightarrow> bool" where
  "valid_scan label [] = True"
| "valid_scan label (c # s) =
     (if c = CHR ''.'' then (if label = 0 then False else valid_scan 0 s)
      else if \<not> is_label_char c then False
      else if c = CHR ''-'' \<and> (label = 0 \<or> s = [] \<or> hd s = CHR ''.'') then False
      else if label + 1 > 63 then False
      else valid_scan (label + 1) s)"

definition valid_host :: "string \<Rightarrow> bool" where
  "valid_host hst =
     (if hst = [] \<or> length hst > HE_MAX_HOST then False
      else if hd hst = CHR ''.'' \<or> last hst = CHR ''.'' then False
      else valid_scan 0 hst)"

fun he_make_line :: "cptr \<Rightarrow> cbuf \<Rightarrow> he_status + string" where
  "he_make_line (Some hst) (Some n) =
     (if \<not> valid_host hst then Inl HE_ERR_INVALID_HOST
      else if n < length hst + 2 then Inl HE_ERR_RANGE
      else Inr (lower_str hst @ [newline]))"
| "he_make_line _ _ = Inl HE_ERR_NULL_ARG"

definition token_eq_host :: "string \<Rightarrow> string \<Rightarrow> bool" where
  "token_eq_host tok hst \<longleftrightarrow> lower_str (trim_dot tok) = lower_str hst"

definition he_ip_token :: "string \<Rightarrow> bool" where
  "he_ip_token tok \<longleftrightarrow> list_all (\<lambda>c. c = CHR ''.'' \<or> is_digit c) tok \<and> list_ex is_digit tok"

text \<open>
  \<^verbatim>\<open>he_scan\<close> visits the tokens in document order and stops when its callback says so; a text that
  ends in a newline has an empty last line here, which has no token.
\<close>

definition domain_tokens :: "string \<Rightarrow> string list" where
  "domain_tokens txtv = concat (map (\<lambda>line. filter (\<lambda>t. \<not> he_ip_token t)
     (tokens (takeWhile (\<lambda>c. c \<noteq> CHR ''#'') line))) (split_on newline txtv))"

fun scan_list :: "('c \<Rightarrow> string \<Rightarrow> 'c \<times> bool) \<Rightarrow> 'c \<Rightarrow> string list \<Rightarrow> 'c \<times> bool" where
  "scan_list f c [] = (c, False)"
| "scan_list f c (t # ts) = (let (c', stop) = f c t in if stop then (c', True) else scan_list f c' ts)"

definition he_scan :: "string \<Rightarrow> ('c \<Rightarrow> string \<Rightarrow> 'c \<times> bool) \<Rightarrow> 'c \<Rightarrow> 'c \<times> bool" where
  "he_scan txtv f c = scan_list f c (domain_tokens txtv)"

fun he_text_has_host :: "cptr \<Rightarrow> cptr \<Rightarrow> bool" where
  "he_text_has_host (Some txtv) (Some hst) =
     (if hst = [] then False else snd (he_scan txtv (\<lambda>_ tok. ((), token_eq_host tok hst)) ()))"
| "he_text_has_host _ _ = False"

fun contains_ci :: "string \<Rightarrow> string \<Rightarrow> bool" where
  "contains_ci [] needle = (needle = [])"
| "contains_ci (c # s) needle = (ci_prefix (c # s) needle \<or> contains_ci s needle)"

definition starts_with_ci :: "string \<Rightarrow> string \<Rightarrow> bool" where
  "starts_with_ci s pfx = ci_prefix s pfx"

definition suggest_cb :: "string \<Rightarrow> bool \<Rightarrow> nat \<Rightarrow> string list \<Rightarrow> string \<Rightarrow> string list \<times> bool" where
  "suggest_cb query prefix_only mx results tok =
     (if tok = [] \<or> length tok > HE_MAX_HOST then (results, False)
      else if prefix_only \<and> \<not> starts_with_ci tok query then (results, False)
      else if \<not> prefix_only \<and> (\<not> contains_ci tok query \<or> starts_with_ci tok query) then (results, False)
      else if list_ex (\<lambda>r. lower_str r = lower_str tok) results then (results, False)
      else (results @ [lower_str tok], length results + 1 \<ge> mx))"

text \<open>The result array of \<open>mx\<close> entries is the list of the entries written.\<close>

fun he_suggest :: "cptr \<Rightarrow> cptr \<Rightarrow> int \<Rightarrow> string list" where
  "he_suggest (Some txtv) (Some query) mx =
     (if mx \<le> 0 then []
      else
        let r1 = fst (he_scan txtv (suggest_cb query True (nat mx)) [])
        in if length r1 < nat mx then fst (he_scan txtv (suggest_cb query False (nat mx)) r1) else r1)"
| "he_suggest _ _ _ = []"

definition after_last :: "char \<Rightarrow> string \<Rightarrow> string" where
  "after_last d s = rev (takeWhile (\<lambda>c. c \<noteq> d) (rev s))"

fun he_cdn_kind :: "cptr \<Rightarrow> he_cdn_kind_t" where
  "he_cdn_kind None = HE_CDN_RES"
| "he_cdn_kind (Some url) =
     (let p = (case strstr url ''://'' of None \<Rightarrow> url | Some q \<Rightarrow> drop 3 q);
          path = dropWhile (\<lambda>c. c \<noteq> CHR ''/'') p;
          lst = after_last CHR ''/'' (takeWhile (\<lambda>c. c \<noteq> CHR ''?'' \<and> c \<noteq> CHR ''#'') path);
          ext = lower_str (after_last CHR ''.'' lst)
      in if path = [] \<or> CHR ''.'' \<notin> set lst then HE_CDN_RES
         else if ext = [] \<or> length ext \<ge> 8 then HE_CDN_RES
         else if ext = ''css'' then HE_CDN_CSS
         else if ext = ''js'' \<or> ext = ''mjs'' \<or> ext = ''cjs'' then HE_CDN_JS
         else HE_CDN_RES)"

section \<open>A line that was added takes effect\<close>

lemma valid_scan_chars: "valid_scan n s \<Longrightarrow> list_all (\<lambda>c. c = CHR ''.'' \<or> is_label_char c) s"
  by (induction n s rule: valid_scan.induct) (auto split: if_splits)

lemma label_char_lower:
  "c = CHR ''.'' \<or> is_label_char c \<Longrightarrow> is_domain_char (ascii_lower c)"
  by (auto simp: is_label_char_def is_domain_char_def ascii_lower_upper_is_lower ascii_lower_def of_char_classes)

lemma domain_char_plain:
  "is_domain_char c \<Longrightarrow> c \<noteq> newline \<and> c \<noteq> CHR ''#'' \<and> \<not> hb_space c \<and> ascii_lower c = c"
  by (auto simp: is_domain_char_def hb_space_def ascii_lower_def of_char_classes)

lemma takeWhile_all: "list_all P s \<Longrightarrow> takeWhile P s = s" "list_all P s \<Longrightarrow> dropWhile P s = []"
  by (auto simp: list_all_iff)

lemma tokens_single: "s \<noteq> [] \<Longrightarrow> list_all (\<lambda>c. \<not> hb_space c) s \<Longrightarrow> tokens s = [s]"
proof -
  assume s: "s \<noteq> []" "list_all (\<lambda>c. \<not> hb_space c) s"
  then have "dropWhile hb_space s = s" by (cases s) auto
  with s show ?thesis by (subst tokens.simps) (simp add: takeWhile_all tokens.simps [of "[]"])
qed

lemma line_domains_host:
  assumes "d \<noteq> []" and "list_all is_domain_char d" and "last d \<noteq> CHR ''.''" and "length d \<le> HB_MAX_HOST"
  shows "line_domains d = (if is_ip_token d then [] else [d])"
proof -
  have low: "lower_str d = d" using assms(2) domain_char_plain by (simp add: list_all_iff map_idI)
  have "list_all (\<lambda>c. \<not> hb_space c) d" "list_all (\<lambda>c. c \<noteq> CHR ''#'') d"
    using assms(2) domain_char_plain by (auto simp: list_all_iff)
  then have "tokens (takeWhile (\<lambda>c. c \<noteq> CHR ''#'') d) = [d]"
    using assms(1) by (simp add: takeWhile_all tokens_single)
  moreover have "normalise_domain d (HB_MAX_HOST + 2) = Some d"
    using assms by (simp add: normalise_domain_def low trim_dot_def)
  ultimately show ?thesis by (simp add: line_domains_def List.map_filter_def)
qed

lemma valid_host_lower:
  assumes "valid_host h"
  shows "lower_str h \<noteq> [] \<and> list_all is_domain_char (lower_str h) \<and> last (lower_str h) \<noteq> CHR ''.''
    \<and> length (lower_str h) \<le> HB_MAX_HOST"
proof -
  have "list_all (\<lambda>c. c = CHR ''.'' \<or> is_label_char c) h"
    using assms valid_scan_chars by (auto simp: valid_host_def split: if_splits)
  then have "list_all is_domain_char (lower_str h)" using label_char_lower by (auto simp: list_all_iff)
  then show ?thesis using assms
    by (auto simp: valid_host_def last_map HE_MAX_HOST_def HB_MAX_HOST_def split: if_splits)
qed

lemma conf_domains_made_line:
  assumes "he_make_line (Some h) (Some n) = Inr line"
  shows "conf_domains line = (if is_ip_token (lower_str h) then {} else {lower_str h})"
proof -
  have h: "valid_host h" "line = lower_str h @ [newline]" using assms by (auto split: if_splits)
  note d = valid_host_lower [OF h(1)]
  have "newline \<notin> set (lower_str h)" using d domain_char_plain by (force simp: list_all_iff)
  then have "split_on newline line = [lower_str h, []]"
    unfolding h(2) split_on_append_sep using split_on_no_sep [of newline "lower_str h"] by simp
  then show ?thesis using line_domains_host [of "lower_str h"] d by (auto simp: conf_domains_def)
qed

text \<open>A query for the host itself finds its own entry.\<close>

lemma covers_self:
  assumes "valid_host h" and "lower_str h \<in> D"
  shows "covers D h"
proof -
  have "query_host h = Some (lower_str h)"
    using valid_host_lower [OF assms(1)] by (auto simp: query_host_def trim_dot_def Let_def)
  then show ?thesis using assms(2) by (auto simp: covers_def domain_suffixes_def)
qed



section \<open>Suggestions\<close>

text \<open>What every callback of the two passes keeps.\<close>

definition suggest_inv :: "string list \<Rightarrow> string \<Rightarrow> nat \<Rightarrow> string list \<Rightarrow> bool" where
  "suggest_inv toks query mx rs \<longleftrightarrow> distinct rs \<and> length rs \<le> mx
     \<and> (\<forall>r \<in> set rs. r \<in> lower_str ` set toks \<and> r \<noteq> [] \<and> length r \<le> HE_MAX_HOST \<and> contains_ci r query)"

lemma scan_list_inv:
  assumes "P c" and "\<And>c t. P c \<Longrightarrow> t \<in> set ts \<Longrightarrow> \<not> full c \<Longrightarrow> P (fst (f c t)) \<and> (full (fst (f c t)) \<longrightarrow> snd (f c t))"
    and "\<not> full c"
  shows "P (fst (scan_list f c ts))"
  using assms
proof (induction ts arbitrary: c)
  case (Cons t ts)
  have "P (fst (f c t))" "full (fst (f c t)) \<longrightarrow> snd (f c t)" using Cons.prems by auto
  with Cons.IH [of "fst (f c t)"] Cons.prems show ?case by (auto simp: Let_def case_prod_unfold)
qed simp

lemma contains_ci_lower: "contains_ci (lower_str s) q \<longleftrightarrow> contains_ci s q"
proof (induction s)
  case (Cons c s)
  have "ci_prefix (lower_str (c # s)) q = ci_prefix (c # s) q" unfolding ci_prefix_iff by simp
  with Cons show ?case by simp
qed simp

lemma ci_prefix_contains: "ci_prefix s q \<Longrightarrow> contains_ci s q"
  by (cases s) (auto, cases q, auto)

lemma suggest_cb_inv:
  assumes "suggest_inv toks query mx rs" and "t \<in> set toks" and "length rs < mx"
  shows "suggest_inv toks query mx (fst (suggest_cb query po mx rs t))
    \<and> (\<not> length (fst (suggest_cb query po mx rs t)) < mx \<longrightarrow> snd (suggest_cb query po mx rs t))"
proof -
  have "lower_str t \<notin> set rs" if "\<not> list_ex (\<lambda>r. lower_str r = lower_str t) rs"
    using that by (auto simp: list_ex_iff)
  then show ?thesis
    using assms ci_prefix_contains [of t query]
    by (auto simp: suggest_cb_def suggest_inv_def contains_ci_lower starts_with_ci_def)
qed

text \<open>Suggestions are bounded by the caller's array, pairwise different, and each is the lower-case form
  of a host of the list that contains the typed text.\<close>

theorem he_suggest_sound:
  "suggest_inv (domain_tokens txtv) query (nat mx) (he_suggest (Some txtv) (Some query) mx)"
proof -
  let ?I = "suggest_inv (domain_tokens txtv) query (nat mx)"
  have pass: "?I (fst (he_scan txtv (suggest_cb query po (nat mx)) rs))" if "?I rs" "length rs < nat mx" for po rs
    unfolding he_scan_def
    by (rule scan_list_inv [where P = ?I and full = "\<lambda>rs. \<not> length rs < nat mx"])
      (use that suggest_cb_inv in auto)
  have "?I []" by (simp add: suggest_inv_def)
  with pass [of "[]" True] pass show ?thesis by (auto simp: Let_def suggest_inv_def [of _ _ _ "[]"])
qed

end
