(* ===== verification/Frame_Broker.thy ===== *)
theory Frame_Broker
  imports Url
begin

text \<open>
  The module \<^verbatim>\<open>src/frame_broker.c\<close>: serialized origins, the table of frames with its tree of parents,
  and the routing decision of a message between frames. A table is the list of its sixteen slots; a
  frame identifier is an \<open>int\<close> as in the source.
\<close>

section \<open>Model\<close>

definition FBK_MAX_FRAMES :: nat where
  "FBK_MAX_FRAMES = 16"

definition FBK_MAX_DEPTH :: int where
  "FBK_MAX_DEPTH = 4"

definition FBK_MAX_MSG :: nat where
  "FBK_MAX_MSG = 1048576"

definition FBK_ORIGIN_MAX :: nat where
  "FBK_ORIGIN_MAX = 300"

datatype fbk_rel = FBK_REL_PARENT | FBK_REL_TOP | FBK_REL_CHILD

datatype fbk_verdict = FBK_DELIVER | FBK_DROP_ORIGIN | FBK_ERR_FRAME | FBK_ERR_SIZE

record fbk_frame =
  fr_used :: bool
  fr_parent :: int
  fr_depth :: int
  fr_origin :: string

type_synonym fbk_table = "fbk_frame list"

definition host_char_ok :: "char \<Rightarrow> bool" where
  "host_char_ok c \<longleftrightarrow> is_lower c \<or> is_digit c \<or> c = CHR ''.'' \<or> c = CHR ''-'' \<or> c = CHR ''_''"

text \<open>The port part of an authority: \<open>None\<close> if it is malformed, the empty string if there is none or it
  is the default one.\<close>

definition origin_port :: "string \<Rightarrow> string option" where
  "origin_port rest =
     (if rest = [] then Some []
      else if length rest < 2 \<or> length rest > 6 then None
      else if \<not> list_all is_digit (tl rest) then None
      else Some (if tl rest = ''443'' then [] else tl rest))"

definition drop_userinfo :: "string \<Rightarrow> string" where
  "drop_userinfo auth =
     (if CHR ''@'' \<in> set auth then drop 1 (dropWhile (\<lambda>c. c \<noteq> CHR ''@'') auth) else auth)"

text \<open>The serialization of an authority without userinfo.\<close>

definition serialize_origin :: "string \<Rightarrow> nat \<Rightarrow> string option" where
  "serialize_origin auth n =
     (let h = takeWhile (\<lambda>c. c \<noteq> CHR '':'') auth in
      if h = [] \<or> length h > 253 then Some ''null''
      else if \<not> list_all host_char_ok (lower_str h) then Some ''null''
      else case origin_port (dropWhile (\<lambda>c. c \<noteq> CHR '':'') auth) of
          None \<Rightarrow> Some ''null''
        | Some prt \<Rightarrow>
          (let need = 8 + length h + (if prt \<noteq> [] then 1 + length prt else 0) + 1 in
           if need > n then None
           else Some (''https://'' @ lower_str h @ (if prt \<noteq> [] then CHR '':'' # prt else []))))"

fun fbk_origin_of :: "cptr \<Rightarrow> cbuf \<Rightarrow> string option" where
  "fbk_origin_of (Some url) (Some n) =
     (if n < 5 then None
      else if lower_str (take 8 url) \<noteq> ''https://'' then Some ''null''
      else serialize_origin (drop_userinfo (takeWhile authority_char (drop 8 url))) n)"
| "fbk_origin_of _ _ = None"

definition blank_frame :: fbk_frame where
  "blank_frame = \<lparr> fr_used = False, fr_parent = 0, fr_depth = 0, fr_origin = [] \<rparr>"

text \<open>\<open>None\<close> is the result \<^verbatim>\<open>-1\<close>; the table is then left without an origin for its top frame and is not
  used.\<close>

fun fbk_init :: "cptr \<Rightarrow> fbk_table option" where
  "fbk_init None = None"
| "fbk_init (Some top_url) =
     (case fbk_origin_of (Some top_url) (Some FBK_ORIGIN_MAX) of
        None \<Rightarrow> None
      | Some org \<Rightarrow> Some ((replicate FBK_MAX_FRAMES blank_frame)
          [0 := \<lparr> fr_used = True, fr_parent = -1, fr_depth = 0, fr_origin = org \<rparr>]))"

definition live :: "fbk_table \<Rightarrow> int \<Rightarrow> bool" where
  "live t fid \<longleftrightarrow> 0 \<le> fid \<and> fid < int FBK_MAX_FRAMES \<and> fr_used (t ! nat fid)"

text \<open>The first free slot from index \<open>i\<close> on.\<close>

definition free_slot :: "fbk_table \<Rightarrow> nat option" where
  "free_slot t = List.find (\<lambda>i. \<not> fr_used (t ! i)) [1..<FBK_MAX_FRAMES]"

fun fbk_add :: "fbk_table \<Rightarrow> int \<Rightarrow> cptr \<Rightarrow> (fbk_table \<times> int) option" where
  "fbk_add t parent None = None"
| "fbk_add t parent (Some url) =
     (if \<not> live t parent then None
      else if fr_depth (t ! nat parent) + 1 > FBK_MAX_DEPTH then None
      else case free_slot t of
          None \<Rightarrow> None
        | Some i \<Rightarrow>
          (case fbk_origin_of (Some url) (Some FBK_ORIGIN_MAX) of
            None \<Rightarrow> None
          | Some org \<Rightarrow>
            Some (t[i := \<lparr> fr_used = True, fr_parent = parent,
                         fr_depth = fr_depth (t ! nat parent) + 1, fr_origin = org \<rparr>], int i)))"

definition kill :: "fbk_table \<Rightarrow> nat \<Rightarrow> fbk_table" where
  "kill t i = t[i := (t ! i)\<lparr>fr_used := False\<rparr>]"

definition orphan :: "fbk_table \<Rightarrow> nat \<Rightarrow> bool" where
  "orphan t i \<longleftrightarrow> fr_used (t ! i) \<and> \<not> fr_used (t ! nat (fr_parent (t ! i)))"

text \<open>One pass over the slots, then the passes until one changes nothing.\<close>

fun sweep :: "fbk_table \<times> bool \<Rightarrow> nat list \<Rightarrow> fbk_table \<times> bool" where
  "sweep st [] = st"
| "sweep (t, changed) (i # is) = sweep (if orphan t i then (kill t i, True) else (t, changed)) is"

definition used_count :: "fbk_table \<Rightarrow> nat" where
  "used_count t = length (filter fr_used t)"

lemma used_count_kill: "i < length t \<Longrightarrow> fr_used (t ! i) \<Longrightarrow> used_count (kill t i) < used_count t"
  unfolding used_count_def kill_def
  by (induction t arbitrary: i) (auto simp: nth_Cons split: nat.splits)

lemma kill_length [simp]: "length (kill t i) = length t"
  by (simp add: kill_def)

lemma sweep_count:
  "sweep (t, c) is = (t', c') \<Longrightarrow> \<forall>i \<in> set is. i < length t \<Longrightarrow>
    length t' = length t \<and> used_count t' \<le> used_count t \<and> (\<not> c \<and> c' \<longrightarrow> used_count t' < used_count t)"
proof (induction "is" arbitrary: t c)
  case (Cons i "is")
  then show ?case using used_count_kill [of i t] by (fastforce simp: orphan_def split: if_splits)
qed simp

function remove_loop :: "fbk_table \<Rightarrow> fbk_table" where
  "remove_loop t =
     (if length t = FBK_MAX_FRAMES then
        let (t', changed) = sweep (t, False) [1..<FBK_MAX_FRAMES] in
        if changed then remove_loop t' else t'
      else t)"
  by pat_completeness auto
termination
proof (relation "measure used_count", goal_cases)
  case (2 t x t' c)
  then have "sweep (t, False) [1..<FBK_MAX_FRAMES] = (t', c)" by simp
  from sweep_count [OF this] 2 show ?case by simp
qed simp

declare remove_loop.simps [simp del]

definition fbk_remove :: "fbk_table \<Rightarrow> int \<Rightarrow> fbk_table" where
  "fbk_remove t fid = (if fid \<le> 0 \<or> \<not> live t fid then t else remove_loop (kill t (nat fid)))"

definition fbk_origin :: "fbk_table \<Rightarrow> int \<Rightarrow> cptr" where
  "fbk_origin t fid = (if live t fid then Some (fr_origin (t ! nat fid)) else None)"

text \<open>The comparison of a target that is not literally an origin: it may differ from its serialization
  in case and in one trailing slash.\<close>

definition is_bare_origin :: "string \<Rightarrow> string \<Rightarrow> bool" where
  "is_bare_origin target norm \<longleftrightarrow> lower_str (take (length norm) target) = norm
     \<and> (drop (length norm) target = [] \<or> drop (length norm) target = ''/'')"

fun target_admits :: "cptr \<Rightarrow> string \<Rightarrow> string \<Rightarrow> bool" where
  "target_admits None sndr rcv = False"
| "target_admits (Some target) sndr rcv =
     (if target = ''*'' then True
      else if rcv = ''null'' then False
      else if target = ''/'' then sndr = rcv
      else if length target \<ge> FBK_ORIGIN_MAX then False
      else case fbk_origin_of (Some target) (Some FBK_ORIGIN_MAX) of
          None \<Rightarrow> False
        | Some norm \<Rightarrow>
          (if norm = ''null'' then False
           else if length norm \<noteq> length target \<and> \<not> is_bare_origin target norm then False
           else norm = rcv))"

definition route_target :: "fbk_table \<Rightarrow> int \<Rightarrow> fbk_rel \<Rightarrow> int \<Rightarrow> int" where
  "route_target t frm rel child =
     (case rel of
        FBK_REL_PARENT \<Rightarrow> fr_parent (t ! nat frm)
      | FBK_REL_TOP \<Rightarrow> if frm = 0 then -1 else 0
      | FBK_REL_CHILD \<Rightarrow> if live t child \<and> fr_parent (t ! nat child) = frm then child else -1)"

text \<open>The result: the verdict and the destination written on delivery.\<close>

definition fbk_route :: "fbk_table \<Rightarrow> int \<Rightarrow> fbk_rel \<Rightarrow> int \<Rightarrow> cptr \<Rightarrow> nat \<Rightarrow> fbk_verdict \<times> int option" where
  "fbk_route t frm rel child target_origin msg_size =
     (if \<not> live t frm then (FBK_ERR_FRAME, None)
      else
        let dst = route_target t frm rel child in
        if \<not> live t dst then (FBK_ERR_FRAME, None)
        else if msg_size > FBK_MAX_MSG then (FBK_ERR_SIZE, None)
        else if \<not> target_admits target_origin (fr_origin (t ! nat frm)) (fr_origin (t ! nat dst))
        then (FBK_DROP_ORIGIN, None)
        else (FBK_DELIVER, Some dst))"

section \<open>The frame tree\<close>

definition frame_ok :: "fbk_table \<Rightarrow> nat \<Rightarrow> bool" where
  "frame_ok t i \<longleftrightarrow> live t (fr_parent (t ! i)) \<and> fr_depth (t ! i) = fr_depth (t ! nat (fr_parent (t ! i))) + 1
     \<and> fr_depth (t ! i) \<le> FBK_MAX_DEPTH \<and> 0 < fr_depth (t ! i)"

definition fbk_inv :: "fbk_table \<Rightarrow> bool" where
  "fbk_inv t \<longleftrightarrow> length t = FBK_MAX_FRAMES \<and> fr_used (t ! 0) \<and> fr_parent (t ! 0) = -1 \<and> fr_depth (t ! 0) = 0
     \<and> (\<forall>i \<in> {1..<FBK_MAX_FRAMES}. fr_used (t ! i) \<longrightarrow> frame_ok t i)"

lemma fbk_init_inv: "fbk_init url = Some t \<Longrightarrow> fbk_inv t"
  by (cases url) (auto simp: fbk_inv_def FBK_MAX_FRAMES_def blank_frame_def nth_Cons'
      simp del: fbk_origin_of.simps split: option.splits)

lemma free_slot_Some: "free_slot t = Some i \<Longrightarrow> 1 \<le> i \<and> i < FBK_MAX_FRAMES \<and> \<not> fr_used (t ! i)"
  by (auto simp: free_slot_def find_Some_iff)

lemma fbk_add_inv:
  assumes "fbk_inv t" and "fbk_add t parent url = Some (t', i)"
  shows "fbk_inv t'"
proof -
  obtain u where url: "url = Some u" using assms(2) by (cases url) auto
  obtain k org where k: "live t parent" "fr_depth (t ! nat parent) + 1 \<le> FBK_MAX_DEPTH" "free_slot t = Some k"
    and t': "t' = t[k := \<lparr> fr_used = True, fr_parent = parent, fr_depth = fr_depth (t ! nat parent) + 1, fr_origin = org \<rparr>]"
    using assms(2) unfolding url by (auto simp del: fbk_origin_of.simps split: if_splits option.splits)
  note slot = free_slot_Some [OF k(3)]
  have len: "length t = FBK_MAX_FRAMES" using assms(1) by (simp add: fbk_inv_def)
  have ne: "nat parent \<noteq> k" using k(1) slot by (auto simp: live_def)
  have par: "0 \<le> fr_depth (t ! nat parent)"
    using assms(1) k(1) by (cases "nat parent = 0") (force simp: fbk_inv_def frame_ok_def live_def)+
  have keep: "frame_ok t' j" if "j \<in> {1..<FBK_MAX_FRAMES}" "j \<noteq> k" "fr_used (t ! j)" for j
  proof -
    have "frame_ok t j" using assms(1) that by (simp add: fbk_inv_def)
    moreover from this have "nat (fr_parent (t ! j)) \<noteq> k" using slot by (auto simp: frame_ok_def live_def)
    ultimately show ?thesis using that by (simp add: frame_ok_def live_def t')
  qed
  have "frame_ok t' k" using k ne par slot len by (simp add: frame_ok_def live_def t')
  with keep show ?thesis using assms(1) slot len by (auto simp: fbk_inv_def t' nth_list_update)
qed


text \<open>The subtree of a frame: what reaches it by parent links of used frames.\<close>

definition parent_link :: "fbk_table \<Rightarrow> (nat \<times> nat) set" where
  "parent_link t = {(i, j). 1 \<le> i \<and> i < FBK_MAX_FRAMES \<and> fr_used (t ! i) \<and> j = nat (fr_parent (t ! i))}"

definition in_subtree :: "fbk_table \<Rightarrow> nat \<Rightarrow> nat \<Rightarrow> bool" where
  "in_subtree t k i \<longleftrightarrow> (i, k) \<in> (parent_link t)\<^sup>*"

text \<open>The state of the removal of frame \<open>k\<close>: nothing but the used flags has changed, only frames of the
  subtree have lost theirs, and \<open>k\<close> has.\<close>

definition same_frame :: "fbk_frame \<Rightarrow> fbk_frame \<Rightarrow> bool" where
  "same_frame a b \<longleftrightarrow> fr_parent a = fr_parent b \<and> fr_depth a = fr_depth b \<and> fr_origin a = fr_origin b"

lemma same_frame_update: "same_frame a b \<Longrightarrow> fr_used a = u \<Longrightarrow> a = b\<lparr>fr_used := u\<rparr>"
  by (simp add: same_frame_def)

definition removing :: "fbk_table \<Rightarrow> nat \<Rightarrow> fbk_table \<Rightarrow> bool" where
  "removing t k u \<longleftrightarrow> length u = FBK_MAX_FRAMES \<and> \<not> fr_used (u ! k)
     \<and> (\<forall>i < FBK_MAX_FRAMES. same_frame (u ! i) (t ! i)
          \<and> (fr_used (u ! i) \<longrightarrow> fr_used (t ! i))
          \<and> (fr_used (t ! i) \<and> \<not> fr_used (u ! i) \<longrightarrow> in_subtree t k i))"

lemma removing_kill:
  assumes "removing t k u" and inv: "fbk_inv t" and i: "1 \<le> i" "i < FBK_MAX_FRAMES" and orph: "orphan u i"
  shows "removing t k (kill u i)"
proof -
  have u: "same_frame (u ! i) (t ! i)" "fr_used (t ! i)" "length u = FBK_MAX_FRAMES"
    using assms(1) i orph by (auto simp: removing_def orphan_def)
  have p: "fr_parent (u ! i) = fr_parent (t ! i)" using u(1) by (simp add: same_frame_def)
  have "frame_ok t i" using inv i u(2) by (simp add: fbk_inv_def)
  then have "live t (fr_parent (t ! i))" by (simp add: frame_ok_def)
  moreover have "\<not> fr_used (u ! nat (fr_parent (t ! i)))" using orph p by (simp add: orphan_def)
  ultimately have "in_subtree t k (nat (fr_parent (t ! i)))"
    using assms(1) by (auto simp: removing_def live_def)
  moreover have "(i, nat (fr_parent (t ! i))) \<in> parent_link t" using i u(2) by (simp add: parent_link_def)
  ultimately have sub: "in_subtree t k i" unfolding in_subtree_def by (rule converse_rtrancl_into_rtrancl [rotated])
  show ?thesis using assms(1) sub u(3) i by (auto simp: removing_def kill_def nth_list_update same_frame_def)
qed

lemma removing_sweep:
  "removing t k u \<Longrightarrow> fbk_inv t \<Longrightarrow> set is \<subseteq> {1..<FBK_MAX_FRAMES} \<Longrightarrow> sweep (u, c) is = (u', c') \<Longrightarrow>
    removing t k u' \<and> (c \<longrightarrow> c') \<and> (\<not> c' \<longrightarrow> u' = u \<and> (\<forall>i \<in> set is. \<not> orphan u i))"
proof (induction "is" arbitrary: u c)
  case (Cons i "is")
  show ?case
  proof (cases "orphan u i")
    case True
    then have "removing t k (kill u i)" using Cons.prems by (intro removing_kill) auto
    with Cons.IH [OF this Cons.prems(2)] Cons.prems True show ?thesis by auto
  next
    case False
    with Cons.IH [OF Cons.prems(1,2)] Cons.prems show ?thesis by auto
  qed
qed simp

lemma remove_loop_correct:
  assumes "fbk_inv t" and "removing t k u"
  shows "removing t k (remove_loop u) \<and> (\<forall>i \<in> {1..<FBK_MAX_FRAMES}. \<not> orphan (remove_loop u) i)"
  using assms(2)
proof (induction u rule: remove_loop.induct)
  case (1 u)
  obtain u' c where sw: "sweep (u, False) [1..<FBK_MAX_FRAMES] = (u', c)" by fastforce
  have len: "length u = FBK_MAX_FRAMES" using "1.prems" by (simp add: removing_def)
  from removing_sweep [OF "1.prems" assms(1) _ sw]
  have s: "removing t k u'" "\<not> c \<longrightarrow> u' = u \<and> (\<forall>i \<in> {1..<FBK_MAX_FRAMES}. \<not> orphan u i)" by auto
  show ?case
    using s "1.IH" [OF len sw [symmetric] refl] len sw
    by (cases c) (simp_all add: remove_loop.simps [of u])
qed

lemma subtree_gone:
  assumes inv: "fbk_inv t" and r: "removing t k u" and no: "\<forall>i \<in> {1..<FBK_MAX_FRAMES}. \<not> orphan u i"
    and sub: "in_subtree t k i"
  shows "\<not> fr_used (u ! i)"
  using sub unfolding in_subtree_def
proof (induction rule: converse_rtrancl_induct)
  case base
  then show ?case using r by (simp add: removing_def)
next
  case (step i j)
  then have i: "1 \<le> i" "i < FBK_MAX_FRAMES" "j = nat (fr_parent (t ! i))" by (auto simp: parent_link_def)
  then have "fr_parent (u ! i) = fr_parent (t ! i)" using r by (simp add: removing_def same_frame_def)
  then have "nat (fr_parent (u ! i)) = j" using i(3) by simp
  moreover have "\<not> orphan u i" using no i by simp
  ultimately show ?case using step.IH by (auto simp: orphan_def)
qed

lemma fbk_remove_frames:
  assumes inv: "fbk_inv t" and "0 < k" and "live t k"
  shows "length (fbk_remove t k) = FBK_MAX_FRAMES
    \<and> (\<forall>i < FBK_MAX_FRAMES. fbk_remove t k ! i =
        (t ! i)\<lparr>fr_used := fr_used (t ! i) \<and> \<not> in_subtree t (nat k) i\<rparr>)"
proof -
  have k: "nat k < length t" "length t = FBK_MAX_FRAMES" using inv assms(3) by (auto simp: fbk_inv_def live_def)
  have "in_subtree t (nat k) (nat k)" by (simp add: in_subtree_def)
  then have start: "removing t (nat k) (kill t (nat k))"
    using k by (auto simp: removing_def kill_def nth_list_update same_frame_def)
  define u where "u = fbk_remove t k"
  have "u = remove_loop (kill t (nat k))" using assms(2,3) by (simp add: u_def fbk_remove_def)
  with remove_loop_correct [OF inv start]
  have r: "removing t (nat k) u" and no: "\<forall>i \<in> {1..<FBK_MAX_FRAMES}. \<not> orphan u i" by auto
  have "u ! i = (t ! i)\<lparr>fr_used := fr_used (t ! i) \<and> \<not> in_subtree t (nat k) i\<rparr>" if "i < FBK_MAX_FRAMES" for i
  proof (rule same_frame_update)
    show "same_frame (u ! i) (t ! i)" using r that by (simp add: removing_def)
    have "fr_used (u ! i) \<longrightarrow> fr_used (t ! i)" "fr_used (t ! i) \<and> \<not> fr_used (u ! i) \<longrightarrow> in_subtree t (nat k) i"
      using r that unfolding removing_def by blast+
    then show "fr_used (u ! i) = (fr_used (t ! i) \<and> \<not> in_subtree t (nat k) i)"
      using subtree_gone [OF inv r no, of i] by blast
  qed
  moreover have "length u = FBK_MAX_FRAMES" using r by (simp add: removing_def)
  ultimately show ?thesis unfolding u_def by blast
qed


lemma subtree_parent:
  assumes "fbk_inv t" and "0 < k" and "1 \<le> i" and "i < FBK_MAX_FRAMES" and "fr_used (t ! i)"
    and "\<not> in_subtree t k i"
  shows "\<not> in_subtree t k (nat (fr_parent (t ! i)))"
proof
  assume "in_subtree t k (nat (fr_parent (t ! i)))"
  moreover have "(i, nat (fr_parent (t ! i))) \<in> parent_link t" using assms by (simp add: parent_link_def)
  ultimately show False using assms(6) unfolding in_subtree_def by (meson converse_rtrancl_into_rtrancl)
qed

lemma root_not_in_subtree: "0 < k \<Longrightarrow> \<not> in_subtree t k 0"
  unfolding in_subtree_def by (auto elim!: converse_rtranclE simp: parent_link_def)

lemma fbk_remove_inv:
  assumes inv: "fbk_inv t"
  shows "fbk_inv (fbk_remove t k)"
proof (cases "0 < k \<and> live t k")
  case False
  then show ?thesis using inv by (auto simp: fbk_remove_def)
next
  case True
  let ?u = "fbk_remove t k"
  have len: "length ?u = FBK_MAX_FRAMES" and fr: "?u ! i = (t ! i)\<lparr>fr_used := fr_used (t ! i) \<and> \<not> in_subtree t (nat k) i\<rparr>"
    if "i < FBK_MAX_FRAMES" for i
    using fbk_remove_frames [OF inv] True that by auto
  have "frame_ok ?u i" if i: "1 \<le> i" "i < FBK_MAX_FRAMES" "fr_used (?u ! i)" for i
  proof -
    have used: "fr_used (t ! i)" "\<not> in_subtree t (nat k) i" using i fr [of i] by auto
    then have ok: "frame_ok t i" using inv i by (simp add: fbk_inv_def)
    then have p: "nat (fr_parent (t ! i)) < FBK_MAX_FRAMES" by (auto simp: frame_ok_def live_def)
    have "\<not> in_subtree t (nat k) (nat (fr_parent (t ! i)))"
      by (rule subtree_parent [OF inv]) (use True i used in auto)
    with ok p show ?thesis using fr [of i] fr [OF p] i by (simp add: frame_ok_def live_def)
  qed
  moreover have "?u ! 0 = t ! 0"
    using fr [of 0] root_not_in_subtree [of "nat k" t] inv True by (simp add: fbk_inv_def FBK_MAX_FRAMES_def)
  moreover have "length ?u = FBK_MAX_FRAMES" using len [of 0] by (simp add: FBK_MAX_FRAMES_def)
  ultimately show ?thesis using inv by (simp add: fbk_inv_def)
qed

text \<open>The table as a machine: the calls the parent process makes while a page lives.\<close>

datatype fbk_op = Fbk_Add int cptr | Fbk_Remove int

fun fbk_step :: "fbk_table \<Rightarrow> fbk_op \<Rightarrow> fbk_table" where
  "fbk_step t (Fbk_Add parent url) = (case fbk_add t parent url of None \<Rightarrow> t | Some (t', _) \<Rightarrow> t')"
| "fbk_step t (Fbk_Remove fid) = fbk_remove t fid"

interpretation fbk: invariant_machine fbk_step fbk_inv
proof unfold_locales
  fix t op assume "fbk_inv t"
  then show "fbk_inv (fbk_step t op)"
    by (cases op) (auto simp: fbk_remove_inv simp del: fbk_add.simps split: option.split intro: fbk_add_inv)
qed

text \<open>C32: after every sequence of additions and removals from a fresh table, the live frames form a tree
  below the top document: frame 0 is the live root, every other live frame has a live parent one
  level above, and no frame is deeper than the limit.\<close>

theorem fbk_tree_invariant:
  assumes "fbk_init url = Some t"
  shows "fbk_inv (foldl fbk_step t ops)"
  using fbk_init_inv [OF assms] by (rule fbk.run_inv)

definition sample_frames :: fbk_table where
  "sample_frames = foldl fbk_step (the (fbk_init (Some ''https://a.b/'')))
     [Fbk_Add 0 (Some ''https://c.d:8443/x''), Fbk_Add 1 (Some ''https://e.f/''), Fbk_Add 0 (Some ''about:blank'')]"

lemma sample_frames_init: "fbk_init (Some ''https://a.b/'') = Some (the (fbk_init (Some ''https://a.b/'')))"
  by code_simp

lemma sample_frames_inv: "fbk_inv sample_frames"
  unfolding sample_frames_def by (rule fbk.run_inv [OF fbk_init_inv [OF sample_frames_init]])

theorem fbk_tree_invariant_witness:
  "fbk_inv (foldl fbk_step (the (fbk_init (Some ''https://a.b/'')))
     [Fbk_Add 0 (Some ''https://c.d/''), Fbk_Remove 1, Fbk_Remove 7])"
  by (rule fbk_tree_invariant [OF sample_frames_init])

text \<open>Removing a live frame takes exactly its subtree out of the table: a frame that reaches it by parent
  links has no origin afterwards, every other frame keeps its own.\<close>

theorem fbk_remove_subtree:
  assumes "fbk_inv t" and "0 < k" and "live t k"
  shows "fbk_origin (fbk_remove t k) f =
    (if in_subtree t (nat k) (nat f) then None else fbk_origin t f)"
proof (cases "0 \<le> f \<and> f < int FBK_MAX_FRAMES")
  case True
  then have "fbk_remove t k ! nat f = (t ! nat f)\<lparr>fr_used := fr_used (t ! nat f) \<and> \<not> in_subtree t (nat k) (nat f)\<rparr>"
    using fbk_remove_frames [OF assms] by auto
  then show ?thesis using True by (simp add: fbk_origin_def live_def)
next
  case False
  then show ?thesis by (auto simp: fbk_origin_def live_def)
qed

theorem fbk_remove_subtree_witness:
  "live sample_frames 1 \<and> fbk_origin (fbk_remove sample_frames 1) 1 = None"
proof -
  have l: "live sample_frames 1" by code_simp
  have "in_subtree sample_frames (nat 1) (nat 1)" by (simp add: in_subtree_def)
  with fbk_remove_subtree [OF sample_frames_inv _ l, of 1] l show ?thesis by simp
qed

section \<open>Routing\<close>

text \<open>C33: a message is delivered only from a live frame to a live frame that stands in the requested relation
  to it, within the size limit, and only if the page named the receiver: by \<^verbatim>\<open>*\<close>, by \<^verbatim>\<open>/\<close> when both
  origins agree, or by a target whose serialized origin is the receiver's; an opaque receiver is
  reached by \<^verbatim>\<open>*\<close> alone.\<close>

theorem fbk_route_deliver:
  assumes "fbk_route t frm rel child target sz = (FBK_DELIVER, Some dst)"
  shows "live t frm \<and> live t dst \<and> sz \<le> FBK_MAX_MSG
    \<and> (case rel of FBK_REL_PARENT \<Rightarrow> dst = fr_parent (t ! nat frm)
       | FBK_REL_TOP \<Rightarrow> dst = 0 \<and> frm \<noteq> 0
       | FBK_REL_CHILD \<Rightarrow> dst = child \<and> fr_parent (t ! nat dst) = frm)
    \<and> (\<exists>tg. target = Some tg \<and> (tg = ''*'' \<or> fr_origin (t ! nat dst) \<noteq> ''null''
        \<and> (if tg = ''/'' then fr_origin (t ! nat dst) = fr_origin (t ! nat frm)
           else fbk_origin_of (Some tg) (Some FBK_ORIGIN_MAX) = Some (fr_origin (t ! nat dst)))))"
proof -
  have live: "live t frm" "live t dst" and sz: "sz \<le> FBK_MAX_MSG" and dst: "dst = route_target t frm rel child"
    and adm: "target_admits target (fr_origin (t ! nat frm)) (fr_origin (t ! nat dst))"
    using assms by (auto simp: fbk_route_def Let_def split: if_splits)
  obtain tg where tg: "target = Some tg" using adm by (cases target) auto
  have "tg = ''*'' \<or> fr_origin (t ! nat dst) \<noteq> ''null''
        \<and> (if tg = ''/'' then fr_origin (t ! nat dst) = fr_origin (t ! nat frm)
           else fbk_origin_of (Some tg) (Some FBK_ORIGIN_MAX) = Some (fr_origin (t ! nat dst)))"
    using adm unfolding tg by (auto simp del: fbk_origin_of.simps split: if_splits option.splits)
  moreover have "case rel of FBK_REL_PARENT \<Rightarrow> dst = fr_parent (t ! nat frm)
       | FBK_REL_TOP \<Rightarrow> dst = 0 \<and> frm \<noteq> 0
       | FBK_REL_CHILD \<Rightarrow> dst = child \<and> fr_parent (t ! nat dst) = frm"
    using live(2) dst by (cases rel) (auto simp: route_target_def live_def split: if_splits)
  ultimately show ?thesis using live sz tg by blast
qed

theorem fbk_route_deliver_witness:
  "fbk_route sample_frames 0 FBK_REL_CHILD 1 (Some ''https://C.d:8443'') 10 = (FBK_DELIVER, Some 1)
   \<and> live sample_frames 1"
proof -
  have run: "fbk_route sample_frames 0 FBK_REL_CHILD 1 (Some ''https://C.d:8443'') 10 = (FBK_DELIVER, Some 1)"
    by code_simp
  from fbk_route_deliver [OF run] run show ?thesis by blast
qed

section \<open>Serialized origins\<close>

text \<open>What the serializer writes besides \<^verbatim>\<open>null\<close>.\<close>

definition https_origin :: "string \<Rightarrow> bool" where
  "https_origin s \<longleftrightarrow> (\<exists>h p. s = ''https://'' @ h @ (if p = [] then [] else CHR '':'' # p) \<and> h \<noteq> [] \<and> length h \<le> 253
     \<and> list_all host_char_ok h \<and> list_all is_digit p \<and> length p \<le> 5 \<and> p \<noteq> ''443'')"

lemma host_char_plain:
  "host_char_ok c \<Longrightarrow> authority_char c \<and> c \<noteq> CHR ''@'' \<and> c \<noteq> CHR '':'' \<and> ascii_lower c = c"
  by (auto simp: host_char_ok_def authority_char_def ascii_lower_def of_char_classes)

lemma digit_plain: "is_digit c \<Longrightarrow> authority_char c \<and> c \<noteq> CHR ''@''"
  by (auto simp: authority_char_def of_char_classes)

lemma origin_port_Some:
  "origin_port r = Some p \<Longrightarrow> list_all is_digit p \<and> length p \<le> 5 \<and> p \<noteq> ''443''"
  by (auto simp: origin_port_def split: if_splits)

lemma serialize_origin_shape:
  assumes "serialize_origin auth n = Some org"
  shows "org = ''null'' \<or> https_origin org"
proof -
  let ?h = "takeWhile (\<lambda>c. c \<noteq> CHR '':'') auth"
  consider "org = ''null''"
    | p where "?h \<noteq> []" "length ?h \<le> 253" "list_all host_char_ok (lower_str ?h)"
      "origin_port (dropWhile (\<lambda>c. c \<noteq> CHR '':'') auth) = Some p"
      "org = ''https://'' @ lower_str ?h @ (if p = [] then [] else CHR '':'' # p)"
    using assms by (auto simp: serialize_origin_def Let_def split: if_splits option.splits)
  then show ?thesis
  proof cases
    case 2
    have "https_origin org" unfolding https_origin_def
      by (rule exI [of _ "lower_str ?h"], rule exI [of _ p]) (use 2 origin_port_Some [OF 2(4)] in auto)
    then show ?thesis ..
  qed simp
qed

lemma fbk_origin_of_shape:
  "fbk_origin_of (Some url) (Some n) = Some org \<Longrightarrow> org = ''null'' \<or> https_origin org"
  using serialize_origin_shape by (auto split: if_splits)

lemma https_origin_fixed:
  assumes "https_origin s" and "length s < n"
  shows "fbk_origin_of (Some s) (Some n) = Some s"
proof -
  obtain h p where s: "s = ''https://'' @ h @ (if p = [] then [] else CHR '':'' # p)" and h: "h \<noteq> []" "length h \<le> 253"
    "list_all host_char_ok h" and p: "list_all is_digit p" "length p \<le> 5" "p \<noteq> ''443''"
    using assms(1) unfolding https_origin_def by blast
  let ?rest = "if p = [] then [] else CHR '':'' # p"
  have pre: "lower_str (take 8 s) = ''https://''" "drop 8 s = h @ ?rest"
    unfolding s using lower_https(1) by simp_all
  have all: "list_all authority_char (h @ ?rest)" "CHR ''@'' \<notin> set (h @ ?rest)"
    using h(3) p(1) host_char_plain digit_plain by (auto simp: list_all_iff authority_char_def)
  have "takeWhile authority_char (h @ ?rest) = h @ ?rest"
    using all(1) by (simp only: takeWhile_eq_all_conv list_all_iff)
  then have auth: "drop_userinfo (takeWhile authority_char (drop 8 s)) = h @ ?rest"
    unfolding pre(2) drop_userinfo_def using all(2) by (simp only: if_False)
  have colon: "CHR '':'' \<notin> set h" using h(3) host_char_plain by (auto simp: list_all_iff)
  have split: "takeWhile (\<lambda>c. c \<noteq> CHR '':'') (h @ ?rest) = h" "dropWhile (\<lambda>c. c \<noteq> CHR '':'') (h @ ?rest) = ?rest"
    using colon by simp_all
  have port: "origin_port ?rest = Some p" using p by (cases p) (auto simp: origin_port_def)
  have low: "lower_str h = h" using h(3) host_char_plain by (auto simp: list_all_iff intro: map_idI)
  have len: "length s = 8 + length h + (if p \<noteq> [] then 1 + length p else 0)" unfolding s by simp
  show ?thesis
    unfolding fbk_origin_of.simps serialize_origin_def Let_def auth split port option.case low
    using pre(1) h len assms(2) s by auto
qed

text \<open>A serialized origin is \<^verbatim>\<open>null\<close> or the lower-case scheme, host and non-default port, and serializing it
  again changes nothing.\<close>

theorem fbk_origin_of_canonical:
  assumes "fbk_origin_of (Some url) (Some n) = Some org" and "length org < n"
  shows "fbk_origin_of (Some org) (Some n) = Some org \<and> (org = ''null'' \<or> https_origin org)"
proof -
  have "fbk_origin_of (Some ''null'') (Some n) = Some ''null''"
    using assms(1) by (auto simp: ascii_lower_def split: if_splits)
  with fbk_origin_of_shape [OF assms(1)] https_origin_fixed assms(2) show ?thesis by blast
qed

theorem fbk_origin_of_canonical_witness:
  "fbk_origin_of (Some ''HTTPS://u@A.b:443/x'') (Some 300) = Some ''https://a.b''
   \<and> fbk_origin_of (Some ''https://a.b'') (Some 300) = Some ''https://a.b''"
proof -
  have run: "fbk_origin_of (Some ''HTTPS://u@A.b:443/x'') (Some 300) = Some ''https://a.b''" by code_simp
  have "length ''https://a.b'' < (300 :: nat)" by simp
  from fbk_origin_of_canonical [OF run this] run show ?thesis by (elim conjE) (intro conjI)
qed

end
