(* ===== verification/Text_Field.thy ===== *)
theory Text_Field
  imports C_Prelude
begin

text \<open>
  The module \<^verbatim>\<open>src/textfield.c\<close>: the single-line edit buffer of the interface. The buffer is the list of its
  \<^verbatim>\<open>TF_CAP\<close> bytes, moved in place as \<^verbatim>\<open>memmove\<close> moves them; a null field is \<open>None\<close>. The specification is a
  pair of strings, the text before and the text behind the cursor.
\<close>

section \<open>Model\<close>

definition TF_CAP :: nat where
  "TF_CAP = 1024"

record tf_field =
  tf_buf :: string
  tf_length :: nat
  tf_curs :: nat

datatype tf_status = TF_OK | TF_ERR_NULL_ARG | TF_ERR_FULL

text \<open>Moving \<open>n\<close> bytes inside a buffer from offset \<open>src\<close> to offset \<open>dst\<close>.\<close>

definition memmove :: "string \<Rightarrow> nat \<Rightarrow> nat \<Rightarrow> nat \<Rightarrow> string" where
  "memmove b dst src n = take dst b @ take n (drop src b) @ drop (dst + n) b"

fun tf_init :: "tf_field option \<Rightarrow> tf_field option" where
  "tf_init None = None"
| "tf_init (Some f) = Some (f\<lparr>tf_buf := (tf_buf f)[0 := NUL], tf_length := 0, tf_curs := 0\<rparr>)"

definition tf_clear :: "tf_field option \<Rightarrow> tf_field option" where
  "tf_clear f = tf_init f"

fun tf_set :: "tf_field option \<Rightarrow> cptr \<Rightarrow> tf_status \<times> tf_field option" where
  "tf_set (Some f) (Some s) =
     (let n = length s in
      if n \<ge> TF_CAP then (TF_ERR_FULL, Some f)
      else (TF_OK, Some (f\<lparr>tf_buf := (s @ drop n (tf_buf f))[n := NUL], tf_length := n, tf_curs := n\<rparr>)))"
| "tf_set f s = (TF_ERR_NULL_ARG, f)"

fun tf_insert :: "tf_field option \<Rightarrow> char \<Rightarrow> tf_status \<times> tf_field option" where
  "tf_insert None c = (TF_ERR_NULL_ARG, None)"
| "tf_insert (Some f) c =
     (if tf_length f + 1 \<ge> TF_CAP then (TF_ERR_FULL, Some f)
      else
        let b = memmove (tf_buf f) (tf_curs f + 1) (tf_curs f) (tf_length f - tf_curs f);
            b' = b[tf_curs f := c];
            n = tf_length f + 1 in
        (TF_OK, Some (f\<lparr>tf_buf := b'[n := NUL], tf_length := n, tf_curs := tf_curs f + 1\<rparr>)))"

fun tf_backspace :: "tf_field option \<Rightarrow> tf_field option" where
  "tf_backspace None = None"
| "tf_backspace (Some f) =
     (if tf_curs f = 0 then Some f
      else
        let b = memmove (tf_buf f) (tf_curs f - 1) (tf_curs f) (tf_length f - tf_curs f);
            n = tf_length f - 1 in
        Some (f\<lparr>tf_buf := b[n := NUL], tf_length := n, tf_curs := tf_curs f - 1\<rparr>))"

fun tf_delete :: "tf_field option \<Rightarrow> tf_field option" where
  "tf_delete None = None"
| "tf_delete (Some f) =
     (if tf_curs f \<ge> tf_length f then Some f
      else
        let b = memmove (tf_buf f) (tf_curs f) (tf_curs f + 1) (tf_length f - tf_curs f - 1);
            n = tf_length f - 1 in
        Some (f\<lparr>tf_buf := b[n := NUL], tf_length := n\<rparr>))"

fun tf_move :: "tf_field option \<Rightarrow> int \<Rightarrow> tf_field option" where
  "tf_move None delta = None"
| "tf_move (Some f) delta =
     (if delta < 0 then
        let back = nat (- delta) in
        Some (f\<lparr>tf_curs := (if back \<ge> tf_curs f then 0 else tf_curs f - back)\<rparr>)
      else
        let fwd = nat delta in
        Some (f\<lparr>tf_curs := (if fwd \<ge> tf_length f - tf_curs f then tf_length f else tf_curs f + fwd)\<rparr>))"

fun tf_home :: "tf_field option \<Rightarrow> tf_field option" where
  "tf_home None = None"
| "tf_home (Some f) = Some (f\<lparr>tf_curs := 0\<rparr>)"

fun tf_end :: "tf_field option \<Rightarrow> tf_field option" where
  "tf_end None = None"
| "tf_end (Some f) = Some (f\<lparr>tf_curs := tf_length f\<rparr>)"

text \<open>The text is read as a C string: up to the first NUL of the buffer.\<close>

fun tf_text :: "tf_field option \<Rightarrow> string" where
  "tf_text None = []"
| "tf_text (Some f) = takeWhile (\<lambda>c. c \<noteq> NUL) (tf_buf f)"

fun tf_len :: "tf_field option \<Rightarrow> nat" where
  "tf_len None = 0"
| "tf_len (Some f) = tf_length f"

fun tf_cursor :: "tf_field option \<Rightarrow> nat" where
  "tf_cursor None = 0"
| "tf_cursor (Some f) = tf_curs f"

section \<open>Invariant and specification\<close>

definition tf_inv :: "tf_field option \<Rightarrow> bool" where
  "tf_inv p \<longleftrightarrow> (\<exists>f. p = Some f \<and> tf_curs f \<le> tf_length f \<and> tf_length f < TF_CAP
     \<and> length (tf_buf f) = TF_CAP \<and> tf_buf f ! tf_length f = NUL)"

definition tf_view :: "tf_field option \<Rightarrow> string \<times> string" where
  "tf_view p = (case p of None \<Rightarrow> ([], [])
     | Some f \<Rightarrow> (take (tf_curs f) (tf_buf f), take (tf_length f - tf_curs f) (drop (tf_curs f) (tf_buf f))))"

datatype tf_op = Tf_Clear | Tf_Set string | Tf_Insert char | Tf_Backspace | Tf_Delete | Tf_Move int | Tf_Home | Tf_End

fun tf_step :: "tf_field option \<Rightarrow> tf_op \<Rightarrow> tf_field option" where
  "tf_step p Tf_Clear = tf_clear p"
| "tf_step p (Tf_Set s) = snd (tf_set p (Some s))"
| "tf_step p (Tf_Insert c) = snd (tf_insert p c)"
| "tf_step p Tf_Backspace = tf_backspace p"
| "tf_step p Tf_Delete = tf_delete p"
| "tf_step p (Tf_Move d) = tf_move p d"
| "tf_step p Tf_Home = tf_home p"
| "tf_step p Tf_End = tf_end p"

text \<open>The specification: the text before the cursor and the text behind it. A text that would reach the
  capacity is refused whole; a move saturates at both ends.\<close>

fun edit :: "string \<times> string \<Rightarrow> tf_op \<Rightarrow> string \<times> string" where
  "edit (l, r) Tf_Clear = ([], [])"
| "edit (l, r) (Tf_Set s) = (if length s < TF_CAP then (s, []) else (l, r))"
| "edit (l, r) (Tf_Insert c) = (if Suc (length (l @ r)) < TF_CAP then (l @ [c], r) else (l, r))"
| "edit (l, r) Tf_Backspace = (butlast l, r)"
| "edit (l, r) Tf_Delete = (l, tl r)"
| "edit (l, r) (Tf_Move d) = (let k = nat (int (length l) + d) in (take k (l @ r), drop k (l @ r)))"
| "edit (l, r) Tf_Home = ([], l @ r)"
| "edit (l, r) Tf_End = (l @ r, [])"

section \<open>Refinement\<close>

text \<open>The buffer seen through its view.\<close>

definition tf_rep :: "tf_field option \<Rightarrow> string \<Rightarrow> string \<Rightarrow> bool" where
  "tf_rep p l r \<longleftrightarrow> (\<exists>f rest. p = Some f \<and> tf_buf f = l @ r @ NUL # rest \<and> length (tf_buf f) = TF_CAP
     \<and> tf_length f = length l + length r \<and> tf_curs f = length l)"

lemma tf_rep_view: "tf_rep p l r \<Longrightarrow> tf_inv p \<and> tf_view p = (l, r)"
  by (auto simp: tf_rep_def tf_inv_def tf_view_def nth_append)

lemma tf_inv_rep:
  assumes "tf_inv p"
  shows "tf_rep p (fst (tf_view p)) (snd (tf_view p))"
proof -
  obtain f where f: "p = Some f" "tf_curs f \<le> tf_length f" "tf_length f < TF_CAP"
    "length (tf_buf f) = TF_CAP" "tf_buf f ! tf_length f = NUL"
    using assms by (auto simp: tf_inv_def)
  have "tf_buf f = take (tf_length f) (tf_buf f) @ tf_buf f ! tf_length f # drop (Suc (tf_length f)) (tf_buf f)"
    by (rule id_take_nth_drop) (simp add: f(3,4))
  then have "tf_buf f = take (tf_length f) (tf_buf f) @ NUL # drop (Suc (tf_length f)) (tf_buf f)"
    by (simp only: f(5))
  moreover have "take (tf_length f) (tf_buf f) =
      take (tf_curs f) (tf_buf f) @ take (tf_length f - tf_curs f) (drop (tf_curs f) (tf_buf f))"
    using f(2) by (metis le_add_diff_inverse take_add)
  ultimately have "tf_buf f = fst (tf_view p) @ snd (tf_view p) @ NUL # drop (Suc (tf_length f)) (tf_buf f)"
    by (simp add: tf_view_def f(1))
  then show ?thesis using f by (auto simp: tf_rep_def tf_view_def)
qed

lemma tf_rep_init:
  assumes "tf_rep p l r"
  shows "tf_rep (tf_init p) [] []"
proof -
  obtain f where f: "p = Some f" "length (tf_buf f) = TF_CAP" using assms by (auto simp: tf_rep_def)
  then obtain x rest where "tf_buf f = x # rest" by (cases "tf_buf f") (auto simp: TF_CAP_def)
  then show ?thesis using f by (simp add: tf_rep_def)
qed

lemma tf_rep_set:
  assumes "tf_rep p l r" and "length s < TF_CAP"
  shows "tf_rep (snd (tf_set p (Some s))) s []"
proof -
  obtain f where f: "p = Some f" "length (tf_buf f) = TF_CAP" using assms(1) by (auto simp: tf_rep_def)
  then obtain x rest where tail: "drop (length s) (tf_buf f) = x # rest"
    using assms(2) by (cases "drop (length s) (tf_buf f)") auto
  then have "length (x # rest) = TF_CAP - length s" using f(2) by (metis length_drop)
  with tail show ?thesis using assms(2) f(1) by (simp add: tf_rep_def list_update_append Let_def)
qed

lemma tf_rep_insert:
  assumes "tf_rep p l r" and "Suc (length (l @ r)) < TF_CAP"
  shows "tf_rep (snd (tf_insert p c)) (l @ [c]) r"
proof -
  obtain f rest where f: "p = Some f" "tf_buf f = l @ r @ NUL # rest" "tf_length f = length l + length r"
    "tf_curs f = length l" "length (tf_buf f) = TF_CAP" using assms by (auto simp: tf_rep_def)
  then obtain x rest' where rest: "rest = x # rest'" using assms(2) by (cases rest) auto
  define y where "y = hd (r @ [NUL])"
  have "memmove (tf_buf f) (length l + 1) (length l) (length r) = l @ y # r @ rest"
    by (cases r) (simp_all add: memmove_def f(2) y_def)
  then show ?thesis using assms f rest by (simp add: tf_rep_def list_update_append)
qed

lemma tf_rep_backspace:
  assumes "tf_rep p l r"
  shows "tf_rep (tf_backspace p) (butlast l) r"
proof (cases l rule: rev_cases)
  case (snoc k c)
  obtain f rest where f: "p = Some f" "tf_buf f = l @ r @ NUL # rest" "tf_length f = length l + length r"
    "tf_curs f = length l" "length (tf_buf f) = TF_CAP" using assms by (auto simp: tf_rep_def)
  define y where "y = last (c # r)"
  have "drop (length k + length r) (tf_buf f) = y # NUL # rest"
    by (cases r rule: rev_cases) (simp_all add: f(2) snoc y_def)
  then have "memmove (tf_buf f) (length l - 1) (length l) (length r) = k @ r @ y # NUL # rest"
    by (simp add: memmove_def snoc) (simp add: f(2) snoc)
  then show ?thesis using f snoc by (simp add: tf_rep_def list_update_append)
qed (use assms in \<open>auto simp: tf_rep_def\<close>)

lemma tf_rep_delete:
  assumes "tf_rep p l r"
  shows "tf_rep (tf_delete p) l (tl r)"
proof (cases r)
  case (Cons c k)
  obtain f rest where f: "p = Some f" "tf_buf f = l @ r @ NUL # rest" "tf_length f = length l + length r"
    "tf_curs f = length l" "length (tf_buf f) = TF_CAP" using assms by (auto simp: tf_rep_def)
  define y where "y = last (c # k)"
  have "drop (length l + length k) (tf_buf f) = y # NUL # rest"
    by (cases k rule: rev_cases) (simp_all add: f(2) Cons y_def)
  then have "memmove (tf_buf f) (length l) (length l + 1) (length k) = l @ k @ y # NUL # rest"
    by (simp add: memmove_def) (simp add: f(2) Cons)
  then show ?thesis using f Cons by (simp add: tf_rep_def list_update_append)
qed (use assms in \<open>auto simp: tf_rep_def\<close>)

lemma tf_rep_split:
  assumes "tf_buf f = t @ NUL # rest" and "length (tf_buf f) = TF_CAP" and "tf_length f = length t"
    and "tf_curs f = min k (length t)"
  shows "tf_rep (Some f) (take k t) (drop k t)"
proof -
  have "tf_buf f = take k t @ drop k t @ NUL # rest"
    unfolding assms(1) append_assoc [symmetric] append_take_drop_id ..
  then show ?thesis using assms(2-4) by (auto simp: tf_rep_def)
qed

lemma tf_rep_move:
  assumes "tf_rep p l r" and "k = nat (int (length l) + d)"
  shows "tf_rep (tf_move p d) (take k (l @ r)) (drop k (l @ r))"
proof -
  obtain f rest where f: "p = Some f" "tf_buf f = (l @ r) @ NUL # rest" "tf_length f = length (l @ r)"
    "tf_curs f = length l" "length (tf_buf f) = TF_CAP" using assms by (auto simp: tf_rep_def)
  have "tf_move p d = Some (f\<lparr>tf_curs := min k (length (l @ r))\<rparr>)"
    using f(3,4) by (auto simp: f(1) assms(2) min_def Let_def)
  moreover have "tf_rep \<dots> (take k (l @ r)) (drop k (l @ r))"
    by (rule tf_rep_split) (use f(2,3,5) in simp_all)
  ultimately show ?thesis by (simp only:)
qed

lemma tf_rep_step:
  assumes "tf_rep p l r"
  shows "tf_rep (tf_step p op) (fst (edit (l, r) op)) (snd (edit (l, r) op))"
proof (cases op)
  case (Tf_Set s)
  then show ?thesis using tf_rep_set [OF assms] assms by (auto simp: tf_rep_def)
next
  case (Tf_Insert c)
  then show ?thesis using tf_rep_insert [OF assms] assms by (auto simp: tf_rep_def)
next
  case (Tf_Move d)
  then show ?thesis using tf_rep_move [OF assms] by (simp add: Let_def)
qed (use assms tf_rep_init tf_rep_backspace tf_rep_delete in \<open>auto simp: tf_clear_def tf_rep_def\<close>)

interpretation tf: simulation tf_step tf_inv edit tf_view
proof
  fix p op assume "tf_inv p"
  then have "tf_rep (tf_step p op) (fst (edit (tf_view p) op)) (snd (edit (tf_view p) op))"
    using tf_rep_step [OF tf_inv_rep] by simp
  then show "tf_inv (tf_step p op)" "tf_view (tf_step p op) = edit (tf_view p) op"
    using tf_rep_view by force+
qed

text \<open>C37: from any field with its invariant, every sequence of edits leaves the invariant in place (the cursor
  within the text, the text below the capacity and terminated) and shows exactly what the pair of
  strings around the cursor shows under the same edits.\<close>

theorem tf_refines_edit:
  assumes "tf_inv p"
  shows "tf_inv (foldl tf_step p ops) \<and> tf_view (foldl tf_step p ops) = foldl edit (tf_view p) ops"
  using tf.run_inv [OF assms] tf.run_abs [OF assms] by blast

definition blank_field :: tf_field where
  "blank_field = \<lparr> tf_buf = replicate TF_CAP NUL, tf_length = 0, tf_curs = 0 \<rparr>"

lemma blank_field_inv: "tf_inv (Some blank_field) \<and> tf_view (Some blank_field) = ([], [])"
  by (simp add: tf_inv_def tf_view_def blank_field_def TF_CAP_def)

theorem tf_refines_edit_witness:
  "tf_view (foldl tf_step (Some blank_field)
     [Tf_Set ''abcd'', Tf_Move (-2), Tf_Insert CHR ''x'', Tf_Delete, Tf_Home, Tf_Backspace, Tf_Move 99, Tf_Backspace])
   = (''abx'', '''')"
  using tf_refines_edit [OF conjunct1 [OF blank_field_inv], of
      "[Tf_Set ''abcd'', Tf_Move (-2), Tf_Insert CHR ''x'', Tf_Delete, Tf_Home, Tf_Backspace, Tf_Move 99, Tf_Backspace]"]
  by (simp add: blank_field_inv TF_CAP_def del: tf_step.simps)

text \<open>The text read back is what was set.\<close>

lemma tf_set_text:
  assumes "tf_inv p" and "cstr s" and "length s < TF_CAP"
  shows "fst (tf_set p (Some s)) = TF_OK \<and> tf_text (snd (tf_set p (Some s))) = s
    \<and> tf_len (snd (tf_set p (Some s))) = length s \<and> tf_cursor (snd (tf_set p (Some s))) = length s"
proof -
  obtain f rest where f: "snd (tf_set p (Some s)) = Some f" "tf_buf f = s @ [] @ NUL # rest"
    "tf_length f = length s" "tf_curs f = length s"
    using tf_rep_set [OF tf_inv_rep [OF assms(1)] assms(3)] by (auto simp: tf_rep_def)
  have "fst (tf_set p (Some s)) = TF_OK" using assms by (cases p) (auto simp: tf_inv_def Let_def)
  with f show ?thesis using assms(2) by (simp add: cstr_def)
qed

end
