(* ===== verification/Web_Storage.thy ===== *)
theory Web_Storage
  imports C_Prelude "HOL-Library.Word" "HOL-Library.List_Lexorder"
begin

text \<open>
  The module \<^verbatim>\<open>src/web_storage.c\<close>: the wire form of a key/value snapshot with its full validation, and the
  table of snapshots per origin with its least-recently-used eviction. Bytes are \<open>8 word\<close>, lengths on the
  wire \<open>32 word\<close>, the clock \<open>64 word\<close>. An allocator answers each request by its size.
\<close>

unbundle bit_operations_syntax

section \<open>Model\<close>

type_synonym bytes = "8 word list"

definition WST_MAX_ORIGINS :: nat where
  "WST_MAX_ORIGINS = 256"

definition WST_MAX_KEYS :: nat where
  "WST_MAX_KEYS = 65536"

definition WST_QUOTA :: nat where
  "WST_QUOTA = 5 * 1024 * 1024"

definition WST_ORIGIN_MAX :: nat where
  "WST_ORIGIN_MAX = 512"

record wst_origin =
  wo_origin :: cptr
  wo_blob :: bytes
  wo_bytes :: nat
  wo_used :: "64 word"

record wst_db =
  db_o :: "wst_origin list"
  db_clock :: "64 word"

definition get_u32 :: "bytes \<Rightarrow> 32 word" where
  "get_u32 p = ucast (p ! 0) OR push_bit 8 (ucast (p ! 1)) OR push_bit 16 (ucast (p ! 2)) OR push_bit 24 (ucast (p ! 3))"

subsection \<open>Well-formed text\<close>

text \<open>The form of a lead byte: the number of continuation bytes, its payload and the least code point.\<close>

definition utf8_lead :: "8 word \<Rightarrow> (nat \<times> 32 word \<times> 32 word) option" where
  "utf8_lead c =
     (if c AND 0xE0 = 0xC0 then Some (1, ucast (c AND 0x1F), 0x80)
      else if c AND 0xF0 = 0xE0 then Some (2, ucast (c AND 0x0F), 0x800)
      else if c AND 0xF8 = 0xF0 then Some (3, ucast (c AND 0x07), 0x10000)
      else None)"

fun utf8_cont :: "32 word \<Rightarrow> bytes \<Rightarrow> 32 word option" where
  "utf8_cont cp [] = Some cp"
| "utf8_cont cp (b # bs) =
     (if b AND 0xC0 \<noteq> 0x80 then None else utf8_cont (push_bit 6 cp OR ucast (b AND 0x3F)) bs)"

function utf8_ok :: "bytes \<Rightarrow> bool" where
  "utf8_ok [] = True"
| "utf8_ok (c # s) =
     (if c < 0x80 then utf8_ok s
      else case utf8_lead c of
          None \<Rightarrow> False
        | Some (k, cp, least) \<Rightarrow>
          if k > length s then False
          else (case utf8_cont cp (take k s) of
              None \<Rightarrow> False
            | Some cp' \<Rightarrow> if cp' < least \<or> cp' > 0x10FFFF then False else utf8_ok (drop k s)))"
  by pat_completeness auto
termination
  by (relation "measure length") auto

subsection \<open>Keys\<close>

fun memcmp :: "bytes \<Rightarrow> bytes \<Rightarrow> int" where
  "memcmp (x # xs) (y # ys) = (if x = y then memcmp xs ys else uint x - uint y)"
| "memcmp _ _ = 0"

definition key_cmp :: "bytes \<Rightarrow> bytes \<Rightarrow> int" where
  "key_cmp x y =
     (let m = min (length x) (length y);
          c = memcmp (take m x) (take m y) in
      if c \<noteq> 0 then c else of_bool (length x > length y) - of_bool (length x < length y))"

fun insert_key :: "bytes \<Rightarrow> bytes list \<Rightarrow> bytes list" where
  "insert_key x [] = [x]"
| "insert_key x (y # ys) = (if key_cmp x y \<le> 0 then x # y # ys else y # insert_key x ys)"

text \<open>The sorting of the library, here by insertion: the comparison is a total order on the keys'
  contents, so that every sorting gives the same sequence of contents.\<close>

definition qsort_keys :: "bytes list \<Rightarrow> bytes list" where
  "qsort_keys ks = foldr insert_key ks []"

fun adjacent_equal :: "bytes list \<Rightarrow> bool" where
  "adjacent_equal (x # y # ks) = (key_cmp x y = 0 \<or> adjacent_equal (y # ks))"
| "adjacent_equal _ = False"

subsection \<open>Validation\<close>

text \<open>One length-prefixed part: its content, what follows, and the bytes counted so far.\<close>

definition check_part :: "bytes \<Rightarrow> nat \<Rightarrow> (bytes \<times> bytes \<times> nat) option" where
  "check_part b count =
     (if length b < 4 then None
      else
        let l = unat (get_u32 b); b' = drop 4 b in
        if l > length b' \<or> l > WST_QUOTA - count then None
        else if \<not> utf8_ok (take l b') then None
        else Some (take l b', drop l b', count + l))"

fun check_pairs :: "nat \<Rightarrow> bytes \<Rightarrow> nat \<Rightarrow> (bytes list \<times> bytes \<times> nat) option" where
  "check_pairs 0 b count = Some ([], b, count)"
| "check_pairs (Suc n) b count =
     (case check_part b count of
        None \<Rightarrow> None
      | Some (k, b1, count1) \<Rightarrow>
        (case check_part b1 count1 of
          None \<Rightarrow> None
        | Some (v, b2, count2) \<Rightarrow>
          (case check_pairs n b2 count2 of
            None \<Rightarrow> None
          | Some (ks, b3, count3) \<Rightarrow> Some (k # ks, b3, count3))))"

text \<open>The result \<open>Some\<close> carries the counted bytes. The array of key references takes 16 bytes per key.\<close>

fun check :: "allocator \<Rightarrow> bytes option \<Rightarrow> nat option" where
  "check alloc None = None"
| "check alloc (Some b) =
     (if length b < 4 then None
      else
        let n = unat (get_u32 b) in
        if n > WST_MAX_KEYS then None
        else if n > 0 \<and> \<not> alloc (n * 16) then None
        else case check_pairs n (drop 4 b) 0 of
            None \<Rightarrow> None
          | Some (ks, b', count) \<Rightarrow>
            if b' \<noteq> [] then None
            else if n > 1 \<and> adjacent_equal (qsort_keys ks) then None
            else Some count)"

definition wst_decode_check :: "allocator \<Rightarrow> bytes option \<Rightarrow> int" where
  "wst_decode_check alloc blob = (case check alloc blob of None \<Rightarrow> -1 | Some _ \<Rightarrow> 0)"

subsection \<open>The database\<close>

definition blank_origin :: wst_origin where
  "blank_origin = \<lparr> wo_origin = None, wo_blob = [], wo_bytes = 0, wo_used = 0 \<rparr>"

definition wst_new :: wst_db where
  "wst_new = \<lparr> db_o = replicate WST_MAX_ORIGINS blank_origin, db_clock = 0 \<rparr>"

definition find_origin :: "wst_db \<Rightarrow> string \<Rightarrow> nat option" where
  "find_origin db origin = List.find (\<lambda>i. wo_origin (db_o db ! i) = Some origin) [0..<WST_MAX_ORIGINS]"

fun wst_encode :: "allocator \<Rightarrow> wst_db \<Rightarrow> cptr \<Rightarrow> bytes option" where
  "wst_encode alloc db None = None"
| "wst_encode alloc db (Some origin) =
     (let c = (case find_origin db origin of Some i \<Rightarrow> wo_blob (db_o db ! i) | None \<Rightarrow> [0, 0, 0, 0]) in
      if alloc (length c) then Some c else None)"

fun victim_scan :: "wst_origin list \<Rightarrow> nat list \<Rightarrow> nat \<Rightarrow> nat" where
  "victim_scan os [] v = v"
| "victim_scan os (i # is) v =
     (if wo_origin (os ! i) = None then i
      else victim_scan os is (if wo_used (os ! i) < wo_used (os ! v) then i else v))"

definition store_blob :: "wst_db \<Rightarrow> nat \<Rightarrow> wst_origin \<Rightarrow> bytes \<Rightarrow> nat \<Rightarrow> wst_db" where
  "store_blob db i e blob count =
     (let clk = db_clock db + 1 in
      \<lparr> db_o = (db_o db)[i := e\<lparr>wo_blob := blob, wo_bytes := count, wo_used := clk\<rparr>], db_clock = clk \<rparr>)"

text \<open>The result: the status and the database, which a failure leaves as it was.\<close>

fun wst_replace :: "allocator \<Rightarrow> wst_db \<Rightarrow> cptr \<Rightarrow> bytes option \<Rightarrow> int \<times> wst_db" where
  "wst_replace alloc db None blob = (-1, db)"
| "wst_replace alloc db (Some origin) blob =
     (let olen = length origin in
      if olen = 0 \<or> olen \<ge> WST_ORIGIN_MAX then (-1, db)
      else case check alloc blob of
          None \<Rightarrow> (-1, db)
        | Some count \<Rightarrow>
          let copy = the blob in
          if \<not> alloc (length copy) then (-1, db)
          else (case find_origin db origin of
              Some i \<Rightarrow> (0, store_blob db i (db_o db ! i) copy count)
            | None \<Rightarrow>
              let v = victim_scan (db_o db) [0..<WST_MAX_ORIGINS] 0 in
              if \<not> alloc (olen + 1) then (-1, db)
              else (0, store_blob db v (blank_origin\<lparr>wo_origin := Some origin\<rparr>) copy count)))"

fun wst_origin_bytes :: "wst_db \<Rightarrow> cptr \<Rightarrow> nat" where
  "wst_origin_bytes db None = 0"
| "wst_origin_bytes db (Some origin) =
     (case find_origin db origin of Some i \<Rightarrow> wo_bytes (db_o db ! i) | None \<Rightarrow> 0)"

subsection \<open>Reading and building snapshots\<close>

text \<open>The calls the walk makes: the pairs in their order.\<close>

fun foreach_walk :: "nat \<Rightarrow> bytes \<Rightarrow> (bytes \<times> bytes) list" where
  "foreach_walk 0 b = []"
| "foreach_walk (Suc n) b =
     (let kl = unat (get_u32 b);
          k = take kl (drop 4 b);
          b' = drop (4 + kl) b;
          vl = unat (get_u32 b');
          v = take vl (drop 4 b') in
      (k, v) # foreach_walk n (drop (4 + vl) b'))"

definition wst_foreach :: "allocator \<Rightarrow> bytes option \<Rightarrow> (bytes \<times> bytes) list option" where
  "wst_foreach alloc blob =
     (case check alloc blob of
        None \<Rightarrow> None
      | Some _ \<Rightarrow> Some (foreach_walk (unat (get_u32 (the blob))) (drop 4 (the blob))))"

definition put_u32 :: "32 word \<Rightarrow> bytes" where
  "put_u32 v = [ucast (v AND 0xFF), ucast (drop_bit 8 v AND 0xFF), ucast (drop_bit 16 v AND 0xFF), ucast (drop_bit 24 v AND 0xFF)]"

fun pack_total :: "nat \<Rightarrow> (bytes \<times> bytes) list \<Rightarrow> nat option" where
  "pack_total sz [] = Some sz"
| "pack_total sz ((k, v) # ps) =
     (if length k > WST_QUOTA \<or> length v > WST_QUOTA then None
      else
        let sz' = sz + (8 + length k + length v) in
        if sz' > WST_QUOTA + 8 * WST_MAX_KEYS + 4 then None else pack_total sz' ps)"

fun pack_pairs :: "(bytes \<times> bytes) list \<Rightarrow> bytes" where
  "pack_pairs [] = []"
| "pack_pairs ((k, v) # ps) =
     put_u32 (of_nat (length k)) @ k @ put_u32 (of_nat (length v)) @ v @ pack_pairs ps"

definition wst_pack :: "allocator \<Rightarrow> (bytes \<times> bytes) list \<Rightarrow> bytes option" where
  "wst_pack alloc ps =
     (if length ps > WST_MAX_KEYS then None
      else case pack_total 4 ps of
          None \<Rightarrow> None
        | Some sz \<Rightarrow>
          if \<not> alloc sz then None
          else
            let b = put_u32 (of_nat (length ps)) @ pack_pairs ps in
            if check alloc (Some b) = None then None else Some b)"

section \<open>The wire form\<close>

lemma low_byte: "x AND 0xFF = take_bit 8 (x :: 32 word)"
  by (simp add: take_bit_eq_mask mask_eq_exp_minus_1)

lemma get_put_u32 [simp]: "get_u32 (put_u32 v @ r) = v"
proof (rule bit_word_eqI)
  fix n assume "n < LENGTH(32)"
  then show "bit (get_u32 (put_u32 v @ r)) n \<longleftrightarrow> bit v n"
    by (cases "24 \<le> n"; cases "16 \<le> n") (auto simp: get_u32_def put_u32_def low_byte bit_simps)
qed

lemma length_put_u32 [simp]: "length (put_u32 v) = 4"
  by (simp add: put_u32_def)

lemma drop_put_u32 [simp]: "drop 4 (put_u32 v @ r) = r"
  by (simp add: put_u32_def)

lemma put_get_bytes: "put_u32 (get_u32 (a # b # c # d # r)) = [a, b, c, d]"
  unfolding get_u32_def put_u32_def low_byte
  by (intro list.inject [THEN iffD2] conjI refl bit_word_eqI) (auto simp: bit_simps dest: bit_imp_le_length)

lemma put_get_u32: "4 \<le> length p \<Longrightarrow> put_u32 (get_u32 p) @ drop 4 p = p"
  by (auto simp: put_get_bytes numeral_eq_Suc Suc_le_length_iff)

lemma key_cmp_Cons:
  "key_cmp [] [] = 0" "key_cmp [] (b # y) = -1" "key_cmp (a # x) [] = 1"
  "key_cmp (a # x) (b # y) = (if a = b then key_cmp x y else uint a - uint b)"
proof -
  show "key_cmp (a # x) (b # y) = (if a = b then key_cmp x y else uint a - uint b)"
    by (cases "a = b") (simp_all add: key_cmp_def Let_def word_uint_eq_iff)
qed (simp_all add: key_cmp_def Let_def)

lemma key_cmp_order: "(key_cmp x y = 0 \<longleftrightarrow> x = y) \<and> (key_cmp x y \<le> 0 \<longleftrightarrow> x \<le> y)"
proof (induction x arbitrary: y)
  case Nil
  then show ?case by (cases y) (simp_all add: key_cmp_Cons)
next
  case (Cons a x)
  show ?case
  proof (cases y)
    case (Cons b z)
    have "uint a - uint b \<le> 0 \<longleftrightarrow> a < b" "uint a - uint b \<noteq> 0" if "a \<noteq> b"
      using that by (simp_all add: word_less_def word_uint_eq_iff order_le_less)
    then show ?thesis using Cons.IH [of z] by (simp add: key_cmp_Cons Cons)
  qed (simp add: key_cmp_Cons)
qed

lemma insert_key_insort: "insert_key x ks = insort x ks"
  by (induction ks) (simp_all add: key_cmp_order)

lemma qsort_keys_sort: "qsort_keys ks = sort ks"
proof -
  have "insert_key = insort" by (intro ext insert_key_insort)
  then show ?thesis by (simp add: qsort_keys_def sort_key_def)
qed

lemma adjacent_equal_sorted: "sorted ks \<Longrightarrow> adjacent_equal ks \<longleftrightarrow> \<not> distinct ks"
  by (induction ks rule: adjacent_equal.induct) (fastforce simp: key_cmp_order)+

lemma keys_distinct: "adjacent_equal (qsort_keys ks) \<longleftrightarrow> \<not> distinct ks"
  by (simp add: qsort_keys_sort adjacent_equal_sorted)

text \<open>What a snapshot holds: at most \<^verbatim>\<open>WST_MAX_KEYS\<close> pairs of well-formed strings with distinct keys, within the
  quota.\<close>

definition pair_bytes :: "(bytes \<times> bytes) list \<Rightarrow> nat" where
  "pair_bytes ps = (\<Sum>(k, v) \<leftarrow> ps. length k + length v)"

definition valid_pairs :: "(bytes \<times> bytes) list \<Rightarrow> bool" where
  "valid_pairs ps \<longleftrightarrow> length ps \<le> WST_MAX_KEYS \<and> pair_bytes ps \<le> WST_QUOTA
     \<and> distinct (map fst ps) \<and> list_all (\<lambda>(k, v). utf8_ok k \<and> utf8_ok v) ps"

definition snapshot :: "(bytes \<times> bytes) list \<Rightarrow> bytes" where
  "snapshot ps = put_u32 (of_nat (length ps)) @ pack_pairs ps"

lemma pair_bytes_simps [simp]:
  "pair_bytes [] = 0" "pair_bytes ((k, v) # ps) = length k + length v + pair_bytes ps"
  by (simp_all add: pair_bytes_def)

lemma unat_u32: "n \<le> WST_QUOTA \<Longrightarrow> unat (of_nat n :: 32 word) = n"
  by (simp add: WST_QUOTA_def unat_of_nat take_bit_nat_eq_self)

lemma check_part_put:
  assumes "count \<le> WST_QUOTA" and "length s \<le> WST_QUOTA"
  shows "check_part (put_u32 (of_nat (length s)) @ s @ r) count =
    (if count + length s \<le> WST_QUOTA \<and> utf8_ok s then Some (s, r, count + length s) else None)"
  using assms by (auto simp: check_part_def Let_def unat_u32)

lemma check_part_Some:
  assumes "check_part b count = Some (s, r, count')" and "count \<le> WST_QUOTA"
  shows "b = put_u32 (of_nat (length s)) @ s @ r \<and> utf8_ok s \<and> count' = count + length s \<and> count' \<le> WST_QUOTA"
proof -
  define l where "l = unat (get_u32 b)"
  have b: "4 \<le> length b" "l \<le> length (drop 4 b)" "l \<le> WST_QUOTA - count" "utf8_ok (take l (drop 4 b))"
    and r: "s = take l (drop 4 b)" "r = drop l (drop 4 b)" "count' = count + l"
    using assms(1) by (auto simp: check_part_def Let_def l_def [symmetric] split: if_splits)
  have "length s = l" using b(2) r(1) by simp
  moreover have "of_nat l = get_u32 b" by (simp add: l_def)
  moreover have "s @ r = drop 4 b" unfolding r by (rule append_take_drop_id)
  ultimately show ?thesis using put_get_u32 [OF b(1)] b(3,4) r(1,3) assms(2) by simp
qed

lemma check_pairs_pack:
  assumes "count + pair_bytes ps \<le> WST_QUOTA" and "list_all (\<lambda>(k, v). utf8_ok k \<and> utf8_ok v) ps"
  shows "check_pairs (length ps) (pack_pairs ps @ r) count = Some (map fst ps, r, count + pair_bytes ps)"
  using assms by (induction ps arbitrary: count) (auto simp: check_part_put)

lemma check_pairs_Some:
  assumes "check_pairs n b count = Some (ks, r, count')" and "count \<le> WST_QUOTA"
  shows "\<exists>ps. length ps = n \<and> map fst ps = ks \<and> b = pack_pairs ps @ r \<and> count' = count + pair_bytes ps
    \<and> count' \<le> WST_QUOTA \<and> list_all (\<lambda>(k, v). utf8_ok k \<and> utf8_ok v) ps"
  using assms
proof (induction n arbitrary: b count ks)
  case (Suc n)
  obtain k b1 c1 v b2 c2 ks' where p: "check_part b count = Some (k, b1, c1)" "check_part b1 c1 = Some (v, b2, c2)"
    "check_pairs n b2 c2 = Some (ks', r, count')" "ks = k # ks'"
    using Suc.prems(1) by (auto split: option.splits)
  note kp = check_part_Some [OF p(1) Suc.prems(2)]
  then have vp: "b1 = put_u32 (of_nat (length v)) @ v @ b2 \<and> utf8_ok v \<and> c2 = c1 + length v \<and> c2 \<le> WST_QUOTA"
    using check_part_Some [OF p(2)] by simp
  then obtain ps where "length ps = n" "map fst ps = ks'" "b2 = pack_pairs ps @ r" "count' = c2 + pair_bytes ps"
    "count' \<le> WST_QUOTA" "list_all (\<lambda>(k, v). utf8_ok k \<and> utf8_ok v) ps"
    using Suc.IH [OF p(3)] by blast
  then show ?case using kp vp p(4) by (intro exI [of _ "(k, v) # ps"]) simp
qed simp

definition short_pairs :: "(bytes \<times> bytes) list \<Rightarrow> bool" where
  "short_pairs ps \<longleftrightarrow> list_all (\<lambda>(k, v). length k \<le> WST_QUOTA \<and> length v \<le> WST_QUOTA) ps"

lemma foreach_walk_pack: "short_pairs ps \<Longrightarrow> foreach_walk (length ps) (pack_pairs ps @ r) = ps"
  unfolding short_pairs_def
  by (induction ps) (auto simp: Let_def unat_u32 drop_drop [symmetric] simp del: drop_drop)

lemma valid_pairs_short: "valid_pairs ps \<Longrightarrow> short_pairs ps"
proof -
  have "pair_bytes ps \<le> WST_QUOTA \<Longrightarrow> short_pairs ps" by (induction ps) (auto simp: short_pairs_def)
  then show "valid_pairs ps \<Longrightarrow> short_pairs ps" by (simp add: valid_pairs_def)
qed

lemma length_pack_pairs: "length (pack_pairs ps) = 8 * length ps + pair_bytes ps"
  by (induction ps rule: pack_pairs.induct) simp_all

lemma count_u32: "n \<le> WST_MAX_KEYS \<Longrightarrow> unat (of_nat n :: 32 word) = n"
  by (rule unat_u32) (simp add: WST_MAX_KEYS_def WST_QUOTA_def)

text \<open>Validation accepts exactly the snapshots of valid contents.\<close>

lemma check_snapshot:
  assumes "valid_pairs ps" and "ps = [] \<or> alloc (length ps * 16)"
  shows "check alloc (Some (snapshot ps)) = Some (pair_bytes ps)"
  using assms check_pairs_pack [of 0 ps "[]"]
  by (auto simp: snapshot_def valid_pairs_def Let_def count_u32 keys_distinct)

lemma check_Some:
  assumes "check alloc blob = Some count"
  shows "\<exists>ps. valid_pairs ps \<and> blob = Some (snapshot ps) \<and> count = pair_bytes ps \<and> (ps = [] \<or> alloc (length ps * 16))"
proof -
  obtain b where blob: "blob = Some b" using assms by (cases blob) auto
  define n where "n = unat (get_u32 b)"
  obtain ks where ks: "4 \<le> length b" "n \<le> WST_MAX_KEYS" "n = 0 \<or> alloc (n * 16)"
    "check_pairs n (drop 4 b) 0 = Some (ks, [], count)" "n \<le> 1 \<or> distinct ks"
    using assms by (auto simp: blob Let_def n_def [symmetric] keys_distinct not_less split: if_splits option.splits)
  obtain ps where ps: "length ps = n" "map fst ps = ks" "drop 4 b = pack_pairs ps" "count = pair_bytes ps"
    "count \<le> WST_QUOTA" "list_all (\<lambda>(k, v). utf8_ok k \<and> utf8_ok v) ps"
    using check_pairs_Some [OF ks(4)] by auto
  have "length ks \<le> 1 \<Longrightarrow> distinct ks" by (cases ks) auto
  then have "distinct ks" using ks(5) ps(1,2) by auto
  moreover have "b = snapshot ps"
    using put_get_u32 [OF ks(1)] ps(1,3) by (simp add: snapshot_def n_def)
  ultimately show ?thesis using ps ks(2,3) blob by (intro exI [of _ ps]) (auto simp: valid_pairs_def)
qed

declare check.simps [simp del]

lemma foreach_walk_snapshot:
  assumes "short_pairs ps" and "length ps \<le> WST_MAX_KEYS"
  shows "foreach_walk (unat (get_u32 (snapshot ps))) (drop 4 (snapshot ps)) = ps"
  using foreach_walk_pack [OF assms(1), of "[]"] assms(2) by (simp add: snapshot_def count_u32)

lemma wst_foreach_snapshot:
  assumes "valid_pairs ps" and "ps = [] \<or> alloc (length ps * 16)"
  shows "wst_foreach alloc (Some (snapshot ps)) = Some ps"
  using foreach_walk_snapshot [OF valid_pairs_short [OF assms(1)]] assms(1)
  by (simp add: wst_foreach_def check_snapshot [of ps alloc, OF assms] valid_pairs_def)

text \<open>With memory at hand, validation accepts a blob exactly if it is the wire form of at most 65536 pairs
  of well-formed strings with distinct keys within the quota, it counts their bytes, and the walk over
  the blob then hands out these pairs in order.\<close>

theorem wst_check_exact:
  "check (\<lambda>_. True) (Some b) = Some count \<and> wst_foreach (\<lambda>_. True) (Some b) = Some ps
     \<longleftrightarrow> valid_pairs ps \<and> b = snapshot ps \<and> count = pair_bytes ps"
proof
  assume a: "check (\<lambda>_. True) (Some b) = Some count \<and> wst_foreach (\<lambda>_. True) (Some b) = Some ps"
  then obtain qs where "valid_pairs qs" "b = snapshot qs" "count = pair_bytes qs"
    using check_Some [of "\<lambda>_. True" "Some b" count] by auto
  then show "valid_pairs ps \<and> b = snapshot ps \<and> count = pair_bytes ps"
    using a wst_foreach_snapshot [of qs "\<lambda>_. True"] by simp
qed (auto simp: check_snapshot wst_foreach_snapshot)

lemma pack_total_eq:
  "pack_total n ps = (if short_pairs ps \<and> (ps = [] \<or> n + length (pack_pairs ps) \<le> WST_QUOTA + 8 * WST_MAX_KEYS + 4)
    then Some (n + length (pack_pairs ps)) else None)"
  unfolding short_pairs_def
  by (induction n ps rule: pack_total.induct) (auto simp: Let_def)

lemma pack_total_snapshot: "pack_total 4 ps = Some n \<Longrightarrow> short_pairs ps \<and> n = length (snapshot ps)"
  by (simp add: pack_total_eq snapshot_def split: if_splits)

lemma pack_total_valid: "valid_pairs ps \<Longrightarrow> pack_total 4 ps = Some (length (snapshot ps))"
  using valid_pairs_short [of ps]
  by (simp add: pack_total_eq valid_pairs_def length_pack_pairs snapshot_def)

lemma wst_pack_Some:
  assumes "wst_pack alloc ps = Some b"
  shows "valid_pairs ps \<and> b = snapshot ps \<and> wst_foreach alloc (Some b) = Some ps \<and> alloc (length (snapshot ps))"
proof -
  obtain n where n: "length ps \<le> WST_MAX_KEYS" "pack_total 4 ps = Some n" "alloc n" "b = snapshot ps"
      "check alloc (Some b) \<noteq> None"
    using assms unfolding wst_pack_def Let_def snapshot_def [symmetric]
    by (auto split: if_splits option.splits)
  obtain qs where qs: "valid_pairs qs" "b = snapshot qs" "qs = [] \<or> alloc (length qs * 16)"
    using n(5) check_Some [of alloc "Some b"] by (auto)
  note total = pack_total_snapshot [OF n(2)]
  have "ps = foreach_walk (unat (get_u32 b)) (drop 4 b)"
    unfolding n(4) by (rule foreach_walk_snapshot [symmetric]) (simp_all add: total n(1))
  also have "\<dots> = qs"
    unfolding qs(2) by (rule foreach_walk_snapshot) (use qs(1) valid_pairs_short valid_pairs_def in auto)
  finally have "ps = qs" .
  then show ?thesis using qs n(3,4) total wst_foreach_snapshot [of qs alloc] by simp
qed

text \<open>Packing succeeds exactly on valid contents (given memory for the blob and for its validation), and
  what it builds is read back as the same pairs in the same order.\<close>

theorem wst_pack_roundtrip:
  "wst_pack alloc ps = Some b \<longleftrightarrow>
     valid_pairs ps \<and> b = snapshot ps \<and> wst_foreach alloc (Some b) = Some ps \<and> alloc (length (snapshot ps))"
proof
  assume a: "valid_pairs ps \<and> b = snapshot ps \<and> wst_foreach alloc (Some b) = Some ps \<and> alloc (length (snapshot ps))"
  then have c: "check alloc (Some b) \<noteq> None" by (cases "check alloc (Some b)") (simp_all add: wst_foreach_def)
  have "length ps \<le> WST_MAX_KEYS" using a by (simp add: valid_pairs_def)
  then show "wst_pack alloc ps = Some b"
    using a c by (simp add: wst_pack_def Let_def snapshot_def [symmetric] pack_total_valid)
qed (rule wst_pack_Some)

section \<open>The database\<close>

definition origin_at :: "wst_db \<Rightarrow> nat \<Rightarrow> cptr" where
  "origin_at db i = wo_origin (db_o db ! i)"

definition slot_ok :: "wst_origin \<Rightarrow> bool" where
  "slot_ok e \<longleftrightarrow> (case wo_origin e of None \<Rightarrow> True
     | Some org \<Rightarrow> org \<noteq> [] \<and> length org < WST_ORIGIN_MAX
         \<and> (\<exists>ps. valid_pairs ps \<and> wo_blob e = snapshot ps \<and> wo_bytes e = pair_bytes ps))"

definition db_inv :: "wst_db \<Rightarrow> bool" where
  "db_inv db \<longleftrightarrow> length (db_o db) = WST_MAX_ORIGINS \<and> list_all slot_ok (db_o db)
     \<and> (\<forall>i < WST_MAX_ORIGINS. \<forall>j < WST_MAX_ORIGINS. origin_at db i = origin_at db j \<longrightarrow> origin_at db i \<noteq> None \<longrightarrow> i = j)"

lemma wst_new_inv: "db_inv wst_new"
  by (simp add: db_inv_def wst_new_def blank_origin_def slot_ok_def origin_at_def list_all_length)

lemma find_origin_Some:
  assumes "find_origin db org = Some i"
  shows "i < WST_MAX_ORIGINS \<and> origin_at db i = Some org"
  using assms by (auto simp: find_origin_def origin_at_def find_Some_iff)

lemma find_origin_None: "find_origin db org = None \<longleftrightarrow> (\<forall>i < WST_MAX_ORIGINS. origin_at db i \<noteq> Some org)"
  by (auto simp: find_origin_def origin_at_def find_None_iff)

lemma find_origin_iff:
  assumes "db_inv db"
  shows "find_origin db org = Some i \<longleftrightarrow> i < WST_MAX_ORIGINS \<and> origin_at db i = Some org"
proof
  assume a: "i < WST_MAX_ORIGINS \<and> origin_at db i = Some org"
  then obtain j where j: "find_origin db org = Some j" using find_origin_None by fastforce
  have "origin_at db j = origin_at db i" "origin_at db j \<noteq> None" "j < WST_MAX_ORIGINS"
    using find_origin_Some [OF j] a by simp_all
  then have "j = i" using assms a unfolding db_inv_def by blast
  with j show "find_origin db org = Some i" by simp
qed (rule find_origin_Some)

text \<open>The scan for a victim: a free slot if there is one, otherwise the first slot with the least clock.\<close>

lemma victim_scan_spec:
  assumes "\<forall>i \<in> set is. i < n" and "v < n"
  shows "victim_scan os is v < n
    \<and> ((\<exists>i \<in> set is. wo_origin (os ! i) = None) \<longrightarrow> wo_origin (os ! victim_scan os is v) = None)
    \<and> ((\<forall>i \<in> set is. wo_origin (os ! i) \<noteq> None) \<longrightarrow>
        (\<forall>i \<in> insert v (set is). wo_used (os ! victim_scan os is v) \<le> wo_used (os ! i)))"
  using assms
proof (induction "is" arbitrary: v)
  case (Cons i "is")
  show ?case
  proof (cases "wo_origin (os ! i) = None")
    case False
    define w where "w = (if wo_used (os ! i) < wo_used (os ! v) then i else v)"
    have "w < n" using Cons.prems by (simp add: w_def)
    moreover have "wo_used (os ! w) \<le> wo_used (os ! i)" "wo_used (os ! w) \<le> wo_used (os ! v)"
      by (auto simp: w_def)
    ultimately show ?thesis using Cons.IH [of w] Cons.prems(1) False by (auto simp: w_def [symmetric])
  qed (use Cons.prems in auto)
qed simp

definition victim :: "wst_db \<Rightarrow> nat" where
  "victim db = victim_scan (db_o db) [0..<WST_MAX_ORIGINS] 0"

lemma victim_spec:
  "victim db < WST_MAX_ORIGINS
   \<and> (if \<exists>i < WST_MAX_ORIGINS. origin_at db i = None then origin_at db (victim db) = None
      else \<forall>i < WST_MAX_ORIGINS. wo_used (db_o db ! victim db) \<le> wo_used (db_o db ! i))"
  using victim_scan_spec [of "[0..<WST_MAX_ORIGINS]" WST_MAX_ORIGINS 0 "db_o db"]
  by (auto simp: victim_def origin_at_def WST_MAX_ORIGINS_def)

text \<open>A successful replacement stores the validated blob in one slot: the origin's own, or the victim's.\<close>

definition target_slot :: "wst_db \<Rightarrow> string \<Rightarrow> nat" where
  "target_slot db org = (case find_origin db org of Some i \<Rightarrow> i | None \<Rightarrow> victim db)"

definition fresh_entry :: "wst_db \<Rightarrow> string \<Rightarrow> (bytes \<times> bytes) list \<Rightarrow> wst_origin" where
  "fresh_entry db org ps =
     \<lparr> wo_origin = Some org, wo_blob = snapshot ps, wo_bytes = pair_bytes ps, wo_used = db_clock db + 1 \<rparr>"

definition stored :: "wst_db \<Rightarrow> string \<Rightarrow> (bytes \<times> bytes) list \<Rightarrow> wst_db" where
  "stored db org ps =
     \<lparr> db_o = (db_o db)[target_slot db org := fresh_entry db org ps], db_clock = db_clock db + 1 \<rparr>"

lemma store_blob_stored:
  "find_origin db org = Some i \<Longrightarrow> store_blob db i (db_o db ! i) (snapshot ps) (pair_bytes ps) = stored db org ps"
  "find_origin db org = None \<Longrightarrow>
     store_blob db (victim db) (blank_origin\<lparr>wo_origin := Some org\<rparr>) (snapshot ps) (pair_bytes ps) = stored db org ps"
proof -
  assume f: "find_origin db org = Some i"
  then have "wo_origin (db_o db ! i) = Some org" using find_origin_Some [of db org i] by (simp add: origin_at_def)
  then have "(db_o db ! i)\<lparr>wo_blob := snapshot ps, wo_bytes := pair_bytes ps, wo_used := db_clock db + 1\<rparr>
      = fresh_entry db org ps"
    by (cases "db_o db ! i") (simp add: fresh_entry_def)
  with f show "store_blob db i (db_o db ! i) (snapshot ps) (pair_bytes ps) = stored db org ps"
    by (simp add: store_blob_def stored_def target_slot_def Let_def)
qed (simp add: store_blob_def stored_def fresh_entry_def target_slot_def Let_def blank_origin_def)

lemma wst_replace_cases:
  assumes "wst_replace alloc db origin blob = (st, db')"
  obtains (fail) "st = -1" "db' = db"
    | (store) org ps where "st = 0" "origin = Some org" "org \<noteq> []" "length org < WST_ORIGIN_MAX"
        "valid_pairs ps" "blob = Some (snapshot ps)" "db' = stored db org ps"
proof (cases "st = 0")
  case False
  then show ?thesis using assms fail
    by (cases origin) (auto simp: Let_def split: if_splits option.splits)
next
  case True
  obtain org count where org: "origin = Some org" "org \<noteq> []" "length org < WST_ORIGIN_MAX" "check alloc blob = Some count"
    using assms True by (cases origin) (auto simp: Let_def split: if_splits option.splits)
  obtain ps where ps: "valid_pairs ps" "blob = Some (snapshot ps)" "count = pair_bytes ps"
    using check_Some [OF org(4)] by blast
  have "db' = stored db org ps"
    using assms True org ps
    by (auto simp: Let_def victim_def [symmetric] store_blob_stored split: if_splits option.splits)
  then show ?thesis using store True org ps by blast
qed

lemma stored_origin_at:
  assumes "db_inv db" and "i < WST_MAX_ORIGINS"
  shows "origin_at (stored db org ps) i = (if i = target_slot db org then Some org else origin_at db i)"
  using assms by (auto simp: origin_at_def stored_def fresh_entry_def db_inv_def nth_list_update)

lemma target_slot_less: "target_slot db org < WST_MAX_ORIGINS"
  using victim_spec find_origin_Some by (auto simp: target_slot_def split: option.splits)

lemma target_slot_only:
  assumes "db_inv db" and "i < WST_MAX_ORIGINS" and "origin_at db i = Some org"
  shows "i = target_slot db org"
  using assms find_origin_iff [OF assms(1), of org i] by (simp add: target_slot_def)

lemma stored_inv:
  assumes "db_inv db" and "org \<noteq> []" "length org < WST_ORIGIN_MAX" "valid_pairs ps"
  shows "db_inv (stored db org ps)"
proof -
  have "list_all slot_ok (db_o (stored db org ps))"
    using assms target_slot_less [of db org]
    by (auto simp: db_inv_def stored_def list_all_length nth_list_update slot_ok_def fresh_entry_def)
  moreover have "i = j" if "i < WST_MAX_ORIGINS" "j < WST_MAX_ORIGINS"
    "origin_at (stored db org ps) i = origin_at (stored db org ps) j" "origin_at (stored db org ps) i \<noteq> None" for i j
    using that assms(1) target_slot_only [OF assms(1)]
    by (auto simp: stored_origin_at [OF assms(1)] db_inv_def split: if_splits)
  ultimately show ?thesis using assms(1) unfolding db_inv_def by (simp add: stored_def)
qed

type_synonym wst_call = "allocator \<times> cptr \<times> bytes option"

fun wst_step :: "wst_db \<Rightarrow> wst_call \<Rightarrow> wst_db" where
  "wst_step db (alloc, origin, blob) = snd (wst_replace alloc db origin blob)"

lemma wst_step_inv: "db_inv db \<Longrightarrow> db_inv (wst_step db call)"
proof (cases call)
  case (fields alloc origin blob)
  obtain st db' where r: "wst_replace alloc db origin blob = (st, db')" by force
  assume "db_inv db"
  with r show ?thesis by (cases rule: wst_replace_cases [OF r]) (simp_all add: fields stored_inv)
qed

interpretation wst: invariant_machine wst_step db_inv
  by unfold_locales (rule wst_step_inv)

text \<open>C35: whatever sequence of snapshots arrives, valid or not and with or without memory, the database keeps
  one slot per origin, and every snapshot in it is the wire form of valid contents with its exact byte
  count within the quota.\<close>

theorem wst_db_invariant: "db_inv (foldl wst_step wst_new calls)"
  using wst_new_inv by (rule wst.run_inv)

definition stored_blob :: "wst_db \<Rightarrow> string \<Rightarrow> bytes" where
  "stored_blob db org = (case find_origin db org of Some i \<Rightarrow> wo_blob (db_o db ! i) | None \<Rightarrow> snapshot [])"

lemma wst_encode_stored:
  "wst_encode alloc db (Some org) = (if alloc (length (stored_blob db org)) then Some (stored_blob db org) else None)"
proof -
  have "snapshot [] = [0, 0, 0, 0]" by (simp add: snapshot_def put_u32_def)
  then show ?thesis by (simp add: stored_blob_def Let_def split: option.splits)
qed

text \<open>The origin a replacement evicts: the owner of the victim slot, when the new origin has none yet.\<close>

definition evicted :: "wst_db \<Rightarrow> string \<Rightarrow> cptr" where
  "evicted db org = (if find_origin db org = None then origin_at db (victim db) else None)"

lemma stored_blob_stored:
  assumes "db_inv db" and "db_inv (stored db org ps)"
  shows "stored_blob (stored db org ps) org' =
    (if org' = org then snapshot ps else if evicted db org = Some org' then snapshot [] else stored_blob db org')"
proof -
  note fi = find_origin_iff [OF assms(1)] and fs = find_origin_iff [OF assms(2)]
  note at = stored_origin_at [OF assms(1)] and less = target_slot_less [of db org]
  have len: "length (db_o db) = WST_MAX_ORIGINS" using assms(1) by (simp add: db_inv_def)
  show ?thesis
  proof (cases "org' = org")
    case True
    then have "find_origin (stored db org ps) org' = Some (target_slot db org)" using less by (simp add: fs at)
    then show ?thesis using True less len by (simp add: stored_blob_def) (simp add: stored_def fresh_entry_def)
  next
    case False
    show ?thesis
    proof (cases "find_origin db org'")
      case None
      then have "find_origin (stored db org ps) org' = None" using False by (simp add: find_origin_None at)
      moreover have "evicted db org \<noteq> Some org'"
        using None victim_spec by (auto simp: evicted_def find_origin_None)
      ultimately show ?thesis using None False by (simp add: stored_blob_def)
    next
      case (Some i)
      then have i: "i < WST_MAX_ORIGINS" "origin_at db i = Some org'" by (simp_all add: fi)
      show ?thesis
      proof (cases "i = target_slot db org")
        case True
        then have ev: "evicted db org = Some org'"
          using i False find_origin_Some [of db org]
          by (cases "find_origin db org") (auto simp: evicted_def target_slot_def)
        have "find_origin (stored db org ps) org' = None"
          using False i True assms(1) unfolding find_origin_None
          by (auto simp: at) (metis db_inv_def option.distinct(1))
        then show ?thesis using ev False by (simp add: stored_blob_def)
      next
        case other: False
        then have "find_origin (stored db org ps) org' = Some i" using i by (simp add: fs at)
        moreover have "evicted db org \<noteq> Some org'"
          using i other fi [of org' i] fi [of org' "victim db"] victim_spec [of db]
          by (auto simp: evicted_def target_slot_def)
        ultimately show ?thesis using False Some other
          by (simp add: stored_blob_def) (simp add: stored_def)
      qed
    qed
  qed
qed

text \<open>A replacement either fails and leaves the database as it was, or stores valid contents: the origin
  then reads back its new snapshot, and every other origin reads back what it did before, except the
  one origin evicted from a full table, whose clock is the least, which reads back as empty.\<close>

theorem wst_replace_encode:
  assumes "db_inv db" and "wst_replace alloc db (Some org) blob = (st, db')"
  shows "st = -1 \<and> db' = db
    \<or> st = 0 \<and> wst_encode (\<lambda>_. True) db' (Some org) = blob
      \<and> (\<forall>org'. org' \<noteq> org \<and> evicted db org \<noteq> Some org' \<longrightarrow>
           wst_encode (\<lambda>_. True) db' (Some org') = wst_encode (\<lambda>_. True) db (Some org'))
      \<and> (\<forall>org'. evicted db org = Some org' \<longrightarrow> wst_encode (\<lambda>_. True) db' (Some org') = Some (snapshot [])
           \<and> (\<forall>i < WST_MAX_ORIGINS. origin_at db i \<noteq> None
                \<and> wo_used (db_o db ! victim db) \<le> wo_used (db_o db ! i)))"
proof (cases rule: wst_replace_cases [OF assms(2)])
  case (2 o' ps)
  then have inv: "db_inv (stored db org ps)" using stored_inv [OF assms(1)] by simp
  note sb = stored_blob_stored [OF assms(1) inv]
  have ne: "evicted db org \<noteq> Some org"
    using victim_spec [of db] by (auto simp: evicted_def find_origin_None)
  have full: "\<forall>i < WST_MAX_ORIGINS. origin_at db i \<noteq> None \<and> wo_used (db_o db ! victim db) \<le> wo_used (db_o db ! i)"
    if "evicted db org = Some org'" for org'
    using that victim_spec [of db] by (auto simp: evicted_def split: if_splits)
  have "st = 0" "blob = Some (snapshot ps)" "db' = stored db org ps" using 2 by simp_all
  then show ?thesis using ne full by (auto simp: wst_encode_stored sb simp del: wst_encode.simps)
qed simp

lemma wst_replace_succeeds:
  assumes "org \<noteq> []" and "length org < WST_ORIGIN_MAX" and "valid_pairs ps"
  shows "wst_replace (\<lambda>_. True) db (Some org) (Some (snapshot ps)) = (0, stored db org ps)"
  using assms check_snapshot [of ps "\<lambda>_. True"]
  by (auto simp: Let_def victim_def [symmetric] store_blob_stored split: option.splits)

theorem wst_replace_encode_witness:
  "wst_encode (\<lambda>_. True) (snd (wst_replace (\<lambda>_. True) wst_new (Some ''https://a.b'') (Some (snapshot [([107], [118])]))))
     (Some ''https://a.b'') = Some (snapshot [([107], [118])])"
proof -
  have "valid_pairs [([107], [118])]" by (simp add: valid_pairs_def WST_MAX_KEYS_def WST_QUOTA_def)
  then have "wst_replace (\<lambda>_. True) wst_new (Some ''https://a.b'') (Some (snapshot [([107], [118])]))
      = (0, stored wst_new ''https://a.b'' [([107], [118])])"
    by (intro wst_replace_succeeds) (simp_all add: WST_ORIGIN_MAX_def)
  from wst_replace_encode [OF wst_new_inv this] this show ?thesis
    by (simp del: wst_replace.simps wst_encode.simps)
qed

end
