(* ===== verification/Utf8.thy ===== *)
theory Utf8
  imports C_Prelude
begin

text \<open>
  Well-formed UTF-8 as the source relies on it: the lead-byte table of \<^verbatim>\<open>include/util.h\<close>, and the repair of
  hostile text in \<^verbatim>\<open>src/browser.c\<close>, which reads a stray byte as Windows-1252. A byte is a \<open>char\<close>; its value is a
  natural number below 256. The specification is the encoding of sequences of Unicode scalar values.
\<close>

section \<open>Model\<close>

abbreviation byte :: "char \<Rightarrow> nat" where
  "byte \<equiv> of_char"

definition utf8_seq_len :: "char \<Rightarrow> nat" where
  "utf8_seq_len c =
     (if byte c < 0x80 then 1
      else if byte c \<ge> 0xC2 \<and> byte c \<le> 0xDF then 2
      else if byte c \<ge> 0xE0 \<and> byte c \<le> 0xEF then 3
      else if byte c \<ge> 0xF0 \<and> byte c \<le> 0xF4 then 4
      else 0)"

definition cp1252_to_ucs :: "char \<Rightarrow> nat" where
  "cp1252_to_ucs c =
     (if byte c < 0x80 then byte c
      else if byte c < 0xA0 then
        [0x20AC, 0x0000, 0x201A, 0x0192, 0x201E, 0x2026, 0x2020, 0x2021,
         0x02C6, 0x2030, 0x0160, 0x2039, 0x0152, 0x0000, 0x017D, 0x0000,
         0x0000, 0x2018, 0x2019, 0x201C, 0x201D, 0x2022, 0x2013, 0x2014,
         0x02DC, 0x2122, 0x0161, 0x203A, 0x0153, 0x0000, 0x017E, 0x0178] ! (byte c - 0x80)
      else byte c)"

text \<open>Shifts and masks of the code point as quotients and remainders.\<close>

definition utf8_encode :: "nat \<Rightarrow> string" where
  "utf8_encode cp =
     (if cp < 0x80 then [char_of cp]
      else if cp < 0x800 then [char_of (0xC0 + cp div 64), char_of (0x80 + cp mod 64)]
      else [char_of (0xE0 + cp div 4096), char_of (0x80 + cp div 64 mod 64), char_of (0x80 + cp mod 64)])"

text \<open>The top two bits of a continuation byte are \<^verbatim>\<open>10\<close>.\<close>

definition cont_byte :: "char \<Rightarrow> bool" where
  "cont_byte b \<longleftrightarrow> byte b div 64 = 2"

text \<open>Whether the text starts with a well-formed sequence.\<close>

definition seq_ok :: "string \<Rightarrow> bool" where
  "seq_ok s \<longleftrightarrow>
     (let c = hd s; n = utf8_seq_len c in
      n \<ge> 1 \<and> n \<le> length s \<and> list_all cont_byte (take (n - 1) (tl s))
      \<and> \<not> (n = 3 \<and> byte c = 0xE0 \<and> byte (s ! 1) < 0xA0)
      \<and> \<not> (n = 3 \<and> byte c = 0xED \<and> byte (s ! 1) > 0x9F)
      \<and> \<not> (n = 4 \<and> byte c = 0xF0 \<and> byte (s ! 1) < 0x90)
      \<and> \<not> (n = 4 \<and> byte c = 0xF4 \<and> byte (s ! 1) > 0x8F))"

definition legacy_bytes :: "char \<Rightarrow> string" where
  "legacy_bytes c = (let cp = cp1252_to_ucs c in if cp = 0 then ''?'' else utf8_encode cp)"

fun sanitize :: "string \<Rightarrow> string" where
  "sanitize [] = []"
| "sanitize (c # s) =
     (if seq_ok (c # s)
      then take (utf8_seq_len c) (c # s) @ sanitize (drop (utf8_seq_len c - 1) s)
      else legacy_bytes c @ sanitize s)"

fun utf8_sanitized_dup :: "allocator \<Rightarrow> cptr \<Rightarrow> cptr" where
  "utf8_sanitized_dup alloc None = None"
| "utf8_sanitized_dup alloc (Some s) = (if alloc (3 * length s + 1) then Some (sanitize s) else None)"

section \<open>Specification\<close>

definition scalar :: "nat \<Rightarrow> bool" where
  "scalar cp \<longleftrightarrow> cp < 0xD800 \<or> 0xDFFF < cp \<and> cp \<le> 0x10FFFF"

definition encode_scalar :: "nat \<Rightarrow> string" where
  "encode_scalar cp =
     (if cp < 0x10000 then utf8_encode cp
      else [char_of (0xF0 + cp div 262144), char_of (0x80 + cp div 4096 mod 64),
            char_of (0x80 + cp div 64 mod 64), char_of (0x80 + cp mod 64)])"

definition wf_utf8 :: "string \<Rightarrow> bool" where
  "wf_utf8 s \<longleftrightarrow> (\<exists>cps. list_all scalar cps \<and> s = concat (map encode_scalar cps))"

section \<open>Sequences and scalar values\<close>

lemma cont_byte_iff: "cont_byte b \<longleftrightarrow> (\<exists>x < 64. b = char_of (0x80 + x :: nat))"
proof
  assume "cont_byte b"
  then have "byte b div 64 = 2" by (simp add: cont_byte_def)
  then have "b = char_of (0x80 + byte b mod 64)" using div_mult_mod_eq [of "byte b" 64] by simp
  then show "\<exists>x < 64. b = char_of (0x80 + x :: nat)" by (intro exI [of _ "byte b mod 64"]) simp
qed (auto simp: cont_byte_def)

text \<open>The encoded forms by their payloads.\<close>

lemma encode2: "2 \<le> a \<Longrightarrow> a < 32 \<Longrightarrow> x < 64 \<Longrightarrow>
    encode_scalar (64 * a + x) = [char_of (0xC0 + a), char_of (0x80 + x)]"
  by (simp add: encode_scalar_def utf8_encode_def)

lemma digit: "y < 64 \<Longrightarrow> (64 * k + y) div 64 = k" "y < 64 \<Longrightarrow> (64 * k + y) mod 64 = (y :: nat)"
  by simp_all

lemma div_digits: "n div 4096 = n div 64 div 64" "n div 262144 = n div 64 div 64 div (64 :: nat)"
  by (simp_all add: div_mult2_eq [symmetric])

lemma encode3:
  assumes "a < 16" "x < 64" "y < 64" "0 < a \<or> 32 \<le> x"
  shows "encode_scalar (64 * (64 * a + x) + y) = [char_of (0xE0 + a), char_of (0x80 + x), char_of (0x80 + y)]"
proof -
  have "\<not> 64 * (64 * a + x) + y < 0x80" "\<not> 64 * (64 * a + x) + y < 0x800" "64 * (64 * a + x) + y < 0x10000"
    using assms by auto
  then show ?thesis unfolding encode_scalar_def utf8_encode_def div_digits
    by (simp only: digit [OF assms(3)] digit [OF assms(2)] if_True if_False)
qed

lemma encode4:
  assumes "x < 64" "y < 64" "z < 64" "0 < a \<or> 16 \<le> x"
  shows "encode_scalar (64 * (64 * (64 * a + x) + y) + z)
    = [char_of (0xF0 + a), char_of (0x80 + x), char_of (0x80 + y), char_of (0x80 + z)]"
proof -
  have "\<not> 64 * (64 * (64 * a + x) + y) + z < 0x10000" using assms by auto
  then show ?thesis unfolding encode_scalar_def div_digits
    by (simp only: digit [OF assms(3)] digit [OF assms(2)] digit [OF assms(1)] if_False)
qed

text \<open>The payloads of a scalar value.\<close>

lemma scalar_cases:
  assumes "scalar cp"
  obtains (one) "cp < 0x80"
    | (two) a x where "cp = 64 * a + x" "2 \<le> a" "a < 32" "x < 64"
    | (three) a x y where "cp = 64 * (64 * a + x) + y" "a < 16" "x < 64" "y < 64" "0 < a \<or> 32 \<le> x" "a \<noteq> 13 \<or> x < 32"
    | (four) a x y z where "cp = 64 * (64 * (64 * a + x) + y) + z" "a \<le> 4" "x < 64" "y < 64" "z < 64"
        "0 < a \<or> 16 \<le> x" "a < 4 \<or> x < 16"
proof -
  have split: "\<exists>k x. n = 64 * k + x \<and> x < (64 :: nat)" for n
    by (intro exI [of _ "n div 64"] exI [of _ "n mod 64"]) simp
  obtain b z where bz: "cp = 64 * b + z" "z < 64" using split by blast
  obtain c y where cy: "b = 64 * c + y" "y < 64" using split by blast
  obtain a x where ax: "c = 64 * a + x" "x < 64" using split by blast
  have cp: "cp < 0xD800 \<or> 0xDFFF < cp" "cp \<le> 0x10FFFF" using assms by (auto simp: scalar_def)
  consider "cp < 0x80" | "0x80 \<le> cp" "cp < 0x800" | "0x800 \<le> cp" "cp < 0x10000" | "0x10000 \<le> cp" by linarith
  then show thesis
  proof cases
    case 2
    then show thesis by (intro two [of b z]) (use bz in linarith)+
  next
    case 3
    show thesis
      by (rule three [of c y z]) (use 3 bz cy cp(1) in \<open>simp; linarith\<close>)+
  next
    case 4
    show thesis
      by (rule four [of a x y z]) (use 4 bz cy ax cp(2) in \<open>simp; linarith\<close>)+
  qed (rule one)
qed

lemma cont_byte_char_of: "x < 64 \<Longrightarrow> cont_byte (char_of (0x80 + x :: nat))"
  by (auto simp: cont_byte_iff)

lemma byte_char_of: "n < 256 \<Longrightarrow> byte (char_of n) = n"
  by simp

lemma encode_seq:
  assumes "scalar cp"
  shows "encode_scalar cp \<noteq> [] \<and> utf8_seq_len (hd (encode_scalar cp)) = length (encode_scalar cp)
    \<and> seq_ok (encode_scalar cp @ r)"
  using assms
proof (cases rule: scalar_cases)
  case one
  then show ?thesis by (simp add: encode_scalar_def utf8_encode_def utf8_seq_len_def seq_ok_def)
next
  case (two a x)
  have "byte (char_of (0xC0 + a)) = 0xC0 + a" by (rule byte_char_of) (use two in simp)
  then have "utf8_seq_len (char_of (0xC0 + a)) = 2" using two by (simp add: utf8_seq_len_def del: of_char_of)
  then show ?thesis using two cont_byte_char_of by (simp add: encode2 seq_ok_def Let_def)
next
  case (three a x y)
  have b: "byte (char_of (0xE0 + a)) = 0xE0 + a" "byte (char_of (0x80 + x)) = 0x80 + x"
    by (rule byte_char_of, use three in simp)+
  then have "utf8_seq_len (char_of (0xE0 + a)) = 3" using three by (simp add: utf8_seq_len_def del: of_char_of)
  moreover have "encode_scalar cp = [char_of (0xE0 + a), char_of (0x80 + x), char_of (0x80 + y)]"
    unfolding three(1) by (rule encode3) (use three in auto)
  ultimately show ?thesis using three(2-6) b cont_byte_char_of [of x] cont_byte_char_of [of y]
    by (auto simp: seq_ok_def Let_def take_Cons' simp del: of_char_of)
next
  case (four a x y z)
  have b: "byte (char_of (0xF0 + a)) = 0xF0 + a" "byte (char_of (0x80 + x)) = 0x80 + x"
    by (rule byte_char_of, use four in simp)+
  then have "utf8_seq_len (char_of (0xF0 + a)) = 4" using four by (simp add: utf8_seq_len_def del: of_char_of)
  moreover have "encode_scalar cp = [char_of (0xF0 + a), char_of (0x80 + x), char_of (0x80 + y), char_of (0x80 + z)]"
    unfolding four(1) by (rule encode4) (use four in auto)
  ultimately show ?thesis using four(2-7) b cont_byte_char_of [of x] cont_byte_char_of [of y] cont_byte_char_of [of z]
    by (auto simp: seq_ok_def Let_def take_Cons' simp del: of_char_of)
qed

lemma seq_ok_encode:
  assumes "seq_ok s" and "s \<noteq> []"
  shows "\<exists>cp. scalar cp \<and> take (utf8_seq_len (hd s)) s = encode_scalar cp"
proof -
  obtain c t where s: "s = c # t" using assms(2) by (cases s) auto
  have n: "1 \<le> utf8_seq_len c" "utf8_seq_len c \<le> length s" "list_all cont_byte (take (utf8_seq_len c - 1) t)"
    using assms(1) by (simp_all add: seq_ok_def s Let_def)
  consider "utf8_seq_len c = 1" "byte c < 0x80" | "utf8_seq_len c = 2" "0xC2 \<le> byte c" "byte c \<le> 0xDF"
    | "utf8_seq_len c = 3" "0xE0 \<le> byte c" "byte c \<le> 0xEF" | "utf8_seq_len c = 4" "0xF0 \<le> byte c" "byte c \<le> 0xF4"
    using n(1) by (auto simp: utf8_seq_len_def split: if_splits)
  then show ?thesis
  proof cases
    case 1
    then show ?thesis
      by (intro exI [of _ "byte c"]) (simp add: s scalar_def encode_scalar_def utf8_encode_def)
  next
    case 2
    obtain b r where t: "t = b # r" using n(2) 2(1) by (cases t) (auto simp: s)
    obtain x where x: "x < 64" "b = char_of (0x80 + x :: nat)" using n(3) 2(1) by (auto simp: t cont_byte_iff)
    define a where "a = byte c - 0xC0"
    have a: "2 \<le> a" "a < 32" "c = char_of (0xC0 + a)" using 2(2,3) by (auto simp: a_def)
    show ?thesis using encode2 [OF a(1,2) x(1)] a x 2(1)
      by (intro exI [of _ "64 * a + x"]) (simp add: s t scalar_def)
  next
    case 3
    obtain b d r where t: "t = b # d # r" using n(2) 3(1) by (cases t; cases "tl t") (auto simp: s)
    obtain x y where x: "x < 64" "b = char_of (0x80 + x :: nat)" and y: "y < 64" "d = char_of (0x80 + y :: nat)"
      using n(3) 3(1) by (auto simp: t cont_byte_iff)
    define a where "a = byte c - 0xE0"
    have a: "a < 16" "c = char_of (0xE0 + a)" "byte c = 0xE0 + a" using 3(2,3) by (auto simp: a_def)
    have b: "byte b = 0x80 + x" unfolding x(2) by (rule byte_char_of) (use x in simp)
    have lim: "0 < a \<or> 32 \<le> x" "a \<noteq> 13 \<or> x < 32"
      using assms(1) 3(1) a(3) b by (auto simp: seq_ok_def s t Let_def)
    show ?thesis
    proof (intro exI conjI)
      consider "a < 13" | "a = 13" | "13 < a" by linarith
      then show "scalar (64 * (64 * a + x) + y)"
        by cases (use a(1) x(1) y(1) lim in \<open>simp_all add: scalar_def\<close>)
      show "take (utf8_seq_len (hd s)) s = encode_scalar (64 * (64 * a + x) + y)"
        unfolding encode3 [OF a(1) x(1) y(1) lim(1)] using 3(1) a(2) x(2) y(2) by (simp add: s t)
    qed
  next
    case 4
    obtain b d e r where t: "t = b # d # e # r"
      using n(2) 4(1) by (cases t; cases "tl t"; cases "tl (tl t)") (auto simp: s)
    obtain x y z where x: "x < 64" "b = char_of (0x80 + x :: nat)" and y: "y < 64" "d = char_of (0x80 + y :: nat)"
      and z: "z < 64" "e = char_of (0x80 + z :: nat)"
      using n(3) 4(1) by (auto simp: t cont_byte_iff)
    define a where "a = byte c - 0xF0"
    have a: "a \<le> 4" "c = char_of (0xF0 + a)" "byte c = 0xF0 + a" using 4(2,3) by (auto simp: a_def)
    have b: "byte b = 0x80 + x" unfolding x(2) by (rule byte_char_of) (use x in simp)
    have lim: "0 < a \<or> 16 \<le> x" "a < 4 \<or> x < 16"
      using assms(1) 4(1) a(1,3) b by (auto simp: seq_ok_def s t Let_def)
    show ?thesis
    proof (intro exI conjI)
      show "scalar (64 * (64 * (64 * a + x) + y) + z)" using a(1) x(1) y(1) z(1) lim by (auto simp: scalar_def)
      show "take (utf8_seq_len (hd s)) s = encode_scalar (64 * (64 * (64 * a + x) + y) + z)"
        unfolding encode4 [OF x(1) y(1) z(1) lim(1)] using 4(1) a(2) x(2) y(2) z(2) by (simp add: s t)
    qed
  qed
qed

lemma legacy_bytes_encode: "\<exists>cp. scalar cp \<and> legacy_bytes c = encode_scalar cp"
proof -
  have "cp1252_to_ucs c < 0xD800"
  proof -
    have "list_all (\<lambda>n. n < 0xD800) [0x20AC, 0x0000, 0x201A, 0x0192, 0x201E, 0x2026, 0x2020, 0x2021,
         0x02C6, 0x2030, 0x0160, 0x2039, 0x0152, 0x0000, 0x017D, 0x0000,
         0x0000, 0x2018, 0x2019, 0x201C, 0x201D, 0x2022, 0x2013, 0x2014,
         0x02DC, 0x2122, 0x0161, 0x203A, 0x0153, 0x0000, 0x017E, 0x0178 :: nat]" by simp
    then have "byte c < 0xA0 \<Longrightarrow> \<not> byte c < 0x80 \<Longrightarrow> cp1252_to_ucs c < 0xD800"
      unfolding cp1252_to_ucs_def list_all_length by simp
    moreover have "byte c < 0xD800" by (rule order_less_trans [OF nat_of_char_less_256]) simp
    ultimately show ?thesis by (cases "byte c < 0x80 \<or> 0xA0 \<le> byte c") (auto simp: cp1252_to_ucs_def)
  qed
  moreover have "char_of (63 :: nat) = CHR ''?''" by code_simp
  ultimately have "scalar (if cp1252_to_ucs c = 0 then 63 else cp1252_to_ucs c)"
    and "legacy_bytes c = encode_scalar (if cp1252_to_ucs c = 0 then 63 else cp1252_to_ucs c)"
    by (simp_all add: scalar_def legacy_bytes_def Let_def encode_scalar_def utf8_encode_def)
  then show ?thesis by blast
qed

lemma wf_utf8_append_encode:
  assumes "scalar cp" and "wf_utf8 s"
  shows "wf_utf8 (encode_scalar cp @ s)"
proof -
  obtain cps where "list_all scalar cps" "s = concat (map encode_scalar cps)" using assms(2) by (auto simp: wf_utf8_def)
  then show ?thesis unfolding wf_utf8_def using assms(1) by (intro exI [of _ "cp # cps"]) simp
qed

lemma sanitize_wf: "wf_utf8 (sanitize s)"
proof (induction s rule: sanitize.induct)
  case 1
  then show ?case by (auto simp: wf_utf8_def intro: exI [of _ "[]"])
next
  case (2 c s)
  then show ?case
    using seq_ok_encode [of "c # s"] legacy_bytes_encode [of c] wf_utf8_append_encode by (auto split: if_splits)
qed

lemma sanitize_encode:
  assumes "scalar cp"
  shows "sanitize (encode_scalar cp @ s) = encode_scalar cp @ sanitize s"
proof -
  obtain c t where e: "encode_scalar cp = c # t" using encode_seq [OF assms] by (cases "encode_scalar cp") auto
  then have "seq_ok (c # t @ s)" "utf8_seq_len c = Suc (length t)" using encode_seq [OF assms, of s] by simp_all
  then show ?thesis by (simp add: e)
qed

lemma sanitize_id: "wf_utf8 s \<Longrightarrow> sanitize s = s"
proof -
  have "list_all scalar cps \<Longrightarrow> sanitize (concat (map encode_scalar cps)) = concat (map encode_scalar cps)" for cps
    by (induction cps) (simp_all add: sanitize_encode)
  then show "wf_utf8 s \<Longrightarrow> sanitize s = s" by (auto simp: wf_utf8_def)
qed

text \<open>The repaired text is the UTF-8 encoding of Unicode scalar values, whatever bytes arrive, it is never
  longer than three times the text, and exactly the well-formed texts are left as they are.\<close>

theorem sanitize_utf8:
  "wf_utf8 (sanitize s) \<and> length (sanitize s) \<le> 3 * length s \<and> (sanitize s = s \<longleftrightarrow> wf_utf8 s)"
proof -
  have "length (legacy_bytes c) \<le> 3" for c by (simp add: legacy_bytes_def utf8_encode_def Let_def)
  then have "length (sanitize s) \<le> 3 * length s"
    by (induction s rule: sanitize.induct) (auto simp: seq_ok_def Let_def intro: add_mono)
  then show ?thesis using sanitize_wf [of s] sanitize_id [of s] by auto
qed

end
