(* ===== verification/Browser.thy ===== *)
theory Browser
  imports Text_Field Utf8 "HOL-Library.Word"
begin

text \<open>
  The module \<^verbatim>\<open>src/browser.c\<close>: the navigation state behind the interface. History entries and their document
  numbers are two parallel lists; the address bar is its buffer of \<^verbatim>\<open>BROWSER_URL_MAX\<close> bytes with cursor and
  selection anchor; page, transient status and TLS exceptions complete the state. The state itself is
  always present; a missing string argument is \<open>None\<close>. An allocator answers each request by its size.
\<close>

section \<open>Model\<close>

definition BROWSER_URL_MAX :: nat where
  "BROWSER_URL_MAX = 1024"

definition BROWSER_STATUS_MAX :: nat where
  "BROWSER_STATUS_MAX = 256"

definition BROWSER_STATUS_DURATION_MS :: "64 word" where
  "BROWSER_STATUS_DURATION_MS = 4000"

record browser_state =
  bs_history :: "string list"
  bs_history_cap :: nat
  bs_history_pos :: nat
  bs_history_doc :: "int list"
  bs_next_doc :: int
  bs_url_bar :: string
  bs_url_bar_len :: nat
  bs_url_bar_cursor :: nat
  bs_url_bar_anchor :: nat
  bs_page_title :: cptr
  bs_page_text :: cptr
  bs_loading_error :: int
  bs_status_msg :: string
  bs_status_expiry_ms :: "64 word"
  bs_exceptions :: "string list"
  bs_exceptions_cap :: nat

datatype browser_status = BROWSER_OK | BROWSER_ERR_NULL | BROWSER_ERR_OOM | BROWSER_ERR_INVALID_URL
  | BROWSER_ERR_NO_BACK | BROWSER_ERR_NO_FORWARD

definition free_page :: "browser_state \<Rightarrow> browser_state" where
  "free_page bs = bs\<lparr>bs_page_title := None, bs_page_text := None, bs_loading_error := 0\<rparr>"

definition clear_status :: "browser_state \<Rightarrow> browser_state" where
  "clear_status bs = bs\<lparr>bs_status_msg := [], bs_status_expiry_ms := 0\<rparr>"

definition free_history :: "browser_state \<Rightarrow> browser_state" where
  "free_history bs = bs\<lparr>bs_history := [], bs_history_doc := [], bs_history_cap := 0, bs_history_pos := 0\<rparr>"

definition free_exceptions :: "browser_state \<Rightarrow> browser_state" where
  "free_exceptions bs = bs\<lparr>bs_exceptions := [], bs_exceptions_cap := 0\<rparr>"

definition is_https_url :: "string \<Rightarrow> bool" where
  "is_https_url s \<longleftrightarrow> take 8 s = ''https://''"

definition is_local_path :: "string \<Rightarrow> bool" where
  "is_local_path s \<longleftrightarrow> take 1 s = ''/'' \<or> (take 1 s = ''.'' \<and> (take 1 (drop 1 s) = ''/'' \<or> length s = 1))
     \<or> CHR ''/'' \<in> set s \<or> CHR ''.'' \<in> set s"

text \<open>The part of a string before the first colon has no slash: the colon comes first.\<close>

definition colon_before_slash :: "string \<Rightarrow> bool" where
  "colon_before_slash s \<longleftrightarrow> CHR '':'' \<in> set s \<and> CHR ''/'' \<notin> set (takeWhile (\<lambda>c. c \<noteq> CHR '':'') s)"

fun url_is_allowed :: "cptr \<Rightarrow> bool" where
  "url_is_allowed None = False"
| "url_is_allowed (Some url) =
     (if url = [] then False
      else if url = ''about:blank'' then True
      else if is_https_url url then True
      else if colon_before_slash url then False
      else is_local_path url)"

definition xstrdup :: "allocator \<Rightarrow> string \<Rightarrow> cptr" where
  "xstrdup alloc s = (if alloc (length s + 1) then Some s else None)"

subsection \<open>The address bar\<close>

fun browser_set_url_bar :: "browser_state \<Rightarrow> cptr \<Rightarrow> browser_status \<times> browser_state" where
  "browser_set_url_bar bs None = (BROWSER_ERR_NULL, bs)"
| "browser_set_url_bar bs (Some url) =
     (let n = (if length url \<ge> BROWSER_URL_MAX then BROWSER_URL_MAX - 1 else length url);
          b = take n url @ drop n (bs_url_bar bs) in
      (BROWSER_OK, bs\<lparr>bs_url_bar := b[n := NUL], bs_url_bar_len := n, bs_url_bar_cursor := n,
         bs_url_bar_anchor := n\<rparr>))"

text \<open>The selection: its start and length.\<close>

definition browser_url_bar_selection :: "browser_state \<Rightarrow> (nat \<times> nat) option" where
  "browser_url_bar_selection bs =
     (if bs_url_bar_anchor bs = bs_url_bar_cursor bs then None
      else
        let a = bs_url_bar_anchor bs; c = bs_url_bar_cursor bs;
            s = (if a < c then a else c);
            e0 = (if a < c then c else a);
            e = (if e0 > bs_url_bar_len bs then bs_url_bar_len bs else e0) in
        if s \<ge> e then None else Some (s, e - s))"

definition browser_url_bar_delete_selection :: "browser_state \<Rightarrow> bool \<times> browser_state" where
  "browser_url_bar_delete_selection bs =
     (case browser_url_bar_selection bs of
        None \<Rightarrow> (False, bs)
      | Some (s, l) \<Rightarrow>
        (True, bs\<lparr>bs_url_bar := memmove (bs_url_bar bs) s (s + l) (bs_url_bar_len bs - (s + l) + 1),
           bs_url_bar_len := bs_url_bar_len bs - l, bs_url_bar_cursor := s, bs_url_bar_anchor := s\<rparr>))"

definition browser_url_bar_insert :: "browser_state \<Rightarrow> char \<Rightarrow> browser_status \<times> browser_state" where
  "browser_url_bar_insert bs0 c =
     (let bs = snd (browser_url_bar_delete_selection bs0) in
      if bs_url_bar_len bs + 1 \<ge> BROWSER_URL_MAX then (BROWSER_ERR_OOM, bs)
      else
        let cur = (if bs_url_bar_cursor bs > bs_url_bar_len bs then bs_url_bar_len bs else bs_url_bar_cursor bs);
            b = memmove (bs_url_bar bs) (cur + 1) cur (bs_url_bar_len bs - cur + 1) in
        (BROWSER_OK, bs\<lparr>bs_url_bar := b[cur := c], bs_url_bar_len := bs_url_bar_len bs + 1,
           bs_url_bar_cursor := cur + 1, bs_url_bar_anchor := cur + 1\<rparr>))"

definition browser_url_bar_backspace :: "browser_state \<Rightarrow> browser_status \<times> browser_state" where
  "browser_url_bar_backspace bs0 =
     (let (removed, bs) = browser_url_bar_delete_selection bs0 in
      if removed then (BROWSER_OK, bs)
      else if bs_url_bar_cursor bs = 0 then (BROWSER_OK, bs)
      else
        let pos = bs_url_bar_cursor bs - 1 in
        (BROWSER_OK, bs\<lparr>bs_url_bar := memmove (bs_url_bar bs) pos (pos + 1) (bs_url_bar_len bs - pos),
           bs_url_bar_len := bs_url_bar_len bs - 1, bs_url_bar_cursor := pos, bs_url_bar_anchor := pos\<rparr>))"

definition browser_url_bar_delete :: "browser_state \<Rightarrow> browser_status \<times> browser_state" where
  "browser_url_bar_delete bs0 =
     (let (removed, bs) = browser_url_bar_delete_selection bs0 in
      if removed then (BROWSER_OK, bs)
      else if bs_url_bar_cursor bs \<ge> bs_url_bar_len bs then (BROWSER_OK, bs)
      else
        let cur = bs_url_bar_cursor bs in
        (BROWSER_OK, bs\<lparr>bs_url_bar := memmove (bs_url_bar bs) cur (cur + 1) (bs_url_bar_len bs - cur),
           bs_url_bar_len := bs_url_bar_len bs - 1\<rparr>))"

text \<open>A cursor motion clamped to the text.\<close>

definition moved_cursor :: "browser_state \<Rightarrow> int \<Rightarrow> nat" where
  "moved_cursor bs delta =
     (let pos = int (bs_url_bar_cursor bs) + delta;
          pos' = (if pos < 0 then 0 else pos) in
      if nat pos' > bs_url_bar_len bs then bs_url_bar_len bs else nat pos')"

definition browser_url_bar_move_cursor :: "browser_state \<Rightarrow> int \<Rightarrow> browser_status \<times> browser_state" where
  "browser_url_bar_move_cursor bs delta =
     (BROWSER_OK, bs\<lparr>bs_url_bar_cursor := moved_cursor bs delta, bs_url_bar_anchor := moved_cursor bs delta\<rparr>)"

definition browser_url_bar_extend_cursor :: "browser_state \<Rightarrow> int \<Rightarrow> browser_status \<times> browser_state" where
  "browser_url_bar_extend_cursor bs delta = (BROWSER_OK, bs\<lparr>bs_url_bar_cursor := moved_cursor bs delta\<rparr>)"

definition browser_url_bar_set_cursor :: "browser_state \<Rightarrow> nat \<Rightarrow> bool \<Rightarrow> browser_status \<times> browser_state" where
  "browser_url_bar_set_cursor bs p ext =
     (let pos = (if p > bs_url_bar_len bs then bs_url_bar_len bs else p);
          bs' = bs\<lparr>bs_url_bar_cursor := pos\<rparr> in
      (BROWSER_OK, if ext then bs' else bs'\<lparr>bs_url_bar_anchor := pos\<rparr>))"

definition browser_url_bar_select_all :: "browser_state \<Rightarrow> browser_status \<times> browser_state" where
  "browser_url_bar_select_all bs =
     (BROWSER_OK, bs\<lparr>bs_url_bar_anchor := 0, bs_url_bar_cursor := bs_url_bar_len bs\<rparr>)"

definition browser_url_bar_clear :: "browser_state \<Rightarrow> browser_status \<times> browser_state" where
  "browser_url_bar_clear bs =
     (BROWSER_OK, bs\<lparr>bs_url_bar := (bs_url_bar bs)[0 := NUL], bs_url_bar_len := 0, bs_url_bar_cursor := 0,
        bs_url_bar_anchor := 0\<rparr>)"

subsection \<open>History\<close>

text \<open>Both arrays grow together, to eight entries first and then to twice as many; a string pointer takes
  8 bytes and a document number 4.\<close>

definition grow_history :: "allocator \<Rightarrow> browser_state \<Rightarrow> browser_state option" where
  "grow_history alloc bs =
     (if length (bs_history bs) \<ge> bs_history_cap bs then
        let new_cap = (if bs_history_cap bs \<noteq> 0 then bs_history_cap bs * 2 else 8) in
        if \<not> alloc (new_cap * 8) then None
        else if \<not> alloc (new_cap * 4) then None
        else Some (bs\<lparr>bs_history_cap := new_cap\<rparr>)
      else Some bs)"

definition discard_forward :: "browser_state \<Rightarrow> browser_state" where
  "discard_forward bs =
     (if bs_history_pos bs < length (bs_history bs)
      then bs\<lparr>bs_history := take (bs_history_pos bs + 1) (bs_history bs),
              bs_history_doc := take (bs_history_pos bs + 1) (bs_history_doc bs)\<rparr>
      else bs)"

text \<open>When memory runs out the forward entries are gone already.\<close>

definition append_entry :: "allocator \<Rightarrow> browser_state \<Rightarrow> string \<Rightarrow> int \<Rightarrow> browser_status \<times> browser_state" where
  "append_entry alloc bs0 url doc =
     (let bs1 = discard_forward bs0 in
      case grow_history alloc bs1 of
        None \<Rightarrow> (BROWSER_ERR_OOM, bs1)
      | Some bs \<Rightarrow>
        (case xstrdup alloc url of
          None \<Rightarrow> (BROWSER_ERR_OOM, bs)
        | Some copy \<Rightarrow>
          let bs' = bs\<lparr>bs_history := bs_history bs @ [copy], bs_history_doc := bs_history_doc bs @ [doc],
                       bs_history_pos := length (bs_history bs)\<rparr> in
          (BROWSER_OK, snd (browser_set_url_bar bs' (Some url)))))"

fun browser_navigate :: "allocator \<Rightarrow> browser_state \<Rightarrow> cptr \<Rightarrow> browser_status \<times> browser_state" where
  "browser_navigate alloc bs None = (BROWSER_ERR_NULL, bs)"
| "browser_navigate alloc bs (Some url) =
     (if \<not> url_is_allowed (Some url) then (BROWSER_ERR_INVALID_URL, bs)
      else
        let (st, bs1) = append_entry alloc bs url (bs_next_doc bs) in
        if st \<noteq> BROWSER_OK then (st, bs1)
        else (BROWSER_OK, clear_status (free_page (bs1\<lparr>bs_next_doc := bs_next_doc bs1 + 1\<rparr>)\<lparr>bs_loading_error := 0\<rparr>)))"

fun browser_push_state :: "allocator \<Rightarrow> browser_state \<Rightarrow> cptr \<Rightarrow> browser_status \<times> browser_state" where
  "browser_push_state alloc bs None = (BROWSER_ERR_NULL, bs)"
| "browser_push_state alloc bs (Some url) =
     (if bs_history bs = [] then (BROWSER_ERR_NO_BACK, bs)
      else if \<not> url_is_allowed (Some url) then (BROWSER_ERR_INVALID_URL, bs)
      else append_entry alloc bs url (bs_history_doc bs ! bs_history_pos bs))"

fun browser_replace_state :: "allocator \<Rightarrow> browser_state \<Rightarrow> cptr \<Rightarrow> browser_status \<times> browser_state" where
  "browser_replace_state alloc bs None = (BROWSER_ERR_NULL, bs)"
| "browser_replace_state alloc bs (Some url) =
     (if bs_history bs = [] then (BROWSER_ERR_NO_BACK, bs)
      else if \<not> url_is_allowed (Some url) then (BROWSER_ERR_INVALID_URL, bs)
      else case xstrdup alloc url of
          None \<Rightarrow> (BROWSER_ERR_OOM, bs)
        | Some copy \<Rightarrow>
          (BROWSER_OK, snd (browser_set_url_bar (bs\<lparr>bs_history := (bs_history bs)[bs_history_pos bs := copy]\<rparr>) (Some url))))"

definition browser_entry_doc :: "browser_state \<Rightarrow> nat \<Rightarrow> int" where
  "browser_entry_doc bs pos = (if pos \<ge> length (bs_history bs) then -1 else bs_history_doc bs ! pos)"

fun run_start :: "int list \<Rightarrow> int \<Rightarrow> nat \<Rightarrow> nat" where
  "run_start docs doc 0 = 0"
| "run_start docs doc (Suc start) = (if docs ! start = doc then run_start docs doc start else Suc start)"

definition browser_doc_index :: "browser_state \<Rightarrow> int" where
  "browser_doc_index bs =
     (if bs_history bs = [] then -1
      else int (bs_history_pos bs - run_start (bs_history_doc bs) (bs_history_doc bs ! bs_history_pos bs) (bs_history_pos bs)))"

text \<open>The arrival at another entry of the history.\<close>

definition arrive :: "browser_state \<Rightarrow> nat \<Rightarrow> browser_state" where
  "arrive bs pos =
     (let bs1 = bs\<lparr>bs_history_pos := pos\<rparr>;
          bs2 = snd (browser_set_url_bar bs1 (Some (bs_history bs1 ! pos))) in
      clear_status (free_page bs2\<lparr>bs_loading_error := 0\<rparr>))"

definition browser_back :: "browser_state \<Rightarrow> browser_status \<times> browser_state" where
  "browser_back bs =
     (if bs_history_pos bs = 0 \<or> bs_history bs = [] then (BROWSER_ERR_NO_BACK, bs)
      else (BROWSER_OK, arrive bs (bs_history_pos bs - 1)))"

definition browser_forward :: "browser_state \<Rightarrow> browser_status \<times> browser_state" where
  "browser_forward bs =
     (if bs_history_pos bs + 1 \<ge> length (bs_history bs) then (BROWSER_ERR_NO_FORWARD, bs)
      else (BROWSER_OK, arrive bs (bs_history_pos bs + 1)))"

definition browser_can_back :: "browser_state \<Rightarrow> bool" where
  "browser_can_back bs \<longleftrightarrow> bs_history_pos bs > 0"

definition browser_can_forward :: "browser_state \<Rightarrow> bool" where
  "browser_can_forward bs \<longleftrightarrow> length (bs_history bs) > 0 \<and> bs_history_pos bs + 1 < length (bs_history bs)"

definition browser_current_url :: "browser_state \<Rightarrow> cptr" where
  "browser_current_url bs = (if bs_history bs = [] then None else Some (bs_history bs ! bs_history_pos bs))"

definition browser_commit_url_bar :: "allocator \<Rightarrow> browser_state \<Rightarrow> browser_status \<times> browser_state" where
  "browser_commit_url_bar alloc bs = browser_navigate alloc bs (Some (takeWhile (\<lambda>c. c \<noteq> NUL) (bs_url_bar bs)))"

subsection \<open>Lifetime, page, status\<close>

definition browser_free :: "browser_state \<Rightarrow> browser_state" where
  "browser_free bs =
     (free_exceptions (free_page (free_history bs)))\<lparr>bs_url_bar := (bs_url_bar bs)[0 := NUL], bs_url_bar_len := 0,
        bs_url_bar_cursor := 0, bs_url_bar_anchor := 0\<rparr>"

definition zero_state :: browser_state where
  "zero_state = \<lparr> bs_history = [], bs_history_cap = 0, bs_history_pos = 0, bs_history_doc = [], bs_next_doc = 0,
     bs_url_bar = replicate BROWSER_URL_MAX NUL, bs_url_bar_len = 0, bs_url_bar_cursor = 0, bs_url_bar_anchor = 0,
     bs_page_title = None, bs_page_text = None, bs_loading_error = 0, bs_status_msg = [], bs_status_expiry_ms = 0,
     bs_exceptions = [], bs_exceptions_cap = 0 \<rparr>"

text \<open>Initialisation frees what the state owned and zeroes it, so that nothing of it is left.\<close>

definition browser_init :: "browser_state \<Rightarrow> browser_status \<times> browser_state" where
  "browser_init bs =
     (let (st, bs') = browser_set_url_bar zero_state (Some ''about:blank'') in
      if st \<noteq> BROWSER_OK then (BROWSER_ERR_OOM, browser_free bs') else (BROWSER_OK, bs'))"

definition browser_set_page :: "allocator \<Rightarrow> browser_state \<Rightarrow> cptr \<Rightarrow> cptr \<Rightarrow> int \<Rightarrow> browser_status \<times> browser_state" where
  "browser_set_page alloc bs0 title body error =
     (let bs = (free_page bs0)\<lparr>bs_loading_error := error\<rparr> in
      if error \<noteq> 0 then
        let msg = (case body of Some t \<Rightarrow> t | None \<Rightarrow> ''Failed to load page.'');
            bs' = bs\<lparr>bs_page_text := utf8_sanitized_dup alloc (Some msg), bs_page_title := xstrdup alloc ''Error''\<rparr> in
        (if bs_page_text bs' \<noteq> None \<and> bs_page_title bs' \<noteq> None then BROWSER_OK else BROWSER_ERR_OOM, bs')
      else
        let bs' = bs\<lparr>bs_page_title := utf8_sanitized_dup alloc title, bs_page_text := utf8_sanitized_dup alloc body\<rparr> in
        if (title \<noteq> None \<and> bs_page_title bs' = None) \<or> (body \<noteq> None \<and> bs_page_text bs' = None)
        then (BROWSER_ERR_OOM, free_page bs') else (BROWSER_OK, bs'))"

definition browser_set_status :: "browser_state \<Rightarrow> cptr \<Rightarrow> 64 word \<Rightarrow> browser_status \<times> browser_state" where
  "browser_set_status bs msg now_ms =
     (case msg of
        None \<Rightarrow> (BROWSER_OK, clear_status bs)
      | Some m \<Rightarrow>
        if m = [] then (BROWSER_OK, clear_status bs)
        else
          let n = (if length m \<ge> BROWSER_STATUS_MAX then BROWSER_STATUS_MAX - 1 else length m) in
          (BROWSER_OK, bs\<lparr>bs_status_msg := take n m, bs_status_expiry_ms := now_ms + BROWSER_STATUS_DURATION_MS\<rparr>))"

definition browser_status_text :: "browser_state \<Rightarrow> 64 word \<Rightarrow> cptr" where
  "browser_status_text bs now_ms =
     (if bs_status_msg bs = [] then None
      else if now_ms \<ge> bs_status_expiry_ms bs then None
      else Some (bs_status_msg bs))"

subsection \<open>TLS exceptions\<close>

fun host_equal :: "string \<Rightarrow> string \<Rightarrow> bool" where
  "host_equal (x # a) (y # b) = (if ascii_lower x \<noteq> ascii_lower y then False else host_equal a b)"
| "host_equal a b = (a = [] \<and> b = [])"

fun browser_is_exception :: "browser_state \<Rightarrow> cptr \<Rightarrow> bool" where
  "browser_is_exception bs None = False"
| "browser_is_exception bs (Some h) = list_ex (\<lambda>e. host_equal e h) (bs_exceptions bs)"

definition grow_exceptions :: "allocator \<Rightarrow> browser_state \<Rightarrow> browser_state option" where
  "grow_exceptions alloc bs =
     (if length (bs_exceptions bs) \<ge> bs_exceptions_cap bs then
        let new_cap = (if bs_exceptions_cap bs \<noteq> 0 then bs_exceptions_cap bs * 2 else 4) in
        if alloc (new_cap * 8) then Some (bs\<lparr>bs_exceptions_cap := new_cap\<rparr>) else None
      else Some bs)"

fun browser_add_exception :: "allocator \<Rightarrow> browser_state \<Rightarrow> cptr \<Rightarrow> browser_status \<times> browser_state" where
  "browser_add_exception alloc bs None = (BROWSER_ERR_NULL, bs)"
| "browser_add_exception alloc bs0 (Some h) =
     (if browser_is_exception bs0 (Some h) then (BROWSER_OK, bs0)
      else case grow_exceptions alloc bs0 of
          None \<Rightarrow> (BROWSER_ERR_OOM, bs0)
        | Some bs \<Rightarrow>
          (case xstrdup alloc h of
            None \<Rightarrow> (BROWSER_ERR_OOM, bs)
          | Some copy \<Rightarrow> (BROWSER_OK, bs\<lparr>bs_exceptions := bs_exceptions bs @ [copy]\<rparr>)))"

section \<open>The address bar as a text with a selection\<close>

lemma memmove_left:
  "\<exists>rest'. memmove (l @ m @ r @ rest) (length l) (length l + length m) (length r) = l @ r @ rest'
     \<and> length rest' = length m + length rest"
  by (rule exI [of _ "drop (length r) (m @ r @ rest)"]) (simp add: memmove_def)

lemma memmove_right:
  assumes "r \<noteq> []"
  shows "memmove (l @ r @ x # rest) (length l + 1) (length l) (length r) = l @ hd r # r @ rest"
  using assms by (cases r) (simp_all add: memmove_def)

datatype bar_op = Bar_Set string | Bar_Insert char | Bar_Backspace | Bar_Delete | Bar_Move int | Bar_Extend int
  | Bar_Cursor nat bool | Bar_All | Bar_Clear

fun bar_step :: "browser_state \<Rightarrow> bar_op \<Rightarrow> browser_state" where
  "bar_step bs (Bar_Set url) = snd (browser_set_url_bar bs (Some url))"
| "bar_step bs (Bar_Insert c) = snd (browser_url_bar_insert bs c)"
| "bar_step bs Bar_Backspace = snd (browser_url_bar_backspace bs)"
| "bar_step bs Bar_Delete = snd (browser_url_bar_delete bs)"
| "bar_step bs (Bar_Move d) = snd (browser_url_bar_move_cursor bs d)"
| "bar_step bs (Bar_Extend d) = snd (browser_url_bar_extend_cursor bs d)"
| "bar_step bs (Bar_Cursor p ext) = snd (browser_url_bar_set_cursor bs p ext)"
| "bar_step bs Bar_All = snd (browser_url_bar_select_all bs)"
| "bar_step bs Bar_Clear = snd (browser_url_bar_clear bs)"

text \<open>The specification: a text, a cursor and an anchor. An edit over a selection replaces it; a text never
  reaches \<^verbatim>\<open>BROWSER_URL_MAX\<close>.\<close>

type_synonym bar = "string \<times> nat \<times> nat"

fun replace_selection :: "bar \<Rightarrow> string \<Rightarrow> bar" where
  "replace_selection (t, cur, anc) u =
     (let s = min cur anc in (take s t @ u @ drop (max cur anc) t, s + length u, s + length u))"

fun bar_edit :: "bar \<Rightarrow> bar_op \<Rightarrow> bar" where
  "bar_edit b (Bar_Set url) = (let t = take (BROWSER_URL_MAX - 1) url in (t, length t, length t))"
| "bar_edit (t, cur, anc) (Bar_Insert c) =
     (if cur = anc \<and> Suc (length t) \<ge> BROWSER_URL_MAX then (t, cur, anc) else replace_selection (t, cur, anc) [c])"
| "bar_edit (t, cur, anc) Bar_Backspace =
     (if cur = anc then (take (cur - 1) t @ drop cur t, cur - 1, cur - 1) else replace_selection (t, cur, anc) [])"
| "bar_edit (t, cur, anc) Bar_Delete =
     (if cur = anc then (take cur t @ drop (Suc cur) t, cur, cur) else replace_selection (t, cur, anc) [])"
| "bar_edit (t, cur, anc) (Bar_Move d) = (let p = min (length t) (nat (int cur + d)) in (t, p, p))"
| "bar_edit (t, cur, anc) (Bar_Extend d) = (t, min (length t) (nat (int cur + d)), anc)"
| "bar_edit (t, cur, anc) (Bar_Cursor p ext) = (let q = min (length t) p in (t, q, if ext then anc else q))"
| "bar_edit (t, cur, anc) Bar_All = (t, length t, 0)"
| "bar_edit b Bar_Clear = ([], 0, 0)"

definition bar_rep :: "browser_state \<Rightarrow> bar \<Rightarrow> bool" where
  "bar_rep bs b \<longleftrightarrow> (\<exists>t rest. bs_url_bar bs = t @ NUL # rest \<and> length (bs_url_bar bs) = BROWSER_URL_MAX
     \<and> b = (t, bs_url_bar_cursor bs, bs_url_bar_anchor bs) \<and> bs_url_bar_len bs = length t
     \<and> bs_url_bar_cursor bs \<le> length t \<and> bs_url_bar_anchor bs \<le> length t)"

lemma bar_repI:
  assumes "bs_url_bar bs = t @ NUL # rest" "length (bs_url_bar bs) = BROWSER_URL_MAX" "bs_url_bar_len bs = length t"
    "bs_url_bar_cursor bs = cur" "bs_url_bar_anchor bs = anc" "cur \<le> length t" "anc \<le> length t"
  shows "bar_rep bs (t, cur, anc)"
  using assms by (auto simp: bar_rep_def)

definition bar_inv :: "browser_state \<Rightarrow> bool" where
  "bar_inv bs \<longleftrightarrow> length (bs_url_bar bs) = BROWSER_URL_MAX \<and> bs_url_bar_len bs < BROWSER_URL_MAX
     \<and> bs_url_bar bs ! bs_url_bar_len bs = NUL \<and> bs_url_bar_cursor bs \<le> bs_url_bar_len bs
     \<and> bs_url_bar_anchor bs \<le> bs_url_bar_len bs"

definition bar_view :: "browser_state \<Rightarrow> bar" where
  "bar_view bs = (take (bs_url_bar_len bs) (bs_url_bar bs), bs_url_bar_cursor bs, bs_url_bar_anchor bs)"

lemma bar_rep_view: "bar_rep bs b \<Longrightarrow> bar_inv bs \<and> bar_view bs = b"
  by (auto simp: bar_rep_def bar_inv_def bar_view_def)

lemma bar_inv_rep:
  assumes "bar_inv bs"
  shows "bar_rep bs (bar_view bs)"
proof -
  have inv: "bs_url_bar_len bs < length (bs_url_bar bs)" "bs_url_bar bs ! bs_url_bar_len bs = NUL"
    using assms by (simp_all add: bar_inv_def)
  have "bs_url_bar bs = take (bs_url_bar_len bs) (bs_url_bar bs) @ NUL # drop (Suc (bs_url_bar_len bs)) (bs_url_bar bs)"
    using id_take_nth_drop [OF inv(1)] by (simp only: inv(2))
  then show ?thesis unfolding bar_view_def
    by (rule bar_repI) (use assms in \<open>auto simp: bar_inv_def\<close>)
qed

lemma bar_rep_set:
  assumes "length (bs_url_bar bs) = BROWSER_URL_MAX"
  shows "bar_rep (snd (browser_set_url_bar bs (Some url))) (bar_edit b (Bar_Set url))"
proof -
  define n where "n = min (BROWSER_URL_MAX - 1) (length url)"
  have n: "n < length (bs_url_bar bs)" using assms by (simp add: n_def BROWSER_URL_MAX_def)
  have len: "(if length url \<ge> BROWSER_URL_MAX then BROWSER_URL_MAX - 1 else length url) = n"
    by (auto simp: n_def min_def)
  have t: "take (BROWSER_URL_MAX - 1) url = take n url" "length (take n url) = n" by (simp_all add: n_def min_def)
  have le: "min (length url) n = n" "n \<le> length url" by (simp_all add: n_def)
  obtain x rest where r: "drop n (bs_url_bar bs) = x # rest" using n by (cases "drop n (bs_url_bar bs)") auto
  moreover have "length (x # rest) = BROWSER_URL_MAX - n" unfolding r [symmetric] using assms by simp
  ultimately show ?thesis using n assms unfolding bar_edit.simps t(1) Let_def t(2)
    by (intro bar_repI [where rest = rest]) (simp_all add: len Let_def le list_update_append)
qed

lemma delete_selection_rep:
  assumes "bar_rep bs (t, cur, anc)"
  shows "fst (browser_url_bar_delete_selection bs) = (cur \<noteq> anc)
    \<and> bar_rep (snd (browser_url_bar_delete_selection bs)) (if cur = anc then (t, cur, anc) else replace_selection (t, cur, anc) [])"
proof (cases "cur = anc")
  case True
  then show ?thesis using assms by (auto simp: bar_rep_def browser_url_bar_delete_selection_def browser_url_bar_selection_def)
next
  case False
  define s e where "s = min cur anc" and "e = max cur anc"
  obtain rest where b: "bs_url_bar bs = t @ NUL # rest" "length (bs_url_bar bs) = BROWSER_URL_MAX" "bs_url_bar_len bs = length t"
    "bs_url_bar_cursor bs = cur" "bs_url_bar_anchor bs = anc" "cur \<le> length t" "anc \<le> length t"
    using assms by (auto simp: bar_rep_def)
  have se: "s < e" "e \<le> length t" using False b(6,7) by (auto simp: s_def e_def)
  have sel: "browser_url_bar_selection bs = Some (s, e - s)"
    using False b(3-7) by (auto simp: browser_url_bar_selection_def s_def e_def min_def max_def Let_def)
  define l m r where "l = take s t" and "m = take (e - s) (drop s t)" and "r = drop e t @ [NUL]"
  have t: "bs_url_bar bs = l @ m @ r @ rest"
    using se unfolding b(1) l_def m_def r_def
    by (metis append.assoc append_Cons append_Nil append_take_drop_id drop_drop le_add_diff_inverse2 less_imp_le)
  have len: "length l = s" "length m = e - s" "length r = length t - (s + (e - s)) + 1"
    using se by (simp_all add: l_def m_def r_def)
  obtain rest' where mv: "memmove (bs_url_bar bs) s (s + (e - s)) (length t - (s + (e - s)) + 1) = l @ r @ rest'"
      "length rest' = length m + length rest"
    using memmove_left [of l m r rest] by (auto simp: t len)
  have total: "length (l @ r @ rest') = BROWSER_URL_MAX" using mv(2) b(2) by (simp add: t)
  have "bar_rep (snd (browser_url_bar_delete_selection bs)) (take s t @ drop e t, s, s)"
    by (rule bar_repI [where rest = rest'])
      (use mv total se b(3) in \<open>simp_all add: browser_url_bar_delete_selection_def sel l_def r_def\<close>)
  then show ?thesis using False by (simp add: browser_url_bar_delete_selection_def sel s_def e_def Let_def)
qed

lemma bar_rep_insert:
  assumes "bar_rep bs (t, cur, anc)"
  shows "bar_rep (snd (browser_url_bar_insert bs c)) (bar_edit (t, cur, anc) (Bar_Insert c))"
proof -
  define bs1 where "bs1 = snd (browser_url_bar_delete_selection bs)"
  define s where "s = min cur anc"
  define l r where "l = take s t" and "r = drop (max cur anc) t"
  have lim: "cur \<le> length t" "anc \<le> length t" "length t < BROWSER_URL_MAX" using assms by (auto simp: bar_rep_def)
  have "bar_rep bs1 (l @ r, s, s)"
    using delete_selection_rep [OF assms] lim by (auto simp: bs1_def l_def r_def s_def Let_def split: if_splits)
  then obtain rest where b: "bs_url_bar bs1 = l @ r @ NUL # rest" "length (bs_url_bar bs1) = BROWSER_URL_MAX"
    "bs_url_bar_len bs1 = length (l @ r)" "bs_url_bar_cursor bs1 = s" "bs_url_bar_anchor bs1 = s"
    by (auto simp: bar_rep_def)
  have l: "length l = s" using lim by (simp add: l_def s_def)
  show ?thesis
  proof (cases "length (l @ r) + 1 \<ge> BROWSER_URL_MAX")
    case True
    then have "cur = anc" using lim by (auto simp: l_def r_def s_def min_def max_def split: if_splits)
    moreover have "bs1 = bs" using assms \<open>cur = anc\<close>
      by (auto simp: bs1_def bar_rep_def browser_url_bar_delete_selection_def browser_url_bar_selection_def)
    ultimately show ?thesis using True assms b lim
      by (simp add: browser_url_bar_insert_def bs1_def [symmetric] Let_def) (simp add: l_def r_def s_def)
  next
    case False
    then obtain x rest' where rest: "rest = x # rest'" using b(1,2) by (cases rest) auto
    have "memmove (bs_url_bar bs1) (s + 1) s (length (l @ r) - s + 1) = l @ hd (r @ [NUL]) # (r @ [NUL]) @ rest'"
      using memmove_right [of "r @ [NUL]" l x rest'] l by (simp add: b(1) rest)
    moreover have "\<not> (cur = anc \<and> Suc (length t) \<ge> BROWSER_URL_MAX)"
      using False lim by (auto simp: l_def r_def s_def)
    moreover have "length (l @ hd (r @ [NUL]) # (r @ [NUL]) @ rest') = BROWSER_URL_MAX" using b(1,2) rest by simp
    ultimately show ?thesis using False b(3-5) l
      unfolding bar_edit.simps replace_selection.simps browser_url_bar_insert_def bs1_def [symmetric] Let_def
        s_def [symmetric] l_def [symmetric] r_def [symmetric]
      by (simp only: if_False, intro bar_repI [where rest = rest']) (simp_all add: list_update_append)
  qed
qed

lemma remove_at:
  assumes "p < length t"
  shows "\<exists>rest'. memmove (t @ NUL # rest) p (p + 1) (length t - p) = (take p t @ drop (Suc p) t) @ NUL # rest'
    \<and> length rest' = Suc (length rest)"
proof -
  have t: "t @ NUL # rest = take p t @ [t ! p] @ (drop (Suc p) t @ [NUL]) @ rest"
    using id_take_nth_drop [OF assms] by (metis append_Cons append_Nil append_assoc)
  have len: "length (take p t) = p" "length [t ! p] = 1" "length (drop (Suc p) t @ [NUL]) = length t - p"
    using assms by simp_all
  show ?thesis using memmove_left [of "take p t" "[t ! p]" "drop (Suc p) t @ [NUL]" rest]
    unfolding t [symmetric] len by simp
qed

lemma no_selection:
  "bar_rep bs (t, cur, cur) \<Longrightarrow> browser_url_bar_delete_selection bs = (False, bs)"
  by (simp add: bar_rep_def browser_url_bar_delete_selection_def browser_url_bar_selection_def)

lemma bar_rep_remove:
  assumes "bar_rep bs (t, cur, cur)" and "p < length t" and "p \<le> cur"
    and "bs' = bs\<lparr>bs_url_bar := memmove (bs_url_bar bs) p (p + 1) (bs_url_bar_len bs - p), bs_url_bar_len := bs_url_bar_len bs - 1,
       bs_url_bar_cursor := p, bs_url_bar_anchor := p\<rparr>"
  shows "bar_rep bs' (take p t @ drop (Suc p) t, p, p)"
proof -
  obtain rest where b: "bs_url_bar bs = t @ NUL # rest" "length (bs_url_bar bs) = BROWSER_URL_MAX" "bs_url_bar_len bs = length t"
    using assms(1) by (auto simp: bar_rep_def)
  obtain rest' where mv: "memmove (bs_url_bar bs) p (p + 1) (length t - p) = (take p t @ drop (Suc p) t) @ NUL # rest'"
      "length rest' = Suc (length rest)"
    using remove_at [OF assms(2), of rest] unfolding b(1) by blast
  have "length (take p t @ drop (Suc p) t @ NUL # rest') = BROWSER_URL_MAX" using mv(2) assms(2) b(1,2) by simp
  with mv show ?thesis using assms(2) b(3) unfolding assms(4)
    by (intro bar_repI [where rest = rest']) simp_all
qed

lemma bar_rep_backspace:
  assumes "bar_rep bs (t, cur, anc)"
  shows "bar_rep (snd (browser_url_bar_backspace bs)) (bar_edit (t, cur, anc) Bar_Backspace)"
proof (cases "cur = anc")
  case True
  then have sel: "browser_url_bar_delete_selection bs = (False, bs)" using assms no_selection by blast
  have c: "bs_url_bar_cursor bs = cur" "cur \<le> length t" using assms by (auto simp: bar_rep_def)
  show ?thesis
  proof (cases "cur = 0")
    case False
    then show ?thesis
      using assms True c bar_rep_remove [of bs t cur "cur - 1"]
      by (simp add: browser_url_bar_backspace_def sel Let_def)
  qed (use assms True c in \<open>simp add: browser_url_bar_backspace_def sel\<close>)
next
  case False
  then show ?thesis using delete_selection_rep [OF assms]
    by (simp add: browser_url_bar_backspace_def case_prod_beta)
qed

lemma bar_rep_delete:
  assumes "bar_rep bs (t, cur, anc)"
  shows "bar_rep (snd (browser_url_bar_delete bs)) (bar_edit (t, cur, anc) Bar_Delete)"
proof (cases "cur = anc")
  case True
  then have sel: "browser_url_bar_delete_selection bs = (False, bs)" using assms no_selection by blast
  have c: "bs_url_bar_cursor bs = cur" "bs_url_bar_anchor bs = cur" "cur \<le> length t" "bs_url_bar_len bs = length t"
    using assms True by (auto simp: bar_rep_def)
  show ?thesis
  proof (cases "cur < length t")
    case less: True
    from bar_rep_remove [OF _ less order_refl refl, of bs] assms True c less show ?thesis
      by (simp add: browser_url_bar_delete_def sel Let_def bar_rep_def)
  qed (use assms True c in \<open>simp add: browser_url_bar_delete_def sel\<close>)
next
  case False
  then show ?thesis using delete_selection_rep [OF assms]
    by (simp add: browser_url_bar_delete_def case_prod_beta)
qed

lemma bar_rep_step:
  assumes "bar_rep bs (t, cur, anc)"
  shows "bar_rep (bar_step bs op) (bar_edit (t, cur, anc) op)"
proof -
  have b: "length (bs_url_bar bs) = BROWSER_URL_MAX" "bs_url_bar_len bs = length t" "bs_url_bar_cursor bs = cur"
    "bs_url_bar_anchor bs = anc" "\<exists>rest. bs_url_bar bs = t @ NUL # rest" "cur \<le> length t" "anc \<le> length t"
    using assms by (auto simp: bar_rep_def)
  have mv: "moved_cursor bs d = min (length t) (nat (int cur + d))" for d
    using b(2,3) by (auto simp: moved_cursor_def Let_def min_def)
  show ?thesis
  proof (cases op)
    case (Bar_Set url)
    then show ?thesis using bar_rep_set [OF b(1), of url] by simp
  next
    case (Bar_Insert c)
    then show ?thesis using bar_rep_insert [OF assms] by simp
  next
    case Bar_Backspace
    then show ?thesis using bar_rep_backspace [OF assms] by simp
  next
    case Bar_Delete
    then show ?thesis using bar_rep_delete [OF assms] by simp
  next
    case Bar_Clear
    have "length (bs_url_bar bs) \<noteq> 0" using b(1) by (simp add: BROWSER_URL_MAX_def)
    then obtain x rest where "bs_url_bar bs = x # rest" by (cases "bs_url_bar bs") auto
    then show ?thesis using Bar_Clear b(1) by (auto simp: browser_url_bar_clear_def bar_rep_def)
  qed (use b mv in \<open>auto simp: bar_rep_def browser_url_bar_move_cursor_def browser_url_bar_extend_cursor_def
        browser_url_bar_set_cursor_def browser_url_bar_select_all_def Let_def\<close>)
qed

interpretation bar: simulation bar_step bar_inv bar_edit bar_view
proof
  fix bs op assume "bar_inv bs"
  then have "bar_rep bs (bar_view bs)" by (rule bar_inv_rep)
  then have "bar_rep (bar_step bs op) (bar_edit (bar_view bs) op)"
    using bar_rep_step [of bs "fst (bar_view bs)" "fst (snd (bar_view bs))" "snd (snd (bar_view bs))"] by simp
  then show "bar_inv (bar_step bs op)" "bar_view (bar_step bs op) = bar_edit (bar_view bs) op"
    using bar_rep_view by blast+
qed

text \<open>Under every sequence of edits, motions and selections the address bar keeps its invariant (cursor and
  anchor within the text, the text below the limit and terminated) and shows what the text with a
  selection shows under the same commands.\<close>

theorem bar_refines_edit:
  assumes "bar_inv bs"
  shows "bar_inv (foldl bar_step bs ops) \<and> bar_view (foldl bar_step bs ops) = foldl bar_edit (bar_view bs) ops"
  using bar.run_inv [OF assms] bar.run_abs [OF assms] by blast

lemma zero_state_bar: "bar_inv zero_state \<and> bar_view zero_state = ([], 0, 0)"
  by (simp add: bar_inv_def bar_view_def zero_state_def BROWSER_URL_MAX_def)

theorem bar_refines_edit_witness:
  "bar_view (foldl bar_step zero_state [Bar_Set ''abcd'', Bar_Move (-1), Bar_Extend (-2), Bar_Insert CHR ''x'', Bar_Delete,
     Bar_All, Bar_Cursor 1 True]) = (''ax'', 1, 0)"
  using bar_refines_edit [OF conjunct1 [OF zero_state_bar], of "[Bar_Set ''abcd'', Bar_Move (-1), Bar_Extend (-2),
      Bar_Insert CHR ''x'', Bar_Delete, Bar_All, Bar_Cursor 1 True]"]
  by (simp add: zero_state_bar BROWSER_URL_MAX_def del: bar_step.simps)

section \<open>The state invariant\<close>

definition hist_inv :: "browser_state \<Rightarrow> bool" where
  "hist_inv bs \<longleftrightarrow> length (bs_history_doc bs) = length (bs_history bs)
     \<and> (if bs_history bs = [] then bs_history_pos bs = 0 else bs_history_pos bs < length (bs_history bs))
     \<and> length (bs_history bs) \<le> bs_history_cap bs
     \<and> list_all (\<lambda>u. url_is_allowed (Some u)) (bs_history bs)
     \<and> 0 \<le> bs_next_doc bs \<and> sorted (bs_history_doc bs) \<and> list_all (\<lambda>d. 0 \<le> d \<and> d < bs_next_doc bs) (bs_history_doc bs)"

definition page_inv :: "browser_state \<Rightarrow> bool" where
  "page_inv bs \<longleftrightarrow> pred_option wf_utf8 (bs_page_title bs) \<and> pred_option wf_utf8 (bs_page_text bs)
     \<and> length (bs_status_msg bs) < BROWSER_STATUS_MAX"

definition exc_inv :: "browser_state \<Rightarrow> bool" where
  "exc_inv bs \<longleftrightarrow> distinct (map lower_str (bs_exceptions bs)) \<and> length (bs_exceptions bs) \<le> bs_exceptions_cap bs"

definition browser_inv :: "browser_state \<Rightarrow> bool" where
  "browser_inv bs \<longleftrightarrow> hist_inv bs \<and> bar_inv bs \<and> page_inv bs \<and> exc_inv bs"

datatype browser_op = Br_Navigate allocator cptr | Br_Commit allocator | Br_Push allocator cptr | Br_Replace allocator cptr
  | Br_Back | Br_Forward | Br_Bar bar_op | Br_Page allocator cptr cptr int | Br_Status cptr "64 word"
  | Br_Exception allocator cptr | Br_Init

fun browser_step :: "browser_state \<Rightarrow> browser_op \<Rightarrow> browser_state" where
  "browser_step bs (Br_Navigate alloc url) = snd (browser_navigate alloc bs url)"
| "browser_step bs (Br_Commit alloc) = snd (browser_commit_url_bar alloc bs)"
| "browser_step bs (Br_Push alloc url) = snd (browser_push_state alloc bs url)"
| "browser_step bs (Br_Replace alloc url) = snd (browser_replace_state alloc bs url)"
| "browser_step bs Br_Back = snd (browser_back bs)"
| "browser_step bs Br_Forward = snd (browser_forward bs)"
| "browser_step bs (Br_Bar op) = bar_step bs op"
| "browser_step bs (Br_Page alloc title body error) = snd (browser_set_page alloc bs title body error)"
| "browser_step bs (Br_Status msg now) = snd (browser_set_status bs msg now)"
| "browser_step bs (Br_Exception alloc h) = snd (browser_add_exception alloc bs h)"
| "browser_step bs Br_Init = snd (browser_init bs)"

text \<open>The address bar operations touch nothing but the bar; the page operations nothing but the page.\<close>

definition bar_free :: "browser_state \<Rightarrow> browser_state" where
  "bar_free bs = bs\<lparr>bs_url_bar := [], bs_url_bar_len := 0, bs_url_bar_cursor := 0, bs_url_bar_anchor := 0\<rparr>"

lemma delete_selection_bar_free: "bar_free (snd (browser_url_bar_delete_selection bs)) = bar_free bs"
  by (simp add: browser_url_bar_delete_selection_def bar_free_def split: option.splits prod.splits)

lemma bar_step_bar_free: "bar_free (bar_step bs op) = bar_free bs"
proof (cases op)
  case (Bar_Insert c)
  then show ?thesis using delete_selection_bar_free [of bs]
    by (simp add: browser_url_bar_insert_def Let_def) (simp add: bar_free_def)
next
  case Bar_Backspace
  then show ?thesis using delete_selection_bar_free [of bs]
    by (simp add: browser_url_bar_backspace_def Let_def case_prod_beta) (simp add: bar_free_def)
next
  case Bar_Delete
  then show ?thesis using delete_selection_bar_free [of bs]
    by (simp add: browser_url_bar_delete_def Let_def case_prod_beta) (simp add: bar_free_def)
qed (simp_all add: bar_free_def browser_url_bar_move_cursor_def browser_url_bar_extend_cursor_def
    browser_url_bar_set_cursor_def browser_url_bar_select_all_def browser_url_bar_clear_def Let_def)

lemma bar_free_inv:
  assumes "bar_free bs' = bar_free bs"
  shows "hist_inv bs' = hist_inv bs" "page_inv bs' = page_inv bs" "exc_inv bs' = exc_inv bs"
proof -
  have "hist_inv (bar_free bs) = hist_inv bs" "page_inv (bar_free bs) = page_inv bs" "exc_inv (bar_free bs) = exc_inv bs" for bs
    by (simp_all add: bar_free_def hist_inv_def page_inv_def exc_inv_def)
  with assms show "hist_inv bs' = hist_inv bs" "page_inv bs' = page_inv bs" "exc_inv bs' = exc_inv bs" by metis+
qed

lemma bar_step_inv: "browser_inv bs \<Longrightarrow> browser_inv (bar_step bs op)"
  using bar.step_inv [of bs op] bar_free_inv [OF bar_step_bar_free] by (simp add: browser_inv_def)

lemma set_url_bar_inv: "browser_inv bs \<Longrightarrow> browser_inv (snd (browser_set_url_bar bs (Some url)))"
  using bar_step_inv [of bs "Bar_Set url"] by simp

declare url_is_allowed.simps [simp del]

lemma other_fields [simp]:
  "bar_inv (bs\<lparr>bs_history := h\<rparr>) = bar_inv bs" "bar_inv (bs\<lparr>bs_history_doc := d\<rparr>) = bar_inv bs"
  "bar_inv (bs\<lparr>bs_history_pos := p\<rparr>) = bar_inv bs" "bar_inv (bs\<lparr>bs_history_cap := p\<rparr>) = bar_inv bs"
  "bar_inv (bs\<lparr>bs_next_doc := n\<rparr>) = bar_inv bs" "bar_inv (clear_status bs) = bar_inv bs" "bar_inv (free_page bs) = bar_inv bs"
  "bar_inv (bs\<lparr>bs_loading_error := e\<rparr>) = bar_inv bs" "hist_inv (bs\<lparr>bs_loading_error := e\<rparr>) = hist_inv bs"
  "exc_inv (bs\<lparr>bs_loading_error := e\<rparr>) = exc_inv bs" "page_inv (bs\<lparr>bs_loading_error := e\<rparr>) = page_inv bs"
  "exc_inv (clear_status bs) = exc_inv bs" "exc_inv (free_page bs) = exc_inv bs"
  "hist_inv (clear_status bs) = hist_inv bs" "hist_inv (free_page bs) = hist_inv bs"
  "page_inv bs \<Longrightarrow> page_inv (clear_status bs)" "page_inv bs \<Longrightarrow> page_inv (free_page bs)"
  by (simp_all add: bar_inv_def hist_inv_def page_inv_def exc_inv_def clear_status_def free_page_def BROWSER_STATUS_MAX_def)

text \<open>The history with a new entry behind the current one.\<close>

definition visited :: "browser_state \<Rightarrow> string \<Rightarrow> int \<Rightarrow> nat \<Rightarrow> browser_state" where
  "visited bs url doc cap =
     (let h = take (bs_history_pos bs + 1) (bs_history bs) in
      bs\<lparr>bs_history_cap := cap, bs_history := h @ [url],
         bs_history_doc := take (bs_history_pos bs + 1) (bs_history_doc bs) @ [doc], bs_history_pos := length h\<rparr>)"

lemma discard_forward_eq:
  assumes "hist_inv bs"
  shows "discard_forward bs = bs\<lparr>bs_history := take (bs_history_pos bs + 1) (bs_history bs),
    bs_history_doc := take (bs_history_pos bs + 1) (bs_history_doc bs)\<rparr>"
  using assms by (auto simp: discard_forward_def hist_inv_def split: if_splits)

lemma sorted_take: "sorted xs \<Longrightarrow> sorted (take n xs)"
  by (metis append_take_drop_id sorted_append)

lemma list_all_take: "list_all P xs \<Longrightarrow> list_all P (take n xs)"
  by (metis append_take_drop_id list_all_append)

lemma discard_forward_inv:
  assumes "browser_inv bs"
  shows "browser_inv (discard_forward bs)"
proof -
  have h: "hist_inv bs" using assms by (simp add: browser_inv_def)
  then have "hist_inv (discard_forward bs)"
    unfolding discard_forward_eq [OF h] by (auto simp: hist_inv_def sorted_take list_all_take)
  moreover have "page_inv (discard_forward bs) = page_inv bs" "exc_inv (discard_forward bs) = exc_inv bs"
    by (simp_all add: discard_forward_def page_inv_def exc_inv_def)
  ultimately show ?thesis using assms by (simp add: browser_inv_def discard_forward_eq [OF h])
qed

lemma grow_history_Some:
  assumes "grow_history alloc bs = Some bs'"
  shows "\<exists>cap. bs' = bs\<lparr>bs_history_cap := cap\<rparr> \<and> bs_history_cap bs \<le> cap
    \<and> (length (bs_history bs) \<le> bs_history_cap bs \<longrightarrow> length (bs_history bs) < cap)"
  using assms
  by (auto simp: grow_history_def Let_def split: if_splits intro!: exI [of _ "bs_history_cap bs'"])

lemma cap_inv: "browser_inv bs \<Longrightarrow> bs_history_cap bs \<le> cap \<Longrightarrow> browser_inv (bs\<lparr>bs_history_cap := cap\<rparr>)"
  by (simp add: browser_inv_def) (simp add: hist_inv_def page_inv_def exc_inv_def)

lemma append_entry_cases:
  assumes "browser_inv bs" and "append_entry alloc bs url doc = (st, bs')"
  obtains (oom) "st = BROWSER_ERR_OOM" "browser_inv bs'"
    | (added) cap where "st = BROWSER_OK" "bs' = snd (browser_set_url_bar (visited bs url doc cap) (Some url))"
        "length (take (bs_history_pos bs + 1) (bs_history bs)) < cap"
proof -
  note inv1 = discard_forward_inv [OF assms(1)]
  have eq: "discard_forward bs = bs\<lparr>bs_history := take (bs_history_pos bs + 1) (bs_history bs),
      bs_history_doc := take (bs_history_pos bs + 1) (bs_history_doc bs)\<rparr>"
    using assms(1) discard_forward_eq by (simp add: browser_inv_def)
  show thesis
  proof (cases "grow_history alloc (discard_forward bs)")
    case None
    then show thesis using assms(2) inv1 oom by (simp add: append_entry_def)
  next
    case (Some bs2)
    from grow_history_Some [OF Some] obtain cap where cap: "bs2 = (discard_forward bs)\<lparr>bs_history_cap := cap\<rparr>"
        "bs_history_cap (discard_forward bs) \<le> cap" "length (bs_history (discard_forward bs)) < cap"
      using inv1 by (auto simp: browser_inv_def hist_inv_def)
    show thesis
    proof (cases "xstrdup alloc url")
      case None
      then show thesis using assms(2) Some cap cap_inv [OF inv1 cap(2)] oom by (simp add: append_entry_def)
    next
      case (Some copy)
      then have "copy = url" by (simp add: xstrdup_def split: if_splits)
      then have "st = BROWSER_OK" "bs' = snd (browser_set_url_bar (visited bs url doc cap) (Some url))"
        using assms(2) Some cap \<open>grow_history alloc (discard_forward bs) = Some bs2\<close>
        by (simp_all add: append_entry_def visited_def Let_def eq del: browser_set_url_bar.simps)
      then show thesis using added cap(3) by (simp add: eq)
    qed
  qed
qed

lemma visited_inv:
  assumes "browser_inv bs" and "url_is_allowed (Some url)" and "length (take (bs_history_pos bs + 1) (bs_history bs)) < cap"
    and "0 \<le> doc" "doc < n" "bs_next_doc bs \<le> n" "\<forall>d \<in> set (take (bs_history_pos bs + 1) (bs_history_doc bs)). d \<le> doc"
  shows "browser_inv ((visited bs url doc cap)\<lparr>bs_next_doc := n\<rparr>)"
proof -
  have h: "hist_inv bs" using assms(1) by (simp add: browser_inv_def)
  have "list_all (\<lambda>d. 0 \<le> d \<and> d < n) (bs_history_doc bs)"
    using h assms(6) by (auto simp: hist_inv_def list_all_iff)
  then have "hist_inv ((visited bs url doc cap)\<lparr>bs_next_doc := n\<rparr>)"
    using h assms(2-5,7) by (auto simp: hist_inv_def visited_def Let_def sorted_take list_all_take sorted_append)
  then show ?thesis using assms(1)
    by (simp add: browser_inv_def visited_def Let_def) (simp add: page_inv_def exc_inv_def)
qed

lemma set_url_bar_fields:
  "snd (browser_set_url_bar (bs\<lparr>bs_next_doc := n\<rparr>) u) = (snd (browser_set_url_bar bs u))\<lparr>bs_next_doc := n\<rparr>"
  "bs_history (snd (browser_set_url_bar bs u)) = bs_history bs"
  "bs_history_doc (snd (browser_set_url_bar bs u)) = bs_history_doc bs"
  "bs_history_pos (snd (browser_set_url_bar bs u)) = bs_history_pos bs"
  "bs_next_doc (snd (browser_set_url_bar bs u)) = bs_next_doc bs"
  by (cases u; simp add: Let_def)+

lemma docs_below:
  assumes "hist_inv bs" "bs_history bs \<noteq> []"
  shows "\<forall>d \<in> set (take (bs_history_pos bs + 1) (bs_history_doc bs)). d \<le> bs_history_doc bs ! bs_history_pos bs"
    and "0 \<le> bs_history_doc bs ! bs_history_pos bs" "bs_history_doc bs ! bs_history_pos bs < bs_next_doc bs"
  using assms by (auto simp: hist_inv_def in_set_conv_nth sorted_iff_nth_mono list_all_length)

lemma left_page_inv: "browser_inv bs \<Longrightarrow> browser_inv (clear_status ((free_page bs)\<lparr>bs_loading_error := e\<rparr>))"
  by (simp add: browser_inv_def)

lemma navigate_inv:
  assumes "browser_inv bs"
  shows "browser_inv (snd (browser_navigate alloc bs url))"
proof (cases url)
  case (Some u)
  obtain st bs1 where a: "append_entry alloc bs u (bs_next_doc bs) = (st, bs1)" by force
  show ?thesis
  proof (cases "url_is_allowed (Some u)")
    case True
    from assms a show ?thesis
    proof (cases rule: append_entry_cases)
      case (added cap)
      have h: "hist_inv bs" using assms by (simp add: browser_inv_def)
      let ?v = "(visited bs u (bs_next_doc bs) cap)\<lparr>bs_next_doc := bs_next_doc bs + 1\<rparr>"
      have "browser_inv ?v"
        using h added(3) by (intro visited_inv [OF assms True])
          (auto simp: hist_inv_def list_all_iff less_imp_le dest: in_set_takeD)
      then have "browser_inv (bs1\<lparr>bs_next_doc := bs_next_doc bs1 + 1\<rparr>)"
        using set_url_bar_inv [of ?v u] added(2)
        by (simp add: set_url_bar_fields visited_def Let_def del: browser_set_url_bar.simps)
      then show ?thesis using left_page_inv True a added(1) by (simp add: Some)
    qed (use a True in \<open>simp add: Some\<close>)
  qed (use assms in \<open>simp add: Some\<close>)
qed (use assms in simp)

lemma push_state_inv:
  assumes "browser_inv bs"
  shows "browser_inv (snd (browser_push_state alloc bs url))"
proof (cases url)
  case (Some u)
  define doc where "doc = bs_history_doc bs ! bs_history_pos bs"
  obtain st bs1 where a: "append_entry alloc bs u doc = (st, bs1)" by force
  show ?thesis
  proof (cases "url_is_allowed (Some u) \<and> bs_history bs \<noteq> []")
    case True
    from assms a have "browser_inv bs1"
    proof (cases rule: append_entry_cases)
      case (added cap)
      have h: "hist_inv bs" using assms by (simp add: browser_inv_def)
      have "browser_inv ((visited bs u doc cap)\<lparr>bs_next_doc := bs_next_doc bs\<rparr>)"
        using docs_below [OF h] True added(3) by (intro visited_inv [OF assms]) (auto simp: doc_def)
      moreover have "(visited bs u doc cap)\<lparr>bs_next_doc := bs_next_doc bs\<rparr> = visited bs u doc cap"
        by (simp add: visited_def Let_def)
      ultimately show ?thesis using set_url_bar_inv added(2) by simp
    qed
    then show ?thesis using a True by (simp add: Some doc_def)
  qed (use assms in \<open>auto simp: Some\<close>)
qed (use assms in simp)

lemma replace_state_inv:
  assumes "browser_inv bs"
  shows "browser_inv (snd (browser_replace_state alloc bs url))"
proof (cases url)
  case (Some u)
  show ?thesis
  proof (cases "url_is_allowed (Some u) \<and> bs_history bs \<noteq> []")
    case True
    have "set ((bs_history bs)[bs_history_pos bs := u]) \<subseteq> insert u (set (bs_history bs))" by (rule set_update_subset_insert)
    then have "hist_inv (bs\<lparr>bs_history := (bs_history bs)[bs_history_pos bs := u]\<rparr>)"
      using assms True by (auto simp: browser_inv_def hist_inv_def list_all_iff)
    then have "browser_inv (bs\<lparr>bs_history := (bs_history bs)[bs_history_pos bs := u]\<rparr>)"
      using assms by (simp add: browser_inv_def) (simp add: page_inv_def exc_inv_def)
    from set_url_bar_inv [OF this, of u] show ?thesis using True assms
      by (auto simp: Some xstrdup_def simp del: browser_set_url_bar.simps)
  qed (use assms in \<open>auto simp: Some\<close>)
qed (use assms in simp)

lemma arrive_inv:
  assumes "browser_inv bs" and "p < length (bs_history bs)"
  shows "browser_inv (arrive bs p)"
proof -
  have "hist_inv (bs\<lparr>bs_history_pos := p\<rparr>)" using assms by (auto simp: browser_inv_def hist_inv_def)
  then have "browser_inv (bs\<lparr>bs_history_pos := p\<rparr>)"
    using assms(1) by (simp add: browser_inv_def) (simp add: page_inv_def exc_inv_def)
  from left_page_inv [OF set_url_bar_inv [OF this]] show ?thesis
    by (simp add: arrive_def Let_def del: browser_set_url_bar.simps)
qed

lemma back_forward_inv:
  assumes "browser_inv bs"
  shows "browser_inv (snd (browser_back bs))" "browser_inv (snd (browser_forward bs))"
proof -
  have "bs_history bs \<noteq> [] \<Longrightarrow> bs_history_pos bs < length (bs_history bs)"
    using assms by (simp add: browser_inv_def hist_inv_def)
  then show "browser_inv (snd (browser_back bs))" "browser_inv (snd (browser_forward bs))"
    using arrive_inv [OF assms] assms by (auto simp: browser_back_def browser_forward_def)
qed

lemma sanitized_wf: "utf8_sanitized_dup alloc s = Some t \<Longrightarrow> wf_utf8 t"
  by (cases s) (auto simp: sanitize_wf split: if_splits)

lemma wf_utf8_ascii: "list_all (\<lambda>c. byte c < 0x80) s \<Longrightarrow> wf_utf8 s"
proof (induction s)
  case (Cons c s)
  then show ?case using wf_utf8_append_encode [of "byte c" s]
    by (simp add: scalar_def encode_scalar_def utf8_encode_def)
qed (auto simp: wf_utf8_def intro: exI [of _ "[]"])

lemma set_page_inv:
  assumes "browser_inv bs"
  shows "browser_inv (snd (browser_set_page alloc bs title body error))"
proof -
  have e: "pred_option wf_utf8 (xstrdup alloc ''Error'')" by (simp add: xstrdup_def wf_utf8_ascii)
  have s: "pred_option wf_utf8 (utf8_sanitized_dup alloc t)" for t
    using sanitized_wf by (cases "utf8_sanitized_dup alloc t") auto
  have p: "browser_inv ((free_page bs)\<lparr>bs_loading_error := error, bs_page_text := a, bs_page_title := b\<rparr>)"
    "browser_inv ((free_page bs)\<lparr>bs_loading_error := error, bs_page_title := b, bs_page_text := a\<rparr>)"
    "browser_inv (free_page ((free_page bs)\<lparr>bs_loading_error := error, bs_page_title := b, bs_page_text := a\<rparr>))"
    if "pred_option wf_utf8 a" "pred_option wf_utf8 b" for a b
    using assms that
    by (simp_all add: browser_inv_def hist_inv_def bar_inv_def exc_inv_def page_inv_def free_page_def)
  show ?thesis using p [OF s s] p [OF s e]
    by (cases "error = 0") (simp_all add: browser_set_page_def Let_def del: utf8_sanitized_dup.simps)
qed

lemma set_status_inv:
  assumes "browser_inv bs"
  shows "browser_inv (snd (browser_set_status bs msg now))"
proof -
  have "browser_inv (bs\<lparr>bs_status_msg := m, bs_status_expiry_ms := e\<rparr>)" if "length m < BROWSER_STATUS_MAX" for m e
    using assms that by (simp add: browser_inv_def hist_inv_def bar_inv_def exc_inv_def page_inv_def)
  moreover have "length (take (if length m \<ge> BROWSER_STATUS_MAX then BROWSER_STATUS_MAX - 1 else length m) m) < BROWSER_STATUS_MAX"
    for m :: string by (simp add: BROWSER_STATUS_MAX_def)
  ultimately show ?thesis using assms
    by (auto simp: browser_set_status_def Let_def browser_inv_def split: option.splits)
qed

lemma host_equal_iff: "host_equal a b \<longleftrightarrow> lower_str a = lower_str b"
  by (induction a b rule: host_equal.induct) auto

lemma add_exception_inv:
  assumes "browser_inv bs"
  shows "browser_inv (snd (browser_add_exception alloc bs h))"
proof (cases h)
  case (Some u)
  have keep: "browser_inv (bs\<lparr>bs_exceptions_cap := cap, bs_exceptions := es\<rparr>)"
    if "distinct (map lower_str es)" "length es \<le> cap" for es cap
    using assms that by (simp add: browser_inv_def hist_inv_def bar_inv_def exc_inv_def page_inv_def)
  have old: "distinct (map lower_str (bs_exceptions bs))" "length (bs_exceptions bs) \<le> bs_exceptions_cap bs"
    using assms by (simp_all add: browser_inv_def exc_inv_def)
  show ?thesis
  proof (cases "browser_is_exception bs h \<or> grow_exceptions alloc bs = None")
    case False
    then obtain bs1 where g: "grow_exceptions alloc bs = Some bs1" by auto
    then obtain cap where cap: "bs1 = bs\<lparr>bs_exceptions_cap := cap\<rparr>" "length (bs_exceptions bs) < cap"
      using old(2) by (auto simp: grow_exceptions_def Let_def split: if_splits intro: that [of "bs_exceptions_cap bs"])
    have "distinct (map lower_str (bs_exceptions bs @ [u]))"
      using old(1) False by (auto simp: Some list_ex_iff host_equal_iff)
    then show ?thesis using False g cap keep [of "bs_exceptions bs @ [u]" cap] keep [of "bs_exceptions bs" cap] old(1)
      by (simp add: Some xstrdup_def)
  qed (use assms in \<open>auto simp: Some\<close>)
qed (use assms in simp)

lemma browser_init_inv: "browser_inv (snd (browser_init bs))"
proof -
  have "browser_inv zero_state"
    using zero_state_bar
    by (simp add: browser_inv_def) (simp add: hist_inv_def page_inv_def exc_inv_def zero_state_def BROWSER_STATUS_MAX_def)
  from set_url_bar_inv [OF this, of "''about:blank''"] show ?thesis
    by (simp add: browser_init_def Let_def case_prod_beta)
qed

lemmas browser_step_invs = navigate_inv push_state_inv replace_state_inv back_forward_inv bar_step_inv set_page_inv
  set_status_inv add_exception_inv browser_init_inv

lemma browser_step_inv: "browser_inv bs \<Longrightarrow> browser_inv (browser_step bs op)"
  by (cases op) (simp_all only: browser_step.simps browser_commit_url_bar_def browser_step_invs)

interpretation browser: invariant_machine browser_step browser_inv
  by unfold_locales (rule browser_step_inv)

text \<open>C38: after every sequence of operations on an initialised state, whatever the user, the pages and the
  allocator do: the position is within the history, every entry is an allowed URL, document numbers
  rise along the history and are below the next one, the address bar keeps its invariant, page title
  and text are well-formed UTF-8, the status fits, and no host is listed twice as an exception.\<close>

theorem browser_state_invariant: "browser_inv (foldl browser_step (snd (browser_init bs)) ops)"
  using browser_init_inv by (rule browser.run_inv)

section \<open>Moving through the history\<close>

lemma run_start_le: "run_start docs doc p \<le> p"
  by (induction p) auto

lemma run_start_cong: "(\<And>i. i < p \<Longrightarrow> docs ! i = docs' ! i) \<Longrightarrow> run_start docs doc p = run_start docs' doc p"
  by (induction p) auto

lemma run_start_count:
  assumes "sorted docs" and "p \<le> length docs" and "\<forall>i < p. docs ! i \<le> doc"
  shows "p - run_start docs doc p = card {i. i < p \<and> docs ! i = doc}"
  using assms(2,3)
proof (induction p)
  case (Suc p)
  show ?case
  proof (cases "docs ! p = doc")
    case True
    then have "{i. i < Suc p \<and> docs ! i = doc} = insert p {i. i < p \<and> docs ! i = doc}" by auto
    then show ?thesis using Suc True run_start_le [of docs doc p] by (simp add: Suc_diff_le)
  next
    case False
    then have "docs ! i < doc" if "i < Suc p" for i
      using that Suc.prems assms(1) sorted_nth_mono [of docs i p] by (fastforce simp: order_le_less less_Suc_eq)
    then have "{i. i < Suc p \<and> docs ! i = doc} = {}" by auto
    then show ?thesis using False by simp
  qed
qed simp

lemma doc_index_count:
  assumes "hist_inv bs" and "bs_history bs \<noteq> []"
  shows "browser_doc_index bs = int (card {i. i < bs_history_pos bs \<and> browser_entry_doc bs i = browser_entry_doc bs (bs_history_pos bs)})"
proof -
  have h: "bs_history_pos bs < length (bs_history_doc bs)" "length (bs_history_doc bs) = length (bs_history bs)"
    "sorted (bs_history_doc bs)" using assms by (simp_all add: hist_inv_def)
  have "{i. i < bs_history_pos bs \<and> browser_entry_doc bs i = browser_entry_doc bs (bs_history_pos bs)}
      = {i. i < bs_history_pos bs \<and> bs_history_doc bs ! i = bs_history_doc bs ! bs_history_pos bs}"
    using h by (auto simp: browser_entry_doc_def)
  then show ?thesis using run_start_count [OF h(3), of "bs_history_pos bs"] h assms(2)
    by (simp add: browser_doc_index_def sorted_nth_mono)
qed

lemma arrive_fields [simp]:
  "bs_history (arrive bs p) = bs_history bs" "bs_history_doc (arrive bs p) = bs_history_doc bs" "bs_history_pos (arrive bs p) = p"
  by (simp_all add: arrive_def Let_def clear_status_def free_page_def)

lemma navigate_fields:
  assumes "browser_inv bs" and "bs_history bs \<noteq> []" and "browser_navigate alloc bs (Some url) = (BROWSER_OK, bs')"
  shows "bs_history bs' = take (bs_history_pos bs + 1) (bs_history bs) @ [url]"
    "bs_history_doc bs' = take (bs_history_pos bs + 1) (bs_history_doc bs) @ [bs_next_doc bs]"
    "bs_history_pos bs' = bs_history_pos bs + 1"
proof -
  obtain st bs1 where a: "append_entry alloc bs url (bs_next_doc bs) = (st, bs1)" by force
  then have st: "st = BROWSER_OK" and bs': "bs' = clear_status ((free_page (bs1\<lparr>bs_next_doc := bs_next_doc bs1 + 1\<rparr>))\<lparr>bs_loading_error := 0\<rparr>)"
    using assms(3) by (auto split: if_splits)
  have "bs_history_pos bs < length (bs_history bs)" using assms(1,2) by (simp add: browser_inv_def hist_inv_def)
  moreover from assms(1) a st obtain cap where "bs1 = snd (browser_set_url_bar (visited bs url (bs_next_doc bs) cap) (Some url))"
    by (cases rule: append_entry_cases) auto
  ultimately show "bs_history bs' = take (bs_history_pos bs + 1) (bs_history bs) @ [url]"
    "bs_history_doc bs' = take (bs_history_pos bs + 1) (bs_history_doc bs) @ [bs_next_doc bs]"
    "bs_history_pos bs' = bs_history_pos bs + 1"
    by (simp_all add: bs' clear_status_def free_page_def set_url_bar_fields visited_def Let_def
        del: browser_set_url_bar.simps)
qed

text \<open>A navigation opens a new document behind the current entry and ends the forward history; going back
  returns to the entry it left, with the same index in its document, and going forward again returns
  to the new one. The index counts the entries of the same document before the current one.\<close>

theorem browser_navigate_back:
  assumes "browser_inv bs" and "bs_history bs \<noteq> []" and "browser_navigate alloc bs (Some url) = (BROWSER_OK, bs')"
    and "browser_back bs' = (st, bs'')"
  shows "browser_current_url bs' = Some url \<and> \<not> browser_can_forward bs' \<and> browser_doc_index bs' = 0
    \<and> st = BROWSER_OK \<and> browser_current_url bs'' = browser_current_url bs \<and> browser_doc_index bs'' = browser_doc_index bs
    \<and> browser_current_url (snd (browser_forward bs'')) = Some url
    \<and> browser_doc_index bs = int (card {i. i < bs_history_pos bs \<and> browser_entry_doc bs i = browser_entry_doc bs (bs_history_pos bs)})"
proof -
  have h: "hist_inv bs" "bs_history_pos bs < length (bs_history bs)" "length (bs_history_doc bs) = length (bs_history bs)"
    using assms(1,2) by (simp_all add: browser_inv_def hist_inv_def)
  note f = navigate_fields [OF assms(1-3)]
  have went: "st = BROWSER_OK" "bs'' = arrive bs' (bs_history_pos bs)"
    using assms(4) f by (auto simp: browser_back_def)
  have doc: "bs_history_doc bs ! bs_history_pos bs \<noteq> bs_next_doc bs" using docs_below(3) [OF h(1) assms(2)] by simp
  have "browser_doc_index bs'' = browser_doc_index bs"
    using assms(2) h f by (simp add: went browser_doc_index_def nth_append)
      (subst run_start_cong [where docs' = "bs_history_doc bs"], simp_all add: nth_append)
  moreover have "browser_doc_index bs' = 0"
    using f h doc by (simp add: browser_doc_index_def nth_append)
  ultimately show ?thesis using assms(2) h f doc_index_count [OF h(1) assms(2)]
    by (simp add: went browser_current_url_def browser_can_forward_def browser_forward_def nth_append)
qed

theorem browser_navigate_back_witness:
  "\<exists>bs bs' bs''. browser_navigate (\<lambda>_. True) bs (Some ''https://c.d/'') = (BROWSER_OK, bs')
     \<and> browser_back bs' = (BROWSER_OK, bs'') \<and> browser_current_url bs'' = Some ''https://a.b/'' \<and> browser_doc_index bs' = 0"
proof -
  define bs where "bs = foldl browser_step (snd (browser_init zero_state)) [Br_Navigate (\<lambda>_. True) (Some ''https://a.b/'')]"
  have inv: "browser_inv bs" unfolding bs_def by (rule browser.run_inv [OF browser_init_inv])
  have u: "url_is_allowed (Some ''https://a.b/'')" "url_is_allowed (Some ''https://c.d/'')" by code_simp+
  have h: "bs_history bs = [''https://a.b/'']" "bs_history_pos bs = 0" "bs_history_cap bs = 8"
    by (simp_all add: bs_def browser_init_def zero_state_def u append_entry_def discard_forward_def grow_history_def
        xstrdup_def clear_status_def free_page_def Let_def)
  obtain bs' where n: "browser_navigate (\<lambda>_. True) bs (Some ''https://c.d/'') = (BROWSER_OK, bs')"
    by (simp add: u append_entry_def discard_forward_def grow_history_def xstrdup_def h Let_def)
  obtain st bs'' where b: "browser_back bs' = (st, bs'')" by force
  have "browser_current_url bs = Some ''https://a.b/''" by (simp add: browser_current_url_def h)
  then show ?thesis using browser_navigate_back [OF inv _ n b] h(1) n b
    by (intro exI [of _ bs] exI [of _ bs'] exI [of _ "bs''"]) (simp del: browser_navigate.simps)
qed

end
