(* ===== verification/Decimal.thy ===== *)
theory Decimal
  imports C_Prelude
begin

text \<open>
  Decimal numerals as the C library prints and scans them, shared by the modules that store, parse and
  format integers: the text of an integer, its length, and that scanning it gives the integer back.
\<close>

text \<open>The integer conversion of \<^verbatim>\<open>sscanf\<close> and \<^verbatim>\<open>strtol\<close>, and the text it leaves.\<close>

definition is_space :: "char \<Rightarrow> bool" where
  "is_space c \<longleftrightarrow> c = CHR '' '' \<or> (9 \<le> (of_char c :: nat) \<and> (of_char c :: nat) \<le> 13)"

definition digit_value :: "char \<Rightarrow> int" where
  "digit_value c = of_char c - 48"

definition digits_value :: "string \<Rightarrow> int" where
  "digits_value ds = foldl (\<lambda>n c. n * 10 + digit_value c) 0 ds"

fun scan_sign :: "string \<Rightarrow> int \<times> string" where
  "scan_sign (c # s) = (if c = CHR ''-'' then (-1, s) else if c = CHR ''+'' then (1, s) else (1, c # s))"
| "scan_sign [] = (1, [])"

definition scan_int :: "string \<Rightarrow> (int \<times> string) option" where
  "scan_int s =
     (let (sg, t) = scan_sign (dropWhile is_space s);
          ds = takeWhile is_digit t in
      if ds = [] then None else Some (sg * digits_value ds, dropWhile is_digit t))"

definition dec_digit :: "nat \<Rightarrow> char" where
  "dec_digit n = char_of (48 + n)"

text \<open>The decimal form of \<^verbatim>\<open>%lld\<close> and \<^verbatim>\<open>%ld\<close>.\<close>

fun show_nat :: "nat \<Rightarrow> string" where
  "show_nat n = (if n < 10 then [dec_digit n] else show_nat (n div 10) @ [dec_digit (n mod 10)])"

declare show_nat.simps [simp del]

definition show_int :: "int \<Rightarrow> string" where
  "show_int i = (if i < 0 then CHR ''-'' # show_nat (nat (- i)) else show_nat (nat i))"

lemma dec_digit: "n < 10 \<Longrightarrow> is_digit (dec_digit n) \<and> digit_value (dec_digit n) = int n"
proof -
  assume "n < 10"
  then have "of_char (dec_digit n) = (48 + n :: nat)" by (simp add: dec_digit_def)
  then have "of_char (dec_digit n) = (48 + n :: nat)" "of_char (dec_digit n) = int (48 + n)" by (simp, metis of_nat_of_char)
  then show ?thesis using \<open>n < 10\<close> by (simp add: digit_value_def of_char_digit)
qed

lemma show_nat_digits: "show_nat n \<noteq> [] \<and> list_all is_digit (show_nat n) \<and> digits_value (show_nat n) = int n"
proof (induction n rule: show_nat.induct)
  case (1 n)
  show ?case
  proof (cases "n < 10")
    case True
    then show ?thesis using dec_digit [of n] by (simp add: show_nat.simps [of n] digits_value_def)
  next
    case False
    have "int n = int (n div 10) * 10 + int (n mod 10)" by (metis div_mult_mod_eq of_nat_add of_nat_mult of_nat_numeral)
    then show ?thesis using False 1 dec_digit [of "n mod 10"]
      by (simp add: show_nat.simps [of n] digits_value_def)
  qed
qed

lemma scan_int_end:
  assumes "list_all is_digit ds" "ds \<noteq> []"
  shows "scan_int ds = Some (digits_value ds, [])" "scan_int (CHR ''-'' # ds) = Some (- digits_value ds, [])"
proof -
  obtain c ds' where ds: "ds = c # ds'" using assms(2) by (cases ds) auto
  have c: "is_digit c" using assms(1) by (simp add: ds)
  then have n: "\<not> is_space c" "c \<noteq> CHR ''-''" "c \<noteq> CHR ''+''" by (auto simp: is_space_def of_char_digit)
  have d: "\<forall>x \<in> set ds'. is_digit x" using assms(1) by (simp add: ds list_all_iff)
  have m: "\<not> is_space CHR ''-''" by code_simp
  show "scan_int ds = Some (digits_value ds, [])" "scan_int (CHR ''-'' # ds) = Some (- digits_value ds, [])"
    using n m d c unfolding scan_int_def ds by (simp_all add: takeWhile_eq_all_conv [THEN iffD2])
qed

lemma scan_show_int: "scan_int (show_int i) = Some (i, [])"
  using show_nat_digits [of "nat i"] show_nat_digits [of "nat (- i)"]
  by (simp add: show_int_def scan_int_end)

lemma show_nat_length: "n < 10 ^ Suc k \<Longrightarrow> length (show_nat n) \<le> Suc k"
proof (induction k arbitrary: n)
  case (Suc k)
  have "n div 10 < 10 ^ Suc k" using Suc.prems by (simp add: less_mult_imp_div_less)
  then show ?case using Suc.IH [of "n div 10"] by (simp add: show_nat.simps [of n])
qed (simp add: show_nat.simps)

lemma show_int_length:
  assumes "- (2 ^ 63) \<le> i" "i < 2 ^ 63"
  shows "length (show_int i) \<le> 20"
proof -
  have "abs i < 10 ^ Suc 18" using assms by (simp add: abs_if)
  then have "nat (abs i) < 10 ^ Suc 18" by (simp add: nat_less_iff)
  from show_nat_length [OF this] show ?thesis using assms by (auto simp: show_int_def abs_if split: if_splits)
qed

end
