(* ===== verification/Http_Rules.thy ===== *)
theory Http_Rules
  imports Decimal "HOL-Library.Monad_Syntax"
begin

text \<open>
  The pure rules of \<^verbatim>\<open>src/http_cache.c\<close>: HTTP dates, \<^verbatim>\<open>Cache-Control\<close>, what may be stored and how long a stored
  response is fresh. Times are seconds since 1970 as \<open>int\<close>; a date that does not parse is \<open>None\<close>.
\<close>

section \<open>Model\<close>

definition HC_VAL_MAX :: nat where "HC_VAL_MAX = 256"
definition HC_URL_MAX :: nat where "HC_URL_MAX = 2048"
definition HC_TYPE_MAX :: nat where "HC_TYPE_MAX = 128"
definition HC_MAX_ENTRY :: nat where "HC_MAX_ENTRY = 8 * 1024 * 1024"
definition HC_HEURISTIC_CAP :: int where "HC_HEURISTIC_CAP = 24 * 3600"
definition HC_MAX_AGE_CAP :: int where "HC_MAX_AGE_CAP = 31536000"

datatype hc_class = HC_UNUSABLE | HC_FRESH | HC_REVALIDATE

record hc_meta =
  hm_final_url :: string
  hm_content_type :: string
  hm_etag :: string
  hm_last_modified :: string
  hm_cache_control :: string
  hm_expires :: string
  hm_date :: string
  hm_stored :: int

subsection \<open>Dates\<close>

definition is_leap :: "int \<Rightarrow> bool" where
  "is_leap y \<longleftrightarrow> (y mod 4 = 0 \<and> y mod 100 \<noteq> 0) \<or> y mod 400 = 0"

definition days_in_month :: "int \<Rightarrow> int \<Rightarrow> int" where
  "days_in_month y m =
     (if m = 2 \<and> is_leap y then 29
      else [31, 28, 31, 30, 31, 30, 31, 31, 30, 31, 30, 31] ! nat (m - 1))"

text \<open>The division of the era truncates towards zero.\<close>

definition days_from_civil :: "int \<Rightarrow> int \<Rightarrow> int \<Rightarrow> int" where
  "days_from_civil y0 m d =
     (let y = (if m \<le> 2 then y0 - 1 else y0);
          era = (if y \<ge> 0 then y div 400 else - ((399 - y) div 400));
          yoe = y - era * 400;
          doy = (153 * (m + (if m > 2 then -3 else 9)) + 2) div 5 + d - 1;
          doe = yoe * 365 + yoe div 4 - yoe div 100 + doy in
      era * 146097 + doe - 719468)"

text \<open>The other conversions of \<^verbatim>\<open>sscanf\<close> that the date format uses.\<close>

definition scan_word :: "nat \<Rightarrow> string \<Rightarrow> (string \<times> string) option" where
  "scan_word n s =
     (let t = dropWhile is_space s; w = take n (takeWhile (\<lambda>c. \<not> is_space c) t) in
      if w = [] then None else Some (w, drop (length w) t))"

fun scan_lit :: "char \<Rightarrow> string \<Rightarrow> string option" where
  "scan_lit c (x # s) = (if x = c then Some s else None)"
| "scan_lit c [] = None"

definition scan_date :: "string \<Rightarrow> (int \<times> string \<times> int \<times> int \<times> int \<times> int) option" where
  "scan_date s0 = do {
     (d, s1) \<leftarrow> scan_int s0;
     (mon, s2) \<leftarrow> scan_word 3 s1;
     (y, s3) \<leftarrow> scan_int s2;
     (hh, s4) \<leftarrow> scan_int s3;
     s5 \<leftarrow> scan_lit CHR '':'' s4;
     (mm, s6) \<leftarrow> scan_int s5;
     s7 \<leftarrow> scan_lit CHR '':'' s6;
     (ss, s8) \<leftarrow> scan_int s7;
     Some (d, mon, y, hh, mm, ss) }"

definition month_names :: "string list" where
  "month_names = [''Jan'', ''Feb'', ''Mar'', ''Apr'', ''May'', ''Jun'', ''Jul'', ''Aug'', ''Sep'', ''Oct'', ''Nov'', ''Dec'']"

definition month_number :: "string \<Rightarrow> int" where
  "month_number mon = foldl (\<lambda>m i. if lower_str mon = lower_str (month_names ! i) then int i + 1 else m) 0 [0..<12]"

definition date_seconds :: "int \<times> string \<times> int \<times> int \<times> int \<times> int \<Rightarrow> int option" where
  "date_seconds t =
     (case t of (d, mon, y, hh, mm, ss) \<Rightarrow>
        let m = month_number mon in
        if m = 0 \<or> y < 1970 \<or> y > 9999 \<or> d < 1 \<or> d > days_in_month y m
          \<or> hh < 0 \<or> hh > 23 \<or> mm < 0 \<or> mm > 59 \<or> ss < 0 \<or> ss > 60 then None
        else Some (days_from_civil y m d * 86400 + hh * 3600 + mm * 60 + ss))"

fun hc_parse_http_date :: "cptr \<Rightarrow> int option" where
  "hc_parse_http_date None = None"
| "hc_parse_http_date (Some s) =
     (if CHR '','' \<notin> set s then None
      else case scan_date (drop 1 (dropWhile (\<lambda>c. c \<noteq> CHR '','') s)) of
          None \<Rightarrow> None
        | Some t \<Rightarrow> date_seconds t)"

subsection \<open>Cache-Control\<close>

definition cc_blank :: "char \<Rightarrow> bool" where
  "cc_blank c \<longleftrightarrow> c = CHR '' '' \<or> c = CHR 0x09"

definition cc_token_char :: "char \<Rightarrow> bool" where
  "cc_token_char c \<longleftrightarrow> c \<noteq> CHR '','' \<and> c \<noteq> CHR ''='' \<and> \<not> cc_blank c"

text \<open>\<open>None\<close> if the directive is absent, otherwise its value: what follows an equals sign, if there is one.\<close>

function cc_find :: "string \<Rightarrow> string \<Rightarrow> cptr option" where
  "cc_find cc name =
     (if cc = [] then None
      else
        let p = dropWhile (\<lambda>c. c = CHR '','' \<or> cc_blank c) cc;
            e = dropWhile cc_token_char p in
        if lower_str (takeWhile cc_token_char p) = lower_str name
        then Some (if take 1 e = ''='' then Some (drop 1 e) else None)
        else cc_find (dropWhile (\<lambda>c. c \<noteq> CHR '','') e) name)"
  by pat_completeness auto
termination
proof (relation "measure (length \<circ> fst)", goal_cases)
  case (2 cc name p e)
  obtain c r where cc: "cc = c # r" using 2(1) by (cases cc) auto
  have "length (dropWhile (\<lambda>c. c \<noteq> CHR '','') (dropWhile cc_token_char (dropWhile f r))) \<le> length r" for f
    by (meson length_dropWhile_le order_trans)
  moreover have "length (dropWhile (\<lambda>c. c \<noteq> CHR '','') (dropWhile cc_token_char r)) \<le> length r"
    by (meson length_dropWhile_le order_trans)
  ultimately show ?case using 2(2,3) length_dropWhile_le [of "\<lambda>c. c \<noteq> CHR '',''" r]
    by (auto simp: cc less_Suc_eq_le cc_token_char_def)
qed simp

declare cc_find.simps [simp del]

fun age_digits :: "int \<Rightarrow> string \<Rightarrow> int" where
  "age_digits n [] = n"
| "age_digits n (c # v) =
     (if is_digit c then
        let n' = n * 10 + digit_value c in
        if n' > HC_MAX_AGE_CAP then HC_MAX_AGE_CAP else age_digits n' v
      else n)"

definition cc_max_age :: "string \<Rightarrow> int option" where
  "cc_max_age cc =
     (case cc_find cc ''max-age'' of
        Some (Some v0) \<Rightarrow>
          let v = (if take 1 v0 = [CHR 0x22] then drop 1 v0 else v0) in
          if v = [] \<or> \<not> is_digit (hd v) then None else Some (age_digits 0 v)
      | _ \<Rightarrow> None)"

subsection \<open>Decisions\<close>

definition hc_storable :: "int \<Rightarrow> hc_meta \<Rightarrow> nat \<Rightarrow> bool" where
  "hc_storable http_code m body_len =
     (if http_code \<noteq> 200 \<or> body_len > HC_MAX_ENTRY then False
      else if cc_find (hm_cache_control m) ''no-store'' \<noteq> None then False
      else hm_etag m \<noteq> [] \<or> hm_last_modified m \<noteq> [] \<or> hm_expires m \<noteq> []
        \<or> (case cc_max_age (hm_cache_control m) of Some ma \<Rightarrow> ma > 0 | None \<Rightarrow> False))"

definition hc_lifetime :: "hc_meta \<Rightarrow> int" where
  "hc_lifetime m =
     (if cc_find (hm_cache_control m) ''no-cache'' \<noteq> None then 0
      else case cc_max_age (hm_cache_control m) of
          Some ma \<Rightarrow> ma
        | None \<Rightarrow>
          let date = (case hc_parse_http_date (Some (hm_date m)) of Some t \<Rightarrow> t | None \<Rightarrow> hm_stored m) in
          if hm_expires m \<noteq> [] then
            (case hc_parse_http_date (Some (hm_expires m)) of
              None \<Rightarrow> 0
            | Some ex \<Rightarrow>
              if ex \<le> date then 0
              else if ex - date > HC_MAX_AGE_CAP then HC_MAX_AGE_CAP else ex - date)
          else
            (case hc_parse_http_date (Some (hm_last_modified m)) of
              None \<Rightarrow> 0
            | Some lm \<Rightarrow>
              if date > lm then
                let h = (date - lm) div 10 in
                if h > HC_HEURISTIC_CAP then HC_HEURISTIC_CAP else h
              else 0))"

definition hc_classify :: "hc_meta \<Rightarrow> int \<Rightarrow> hc_class" where
  "hc_classify m now =
     (let age = (if now - hm_stored m < 0 then 0 else now - hm_stored m) in
      if age < hc_lifetime m then HC_FRESH
      else if hm_etag m \<noteq> [] \<or> hm_last_modified m \<noteq> [] then HC_REVALIDATE
      else HC_UNUSABLE)"

section \<open>The calendar\<close>

text \<open>The reference: count the days of the years since 1970, of the months before, and of the month.\<close>

definition year_days :: "int \<Rightarrow> int" where
  "year_days y = (if is_leap y then 366 else 365)"

definition calendar_days :: "int \<Rightarrow> int \<Rightarrow> int \<Rightarrow> int" where
  "calendar_days y m d = sum_list (map year_days [1970..y - 1]) + sum_list (map (days_in_month y) [1..m - 1]) + d - 1"

definition leap_count :: "int \<Rightarrow> int" where
  "leap_count y = y div 4 - y div 100 + y div 400"

lemma days_from_civil_eq:
  assumes "1 \<le> y0"
  shows "days_from_civil y0 m d = (let y = (if m \<le> 2 then y0 - 1 else y0) in
    365 * y + leap_count y + (153 * (m + (if m > 2 then -3 else 9)) + 2) div 5 + d - 1 - 719468)"
proof -
  define y where "y = (if m \<le> 2 then y0 - 1 else y0)"
  define q r where "q = y div 400" and "r = y - q * 400"
  have y: "y = 400 * q + r" "0 \<le> y" using assms by (auto simp: r_def y_def)
  have "y div 4 = 100 * q + r div 4" "y div 100 = 4 * q + r div 100"
    unfolding y(1) by simp_all
  then show ?thesis using y(2) unfolding days_from_civil_def Let_def y_def [symmetric]
    by (simp add: leap_count_def q_def [symmetric] r_def [symmetric]) (simp add: y(1))
qed

lemma div_step:
  assumes "0 < (k :: int)"
  shows "y div k - (y - 1) div k = of_bool (y mod k = 0)"
proof (cases "y mod k = 0")
  case True
  then have "y - 1 = k * (y div k - 1) + (k - 1)" using mult_div_mod_eq [of k y] by (simp add: algebra_simps)
  then have "(y - 1) div k = y div k - 1" by (rule int_div_pos_eq) (use assms in auto)
  then show ?thesis using True by simp
next
  case False
  then have eq: "y - 1 = k * (y div k) + (y mod k - 1)" by simp
  have "0 < y mod k" "y mod k < k" using False pos_mod_sign [OF assms, of y] pos_mod_bound [OF assms, of y] by linarith+
  then have "(y - 1) div k = y div k" by (intro int_div_pos_eq [OF eq]) simp_all
  then show ?thesis using False by simp
qed

lemma leap_count_step: "leap_count y - leap_count (y - 1) = of_bool (is_leap y)"
proof -
  have "leap_count y - leap_count (y - 1) = of_bool (y mod 4 = 0) - of_bool (y mod 100 = 0) + of_bool (y mod 400 = 0)"
  proof -
    have "a - a' = p \<Longrightarrow> b - b' = q \<Longrightarrow> c - c' = r \<Longrightarrow> (a - b + c) - (a' - b' + c') = p - q + r" for a a' b b' c c' p q r :: int
      by simp
    from this [OF div_step div_step div_step] show ?thesis unfolding leap_count_def by simp
  qed
  moreover have "100 dvd y" if "400 dvd y" using that by (rule dvd_trans [rotated]) simp
  moreover have "4 dvd y" if "100 dvd y" using that by (rule dvd_trans [rotated]) simp
  ultimately show ?thesis unfolding is_leap_def dvd_eq_mod_eq_0
    by (cases "y mod 4 = 0"; cases "y mod 100 = 0"; cases "y mod 400 = 0") simp_all
qed

lemma year_starts:
  assumes "1970 \<le> y"
  shows "365 * (y - 1) + leap_count (y - 1) + 306 - 719468 = sum_list (map year_days [1970..y - 1])"
  using assms
proof (induction y rule: int_ge_induct)
  case (step y)
  have "[1970..y + 1 - 1] = [1970..y - 1] @ [y]" using step.hyps by (simp add: upto_rec2)
  moreover have "year_days y = 365 + (leap_count y - leap_count (y - 1))"
    by (simp add: leap_count_step year_days_def)
  ultimately show ?case using step.IH by simp
qed (simp add: leap_count_def)

lemma month_starts:
  assumes "1 \<le> m" "m \<le> 12"
  shows "sum_list (map (days_in_month y) [1..m - 1]) =
    (153 * (m + (if m > 2 then -3 else 9)) + 2) div 5 - 306 + (if m \<le> 2 then 0 else 365 + of_bool (is_leap y))"
proof -
  have "m = 1 \<or> m = 2 \<or> m = 3 \<or> m = 4 \<or> m = 5 \<or> m = 6 \<or> m = 7 \<or> m = 8 \<or> m = 9 \<or> m = 10 \<or> m = 11 \<or> m = 12"
    using assms by presburger
  then show ?thesis
    by (elim disjE; hypsubst) (simp_all add: days_in_month_def upto_rec1)
qed

lemma days_from_civil_calendar:
  assumes "1970 \<le> y" and "1 \<le> m" "m \<le> 12"
  shows "days_from_civil y m d = calendar_days y m d"
proof -
  have "1 \<le> y" using assms(1) by simp
  then show ?thesis using year_starts [OF assms(1)] month_starts [OF assms(2,3), of y] leap_count_step [of y]
    by (cases "m \<le> 2") (simp_all add: days_from_civil_eq calendar_days_def Let_def)
qed

section \<open>The date format\<close>

definition two_digits :: "nat \<Rightarrow> string" where
  "two_digits n = [dec_digit (n div 10), dec_digit (n mod 10)]"

definition imf_date :: "string \<Rightarrow> nat \<Rightarrow> nat \<Rightarrow> nat \<Rightarrow> nat \<Rightarrow> nat \<Rightarrow> nat \<Rightarrow> string" where
  "imf_date wd d m y hh mm ss =
     wd @ CHR '','' # CHR '' '' # two_digits d @ CHR '' '' # month_names ! (m - 1) @ CHR '' '' # two_digits (y div 100) @ two_digits (y mod 100)
     @ CHR '' '' # two_digits hh @ CHR '':'' # two_digits mm @ CHR '':'' # two_digits ss @ '' GMT''"

lemma two_digits:
  assumes "n < 100"
  shows "list_all is_digit (two_digits n)" "two_digits n \<noteq> []" "digits_value (two_digits n) = int n"
  using assms dec_digit [of "n div 10"] dec_digit [of "n mod 10"]
  by (simp_all add: two_digits_def digits_value_def) (metis div_mult_mod_eq of_nat_add of_nat_mult of_nat_numeral)

lemma four_digits:
  assumes "n < 10000"
  shows "digits_value (two_digits (n div 100) @ two_digits (n mod 100)) = int n"
proof -
  have n: "n div 100 < 100" "n mod 100 < 100" using assms by simp_all
  have v: "digits_value (a @ [x, y]) = digits_value a * 100 + digits_value [x, y]" for a x y
    by (simp add: digits_value_def)
  show ?thesis unfolding two_digits_def [of "n mod 100"] v
    unfolding two_digits_def [of "n mod 100", symmetric] two_digits(3) [OF n(1)] two_digits(3) [OF n(2)]
    by (metis div_mult_mod_eq of_nat_add of_nat_mult of_nat_numeral)
qed

lemma scan_int_digits:
  assumes "list_all is_digit ds" "ds \<noteq> []" "r \<noteq> []" "\<not> is_digit (hd r)" "list_all is_space ws"
  shows "scan_int (ws @ ds @ r) = Some (digits_value ds, r)"
proof -
  obtain c ds' where ds: "ds = c # ds'" using assms(2) by (cases ds) auto
  obtain x r' where r: "r = x # r'" using assms(3) by (cases r) auto
  have c: "is_digit c" using assms(1) by (simp add: ds)
  have "\<not> is_space c" "c \<noteq> CHR ''-''" "c \<noteq> CHR ''+''" using c by (auto simp: is_space_def of_char_digit)
  then have "dropWhile is_space (ws @ ds @ r) = ds @ r" "scan_sign (ds @ r) = (1, ds @ r)"
    using assms(5) by (auto simp: ds list_all_iff dropWhile_append)
  moreover have "takeWhile is_digit (ds @ r) = ds" "dropWhile is_digit (ds @ r) = r"
    using assms(1,4) by (auto simp: r list_all_iff takeWhile_append dropWhile_append)
  ultimately show ?thesis using assms(2) by (simp add: scan_int_def)
qed

lemma month_names: "i < 12 \<Longrightarrow> length (month_names ! i) = 3 \<and> list_all (\<lambda>c. \<not> is_space c) (month_names ! i)
    \<and> month_number (month_names ! i) = int i + 1"
proof -
  have "list_all (\<lambda>i. length (month_names ! i) = 3 \<and> list_all (\<lambda>c. \<not> is_space c) (month_names ! i)
    \<and> month_number (month_names ! i) = int i + 1) [0..<12]" by code_simp
  then show "i < 12 \<Longrightarrow> ?thesis" by (simp add: list_all_iff)
qed

lemma scan_word_month:
  assumes "length w = 3" "list_all (\<lambda>c. \<not> is_space c) w"
  shows "scan_word 3 (CHR '' '' # w @ CHR '' '' # r) = Some (w, CHR '' '' # r)"
proof -
  have "dropWhile is_space (CHR '' '' # w @ CHR '' '' # r) = w @ CHR '' '' # r"
    using assms by (cases w) (auto simp: is_space_def)
  moreover have "takeWhile (\<lambda>c. \<not> is_space c) (w @ CHR '' '' # r) = w"
    using assms(2) by (auto simp: list_all_iff takeWhile_append is_space_def)
  ultimately show ?thesis using assms(1) by (auto simp: scan_word_def)
qed

lemma scan_imf_date:
  assumes "d < 100" "length w = 3" "list_all (\<lambda>c. \<not> is_space c) w" "y < 10000" "hh < 100" "mm < 100" "ss < 100"
  shows "scan_date (CHR '' '' # two_digits d @ CHR '' '' # w @ CHR '' '' # two_digits (y div 100) @ two_digits (y mod 100)
     @ CHR '' '' # two_digits hh @ CHR '':'' # two_digits mm @ CHR '':'' # two_digits ss @ '' GMT'')
    = Some (int d, w, int y, int hh, int mm, int ss)"
proof -
  have sp: "list_all is_space [CHR '' '']" and nd: "\<not> is_digit CHR '' ''" "\<not> is_digit CHR '':''" by code_simp+
  have sc: "scan_int (CHR '' '' # ds @ CHR '' '' # r) = Some (digits_value ds, CHR '' '' # r)"
    "scan_int (CHR '' '' # ds @ CHR '':'' # r) = Some (digits_value ds, CHR '':'' # r)"
    "scan_int (ds @ CHR '':'' # r) = Some (digits_value ds, CHR '':'' # r)"
    "scan_int (ds @ CHR '' '' # r) = Some (digits_value ds, CHR '' '' # r)" if "list_all is_digit ds" "ds \<noteq> []" for ds r
    using that scan_int_digits [of ds "CHR '' '' # r" "[CHR '' '']"] scan_int_digits [of ds "CHR '':'' # r" "[CHR '' '']"]
      scan_int_digits [of ds "CHR '':'' # r" "[]"] scan_int_digits [of ds "CHR '' '' # r" "[]"] sp nd by simp_all
  have y: "list_all is_digit (two_digits (y div 100) @ two_digits (y mod 100))" "two_digits (y div 100) @ two_digits (y mod 100) \<noteq> []"
    using two_digits [of "y div 100"] two_digits [of "y mod 100"] assms(4) by auto
  note td = two_digits [OF assms(1)] two_digits [OF assms(5)] two_digits [OF assms(6)] two_digits [OF assms(7)]
  show ?thesis unfolding scan_date_def
    using sc(1) [OF td(1,2)] sc(1) [OF y] sc(2) [OF td(4,5)] sc(3) [OF td(7,8)] sc(4) [OF td(10,11)]
    by (simp add: scan_word_month assms(2,3) td four_digits assms(4))
qed

text \<open>A date in the format of HTTP is read as the seconds since 1970 that counting the days of the years,
  the months and the month gives, for every valid day and time of the years 1970 to 9999.\<close>

theorem hc_parse_http_date_calendar:
  assumes "CHR '','' \<notin> set wd" and "1970 \<le> y" "y \<le> 9999" "1 \<le> m" "m \<le> 12" "1 \<le> d" "int d \<le> days_in_month (int y) (int m)"
    and "hh \<le> 23" "mm \<le> 59" "ss \<le> 60"
  shows "hc_parse_http_date (Some (imf_date wd d m y hh mm ss)) =
    Some (calendar_days (int y) (int m) (int d) * 86400 + int hh * 3600 + int mm * 60 + int ss)"
proof -
  have "days_in_month (int y) (int m) \<le> 31"
  proof -
    have "list_all (\<lambda>n. n \<le> 31) [31, 28, 31, 30, 31, 30, 31, 31, 30, 31, 30, 31 :: int]" by simp
    moreover have "nat (int m - 1) < 12" using assms(5) by simp
    ultimately show ?thesis unfolding days_in_month_def list_all_length by simp
  qed
  then have "d < 100" using assms(7) by simp
  then have "hc_parse_http_date (Some (imf_date wd d m y hh mm ss))
      = date_seconds (int d, month_names ! (m - 1), int y, int hh, int mm, int ss)"
    using assms month_names [of "m - 1"] by (simp add: imf_date_def scan_imf_date)
  also have "\<dots> = Some (days_from_civil (int y) (int m) (int d) * 86400 + int hh * 3600 + int mm * 60 + int ss)"
    using assms month_names [of "m - 1"] by (simp add: date_seconds_def Let_def)
  finally show ?thesis using days_from_civil_calendar [of "int y" "int m"] assms by simp
qed

theorem hc_parse_http_date_calendar_witness:
  "hc_parse_http_date (Some (imf_date ''Sun'' 6 11 1994 8 49 37)) = Some (calendar_days 1994 11 6 * 86400 + 8 * 3600 + 49 * 60 + 37)
   \<and> imf_date ''Sun'' 6 11 1994 8 49 37 = ''Sun, 06 Nov 1994 08:49:37 GMT''"
proof -
  have "imf_date ''Sun'' 6 11 1994 8 49 37 = ''Sun, 06 Nov 1994 08:49:37 GMT''" by code_simp
  with hc_parse_http_date_calendar [of "''Sun''" 1994 11 6 8 49 37] show ?thesis
    by (simp add: days_in_month_def)
qed

section \<open>Freshness\<close>

lemma age_digits_bounds: "0 \<le> n \<Longrightarrow> n \<le> HC_MAX_AGE_CAP \<Longrightarrow> 0 \<le> age_digits n v \<and> age_digits n v \<le> HC_MAX_AGE_CAP"
proof (induction n v rule: age_digits.induct)
  case (2 n c v)
  have "0 \<le> digit_value c" if "is_digit c"
  proof -
    have "(48 :: nat) \<le> of_char c" using that by (simp add: of_char_digit)
    then have "(48 :: int) \<le> of_char c" by (metis of_nat_le_iff of_nat_numeral of_nat_of_char)
    then show ?thesis by (simp add: digit_value_def)
  qed
  then show ?case using 2 by (auto simp: Let_def HC_MAX_AGE_CAP_def)
qed simp

lemma cc_max_age_bounds: "cc_max_age cc = Some ma \<Longrightarrow> 0 \<le> ma \<and> ma \<le> HC_MAX_AGE_CAP"
  using age_digits_bounds [of 0]
  by (auto simp: cc_max_age_def Let_def HC_MAX_AGE_CAP_def split: option.splits if_splits)

lemma hc_lifetime_bounds: "0 \<le> hc_lifetime m \<and> hc_lifetime m \<le> HC_MAX_AGE_CAP"
proof -
  have cap: "HC_HEURISTIC_CAP \<le> HC_MAX_AGE_CAP" "0 \<le> HC_MAX_AGE_CAP" "0 \<le> HC_HEURISTIC_CAP"
    by (simp_all add: HC_HEURISTIC_CAP_def HC_MAX_AGE_CAP_def)
  have explicit: "0 \<le> (case x of None \<Rightarrow> 0 | Some ex \<Rightarrow> if ex \<le> d then 0 else if ex - d > HC_MAX_AGE_CAP then HC_MAX_AGE_CAP else ex - d)
      \<and> (case x of None \<Rightarrow> 0 | Some ex \<Rightarrow> if ex \<le> d then 0 else if ex - d > HC_MAX_AGE_CAP then HC_MAX_AGE_CAP else ex - d) \<le> HC_MAX_AGE_CAP"
    for x d using cap(2) by (cases x) auto
  have heuristic: "0 \<le> (case x of None \<Rightarrow> 0 | Some lm \<Rightarrow> if d > lm then let h = (d - lm) div 10 in if h > HC_HEURISTIC_CAP then HC_HEURISTIC_CAP else h else 0)
      \<and> (case x of None \<Rightarrow> 0 | Some lm \<Rightarrow> if d > lm then let h = (d - lm) div 10 in if h > HC_HEURISTIC_CAP then HC_HEURISTIC_CAP else h else 0) \<le> HC_MAX_AGE_CAP"
    for x d using cap by (cases x) (auto simp: Let_def)
  show ?thesis
  proof (cases "cc_max_age (hm_cache_control m)")
    case None
    then show ?thesis unfolding hc_lifetime_def using cap(2) explicit heuristic
      by (simp only: option.case if_split Let_def order_refl conj_ac simp_thms) simp
  next
    case (Some ma)
    then show ?thesis unfolding hc_lifetime_def using cap(2) cc_max_age_bounds [OF Some] by simp
  qed
qed

lemma hc_classify_fresh:
  assumes "hc_classify m now = HC_FRESH"
  shows "cc_find (hm_cache_control m) ''no-cache'' = None \<and> now - hm_stored m < hc_lifetime m \<and> 0 < hc_lifetime m"
proof -
  have "hc_lifetime m = 0" if "cc_find (hm_cache_control m) ''no-cache'' \<noteq> None"
    using that unfolding hc_lifetime_def by simp
  moreover have "now - hm_stored m < hc_lifetime m \<and> 0 < hc_lifetime m"
    using assms by (auto simp: hc_classify_def Let_def split: if_splits)
  ultimately show ?thesis by (cases "cc_find (hm_cache_control m) ''no-cache''") auto
qed

end
