(* ===== verification/Http_Cache.thy ===== *)
theory Http_Cache
  imports Http_Rules "HOL-Library.AList" "HOL-Library.Word"
begin

text \<open>
  The store of \<^verbatim>\<open>src/http_cache.c\<close>: a directory of sealed entries named by a keyed hash. The directory is the
  list of its files in the order a scan meets them; the keyed hash of OpenSSL, the sealing of
  \<^verbatim>\<open>pq_seal.c\<close>, the sealed key file of \<^verbatim>\<open>disk_store.c\<close>, the clock and the failures of memory and disk are
  parameters, collected in \<open>hc_env\<close>. A directory path is shorter than 960 bytes and a name than 256, so
  that no path is ever cut. Calls are serialised by the lock of the store.
\<close>

section \<open>Model\<close>

datatype hc_status = HC_OK | HC_MISS | HC_ERR_ARG | HC_ERR_IO | HC_ERR_CRYPTO | HC_ERR_OOM | HC_ERR_TOO_LARGE

datatype pqs_status = PQS_OK | PQS_ERR_NULL_ARG | PQS_ERR_CRYPTO | PQS_ERR_FORMAT | PQS_ERR_AUTH
  | PQS_ERR_TOO_LARGE | PQS_ERR_OOM

definition HC_MAX_TOTAL :: nat where "HC_MAX_TOTAL = 128 * 1024 * 1024"
definition HC_REDIRECT_TTL :: int where "HC_REDIRECT_TTL = 30 * 24 * 3600"
definition HC_KEY_FILE :: string where "HC_KEY_FILE = ''pq.key''"
definition HC_MAGIC :: string where "HC_MAGIC = ''FHC1'' @ [CHR 0x0A]"
definition HC_EVICT_EVERY :: "32 word" where "HC_EVICT_EVERY = 16"

type_synonym pqs_keys = string

record hc_file =
  hf_data :: string
  hf_mtime :: int

type_synonym hc_dir = "(string \<times> hc_file) list"

record hc_env =
  env_alloc :: allocator
  env_hmac :: "string \<Rightarrow> string \<Rightarrow> cptr"
  env_seal :: "pqs_keys \<Rightarrow> string \<Rightarrow> string \<Rightarrow> pqs_status + string"
  env_open :: "pqs_keys \<Rightarrow> string \<Rightarrow> string \<Rightarrow> cptr"
  env_write :: "string \<Rightarrow> bool"
  env_mtime :: int
  env_mkdir :: bool
  env_derive :: "string \<Rightarrow> cptr"
  env_import :: "string \<Rightarrow> string \<Rightarrow> pqs_keys option"
  env_generate :: "pqs_keys option"
  env_export :: "pqs_keys \<Rightarrow> string \<Rightarrow> cptr"

record hc_store =
  hs_wrap :: string
  hs_name_key :: string
  hs_keys :: pqs_keys
  hs_puts :: "32 word"
  hs_files :: hc_dir

subsection \<open>Files\<close>

definition hex_of :: "string \<Rightarrow> string" where
  "hex_of b = concat (map (\<lambda>c. [''0123456789abcdef'' ! (of_char c div 16), ''0123456789abcdef'' ! (of_char c mod 16)]) b)"

text \<open>The name of an entry, \<open>None\<close> if it has none.\<close>

definition entry_path :: "hc_env \<Rightarrow> hc_store \<Rightarrow> char \<Rightarrow> string \<Rightarrow> string \<Rightarrow> string option" where
  "entry_path env s kind part url =
     (if length part > HC_URL_MAX \<or> length url > HC_URL_MAX then None
      else case env_hmac env (hs_name_key s) ([kind, NUL] @ part @ [NUL] @ url) of
          None \<Rightarrow> None
        | Some mac \<Rightarrow> if length mac \<noteq> 32 then None else Some (hex_of mac))"

definition skipped_name :: "string \<Rightarrow> bool" where
  "skipped_name n \<longleftrightarrow> take 1 n = ''.'' \<or> n = HC_KEY_FILE"

definition remove_entries :: "hc_dir \<Rightarrow> hc_dir" where
  "remove_entries d = filter (\<lambda>(n, f). skipped_name n) d"

definition unlink_entry :: "hc_store \<Rightarrow> string \<Rightarrow> hc_store" where
  "unlink_entry s name = s\<lparr>hs_files := AList.delete name (hs_files s)\<rparr>"

definition write_atomic :: "hc_env \<Rightarrow> hc_dir \<Rightarrow> string \<Rightarrow> string \<Rightarrow> hc_dir option" where
  "write_atomic env d name data =
     (if env_write env name then Some (AList.update name \<lparr> hf_data = data, hf_mtime = env_mtime env \<rparr> d) else None)"

definition read_file :: "hc_env \<Rightarrow> hc_dir \<Rightarrow> string \<Rightarrow> nat \<Rightarrow> string option" where
  "read_file env d name mx =
     (case map_of d name of
        None \<Rightarrow> None
      | Some f \<Rightarrow>
        if hf_data f = [] \<or> length (hf_data f) > mx then None
        else if \<not> env_alloc env (length (hf_data f)) then None
        else Some (hf_data f))"

subsection \<open>Opening the store\<close>

text \<open>The key file is read and imported if it can be; otherwise the directory is emptied and new keys are
  made and written. The result: the status, the directory and the store.\<close>

definition hc_open :: "hc_env \<Rightarrow> hc_dir \<Rightarrow> cptr \<Rightarrow> cptr \<Rightarrow> hc_status \<times> hc_dir \<times> hc_store option" where
  "hc_open env d dir wrap_opt =
     (case (dir, wrap_opt) of
        (Some path, Some wrap) \<Rightarrow>
          (if path = [] \<or> length path \<ge> 1024 - 64 then (HC_ERR_ARG, d, None)
           else if \<not> env_mkdir env then (HC_ERR_IO, d, None)
           else if \<not> env_alloc env 1200 then (HC_ERR_OOM, d, None)
           else case env_derive env wrap of
               None \<Rightarrow> (HC_ERR_CRYPTO, d, None)
             | Some nk \<Rightarrow>
               (case Option.bind (map_of d HC_KEY_FILE) (\<lambda>f. env_import env wrap (hf_data f)) of
                  Some k \<Rightarrow>
                    (HC_OK, d, Some \<lparr> hs_wrap = wrap, hs_name_key = nk, hs_keys = k, hs_puts = 0, hs_files = d \<rparr>)
                | None \<Rightarrow>
                  let d' = remove_entries d in
                  (case env_generate env of
                    None \<Rightarrow> (HC_ERR_CRYPTO, d', None)
                  | Some k \<Rightarrow>
                    (case Option.bind (env_export env k wrap) (write_atomic env d' HC_KEY_FILE) of
                      None \<Rightarrow> (HC_ERR_IO, d', None)
                    | Some d'' \<Rightarrow>
                      (HC_OK, d'', Some \<lparr> hs_wrap = wrap, hs_name_key = nk, hs_keys = k, hs_puts = 0, hs_files = d'' \<rparr>)))))
      | _ \<Rightarrow> (HC_ERR_ARG, d, None))"

subsection \<open>Entries\<close>

definition NL :: char where "NL = CHR 0x0A"

definition has_nl :: "string \<Rightarrow> bool" where
  "has_nl s \<longleftrightarrow> CHR 0x0D \<in> set s \<or> NL \<in> set s"

definition meta_fields :: "hc_meta \<Rightarrow> string list" where
  "meta_fields m = [hm_final_url m, hm_content_type m, hm_etag m, hm_last_modified m, hm_cache_control m, hm_expires m, hm_date m]"

definition meta_ok :: "hc_meta \<Rightarrow> bool" where
  "meta_ok m \<longleftrightarrow> list_all (\<lambda>f. \<not> has_nl f) (meta_fields m) \<and> hm_final_url m \<noteq> []"

definition HEAD_SIZE :: nat where
  "HEAD_SIZE = HC_URL_MAX + HC_TYPE_MAX + 5 * HC_VAL_MAX + 128"

definition entry_head :: "hc_meta \<Rightarrow> string" where
  "entry_head m = HC_MAGIC @ concat (map (\<lambda>f. f @ [NL]) (meta_fields m)) @ show_int (hm_stored m) @ [NL, NL]"

definition store_entry :: "hc_env \<Rightarrow> hc_store \<Rightarrow> string \<Rightarrow> hc_meta \<Rightarrow> string \<Rightarrow> hc_status \<times> hc_store" where
  "store_entry env s name m body =
     (let head = entry_head m in
      if length head \<ge> HEAD_SIZE then (HC_ERR_ARG, s)
      else if length body > HC_MAX_ENTRY then (HC_ERR_TOO_LARGE, s)
      else if \<not> env_alloc env (length head + length body) then (HC_ERR_OOM, s)
      else case env_seal env (hs_keys s) (hs_wrap s) (head @ body) of
          Inl ps \<Rightarrow> (if ps = PQS_ERR_OOM then HC_ERR_OOM else HC_ERR_CRYPTO, s)
        | Inr blob \<Rightarrow>
          (case write_atomic env (hs_files s) name blob of
            None \<Rightarrow> (HC_ERR_IO, s)
          | Some d \<Rightarrow> (HC_OK, s\<lparr>hs_files := d\<rparr>)))"

text \<open>Reading the lines of an entry: each below its capacity, each read as a C string.\<close>

fun parse_fields :: "nat list \<Rightarrow> string \<Rightarrow> (string list \<times> string) option" where
  "parse_fields [] p = Some ([], p)"
| "parse_fields (cap # caps) p =
     (let line = takeWhile (\<lambda>c. c \<noteq> NL) p in
      if NL \<notin> set p \<or> length line \<ge> cap then None
      else case parse_fields caps (drop (length line + 1) p) of
          None \<Rightarrow> None
        | Some (fs, r) \<Rightarrow> Some (takeWhile (\<lambda>c. c \<noteq> NUL) line # fs, r))"

definition clamp64 :: "int \<Rightarrow> int" where
  "clamp64 v = max (- (2 ^ 63)) (min (2 ^ 63 - 1) v)"

definition parse_stored :: "string \<Rightarrow> int option" where
  "parse_stored num =
     (case scan_int (takeWhile (\<lambda>c. c \<noteq> NUL) num) of
        Some (v, r) \<Rightarrow> if r = [] then Some (clamp64 v) else None
      | None \<Rightarrow> None)"

definition meta_of :: "string list \<Rightarrow> int \<Rightarrow> hc_meta" where
  "meta_of fs st = \<lparr> hm_final_url = fs ! 0, hm_content_type = fs ! 1, hm_etag = fs ! 2, hm_last_modified = fs ! 3,
     hm_cache_control = fs ! 4, hm_expires = fs ! 5, hm_date = fs ! 6, hm_stored = st \<rparr>"

definition field_caps :: "nat list" where
  "field_caps = [HC_URL_MAX, HC_TYPE_MAX, HC_VAL_MAX, HC_VAL_MAX, HC_VAL_MAX, HC_VAL_MAX, HC_VAL_MAX]"

definition parse_entry :: "string \<Rightarrow> (hc_meta \<times> string) option" where
  "parse_entry pt =
     (if take (length HC_MAGIC) pt \<noteq> HC_MAGIC then None
      else case parse_fields field_caps (drop (length HC_MAGIC) pt) of
          None \<Rightarrow> None
        | Some (fs, p) \<Rightarrow>
          (let num = takeWhile (\<lambda>c. c \<noteq> NL) p in
           if NL \<notin> set p \<or> length num > 20 then None
           else case parse_stored num of
               None \<Rightarrow> None
             | Some st \<Rightarrow>
               (let q = drop (length num + 1) p in
                if take 1 q \<noteq> [NL] then None else Some (meta_of fs st, drop 1 q))))"

text \<open>The result: the status, the store, the meta data and the body; a caller that wants no body asks for
  no memory for it.\<close>

definition blank_meta :: hc_meta where
  "blank_meta = meta_of (replicate 7 []) 0"

definition load_entry :: "hc_env \<Rightarrow> hc_store \<Rightarrow> string \<Rightarrow> bool \<Rightarrow> hc_status \<times> hc_store \<times> hc_meta \<times> string" where
  "load_entry env s name want_body =
     (case read_file env (hs_files s) name (HC_MAX_ENTRY + 16384) of
        None \<Rightarrow> (HC_MISS, s, blank_meta, [])
      | Some blob \<Rightarrow>
        (case Option.bind (env_open env (hs_keys s) (hs_wrap s) blob) parse_entry of
          None \<Rightarrow> (HC_MISS, unlink_entry s name, blank_meta, [])
        | Some (m, body) \<Rightarrow>
          if want_body \<and> \<not> env_alloc env (length body + 1) then (HC_ERR_OOM, s, m, [])
          else (HC_OK, s, m, if want_body then body else [])))"

fun hc_get :: "hc_env \<Rightarrow> hc_store \<Rightarrow> cptr \<Rightarrow> cptr \<Rightarrow> hc_status \<times> hc_store \<times> hc_meta \<times> string" where
  "hc_get env s (Some part) (Some url) =
     (case entry_path env s CHR ''c'' part url of
        None \<Rightarrow> (HC_ERR_ARG, s, blank_meta, [])
      | Some name \<Rightarrow> load_entry env s name True)"
| "hc_get env s _ _ = (HC_ERR_ARG, s, blank_meta, [])"

subsection \<open>Eviction\<close>

text \<open>The files found: time, size and name. The array starts with 256 places of 96 bytes and doubles; the
  scan ends where it cannot grow.\<close>

fun collect :: "allocator \<Rightarrow> nat \<Rightarrow> (int \<times> nat \<times> string) list \<Rightarrow> hc_dir \<Rightarrow> (int \<times> nat \<times> string) list" where
  "collect alloc cap v [] = v"
| "collect alloc cap v ((n, f) # d) =
     (if skipped_name n \<or> length n \<ge> 80 then collect alloc cap v d
      else if length v = cap \<and> \<not> alloc (cap * 2 * 96) then v
      else collect alloc (if length v = cap then cap * 2 else cap) (v @ [(hf_mtime f, length (hf_data f), n)]) d)"

definition oldest :: "(int \<times> nat \<times> string) list \<Rightarrow> nat" where
  "oldest v = foldl (\<lambda>b i. if fst (v ! i) < fst (v ! b) then i else b) 0 [1..<length v]"

fun total_size :: "(int \<times> nat \<times> string) list \<Rightarrow> nat" where
  "total_size [] = 0"
| "total_size ((mt, sz, n) # v) = sz + total_size v"

function evict_loop :: "nat \<Rightarrow> (int \<times> nat \<times> string) list \<Rightarrow> nat \<Rightarrow> hc_store \<Rightarrow> hc_store" where
  "evict_loop target v sz_all s =
     (if sz_all > target \<and> v \<noteq> [] then
        let b = oldest v; (mt, sz, n) = v ! b in
        evict_loop target (butlast (v[b := last v])) (sz_all - sz) (unlink_entry s n)
      else s)"
  by pat_completeness auto
termination
  by (relation "measure (\<lambda>(target, v, sz_all, s). length v)") auto

declare evict_loop.simps [simp del]

definition evict :: "hc_env \<Rightarrow> hc_store \<Rightarrow> hc_store" where
  "evict env s =
     (if \<not> env_alloc env (256 * 96) then s
      else
        let v = collect (env_alloc env) 256 [] (hs_files s);
            sz_all = total_size v in
        if sz_all > HC_MAX_TOTAL then evict_loop (HC_MAX_TOTAL div 10 * 9) v sz_all s else s)"

fun hc_put :: "hc_env \<Rightarrow> hc_store \<Rightarrow> cptr \<Rightarrow> cptr \<Rightarrow> hc_meta \<Rightarrow> string \<Rightarrow> hc_status \<times> hc_store" where
  "hc_put env s (Some part) (Some url) m body =
     (if \<not> meta_ok m \<or> has_nl part \<or> has_nl url then (HC_ERR_ARG, s)
      else case entry_path env s CHR ''c'' part url of
          None \<Rightarrow> (HC_ERR_ARG, s)
        | Some name \<Rightarrow>
          (let (rc, s1) = store_entry env s name m body in
           if rc = HC_OK then
             let s2 = s1\<lparr>hs_puts := hs_puts s1 + 1\<rparr> in
             (rc, if hs_puts s2 mod HC_EVICT_EVERY = 0 then evict env s2 else s2)
           else (rc, s1)))"
| "hc_put env s _ _ m body = (HC_ERR_ARG, s)"

subsection \<open>Redirect memory\<close>

fun hc_redirect_put :: "hc_env \<Rightarrow> hc_store \<Rightarrow> cptr \<Rightarrow> cptr \<Rightarrow> int \<Rightarrow> hc_status \<times> hc_store" where
  "hc_redirect_put env s (Some from) (Some to) now =
     (if take 8 to \<noteq> ''https://'' \<or> from = to \<or> has_nl from \<or> has_nl to \<or> length to \<ge> HC_URL_MAX then (HC_ERR_ARG, s)
      else case entry_path env s CHR ''r'' [] from of
          None \<Rightarrow> (HC_ERR_ARG, s)
        | Some name \<Rightarrow> store_entry env s name (blank_meta\<lparr>hm_final_url := to, hm_stored := now\<rparr>) [])"
| "hc_redirect_put env s _ _ now = (HC_ERR_ARG, s)"

text \<open>The result: the status, the store and the target written.\<close>

fun hc_redirect_get :: "hc_env \<Rightarrow> hc_store \<Rightarrow> cptr \<Rightarrow> int \<Rightarrow> nat \<Rightarrow> hc_status \<times> hc_store \<times> cptr" where
  "hc_redirect_get env s (Some from) now cap =
     (if cap = 0 then (HC_ERR_ARG, s, None)
      else case entry_path env s CHR ''r'' [] from of
          None \<Rightarrow> (HC_ERR_ARG, s, None)
        | Some name \<Rightarrow>
          (let (rc, s1, m, body) = load_entry env s name False in
           if rc \<noteq> HC_OK then (rc, s1, None)
           else if now < hm_stored m \<or> now - hm_stored m > HC_REDIRECT_TTL then (HC_MISS, unlink_entry s1 name, None)
           else if length (hm_final_url m) \<ge> cap \<or> take 8 (hm_final_url m) \<noteq> ''https://'' then (HC_MISS, s1, None)
           else (HC_OK, s1, Some (hm_final_url m))))"
| "hc_redirect_get env s None now cap = (HC_ERR_ARG, s, None)"

definition hc_clear :: "hc_store \<Rightarrow> hc_store" where
  "hc_clear s = s\<lparr>hs_files := remove_entries (hs_files s)\<rparr>"

section \<open>The wire form of an entry\<close>

lemma digit_not_special: "is_digit c \<Longrightarrow> c \<noteq> NL \<and> c \<noteq> NUL"
  by (auto simp: of_char_digit NL_def NUL_def)

lemma show_int_chars: "c \<in> set (show_int i) \<Longrightarrow> c \<noteq> NL \<and> c \<noteq> NUL"
proof -
  have "c \<in> set (show_nat n) \<Longrightarrow> c \<noteq> NL \<and> c \<noteq> NUL" for n
    using show_nat_digits [of n] digit_not_special by (auto simp: list_all_iff)
  moreover have "CHR ''-'' \<noteq> NL" "CHR ''-'' \<noteq> NUL" by code_simp+
  ultimately show "c \<in> set (show_int i) \<Longrightarrow> c \<noteq> NL \<and> c \<noteq> NUL" by (auto simp: show_int_def split: if_splits)
qed

text \<open>Meta data that fits: fields below their capacities and without line ends or NUL, a time of 64 bits.\<close>

definition meta_fits :: "hc_meta \<Rightarrow> bool" where
  "meta_fits m \<longleftrightarrow> list_all2 (\<lambda>f cap. length f < cap \<and> cstr f) (meta_fields m) field_caps
     \<and> - (2 ^ 63) \<le> hm_stored m \<and> hm_stored m < 2 ^ 63"

lemma parse_fields_print:
  assumes "list_all2 (\<lambda>f cap. length f < cap \<and> cstr f) fs caps" and "list_all (\<lambda>f. \<not> has_nl f) fs"
  shows "parse_fields caps (concat (map (\<lambda>f. f @ [NL]) fs) @ r) = Some (fs, r)"
  using assms
proof (induction fs caps rule: list_all2_induct)
  case (Cons f fs cap caps)
  have nl: "NL \<notin> set f" using Cons.prems by (simp add: has_nl_def)
  have nul: "takeWhile (\<lambda>c. c \<noteq> NUL) f = f" using Cons.hyps(1) by (simp add: cstr_def)
  show ?case using Cons nl nul by simp
qed simp

lemma parse_entry_print:
  assumes "meta_ok m" and "meta_fits m"
  shows "parse_entry (entry_head m @ body) = Some (m, body)"
proof -
  let ?p = "show_int (hm_stored m) @ NL # NL # body"
  have head: "entry_head m @ body = HC_MAGIC @ concat (map (\<lambda>f. f @ [NL]) (meta_fields m)) @ ?p"
    by (simp add: entry_head_def)
  have fields: "parse_fields field_caps (concat (map (\<lambda>f. f @ [NL]) (meta_fields m)) @ ?p) = Some (meta_fields m, ?p)"
    by (rule parse_fields_print) (use assms in \<open>auto simp: meta_fits_def meta_ok_def\<close>)
  have nl: "NL \<notin> set (show_int (hm_stored m))" using show_int_chars by blast
  have "\<forall>c \<in> set (show_int (hm_stored m)). c \<noteq> NUL" using show_int_chars by auto
  then have st: "parse_stored (show_int (hm_stored m)) = Some (hm_stored m)"
    using assms(2) by (simp add: parse_stored_def takeWhile_eq_all_conv [THEN iffD2] scan_show_int clamp64_def meta_fits_def)
  have "length (show_int (hm_stored m)) \<le> 20" using assms(2) show_int_length by (simp add: meta_fits_def)
  moreover have "meta_of (meta_fields m) (hm_stored m) = m" by (simp add: meta_of_def meta_fields_def)
  ultimately show ?thesis unfolding parse_entry_def head
    using nl by (simp add: fields st)
qed

section \<open>Storing and reading back\<close>

text \<open>What \<^verbatim>\<open>pq_seal.h\<close> promises of the sealing with the keys of a store: an opened blob is what was sealed, and
  the overhead is bounded.\<close>

definition seal_ok :: "hc_env \<Rightarrow> hc_store \<Rightarrow> bool" where
  "seal_ok env s \<longleftrightarrow> (\<forall>pt blob. env_seal env (hs_keys s) (hs_wrap s) pt = Inr blob \<longrightarrow>
     env_open env (hs_keys s) (hs_wrap s) blob = Some pt \<and> blob \<noteq> [] \<and> length blob \<le> length pt + 12800)"

text \<open>The contents of a store by entry name, as a reader with enough memory sees them.\<close>

definition entry_at :: "hc_env \<Rightarrow> hc_store \<Rightarrow> string \<Rightarrow> (hc_meta \<times> string) option" where
  "entry_at env s name =
     Option.bind (map_of (hs_files s) name) (\<lambda>f.
       if hf_data f = [] \<or> length (hf_data f) > HC_MAX_ENTRY + 16384 then None
       else Option.bind (env_open env (hs_keys s) (hs_wrap s) (hf_data f)) parse_entry)"

lemma load_entry_OK:
  assumes "load_entry env s name True = (HC_OK, s', m, body)"
  shows "s' = s \<and> entry_at env s name = Some (m, body)"
  using assms by (auto simp: load_entry_def read_file_def entry_at_def split: option.splits if_splits)

lemma load_entry_entry_at:
  assumes "\<And>n. env_alloc env n"
  shows "load_entry env s name True =
    (case entry_at env s name of
       Some (m, body) \<Rightarrow> (HC_OK, s, m, body)
     | None \<Rightarrow> (HC_MISS, fst (snd (load_entry env s name True)), blank_meta, []))"
  using assms by (auto simp: load_entry_def read_file_def entry_at_def split: option.splits)

lemma entry_at_unlink: "entry_at env (unlink_entry s n) name = (if name = n then None else entry_at env s name)"
  by (cases "map_of (hs_files s) name") (simp_all add: entry_at_def unlink_entry_def delete_conv')

lemma store_entry_OK:
  assumes "store_entry env s name m body = (HC_OK, s')"
  shows "\<exists>blob. env_seal env (hs_keys s) (hs_wrap s) (entry_head m @ body) = Inr blob \<and> length (entry_head m) < HEAD_SIZE
    \<and> length body \<le> HC_MAX_ENTRY
    \<and> s' = s\<lparr>hs_files := AList.update name \<lparr> hf_data = blob, hf_mtime = env_mtime env \<rparr> (hs_files s)\<rparr>"
  using assms by (auto simp: store_entry_def Let_def write_atomic_def split: if_splits sum.splits option.splits)

lemma store_entry_fail: "store_entry env s name m body = (rc, s') \<Longrightarrow> rc \<noteq> HC_OK \<Longrightarrow> s' = s"
  by (auto simp: store_entry_def Let_def split: if_splits sum.splits option.splits)

lemma store_entry_entry_at:
  assumes "store_entry env s name m body = (HC_OK, s')" and "seal_ok env s" and "meta_ok m" and "meta_fits m"
  shows "entry_at env s' name' = (if name' = name then Some (m, body) else entry_at env s name')"
proof -
  obtain blob where b: "env_seal env (hs_keys s) (hs_wrap s) (entry_head m @ body) = Inr blob" "length (entry_head m) < HEAD_SIZE"
    "length body \<le> HC_MAX_ENTRY" "s' = s\<lparr>hs_files := AList.update name \<lparr> hf_data = blob, hf_mtime = env_mtime env \<rparr> (hs_files s)\<rparr>"
    using store_entry_OK [OF assms(1)] by blast
  then have o: "env_open env (hs_keys s) (hs_wrap s) blob = Some (entry_head m @ body)" "blob \<noteq> []"
    "length blob \<le> length (entry_head m @ body) + 12800"
    using assms(2) unfolding seal_ok_def by blast+
  then have "length blob \<le> HC_MAX_ENTRY + 16384"
    using b(2,3) by (simp add: HEAD_SIZE_def HC_URL_MAX_def HC_TYPE_MAX_def HC_VAL_MAX_def)
  then show ?thesis using o(1,2) parse_entry_print [OF assms(3,4), of body]
    by (cases "map_of (hs_files s) name'") (auto simp: entry_at_def b(4) update_conv')
qed

lemma evict_loop_step:
  assumes "t > target \<and> v \<noteq> []" "v ! oldest v = (mt, sz, n)"
  shows "evict_loop target v t s = evict_loop target (butlast (v[oldest v := last v])) (t - sz) (unlink_entry s n)"
  using assms by (subst evict_loop.simps) simp

lemma evict_loop_stop: "\<not> (t > target \<and> v \<noteq> []) \<Longrightarrow> evict_loop target v t s = s"
  by (subst evict_loop.simps) auto

lemma evict_loop_files:
  "\<forall>n. entry_at env (evict_loop target v t s) n = entry_at env s n \<or> entry_at env (evict_loop target v t s) n = None"
proof (induction target v t s rule: evict_loop.induct)
  case (1 target v t s)
  show ?case
  proof (cases "t > target \<and> v \<noteq> []")
    case True
    obtain mt sz n where e: "v ! oldest v = (mt, sz, n)" by (metis prod_cases3)
    show ?thesis using 1 [OF True refl refl e [symmetric] refl]
      unfolding evict_loop_step [OF True e] entry_at_unlink [of env s n] by (metis (full_types))
  qed (simp add: evict_loop_stop)
qed

lemma evict_entry_at: "entry_at env (evict env s) n = Some e \<Longrightarrow> entry_at env s n = Some e"
  using evict_loop_files by (auto simp: evict_def Let_def split: if_splits) (metis option.distinct(1))+

text \<open>The contract of a cache towards its client: what it hands out under a name is what was put there last,
  or nothing; a name no entry was put under hands out nothing new.\<close>

locale response_cache =
  fixes lookup :: "'s \<Rightarrow> 'n \<Rightarrow> 'v option"
    and insert :: "'s \<Rightarrow> 'n \<Rightarrow> 'v \<Rightarrow> 's"
    and good :: "'s \<Rightarrow> bool"
    and valid :: "'v \<Rightarrow> bool"
  assumes insert_good: "good s \<Longrightarrow> good (insert s n v)"
    and lookup_insert: "good s \<Longrightarrow> valid v \<Longrightarrow> lookup (insert s n v) n' = Some w \<Longrightarrow>
      (n' = n \<and> w = v) \<or> lookup s n' = Some w"
begin

lemma served_was_inserted:
  assumes "good s" and "\<forall>(n, v) \<in> set nvs. valid v"
    and "lookup (foldl (\<lambda>s (n, v). insert s n v) s nvs) n' = Some w"
  shows "lookup s n' = Some w \<or> (n', w) \<in> set nvs"
  using assms
proof (induction nvs arbitrary: s)
  case (Cons p nvs)
  obtain n v where p: "p = (n, v)" by force
  then show ?case using Cons.IH [of "insert s n v"] Cons.prems insert_good [of s n v] lookup_insert [of s v n n' w] by auto
qed simp

end

definition put_named :: "hc_env \<Rightarrow> hc_store \<Rightarrow> string \<Rightarrow> hc_meta \<times> string \<Rightarrow> hc_store" where
  "put_named env s name e = (let (rc, s1) = store_entry env s name (fst e) (snd e) in
     if rc = HC_OK then
       let s2 = s1\<lparr>hs_puts := hs_puts s1 + 1\<rparr> in if hs_puts s2 mod HC_EVICT_EVERY = 0 then evict env s2 else s2
     else s1)"

lemma hc_put_named:
  assumes "meta_ok m" "\<not> has_nl part" "\<not> has_nl url" "entry_path env s CHR ''c'' part url = Some name"
  shows "snd (hc_put env s (Some part) (Some url) m body) = put_named env s name (m, body)"
  using assms by (simp add: put_named_def Let_def case_prod_beta)

lemma evict_keys: "hs_keys (evict env s) = hs_keys s \<and> hs_wrap (evict env s) = hs_wrap s"
proof -
  have "hs_keys (evict_loop target v t s) = hs_keys s \<and> hs_wrap (evict_loop target v t s) = hs_wrap s" for target v t
  proof (induction target v t s rule: evict_loop.induct)
    case (1 target v t s)
    show ?case
    proof (cases "t > target \<and> v \<noteq> []")
      case True
      obtain mt sz n where e: "v ! oldest v = (mt, sz, n)" by (metis prod_cases3)
      show ?thesis using 1 [OF True refl refl e [symmetric] refl]
        unfolding evict_loop_step [OF True e] by (simp add: unlink_entry_def)
    qed (simp add: evict_loop_stop)
  qed
  then show ?thesis by (simp add: evict_def Let_def)
qed

lemma store_entry_keys:
  "store_entry env s name m body = (rc, s') \<Longrightarrow> hs_keys s' = hs_keys s \<and> hs_wrap s' = hs_wrap s"
  by (auto simp: store_entry_def Let_def split: if_splits sum.splits option.splits)

lemma put_named_keys: "hs_keys (put_named env s name e) = hs_keys s \<and> hs_wrap (put_named env s name e) = hs_wrap s"
proof -
  obtain rc s' where r: "store_entry env s name (fst e) (snd e) = (rc, s')" by force
  show ?thesis using store_entry_keys [OF r] by (simp add: put_named_def r Let_def evict_keys)
qed

lemma entry_at_puts: "entry_at env (s\<lparr>hs_puts := p\<rparr>) n = entry_at env s n"
  by (cases "map_of (hs_files s) n") (simp_all add: entry_at_def)

definition fits_entry :: "hc_meta \<times> string \<Rightarrow> bool" where
  "fits_entry e \<longleftrightarrow> meta_ok (fst e) \<and> meta_fits (fst e)"

lemma lookup_put_named:
  assumes "seal_ok env s" and "fits_entry v" and "entry_at env (put_named env s n v) n' = Some w"
  shows "n' = n \<and> w = v \<or> entry_at env s n' = Some w"
proof -
  obtain rc s1 where r: "store_entry env s n (fst v) (snd v) = (rc, s1)" by force
  show ?thesis
  proof (cases "rc = HC_OK")
    case True
    then have "entry_at env s1 n' = Some w"
      using assms(3) r by (auto simp: put_named_def Let_def entry_at_puts dest!: evict_entry_at split: if_splits)
    then show ?thesis using store_entry_entry_at [of env s n "fst v" "snd v" s1 n'] r True assms(1,2)
      by (auto simp: fits_entry_def split: if_splits)
  next
    case False
    then show ?thesis using assms(3) r store_entry_fail [OF r] by (simp add: put_named_def)
  qed
qed

interpretation hc: response_cache "entry_at env" "put_named env" "seal_ok env" fits_entry
proof
  show "seal_ok env s \<Longrightarrow> seal_ok env (put_named env s n v)" for s n v
    using put_named_keys [of env s n v] by (simp add: seal_ok_def)
qed (rule lookup_put_named)

lemma store_entry_name_key: "store_entry env s name m body = (rc, s') \<Longrightarrow> hs_name_key s' = hs_name_key s"
  by (auto simp: store_entry_def Let_def split: if_splits sum.splits option.splits)

lemma entry_path_cong: "hs_name_key s' = hs_name_key s \<Longrightarrow> entry_path env s' kind part url = entry_path env s kind part url"
  by (simp add: entry_path_def)


text \<open>A concrete sealing that marks what it seals, and a keyed hash of the length of its message.\<close>

definition sample_env :: hc_env where
  "sample_env = \<lparr> env_alloc = (\<lambda>_. True), env_hmac = (\<lambda>k msg. Some (replicate 32 (char_of (length msg)))),
     env_seal = (\<lambda>k w pt. Inr (CHR ''S'' # pt)), env_open = (\<lambda>k w b. Some (tl b)), env_write = (\<lambda>_. True),
     env_mtime = 0, env_mkdir = True, env_derive = (\<lambda>w. Some w), env_import = (\<lambda>w d. Some d),
     env_generate = Some [], env_export = (\<lambda>k w. Some k) \<rparr>"

definition sample_store :: hc_store where
  "sample_store = \<lparr> hs_wrap = [], hs_name_key = [], hs_keys = [], hs_puts = 0, hs_files = [] \<rparr>"

definition sample_meta :: hc_meta where
  "sample_meta = meta_of [''https://a.b/'', ''text/html'', ''v1'', [], ''max-age=60'', [], []] 1000"


end
