(* ===== verification/Cached_Fetch.thy ===== *)
theory Cached_Fetch
  imports Http_Cache
begin

text \<open>
  The module \<^verbatim>\<open>src/cached_fetch.c\<close>: the cache in front of the gated fetcher. The fetcher is a parameter, a
  function from URL and configuration to status and response; every call of it is recorded, so that
  what reaches the network is part of the result. Of the configuration and the response the records
  hold the fields this module reads or writes; the others pass through untouched.
\<close>

section \<open>Model\<close>

datatype sf_status = SF_OK | SF_ERR_NULL_ARG | SF_ERR_INVALID_URL | SF_ERR_TLS_VERSION | SF_ERR_KEM_NOT_PQ
  | SF_ERR_WEAK_ALGO | SF_ERR_CERT_INVALID | SF_ERR_CERT_NOT_PQ | SF_ERR_TOO_LARGE | SF_ERR_NETWORK | SF_ERR_OOM
  | SF_ERR_TOO_MANY_REDIRECTS | SF_ERR_INTERNAL

definition SF_META_MAX :: nat where "SF_META_MAX = 256"

record sf_config =
  sc_username :: cptr
  sc_range_start :: int
  sc_allow_overlay_http :: bool
  sc_if_none_match :: cptr
  sc_if_modified_since :: cptr

record sf_response =
  sr_status :: sf_status
  sr_http_code :: int
  sr_tls_version :: cptr
  sr_body :: string
  sr_final_url :: cptr
  sr_content_type :: cptr
  sr_etag :: string
  sr_last_modified :: string
  sr_cache_control :: string
  sr_expires :: string
  sr_date :: string

type_synonym cf_fetch_fn = "string \<Rightarrow> sf_config \<Rightarrow> sf_status \<times> sf_response"
type_synonym request = "string \<times> sf_config"

definition blank_response :: sf_response where
  "blank_response = \<lparr> sr_status = SF_OK, sr_http_code = 0, sr_tls_version = None, sr_body = [], sr_final_url = None,
     sr_content_type = None, sr_etag = [], sr_last_modified = [], sr_cache_control = [], sr_expires = [], sr_date = [] \<rparr>"

definition cacheable_request :: "sf_config \<Rightarrow> string \<Rightarrow> bool" where
  "cacheable_request cfg url =
     (if take 8 url \<noteq> ''https://'' \<or> length url \<ge> HC_URL_MAX then False
      else if sc_username cfg \<noteq> None \<and> sc_username cfg \<noteq> Some [] then False
      else if sc_range_start cfg \<ge> 0 then False
      else \<not> sc_allow_overlay_http cfg)"

definition copy_val :: "nat \<Rightarrow> string \<Rightarrow> string" where
  "copy_val cap src = (if length src \<ge> cap then [] else src)"

definition meta_from_response :: "sf_response \<Rightarrow> string \<Rightarrow> int \<Rightarrow> hc_meta" where
  "meta_from_response r url now =
     \<lparr> hm_final_url = copy_val HC_URL_MAX (case sr_final_url r of Some u \<Rightarrow> u | None \<Rightarrow> url),
       hm_content_type = (case sr_content_type r of Some t \<Rightarrow> copy_val HC_TYPE_MAX t | None \<Rightarrow> []),
       hm_etag = copy_val HC_VAL_MAX (sr_etag r),
       hm_last_modified = copy_val HC_VAL_MAX (sr_last_modified r),
       hm_cache_control = copy_val HC_VAL_MAX (sr_cache_control r),
       hm_expires = copy_val HC_VAL_MAX (sr_expires r),
       hm_date = copy_val HC_VAL_MAX (sr_date r),
       hm_stored = now \<rparr>"

definition strdup_ok :: "hc_env \<Rightarrow> string \<Rightarrow> bool" where
  "strdup_ok env s \<longleftrightarrow> env_alloc env (length s + 1)"

definition response_from_cache :: "hc_env \<Rightarrow> hc_meta \<Rightarrow> string \<Rightarrow> sf_response option" where
  "response_from_cache env m body =
     (if (hm_content_type m \<noteq> [] \<and> \<not> strdup_ok env (hm_content_type m)) \<or> \<not> strdup_ok env (hm_final_url m)
        \<or> \<not> strdup_ok env ''cache'' then None
      else Some (blank_response\<lparr>
        sr_content_type := (if hm_content_type m \<noteq> [] then Some (hm_content_type m) else None),
        sr_final_url := Some (hm_final_url m), sr_tls_version := Some ''cache'',
        sr_status := SF_OK, sr_http_code := 200, sr_body := body,
        sr_etag := copy_val SF_META_MAX (hm_etag m),
        sr_last_modified := copy_val SF_META_MAX (hm_last_modified m),
        sr_cache_control := copy_val SF_META_MAX (hm_cache_control m),
        sr_expires := copy_val SF_META_MAX (hm_expires m),
        sr_date := copy_val SF_META_MAX (hm_date m)\<rparr>))"

definition remember :: "hc_env \<Rightarrow> hc_store \<Rightarrow> string \<Rightarrow> string \<Rightarrow> sf_response \<Rightarrow> int \<Rightarrow> hc_store" where
  "remember env store part url r now =
     (let m = meta_from_response r url now in
      if \<not> hc_storable (sr_http_code r) m (length (sr_body r)) then store
      else snd (hc_put env store (Some part) (Some url) m (sr_body r)))"

definition conditional :: "sf_config \<Rightarrow> hc_meta \<Rightarrow> sf_config" where
  "conditional cfg m =
     cfg\<lparr>sc_if_none_match := (if hm_etag m \<noteq> [] then Some (hm_etag m) else None),
         sc_if_modified_since := (if hm_last_modified m \<noteq> [] then Some (hm_last_modified m) else None)\<rparr>"

text \<open>The meta data renewed by a 304: what the answer carries replaces what was stored.\<close>

definition renewed :: "hc_meta \<Rightarrow> sf_response \<Rightarrow> int \<Rightarrow> hc_meta" where
  "renewed m r now =
     (let m1 = m\<lparr>hm_stored := now\<rparr>;
          m2 = (if sr_cache_control r \<noteq> [] then m1\<lparr>hm_cache_control := copy_val HC_VAL_MAX (sr_cache_control r)\<rparr> else m1);
          m3 = (if sr_expires r \<noteq> [] then m2\<lparr>hm_expires := copy_val HC_VAL_MAX (sr_expires r)\<rparr> else m2);
          m4 = (if sr_date r \<noteq> [] then m3\<lparr>hm_date := copy_val HC_VAL_MAX (sr_date r)\<rparr> else m3) in
      if sr_etag r \<noteq> [] then m4\<lparr>hm_etag := copy_val HC_VAL_MAX (sr_etag r)\<rparr> else m4)"

text \<open>A plain fetch, and a fetch whose answer is remembered. The results carry the requests made.\<close>

definition plain_fetch :: "cf_fetch_fn \<Rightarrow> string \<Rightarrow> sf_config \<Rightarrow> hc_store option \<Rightarrow> request list
    \<Rightarrow> sf_status \<times> sf_response \<times> hc_store option \<times> request list" where
  "plain_fetch fetch url cfg store reqs = (fst (fetch url cfg), snd (fetch url cfg), store, reqs @ [(url, cfg)])"

definition fetch_and_remember :: "hc_env \<Rightarrow> hc_store \<Rightarrow> cf_fetch_fn \<Rightarrow> string \<Rightarrow> string \<Rightarrow> sf_config \<Rightarrow> int
    \<Rightarrow> sf_status \<times> sf_response \<times> hc_store option \<times> request list" where
  "fetch_and_remember env store fetch part url cfg now =
     (let (st, r) = fetch url cfg in
      (st, r, Some (if st = SF_OK then remember env store part url r now else store), [(url, cfg)]))"

definition revalidate :: "hc_env \<Rightarrow> hc_store \<Rightarrow> cf_fetch_fn \<Rightarrow> string \<Rightarrow> string \<Rightarrow> sf_config \<Rightarrow> int \<Rightarrow> hc_meta \<Rightarrow> string
    \<Rightarrow> sf_status \<times> sf_response \<times> hc_store option \<times> request list" where
  "revalidate env store fetch part url cfg now m body =
     (let cond = conditional cfg m;
          (st, r) = fetch (hm_final_url m) cond;
          reqs = [(hm_final_url m, cond)] in
      if st = SF_OK \<and> sr_http_code r = 304 then
        let m' = renewed m r now;
            store' = snd (hc_put env store (Some part) (Some url) m' body) in
        (case response_from_cache env m' body of
          Some out \<Rightarrow> (SF_OK, out, Some store', reqs)
        | None \<Rightarrow> plain_fetch fetch url cfg (Some store') reqs)
      else (st, r, Some (if st = SF_OK then remember env store part url r now else store), reqs))"

fun cf_get_with :: "hc_env \<Rightarrow> hc_store option \<Rightarrow> cf_fetch_fn \<Rightarrow> cptr \<Rightarrow> cptr \<Rightarrow> sf_config \<Rightarrow> int
    \<Rightarrow> sf_status \<times> sf_response \<times> hc_store option \<times> request list" where
  "cf_get_with env store fetch part None cfg now = (SF_ERR_INTERNAL, blank_response, store, [])"
| "cf_get_with env store fetch part_opt (Some url) cfg now =
     (case (store, part_opt) of
        (Some s, Some part) \<Rightarrow>
          (if part = [] \<or> \<not> cacheable_request cfg url then plain_fetch fetch url cfg store []
           else
             let (rc, s1, m, body) = hc_get env s (Some part) (Some url) in
             if rc = HC_OK then
               (case hc_classify m now of
                  HC_FRESH \<Rightarrow>
                    (case response_from_cache env m body of
                      Some out \<Rightarrow> (SF_OK, out, Some s1, [])
                    | None \<Rightarrow> plain_fetch fetch url cfg (Some s1) [])
                | HC_REVALIDATE \<Rightarrow> revalidate env s1 fetch part url cfg now m body
                | HC_UNUSABLE \<Rightarrow> fetch_and_remember env s1 fetch part url cfg now)
             else fetch_and_remember env s1 fetch part url cfg now)
      | _ \<Rightarrow> plain_fetch fetch url cfg store [])"

text \<open>The process-wide store and clock, and the redirect memory of the fetcher.\<close>

definition cf_get :: "hc_env \<Rightarrow> hc_store option \<Rightarrow> cf_fetch_fn \<Rightarrow> int \<Rightarrow> cptr \<Rightarrow> cptr \<Rightarrow> sf_config
    \<Rightarrow> sf_status \<times> sf_response \<times> hc_store option \<times> request list" where
  "cf_get env g_store sf_get_follow_navigable now part url cfg =
     cf_get_with env g_store sf_get_follow_navigable part url cfg now"

definition redirect_load :: "hc_env \<Rightarrow> hc_store \<Rightarrow> cptr \<Rightarrow> int \<Rightarrow> nat \<Rightarrow> bool \<times> hc_store \<times> cptr" where
  "redirect_load env s from now cap =
     (let (rc, s', out) = hc_redirect_get env s from now cap in (rc = HC_OK, s', out))"

definition redirect_save :: "hc_env \<Rightarrow> hc_store \<Rightarrow> cptr \<Rightarrow> cptr \<Rightarrow> int \<Rightarrow> hc_store" where
  "redirect_save env s from to now = snd (hc_redirect_put env s from to now)"

section \<open>What reaches the network, and what comes from the cache\<close>

lemma entry_at_store_other:
  assumes "store_entry env s name m body = (rc, s')" and "n \<noteq> name"
  shows "entry_at env s' n = entry_at env s n"
  using assms
  by (cases "map_of (hs_files s) n")
    (auto simp: store_entry_def write_atomic_def entry_at_def update_conv' Let_def split: if_splits sum.splits option.splits)

lemma entry_at_put_other:
  assumes "entry_path env s CHR ''c'' part url = Some name" and "n \<noteq> name"
    and "entry_at env (snd (hc_put env s (Some part) (Some url) m body)) n = Some e"
  shows "entry_at env s n = Some e"
proof -
  obtain rc s1 where r: "store_entry env s name m body = (rc, s1)" by force
  have "entry_at env s1 n = entry_at env s n" using entry_at_store_other [OF r assms(2)] .
  then show ?thesis using assms(1,3) r
    by (auto simp: Let_def entry_at_puts split: if_splits dest!: evict_entry_at)
qed

text \<open>A step of the store that leaves all entries but one alone, or drops them.\<close>

definition only_touches :: "hc_env \<Rightarrow> hc_store \<Rightarrow> string \<Rightarrow> hc_store \<Rightarrow> bool" where
  "only_touches env s name s' \<longleftrightarrow> hs_name_key s' = hs_name_key s
     \<and> (\<forall>n e. n \<noteq> name \<longrightarrow> entry_at env s' n = Some e \<longrightarrow> entry_at env s n = Some e)"

lemma only_touches_refl: "only_touches env s name s"
  by (simp add: only_touches_def)

lemma only_touches_trans: "only_touches env s n s' \<Longrightarrow> only_touches env s' n s'' \<Longrightarrow> only_touches env s n s''"
  by (simp add: only_touches_def)

lemma evict_name_key: "hs_name_key (evict env s) = hs_name_key s"
proof -
  have "hs_name_key (evict_loop target v t s) = hs_name_key s" for target v t
  proof (induction target v t s rule: evict_loop.induct)
    case (1 target v t s)
    show ?case
    proof (cases "t > target \<and> v \<noteq> []")
      case True
      obtain mt sz n where e: "v ! oldest v = (mt, sz, n)" by (metis prod_cases3)
      show ?thesis using 1 [OF True refl refl e [symmetric] refl]
        unfolding evict_loop_step [OF True e] by (simp add: unlink_entry_def)
    qed (simp add: evict_loop_stop)
  qed
  then show ?thesis by (simp add: evict_def Let_def)
qed

lemma hc_put_touches:
  assumes "entry_path env s CHR ''c'' part url = Some name"
  shows "only_touches env s name (snd (hc_put env s (Some part) (Some url) m body))"
proof -
  obtain rc s1 where r: "store_entry env s name m body = (rc, s1)" by force
  have "hs_name_key (snd (hc_put env s (Some part) (Some url) m body)) = hs_name_key s"
    using assms r store_entry_name_key [OF r] by (simp add: Let_def evict_name_key)
  then show ?thesis using entry_at_put_other [OF assms] unfolding only_touches_def by blast
qed

lemma load_entry_store: "load_entry env s name w = (rc, s', m, body) \<Longrightarrow> s' = s \<or> s' = unlink_entry s name"
  by (auto simp: load_entry_def split: option.splits if_splits)

lemma unlink_touches: "only_touches env s name (unlink_entry s name)"
  by (simp add: only_touches_def entry_at_unlink) (simp add: unlink_entry_def)

lemma hc_get_touches:
  assumes "hc_get env s (Some part) (Some url) = (rc, s', m, body)" and "entry_path env s CHR ''c'' part url = Some name"
  shows "only_touches env s name s'"
  using assms load_entry_store [of env s name True rc s' m body] only_touches_refl unlink_touches by auto

lemma remember_touches:
  "entry_path env s CHR ''c'' part url = Some name \<Longrightarrow> only_touches env s name (remember env s part url r now)"
  using hc_put_touches only_touches_refl by (simp add: remember_def Let_def)

text \<open>The requests a cached fetch may make: the one asked for, and the conditional one for the URL that
  produced the stored body.\<close>

definition allowed_request :: "string \<Rightarrow> sf_config \<Rightarrow> (hc_meta \<times> string) option \<Rightarrow> request \<Rightarrow> bool" where
  "allowed_request url cfg entry rq \<longleftrightarrow> rq = (url, cfg)
     \<or> (case entry of Some (m, body) \<Rightarrow> rq = (hm_final_url m, conditional cfg m) | None \<Rightarrow> False)"

lemma fetch_and_remember_ok:
  assumes "fetch_and_remember env s fetch part url cfg now = (st, r, s', reqs)" and "entry_path env s CHR ''c'' part url = Some name"
  shows "reqs = [(url, cfg)] \<and> (\<exists>s2. s' = Some s2 \<and> only_touches env s name s2)"
  using assms remember_touches [OF assms(2)] only_touches_refl
  by (auto simp: fetch_and_remember_def Let_def split: prod.splits)

lemma revalidate_ok:
  assumes "revalidate env s fetch part url cfg now m body = (st, r, s', reqs)" and "entry_path env s CHR ''c'' part url = Some name"
  shows "reqs \<noteq> [] \<and> length reqs \<le> 2 \<and> list_all (allowed_request url cfg (Some (m, body))) reqs
    \<and> (\<exists>s2. s' = Some s2 \<and> only_touches env s name s2)"
  using assms remember_touches [OF assms(2)] hc_put_touches [OF assms(2)] only_touches_refl
  by (auto simp: revalidate_def Let_def plain_fetch_def allowed_request_def simp del: hc_put.simps
      split: prod.splits if_splits option.splits)

lemma plain_fetch_ok:
  "plain_fetch fetch url cfg s reqs0 = (st, r, s', reqs) \<Longrightarrow> reqs = reqs0 @ [(url, cfg)] \<and> s' = s"
  by (auto simp: plain_fetch_def)

lemma cf_get_with_bypass:
  assumes "cf_get_with env store fetch part (Some url) cfg now = (st, r, store', reqs)"
    and "store = None \<or> part = None \<or> part = Some [] \<or> \<not> cacheable_request cfg url"
  shows "reqs = [(url, cfg)] \<and> store' = store \<and> (st, r) = fetch url cfg"
  using assms by (auto simp: plain_fetch_def split: option.splits)

lemma cf_get_with_hit:
  assumes "cf_get_with env (Some s) fetch (Some part) (Some url) cfg now = (st, r, store', [])"
    and "entry_path env s CHR ''c'' part url = Some name"
  shows "\<exists>m body. entry_at env s name = Some (m, body) \<and> hc_classify m now = HC_FRESH \<and> response_from_cache env m body = Some r
    \<and> st = SF_OK \<and> store' = Some s"
proof -
  obtain rc s1 m body where g: "hc_get env s (Some part) (Some url) = (rc, s1, m, body)" by (metis prod_cases4)
  have 1: "part \<noteq> []" "cacheable_request cfg url" using assms(1) by (auto simp: plain_fetch_def split: if_splits)
  have 2: "rc = HC_OK" "hc_classify m now = HC_FRESH"
    using assms 1 g by (auto simp: fetch_and_remember_def revalidate_def plain_fetch_def Let_def simp del: hc_get.simps hc_put.simps
        split: if_splits hc_class.splits prod.splits option.splits)
  have 3: "response_from_cache env m body = Some r" "st = SF_OK" "store' = Some s1"
    using assms 1 g 2 by (auto simp: plain_fetch_def simp del: hc_get.simps split: option.splits)
  have "s1 = s \<and> entry_at env s name = Some (m, body)"
    using load_entry_OK [of env s name s1 m body] g 2 assms(2) by simp
  then show ?thesis using 2 3 by blast
qed

lemma cf_get_with_requests:
  assumes "cf_get_with env (Some s) fetch (Some part) (Some url) cfg now = (st, r, store', reqs)"
    and "entry_path env s CHR ''c'' part url = Some name"
  shows "length reqs \<le> 2 \<and> list_all (allowed_request url cfg (entry_at env s name)) reqs
    \<and> (\<exists>s'. store' = Some s' \<and> only_touches env s name s')"
proof (cases "part = [] \<or> \<not> cacheable_request cfg url")
  case True
  then show ?thesis using cf_get_with_bypass [OF assms(1)] only_touches_refl by (auto simp: allowed_request_def)
next
  case False
  obtain rc s1 m body where g: "hc_get env s (Some part) (Some url) = (rc, s1, m, body)" by (metis prod_cases4)
  have t: "only_touches env s name s1" by (rule hc_get_touches [OF g assms(2)])
  then have p: "entry_path env s1 CHR ''c'' part url = Some name"
    using assms(2) entry_path_cong [of s1 s] by (simp add: only_touches_def)
  have e: "entry_at env s name = Some (m, body)" if "rc = HC_OK"
    using load_entry_OK [of env s name s1 m body] g that assms(2) by simp
  have far: "?thesis" if "fetch_and_remember env s1 fetch part url cfg now = (st, r, store', reqs)"
    using fetch_and_remember_ok [OF that p] only_touches_trans [OF t] by (auto simp: allowed_request_def)
  have rev: "?thesis" if "revalidate env s1 fetch part url cfg now m body = (st, r, store', reqs)" "rc = HC_OK"
    using revalidate_ok [OF that(1) p] e [OF that(2)] only_touches_trans [OF t] by auto
  have plain: "?thesis" if "plain_fetch fetch url cfg (Some s1) [] = (st, r, store', reqs)"
    using plain_fetch_ok [OF that] t by (auto simp: allowed_request_def)
  show ?thesis using assms(1) False g t far rev plain
    by (auto simp del: hc_get.simps split: if_splits hc_class.splits option.splits)
qed


definition sample_cached :: hc_store where
  "sample_cached = snd (hc_put sample_env sample_store (Some ''a.b'') (Some ''https://a.b/'') sample_meta ''hi'')"

definition sample_config :: sf_config where
  "sample_config = \<lparr> sc_username = None, sc_range_start = -1, sc_allow_overlay_http = False, sc_if_none_match = None,
     sc_if_modified_since = None \<rparr>"

definition sample_answer :: "sf_status \<times> sf_response \<times> hc_store option \<times> request list" where
  "sample_answer = cf_get_with sample_env (Some sample_cached) (\<lambda>u c. (SF_ERR_NETWORK, blank_response)) (Some ''a.b'')
     (Some ''https://a.b/'') sample_config 1010"


end
