(* ===== verification/Ws_Hub.thy ===== *)
theory Ws_Hub
  imports C_Prelude "HOL-Library.Multiset"
begin

text \<open>
  The module \<^verbatim>\<open>src/ws_hub.c\<close>: the WebSocket connections of one page. Opens run on threads and arrive through
  a pipe; events go to the page, whose handlers may open and close sockets at once. Every call of the
  page is the last action of an iteration of the hub's loops, so that the interleavings are those of a
  step relation whose steps are the hub's operations and single iterations. Sockets are numbered
  handles; an open's token is the counter of the hub, a natural number. The socket library and the
  threads are the environment: any open may finish at any time, with any result, and any read may
  deliver any frame.
\<close>

section \<open>Model\<close>

definition WH_MAX :: nat where "WH_MAX = 8"
definition WH_READS_PER_PUMP :: nat where "WH_READS_PER_PUMP = 256"
definition WH_CLOSE_ABNORMAL :: int where "WH_CLOSE_ABNORMAL = 1006"
definition SF_WS_MAX_MESSAGE :: nat where "SF_WS_MAX_MESSAGE = 1024 * 1024"

record wh_conn =
  wc_used :: bool
  wc_pending :: bool
  wc_id :: int
  wc_token :: nat
  wc_ws :: "nat option"
  wc_msg :: string
  wc_binary :: bool

record wh_hub =
  hub_c :: "wh_conn list"
  hub_seq :: nat

datatype wh_event = Ev_Open | Ev_Text string | Ev_Binary string | Ev_Close int string | Ev_Error

type_synonym wh_emitted = "nat \<times> int \<times> wh_event"

text \<open>An open while its thread runs, and when it has finished.\<close>

record wh_job =
  job_token :: nat
  job_id :: int

record wh_result = wh_job +
  job_ok :: bool
  job_ws :: "nat option"

definition blank_conn :: wh_conn where
  "blank_conn = \<lparr> wc_used = False, wc_pending = False, wc_id = 0, wc_token = 0, wc_ws = None, wc_msg = [], wc_binary = False \<rparr>"

text \<open>The handles closed with a connection.\<close>

definition handles :: "nat option \<Rightarrow> nat list" where
  "handles ws = (case ws of None \<Rightarrow> [] | Some x \<Rightarrow> [x])"

definition set_conn :: "wh_hub \<Rightarrow> nat \<Rightarrow> wh_conn \<Rightarrow> wh_hub" where
  "set_conn h i c = h\<lparr>hub_c := (hub_c h)[i := c]\<rparr>"

definition conn_clear :: "wh_hub \<Rightarrow> nat \<Rightarrow> wh_hub \<times> nat list" where
  "conn_clear h i = (set_conn h i blank_conn, handles (wc_ws (hub_c h ! i)))"

definition find_id :: "wh_hub \<Rightarrow> int \<Rightarrow> nat option" where
  "find_id h sid = List.find (\<lambda>i. wc_used (hub_c h ! i) \<and> wc_id (hub_c h ! i) = sid) [0..<WH_MAX]"

definition find_token :: "wh_hub \<Rightarrow> nat \<Rightarrow> nat option" where
  "find_token h token = List.find (\<lambda>i. wc_used (hub_c h ! i) \<and> wc_token (hub_c h ! i) = token) [0..<WH_MAX]"

definition find_free :: "wh_hub \<Rightarrow> nat option" where
  "find_free h = List.find (\<lambda>i. \<not> wc_used (hub_c h ! i)) [0..<WH_MAX]"

definition wh_new :: wh_hub where
  "wh_new = \<lparr> hub_c = replicate WH_MAX blank_conn, hub_seq = 0 \<rparr>"

text \<open>An open starts if the identifier is new, a slot is free, the job's memory and descriptor are there
  (\<open>mem\<close>) and its thread starts (\<open>thr\<close>); a thread that does not start has used up its token.\<close>

fun wh_open_async :: "bool \<Rightarrow> bool \<Rightarrow> wh_hub \<Rightarrow> int \<Rightarrow> cptr \<Rightarrow> int \<times> wh_hub \<times> wh_job option" where
  "wh_open_async mem thr h sid None = (-1, h, None)"
| "wh_open_async mem thr h sid (Some url) =
     (if find_id h sid \<noteq> None then (-1, h, None)
      else case find_free h of
          None \<Rightarrow> (-1, h, None)
        | Some i \<Rightarrow>
          if \<not> mem then (-1, h, None)
          else
            let token = hub_seq h + 1; h1 = h\<lparr>hub_seq := token\<rparr> in
            if \<not> thr then (-1, h1, None)
            else (0, set_conn h1 i (blank_conn\<lparr>wc_used := True, wc_pending := True, wc_id := sid, wc_token := token\<rparr>),
                  Some \<lparr> job_token = token, job_id = sid \<rparr>))"

text \<open>One finished open taken from the pipe: the hub, the events emitted and the handles closed.\<close>

definition notify_one :: "wh_hub \<Rightarrow> wh_result \<Rightarrow> wh_hub \<times> wh_emitted list \<times> nat list" where
  "notify_one h r =
     (case find_token h (job_token r) of
        None \<Rightarrow> (h, [], handles (job_ws r))
      | Some i \<Rightarrow>
        (let c = hub_c h ! i in
         if \<not> wc_pending c then (h, [], handles (job_ws r))
         else if job_ok r \<and> job_ws r \<noteq> None then
           (set_conn h i (c\<lparr>wc_ws := job_ws r, wc_pending := False\<rparr>), [(job_token r, job_id r, Ev_Open)], [])
         else (set_conn h i blank_conn,
               [(job_token r, job_id r, Ev_Error), (job_token r, job_id r, Ev_Close WH_CLOSE_ABNORMAL [])],
               handles (job_ws r))))"

fun wh_on_notify :: "wh_hub \<Rightarrow> wh_result list \<Rightarrow> wh_hub \<times> wh_emitted list \<times> nat list" where
  "wh_on_notify h [] = (h, [], [])"
| "wh_on_notify h (r # rs) =
     (let (h1, ev1, cl1) = notify_one h r; (h2, ev2, cl2) = wh_on_notify h1 rs in (h2, ev1 @ ev2, cl1 @ cl2))"

text \<open>\<open>ok\<close> is the answer of the socket library to the send.\<close>

definition wh_send :: "wh_hub \<Rightarrow> int \<Rightarrow> bool \<Rightarrow> int" where
  "wh_send h sid ok =
     (case find_id h sid of
        None \<Rightarrow> -1
      | Some i \<Rightarrow>
        if wc_pending (hub_c h ! i) \<or> wc_ws (hub_c h ! i) = None then -1 else if ok then 0 else -1)"

definition wh_close :: "wh_hub \<Rightarrow> int \<Rightarrow> wh_hub \<times> nat list" where
  "wh_close h sid = (case find_id h sid of None \<Rightarrow> (h, []) | Some i \<Rightarrow> conn_clear h i)"

fun close_from :: "wh_hub \<Rightarrow> nat list \<Rightarrow> wh_hub \<times> nat list" where
  "close_from h [] = (h, [])"
| "close_from h (i # is) =
     (if wc_used (hub_c h ! i) then
        let (h1, cl1) = conn_clear h i; (h2, cl2) = close_from h1 is in (h2, cl1 @ cl2)
      else close_from h is)"

definition wh_close_all :: "wh_hub \<Rightarrow> wh_hub \<times> nat list" where
  "wh_close_all h = close_from h [0..<WH_MAX]"

text \<open>The handles closed when the hub is freed: those of its connections, then those waiting in the pipe.\<close>

definition wh_free :: "wh_hub \<Rightarrow> wh_result list \<Rightarrow> nat list" where
  "wh_free h pipe = snd (wh_close_all h) @ concat (map (\<lambda>r. handles (job_ws r)) pipe)"

text \<open>The descriptors to poll, with the identifiers; \<open>fd\<close> gives a handle's descriptor.\<close>

definition wh_poll_fds :: "(nat \<Rightarrow> int) \<Rightarrow> wh_hub \<Rightarrow> nat \<Rightarrow> (int \<times> int) list" where
  "wh_poll_fds fd h cap =
     take cap (List.map_filter (\<lambda>c. if \<not> wc_used c \<or> wc_pending c then None
       else case wc_ws c of None \<Rightarrow> None | Some x \<Rightarrow> if fd x < 0 then None else Some (fd x, wc_id c)) (hub_c h))"

definition wh_count :: "wh_hub \<Rightarrow> nat" where
  "wh_count h = length (filter (\<lambda>c. wc_used c \<and> \<not> wc_pending c) (hub_c h))"

text \<open>What a read delivers: a failure, or the bytes of a frame with its flags and the bytes left of it.\<close>

record ws_flags =
  fl_text :: bool
  fl_binary :: bool
  fl_cont :: bool
  fl_close :: bool
  fl_ping :: bool
  fl_pong :: bool

datatype ws_recv = Recv_Fail | Recv string ws_flags nat

definition no_flags :: "ws_flags \<Rightarrow> bool" where
  "no_flags f \<longleftrightarrow> \<not> (fl_text f \<or> fl_binary f \<or> fl_cont f \<or> fl_close f \<or> fl_ping f \<or> fl_pong f)"

definition fail_conn :: "wh_hub \<Rightarrow> nat \<Rightarrow> nat \<Rightarrow> int \<Rightarrow> wh_hub \<times> wh_emitted list \<times> nat list \<times> bool" where
  "fail_conn h i token sid =
     (let (h1, cl) = conn_clear h i in
      (h1, [(token, sid, Ev_Error), (token, sid, Ev_Close WH_CLOSE_ABNORMAL [])], cl, False))"

definition close_event :: "string \<Rightarrow> wh_event" where
  "close_event got =
     Ev_Close (if length got \<ge> 2 then of_char (got ! 0) * 256 + of_char (got ! 1) else 1005)
       (if length got > 2 then drop 2 got else [])"

definition message_event :: "bool \<Rightarrow> string \<Rightarrow> wh_event" where
  "message_event binary msg = (if binary then Ev_Binary msg else Ev_Text msg)"

text \<open>One data frame: the message grows, and is emitted when it is complete.\<close>

definition data_frame :: "allocator \<Rightarrow> wh_hub \<Rightarrow> nat \<Rightarrow> nat \<Rightarrow> int \<Rightarrow> string \<Rightarrow> ws_flags \<Rightarrow> nat
    \<Rightarrow> wh_hub \<times> wh_emitted list \<times> nat list \<times> bool" where
  "data_frame alloc h i token sid got fl left =
     (let c0 = hub_c h ! i;
          c = (if wc_msg c0 = [] then c0\<lparr>wc_binary := fl_binary fl\<rparr> else c0) in
      if length got > SF_WS_MAX_MESSAGE - length (wc_msg c) then fail_conn h i token sid
      else if \<not> alloc (length (wc_msg c) + length got + 1) then fail_conn h i token sid
      else
        let msg = wc_msg c @ got in
        if left = 0 \<and> \<not> fl_cont fl then
          (set_conn h i (c\<lparr>wc_msg := []\<rparr>), [(token, sid, message_event (wc_binary c) msg)], [], True)
        else (set_conn h i (c\<lparr>wc_msg := msg\<rparr>), [], [], True))"

text \<open>One iteration of the read loop: the hub, the events, the handles closed, and whether to go on.\<close>

definition read_one :: "allocator \<Rightarrow> wh_hub \<Rightarrow> nat \<Rightarrow> int \<Rightarrow> ws_recv \<Rightarrow> wh_hub \<times> wh_emitted list \<times> nat list \<times> bool" where
  "read_one alloc h token sid rcv =
     (case find_token h token of
        None \<Rightarrow> (h, [], [], False)
      | Some i \<Rightarrow>
        (case rcv of
          Recv_Fail \<Rightarrow> fail_conn h i token sid
        | Recv got fl left \<Rightarrow>
          if got = [] \<and> no_flags fl then (h, [], [], False)
          else if fl_close fl then
            let (h1, cl) = conn_clear h i in (h1, [(token, sid, close_event got)], cl, False)
          else if fl_ping fl \<or> fl_pong fl then (h, [], [], True)
          else data_frame alloc h i token sid got fl left))"

fun read_loop :: "allocator \<Rightarrow> nat \<Rightarrow> wh_hub \<Rightarrow> nat \<Rightarrow> int \<Rightarrow> ws_recv list \<Rightarrow> wh_hub \<times> wh_emitted list \<times> nat list" where
  "read_loop alloc 0 h token sid rs = (h, [], [])"
| "read_loop alloc (Suc n) h token sid [] = (h, [], [])"
| "read_loop alloc (Suc n) h token sid (r # rs) =
     (let (h1, ev1, cl1, go) = read_one alloc h token sid r in
      if go then let (h2, ev2, cl2) = read_loop alloc n h1 token sid rs in (h2, ev1 @ ev2, cl1 @ cl2)
      else (h1, ev1, cl1))"

text \<open>The answers of the successive reads are given as a list.\<close>

definition wh_on_readable :: "allocator \<Rightarrow> wh_hub \<Rightarrow> int \<Rightarrow> ws_recv list \<Rightarrow> wh_hub \<times> wh_emitted list \<times> nat list" where
  "wh_on_readable alloc h sid rs =
     (case find_id h sid of
        None \<Rightarrow> (h, [], [])
      | Some i \<Rightarrow>
        if wc_pending (hub_c h ! i) \<or> wc_ws (hub_c h ! i) = None then (h, [], [])
        else if \<not> alloc 16384 then (h, [], [])
        else read_loop alloc WH_READS_PER_PUMP h (wc_token (hub_c h ! i)) sid rs)"

section \<open>Interleavings\<close>

record wh_world =
  w_hub :: wh_hub
  w_running :: "wh_job list"
  w_pipe :: "wh_result list"
  w_log :: "wh_emitted list"
  w_closed :: "nat list"
  w_issued :: "nat list"

definition world_init :: wh_world where
  "world_init = \<lparr> w_hub = wh_new, w_running = [], w_pipe = [], w_log = [], w_closed = [], w_issued = [] \<rparr>"

text \<open>A thread finishes with a fresh handle or with none; the hub takes results and frames one by one; the
  page opens and closes in between.\<close>

inductive wh_step :: "wh_world \<Rightarrow> wh_world \<Rightarrow> bool" where
  step_open: "wh_open_async mem thr (w_hub w) sid url = (rc, h, job) \<Longrightarrow>
    wh_step w (w\<lparr>w_hub := h, w_running := w_running w @ (case job of None \<Rightarrow> [] | Some j \<Rightarrow> [j])\<rparr>)"
| step_finish: "j \<in> set (w_running w) \<Longrightarrow> set (handles ws) \<inter> set (w_issued w) = {} \<Longrightarrow>
    wh_step w (w\<lparr>w_running := remove1 j (w_running w), w_issued := w_issued w @ handles ws,
      w_pipe := w_pipe w @ [\<lparr> job_token = job_token j, job_id = job_id j, job_ok = ok, job_ws = ws \<rparr>]\<rparr>)"
| step_notify: "w_pipe w = r # rs \<Longrightarrow> notify_one (w_hub w) r = (h, ev, cl) \<Longrightarrow>
    wh_step w (w\<lparr>w_hub := h, w_pipe := rs, w_log := w_log w @ ev, w_closed := w_closed w @ cl\<rparr>)"
| step_read: "find_token (w_hub w) token = Some i \<Longrightarrow> \<not> wc_pending (hub_c (w_hub w) ! i) \<Longrightarrow>
    read_one alloc (w_hub w) token (wc_id (hub_c (w_hub w) ! i)) rcv = (h, ev, cl, go) \<Longrightarrow>
    wh_step w (w\<lparr>w_hub := h, w_log := w_log w @ ev, w_closed := w_closed w @ cl\<rparr>)"
| step_close: "wh_close (w_hub w) sid = (h, cl) \<Longrightarrow> wh_step w (w\<lparr>w_hub := h, w_closed := w_closed w @ cl\<rparr>)"
| step_close_all: "wh_close_all (w_hub w) = (h, cl) \<Longrightarrow> wh_step w (w\<lparr>w_hub := h, w_closed := w_closed w @ cl\<rparr>)"

inductive wh_reach :: "wh_world \<Rightarrow> bool" where
  reach_init: "wh_reach world_init"
| reach_step: "wh_reach w \<Longrightarrow> wh_step w w' \<Longrightarrow> wh_reach w'"

inductive_cases wh_stepE: "wh_step w w'"

section \<open>What the page sees of an open\<close>

definition events_of :: "nat \<Rightarrow> wh_emitted list \<Rightarrow> wh_event list" where
  "events_of t lg = map (\<lambda>(tk, sid, e). e) (filter (\<lambda>(tk, sid, e). tk = t) lg)"

definition is_message :: "wh_event \<Rightarrow> bool" where
  "is_message e \<longleftrightarrow> (\<exists>b m. e = message_event b m \<and> length m \<le> SF_WS_MAX_MESSAGE)"

definition open_events :: "wh_event list \<Rightarrow> bool" where
  "open_events es \<longleftrightarrow> (\<exists>ms. es = Ev_Open # ms \<and> list_all is_message ms)"

definition closing :: "wh_event list \<Rightarrow> bool" where
  "closing es \<longleftrightarrow> es = [] \<or> es = [Ev_Error, Ev_Close WH_CLOSE_ABNORMAL []] \<or> (\<exists>c r. es = [Ev_Close c r])"

definition wf_events :: "wh_event list \<Rightarrow> bool" where
  "wf_events es \<longleftrightarrow> es = [] \<or> es = [Ev_Error, Ev_Close WH_CLOSE_ABNORMAL []]
     \<or> (\<exists>es1 es2. es = es1 @ es2 \<and> open_events es1 \<and> closing es2)"

lemma events_of_append [simp]: "events_of t (a @ b) = events_of t a @ events_of t b"
  by (simp add: events_of_def)

lemma events_of_simps [simp]:
  "events_of t [] = []" "events_of t ((tk, sid, e) # lg) = (if tk = t then e # events_of t lg else events_of t lg)"
  by (simp_all add: events_of_def)

lemma open_events_wf: "open_events es \<Longrightarrow> closing es' \<Longrightarrow> wf_events (es @ es')"
  by (auto simp: wf_events_def)

section \<open>The invariant\<close>

definition slot_handles :: "wh_conn list \<Rightarrow> nat list" where
  "slot_handles cs = concat (map (\<lambda>c. handles (wc_ws c)) cs)"

definition pipe_handles :: "wh_result list \<Rightarrow> nat list" where
  "pipe_handles rs = concat (map (\<lambda>r. handles (job_ws r)) rs)"

definition conn_ok :: "nat \<Rightarrow> wh_emitted list \<Rightarrow> wh_conn \<Rightarrow> bool" where
  "conn_ok n lg c \<longleftrightarrow>
     (if wc_used c then wc_token c \<le> n \<and>
        (if wc_pending c then wc_ws c = None \<and> wc_msg c = [] \<and> events_of (wc_token c) lg = []
         else wc_ws c \<noteq> None \<and> open_events (events_of (wc_token c) lg) \<and> length (wc_msg c) \<le> SF_WS_MAX_MESSAGE)
      else wc_ws c = None)"

definition hub_ok :: "wh_hub \<Rightarrow> wh_emitted list \<Rightarrow> bool" where
  "hub_ok h lg \<longleftrightarrow> length (hub_c h) = WH_MAX \<and> (\<forall>i < WH_MAX. conn_ok (hub_seq h) lg (hub_c h ! i))
     \<and> (\<forall>i < WH_MAX. \<forall>j < WH_MAX. wc_used (hub_c h ! i) \<and> wc_used (hub_c h ! j)
          \<and> (wc_token (hub_c h ! i) = wc_token (hub_c h ! j) \<or> wc_id (hub_c h ! i) = wc_id (hub_c h ! j)) \<longrightarrow> i = j)
     \<and> (\<forall>t. wf_events (events_of t lg) \<and> (hub_seq h < t \<longrightarrow> events_of t lg = []))"

definition held :: "wh_world \<Rightarrow> nat multiset" where
  "held w = mset (slot_handles (hub_c (w_hub w))) + mset (pipe_handles (w_pipe w)) + mset (w_closed w)"

definition world_ok :: "wh_world \<Rightarrow> bool" where
  "world_ok w \<longleftrightarrow> hub_ok (w_hub w) (w_log w) \<and> held w = mset (w_issued w) \<and> distinct (w_issued w)"

lemma slot_handles_update:
  "i < length cs \<Longrightarrow> mset (slot_handles (cs[i := c])) + mset (handles (wc_ws (cs ! i))) = mset (slot_handles cs) + mset (handles (wc_ws c))"
  unfolding slot_handles_def
  by (induction cs arbitrary: i) (auto simp: nth_Cons split: nat.splits)

lemma find_token_Some: "find_token h t = Some i \<Longrightarrow> i < WH_MAX \<and> wc_used (hub_c h ! i) \<and> wc_token (hub_c h ! i) = t"
  by (auto simp: find_token_def find_Some_iff)

lemma find_id_Some: "find_id h sid = Some i \<Longrightarrow> i < WH_MAX \<and> wc_used (hub_c h ! i) \<and> wc_id (hub_c h ! i) = sid"
  by (auto simp: find_id_def find_Some_iff)

lemma find_id_None: "find_id h sid = None \<Longrightarrow> i < WH_MAX \<Longrightarrow> wc_used (hub_c h ! i) \<Longrightarrow> wc_id (hub_c h ! i) \<noteq> sid"
  by (auto simp: find_id_def find_None_iff)

lemma find_free_Some: "find_free h = Some i \<Longrightarrow> i < WH_MAX \<and> \<not> wc_used (hub_c h ! i)"
  by (auto simp: find_free_def find_Some_iff)

text \<open>The events of one slot leave the other slots alone.\<close>

lemma hub_ok_update:
  assumes "hub_ok h lg" and "i < WH_MAX" and "wc_used (hub_c h ! i)"
    and "ev = map (\<lambda>e. (wc_token (hub_c h ! i), sid, e)) es"
    and "conn_ok (hub_seq h) (lg @ ev) c" and "wf_events (events_of (wc_token (hub_c h ! i)) lg @ es)"
    and "wc_used c \<Longrightarrow> wc_token c = wc_token (hub_c h ! i) \<and> wc_id c = wc_id (hub_c h ! i)"
  shows "hub_ok (set_conn h i c) (lg @ ev)"
proof -
  define t where "t = wc_token (hub_c h ! i)"
  have ev: "events_of t' ev = (if t' = t then es else [])" for t'
    unfolding assms(4) t_def [symmetric] by (induction es) auto
  have len: "length (hub_c h) = WH_MAX" using assms(1) by (simp add: hub_ok_def)
  have t: "t \<le> hub_seq h" using assms(1-3) by (simp add: hub_ok_def conn_ok_def t_def split: if_splits)
  have other: "conn_ok (hub_seq h) (lg @ ev) (hub_c h ! j)" if "j < WH_MAX" "j \<noteq> i" for j
  proof -
    have "wc_used (hub_c h ! j) \<Longrightarrow> wc_token (hub_c h ! j) \<noteq> t"
      using assms(1-3) that unfolding hub_ok_def t_def by blast
    then show ?thesis using assms(1) that by (auto simp: hub_ok_def conn_ok_def ev)
  qed
  have "i' = j" if "i' < WH_MAX" "j < WH_MAX" "wc_used (hub_c (set_conn h i c) ! i')" "wc_used (hub_c (set_conn h i c) ! j)"
    "wc_token (hub_c (set_conn h i c) ! i') = wc_token (hub_c (set_conn h i c) ! j)
     \<or> wc_id (hub_c (set_conn h i c) ! i') = wc_id (hub_c (set_conn h i c) ! j)" for i' j
    using that assms(1-3,7) len unfolding hub_ok_def set_conn_def
    by (cases "i' = i"; cases "j = i") (auto simp: nth_list_update)
  moreover have "wf_events (events_of t' (lg @ ev)) \<and> (hub_seq h < t' \<longrightarrow> events_of t' (lg @ ev) = [])" for t'
    using assms(1,6) t by (auto simp: ev hub_ok_def t_def)
  ultimately show ?thesis using other assms(2,5) len
    unfolding hub_ok_def by (simp add: set_conn_def nth_list_update)
qed

text \<open>A sound step of the hub: the invariant with the events emitted, and no handle lost or doubled, where
  \<open>incoming\<close> are the handles that come with the step.\<close>

definition hub_move :: "wh_hub \<Rightarrow> wh_emitted list \<Rightarrow> nat list \<Rightarrow> wh_hub \<Rightarrow> wh_emitted list \<Rightarrow> nat list \<Rightarrow> bool" where
  "hub_move h lg incoming h' ev cl \<longleftrightarrow> hub_ok h' (lg @ ev)
     \<and> mset (slot_handles (hub_c h')) + mset cl = mset (slot_handles (hub_c h)) + mset incoming"

lemma hub_move_refl: "hub_ok h lg \<Longrightarrow> hub_move h lg inc h [] inc"
  by (simp add: hub_move_def)

lemma hub_ok_conn: "hub_ok h lg \<Longrightarrow> i < WH_MAX \<Longrightarrow> conn_ok (hub_seq h) lg (hub_c h ! i)"
  by (simp add: hub_ok_def)

lemma conn_ok_blank: "conn_ok n lg blank_conn"
  by (simp add: conn_ok_def blank_conn_def)

lemma move_clear:
  assumes "hub_ok h lg" and "i < WH_MAX" and "wc_used (hub_c h ! i)" and "conn_clear h i = (h', cl)"
    and "ev = map (\<lambda>e. (wc_token (hub_c h ! i), sid, e)) es" and "wf_events (events_of (wc_token (hub_c h ! i)) lg @ es)"
  shows "hub_move h lg [] h' ev cl"
proof -
  have "hub_ok (set_conn h i blank_conn) (lg @ ev)"
    using assms(1-3,5) by (rule hub_ok_update) (simp_all add: conn_ok_blank assms(6), simp add: blank_conn_def)
  moreover have "length (hub_c h) = WH_MAX" using assms(1) by (simp add: hub_ok_def)
  ultimately show ?thesis using assms(2,4) slot_handles_update [of i "hub_c h" blank_conn]
    by (auto simp: hub_move_def conn_clear_def set_conn_def blank_conn_def handles_def)
qed

lemma conn_open_events:
  assumes "hub_ok h lg" "i < WH_MAX" "wc_used (hub_c h ! i)"
  shows "wf_events (events_of (wc_token (hub_c h ! i)) lg)"
    and "\<not> wc_pending (hub_c h ! i) \<Longrightarrow> open_events (events_of (wc_token (hub_c h ! i)) lg)"
    and "wc_pending (hub_c h ! i) \<Longrightarrow> events_of (wc_token (hub_c h ! i)) lg = []"
  using assms hub_ok_conn [OF assms(1,2)] by (auto simp: hub_ok_def conn_ok_def)

lemma move_notify:
  assumes "hub_ok h lg" and "notify_one h r = (h', ev, cl)"
  shows "hub_move h lg (handles (job_ws r)) h' ev cl"
proof (cases "find_token h (job_token r)")
  case None
  then show ?thesis using assms hub_move_refl by (simp add: notify_one_def)
next
  case (Some i)
  note f = find_token_Some [OF Some]
  have i: "i < WH_MAX" "wc_used (hub_c h ! i)" and tok: "wc_token (hub_c h ! i) = job_token r" using f by simp_all
  have len: "length (hub_c h) = WH_MAX" using assms(1) by (simp add: hub_ok_def)
  note ce = conn_open_events [OF assms(1) i]
  show ?thesis
  proof (cases "wc_pending (hub_c h ! i)")
    case False
    then show ?thesis using assms Some hub_move_refl by (simp add: notify_one_def)
  next
    case True
    have ws: "wc_ws (hub_c h ! i) = None" using hub_ok_conn [OF assms(1) i(1)] i(2) True by (simp add: conn_ok_def)
    show ?thesis
    proof (cases "job_ok r \<and> job_ws r \<noteq> None")
      case ok: True
      define c where "c = (hub_c h ! i)\<lparr>wc_ws := job_ws r, wc_pending := False\<rparr>"
      have ev: "h' = set_conn h i c" "ev = map (\<lambda>e. (wc_token (hub_c h ! i), job_id r, e)) [Ev_Open]" "cl = []"
        using assms(2) Some True ok tok by (auto simp: notify_one_def c_def)
      have msg: "wc_msg (hub_c h ! i) = []" using hub_ok_conn [OF assms(1) i(1)] i(2) True by (simp add: conn_ok_def)
      have "hub_ok (set_conn h i c) (lg @ ev)"
        using assms(1) i ev(2)
      proof (rule hub_ok_update)
        show "conn_ok (hub_seq h) (lg @ ev) c"
          using ok msg i(2) hub_ok_conn [OF assms(1) i(1)] ce(3) [OF True] by (simp add: conn_ok_def c_def ev(2) open_events_def)
        show "wf_events (events_of (wc_token (hub_c h ! i)) lg @ [Ev_Open])"
          using ce(3) [OF True] open_events_wf [of "[Ev_Open]" "[]"] by (simp add: open_events_def closing_def)
      qed (simp add: c_def)
      then show ?thesis using ev i(1) len ws slot_handles_update [of i "hub_c h" c]
        by (simp add: hub_move_def set_conn_def handles_def c_def)
    next
      case bad: False
      have ev: "h' = set_conn h i blank_conn" "cl = handles (job_ws r)"
        "ev = map (\<lambda>e. (wc_token (hub_c h ! i), job_id r, e)) [Ev_Error, Ev_Close WH_CLOSE_ABNORMAL []]"
        using assms(2) Some True bad tok by (auto simp: notify_one_def)
      have "hub_ok (set_conn h i blank_conn) (lg @ ev)"
        using assms(1) i ev(3)
        by (rule hub_ok_update) (simp_all add: conn_ok_blank ce(3) [OF True] wf_events_def, simp add: blank_conn_def)
      then show ?thesis using ev i(1) len ws slot_handles_update [of i "hub_c h" blank_conn]
        by (simp add: hub_move_def set_conn_def handles_def blank_conn_def)
    qed
  qed
qed

lemma move_fail:
  assumes "hub_ok h lg" and "i < WH_MAX" and "wc_used (hub_c h ! i)" "\<not> wc_pending (hub_c h ! i)"
    and "fail_conn h i (wc_token (hub_c h ! i)) sid = (h', ev, cl, go)"
  shows "hub_move h lg [] h' ev cl"
proof (rule move_clear [OF assms(1-3)])
  show "conn_clear h i = (h', cl)" using assms(5) by (simp add: fail_conn_def Let_def split: prod.splits)
  show "ev = map (\<lambda>e. (wc_token (hub_c h ! i), sid, e)) [Ev_Error, Ev_Close WH_CLOSE_ABNORMAL []]"
    using assms(5) by (simp add: fail_conn_def Let_def split: prod.splits)
  show "wf_events (events_of (wc_token (hub_c h ! i)) lg @ [Ev_Error, Ev_Close WH_CLOSE_ABNORMAL []])"
    using conn_open_events(2) [OF assms(1-4)] by (rule open_events_wf) (simp add: closing_def)
qed

lemma move_data:
  assumes "hub_ok h lg" and "i < WH_MAX" and "wc_used (hub_c h ! i)" "\<not> wc_pending (hub_c h ! i)"
    and "data_frame alloc h i (wc_token (hub_c h ! i)) sid got fl left = (h', ev, cl, go)"
  shows "hub_move h lg [] h' ev cl"
proof -
  define c where "c = (if wc_msg (hub_c h ! i) = [] then (hub_c h ! i)\<lparr>wc_binary := fl_binary fl\<rparr> else hub_c h ! i)"
  have len: "length (hub_c h) = WH_MAX" using assms(1) by (simp add: hub_ok_def)
  have c: "wc_used c" "\<not> wc_pending c" "wc_token c = wc_token (hub_c h ! i)" "wc_id c = wc_id (hub_c h ! i)"
    "wc_ws c = wc_ws (hub_c h ! i)" "wc_msg c = wc_msg (hub_c h ! i)" using assms(3,4) by (simp_all add: c_def)
  have cok: "wc_token (hub_c h ! i) \<le> hub_seq h" "wc_ws (hub_c h ! i) \<noteq> None" "length (wc_msg (hub_c h ! i)) \<le> SF_WS_MAX_MESSAGE"
    using hub_ok_conn [OF assms(1,2)] assms(3,4) by (simp_all add: conn_ok_def)
  note oe = conn_open_events(2) [OF assms(1-4)]
  have keep: "hub_move h lg [] (set_conn h i (c\<lparr>wc_msg := m\<rparr>)) ev' []"
    if "ev' = map (\<lambda>e. (wc_token (hub_c h ! i), sid, e)) es" "list_all is_message es" "length m \<le> SF_WS_MAX_MESSAGE" for m ev' es
  proof -
    have es: "open_events (events_of (wc_token (hub_c h ! i)) lg @ es)" using oe that(2) by (auto simp: open_events_def)
    have ev': "events_of (wc_token (hub_c h ! i)) ev' = es" unfolding that(1) by (induction es) auto
    have "hub_ok (set_conn h i (c\<lparr>wc_msg := m\<rparr>)) (lg @ ev')"
      using assms(1-3) that(1)
    proof (rule hub_ok_update)
      show "conn_ok (hub_seq h) (lg @ ev') (c\<lparr>wc_msg := m\<rparr>)" using c cok es ev' that(3) by (simp add: conn_ok_def)
      show "wf_events (events_of (wc_token (hub_c h ! i)) lg @ es)"
        using open_events_wf [OF es, of "[]"] by (simp add: closing_def)
    qed (simp add: c)
    then show ?thesis using assms(2) len c(5) slot_handles_update [of i "hub_c h" "c\<lparr>wc_msg := m\<rparr>"]
      by (simp add: hub_move_def set_conn_def)
  qed
  have df: "data_frame alloc h i (wc_token (hub_c h ! i)) sid got fl left =
     (if length got > SF_WS_MAX_MESSAGE - length (wc_msg c) \<or> \<not> alloc (length (wc_msg c) + length got + 1)
      then fail_conn h i (wc_token (hub_c h ! i)) sid
      else if left = 0 \<and> \<not> fl_cont fl
      then (set_conn h i (c\<lparr>wc_msg := []\<rparr>), [(wc_token (hub_c h ! i), sid, message_event (wc_binary c) (wc_msg c @ got))], [], True)
      else (set_conn h i (c\<lparr>wc_msg := wc_msg c @ got\<rparr>), [], [], True))"
    unfolding data_frame_def Let_def c_def by simp
  show ?thesis
  proof (cases "length got > SF_WS_MAX_MESSAGE - length (wc_msg c) \<or> \<not> alloc (length (wc_msg c) + length got + 1)")
    case True
    then show ?thesis using assms(5) move_fail [OF assms(1-4)] by (simp add: df)
  next
    case False
    then have "length got \<le> SF_WS_MAX_MESSAGE - length (wc_msg c)" by simp
    then have le: "length (wc_msg c @ got) \<le> SF_WS_MAX_MESSAGE" using cok(3) unfolding c(6) by simp
    have "is_message (message_event (wc_binary c) (wc_msg c @ got))" using le unfolding is_message_def by blast
    then show ?thesis using le False assms(5) keep [of ev "if left = 0 \<and> \<not> fl_cont fl then [message_event (wc_binary c) (wc_msg c @ got)] else []"
        "if left = 0 \<and> \<not> fl_cont fl then [] else wc_msg c @ got"]
      by (auto simp: df split: if_splits)
  qed
qed

lemma move_read:
  assumes "hub_ok h lg" and "find_token h token = Some i" and "\<not> wc_pending (hub_c h ! i)"
    and "read_one alloc h token sid rcv = (h', ev, cl, go)"
  shows "hub_move h lg [] h' ev cl"
proof -
  have i: "i < WH_MAX" "wc_used (hub_c h ! i)" and tok: "token = wc_token (hub_c h ! i)" using find_token_Some [OF assms(2)] by simp_all
  show ?thesis
  proof (cases rcv)
    case Recv_Fail
    then show ?thesis using assms(2,4) move_fail [OF assms(1) i assms(3)] by (simp add: read_one_def tok)
  next
    case (Recv got fl left)
    consider (idle) "got = [] \<and> no_flags fl \<or> \<not> fl_close fl \<and> (fl_ping fl \<or> fl_pong fl)"
      | (close) "\<not> (got = [] \<and> no_flags fl)" "fl_close fl"
      | (data) "\<not> (got = [] \<and> no_flags fl)" "\<not> fl_close fl" "\<not> (fl_ping fl \<or> fl_pong fl)" by blast
    then show ?thesis
    proof cases
      case idle
      then show ?thesis using assms(2,4) Recv hub_move_refl [OF assms(1), of "[]"]
        by (auto simp: read_one_def split: if_splits)
    next
      case close
      show ?thesis
      proof (rule move_clear [OF assms(1) i])
        show "conn_clear h i = (h', cl)" using assms(2,4) Recv close by (auto simp: read_one_def Let_def split: prod.splits)
        show "ev = map (\<lambda>e. (wc_token (hub_c h ! i), sid, e)) [close_event got]"
          using assms(2,4) Recv close by (auto simp: read_one_def Let_def tok split: prod.splits)
        show "wf_events (events_of (wc_token (hub_c h ! i)) lg @ [close_event got])"
          using conn_open_events(2) [OF assms(1) i assms(3)] by (rule open_events_wf) (simp add: closing_def close_event_def)
      qed
    next
      case data
      then have "data_frame alloc h i (wc_token (hub_c h ! i)) sid got fl left = (h', ev, cl, go)"
        using assms(2,4) Recv by (auto simp: read_one_def tok split: if_splits)
      then show ?thesis by (rule move_data [OF assms(1) i assms(3)])
    qed
  qed
qed

lemma move_close:
  assumes "hub_ok h lg" and "wh_close h sid = (h', cl)"
  shows "hub_move h lg [] h' [] cl"
proof (cases "find_id h sid")
  case None
  then show ?thesis using assms hub_move_refl by (simp add: wh_close_def)
next
  case (Some i)
  have i: "i < WH_MAX" "wc_used (hub_c h ! i)" using find_id_Some [OF Some] by simp_all
  show ?thesis using assms(2) Some conn_open_events(1) [OF assms(1) i]
    by (intro move_clear [OF assms(1) i, of h' cl "[]" 0 "[]"]) (simp_all add: wh_close_def)
qed

lemma move_close_from:
  assumes "hub_ok h lg" and "\<forall>i \<in> set is. i < WH_MAX" and "close_from h is = (h', cl)"
  shows "hub_move h lg [] h' [] cl"
  using assms
proof (induction "is" arbitrary: h h' cl)
  case Nil
  then show ?case using hub_move_refl by simp
next
  case (Cons i "is")
  show ?case
  proof (cases "wc_used (hub_c h ! i)")
    case True
    obtain h1 c1 h2 c2 where r: "conn_clear h i = (h1, c1)" "close_from h1 is = (h2, c2)" by (metis surj_pair)
    have i: "i < WH_MAX" using Cons.prems(2) by simp
    have m: "hub_move h lg [] h1 [] c1"
      using r(1) conn_open_events(1) [OF Cons.prems(1) i True]
      by (intro move_clear [OF Cons.prems(1) i True, of h1 c1 "[]" 0 "[]"]) simp_all
    then have "hub_ok h1 lg" by (simp add: hub_move_def)
    then have "hub_move h1 lg [] h2 [] c2" using Cons.IH r(2) Cons.prems(2) by simp
    then have "mset (slot_handles (hub_c h2)) + (mset c1 + mset c2) = mset (slot_handles (hub_c h)) \<and> hub_ok h2 lg"
      using m by (simp add: hub_move_def) (metis add.assoc add.commute)
    moreover have "h' = h2 \<and> cl = c1 @ c2" using Cons.prems(3) r True by simp
    ultimately show ?thesis by (simp add: hub_move_def)
  qed (use Cons in auto)
qed

lemma move_open:
  assumes "hub_ok h lg" and "wh_open_async mem thr h sid url = (rc, h', job)"
  shows "hub_move h lg [] h' [] []"
proof -
  have seq: "hub_ok (h\<lparr>hub_seq := hub_seq h + 1\<rparr>) lg"
    using assms(1) by (auto simp: hub_ok_def conn_ok_def)
  show ?thesis
  proof (cases "\<exists>i. find_id h sid = None \<and> find_free h = Some i \<and> mem \<and> thr \<and> url \<noteq> None")
    case True
    then obtain i where i: "find_id h sid = None" "find_free h = Some i" "mem" "thr" "url \<noteq> None" by blast
    define c where "c = blank_conn\<lparr>wc_used := True, wc_pending := True, wc_id := sid, wc_token := hub_seq h + 1\<rparr>"
    have h': "h' = set_conn (h\<lparr>hub_seq := hub_seq h + 1\<rparr>) i c"
      using assms(2) i by (cases url) (auto simp: c_def Let_def)
    note f = find_free_Some [OF i(2)]
    have len: "length (hub_c h) = WH_MAX" using assms(1) by (simp add: hub_ok_def)
    have c: "conn_ok (hub_seq h + 1) lg c" "wc_ws c = None" "wc_token c = hub_seq h + 1" "wc_id c = sid"
      using assms(1) by (simp_all add: conn_ok_def c_def blank_conn_def hub_ok_def)
    have fresh: "wc_token (hub_c h ! j) \<noteq> hub_seq h + 1 \<and> wc_id (hub_c h ! j) \<noteq> sid" if "j < WH_MAX" "wc_used (hub_c h ! j)" for j
      using hub_ok_conn [OF assms(1) that(1)] that find_id_None [OF i(1) that] by (auto simp: conn_ok_def)
    have "hub_ok h' lg"
      using seq c fresh len f unfolding hub_ok_def h' set_conn_def
      by (auto simp: nth_list_update) (metis)+
    moreover have "wc_ws (hub_c h ! i) = None" using hub_ok_conn [OF assms(1)] f by (auto simp: conn_ok_def)
    ultimately show ?thesis using slot_handles_update [of i "hub_c h" c] f len c(2)
      by (simp add: hub_move_def h' set_conn_def handles_def)
  next
    case False
    then have "h' = h \<or> h' = h\<lparr>hub_seq := hub_seq h + 1\<rparr>"
      using assms(2) by (cases url) (auto simp: Let_def split: if_splits option.splits)
    then show ?thesis using assms(1) seq by (auto simp: hub_move_def)
  qed
qed

lemma world_ok_move:
  assumes "world_ok w" and "hub_move (w_hub w) (w_log w) (pipe_handles gone) h ev cl" and "w_pipe w = gone @ rest"
  shows "world_ok (w\<lparr>w_hub := h, w_pipe := rest, w_log := w_log w @ ev, w_closed := w_closed w @ cl\<rparr>)"
proof -
  have "mset (slot_handles (hub_c h)) + mset cl = mset (slot_handles (hub_c (w_hub w))) + mset (pipe_handles gone)"
    using assms(2) by (simp add: hub_move_def)
  moreover have "mset (pipe_handles (w_pipe w)) = mset (pipe_handles gone) + mset (pipe_handles rest)"
    by (simp add: assms(3) pipe_handles_def)
  moreover have "(a + p) + (k + b) = (a + b) + (p + k)" for a p k b :: "nat multiset" by (simp add: ac_simps)
  ultimately show ?thesis using assms(1,2) by (simp add: world_ok_def hub_move_def held_def) (metis add.assoc add.commute)
qed

lemma world_ok_step:
  assumes "wh_step w w'" and "world_ok w"
  shows "world_ok w'"
proof -
  have ok: "hub_ok (w_hub w) (w_log w)" using assms(2) by (simp add: world_ok_def)
  have quiet: "world_ok (w\<lparr>w_hub := h, w_log := w_log w @ ev, w_closed := w_closed w @ cl\<rparr>)"
    if "hub_move (w_hub w) (w_log w) [] h ev cl" for h ev cl
    using world_ok_move [OF assms(2), of "[]" h ev cl "w_pipe w"] that by (simp add: pipe_handles_def)
  from assms(1) show ?thesis
  proof (cases rule: wh_step.cases)
    case (step_open mem thr sid url rc h job)
    then show ?thesis using quiet [of h "[]" "[]"] move_open [OF ok] by (simp add: world_ok_def held_def)
  next
    case (step_finish j ws ok')
    have "distinct (w_issued w @ handles ws)"
      using step_finish(3) assms(2) by (auto simp: world_ok_def handles_def split: option.splits)
    then show ?thesis using step_finish(1) assms(2)
      by (simp add: world_ok_def held_def pipe_handles_def) (metis add.assoc add.commute)
  next
    case (step_notify r rs h ev cl)
    then show ?thesis using world_ok_move [OF assms(2), of "[r]" h ev cl rs] move_notify [OF ok, of r h ev cl]
      by (simp add: pipe_handles_def)
  next
    case (step_read token i alloc rcv h ev cl go)
    then show ?thesis using quiet move_read [OF ok] by blast
  next
    case (step_close sid h cl)
    then show ?thesis using quiet [of h "[]" cl] move_close [OF ok] by simp
  next
    case (step_close_all h cl)
    then show ?thesis using quiet [of h "[]" cl] move_close_from [OF ok, of "[0..<WH_MAX]" h cl]
      by (simp add: wh_close_all_def)
  qed
qed

lemma world_ok_init: "world_ok world_init"
  by (auto simp: world_ok_def world_init_def hub_ok_def wh_new_def held_def slot_handles_def pipe_handles_def
      conn_ok_def blank_conn_def wf_events_def handles_def)

lemma world_ok_reach: "wh_reach w \<Longrightarrow> world_ok w"
  by (induction rule: wh_reach.induct) (auto intro: world_ok_init world_ok_step)

lemma close_from_unused:
  assumes "close_from h is = (h', cl)" and "\<forall>i \<in> set is. i < length (hub_c h)"
    and "i < length (hub_c h)" and "i \<in> set is \<or> \<not> wc_used (hub_c h ! i)"
  shows "\<not> wc_used (hub_c h' ! i)"
  using assms
proof (induction "is" arbitrary: h cl)
  case (Cons k "is")
  show ?case
  proof (cases "wc_used (hub_c h ! k)")
    case True
    define h1 where "h1 = set_conn h k blank_conn"
    obtain cl1 where "close_from h1 is = (h', cl1)"
      using Cons.prems(1) True by (auto simp: conn_clear_def Let_def h1_def split: prod.splits)
    moreover have "length (hub_c h1) = length (hub_c h)" by (simp add: h1_def set_conn_def)
    moreover have "i \<in> set is \<or> \<not> wc_used (hub_c h1 ! i)"
      using Cons.prems(3,4) by (cases "i = k") (auto simp: h1_def set_conn_def blank_conn_def)
    ultimately show ?thesis using Cons.IH [of h1 cl1] Cons.prems(2,3) by simp
  next
    case False
    then show ?thesis using Cons.IH [of h cl] Cons.prems by auto
  qed
qed simp

lemma wh_close_all_handles:
  assumes "hub_ok h lg" and "wh_close_all h = (h', cl)"
  shows "mset cl = mset (slot_handles (hub_c h))"
proof -
  have mv: "hub_move h lg [] h' [] cl"
    using assms move_close_from [of h lg "[0..<WH_MAX]" h' cl] by (simp add: wh_close_all_def)
  then have ok: "hub_ok h' lg" by (simp add: hub_move_def)
  have "\<not> wc_used (hub_c h' ! i)" if "i < WH_MAX" for i
    using close_from_unused [of h "[0..<WH_MAX]" h' cl i] assms that by (simp add: wh_close_all_def hub_ok_def)
  then have "wc_ws (hub_c h' ! i) = None" if "i < WH_MAX" for i
    using hub_ok_conn [OF ok that] that by (simp add: conn_ok_def)
  then have "\<forall>c \<in> set (hub_c h'). wc_ws c = None" using ok by (auto simp: hub_ok_def in_set_conv_nth)
  then have "slot_handles (hub_c h') = []" by (simp add: slot_handles_def handles_def)
  then show ?thesis using mv by (simp add: hub_move_def)
qed


text \<open>A run: the page opens socket 7, the thread connects with handle 3 and the hub takes it over.\<close>

definition wit_open :: wh_world where
  "wit_open = world_init\<lparr>w_hub := \<lparr>hub_c = (blank_conn\<lparr>wc_used := True, wc_pending := True, wc_id := 7, wc_token := 1\<rparr>)
     # replicate 7 blank_conn, hub_seq = 1\<rparr>, w_running := [\<lparr>job_token = 1, job_id = 7\<rparr>]\<rparr>"

definition wit_done :: wh_world where
  "wit_done = wit_open\<lparr>w_running := [], w_issued := [3],
     w_pipe := [\<lparr>job_token = 1, job_id = 7, job_ok = True, job_ws = Some 3\<rparr>]\<rparr>"

definition wit_notified :: wh_world where
  "wit_notified = wit_done\<lparr>w_hub := \<lparr>hub_c = (blank_conn\<lparr>wc_used := True, wc_id := 7, wc_token := 1, wc_ws := Some 3\<rparr>)
     # replicate 7 blank_conn, hub_seq = 1\<rparr>, w_pipe := [], w_log := [(1, 7, Ev_Open)]\<rparr>"

lemma wit_reach: "wh_reach wit_notified"
proof -
  have up: "[0..<WH_MAX] = [0,1,2,3,4,5,6,7]" by (simp add: WH_MAX_def upt_conv_Cons)
  have s1: "wh_step world_init wit_open"
    using step_open [of True True world_init 7 "Some ''wss://h/''" 0 "w_hub wit_open" "Some \<lparr>job_token = 1, job_id = 7\<rparr>"]
    by (simp add: wit_open_def world_init_def wh_new_def find_id_def find_free_def up blank_conn_def set_conn_def WH_MAX_def numeral_eq_Suc)
  have s2: "wh_step wit_open wit_done"
    using step_finish [of "\<lparr>job_token = 1, job_id = 7\<rparr>" wit_open "Some 3" True]
    by (simp add: wit_done_def wit_open_def world_init_def handles_def)
  have s3: "wh_step wit_done wit_notified"
    using step_notify [of wit_done "\<lparr>job_token = 1, job_id = 7, job_ok = True, job_ws = Some 3\<rparr>" "[]" "w_hub wit_notified" "[(1, 7, Ev_Open)]" "[]"]
    by (simp add: wit_notified_def wit_done_def wit_open_def world_init_def notify_one_def find_token_def up blank_conn_def set_conn_def)
  show ?thesis using reach_init s1 s2 s3 by (blast intro: reach_step)
qed


end
