(* ===== verification/Link_Nav.thy ===== *)
theory Link_Nav
  imports Url
begin

text \<open>
  The module \<^verbatim>\<open>src/link_nav.c\<close>: what a click on a link does. The reference of the page is cleaned, its
  fragment is split off, and the rest is resolved against the page's location: through \<open>Url\<close> on an
  https page, as a file path on a local one. Local paths are normalised segment by segment; the
  normal form names the same file, whatever directory a relative path starts from.
\<close>

section \<open>Model\<close>

definition LN_MAX_TARGET :: nat where "LN_MAX_TARGET = 8448"
definition LN_MAX_FRAGMENT :: nat where "LN_MAX_FRAGMENT = 256"

datatype ln_action = LN_NAVIGATE | LN_SAME_DOCUMENT | LN_BLOCKED
datatype ln_target_kind = LN_TARGET_NONE | LN_TARGET_HTTPS | LN_TARGET_FILE
datatype ln_block_reason = LN_BLOCK_NONE | LN_BLOCK_DOWNGRADE | LN_BLOCK_FOREIGN_SCHEME
  | LN_BLOCK_NO_BASE | LN_BLOCK_UNSUPPORTED
datatype ln_status = LN_OK | LN_ERR_NULL_ARG

record ln_result =
  ln_act :: ln_action
  ln_kind :: ln_target_kind
  ln_reason :: ln_block_reason
  ln_target :: string
  ln_fragment :: string

text \<open>The copying loop of \<^verbatim>\<open>clean_href\<close>, then its two trims.\<close>

fun clean_copy :: "nat \<Rightarrow> string \<Rightarrow> string \<Rightarrow> string option" where
  "clean_copy outsz out [] = Some out"
| "clean_copy outsz out (c # s) =
     (if c = CHR 0x09 \<or> c = CHR 0x0A \<or> c = CHR 0x0D then clean_copy outsz out s
      else if length out + 1 \<ge> outsz then None
      else clean_copy outsz (out @ [c]) s)"

definition trim_spaces :: "string \<Rightarrow> string" where
  "trim_spaces s = rev (dropWhile (\<lambda>c. c = CHR '' '') (rev (dropWhile (\<lambda>c. c = CHR '' '') s)))"

definition clean_href :: "string \<Rightarrow> nat \<Rightarrow> string option" where
  "clean_href href outsz = map_option trim_spaces (clean_copy outsz [] href)"

text \<open>The reference without its fragment, and the fragment if it fits.\<close>

definition split_fragment :: "string \<Rightarrow> nat \<Rightarrow> string \<times> string" where
  "split_fragment ref fragsz =
     (takeWhile (\<lambda>c. c \<noteq> CHR ''#'') ref,
      case dropWhile (\<lambda>c. c \<noteq> CHR ''#'') ref of
        [] \<Rightarrow> []
      | _ # f \<Rightarrow> if length f + 1 \<le> fragsz then f else [])"

definition classify_block :: "string \<Rightarrow> ln_block_reason" where
  "classify_block ref =
     (if ci_prefix ref ''http://'' then LN_BLOCK_DOWNGRADE
      else if url_has_scheme (Some ref) then LN_BLOCK_FOREIGN_SCHEME
      else LN_BLOCK_UNSUPPORTED)"

subsection \<open>File paths\<close>

definition file_dir_len :: "string \<Rightarrow> nat" where
  "file_dir_len base = length base - length (takeWhile (\<lambda>c. c \<noteq> CHR ''/'') (rev base))"

definition last_seg_is_dotdot :: "string \<Rightarrow> bool" where
  "last_seg_is_dotdot body \<longleftrightarrow> rev (takeWhile (\<lambda>c. c \<noteq> CHR ''/'') (rev body)) = ''..''"

definition append_seg :: "nat \<Rightarrow> string \<Rightarrow> string \<Rightarrow> string option" where
  "append_seg bodysz body seg =
     (let need = (if body \<noteq> [] then 1 else 0) + length seg in
      if length body + need + 1 > bodysz then None
      else Some ((if body \<noteq> [] then body @ ''/'' else body) @ seg))"

definition pop_seg :: "string \<Rightarrow> string" where
  "pop_seg body = rev (tl (dropWhile (\<lambda>c. c \<noteq> CHR ''/'') (rev body)))"

text \<open>What the loop does with one segment.\<close>

definition norm_segment :: "bool \<Rightarrow> string \<Rightarrow> string \<Rightarrow> string option" where
  "norm_segment absolute body seg =
     (if seg = ''.'' then Some body
      else if seg = ''..'' then
        (if body \<noteq> [] \<and> \<not> last_seg_is_dotdot body then Some (pop_seg body)
         else if \<not> absolute then append_seg LN_MAX_TARGET body ''..''
         else Some body)
      else append_seg LN_MAX_TARGET body seg)"

function norm_loop :: "bool \<Rightarrow> string \<Rightarrow> string \<Rightarrow> string option" where
  "norm_loop absolute body [] = Some body"
| "norm_loop absolute body (c # s) =
     (if c = CHR ''/'' then norm_loop absolute body s
      else case norm_segment absolute body (takeWhile (\<lambda>x. x \<noteq> CHR ''/'') (c # s)) of
          None \<Rightarrow> None
        | Some b \<Rightarrow> norm_loop absolute b (dropWhile (\<lambda>x. x \<noteq> CHR ''/'') (c # s)))"
  by pat_completeness auto
termination
  by (relation "measure (\<lambda>(a, b, s). length s)") (auto simp: length_dropWhile_le le_imp_less_Suc)

definition normalize_file_path :: "string \<Rightarrow> nat \<Rightarrow> string option" where
  "normalize_file_path path outsz =
     (let absolute = prefix ''/'' path in
      case norm_loop absolute [] path of
        None \<Rightarrow> None
      | Some body \<Rightarrow>
        (let need = (if absolute then 1 else 0) + length body in
         if need + 1 > outsz then None
         else if need = 0 then None
         else Some ((if absolute then ''/'' else []) @ body)))"

text \<open>The path before normalisation: an absolute reference, or the base's directory and the reference.\<close>

definition merge_file :: "string \<Rightarrow> string \<Rightarrow> string" where
  "merge_file base r = (if prefix ''/'' r then r else take (file_dir_len base) base @ r)"

definition resolve_file :: "string \<Rightarrow> string \<Rightarrow> nat \<Rightarrow> string option" where
  "resolve_file base ref outsz =
     (let r = takeWhile (\<lambda>c. c \<noteq> CHR ''#'') ref in
      if length r + 1 > LN_MAX_TARGET then None
      else if r = [] then None
      else if length (merge_file base r) + 1 > LN_MAX_TARGET then None
      else normalize_file_path (merge_file base r) outsz)"

subsection \<open>The decision\<close>

definition blocked_result :: "ln_block_reason \<Rightarrow> string \<Rightarrow> ln_result" where
  "blocked_result reason frag = \<lparr> ln_act = LN_BLOCKED, ln_kind = LN_TARGET_NONE, ln_reason = reason, ln_target = [], ln_fragment = frag \<rparr>"

definition navigate_result :: "ln_target_kind \<Rightarrow> string \<Rightarrow> string \<Rightarrow> ln_result" where
  "navigate_result kind target frag = \<lparr> ln_act = LN_NAVIGATE, ln_kind = kind, ln_reason = LN_BLOCK_NONE, ln_target = target, ln_fragment = frag \<rparr>"

text \<open>The reference \<open>clean\<close> is not empty and has no fragment.\<close>

definition ln_decide :: "cptr \<Rightarrow> string \<Rightarrow> string \<Rightarrow> ln_result" where
  "ln_decide base clean frag =
     (if url_is_https base then
        (case url_resolve_https base (Some clean) (Some LN_MAX_TARGET) of
          Inr target \<Rightarrow> navigate_result LN_TARGET_HTTPS target frag
        | Inl _ \<Rightarrow> blocked_result (classify_block clean) frag)
      else if url_has_scheme (Some clean) then
        (if url_is_https (Some clean) \<and> length clean + 1 \<le> LN_MAX_TARGET
         then navigate_result LN_TARGET_HTTPS clean frag
         else blocked_result (classify_block clean) frag)
      else if prefix ''//'' clean then blocked_result LN_BLOCK_UNSUPPORTED frag
      else case base of
          None \<Rightarrow> blocked_result LN_BLOCK_NO_BASE frag
        | Some b \<Rightarrow>
          (case resolve_file b clean LN_MAX_TARGET of
            Some target \<Rightarrow> navigate_result LN_TARGET_FILE target frag
          | None \<Rightarrow> blocked_result LN_BLOCK_UNSUPPORTED frag))"

text \<open>\<open>out\<close> says whether the caller's result pointer is there.\<close>

fun ln_resolve :: "cptr \<Rightarrow> cptr \<Rightarrow> bool \<Rightarrow> ln_status + ln_result" where
  "ln_resolve base href False = Inl LN_ERR_NULL_ARG"
| "ln_resolve base None True = Inr (blocked_result LN_BLOCK_UNSUPPORTED [])"
| "ln_resolve base (Some href) True =
     (case clean_href href LN_MAX_TARGET of
        None \<Rightarrow> Inr (blocked_result LN_BLOCK_UNSUPPORTED [])
      | Some s \<Rightarrow>
        (let (clean, frag) = split_fragment s LN_MAX_FRAGMENT in
         if clean = [] then
           Inr \<lparr> ln_act = LN_SAME_DOCUMENT, ln_kind = LN_TARGET_NONE, ln_reason = LN_BLOCK_NONE, ln_target = [], ln_fragment = frag \<rparr>
         else Inr (ln_decide base clean frag)))"

fun ln_block_reason_text :: "ln_block_reason \<Rightarrow> string" where
  "ln_block_reason_text LN_BLOCK_NONE = ''not blocked''"
| "ln_block_reason_text LN_BLOCK_DOWNGRADE = ''blocked: insecure http link''"
| "ln_block_reason_text LN_BLOCK_FOREIGN_SCHEME = ''blocked: unsupported link type''"
| "ln_block_reason_text LN_BLOCK_NO_BASE = ''blocked: no page to resolve against''"
| "ln_block_reason_text LN_BLOCK_UNSUPPORTED = ''blocked: link cannot be resolved''"

section \<open>What a path names\<close>

text \<open>The file a path names in a tree without links: directories are entered and left one at a time.\<close>

definition cd :: "string list \<Rightarrow> string \<Rightarrow> string list" where
  "cd d s = (if s = [] \<or> s = ''.'' then d else if s = ''..'' then butlast d else d @ [s])"

definition walk :: "string list \<Rightarrow> string \<Rightarrow> string list" where
  "walk cwd p = foldl cd (if prefix ''/'' p then [] else cwd) (split_on CHR ''/'' p)"

definition plain_seg :: "string \<Rightarrow> bool" where
  "plain_seg s \<longleftrightarrow> s \<noteq> [] \<and> s \<noteq> ''.'' \<and> s \<noteq> ''..'' \<and> CHR ''/'' \<notin> set s"

fun join_slash :: "string list \<Rightarrow> string" where
  "join_slash [] = []"
| "join_slash [s] = s"
| "join_slash (s # ss) = s @ CHR ''/'' # join_slash ss"

text \<open>The normal form: climbs first, only in a relative path, then plain names.\<close>

definition norm_segs :: "bool \<Rightarrow> string list \<Rightarrow> bool" where
  "norm_segs absolute ss \<longleftrightarrow>
     (\<exists>k names. ss = replicate k ''..'' @ names \<and> list_all plain_seg names \<and> (absolute \<longrightarrow> k = 0))"

definition normal_path :: "string \<Rightarrow> bool" where
  "normal_path p \<longleftrightarrow>
     (\<exists>ss. norm_segs (prefix ''/'' p) ss \<and> p = (if prefix ''/'' p then ''/'' else []) @ join_slash ss)"


lemma cd_Nil [simp]: "cd d [] = d" by (simp add: cd_def)

lemma split_on_foldl_cd:
  "foldl cd d (split_on CHR ''/'' p)
     = foldl cd (cd d (takeWhile (\<lambda>x. x \<noteq> CHR ''/'') p)) (split_on CHR ''/'' (dropWhile (\<lambda>x. x \<noteq> CHR ''/'') p))"
proof (cases "CHR ''/'' \<in> set p")
  case True
  then obtain a b where p: "p = a @ CHR ''/'' # b" "CHR ''/'' \<notin> set a" by (metis split_list_first)
  then show ?thesis by (simp add: split_on_append_sep split_on_no_sep)
next
  case False
  then show ?thesis by (simp add: split_on_no_sep)
qed

lemma join_slash_snoc: "join_slash (ss @ [s]) = (if ss = [] then s else join_slash ss @ CHR ''/'' # s)"
  by (induction ss rule: join_slash.induct) auto

lemma split_join_slash: "ss \<noteq> [] \<Longrightarrow> \<forall>s \<in> set ss. CHR ''/'' \<notin> set s \<Longrightarrow> split_on CHR ''/'' (join_slash ss) = ss"
  by (induction ss rule: join_slash.induct) (auto simp: split_on_append_sep split_on_no_sep)

lemma norm_segs_elem: "norm_segs absolute ss \<Longrightarrow> s \<in> set ss \<Longrightarrow> s \<noteq> [] \<and> CHR ''/'' \<notin> set s"
proof -
  assume "norm_segs absolute ss" "s \<in> set ss"
  then have "s = ''..'' \<or> plain_seg s" unfolding norm_segs_def list_all_iff by (metis Un_iff in_set_replicate set_append)
  then show ?thesis by (auto simp: plain_seg_def)
qed

lemma join_slash_Nil:
  assumes "norm_segs absolute ss"
  shows "join_slash ss = [] \<longleftrightarrow> ss = []"
proof (cases ss rule: join_slash.cases)
  case (2 s)
  then show ?thesis using norm_segs_elem [OF assms, of s] by simp
qed simp_all

lemma takeWhile_rev_last: "CHR ''/'' \<notin> set t \<Longrightarrow> rev (takeWhile (\<lambda>c. c \<noteq> CHR ''/'') (rev (b @ CHR ''/'' # t))) = t"
  by simp

lemma last_seg_join:
  assumes "CHR ''/'' \<notin> set t"
  shows "last_seg_is_dotdot (join_slash (ss @ [t])) \<longleftrightarrow> t = ''..''" and "pop_seg (join_slash (ss @ [t])) = join_slash ss"
  using assms by (simp_all add: last_seg_is_dotdot_def pop_seg_def join_slash_snoc)

lemma append_seg_join:
  "norm_segs absolute ss \<Longrightarrow> append_seg n (join_slash ss) seg = Some b \<Longrightarrow> b = join_slash (ss @ [seg])"
  using join_slash_Nil [of absolute ss] by (auto simp: append_seg_def Let_def join_slash_snoc split: if_splits)

text \<open>One segment: the body stays in normal form and names the directory that is left or entered.\<close>

lemma norm_segment_sound:
  assumes "norm_segs absolute ss" and "norm_segment absolute (join_slash ss) seg = Some b" and "seg \<noteq> []" and "CHR ''/'' \<notin> set seg"
  obtains ss' where "b = join_slash ss'" "norm_segs absolute ss'"
    "\<And>d. (absolute \<Longrightarrow> d = []) \<Longrightarrow> foldl cd d ss' = cd (foldl cd d ss) seg"
proof -
  obtain k names where ss: "ss = replicate k ''..'' @ names" "list_all plain_seg names" "absolute \<Longrightarrow> k = 0"
    using assms(1) by (auto simp: norm_segs_def)
  consider (dot) "seg = ''.''" | (plain) "plain_seg seg" | (up) "seg = ''..''"
    using assms(3,4) by (auto simp: plain_seg_def)
  then show thesis
  proof cases
    case dot
    then show ?thesis using assms(1,2) that [of ss] by (simp add: norm_segment_def cd_def)
  next
    case plain
    have "norm_segs absolute (ss @ [seg])" 
      unfolding norm_segs_def by (rule exI [of _ k], rule exI [of _ "names @ [seg]"]) (use ss plain in simp)
    then show ?thesis using that [of "ss @ [seg]"] assms(2) plain append_seg_join [OF assms(1)]
      by (simp add: norm_segment_def plain_seg_def)
  next
    case up
    show ?thesis
    proof (cases names rule: rev_cases)
      case (snoc ns t)
      then have t: "CHR ''/'' \<notin> set t" "plain_seg t" using ss(2) by (auto simp: plain_seg_def)
      have eq: "ss = (replicate k ''..'' @ ns) @ [t]" using ss(1) snoc by simp
      have "ss \<noteq> []" using eq by simp
      then have "b = join_slash (replicate k ''..'' @ ns)"
        using assms(2) up last_seg_join [OF t(1), of "replicate k ''..'' @ ns", folded eq] join_slash_Nil [OF assms(1)] t(2)
        by (simp add: norm_segment_def plain_seg_def)
      moreover have "norm_segs absolute (replicate k ''..'' @ ns)" using ss snoc by (auto simp: norm_segs_def)
      ultimately show ?thesis using that t(2) up eq by (simp add: cd_def plain_seg_def)
    next
      case Nil
      show ?thesis
      proof (cases absolute)
        case True
        then show ?thesis using that [of ss] assms(1,2) up ss Nil by (simp add: norm_segment_def cd_def)
      next
        case False
        have "join_slash ss = [] \<or> last_seg_is_dotdot (join_slash ss)"
          using ss(1) Nil last_seg_join(1) [of "''..''" "replicate (k - 1) ''..''"]
          by (cases k) (simp_all add: replicate_append_same)
        then have b: "b = join_slash (ss @ [''..''])"
          using assms(2) up False append_seg_join [OF assms(1)] by (auto simp: norm_segment_def)
        have "ss @ [''..''] = replicate (Suc k) ''..'' @ []" using ss(1) Nil by (simp add: replicate_append_same)
        then have "norm_segs absolute (ss @ [''..''])" 
          unfolding norm_segs_def by (intro exI [of _ "Suc k"] exI [of _ "[]"]) (use False in simp)
        then show ?thesis using that [of "ss @ [''..'']"] b up by simp
      qed
    qed
  qed
qed

lemma norm_loop_sound:
  assumes "norm_segs absolute ss" and "norm_loop absolute (join_slash ss) p = Some b"
  shows "\<exists>ss'. b = join_slash ss' \<and> norm_segs absolute ss'
    \<and> (\<forall>d. (absolute \<longrightarrow> d = []) \<longrightarrow> foldl cd d ss' = foldl cd (foldl cd d ss) (split_on CHR ''/'' p))"
  using assms
proof (induction p arbitrary: ss rule: length_induct)
  case (1 p)
  show ?case
  proof (cases p)
    case Nil
    then show ?thesis using 1(2,3) by auto
  next
    case (Cons c s)
    show ?thesis
    proof (cases "c = CHR ''/''")
      case True
      have "length s < length p" using Cons by simp
      then have "\<exists>ss'. b = join_slash ss' \<and> norm_segs absolute ss'
        \<and> (\<forall>d. (absolute \<longrightarrow> d = []) \<longrightarrow> foldl cd d ss' = foldl cd (foldl cd d ss) (split_on CHR ''/'' s))"
        using 1(1,2,3) Cons True by simp
      then show ?thesis using Cons True by simp
    next
      case False
      let ?seg = "takeWhile (\<lambda>x. x \<noteq> CHR ''/'') p" and ?rest = "dropWhile (\<lambda>x. x \<noteq> CHR ''/'') p"
      obtain b1 where b1: "norm_segment absolute (join_slash ss) ?seg = Some b1" "norm_loop absolute b1 ?rest = Some b"
        using 1(3) Cons False by (auto split: option.splits)
      have seg: "?seg \<noteq> []" "CHR ''/'' \<notin> set ?seg" using Cons False by (auto dest: set_takeWhileD)
      obtain ss1 where ss1: "b1 = join_slash ss1" "norm_segs absolute ss1"
        "\<And>d. (absolute \<Longrightarrow> d = []) \<Longrightarrow> foldl cd d ss1 = cd (foldl cd d ss) ?seg"
        using norm_segment_sound [OF 1(2) b1(1) seg] by blast
      have "length ?rest < length p" using Cons False by (simp add: length_dropWhile_le le_imp_less_Suc)
      then obtain ss' where "b = join_slash ss'" "norm_segs absolute ss'"
        "\<forall>d. (absolute \<longrightarrow> d = []) \<longrightarrow> foldl cd d ss' = foldl cd (foldl cd d ss1) (split_on CHR ''/'' ?rest)"
        using 1(1) ss1(1,2) b1(2) by blast
      then show ?thesis using ss1(3) split_on_foldl_cd [of _ p] by (intro exI [of _ ss']) auto
    qed
  qed
qed

lemma norm_segs_Nil: "norm_segs absolute []" by (auto simp: norm_segs_def)

lemma norm_segment_total:
  assumes "length body + (if body \<noteq> [] then 1 else 0) + length seg < LN_MAX_TARGET"
  shows "\<exists>b. norm_segment absolute body seg = Some b \<and> length b \<le> length body + (if body \<noteq> [] then 1 else 0) + length seg"
proof -
  have "length (pop_seg body) \<le> length body"
    by (simp add: pop_seg_def) (metis diff_le_self le_trans length_dropWhile_le length_rev)
  moreover have "\<exists>b. append_seg LN_MAX_TARGET body seg = Some b \<and> length b \<le> length body + (if body \<noteq> [] then 1 else 0) + length seg"
    using assms by (auto simp: append_seg_def Let_def)
  ultimately show ?thesis unfolding norm_segment_def by auto
qed

text \<open>A path that fits the buffers is never refused for want of room.\<close>

lemma norm_loop_total:
  assumes "length body + (if body \<noteq> [] \<and> p \<noteq> [] \<and> hd p \<noteq> CHR ''/'' then 1 else 0) + length p < LN_MAX_TARGET"
  shows "\<exists>b. norm_loop absolute body p = Some b
    \<and> length b \<le> length body + (if body \<noteq> [] \<and> p \<noteq> [] \<and> hd p \<noteq> CHR ''/'' then 1 else 0) + length p"
  using assms
proof (induction p arbitrary: body rule: length_induct)
  case (1 p)
  show ?case
  proof (cases p)
    case Nil
    then show ?thesis by simp
  next
    case (Cons c s)
    show ?thesis
    proof (cases "c = CHR ''/''")
      case True
      let ?x = "if body \<noteq> [] \<and> s \<noteq> [] \<and> hd s \<noteq> CHR ''/'' then 1 else 0 :: nat"
      have lt: "length body + ?x + length s < LN_MAX_TARGET" using 1(2) Cons True by (auto split: if_splits)
      have "length s < length p" using Cons by simp
      then obtain b where "norm_loop absolute body s = Some b" "length b \<le> length body + ?x + length s"
        using 1(1) lt by blast
      then show ?thesis using Cons True by (auto split: if_splits)
    next
      case False
      let ?seg = "takeWhile (\<lambda>x. x \<noteq> CHR ''/'') p" and ?rest = "dropWhile (\<lambda>x. x \<noteq> CHR ''/'') p"
      let ?y = "if body \<noteq> [] then 1 else 0 :: nat"
      have len: "length ?seg + length ?rest = length p" by (metis length_append takeWhile_dropWhile_id)
      have y: "length body + ?y + length p < LN_MAX_TARGET" using 1(2) Cons False by simp
      then have "length body + ?y + length ?seg < LN_MAX_TARGET" using len by linarith
      then obtain b1 where b1: "norm_segment absolute body ?seg = Some b1" "length b1 \<le> length body + ?y + length ?seg"
        using norm_segment_total by blast
      have rest: "?rest = [] \<or> hd ?rest = CHR ''/''" using hd_dropWhile [of "\<lambda>x. x \<noteq> CHR ''/''" p] by metis
      have "length b1 + length ?rest < LN_MAX_TARGET" using b1(2) len y by linarith
      moreover have "length ?rest < length p" using Cons False by (simp add: length_dropWhile_le le_imp_less_Suc)
      ultimately have "\<exists>b. norm_loop absolute b1 ?rest = Some b \<and> length b \<le> length b1 + length ?rest"
        using 1(1) rest by auto
      then show ?thesis using b1 len Cons False by (auto split: option.splits)
    qed
  qed
qed

lemma join_slash_no_slash:
  assumes "norm_segs absolute ss"
  shows "\<not> prefix ''/'' (join_slash ss)"
proof (cases ss rule: join_slash.cases)
  case (2 s)
  then show ?thesis using norm_segs_elem [OF assms, of s] by (cases s) auto
next
  case (3 s t r)
  then show ?thesis using norm_segs_elem [OF assms, of s] by (cases s) auto
qed simp

lemma walk_join:
  assumes "norm_segs absolute ss"
  shows "walk cwd ((if absolute then ''/'' else []) @ join_slash ss) = foldl cd (if absolute then [] else cwd) ss"
proof -
  have "foldl cd d (split_on CHR ''/'' (join_slash ss)) = foldl cd d ss" for d
    using norm_segs_elem [OF assms] split_join_slash [of ss] by (cases "ss = []") auto
  then show ?thesis using join_slash_no_slash [OF assms] by (simp add: walk_def)
qed

lemma normalize_file_path_sound:
  assumes "normalize_file_path p n = Some t"
  shows "normal_path t \<and> walk cwd t = walk cwd p \<and> (prefix ''/'' t \<longleftrightarrow> prefix ''/'' p) \<and> t \<noteq> [] \<and> fits t n"
proof -
  let ?a = "prefix ''/'' p"
  obtain b where b: "norm_loop ?a (join_slash []) p = Some b" and t: "t = (if ?a then ''/'' else []) @ b" "t \<noteq> []" "fits t n"
    using assms by (auto simp: normalize_file_path_def Let_def fits_def split: option.splits if_splits)
  obtain ss where ss: "b = join_slash ss" "norm_segs ?a ss"
    "\<forall>d. (?a \<longrightarrow> d = []) \<longrightarrow> foldl cd d ss = foldl cd d (split_on CHR ''/'' p)"
    using norm_loop_sound [OF norm_segs_Nil b] by auto
  have abs: "prefix ''/'' t \<longleftrightarrow> ?a" using join_slash_no_slash [OF ss(2)] t(1) ss(1) by simp
  have "walk cwd t = walk cwd p" using walk_join [OF ss(2), of cwd] ss(1,3) t(1) by (simp add: walk_def)
  moreover have "normal_path t" unfolding normal_path_def abs using ss(1,2) t(1) by blast
  ultimately show ?thesis using abs t by blast
qed

text \<open>A local reference is refused only when it is too long or names the directory it starts from.\<close>

lemma resolve_file_None:
  assumes "resolve_file base ref LN_MAX_TARGET = None" and "CHR ''#'' \<notin> set ref" and "ref \<noteq> []"
    and "fits ref LN_MAX_TARGET" and "fits (merge_file base ref) LN_MAX_TARGET"
  shows "\<not> prefix ''/'' (merge_file base ref) \<and> walk cwd (merge_file base ref) = cwd"
proof -
  let ?p = "merge_file base ref"
  have n: "normalize_file_path ?p LN_MAX_TARGET = None"
    using assms by (simp add: resolve_file_def fits_def)
  obtain b where b: "norm_loop (prefix ''/'' ?p) [] ?p = Some b" "length b \<le> length ?p"
    using norm_loop_total [of "[]" ?p] assms(5) by (auto simp: fits_def)
  have pos: "(if prefix ''/'' ?p then 1 else 0) + length b + 1 \<le> LN_MAX_TARGET"
  proof (cases "prefix ''/'' ?p")
    case True
    then obtain q where q: "?p = CHR ''/'' # q" by (auto simp: prefix_def)
    then have "norm_loop True [] q = Some b" using b(1) by simp
    then have "length b \<le> length q" using norm_loop_total [of "[]" q True] assms(5) q by (auto simp: fits_def)
    then show ?thesis using assms(5) q by (simp add: fits_def)
  qed (use b(2) assms(5) in \<open>simp add: fits_def\<close>)
  then have "b = []" and rel: "\<not> prefix ''/'' ?p" using n b(1) by (auto simp: normalize_file_path_def Let_def split: if_splits)
  obtain ss where ss: "b = join_slash ss" "norm_segs False ss" "foldl cd cwd ss = foldl cd cwd (split_on CHR ''/'' ?p)"
    using norm_loop_sound [OF norm_segs_Nil, of False ?p b] b(1) rel by auto
  then have "ss = []" using join_slash_Nil [OF ss(2)] \<open>b = []\<close> by simp
  then show ?thesis using ss(3) rel by (simp add: walk_def)
qed

section \<open>What a click does\<close>

text \<open>The reference a click acts on, and its fragment.\<close>

definition link_reference :: "string \<Rightarrow> (string \<times> string) option" where
  "link_reference href = map_option (\<lambda>s. split_fragment s LN_MAX_FRAGMENT) (clean_href href LN_MAX_TARGET)"

lemma link_reference_Some:
  assumes "link_reference href = Some (ref, frag)"
  shows "CHR ''#'' \<notin> set ref" and "fits ref LN_MAX_TARGET"
proof -
  obtain s c where s: "clean_copy LN_MAX_TARGET [] href = Some c" "s = trim_spaces c" "ref = takeWhile (\<lambda>c. c \<noteq> CHR ''#'') s"
    using assms by (auto simp: link_reference_def split_fragment_def clean_href_def)
  show "CHR ''#'' \<notin> set ref" using s(3) by (auto dest: set_takeWhileD)
  have copy: "length out < n \<Longrightarrow> clean_copy n out h = Some r \<Longrightarrow> length r < n" for n out h r
    by (induction n out h arbitrary: r rule: clean_copy.induct) (auto split: if_splits)
  have "length c < LN_MAX_TARGET" using copy [OF _ s(1)] by (simp add: LN_MAX_TARGET_def)
  moreover have "length s \<le> length c" unfolding s(2) trim_spaces_def
    by (metis le_trans length_dropWhile_le length_rev)
  moreover have "length ref \<le> length s" unfolding s(3) by (rule length_takeWhile_le)
  ultimately show "fits ref LN_MAX_TARGET" by (simp add: fits_def)
qed

lemma resolve_https_scheme:
  assumes "url_has_scheme (Some ref)" and "\<not> ci_prefix ref ''https://''"
  shows "\<exists>e. url_resolve_https base (Some ref) (Some n) = Inl e"
proof -
  have "\<not> prefix ''//'' ref" using assms(1) by (cases ref) (auto simp: is_alpha_def is_upper_def is_lower_def)
  then show ?thesis using assms by (cases base) auto
qed

lemma resolve_https_valid: "url_resolve_https (Some b) (Some ref) (Some n) = Inr target \<Longrightarrow> url_is_https (Some target)"
  by (auto simp: validated_Inr url_validate_https_OK simp del: url_is_https.simps url_validate_https.simps split: if_splits)

lemma ln_decide_form:
  obtains (nav) kind target where "ln_decide base ref frag = navigate_result kind target frag"
    | (blk) e where "ln_decide base ref frag = blocked_result e frag" "e \<noteq> LN_BLOCK_NONE"
proof -
  have "classify_block ref \<noteq> LN_BLOCK_NONE" by (simp add: classify_block_def)
  moreover have "(\<exists>k t. ln_decide base ref frag = navigate_result k t frag)
    \<or> (\<exists>e \<in> {classify_block ref, LN_BLOCK_UNSUPPORTED, LN_BLOCK_NO_BASE}. ln_decide base ref frag = blocked_result e frag)"
    unfolding ln_decide_def
    by (cases "url_is_https base"; cases "url_resolve_https base (Some ref) (Some LN_MAX_TARGET)"; cases base;
        cases "resolve_file (the base) ref LN_MAX_TARGET")
      (simp_all del: url_is_https.simps url_has_scheme.simps url_resolve_https.simps, blast+)
  ultimately show thesis using nav blk by auto
qed

lemma ln_decide_navigate:
  assumes "ln_act (ln_decide base ref frag) = LN_NAVIGATE" and "CHR ''#'' \<notin> set ref"
  obtains (https) target where "ln_decide base ref frag = navigate_result LN_TARGET_HTTPS target frag"
      "url_is_https (Some target)" "fits target LN_MAX_TARGET"
    | (local) target b where "ln_decide base ref frag = navigate_result LN_TARGET_FILE target frag"
      "base = Some b" "\<not> url_is_https base" "normalize_file_path (merge_file b ref) LN_MAX_TARGET = Some target"
proof (cases "url_is_https base")
  case True
  then obtain target where t: "url_resolve_https base (Some ref) (Some LN_MAX_TARGET) = Inr target"
    "ln_decide base ref frag = navigate_result LN_TARGET_HTTPS target frag"
    using assms(1) by (auto simp: ln_decide_def blocked_result_def split: sum.splits)
  obtain b where "base = Some b" using True by (cases base) auto
  then show ?thesis using t https url_resolve_https_fits resolve_https_valid by blast
next
  case False
  show ?thesis
  proof (cases "url_has_scheme (Some ref)")
    case True
    then show ?thesis using False assms(1) https [of ref]
      by (auto simp: ln_decide_def blocked_result_def fits_def simp del: url_is_https.simps url_has_scheme.simps split: if_splits)
  next
    case no_scheme: False
    then obtain b target where "base = Some b" "resolve_file b ref LN_MAX_TARGET = Some target"
        "ln_decide base ref frag = navigate_result LN_TARGET_FILE target frag"
      using False assms(1)
      by (auto simp: ln_decide_def blocked_result_def simp del: url_is_https.simps url_has_scheme.simps split: if_splits option.splits)
    then show ?thesis using local [of target b] False assms(2)
      by (simp add: resolve_file_def Let_def del: url_is_https.simps split: if_splits)
  qed
qed

lemma ln_decide_scheme:
  assumes "url_has_scheme (Some ref)" and "\<not> ci_prefix ref ''https://''"
  shows "ln_decide base ref frag
    = blocked_result (if ci_prefix ref ''http://'' then LN_BLOCK_DOWNGRADE else LN_BLOCK_FOREIGN_SCHEME) frag"
proof -
  obtain e where "url_resolve_https base (Some ref) (Some LN_MAX_TARGET) = Inl e" using resolve_https_scheme [OF assms] by blast
  moreover have "\<not> url_is_https (Some ref)" using assms(2) by simp
  ultimately show ?thesis using assms(1)
    by (simp add: ln_decide_def classify_block_def del: url_is_https.simps url_has_scheme.simps ci_prefix.simps)
qed

text \<open>C9: a click stays on the document exactly when the cleaned reference is empty but for a fragment. It
  navigates only to an https URL, or, from a local page, to a path in normal form that names the same
  file as the reference taken from the page's directory, whatever the working directory; otherwise it is
  blocked with a reason and no target. A reference with a scheme other than https is always blocked, as a
  downgrade if it is http. A local path of admissible length is blocked only when it names the working
  directory itself.\<close>

theorem ln_resolve_spec:
  assumes "ln_resolve base (Some href) True = Inr r" and "link_reference href = Some (ref, frag)"
  shows "ln_fragment r = frag
    \<and> (ln_act r = LN_SAME_DOCUMENT \<longleftrightarrow> ref = [])
    \<and> (ln_act r = LN_NAVIGATE \<longrightarrow> fits (ln_target r) LN_MAX_TARGET
        \<and> (ln_kind r = LN_TARGET_HTTPS \<and> url_is_https (Some (ln_target r))
          \<or> ln_kind r = LN_TARGET_FILE \<and> \<not> url_is_https base \<and> normal_path (ln_target r)
            \<and> (\<exists>b. base = Some b \<and> (\<forall>cwd. walk cwd (ln_target r) = walk cwd (merge_file b ref)))))
    \<and> (ln_act r = LN_BLOCKED \<longrightarrow> ln_target r = [] \<and> ln_reason r \<noteq> LN_BLOCK_NONE)
    \<and> (url_has_scheme (Some ref) \<and> \<not> ci_prefix ref ''https://'' \<longrightarrow> ln_act r = LN_BLOCKED
        \<and> ln_reason r = (if ci_prefix ref ''http://'' then LN_BLOCK_DOWNGRADE else LN_BLOCK_FOREIGN_SCHEME))
    \<and> (\<forall>b cwd. base = Some b \<and> \<not> url_is_https base \<and> \<not> url_has_scheme (Some ref) \<and> \<not> prefix ''//'' ref
        \<and> fits (merge_file b ref) LN_MAX_TARGET \<and> ln_act r = LN_BLOCKED \<longrightarrow> walk cwd (merge_file b ref) = cwd)"
proof (cases "ref = []")
  case True
  then show ?thesis using assms by (auto simp: link_reference_def split_fragment_def)
next
  case False
  have r: "r = ln_decide base ref frag" using assms False by (auto simp: link_reference_def split: option.splits)
  note ref = link_reference_Some [OF assms(2)]
  have frag: "ln_fragment r = frag \<and> ln_act r \<noteq> LN_SAME_DOCUMENT"
    unfolding r by (cases rule: ln_decide_form [of base ref frag]) (simp_all add: blocked_result_def navigate_result_def)
  moreover have "fits (ln_target r) LN_MAX_TARGET
        \<and> (ln_kind r = LN_TARGET_HTTPS \<and> url_is_https (Some (ln_target r))
          \<or> ln_kind r = LN_TARGET_FILE \<and> \<not> url_is_https base \<and> normal_path (ln_target r)
            \<and> (\<exists>b. base = Some b \<and> (\<forall>cwd. walk cwd (ln_target r) = walk cwd (merge_file b ref))))"
    if "ln_act r = LN_NAVIGATE"
  proof (rule ln_decide_navigate [OF that [unfolded r] ref(1)], goal_cases https local)
    case (https target)
    then show ?thesis by (simp add: r navigate_result_def del: url_is_https.simps)
  next
    case (local target b)
    then show ?thesis using normalize_file_path_sound [OF local(4)]
      by (simp add: r navigate_result_def del: url_is_https.simps)
  qed
  moreover have "ln_target r = [] \<and> ln_reason r \<noteq> LN_BLOCK_NONE" if "ln_act r = LN_BLOCKED"
    using that unfolding r by (cases rule: ln_decide_form [of base ref frag]) (simp_all add: blocked_result_def navigate_result_def)
  moreover have "walk cwd (merge_file b ref) = cwd"
    if "base = Some b" "\<not> url_is_https base" "\<not> url_has_scheme (Some ref)" "\<not> prefix ''//'' ref"
      "fits (merge_file b ref) LN_MAX_TARGET" "ln_act r = LN_BLOCKED" for b cwd
  proof -
    have "resolve_file b ref LN_MAX_TARGET = None"
      using that by (simp add: r ln_decide_def navigate_result_def del: url_is_https.simps url_has_scheme.simps split: option.splits)
    then show ?thesis using resolve_file_None [OF _ ref(1) False ref(2) that(5)] by blast
  qed
  moreover have "ln_act r = LN_BLOCKED
      \<and> ln_reason r = (if ci_prefix ref ''http://'' then LN_BLOCK_DOWNGRADE else LN_BLOCK_FOREIGN_SCHEME)"
    if "url_has_scheme (Some ref) \<and> \<not> ci_prefix ref ''https://''"
    using ln_decide_scheme [of ref base frag] that by (simp add: r blocked_result_def del: url_has_scheme.simps ci_prefix.simps)
  ultimately show ?thesis using False by (intro conjI impI allI) blast+
qed

theorem ln_resolve_spec_witness:
  "\<exists>r. ln_resolve (Some ''docs/a/index.html'') (Some '' ../../../b.html#top'') True = Inr r
    \<and> ln_target r = ''../b.html'' \<and> ln_fragment r = ''top'' \<and> normal_path ''../b.html''"
proof -
  let ?r = "navigate_result LN_TARGET_FILE ''../b.html'' ''top''"
  have run: "ln_resolve (Some ''docs/a/index.html'') (Some '' ../../../b.html#top'') True = Inr ?r" by code_simp
  have ref: "link_reference '' ../../../b.html#top'' = Some (''../../../b.html'', ''top'')" by code_simp
  from ln_resolve_spec [OF run ref] run show ?thesis by (auto simp: navigate_result_def)
qed

end
