(* ===== verification/Sha2.thy ===== *)
theory Sha2
  imports C_Prelude
begin

unbundle bit_operations_syntax

text \<open>
  The module \<^verbatim>\<open>src/sha2.c\<close>: one-shot SHA-1, SHA-256, SHA-384 and SHA-512, on bytes and machine words as
  the source has them. The second half states FIPS 180-4 on its own terms (rotations, the padded
  message, the message schedule as a recursion, the constants as roots of primes) and proves that the
  code computes it.
\<close>

section \<open>Model\<close>

type_synonym byte = "8 word"

datatype sha_alg = SHA_1 | SHA_256 | SHA_384 | SHA_512

definition ROR32 :: "32 word \<Rightarrow> nat \<Rightarrow> 32 word" where "ROR32 x n = drop_bit n x OR push_bit (32 - n) x"
definition ROL32 :: "32 word \<Rightarrow> nat \<Rightarrow> 32 word" where "ROL32 x n = push_bit n x OR drop_bit (32 - n) x"
definition ROR64 :: "64 word \<Rightarrow> nat \<Rightarrow> 64 word" where "ROR64 x n = drop_bit n x OR push_bit (64 - n) x"

fun sha_digest_len :: "sha_alg \<Rightarrow> nat" where
  "sha_digest_len SHA_1 = 20"
| "sha_digest_len SHA_256 = 32"
| "sha_digest_len SHA_384 = 48"
| "sha_digest_len SHA_512 = 64"

fun ieq :: "string \<Rightarrow> string \<Rightarrow> bool" where
  "ieq (a # as) (b # bs) = (if ascii_lower a \<noteq> ascii_lower b then False else ieq as bs)"
| "ieq [] [] = True"
| "ieq _ _ = False"

fun sha_alg_from_name :: "cptr \<Rightarrow> sha_alg option" where
  "sha_alg_from_name None = None"
| "sha_alg_from_name (Some name) =
     (if ieq name ''SHA-1'' then Some SHA_1
      else if ieq name ''SHA-256'' then Some SHA_256
      else if ieq name ''SHA-384'' then Some SHA_384
      else if ieq name ''SHA-512'' then Some SHA_512
      else None)"

definition be32 :: "byte list \<Rightarrow> 32 word" where
  "be32 p = push_bit 24 (ucast (p ! 0)) OR push_bit 16 (ucast (p ! 1)) OR push_bit 8 (ucast (p ! 2)) OR ucast (p ! 3)"

definition be64 :: "byte list \<Rightarrow> 64 word" where
  "be64 p = push_bit 32 (ucast (be32 p)) OR ucast (be32 (drop 4 p))"

definition put32 :: "32 word \<Rightarrow> byte list" where
  "put32 v = [ucast (drop_bit 24 v), ucast (drop_bit 16 v), ucast (drop_bit 8 v), ucast v]"

definition put64 :: "64 word \<Rightarrow> byte list" where
  "put64 v = put32 (ucast (drop_bit 32 v)) @ put32 (ucast v)"

text \<open>Bytes written into a buffer at an offset.\<close>

definition write_at :: "nat \<Rightarrow> byte list \<Rightarrow> byte list \<Rightarrow> byte list" where
  "write_at off bytes buf = take off buf @ bytes @ drop (off + length bytes) buf"

definition pad_tail :: "nat \<Rightarrow> nat \<Rightarrow> byte list \<Rightarrow> 64 word \<Rightarrow> byte list \<times> nat" where
  "pad_tail bs lenbytes tail total_len =
     (let tl = length tail;
          blk = (write_at 0 tail (replicate (2 * bs) 0))[tl := 0x80];
          n = (if tl + 1 + lenbytes \<le> bs then bs else 2 * bs);
          blk1 = write_at (n - 8) (put64 (push_bit 3 total_len)) blk;
          blk2 = (if lenbytes = 16 then write_at (n - 16) (put64 (drop_bit 61 total_len)) blk1 else blk1) in
      (blk2, n))"

text \<open>A constant table, given row by row: the digits of a row are those of its \<open>k\<close> words in order.\<close>

definition table_rows :: "nat \<Rightarrow> nat list \<Rightarrow> 'a::len word list" where
  "table_rows k rows = concat (map (\<lambda>r. map (\<lambda>i. of_nat (r div 2 ^ (LENGTH('a) * i))) (rev [0..<k])) rows)"

subsection \<open>SHA-1\<close>

definition sha1_sched :: "byte list \<Rightarrow> 32 word list" where
  "sha1_sched p = foldl (\<lambda>w i. w @ [ROL32 (w ! (i - 3) XOR w ! (i - 8) XOR w ! (i - 14) XOR w ! (i - 16)) 1])
     (map (\<lambda>i. be32 (drop (4 * i) p)) [0..<16]) [16..<80]"

type_synonym sha1_vars = "32 word \<times> 32 word \<times> 32 word \<times> 32 word \<times> 32 word"

fun sha1_round :: "32 word list \<Rightarrow> sha1_vars \<Rightarrow> nat \<Rightarrow> sha1_vars" where
  "sha1_round w (a, b, c, d, e) i =
     (let (f, k) =
        (if i < 20 then ((b AND c) OR (NOT b AND d), 0x5A827999)
         else if i < 40 then (b XOR c XOR d, 0x6ED9EBA1)
         else if i < 60 then ((b AND c) OR (b AND d) OR (c AND d), 0x8F1BBCDC)
         else (b XOR c XOR d, 0xCA62C1D6));
        t = ROL32 a 5 + f + e + k + w ! i in
      (t, a, ROL32 b 30, c, d))"

definition sha1_block :: "32 word list \<Rightarrow> byte list \<Rightarrow> 32 word list" where
  "sha1_block h p =
     (let w = sha1_sched p;
          (a, b, c, d, e) = foldl (sha1_round w) (h ! 0, h ! 1, h ! 2, h ! 3, h ! 4) [0..<80] in
      [h ! 0 + a, h ! 1 + b, h ! 2 + c, h ! 3 + d, h ! 4 + e])"

subsection \<open>SHA-256\<close>

definition K256 :: "32 word list" where
  "K256 = table_rows 8 [
    0x428a2f9871374491b5c0fbcfe9b5dba53956c25b59f111f1923f82a4ab1c5ed5,
    0xd807aa9812835b01243185be550c7dc372be5d7480deb1fe9bdc06a7c19bf174,
    0xe49b69c1efbe47860fc19dc6240ca1cc2de92c6f4a7484aa5cb0a9dc76f988da,
    0x983e5152a831c66db00327c8bf597fc7c6e00bf3d5a7914706ca635114292967,
    0x27b70a852e1b21384d2c6dfc53380d13650a7354766a0abb81c2c92e92722c85,
    0xa2bfe8a1a81a664bc24b8b70c76c51a3d192e819d6990624f40e3585106aa070,
    0x19a4c1161e376c082748774c34b0bcb5391c0cb34ed8aa4a5b9cca4f682e6ff3,
    0x748f82ee78a5636f84c878148cc7020890befffaa4506cebbef9a3f7c67178f2]"

definition sha256_sched :: "byte list \<Rightarrow> 32 word list" where
  "sha256_sched p = foldl (\<lambda>w i.
       let s0 = ROR32 (w ! (i - 15)) 7 XOR ROR32 (w ! (i - 15)) 18 XOR drop_bit 3 (w ! (i - 15));
           s1 = ROR32 (w ! (i - 2)) 17 XOR ROR32 (w ! (i - 2)) 19 XOR drop_bit 10 (w ! (i - 2)) in
       w @ [w ! (i - 16) + s0 + w ! (i - 7) + s1])
     (map (\<lambda>i. be32 (drop (4 * i) p)) [0..<16]) [16..<64]"

type_synonym 'a sha2_vars = "'a \<times> 'a \<times> 'a \<times> 'a \<times> 'a \<times> 'a \<times> 'a \<times> 'a"

fun sha256_round :: "32 word list \<Rightarrow> 32 word sha2_vars \<Rightarrow> nat \<Rightarrow> 32 word sha2_vars" where
  "sha256_round w (a, b, c, d, e, f, g, hh) i =
     (let S1 = ROR32 e 6 XOR ROR32 e 11 XOR ROR32 e 25;
          ch = (e AND f) XOR (NOT e AND g);
          t1 = hh + S1 + ch + K256 ! i + w ! i;
          S0 = ROR32 a 2 XOR ROR32 a 13 XOR ROR32 a 22;
          mj = (a AND b) XOR (a AND c) XOR (b AND c);
          t2 = S0 + mj in
      (t1 + t2, a, b, c, d + t1, e, f, g))"

definition sha256_block :: "32 word list \<Rightarrow> byte list \<Rightarrow> 32 word list" where
  "sha256_block h p =
     (let w = sha256_sched p;
          (a, b, c, d, e, f, g, hh) = foldl (sha256_round w)
            (h ! 0, h ! 1, h ! 2, h ! 3, h ! 4, h ! 5, h ! 6, h ! 7) [0..<64] in
      [h ! 0 + a, h ! 1 + b, h ! 2 + c, h ! 3 + d, h ! 4 + e, h ! 5 + f, h ! 6 + g, h ! 7 + hh])"

subsection \<open>SHA-512\<close>

definition K512 :: "64 word list" where
  "K512 = table_rows 4 [
    0x428a2f98d728ae227137449123ef65cdb5c0fbcfec4d3b2fe9b5dba58189dbbc,
    0x3956c25bf348b53859f111f1b605d019923f82a4af194f9bab1c5ed5da6d8118,
    0xd807aa98a303024212835b0145706fbe243185be4ee4b28c550c7dc3d5ffb4e2,
    0x72be5d74f27b896f80deb1fe3b1696b19bdc06a725c71235c19bf174cf692694,
    0xe49b69c19ef14ad2efbe4786384f25e30fc19dc68b8cd5b5240ca1cc77ac9c65,
    0x2de92c6f592b02754a7484aa6ea6e4835cb0a9dcbd41fbd476f988da831153b5,
    0x983e5152ee66dfaba831c66d2db43210b00327c898fb213fbf597fc7beef0ee4,
    0xc6e00bf33da88fc2d5a79147930aa72506ca6351e003826f142929670a0e6e70,
    0x27b70a8546d22ffc2e1b21385c26c9264d2c6dfc5ac42aed53380d139d95b3df,
    0x650a73548baf63de766a0abb3c77b2a881c2c92e47edaee692722c851482353b,
    0xa2bfe8a14cf10364a81a664bbc423001c24b8b70d0f89791c76c51a30654be30,
    0xd192e819d6ef5218d69906245565a910f40e35855771202a106aa07032bbd1b8,
    0x19a4c116b8d2d0c81e376c085141ab532748774cdf8eeb9934b0bcb5e19b48a8,
    0x391c0cb3c5c95a634ed8aa4ae3418acb5b9cca4f7763e373682e6ff3d6b2b8a3,
    0x748f82ee5defb2fc78a5636f43172f6084c87814a1f0ab728cc702081a6439ec,
    0x90befffa23631e28a4506cebde82bde9bef9a3f7b2c67915c67178f2e372532b,
    0xca273eceea26619cd186b8c721c0c207eada7dd6cde0eb1ef57d4f7fee6ed178,
    0x06f067aa72176fba0a637dc5a2c898a6113f9804bef90dae1b710b35131c471b,
    0x28db77f523047d8432caab7b40c724933c9ebe0a15c9bebc431d67c49c100d4c,
    0x4cc5d4becb3e42b6597f299cfc657e2a5fcb6fab3ad6faec6c44198c4a475817]"

definition sha512_sched :: "byte list \<Rightarrow> 64 word list" where
  "sha512_sched p = foldl (\<lambda>w i.
       let s0 = ROR64 (w ! (i - 15)) 1 XOR ROR64 (w ! (i - 15)) 8 XOR drop_bit 7 (w ! (i - 15));
           s1 = ROR64 (w ! (i - 2)) 19 XOR ROR64 (w ! (i - 2)) 61 XOR drop_bit 6 (w ! (i - 2)) in
       w @ [w ! (i - 16) + s0 + w ! (i - 7) + s1])
     (map (\<lambda>i. be64 (drop (8 * i) p)) [0..<16]) [16..<80]"

fun sha512_round :: "64 word list \<Rightarrow> 64 word sha2_vars \<Rightarrow> nat \<Rightarrow> 64 word sha2_vars" where
  "sha512_round w (a, b, c, d, e, f, g, hh) i =
     (let S1 = ROR64 e 14 XOR ROR64 e 18 XOR ROR64 e 41;
          ch = (e AND f) XOR (NOT e AND g);
          t1 = hh + S1 + ch + K512 ! i + w ! i;
          S0 = ROR64 a 28 XOR ROR64 a 34 XOR ROR64 a 39;
          mj = (a AND b) XOR (a AND c) XOR (b AND c);
          t2 = S0 + mj in
      (t1 + t2, a, b, c, d + t1, e, f, g))"

definition sha512_block :: "64 word list \<Rightarrow> byte list \<Rightarrow> 64 word list" where
  "sha512_block h p =
     (let w = sha512_sched p;
          (a, b, c, d, e, f, g, hh) = foldl (sha512_round w)
            (h ! 0, h ! 1, h ! 2, h ! 3, h ! 4, h ! 5, h ! 6, h ! 7) [0..<80] in
      [h ! 0 + a, h ! 1 + b, h ! 2 + c, h ! 3 + d, h ! 4 + e, h ! 5 + f, h ! 6 + g, h ! 7 + hh])"

subsection \<open>The digest\<close>

definition I1 :: "32 word list" where
  "I1 = table_rows 5 [
    0x67452301EFCDAB8998BADCFE10325476C3D2E1F0]"

definition I256 :: "32 word list" where
  "I256 = table_rows 8 [
    0x6a09e667bb67ae853c6ef372a54ff53a510e527f9b05688c1f83d9ab5be0cd19]"

definition I512 :: "64 word list" where
  "I512 = table_rows 4 [
    0x6a09e667f3bcc908bb67ae8584caa73b3c6ef372fe94f82ba54ff53a5f1d36f1,
    0x510e527fade682d19b05688c2b3e6c1f1f83d9abfb41bd6b5be0cd19137e2179]"

definition I384 :: "64 word list" where
  "I384 = table_rows 4 [
    0xcbbb9d5dc1059ed8629a292a367cd5079159015a3070dd17152fecd8f70e5939,
    0x67332667ffc00b318eb44a8768581511db0c2e0d64f98fa747b5481dbefa4fa4]"

text \<open>The loop over the blocks of the first \<open>n\<close> bytes, a multiple of the block size.\<close>

definition run_blocks :: "('h \<Rightarrow> byte list \<Rightarrow> 'h) \<Rightarrow> nat \<Rightarrow> 'h \<Rightarrow> byte list \<Rightarrow> nat \<Rightarrow> 'h" where
  "run_blocks block bs h p n = foldl (\<lambda>h i. block h (drop (bs * i) p)) h [0..<n div bs]"

text \<open>The three branches of \<^verbatim>\<open>sha_digest\<close> have the same shape: the full blocks, the padded tail, the words.\<close>

definition hash_all :: "('h \<Rightarrow> byte list \<Rightarrow> 'h) \<Rightarrow> nat \<Rightarrow> nat \<Rightarrow> 'h \<Rightarrow> byte list \<Rightarrow> 'h" where
  "hash_all block bs lenbytes h p =
     (let len = length p; full = len - len mod bs;
          h1 = run_blocks block bs h p full;
          (blk, n) = pad_tail bs lenbytes (drop full p) (of_nat len) in
      run_blocks block bs h1 blk n)"

text \<open>\<open>data\<close> is \<open>None\<close> for a NULL pointer with a length of zero; \<open>out\<close> says whether the output is there.\<close>

definition sha_digest :: "sha_alg \<Rightarrow> byte list option \<Rightarrow> bool \<Rightarrow> byte list option" where
  "sha_digest alg data out =
     (if \<not> out then None
      else
        let p = (case data of None \<Rightarrow> [] | Some d \<Rightarrow> d) in
        Some (case alg of
            SHA_1 \<Rightarrow> concat (map put32 (hash_all sha1_block 64 8 I1 p))
          | SHA_256 \<Rightarrow> concat (map put32 (hash_all sha256_block 64 8 I256 p))
          | _ \<Rightarrow> take (sha_digest_len alg)
              (concat (map put64 (hash_all sha512_block 128 16 (if alg = SHA_512 then I512 else I384) p)))))"

section \<open>FIPS 180-4\<close>

definition Ch :: "'a::len word \<Rightarrow> 'a word \<Rightarrow> 'a word \<Rightarrow> 'a word" where
  "Ch x y z = (x AND y) XOR (NOT x AND z)"

definition Maj :: "'a::len word \<Rightarrow> 'a word \<Rightarrow> 'a word \<Rightarrow> 'a word" where
  "Maj x y z = (x AND y) XOR (x AND z) XOR (y AND z)"

text \<open>A big-endian word of bytes, a number as big-endian bytes, and a message cut into blocks.\<close>

definition be_val :: "byte list \<Rightarrow> 'a::len word" where
  "be_val bs = foldl (\<lambda>a b. a * 256 + ucast b) 0 bs"

definition be_nat :: "nat \<Rightarrow> nat \<Rightarrow> byte list" where
  "be_nat n x = map (\<lambda>i. of_nat (x div 256 ^ i)) (rev [0..<n])"

definition parse_blocks :: "nat \<Rightarrow> byte list \<Rightarrow> byte list list" where
  "parse_blocks bs p = map (\<lambda>i. take bs (drop (bs * i) p)) [0..<length p div bs]"

text \<open>The padded message: a one bit, the least number of zeros that fills the last block, the length in bits.\<close>

definition fips_pad :: "nat \<Rightarrow> nat \<Rightarrow> byte list \<Rightarrow> byte list" where
  "fips_pad bs lenbytes p =
     p @ [0x80] @ replicate ((bs - (length p + 1 + lenbytes) mod bs) mod bs) 0 @ be_nat lenbytes (8 * length p)"

definition fips_hash :: "('h \<Rightarrow> byte list \<Rightarrow> 'h) \<Rightarrow> nat \<Rightarrow> nat \<Rightarrow> 'h \<Rightarrow> byte list \<Rightarrow> 'h" where
  "fips_hash compress bs lenbytes h p = foldl compress h (parse_blocks bs (fips_pad bs lenbytes p))"

text \<open>SHA-1: the message schedule, the functions and constants of a round, the compression of a block.\<close>

function sha1_W :: "(nat \<Rightarrow> 32 word) \<Rightarrow> nat \<Rightarrow> 32 word" where
  "sha1_W M t = (if t < 16 then M t
     else word_rotl 1 (sha1_W M (t - 3) XOR sha1_W M (t - 8) XOR sha1_W M (t - 14) XOR sha1_W M (t - 16)))"
  by pat_completeness auto
termination by (relation "measure snd") auto

definition sha1_f :: "nat \<Rightarrow> 32 word \<Rightarrow> 32 word \<Rightarrow> 32 word \<Rightarrow> 32 word" where
  "sha1_f t = (if t < 20 then Ch else if 40 \<le> t \<and> t < 60 then Maj else (\<lambda>x y z. x XOR y XOR z))"

definition sha1_K :: "nat \<Rightarrow> 32 word" where
  "sha1_K t = [0x5A827999, 0x6ED9EBA1, 0x8F1BBCDC, 0xCA62C1D6] ! (t div 20)"

definition sha1_compress :: "32 word list \<Rightarrow> byte list \<Rightarrow> 32 word list" where
  "sha1_compress H blk =
     (let W = sha1_W (\<lambda>t. be_val (take 4 (drop (4 * t) blk)));
          (a, b, c, d, e) = foldl (\<lambda>(a, b, c, d, e) t.
              (word_rotl 5 a + sha1_f t b c d + e + sha1_K t + W t, a, word_rotl 30 b, c, d))
            (H ! 0, H ! 1, H ! 2, H ! 3, H ! 4) [0..<80] in
      [a + H ! 0, b + H ! 1, c + H ! 2, d + H ! 3, e + H ! 4])"

text \<open>SHA-2, for either word size: \<open>sg0\<close>, \<open>sg1\<close> of the schedule and \<open>Sg0\<close>, \<open>Sg1\<close> of the rounds.\<close>

function sha2_W :: "('a::len word \<Rightarrow> 'a word) \<Rightarrow> ('a word \<Rightarrow> 'a word) \<Rightarrow> (nat \<Rightarrow> 'a word) \<Rightarrow> nat \<Rightarrow> 'a word" where
  "sha2_W sg0 sg1 M t = (if t < 16 then M t
     else sg1 (sha2_W sg0 sg1 M (t - 2)) + sha2_W sg0 sg1 M (t - 7) + sg0 (sha2_W sg0 sg1 M (t - 15)) + sha2_W sg0 sg1 M (t - 16))"
  by pat_completeness auto
termination by (relation "measure (\<lambda>(a, b, c, t). t)") auto

declare sha1_W.simps [simp del] sha2_W.simps [simp del]

definition rot3 :: "nat \<Rightarrow> nat \<Rightarrow> nat \<Rightarrow> 'a::len word \<Rightarrow> 'a word" where
  "rot3 i j k x = word_rotr i x XOR word_rotr j x XOR word_rotr k x"

definition rotsh :: "nat \<Rightarrow> nat \<Rightarrow> nat \<Rightarrow> 'a::len word \<Rightarrow> 'a word" where
  "rotsh i j k x = word_rotr i x XOR word_rotr j x XOR drop_bit k x"

definition sha2_compress :: "('a::len word \<Rightarrow> 'a word) \<Rightarrow> ('a word \<Rightarrow> 'a word) \<Rightarrow> (nat \<Rightarrow> 'a word) \<Rightarrow> nat
    \<Rightarrow> (nat \<Rightarrow> 'a word) \<Rightarrow> 'a word list \<Rightarrow> 'a word list" where
  "sha2_compress Sg0 Sg1 K rounds W H =
     (let (a, b, c, d, e, f, g, h) = foldl (\<lambda>(a, b, c, d, e, f, g, h) t.
              let T1 = h + Sg1 e + Ch e f g + K t + W t; T2 = Sg0 a + Maj a b c in
              (T1 + T2, a, b, c, d + T1, e, f, g))
            (H ! 0, H ! 1, H ! 2, H ! 3, H ! 4, H ! 5, H ! 6, H ! 7) [0..<rounds] in
      [a + H ! 0, b + H ! 1, c + H ! 2, d + H ! 3, e + H ! 4, f + H ! 5, g + H ! 6, h + H ! 7])"

definition sha256_compress :: "32 word list \<Rightarrow> byte list \<Rightarrow> 32 word list" where
  "sha256_compress H blk = sha2_compress (rot3 2 13 22) (rot3 6 11 25) (\<lambda>t. K256 ! t) 64
     (sha2_W (rotsh 7 18 3) (rotsh 17 19 10) (\<lambda>t. be_val (take 4 (drop (4 * t) blk)))) H"

definition sha512_compress :: "64 word list \<Rightarrow> byte list \<Rightarrow> 64 word list" where
  "sha512_compress H blk = sha2_compress (rot3 28 34 39) (rot3 14 18 41) (\<lambda>t. K512 ! t) 80
     (sha2_W (rotsh 1 8 7) (rotsh 19 61 6) (\<lambda>t. be_val (take 8 (drop (8 * t) blk)))) H"

definition fips_digest :: "sha_alg \<Rightarrow> byte list \<Rightarrow> byte list" where
  "fips_digest alg p =
     (case alg of
        SHA_1 \<Rightarrow> concat (map (\<lambda>w. be_nat 4 (unat w)) (fips_hash sha1_compress 64 8 I1 p))
      | SHA_256 \<Rightarrow> concat (map (\<lambda>w. be_nat 4 (unat w)) (fips_hash sha256_compress 64 8 I256 p))
      | SHA_384 \<Rightarrow> take 48 (concat (map (\<lambda>w. be_nat 8 (unat w)) (fips_hash sha512_compress 128 16 I384 p)))
      | SHA_512 \<Rightarrow> concat (map (\<lambda>w. be_nat 8 (unat w)) (fips_hash sha512_compress 128 16 I512 p)))"

section \<open>Words and bytes\<close>

lemma rotr_shifts:
  fixes x :: "'a::len word"
  assumes "0 < n" and "n < LENGTH('a)"
  shows "drop_bit n x OR push_bit (LENGTH('a) - n) x = word_rotr n x"
proof (rule bit_eqI)
  fix k assume "possible_bit TYPE('a word) k"
  then have k: "k < LENGTH('a)" by simp
  show "bit (drop_bit n x OR push_bit (LENGTH('a) - n) x) k \<longleftrightarrow> bit (word_rotr n x) k"
  proof (cases "k + n < LENGTH('a)")
    case True
    then show ?thesis using k by (auto simp: bit_simps add.commute)
  next
    case False
    then have m: "(k + n) mod LENGTH('a) = k - (LENGTH('a) - n)"
      using k assms(2) by (simp add: mod_if)
    have "\<not> bit x (n + k)" using False bit_imp_le_length [of x "n + k"] by auto
    then show ?thesis using k False m assms by (auto simp: bit_simps)
  qed
qed

lemma rotl_rotr:
  fixes x :: "'a::len word"
  assumes "0 < n" and "n < LENGTH('a)"
  shows "word_rotl n x = word_rotr (LENGTH('a) - n) x"
  by (rule bit_eqI) (use assms in \<open>simp add: bit_word_rotr_iff bit_word_rotl_iff\<close>)

lemma ROR32_rotr [simp]: "0 < n \<Longrightarrow> n < 32 \<Longrightarrow> ROR32 x n = word_rotr n x"
  using rotr_shifts [of n x] by (simp add: ROR32_def)

lemma ROR64_rotr [simp]: "0 < n \<Longrightarrow> n < 64 \<Longrightarrow> ROR64 x n = word_rotr n x"
  using rotr_shifts [of n x] by (simp add: ROR64_def)

lemma ROL32_rotl [simp]: "0 < n \<Longrightarrow> n < 32 \<Longrightarrow> ROL32 x n = word_rotl n x"
  using rotr_shifts [of "32 - n" x] rotl_rotr [of n x] by (simp add: ROL32_def or.commute)

lemma choice_or: "((b AND c) OR (NOT b AND d)) = Ch b c (d :: 'a::len word)"
  unfolding Ch_def by (rule bit_eqI) (auto simp: bit_simps)

lemma majority_or: "((b AND c) OR (b AND d) OR (c AND d)) = Maj b c (d :: 'a::len word)"
  unfolding Maj_def by (rule bit_eqI) (auto simp: bit_simps)

lemma four_bytes: "4 \<le> length p \<Longrightarrow> take 4 p = [p ! 0, p ! 1, p ! 2, p ! 3]"
  by (rule nth_equalityI) (auto simp: less_Suc_eq numeral_eq_Suc)

lemma shift_add_byte:
  fixes a :: "'a::len word"
  shows "push_bit 8 a OR ucast (b :: byte) = a * 256 + ucast b"
proof -
  have "push_bit 8 a + ucast b = push_bit 8 a OR ucast b"
    by (rule disjunctive_add) (auto simp: bit_simps dest: bit_imp_le_length [of b])
  then show ?thesis by (simp add: push_bit_eq_mult)
qed

lemma be32_val: "4 \<le> length p \<Longrightarrow> be32 p = be_val (take 4 p)"
proof -
  assume "4 \<le> length p"
  have "be32 p = push_bit 8 (push_bit 8 (push_bit 8 (ucast (p ! 0)) OR ucast (p ! 1)) OR ucast (p ! 2)) OR ucast (p ! 3)"
    by (simp add: be32_def or.assoc)
  then show ?thesis using four_bytes [OF \<open>4 \<le> length p\<close>] by (simp add: shift_add_byte be_val_def)
qed

lemma ucast_be32: "(ucast (be32 p) :: 64 word)
    = push_bit 24 (ucast (p ! 0)) OR push_bit 16 (ucast (p ! 1)) OR push_bit 8 (ucast (p ! 2)) OR ucast (p ! 3)"
  by (rule bit_eqI) (auto simp: bit_simps be32_def dest: bit_imp_le_length)

lemma push_bit_32: "push_bit 32 (x :: 64 word) = push_bit 8 (push_bit 8 (push_bit 8 (push_bit 8 x)))"
  by simp

lemma be64_val: "8 \<le> length p \<Longrightarrow> be64 p = be_val (take 8 p)"
proof -
  assume len: "8 \<le> length p"
  have tk: "take 8 p = take 4 p @ take 4 (drop 4 p)" using take_add [of 4 4 p] by simp
  have "be64 p = push_bit 8 (push_bit 8 (push_bit 8 (push_bit 8 (push_bit 8 (push_bit 8 (push_bit 8 (ucast (p ! 0)) OR ucast (p ! 1))
      OR ucast (p ! 2)) OR ucast (p ! 3)) OR ucast (p ! 4)) OR ucast (p ! 5)) OR ucast (p ! 6)) OR ucast (p ! 7)"
    using len by (simp add: be64_def ucast_be32 or.assoc)
  moreover have "take 4 (drop 4 p) = [p ! 4, p ! 5, p ! 6, p ! 7]" using four_bytes [of "drop 4 p"] len by simp
  ultimately show ?thesis using four_bytes [of p] len by (simp add: tk shift_add_byte be_val_def)
qed

lemma ucast_drop_bit_nat: "(ucast (drop_bit k v) :: byte) = of_nat (unat v div 2 ^ k)" for v :: "'a::len word"
proof -
  have "unat (drop_bit k v) = unat v div 2 ^ k" using unat_drop_bit_eq [of k v] drop_bit_eq_div [of k "unat v"] by argo
  then show ?thesis by (metis of_nat_unat)
qed

lemma put32_nat: "put32 v = be_nat 4 (unat v)"
proof -
  have "rev [0..<4::nat] = [3, 2, 1, 0]" by (simp add: upt_conv_Cons)
  then show ?thesis using ucast_drop_bit_nat [of 24 v] ucast_drop_bit_nat [of 16 v] ucast_drop_bit_nat [of 8 v] ucast_drop_bit_nat [of 0 v]
    by (simp add: put32_def be_nat_def)
qed

lemma ucast_ucast_drop: "k \<le> 24 \<Longrightarrow> (ucast (drop_bit k (ucast v :: 32 word)) :: byte) = ucast (drop_bit k (v :: 64 word))"
  by (rule bit_eqI) (auto simp: bit_simps)

lemma put64_bytes: "put64 v = map (\<lambda>k. ucast (drop_bit k v)) [56, 48, 40, 32, 24, 16, 8, 0]"
  using ucast_ucast_drop [of 0] ucast_ucast_drop [of 8] ucast_ucast_drop [of 16] ucast_ucast_drop [of 24]
  by (simp add: put64_def put32_def)

lemma put64_nat: "put64 v = be_nat 8 (unat v)"
proof -
  have "rev [0..<8::nat] = [7, 6, 5, 4, 3, 2, 1, 0]" by (simp add: upt_conv_Cons)
  then show ?thesis unfolding put64_bytes ucast_drop_bit_nat be_nat_def by simp
qed

lemma be_nat_split: "be_nat 16 x = be_nat 8 (x div 2 ^ 64) @ be_nat 8 (x mod 2 ^ 64)"
proof -
  have up: "[0..<16::nat] = [0..<8] @ map (\<lambda>i. i + 8) [0..<8]" by (simp add: upt_conv_Cons)
  have lo: "(of_nat (x mod 2 ^ 64 div 256 ^ i) :: byte) = of_nat (x div 256 ^ i)" if "i < 8" for i
  proof -
    have "x mod 2 ^ 64 div 256 ^ i = drop_bit (8 * i) (take_bit 64 x)" and "x div 256 ^ i = drop_bit (8 * i) x"
      by (simp_all add: take_bit_eq_mod drop_bit_eq_div power_mult)
    then show ?thesis using that by (intro bit_eqI) (auto simp: bit_simps)
  qed
  have hi: "x div 2 ^ 64 div 256 ^ i = x div 256 ^ (i + 8)" for i
    by (simp add: power_add mult.commute flip: div_mult2_eq)
  show ?thesis unfolding be_nat_def up using lo hi by (simp add: rev_map o_def)
qed

section \<open>Blocks and padding\<close>

lemma parse_blocks_append:
  assumes "0 < bs" and "bs dvd length a"
  shows "parse_blocks bs (a @ b) = parse_blocks bs a @ parse_blocks bs b"
proof -
  obtain k where k: "length a = bs * k" using assms(2) by (elim dvdE)
  have "[0..<length (a @ b) div bs] = [0..<k] @ map (\<lambda>i. k + i) [0..<length b div bs]"
  proof -
    have "map (\<lambda>i. k + i) [0..<m] = [k..<k + m]" for m
      using map_add_upt [of k m] by (simp add: add.commute)
    then show ?thesis using assms(1) k upt_add_eq_append [of 0 k "length b div bs"] by simp
  qed
  moreover have "take bs (drop (bs * i) (a @ b)) = take bs (drop (bs * i) a)" if "i < k" for i
  proof -
    have "bs * Suc i \<le> length a" using that k by (metis Suc_leI mult_le_mono2)
    then show ?thesis by simp
  qed
  moreover have "drop (bs * (k + i)) (a @ b) = drop (bs * i) b" for i
    using k by (simp add: distrib_left)
  ultimately show ?thesis using k assms(1) by (simp add: parse_blocks_def o_def)
qed

lemma write_at_0_zeros: "length xs < n \<Longrightarrow> (write_at 0 xs (replicate n 0))[length xs := v] = xs @ v # replicate (n - length xs - 1) 0"
  by (simp add: write_at_def list_update_append flip: Cons_replicate_eq) (cases "n - length xs"; simp)

lemma pad_zeros:
  fixes bs :: nat
  assumes "lb < bs" and "t < bs" and "t = len mod bs"
  shows "(bs - (len + 1 + lb) mod bs) mod bs = (if t + 1 + lb \<le> bs then bs else 2 * bs) - lb - t - 1"
proof -
  have eq: "(len + 1 + lb) mod bs = (t + 1 + lb) mod bs" using assms(3) by (metis mod_add_left_eq add.assoc)
  consider "t + 1 + lb < bs" | "t + 1 + lb = bs" | "bs < t + 1 + lb" by linarith
  then show ?thesis
  proof cases
    case 3
    then have "(t + 1 + lb) mod bs = t + 1 + lb - bs" using assms(1,2) by (simp add: mod_if)
    then show ?thesis using 3 assms(1,2) eq by simp
  qed (use eq in simp_all)
qed

text \<open>The tail block or blocks the code builds are the tail of the padded message.\<close>

lemma write_at_zeros:
  assumes "k = length xs" and "k + 1 \<le> off" and "off + length b \<le> k + 1 + m"
  shows "write_at off b (xs @ v # replicate m 0 @ ys)
    = (xs @ v # replicate (off - k - 1) 0) @ b @ (replicate (k + 1 + m - off - length b) 0 @ ys)"
proof -
  have t: "take off (xs @ v # replicate m 0 @ ys) = xs @ v # replicate (off - k - 1) 0"
    using assms by (auto simp: take_Cons' min_def)
  have d: "drop (off + length b) (xs @ v # replicate m 0 @ ys) = replicate (k + 1 + m - off - length b) 0 @ ys"
    using assms by (simp add: drop_Cons' add.commute)
  show ?thesis unfolding write_at_def t d by simp
qed

lemma put64_length [simp]: "length (put64 w) = 8" by (simp add: put64_def put32_def)

lemma pad_tail_shape:
  assumes "length xs < bs" and "lb < bs" and "lb = 8 \<or> lb = 16" and "pad_tail bs lb xs v = (blk, n)"
  shows "n = (if length xs + 1 + lb \<le> bs then bs else 2 * bs)"
    and "\<exists>ys. blk = (xs @ 0x80 # replicate (n - lb - length xs - 1) 0 @ (if lb = 16 then put64 (drop_bit 61 v) else []) @ put64 (push_bit 3 v)) @ ys"
proof -
  show n: "n = (if length xs + 1 + lb \<le> bs then bs else 2 * bs)" using assms(4) by (auto simp: pad_tail_def Let_def)
  have le: "length xs + 1 + lb \<le> n" "n \<le> 2 * bs" using n assms(1,2) by auto
  let ?k = "length xs" and ?m = "2 * bs - length xs - 1"
  have start: "(write_at 0 xs (replicate (2 * bs) 0))[?k := 0x80] = xs @ 0x80 # replicate ?m 0 @ []"
    using assms(1) by (simp add: write_at_0_zeros)
  let ?b1 = "(xs @ 0x80 # replicate (n - 8 - ?k - 1) 0) @ put64 (push_bit 3 v) @ replicate (?k + 1 + ?m - (n - 8) - 8) 0"
  have b1: "write_at (n - 8) (put64 (push_bit 3 v)) (xs @ 0x80 # replicate ?m 0 @ []) = ?b1"
    using write_at_zeros [of ?k xs "n - 8" "put64 (push_bit 3 v)" ?m "0x80" "[]"] le assms(1,3) by auto
  have blk: "blk = (if lb = 16 then write_at (n - 16) (put64 (drop_bit 61 v)) ?b1 else ?b1)"
    using assms(4) start b1 n by (auto simp: pad_tail_def Let_def)
  show "\<exists>ys. blk = (xs @ 0x80 # replicate (n - lb - length xs - 1) 0 @ (if lb = 16 then put64 (drop_bit 61 v) else []) @ put64 (push_bit 3 v)) @ ys"
  proof (cases "lb = 16")
    case True
    have "write_at (n - 16) (put64 (drop_bit 61 v)) ?b1
      = (xs @ 0x80 # replicate (n - 16 - ?k - 1) 0) @ put64 (drop_bit 61 v) @ (put64 (push_bit 3 v) @ replicate (?k + 1 + ?m - (n - 8) - 8) 0)"
      using write_at_zeros [of ?k xs "n - 16" "put64 (drop_bit 61 v)" "n - 8 - ?k - 1" "0x80"
          "put64 (push_bit 3 v) @ replicate (?k + 1 + ?m - (n - 8) - 8) 0"] le True by simp
    then show ?thesis using blk True by simp
  next
    case False
    then show ?thesis using blk assms(3) by simp
  qed
qed

lemma length_bytes:
  assumes "n < 2 ^ 64" and "lb = 8 \<and> n < 2 ^ 61 \<or> lb = 16"
  shows "(if lb = 16 then put64 (drop_bit 61 (of_nat n)) else []) @ put64 (push_bit 3 (of_nat n)) = be_nat lb (8 * n)"
proof -
  have n: "unat (of_nat n :: 64 word) = n" using assms(1) by (simp add: unat_of_nat)
  have lo: "unat (push_bit 3 (of_nat n :: 64 word)) = (8 * n) mod 2 ^ 64"
    by (simp add: push_bit_eq_mult unat_word_ariths n mult.commute)
  have "unat (drop_bit 61 (of_nat n :: 64 word)) = n div 2 ^ 61"
    using unat_drop_bit_eq [of 61 "of_nat n :: 64 word"] drop_bit_eq_div [of 61 n] n by argo
  also have "\<dots> = 8 * n div 2 ^ 64" using div_mult_mult1 [of 8 n "2 ^ 61"] by simp
  finally have hi: "unat (drop_bit 61 (of_nat n :: 64 word)) = 8 * n div 2 ^ 64" .
  have "be_nat 8 ((8 * n) mod 2 ^ 64) = be_nat 8 (8 * n)" if "n < 2 ^ 61" using that by simp
  then show ?thesis using assms(2) be_nat_split [of "8 * n"] by (auto simp: put64_nat lo hi)
qed

text \<open>A hash over blocks: the code's block routine reads one block at a pointer and computes the compression.\<close>

locale block_hash =
  fixes block compress :: "'h \<Rightarrow> byte list \<Rightarrow> 'h" and bs lb :: nat
  assumes block_compress: "bs \<le> length p \<Longrightarrow> block h p = compress h (take bs p)"
    and sizes: "lb < bs" "lb = 8 \<or> lb = 16"
begin

lemma run_blocks_parse:
  assumes "bs dvd n" and "n \<le> length p"
  shows "run_blocks block bs h p n = foldl compress h (parse_blocks bs (take n p))"
proof -
  obtain k where n: "n = bs * k" using assms(1) by (elim dvdE)
  have pos: "0 < bs" using sizes(1) by simp
  have step: "block h (drop (bs * i) p) = compress h (take bs (drop (bs * i) (take n p)))" if "i < k" for h i
  proof -
    have le: "bs * Suc i \<le> n" unfolding n using that by (metis Suc_leI mult_le_mono2)
    then have "bs \<le> length (drop (bs * i) p)" using assms(2) by simp
    moreover have "take bs (drop (bs * i) (take n p)) = take bs (drop (bs * i) p)"
      using le by (simp add: drop_take min_def)
    ultimately show ?thesis by (simp add: block_compress)
  qed
  have "run_blocks block bs h p n = foldl (\<lambda>h i. compress h (take bs (drop (bs * i) (take n p)))) h [0..<k]"
    unfolding run_blocks_def n using pos step n by (intro foldl_cong) auto
  then show ?thesis using assms(2) n pos by (simp add: parse_blocks_def foldl_map)
qed

theorem hash_all_fips:
  assumes "length p < 2 ^ 64" and "lb = 8 \<longrightarrow> length p < 2 ^ 61"
  shows "hash_all block bs lb h p = fips_hash compress bs lb h p"
proof -
  define full where "full = length p - length p mod bs"
  obtain blk n where pt: "pad_tail bs lb (drop full p) (of_nat (length p)) = (blk, n)" by (metis surj_pair)
  have pos: "0 < bs" using sizes(1) by simp
  have dvd: "bs dvd full" unfolding full_def by (rule dvd_minus_mod)
  have fl: "full \<le> length p" "length (drop full p) = length p mod bs" by (simp_all add: full_def)
  have tl: "length (drop full p) < bs" using fl(2) pos by simp
  note shape = pad_tail_shape [OF tl sizes pt]
  have n: "bs dvd n" "length (drop full p) + 1 + lb \<le> n" using shape(1) tl sizes(1) by auto
  let ?z = "n - lb - length (drop full p) - 1"
  let ?l = "(if lb = 16 then put64 (drop_bit 61 (of_nat (length p))) else []) @ put64 (push_bit 3 (of_nat (length p)))"
  obtain ys where ys: "blk = (drop full p @ 0x80 # replicate ?z 0 @ ?l) @ ys" using shape(2) by blast
  have "length ?l = lb" using sizes(2) by auto
  then have len: "length (drop full p @ 0x80 # replicate ?z 0 @ ?l) = n" using n(2) by simp
  have lb: "?l = be_nat lb (8 * length p)" using assms sizes(2) by (intro length_bytes) auto
  have "take n blk = drop full p @ 0x80 # replicate ?z 0 @ be_nat lb (8 * length p)"
    using append_eq_conv_conj [of _ ys blk] len ys unfolding lb by metis
  moreover have "?z = (bs - (length p + 1 + lb) mod bs) mod bs"
    using pad_zeros [OF sizes(1) tl fl(2)] shape(1) by simp
  ultimately have pad: "take full p @ take n blk = fips_pad bs lb p" by (simp add: fips_pad_def)
  have "hash_all block bs lb h p = run_blocks block bs (run_blocks block bs h p full) blk n"
    using pt by (simp add: hash_all_def Let_def full_def)
  also have "\<dots> = foldl compress h (parse_blocks bs (take full p) @ parse_blocks bs (take n blk))"
    using run_blocks_parse [OF dvd fl(1)] run_blocks_parse [OF n(1), of blk] len ys by simp
  also have "\<dots> = fips_hash compress bs lb h p"
    using parse_blocks_append [OF pos, of "take full p" "take n blk"] dvd fl(1) pad by (simp add: fips_hash_def)
  finally show ?thesis .
qed

end

section \<open>The block routines\<close>

text \<open>The array a schedule loop fills is the schedule, when each entry is computed from earlier ones.\<close>

lemma sched_fill:
  assumes "length w0 = 16" and "\<And>t. t < 16 \<Longrightarrow> w0 ! t = W t"
    and "\<And>w i. 16 \<le> i \<Longrightarrow> length w = i \<Longrightarrow> (\<And>t. t < i \<Longrightarrow> w ! t = W t) \<Longrightarrow> g w i = W i"
  shows "16 \<le> n \<Longrightarrow> foldl (\<lambda>w i. w @ [g w i]) w0 [16..<n] = map W [0..<n]"
proof (induction n rule: dec_induct)
  case base
  show ?case using assms(1,2) by (simp add: list_eq_iff_nth_eq)
next
  case (step n)
  then show ?case using assms(3) [of n "map W [0..<n]"] by simp
qed

lemma be_words:
  assumes "64 \<le> length p" and "t < 16"
  shows "be32 (drop (4 * t) p) = be_val (take 4 (drop (4 * t) (take 64 p)))"
  using be32_val [of "drop (4 * t) p"] assms by (simp add: drop_take min_def)

lemma be_words_64:
  assumes "128 \<le> length p" and "t < 16"
  shows "be64 (drop (8 * t) p) = be_val (take 8 (drop (8 * t) (take 128 p)))"
  using be64_val [of "drop (8 * t) p"] assms by (simp add: drop_take min_def)

lemma sha1_sched_W:
  assumes "64 \<le> length p"
  shows "sha1_sched p = map (sha1_W (\<lambda>t. be_val (take 4 (drop (4 * t) (take 64 p))))) [0..<80]" (is "_ = map ?W _")
  unfolding sha1_sched_def
proof (rule sched_fill)
  fix w :: "32 word list" and i :: nat
  assume i: "16 \<le> i" and "length w = i" and w: "\<And>t. t < i \<Longrightarrow> w ! t = ?W t"
  have "w ! (i - 3) = ?W (i - 3) \<and> w ! (i - 8) = ?W (i - 8) \<and> w ! (i - 14) = ?W (i - 14) \<and> w ! (i - 16) = ?W (i - 16)"
    using i w by simp
  then show "ROL32 (w ! (i - 3) XOR w ! (i - 8) XOR w ! (i - 14) XOR w ! (i - 16)) 1 = ?W i"
    using i by (simp add: sha1_W.simps [of _ i])
qed (use assms be_words in \<open>simp_all add: sha1_W.simps\<close>)

lemma sha256_sched_W:
  assumes "64 \<le> length p"
  shows "sha256_sched p = map (sha2_W (rotsh 7 18 3) (rotsh 17 19 10) (\<lambda>t. be_val (take 4 (drop (4 * t) (take 64 p))))) [0..<64]"
    (is "_ = map ?W _")
  unfolding sha256_sched_def Let_def
proof (rule sched_fill)
  fix w :: "32 word list" and i :: nat
  assume i: "16 \<le> i" and "length w = i" and w: "\<And>t. t < i \<Longrightarrow> w ! t = ?W t"
  have "w ! (i - 2) = ?W (i - 2) \<and> w ! (i - 7) = ?W (i - 7) \<and> w ! (i - 15) = ?W (i - 15) \<and> w ! (i - 16) = ?W (i - 16)"
    using i w by simp
  then show "w ! (i - 16) + (ROR32 (w ! (i - 15)) 7 XOR ROR32 (w ! (i - 15)) 18 XOR drop_bit 3 (w ! (i - 15)))
      + w ! (i - 7) + (ROR32 (w ! (i - 2)) 17 XOR ROR32 (w ! (i - 2)) 19 XOR drop_bit 10 (w ! (i - 2))) = ?W i"
    using i by (simp add: sha2_W.simps [of _ _ _ i] rotsh_def ac_simps)
qed (use assms be_words in \<open>simp_all add: sha2_W.simps\<close>)

lemma sha512_sched_W:
  assumes "128 \<le> length p"
  shows "sha512_sched p = map (sha2_W (rotsh 1 8 7) (rotsh 19 61 6) (\<lambda>t. be_val (take 8 (drop (8 * t) (take 128 p))))) [0..<80]"
    (is "_ = map ?W _")
  unfolding sha512_sched_def Let_def
proof (rule sched_fill)
  fix w :: "64 word list" and i :: nat
  assume i: "16 \<le> i" and "length w = i" and w: "\<And>t. t < i \<Longrightarrow> w ! t = ?W t"
  have "w ! (i - 2) = ?W (i - 2) \<and> w ! (i - 7) = ?W (i - 7) \<and> w ! (i - 15) = ?W (i - 15) \<and> w ! (i - 16) = ?W (i - 16)"
    using i w by simp
  then show "w ! (i - 16) + (ROR64 (w ! (i - 15)) 1 XOR ROR64 (w ! (i - 15)) 8 XOR drop_bit 7 (w ! (i - 15)))
      + w ! (i - 7) + (ROR64 (w ! (i - 2)) 19 XOR ROR64 (w ! (i - 2)) 61 XOR drop_bit 6 (w ! (i - 2))) = ?W i"
    using i by (simp add: sha2_W.simps [of _ _ _ i] rotsh_def ac_simps)
qed (use assms be_words_64 in \<open>simp_all add: sha2_W.simps\<close>)

lemma foldl_map_nth:
  "(\<And>s t. t < n \<Longrightarrow> f s t = g s t) \<Longrightarrow> foldl f s [0..<n] = foldl g s [0..<n]"
  by (rule foldl_cong) auto

lemma sha1_block_compress: "64 \<le> length p \<Longrightarrow> sha1_block h p = sha1_compress h (take 64 p)"
proof -
  assume len: "64 \<le> length p"
  let ?W = "sha1_W (\<lambda>t. be_val (take 4 (drop (4 * t) (take 64 p))))"
  have "sha1_round (map ?W [0..<80]) s t = (\<lambda>(a, b, c, d, e) t.
      (word_rotl 5 a + sha1_f t b c d + e + sha1_K t + ?W t, a, word_rotl 30 b, c, d)) s t" if t: "t < 80" for s t
  proof -
    obtain a b c d e where s: "s = (a, b, c, d, e)" by (cases s)
    have W: "map ?W [0..<80] ! t = ?W t" using t by simp
    consider "t < 20" | "20 \<le> t" "t < 40" | "40 \<le> t" "t < 60" | "60 \<le> t" by linarith
    then show ?thesis
    proof cases
      case 1
      then show ?thesis by (simp add: s sha1_f_def sha1_K_def choice_or W del: nth_map)
    next
      case 2
      then have "t div 20 = 1" by simp
      then show ?thesis using 2 by (simp add: s sha1_f_def sha1_K_def W del: nth_map)
    next
      case 3
      then have "t div 20 = 2" by simp
      then show ?thesis using 3 by (simp add: s sha1_f_def sha1_K_def majority_or W del: nth_map)
    next
      case 4
      then have "t div 20 = 3" using t by simp
      then show ?thesis using 4 by (simp add: s sha1_f_def sha1_K_def W numeral_3_eq_3 del: nth_map)
    qed
  qed
  then show ?thesis unfolding sha1_block_def sha1_compress_def sha1_sched_W [OF len] Let_def
    by (subst foldl_map_nth) (auto simp: add.commute)
qed

lemma vars_cases:
  obtains a b c d e f g h where "s = (a, b, c, d, e, f, g, h)"
  by (metis surj_pair)

lemma sha256_block_compress: "64 \<le> length p \<Longrightarrow> sha256_block h p = sha256_compress h (take 64 p)"
proof -
  assume len: "64 \<le> length p"
  let ?W = "sha2_W (rotsh 7 18 3) (rotsh 17 19 10) (\<lambda>t. be_val (take 4 (drop (4 * t) (take 64 p))))"
  have "sha256_round (map ?W [0..<64]) s t = (\<lambda>(a, b, c, d, e, f, g, h) t.
      let T1 = h + rot3 6 11 25 e + Ch e f g + K256 ! t + ?W t; T2 = rot3 2 13 22 a + Maj a b c in
      (T1 + T2, a, b, c, d + T1, e, f, g)) s t" if t: "t < 64" for s t
    using t by (cases s rule: vars_cases) (simp add: Let_def rot3_def Ch_def Maj_def)
  then show ?thesis unfolding sha256_block_def sha256_compress_def sha2_compress_def sha256_sched_W [OF len] Let_def
    by (subst foldl_map_nth) (auto simp: add.commute)
qed

lemma sha512_block_compress: "128 \<le> length p \<Longrightarrow> sha512_block h p = sha512_compress h (take 128 p)"
proof -
  assume len: "128 \<le> length p"
  let ?W = "sha2_W (rotsh 1 8 7) (rotsh 19 61 6) (\<lambda>t. be_val (take 8 (drop (8 * t) (take 128 p))))"
  have "sha512_round (map ?W [0..<80]) s t = (\<lambda>(a, b, c, d, e, f, g, h) t.
      let T1 = h + rot3 14 18 41 e + Ch e f g + K512 ! t + ?W t; T2 = rot3 28 34 39 a + Maj a b c in
      (T1 + T2, a, b, c, d + T1, e, f, g)) s t" if t: "t < 80" for s t
    using t by (cases s rule: vars_cases) (simp add: Let_def rot3_def Ch_def Maj_def)
  then show ?thesis unfolding sha512_block_def sha512_compress_def sha2_compress_def sha512_sched_W [OF len] Let_def
    by (subst foldl_map_nth) (auto simp: add.commute)
qed

interpretation sha1: block_hash sha1_block sha1_compress 64 8
  by unfold_locales (simp_all add: sha1_block_compress)

interpretation sha256: block_hash sha256_block sha256_compress 64 8
  by unfold_locales (simp_all add: sha256_block_compress)

interpretation sha512: block_hash sha512_block sha512_compress 128 16
  by unfold_locales (simp_all add: sha512_block_compress)

section \<open>The digest is the standard's\<close>

text \<open>The constants: the leading fractional bits of the square and cube roots of the first primes.\<close>

definition first_primes :: "nat list" where
  "first_primes = [
    2, 3, 5, 7, 11, 13, 17, 19, 23, 29, 31, 37, 41, 43, 47, 53, 59, 61, 67, 71,
    73, 79, 83, 89, 97, 101, 103, 107, 109, 113, 127, 131, 137, 139, 149, 151, 157, 163, 167, 173,
    179, 181, 191, 193, 197, 199, 211, 223, 227, 229, 233, 239, 241, 251, 257, 263, 269, 271, 277, 281,
    283, 293, 307, 311, 313, 317, 331, 337, 347, 349, 353, 359, 367, 373, 379, 383, 389, 397, 401, 409]"

definition frac_root :: "nat \<Rightarrow> nat \<Rightarrow> 'a::len word \<Rightarrow> bool" where
  "frac_root k p c \<longleftrightarrow> (\<exists>q. (q * 2 ^ LENGTH('a) + unat c) ^ k \<le> p * 2 ^ (LENGTH('a) * k)
     \<and> p * 2 ^ (LENGTH('a) * k) < (q * 2 ^ LENGTH('a) + unat c + 1) ^ k)"

text \<open>The integer part is searched for with the prime alone, the fraction checked once.\<close>

fun root_search :: "nat \<Rightarrow> nat \<Rightarrow> 'a::len word \<Rightarrow> (nat \<times> nat) list \<Rightarrow> bool" where
  "root_search k p c [] = False"
| "root_search k p c ((q, r) # qs) = (if r ^ k \<le> p then root_search k p c qs
     else (q * 2 ^ LENGTH('a) + unat c) ^ k \<le> p * 2 ^ (LENGTH('a) * k)
       \<and> p * 2 ^ (LENGTH('a) * k) < (q * 2 ^ LENGTH('a) + unat c + 1) ^ k)"

lemma root_search_sound: "root_search k p c qs \<Longrightarrow> frac_root k p c"
  by (induction k p c qs rule: root_search.induct) (auto simp: frac_root_def split: if_splits)

lemmas frac_root_search = root_search_sound [where qs = "[(1, 2), (2, 3), (3, 4), (4, 5), (5, 6), (6, 7), (7, 8)]"]

lemma rev_upt_rows: "rev [0..<8::nat] = [7, 6, 5, 4, 3, 2, 1, 0]" "rev [0..<4::nat] = [3, 2, 1, 0]"
  by (simp_all add: upt_conv_Cons)

lemmas table_defs = first_primes_def table_rows_def rev_upt_rows

lemma K256_roots: "list_all2 (frac_root 3) (take 64 first_primes) K256"
  by (simp add: table_defs K256_def) (intro conjI; rule frac_root_search; simp)

lemma K512_roots_a: "list_all2 (frac_root 3) (take 20 first_primes) (take 20 K512)"
  by (simp add: table_defs K512_def) (intro conjI; rule frac_root_search; simp)

lemma K512_roots_b: "list_all2 (frac_root 3) (take 20 (drop 20 first_primes)) (take 20 (drop 20 K512))"
  by (simp add: table_defs K512_def) (intro conjI; rule frac_root_search; simp)

lemma K512_roots_c: "list_all2 (frac_root 3) (take 20 (drop 40 first_primes)) (take 20 (drop 40 K512))"
  by (simp add: table_defs K512_def) (intro conjI; rule frac_root_search; simp)

lemma K512_roots_d: "list_all2 (frac_root 3) (drop 60 first_primes) (drop 60 K512)"
  by (simp add: table_defs K512_def) (intro conjI; rule frac_root_search; simp)

lemma quarters: "xs = take 20 xs @ take 20 (drop 20 xs) @ take 20 (drop 40 xs) @ drop 60 xs"
  using append_take_drop_id [of 20 xs] append_take_drop_id [of 20 "drop 20 xs"] append_take_drop_id [of 20 "drop 40 xs"]
  by simp

lemma K512_roots: "list_all2 (frac_root 3) first_primes K512"
  using K512_roots_a K512_roots_b K512_roots_c K512_roots_d quarters [of first_primes] quarters [of K512]
  by (metis list_all2_appendI)

lemma I256_roots: "list_all2 (frac_root 2) (take 8 first_primes) I256"
  by (simp add: table_defs I256_def) (intro conjI; rule frac_root_search; simp)

lemma I512_roots: "list_all2 (frac_root 2) (take 8 first_primes) I512"
  by (simp add: table_defs I512_def) (intro conjI; rule frac_root_search; simp)

lemma I384_roots: "list_all2 (frac_root 2) (take 8 (drop 8 first_primes)) I384"
  by (simp add: table_defs I384_def) (intro conjI; rule frac_root_search; simp)

lemma word_bytes_length: "length (concat (map (\<lambda>w. be_nat n (f w)) ws)) = n * length ws"
  by (induction ws) (simp_all add: be_nat_def)

lemma foldl_length: "(\<And>h b. length (f h b) = n) \<Longrightarrow> length h = n \<Longrightarrow> length (foldl f h bs) = n"
  by (induction bs arbitrary: h) simp_all

lemma hash_lengths:
  "length (fips_hash sha1_compress bs lb I1 p) = 5" "length (fips_hash sha256_compress bs lb I256 p) = 8"
  "length (fips_hash sha512_compress bs lb I512 p) = 8" "length (fips_hash sha512_compress bs lb I384 p) = 8"
  unfolding fips_hash_def
  by (rule foldl_length; simp add: sha1_compress_def sha256_compress_def sha512_compress_def sha2_compress_def Let_def
      I1_def I256_def I512_def I384_def table_rows_def split: prod.split)+

text \<open>C19: \<^verbatim>\<open>sha_digest\<close> computes the digests of FIPS 180-4: for every message the standard admits, of any length and
  so with a tail padded to one block or to two, the output is the standard's, and it has the length
  \<^verbatim>\<open>sha_digest_len\<close> announces. The tables the code carries are the fractional bits of the cube
  roots (round constants) and square roots (initial values) of the first primes.\<close>

theorem sha_digest_fips:
  assumes "length p < 2 ^ 64" and "alg = SHA_1 \<or> alg = SHA_256 \<longrightarrow> length p < 2 ^ 61"
  shows "sha_digest alg (Some p) True = Some (fips_digest alg p) \<and> length (fips_digest alg p) = sha_digest_len alg
    \<and> list_all2 (frac_root 3) (take 64 first_primes) K256 \<and> list_all2 (frac_root 3) first_primes K512
    \<and> list_all2 (frac_root 2) (take 8 first_primes) I256 \<and> list_all2 (frac_root 2) (take 8 first_primes) I512
    \<and> list_all2 (frac_root 2) (take 8 (drop 8 first_primes)) I384"
proof -
  have p32: "put32 = (\<lambda>w. be_nat 4 (unat w))" and p64: "put64 = (\<lambda>w. be_nat 8 (unat w))"
    by (simp_all add: fun_eq_iff put32_nat put64_nat)
  have len: "length (fips_digest alg p) = sha_digest_len alg"
    by (cases alg) (simp_all add: fips_digest_def word_bytes_length hash_lengths)
  moreover have "sha_digest alg (Some p) True = Some (take (sha_digest_len alg) (fips_digest alg p))"
    using assms len by (cases alg)
      (simp_all add: sha_digest_def fips_digest_def sha1.hash_all_fips sha256.hash_all_fips sha512.hash_all_fips p32 p64 Let_def)
  ultimately have "sha_digest alg (Some p) True = Some (fips_digest alg p)" by simp
  then show ?thesis using len K256_roots K512_roots I256_roots I512_roots I384_roots by blast
qed

theorem sha_digest_fips_witness:
  "sha_digest SHA_256 (Some (replicate 55 0x61)) True = Some (fips_digest SHA_256 (replicate 55 0x61))
   \<and> sha_digest SHA_384 (Some (replicate 112 0x61)) True = Some (fips_digest SHA_384 (replicate 112 0x61))
   \<and> length (fips_digest SHA_384 (replicate 112 0x61)) = 48"
  using sha_digest_fips [of "replicate 55 0x61" SHA_256] sha_digest_fips [of "replicate 112 0x61" SHA_384] by simp

end
