(* ===== verification/Form.thy ===== *)
theory Form
  imports Link_Nav
begin

text \<open>
  The module \<^verbatim>\<open>src/form.c\<close>: the request a form submission stands for. The controls are serialised as
  \<^verbatim>\<open>application/x-www-form-urlencoded\<close>, the action is cleaned and resolved through \<open>Url\<close>, and the plan is a
  GET navigation, a POST with a body, or blocked. Encoding is proved against a decoder of that format.
\<close>

section \<open>Model\<close>

definition FM_URL_MAX :: nat where "FM_URL_MAX = URL_MAX_LEN"
definition FM_BODY_MAX :: nat where "FM_BODY_MAX = 4096"
definition FM_MAX_FIELDS :: nat where "FM_MAX_FIELDS = 64"

definition FM_CONTENT_TYPE_URLENCODED :: string where
  "FM_CONTENT_TYPE_URLENCODED = ''application/x-www-form-urlencoded''"

datatype fm_method = FM_GET | FM_POST
datatype fm_kind = FM_NAVIGATE | FM_POST_REQUEST | FM_BLOCKED
datatype fm_block_reason = FM_BLOCK_NONE | FM_BLOCK_INSECURE | FM_BLOCK_OVERFLOW | FM_BLOCK_INVALID
datatype fm_status = FM_OK | FM_ERR_NULL_ARG | FM_ERR_OVERFLOW

record fm_field =
  fm_name :: cptr
  fm_value :: cptr

record fm_plan =
  fm_kind :: fm_kind
  fm_reason :: fm_block_reason
  fm_url :: string
  fm_body :: string
  fm_content_type :: cptr

definition put_char :: "nat \<Rightarrow> string \<Rightarrow> char \<Rightarrow> string option" where
  "put_char outsz out c = (if length out + 1 \<ge> outsz then None else Some (out @ [c]))"

text \<open>What the serialiser writes for one byte, and the byte by byte writing of it.\<close>

definition enc_byte :: "char \<Rightarrow> string" where
  "enc_byte c =
     (if c = CHR '' '' then ''+''
      else if c = CHR ''*'' \<or> c = CHR ''-'' \<or> c = CHR ''.'' \<or> c = CHR ''_'' \<or> is_alnum c then [c]
      else [CHR ''%'', hex_digit (of_char c div 16), hex_digit (of_char c mod 16)])"

fun put_chars :: "nat \<Rightarrow> string \<Rightarrow> string \<Rightarrow> string option" where
  "put_chars outsz out [] = Some out"
| "put_chars outsz out (c # cs) = (case put_char outsz out c of None \<Rightarrow> None | Some o1 \<Rightarrow> put_chars outsz o1 cs)"

fun enc_component :: "nat \<Rightarrow> string \<Rightarrow> string \<Rightarrow> string option" where
  "enc_component outsz out [] = Some out"
| "enc_component outsz out (c # s) =
     (case put_chars outsz out (enc_byte c) of None \<Rightarrow> None | Some o1 \<Rightarrow> enc_component outsz o1 s)"

definition value_of :: "fm_field \<Rightarrow> string" where
  "value_of f = (case fm_value f of None \<Rightarrow> [] | Some v \<Rightarrow> v)"

fun encode_fields :: "nat \<Rightarrow> bool \<Rightarrow> string \<Rightarrow> fm_field list \<Rightarrow> string option" where
  "encode_fields outsz first out [] = Some out"
| "encode_fields outsz first out (f # fs) =
     (case fm_name f of
        None \<Rightarrow> encode_fields outsz first out fs
      | Some name \<Rightarrow>
        (case (if first then Some out else put_char outsz out CHR ''&'') of
          None \<Rightarrow> None
        | Some o1 \<Rightarrow>
          (case enc_component outsz o1 name of
            None \<Rightarrow> None
          | Some o2 \<Rightarrow>
            (case put_char outsz o2 CHR ''='' of
              None \<Rightarrow> None
            | Some o3 \<Rightarrow>
              (case enc_component outsz o3 (value_of f) of
                None \<Rightarrow> None
              | Some o4 \<Rightarrow> encode_fields outsz False o4 fs)))))"

text \<open>\<open>controls\<close> is the array, \<open>None\<close> for NULL, and \<open>n\<close> the number of controls in it.\<close>

fun fm_encode :: "fm_field list option \<Rightarrow> nat \<Rightarrow> cbuf \<Rightarrow> fm_status + string" where
  "fm_encode controls n None = Inl FM_ERR_NULL_ARG"
| "fm_encode controls n (Some outsz) =
     (if outsz = 0 then Inl FM_ERR_NULL_ARG
      else if n > 0 \<and> controls = None then Inl FM_ERR_NULL_ARG
      else case encode_fields outsz True [] (case controls of None \<Rightarrow> [] | Some fs \<Rightarrow> take n fs) of
          None \<Rightarrow> Inl FM_ERR_OVERFLOW
        | Some out \<Rightarrow> Inr out)"

text \<open>The same cleaning loop and trims as for a link.\<close>

definition clean_action :: "string \<Rightarrow> nat \<Rightarrow> string option" where
  "clean_action action outsz = map_option trim_spaces (clean_copy outsz [] action)"

definition strip_query :: "string \<Rightarrow> string" where
  "strip_query url = takeWhile (\<lambda>c. c \<noteq> CHR ''?'' \<and> c \<noteq> CHR ''#'') url"

definition resolve_target :: "string \<Rightarrow> string \<Rightarrow> nat \<Rightarrow> fm_block_reason + string" where
  "resolve_target base act Rsz =
     (if act = [] then
        (if url_validate_https (Some base) \<noteq> URL_OK then Inl FM_BLOCK_INSECURE
         else case copy_checked Rsz base of None \<Rightarrow> Inl FM_BLOCK_OVERFLOW | Some r \<Rightarrow> Inr r)
      else if url_is_https (Some act) then
        (if url_validate_https (Some act) \<noteq> URL_OK then Inl FM_BLOCK_INSECURE
         else case copy_checked Rsz act of None \<Rightarrow> Inl FM_BLOCK_OVERFLOW | Some r \<Rightarrow> Inr r)
      else case url_resolve_https (Some base) (Some act) (Some Rsz) of
          Inl us \<Rightarrow> Inl (if us = URL_ERR_OVERFLOW then FM_BLOCK_OVERFLOW else FM_BLOCK_INSECURE)
        | Inr r \<Rightarrow> Inr r)"

definition fm_blocked :: "fm_block_reason \<Rightarrow> fm_plan" where
  "fm_blocked reason = \<lparr> fm_kind = FM_BLOCKED, fm_reason = reason, fm_url = [], fm_body = [], fm_content_type = None \<rparr>"

text \<open>The plan for a resolved target and the encoded controls.\<close>

definition plan_for :: "fm_method \<Rightarrow> string \<Rightarrow> string \<Rightarrow> fm_plan" where
  "plan_for method R enc =
     (if method = FM_POST then
        (case copy_checked FM_URL_MAX R of
          None \<Rightarrow> fm_blocked FM_BLOCK_OVERFLOW
        | Some url \<Rightarrow> \<lparr> fm_kind = FM_POST_REQUEST, fm_reason = FM_BLOCK_NONE, fm_url = url, fm_body = enc,
                        fm_content_type = Some FM_CONTENT_TYPE_URLENCODED \<rparr>)
      else
        let R1 = strip_query R in
        if length R1 + 1 + length enc + 1 > FM_URL_MAX then fm_blocked FM_BLOCK_OVERFLOW
        else
          let url = R1 @ ''?'' @ enc in
          if url_validate_https (Some url) \<noteq> URL_OK then fm_blocked FM_BLOCK_INSECURE
          else \<lparr> fm_kind = FM_NAVIGATE, fm_reason = FM_BLOCK_NONE, fm_url = url, fm_body = [], fm_content_type = None \<rparr>)"

text \<open>\<open>out\<close> says whether the caller's plan is there.\<close>

definition fm_build :: "cptr \<Rightarrow> cptr \<Rightarrow> fm_method \<Rightarrow> fm_field list option \<Rightarrow> nat \<Rightarrow> bool \<Rightarrow> fm_status + fm_plan" where
  "fm_build base action method controls n out =
     (case base of
        None \<Rightarrow> Inl FM_ERR_NULL_ARG
      | Some b \<Rightarrow>
        if \<not> out then Inl FM_ERR_NULL_ARG
        else if n > FM_MAX_FIELDS then Inr (fm_blocked FM_BLOCK_INVALID)
        else if n > 0 \<and> controls = None then Inr (fm_blocked FM_BLOCK_INVALID)
        else if list_ex (\<lambda>f. fm_name f = None) (case controls of None \<Rightarrow> [] | Some fs \<Rightarrow> take n fs)
          then Inr (fm_blocked FM_BLOCK_INVALID)
        else
          (case (case action of None \<Rightarrow> Some [] | Some a \<Rightarrow> clean_action a (URL_MAX_LEN + 1)) of
            None \<Rightarrow> Inr (fm_blocked FM_BLOCK_OVERFLOW)
          | Some act \<Rightarrow>
            (case resolve_target b act FM_URL_MAX of
              Inl rr \<Rightarrow> Inr (fm_blocked rr)
            | Inr R \<Rightarrow>
              (case fm_encode controls n (Some FM_BODY_MAX) of
                Inl _ \<Rightarrow> Inr (fm_blocked FM_BLOCK_OVERFLOW)
              | Inr enc \<Rightarrow> Inr (plan_for method R enc)))))"

section \<open>What the controls encode\<close>

text \<open>The reading side: sequences between ampersands, each cut at its first equals sign and decoded.\<close>

definition parse_form :: "string \<Rightarrow> (string \<times> string) list" where
  "parse_form s = map (\<lambda>p. (form_decode (takeWhile (\<lambda>c. c \<noteq> CHR ''='') p), form_decode (drop 1 (dropWhile (\<lambda>c. c \<noteq> CHR ''='') p))))
     (filter (\<lambda>p. p \<noteq> []) (split_on CHR ''&'' s))"

text \<open>The pairs the controls stand for; a control without a name is not submitted.\<close>

definition form_data :: "fm_field list \<Rightarrow> (string \<times> string) list" where
  "form_data fs = List.map_filter (\<lambda>f. map_option (\<lambda>n. (n, value_of f)) (fm_name f)) fs"

lemma form_data_simps [simp]:
  "form_data [] = []"
  "form_data (f # fs) = (case fm_name f of None \<Rightarrow> form_data fs | Some n \<Rightarrow> (n, value_of f) # form_data fs)"
  by (simp_all add: form_data_def split: option.splits)

definition enc_str :: "string \<Rightarrow> string" where "enc_str s = concat (map enc_byte s)"

definition enc_pair :: "string \<times> string \<Rightarrow> string" where
  "enc_pair = (\<lambda>(n, v). enc_str n @ CHR ''='' # enc_str v)"

lemma enc_byte_decode: "form_decode (enc_byte c @ s) = c # form_decode s"
proof -
  have "(of_char c :: nat) div 16 mod 16 = of_char c div 16" by (simp add: less_mult_imp_div_less)
  then have pct: "form_decode (CHR ''%'' # hex_digit (of_char c div 16) # hex_digit (of_char c mod 16) # s) = c # form_decode s"
    using percent_decode [of c s] by argo
  have "\<not> is_alnum CHR ''+''" "\<not> is_alnum CHR ''%''" by code_simp+
  then show ?thesis using pct unfolding enc_byte_def
    by (simp del: form_decode.simps add: form_decode_plain) (auto simp: form_decode_plain)
qed

lemma enc_str_decode: "form_decode (enc_str s) = s"
  by (induction s) (simp_all add: enc_str_def enc_byte_decode del: form_decode.simps(2))

lemma enc_byte_plain: "x \<in> set (enc_byte c) \<Longrightarrow> x \<noteq> CHR ''&'' \<and> x \<noteq> CHR ''=''"
proof -
  have h: "\<forall>n \<in> set [0..<16]. hex_digit n \<noteq> CHR ''&'' \<and> hex_digit n \<noteq> CHR ''=''" by code_simp
  have "(of_char c :: nat) div 16 < 16" "(of_char c :: nat) mod 16 < 16" by (simp_all add: less_mult_imp_div_less)
  moreover have "\<not> is_alnum CHR ''&''" "\<not> is_alnum CHR ''=''" by code_simp+
  moreover assume "x \<in> set (enc_byte c)"
  ultimately show ?thesis using h by (auto simp: enc_byte_def split: if_splits)
qed

lemma enc_str_plain: "CHR ''&'' \<notin> set (enc_str s)" "CHR ''='' \<notin> set (enc_str s)"
  by (auto simp: enc_str_def dest: enc_byte_plain)

lemma put_chars_Some: "put_chars n out cs = Some o1 \<Longrightarrow> o1 = out @ cs \<and> (fits out n \<longrightarrow> fits o1 n)"
proof (induction cs arbitrary: out)
  case (Cons c cs)
  then have "\<not> length out + 1 \<ge> n" "put_chars n (out @ [c]) cs = Some o1" by (auto simp: put_char_def split: if_splits)
  then show ?case using Cons.IH [of "out @ [c]"] by (auto simp: fits_def)
qed simp

lemma enc_component_Some: "enc_component n out s = Some o1 \<Longrightarrow> o1 = out @ enc_str s \<and> (fits out n \<longrightarrow> fits o1 n)"
proof (induction s arbitrary: out)
  case (Cons c s)
  then obtain a where "put_chars n out (enc_byte c) = Some a" "enc_component n a s = Some o1" by (auto split: option.splits)
  then show ?case using Cons.IH [of a] put_chars_Some [of n out "enc_byte c" a] by (auto simp: enc_str_def)
qed (simp add: enc_str_def)

definition amp_join :: "bool \<Rightarrow> string list \<Rightarrow> string" where
  "amp_join first ps = (if first then drop 1 (concat (map ((#) CHR ''&'') ps)) else concat (map ((#) CHR ''&'') ps))"

lemma encode_fields_Some:
  "encode_fields n first out fs = Some o1 \<Longrightarrow>
   o1 = out @ amp_join first (map enc_pair (form_data fs)) \<and> (fits out n \<longrightarrow> fits o1 n)"
proof (induction n first out fs arbitrary: o1 rule: encode_fields.induct)
  case (1 n first out)
  then show ?case by (simp add: amp_join_def)
next
  case (2 n first out f fs)
  show ?case
  proof (cases "fm_name f")
    case None
    then show ?thesis using 2(1) [OF None, of o1] 2(3) by auto
  next
    case (Some name)
    obtain a b c d where r: "(if first then Some out else put_char n out CHR ''&'') = Some a"
      "enc_component n a name = Some b" "put_char n b CHR ''='' = Some c" "enc_component n c (value_of f) = Some d"
      "encode_fields n False d fs = Some o1"
      using 2(3) Some by (auto split: option.splits)
    have a: "a = (if first then out else out @ ''&'')" "fits out n \<longrightarrow> fits a n"
      using r(1) by (auto simp: put_char_def fits_def split: if_splits)
    have c: "c = b @ ''=''" "fits b n \<longrightarrow> fits c n" using r(3) by (auto simp: put_char_def fits_def split: if_splits)
    have "o1 = d @ amp_join False (map enc_pair (form_data fs)) \<and> (fits d n \<longrightarrow> fits o1 n)"
      using 2(2) [OF Some r(1,2,3,4,5)] .
    then show ?thesis using a c enc_component_Some [OF r(2)] enc_component_Some [OF r(4)] Some
      by (auto simp: amp_join_def enc_pair_def)
  qed
qed

lemma split_amp_join:
  "\<forall>p \<in> set (p0 # ps). CHR ''&'' \<notin> set p \<Longrightarrow> split_on CHR ''&'' (amp_join True (p0 # ps)) = p0 # ps"
proof (induction ps arbitrary: p0)
  case Nil
  then show ?case by (simp add: amp_join_def split_on_no_sep)
next
  case (Cons p ps)
  have "amp_join True (p0 # p # ps) = p0 @ CHR ''&'' # amp_join True (p # ps)" by (simp add: amp_join_def)
  then show ?case using Cons by (simp add: split_on_append_sep split_on_no_sep)
qed

lemma parse_form_encode: "parse_form (amp_join True (map enc_pair ds)) = ds"
proof (cases ds)
  case Nil
  then show ?thesis by (simp add: parse_form_def amp_join_def)
next
  case (Cons d r)
  have "\<forall>p \<in> set (map enc_pair ds). CHR ''&'' \<notin> set p"
    using enc_str_plain by (auto simp: enc_pair_def)
  then have "split_on CHR ''&'' (amp_join True (map enc_pair ds)) = map enc_pair ds"
    using split_amp_join [of "enc_pair d" "map enc_pair r"] Cons by simp
  moreover have "filter (\<lambda>p. p \<noteq> []) (map enc_pair ds) = map enc_pair ds" by (auto simp: filter_id_conv enc_pair_def)
  moreover have "(form_decode (takeWhile (\<lambda>c. c \<noteq> CHR ''='') (enc_pair x)), form_decode (drop 1 (dropWhile (\<lambda>c. c \<noteq> CHR ''='') (enc_pair x)))) = x" for x
    by (cases x) (simp add: enc_pair_def enc_str_plain enc_str_decode)
  ultimately show ?thesis by (simp add: parse_form_def o_def)
qed

lemma fm_encode_parse:
  assumes "fm_encode controls n (Some outsz) = Inr enc"
  shows "parse_form enc = form_data (case controls of None \<Rightarrow> [] | Some fs \<Rightarrow> take n fs)" and "fits enc outsz"
proof -
  have e: "encode_fields outsz True [] (case controls of None \<Rightarrow> [] | Some fs \<Rightarrow> take n fs) = Some enc" and "outsz \<noteq> 0"
    using assms by (auto split: if_splits option.splits)
  then show "parse_form enc = form_data (case controls of None \<Rightarrow> [] | Some fs \<Rightarrow> take n fs)" and "fits enc outsz"
    using encode_fields_Some [OF e] parse_form_encode by (auto simp: fits_def)
qed

section \<open>The plan\<close>

lemma resolve_target_Inr:
  assumes "resolve_target b act n = Inr R"
  shows "url_validate_https (Some R) = URL_OK"
    and "\<not> ci_prefix act ''https://'' \<Longrightarrow> \<not> prefix ''//'' act \<Longrightarrow>
      take (url_authority_len R) R = take (url_authority_len b) b"
proof -
  show "url_validate_https (Some R) = URL_OK"
    using assms by (auto simp: resolve_target_def validated_Inr simp del: url_validate_https.simps url_is_https.simps
        split: if_splits option.splits sum.splits)
  assume rel: "\<not> ci_prefix act ''https://''" "\<not> prefix ''//'' act"
  have no: "\<not> url_is_https (Some act)" using rel(1) by simp
  show "take (url_authority_len R) R = take (url_authority_len b) b"
  proof (cases "act = []")
    case True
    then show ?thesis using assms by (auto simp: resolve_target_def simp del: url_validate_https.simps split: if_splits option.splits)
  next
    case False
    then have r: "url_resolve_https (Some b) (Some act) (Some n) = Inr R"
      using assms no by (simp add: resolve_target_def del: url_is_https.simps url_resolve_https.simps split: sum.splits)
    then have b: "url_is_https (Some b)" and rr: "resolve_relative b act n = Inr R"
      using rel False by (auto simp: validated_Inr url_validate_https_OK simp del: url_validate_https.simps url_is_https.simps split: if_splits)
    obtain norm where norm: "R = take (url_authority_len b) b @ norm" "prefix ''/'' norm"
      using resolve_relative_Inr [OF rr] by blast
    have len: "8 < length b" using b by (rule url_is_https_length)
    have "url_authority_len R = url_authority_len b"
      unfolding norm(1) using len norm(2) by (intro url_authority_len_replace) (auto simp: authority_char_def prefix_single_iff)
    moreover have "url_authority_len b \<le> length b" using len by (intro authority_len_le) simp
    ultimately show ?thesis using norm(1) by simp
  qed
qed

text \<open>C10: a submission that is not blocked goes to a valid https URL with exactly the named controls and their
  values: a POST carries them in its body, a GET in the query that replaces the action's own, and
  decoding gives the pairs back in order. An action without a scheme or an authority of its own
  stays on the page's origin. A blocked plan has a reason, no URL and no body.\<close>

theorem fm_build_plan:
  assumes "fm_build (Some b) action method controls n True = Inr plan"
    and "(case action of None \<Rightarrow> Some [] | Some a \<Rightarrow> clean_action a (URL_MAX_LEN + 1)) = Some act"
  shows "(fm_kind plan = FM_BLOCKED \<longrightarrow> fm_reason plan \<noteq> FM_BLOCK_NONE \<and> fm_url plan = [] \<and> fm_body plan = [])
    \<and> (fm_kind plan \<noteq> FM_BLOCKED \<longrightarrow>
        url_validate_https (Some (fm_url plan)) = URL_OK \<and> fits (fm_url plan) FM_URL_MAX \<and> fits (fm_body plan) FM_BODY_MAX
        \<and> (fm_kind plan = FM_POST_REQUEST \<longleftrightarrow> method = FM_POST)
        \<and> form_data (case controls of None \<Rightarrow> [] | Some fs \<Rightarrow> take n fs) = parse_form
            (if method = FM_POST then fm_body plan else drop 1 (dropWhile (\<lambda>c. c \<noteq> CHR ''?'') (fm_url plan)))
        \<and> (\<not> ci_prefix act ''https://'' \<and> \<not> prefix ''//'' act \<longrightarrow>
            take (url_authority_len (fm_url plan)) (fm_url plan) = take (url_authority_len b) b))"
proof (cases "fm_kind plan = FM_BLOCKED")
  case True
  have nn: "resolve_target b act FM_URL_MAX = Inl rr \<Longrightarrow> rr \<noteq> FM_BLOCK_NONE" for rr
    by (auto simp: resolve_target_def simp del: url_validate_https.simps url_is_https.simps url_resolve_https.simps split: if_splits option.splits sum.splits)
  show ?thesis
    using assms True nn by (auto simp: fm_build_def fm_blocked_def plan_for_def Let_def simp del: url_validate_https.simps fm_encode.simps
        split: if_splits option.splits sum.splits)
next
  case False
  obtain R enc where R: "resolve_target b act FM_URL_MAX = Inr R" and enc: "fm_encode controls n (Some FM_BODY_MAX) = Inr enc"
    and plan: "plan = plan_for method R enc"
    using assms False by (auto simp: fm_build_def fm_blocked_def simp del: fm_encode.simps split: if_splits sum.splits)
  note data = fm_encode_parse [OF enc]
  note target = resolve_target_Inr [OF R]
  have https: "url_is_https (Some R)" using target(1) by (simp add: url_validate_https_OK del: url_is_https.simps url_validate_https.simps)
  show ?thesis
  proof (cases "method = FM_POST")
    case True
    then have "plan = \<lparr> fm_kind = FM_POST_REQUEST, fm_reason = FM_BLOCK_NONE, fm_url = R, fm_body = enc,
        fm_content_type = Some FM_CONTENT_TYPE_URLENCODED \<rparr> \<and> fits R FM_URL_MAX"
      using plan False by (auto simp: plan_for_def fm_blocked_def split: option.splits)
    then show ?thesis using True data target by (simp del: url_validate_https.simps)
  next
    case get: False
    let ?u = "strip_query R @ ''?'' @ enc"
    have p: "plan = \<lparr> fm_kind = FM_NAVIGATE, fm_reason = FM_BLOCK_NONE, fm_url = ?u, fm_body = [], fm_content_type = None \<rparr>"
      and ok: "url_validate_https (Some ?u) = URL_OK" "fits ?u FM_URL_MAX"
      using plan False get by (auto simp: plan_for_def fm_blocked_def Let_def fits_def simp del: url_validate_https.simps split: if_splits)
    have "CHR ''?'' \<notin> set (strip_query R)" by (auto simp: strip_query_def dest: set_takeWhileD)
    then have q: "drop 1 (dropWhile (\<lambda>c. c \<noteq> CHR ''?'') ?u) = enc" by simp
    have "take (url_authority_len ?u) ?u = take (url_authority_len R) R"
      unfolding strip_query_def using https
      by (intro https_cut_append(2)) (auto simp: authority_char_def)
    then show ?thesis using get p ok q data target(2) by (simp add: fits_def FM_BODY_MAX_def del: url_validate_https.simps)
  qed
qed

theorem fm_build_plan_witness:
  "\<exists>plan. fm_build (Some ''https://s.example/a/b?old'') (Some '' find '') FM_GET
      (Some [\<lparr> fm_name = Some ''q'', fm_value = Some ''a&b c'' \<rparr>]) 1 True = Inr plan
    \<and> fm_url plan = ''https://s.example/a/find?q=a%26b+c''
    \<and> [(''q'', ''a&b c'')] = parse_form ''q=a%26b+c''"
proof -
  let ?f = "[\<lparr> fm_name = Some ''q'', fm_value = Some ''a&b c'' \<rparr>]"
  let ?p = "\<lparr> fm_kind = FM_NAVIGATE, fm_reason = FM_BLOCK_NONE, fm_url = ''https://s.example/a/find?q=a%26b+c'', fm_body = [], fm_content_type = None \<rparr>"
  have run: "fm_build (Some ''https://s.example/a/b?old'') (Some '' find '') FM_GET (Some ?f) 1 True = Inr ?p" by code_simp
  have act: "(case Some '' find '' of None \<Rightarrow> Some [] | Some a \<Rightarrow> clean_action a (URL_MAX_LEN + 1)) = Some ''find''" by code_simp
  from fm_build_plan [OF run act] run show ?thesis by (simp add: value_of_def)
qed

end
