(* ===== verification/Download.thy ===== *)
theory Download
  imports Link_Nav
begin

text \<open>
  The modules \<^verbatim>\<open>src/download.c\<close> and, of \<^verbatim>\<open>src/pdf_export.c\<close>, the names and paths of exported files: a file name
  is made from what a server sent or from a page title, sanitised, and put below a directory of the
  user. What a path names is \<open>walk\<close> of \<open>Link_Nav\<close>. The test \<^verbatim>\<open>isalnum\<close> is that of the C locale.
\<close>

section \<open>Model\<close>

definition PE_NAME_MAX :: nat where "PE_NAME_MAX = 128"
definition PE_EXT :: string where "PE_EXT = ''.pdf''"
definition PE_FALLBACK_NAME :: string where "PE_FALLBACK_NAME = ''page''"
definition DL_NAME_MAX :: nat where "DL_NAME_MAX = 128"
definition DL_FALLBACK_NAME :: string where "DL_FALLBACK_NAME = ''download''"
definition DL_MAX_BYTES :: nat where "DL_MAX_BYTES = 256 * 1024 * 1024"

datatype pe_status = PE_OK | PE_ERR_NULL_ARG | PE_ERR_OVERFLOW
datatype dl_status = DL_OK | DL_ERR_NULL_ARG | DL_ERR_OVERFLOW | DL_ERR_TOO_LARGE

subsection \<open>Base names\<close>

definition pe_is_kept :: "char \<Rightarrow> bool" where
  "pe_is_kept c \<longleftrightarrow> is_upper c \<or> is_lower c \<or> is_digit c \<or> c = CHR ''.'' \<or> c = CHR ''_'' \<or> c = CHR ''-''"

definition pe_is_edge :: "char \<Rightarrow> bool" where
  "pe_is_edge c \<longleftrightarrow> c = CHR ''_'' \<or> c = CHR ''.'' \<or> c = CHR ''-''"

text \<open>The sanitising loop: the bytes written so far, and whether the last one stands for a replaced run.\<close>

fun pe_scan :: "bool \<Rightarrow> string \<Rightarrow> string \<Rightarrow> string" where
  "pe_scan prev_us tmp [] = tmp"
| "pe_scan prev_us tmp (c # s) =
     (if length tmp \<ge> PE_NAME_MAX then tmp
      else if pe_is_kept c then pe_scan False (tmp @ [c]) s
      else if \<not> prev_us then pe_scan True (tmp @ ''_'') s
      else pe_scan prev_us tmp s)"

definition trim_edges :: "string \<Rightarrow> string" where
  "trim_edges s = rev (dropWhile pe_is_edge (rev (dropWhile pe_is_edge s)))"

fun pe_safe_basename :: "cptr \<Rightarrow> cbuf \<Rightarrow> pe_status + string" where
  "pe_safe_basename title None = Inl PE_ERR_NULL_ARG"
| "pe_safe_basename title (Some outsz) =
     (if outsz = 0 then Inl PE_ERR_NULL_ARG
      else
        let tmp = (case title of None \<Rightarrow> [] | Some t \<Rightarrow> pe_scan False [] t);
            name = (if trim_edges tmp = [] then PE_FALLBACK_NAME else trim_edges tmp) in
        if length name + 1 > outsz then Inl PE_ERR_OVERFLOW else Inr name)"

text \<open>The separator between a directory and a name.\<close>

definition dir_sep :: "string \<Rightarrow> string" where
  "dir_sep dir = (if dir \<noteq> [] \<and> last dir \<noteq> CHR ''/'' then ''/'' else [])"

fun pe_build_path_ext :: "cptr \<Rightarrow> cptr \<Rightarrow> cptr \<Rightarrow> cbuf \<Rightarrow> pe_status + string" where
  "pe_build_path_ext (Some dir) title ext (Some outsz) =
     (if outsz = 0 then Inl PE_ERR_NULL_ARG
      else
        let e = (case ext of None \<Rightarrow> [] | Some e \<Rightarrow> e) in
        (case pe_safe_basename title (Some (PE_NAME_MAX + 1)) of
          Inl st \<Rightarrow> Inl st
        | Inr base \<Rightarrow>
          (let total_len = length dir + length (dir_sep dir) + length base + length e in
           if total_len + 1 > outsz then Inl PE_ERR_OVERFLOW
           else Inr (dir @ dir_sep dir @ base @ e))))"
| "pe_build_path_ext _ _ _ _ = Inl PE_ERR_NULL_ARG"

definition pe_build_path :: "cptr \<Rightarrow> cptr \<Rightarrow> cbuf \<Rightarrow> pe_status + string" where
  "pe_build_path dir title out = pe_build_path_ext dir title (Some PE_EXT) out"

subsection \<open>Headers\<close>

fun ci_find_from :: "string \<Rightarrow> string \<Rightarrow> string option" where
  "ci_find_from [] needle = None"
| "ci_find_from (c # s) needle = (if ci_prefix (c # s) needle then Some (c # s) else ci_find_from s needle)"

fun ci_find :: "cptr \<Rightarrow> string \<Rightarrow> string option" where
  "ci_find None needle = None"
| "ci_find (Some hay) needle = (if needle = [] then Some hay else ci_find_from hay needle)"

definition is_blank :: "char \<Rightarrow> bool" where
  "is_blank c \<longleftrightarrow> c = CHR '' '' \<or> c = CHR 0x09"

fun media_type :: "cptr \<Rightarrow> nat \<Rightarrow> string" where
  "media_type None bufsz = []"
| "media_type (Some ct) bufsz =
     lower_str (take (bufsz - 1) (takeWhile (\<lambda>c. c \<noteq> CHR '';'' \<and> \<not> is_blank c) (dropWhile is_blank ct)))"

definition dl_should_download :: "cptr \<Rightarrow> cptr \<Rightarrow> bool" where
  "dl_should_download content_type content_disposition =
     (if ci_find content_disposition ''attachment'' \<noteq> None then True
      else
        let mt = media_type content_type 96 in
        if mt = [] then False
        else if prefix ''text/'' mt then False
        else if mt = ''application/xhtml+xml'' then False
        else True)"

definition ext_map :: "(string \<times> string) list" where
  "ext_map = [(''application/pdf'', ''.pdf''), (''application/zip'', ''.zip''), (''application/epub+zip'', ''.epub''),
     (''application/gzip'', ''.gz''), (''application/x-tar'', ''.tar''), (''application/json'', ''.json''),
     (''text/html'', ''.html''), (''application/xhtml+xml'', ''.html''), (''text/plain'', ''.txt''),
     (''image/png'', ''.png''), (''image/jpeg'', ''.jpg''), (''image/gif'', ''.gif''), (''image/svg+xml'', ''.svg'')]"

definition dl_ext_for_type :: "cptr \<Rightarrow> string" where
  "dl_ext_for_type content_type =
     (let mt = media_type content_type 96 in
      if mt = [] then [] else case map_of ext_map mt of None \<Rightarrow> [] | Some e \<Rightarrow> e)"

text \<open>A bounded copy of a span; the value of an unquoted parameter.\<close>

definition copy_span :: "string \<Rightarrow> nat \<Rightarrow> string" where
  "copy_span s bufsz = take (bufsz - 1) s"

definition token_span :: "string \<Rightarrow> string" where
  "token_span p = takeWhile (\<lambda>c. c \<noteq> CHR '';'' \<and> \<not> is_blank c) p"

text \<open>What follows the charset and language of an extended parameter.\<close>

definition after_quotes :: "string \<Rightarrow> string" where
  "after_quotes p =
     (case dropWhile (\<lambda>c. c \<noteq> CHR 0x27) p of
        [] \<Rightarrow> p
      | _ # q1 \<Rightarrow> (case dropWhile (\<lambda>c. c \<noteq> CHR 0x27) q1 of [] \<Rightarrow> p | _ # q2 \<Rightarrow> q2))"

definition extract_disposition_name :: "cptr \<Rightarrow> nat \<Rightarrow> string" where
  "extract_disposition_name disp bufsz =
     (case ci_find disp ''filename'' of
        None \<Rightarrow> []
      | Some m \<Rightarrow>
        (let p = drop 8 m; ext_form = prefix ''*'' p; p1 = dropWhile is_blank (if ext_form then drop 1 p else p) in
         if \<not> prefix ''='' p1 then []
         else
           let v = dropWhile is_blank (drop 1 p1) in
           if ext_form then copy_span (token_span (after_quotes v)) bufsz
           else if prefix [CHR 0x22] v then copy_span (takeWhile (\<lambda>c. c \<noteq> CHR 0x22) (drop 1 v)) bufsz
           else copy_span (token_span v) bufsz))"

fun extract_url_name :: "cptr \<Rightarrow> nat \<Rightarrow> string" where
  "extract_url_name None bufsz = []"
| "extract_url_name (Some url) bufsz =
     (let path = takeWhile (\<lambda>c. c \<noteq> CHR ''?'' \<and> c \<noteq> CHR ''#'') url in
      copy_span (rev (takeWhile (\<lambda>c. c \<noteq> CHR ''/'') (rev path))) bufsz)"

text \<open>A dot past the first byte with something after the last one.\<close>

definition has_extension :: "string \<Rightarrow> bool" where
  "has_extension name \<longleftrightarrow>
     (case dropWhile (\<lambda>c. c \<noteq> CHR ''.'') (rev name) of
        [] \<Rightarrow> False
      | _ # before \<Rightarrow> before \<noteq> [] \<and> last name \<noteq> CHR ''.'')"

text \<open>The candidate from the headers or the URL, its safe form, and the extension of the media type.\<close>

definition dl_candidate :: "cptr \<Rightarrow> cptr \<Rightarrow> string" where
  "dl_candidate url content_disposition =
     (let d = extract_disposition_name content_disposition 512;
          cand = (if d \<noteq> [] then d else extract_url_name url 512) in
      if list_ex is_alnum cand then cand else DL_FALLBACK_NAME)"

definition dl_base :: "string \<Rightarrow> string" where
  "dl_base cand =
     (case pe_safe_basename (Some cand) (Some (DL_NAME_MAX + 1)) of
        Inl _ \<Rightarrow> DL_FALLBACK_NAME
      | Inr s \<Rightarrow> if s = [] then DL_FALLBACK_NAME else s)"

definition dl_with_ext :: "string \<Rightarrow> cptr \<Rightarrow> string" where
  "dl_with_ext name content_type =
     (if has_extension name then name
      else
        let ext = dl_ext_for_type content_type in
        if ext \<noteq> [] \<and> length name + length ext < DL_NAME_MAX + 1 then name @ ext else name)"

fun dl_pick_name :: "cptr \<Rightarrow> cptr \<Rightarrow> cptr \<Rightarrow> cbuf \<Rightarrow> dl_status + string" where
  "dl_pick_name url content_disposition content_type None = Inl DL_ERR_NULL_ARG"
| "dl_pick_name url content_disposition content_type (Some outsz) =
     (if outsz = 0 then Inl DL_ERR_NULL_ARG
      else
        let name = dl_with_ext (dl_base (dl_candidate url content_disposition)) content_type in
        if length name + 1 > outsz then Inl DL_ERR_OVERFLOW else Inr name)"

fun dl_build_path :: "cptr \<Rightarrow> cptr \<Rightarrow> cbuf \<Rightarrow> dl_status + string" where
  "dl_build_path (Some dir) (Some name) (Some outsz) =
     (if outsz = 0 then Inl DL_ERR_NULL_ARG
      else if CHR ''/'' \<in> set name then Inl DL_ERR_OVERFLOW
      else if length dir + length (dir_sep dir) + length name + 1 > outsz then Inl DL_ERR_OVERFLOW
      else Inr (dir @ dir_sep dir @ name))"
| "dl_build_path _ _ _ = Inl DL_ERR_NULL_ARG"

definition dl_check_size :: "nat \<Rightarrow> dl_status" where
  "dl_check_size len = (if len \<le> DL_MAX_BYTES then DL_OK else DL_ERR_TOO_LARGE)"

section \<open>Names stay in their directory\<close>

text \<open>A safe name: kept characters only, not hidden, not an option, within the bound.\<close>

definition safe_name :: "string \<Rightarrow> bool" where
  "safe_name s \<longleftrightarrow> s \<noteq> [] \<and> length s \<le> PE_NAME_MAX \<and> list_all pe_is_kept s \<and> \<not> pe_is_edge (hd s) \<and> \<not> pe_is_edge (last s)"

lemma pe_scan_kept: "list_all pe_is_kept tmp \<Longrightarrow> length tmp \<le> PE_NAME_MAX
    \<Longrightarrow> list_all pe_is_kept (pe_scan u tmp t) \<and> length (pe_scan u tmp t) \<le> PE_NAME_MAX"
  by (induction u tmp t rule: pe_scan.induct) (auto simp: pe_is_kept_def)

lemma trim_edges_safe:
  assumes "list_all pe_is_kept s" and "length s \<le> PE_NAME_MAX" and "trim_edges s \<noteq> []"
  shows "safe_name (trim_edges s)"
proof -
  let ?d = "dropWhile pe_is_edge s"
  have d: "?d \<noteq> []" using assms(3) by (metis dropWhile.simps(1) rev.simps(1) trim_edges_def)
  have set: "set (trim_edges s) \<subseteq> set s" by (auto simp: trim_edges_def dest!: set_dropWhileD)
  have len: "length (trim_edges s) \<le> length s" unfolding trim_edges_def
    by (metis le_trans length_dropWhile_le length_rev)
  obtain ys where ys: "?d = trim_edges s @ ys" unfolding trim_edges_def by (metis rev_append rev_rev_ident takeWhile_dropWhile_id)
  have "hd (trim_edges s) = hd ?d" unfolding ys using assms(3) by simp
  moreover have "\<not> pe_is_edge (hd ?d)" using d by (rule hd_dropWhile)
  moreover have "last (trim_edges s) = hd (dropWhile pe_is_edge (rev ?d))" by (simp add: trim_edges_def last_rev)
  moreover have "\<not> pe_is_edge (hd (dropWhile pe_is_edge (rev ?d)))" using assms(3) by (intro hd_dropWhile) (auto simp: trim_edges_def)
  ultimately show ?thesis using assms set len by (auto simp: safe_name_def list_all_iff)
qed

lemma pe_safe_basename_safe:
  assumes "pe_safe_basename title out = Inr name"
  shows "safe_name name"
proof -
  let ?tmp = "case title of None \<Rightarrow> [] | Some t \<Rightarrow> pe_scan False [] t"
  have n: "name = (if trim_edges ?tmp = [] then PE_FALLBACK_NAME else trim_edges ?tmp)"
    using assms by (cases out) (auto simp: Let_def split: if_splits)
  have "list_all pe_is_kept ?tmp \<and> length ?tmp \<le> PE_NAME_MAX"
    using pe_scan_kept [of "[]" False] by (auto split: option.splits)
  moreover have "safe_name PE_FALLBACK_NAME" by code_simp
  ultimately show ?thesis using n trim_edges_safe by auto
qed

lemma ext_map_kept: "map_of ext_map mt = Some e \<Longrightarrow> list_all pe_is_kept e \<and> e \<noteq> [] \<and> \<not> pe_is_edge (last e)"
proof -
  assume "map_of ext_map mt = Some e"
  then have "e \<in> set (map snd ext_map)" by (metis image_eqI list.set_map map_of_SomeD snd_conv)
  moreover have "list_all (\<lambda>e. list_all pe_is_kept e \<and> e \<noteq> [] \<and> \<not> pe_is_edge (last e)) (map snd ext_map)" by code_simp
  ultimately show ?thesis by (simp only: list_all_iff) blast
qed

lemma dl_with_ext_safe:
  assumes "safe_name name"
  shows "safe_name (dl_with_ext name ct)"
proof -
  have "list_all pe_is_kept (dl_ext_for_type ct) \<and> \<not> pe_is_edge (last (dl_ext_for_type ct))" if "dl_ext_for_type ct \<noteq> []"
    using that ext_map_kept by (auto simp: dl_ext_for_type_def Let_def split: if_splits option.splits)
  then show ?thesis using assms by (auto simp: dl_with_ext_def Let_def safe_name_def PE_NAME_MAX_def DL_NAME_MAX_def)
qed

lemma dl_pick_name_safe:
  assumes "dl_pick_name url disp ct (Some n) = Inr name"
  shows "safe_name name \<and> fits name n"
proof -
  have "safe_name DL_FALLBACK_NAME" by code_simp
  then have "safe_name (dl_base cand)" for cand
    unfolding dl_base_def using pe_safe_basename_safe by (auto split: sum.splits simp del: pe_safe_basename.simps)
  then show ?thesis using assms dl_with_ext_safe by (auto simp: Let_def fits_def split: if_splits)
qed

text \<open>A safe name put below a directory names a file of that directory itself.\<close>

lemma safe_name_plain: "safe_name s \<Longrightarrow> CHR ''/'' \<notin> set s \<and> s \<noteq> [] \<and> s \<noteq> ''.'' \<and> s \<noteq> ''..''"
proof -
  assume s: "safe_name s"
  have "\<not> pe_is_kept CHR ''/''" "pe_is_edge CHR ''.''" by code_simp+
  then show ?thesis using s by (auto simp: safe_name_def list_all_iff)
qed

lemma walk_below:
  assumes "CHR ''/'' \<notin> set s" and "s \<noteq> []" and "s \<noteq> ''.''" and "s \<noteq> ''..''"
  shows "walk cwd (dir @ dir_sep dir @ s) = walk cwd dir @ [s]"
proof -
  have cd_s: "cd d s = d @ [s]" for d using assms by (simp add: cd_def)
  show ?thesis
  proof (cases "dir = []")
    case True
    have "\<not> prefix ''/'' s" using assms(1,2) by (cases s) auto
    then show ?thesis using True assms(1) cd_s by (simp add: walk_def dir_sep_def split_on_no_sep)
  next
    case False
    have pre: "prefix ''/'' (dir @ t) \<longleftrightarrow> prefix ''/'' dir" for t using False by (cases dir) auto
    have "foldl cd d (split_on CHR ''/'' (dir @ dir_sep dir @ s)) = foldl cd d (split_on CHR ''/'' dir) @ [s]" for d
    proof (cases "last dir = CHR ''/''")
      case True
      then obtain e where e: "dir = e @ ''/''" using False by (metis append_butlast_last_id)
      then show ?thesis using assms(1) cd_s by (simp add: dir_sep_def split_on_append_sep split_on_no_sep)
    next
      case ns: False
      then show ?thesis using False assms(1) cd_s by (simp add: dir_sep_def split_on_append_sep split_on_no_sep)
    qed
    then show ?thesis unfolding walk_def pre by simp
  qed
qed

text \<open>C18: whatever the headers and the URL of a response say, the name picked for it is made of kept characters
  only, starts and ends with a letter or a digit, fits, and the path built from it names a file
  directly in the chosen directory; the same holds for the file of an exported page, whatever its
  title.\<close>

theorem dl_saved_file_confined:
  assumes "dl_pick_name url disp ct (Some n) = Inr name" and "dl_build_path (Some dir) (Some name) (Some m) = Inr path"
    and "pe_build_path (Some dir) title (Some k) = Inr exported"
  shows "safe_name name \<and> fits name n \<and> fits path m \<and> walk cwd path = walk cwd dir @ [name]
    \<and> (\<exists>base. safe_name base \<and> walk cwd exported = walk cwd dir @ [base @ PE_EXT])"
proof -
  have name: "safe_name name" "fits name n" using dl_pick_name_safe [OF assms(1)] by simp_all
  have path: "path = dir @ dir_sep dir @ name" "fits path m" using assms(2) by (auto simp: fits_def split: if_splits)
  obtain base where base: "pe_safe_basename title (Some (PE_NAME_MAX + 1)) = Inr base" "exported = dir @ dir_sep dir @ base @ PE_EXT"
    using assms(3) by (auto simp: pe_build_path_def Let_def simp del: pe_safe_basename.simps split: if_splits sum.splits)
  have sb: "safe_name base" using base(1) by (rule pe_safe_basename_safe)
  have "walk cwd exported = walk cwd dir @ [base @ PE_EXT]"
    unfolding base(2) using safe_name_plain [OF sb] by (intro walk_below) (auto simp: PE_EXT_def)
  then show ?thesis using name path sb walk_below [of name cwd dir] safe_name_plain [OF name(1)] by blast
qed

theorem dl_saved_file_confined_witness:
  "dl_pick_name (Some ''https://h/x'') (Some ''attachment; filename=../../.bashrc'') (Some ''application/pdf'') (Some 200) = Inr ''bashrc.pdf''
    \<and> walk [] ''/home/u/dl/bashrc.pdf'' = [''home'', ''u'', ''dl'', ''bashrc.pdf'']"
proof -
  have a: "dl_pick_name (Some ''https://h/x'') (Some ''attachment; filename=../../.bashrc'') (Some ''application/pdf'') (Some 200) = Inr ''bashrc.pdf''"
    by code_simp
  have b: "dl_build_path (Some ''/home/u/dl'') (Some ''bashrc.pdf'') (Some 200) = Inr ''/home/u/dl/bashrc.pdf''" by code_simp
  have c: "pe_build_path (Some ''/home/u/dl'') (Some ''..'') (Some 200) = Inr ''/home/u/dl/page.pdf''" by code_simp
  have d: "walk [] ''/home/u/dl'' = [''home'', ''u'', ''dl'']" by code_simp
  from dl_saved_file_confined [OF a b c, of "[]"] show ?thesis unfolding d using a by (elim conjE) (intro conjI, auto)
qed

end
