(* ===== verification/Import_Map.thy ===== *)
theory Import_Map
  imports Url
begin

text \<open>
  The module \<^verbatim>\<open>src/import_map.c\<close>: import maps of module scripts. A bounded JSON reader builds the map, or an
  empty one when the text is not exactly an import map, and specifiers are resolved through it: the
  scopes that apply to the importing module, the most specific first, then the top-level imports.
  The URL resolver is the caller's and a parameter here, with \<open>None\<close> for its failure; so is the
  allocator. A reader position is the text that is left.
\<close>

section \<open>Model\<close>

definition IM_MAX_DEPTH :: nat where "IM_MAX_DEPTH = 3"
definition IM_MAX_TEXT :: nat where "IM_MAX_TEXT = 1024 * 1024"
definition IM_MAX_ENTRIES :: nat where "IM_MAX_ENTRIES = 4096"
definition IM_MAX_SCOPES :: nat where "IM_MAX_SCOPES = 256"

type_synonym im_url_fn = "string \<Rightarrow> string \<Rightarrow> string option"

text \<open>\<open>scope\<close> is an index of the scopes, or \<open>-1\<close> for the top-level imports.\<close>

record im_entry =
  ie_scope :: int
  ie_key :: string
  ie_addr :: string

record im_map =
  im_e :: "im_entry list"
  im_cap :: nat
  im_scopes :: "string list"

definition empty_map :: im_map where "empty_map = \<lparr> im_e = [], im_cap = 0, im_scopes = [] \<rparr>"

subsection \<open>The JSON reader\<close>

definition ws :: "string \<Rightarrow> string" where
  "ws r = dropWhile (\<lambda>c. c = CHR '' '' \<or> c = CHR 0x09 \<or> c = CHR 0x0A \<or> c = CHR 0x0D) r"

definition eat :: "char \<Rightarrow> string \<Rightarrow> bool \<times> string" where
  "eat c r = (case ws r of [] \<Rightarrow> (False, []) | d # t \<Rightarrow> if d = c then (True, t) else (False, d # t))"

definition hex_digit_val :: "char \<Rightarrow> nat option" where
  "hex_digit_val c =
     (if is_digit c then Some (of_char c - 48)
      else if CHR ''a'' \<le> c \<and> c \<le> CHR ''f'' then Some (of_char c - 87)
      else if CHR ''A'' \<le> c \<and> c \<le> CHR ''F'' then Some (of_char c - 55)
      else None)"

fun hex4 :: "string \<Rightarrow> nat option" where
  "hex4 (a # b # c # d # _) =
     (case (hex_digit_val a, hex_digit_val b, hex_digit_val c, hex_digit_val d) of
        (Some w, Some x, Some y, Some z) \<Rightarrow> Some (w * 4096 + x * 256 + y * 16 + z)
      | _ \<Rightarrow> None)"
| "hex4 _ = None"

definition put_utf8 :: "nat \<Rightarrow> string" where
  "put_utf8 cp =
     (if cp < 0x80 then [char_of cp]
      else if cp < 0x800 then [char_of (0xC0 + cp div 64), char_of (0x80 + cp mod 64)]
      else if cp < 0x10000 then [char_of (0xE0 + cp div 4096), char_of (0x80 + cp div 64 mod 64), char_of (0x80 + cp mod 64)]
      else [char_of (0xF0 + cp div 262144), char_of (0x80 + cp div 4096 mod 64), char_of (0x80 + cp div 64 mod 64),
            char_of (0x80 + cp mod 64)])"

definition simple_escape :: "char \<Rightarrow> char option" where
  "simple_escape e = map_of [(CHR 0x22, CHR 0x22), (CHR 0x5C, CHR 0x5C), (CHR ''/'', CHR ''/''), (CHR ''b'', CHR 0x08),
     (CHR ''f'', CHR 0x0C), (CHR ''n'', CHR 0x0A), (CHR ''r'', CHR 0x0D), (CHR ''t'', CHR 0x09)] e"

text \<open>The code point of an escape after its letter \<^verbatim>\<open>u\<close>, and the text behind it.\<close>

definition unicode_escape :: "string \<Rightarrow> (nat \<times> string) option" where
  "unicode_escape r =
     (case hex4 r of
        None \<Rightarrow> None
      | Some cp \<Rightarrow>
        (let r1 = drop 4 r in
         if 0xD800 \<le> cp \<and> cp \<le> 0xDBFF then
           (if length r1 < 6 \<or> \<not> prefix [CHR 0x5C, CHR ''u''] r1 then None
            else case hex4 (drop 2 r1) of
                None \<Rightarrow> None
              | Some lo \<Rightarrow>
                if lo < 0xDC00 \<or> lo > 0xDFFF then None
                else Some (0x10000 + (cp - 0xD800) * 1024 + (lo - 0xDC00), drop 6 r1))
         else if 0xDC00 \<le> cp \<and> cp \<le> 0xDFFF then None
         else Some (cp, r1)))"

lemma unicode_escape_length: "unicode_escape r = Some (cp, r') \<Longrightarrow> length r' \<le> length r"
  by (auto simp: unicode_escape_def Let_def split: option.splits if_splits)

function str_loop :: "string \<Rightarrow> string \<Rightarrow> (string \<times> string) option" where
  "str_loop out [] = None"
| "str_loop out (c # r) =
     (if c = CHR 0x22 then Some (out, r)
      else if (of_char c :: nat) < 0x20 then None
      else if c \<noteq> CHR 0x5C then str_loop (out @ [c]) r
      else
        (case r of
          [] \<Rightarrow> None
        | e # r1 \<Rightarrow>
          (case simple_escape e of
            Some x \<Rightarrow> str_loop (out @ [x]) r1
          | None \<Rightarrow>
            if e = CHR ''u'' then
              (case unicode_escape r1 of None \<Rightarrow> None | Some (cp, r2) \<Rightarrow> str_loop (out @ put_utf8 cp) r2)
            else None)))"
  by pat_completeness auto
termination
  by (relation "measure (\<lambda>(out, r). length r)") (auto dest!: unicode_escape_length)

text \<open>The string as the C code then reads it, up to a first NUL.\<close>

definition str :: "allocator \<Rightarrow> string \<Rightarrow> (string \<times> string) option" where
  "str mem r =
     (case ws r of
        [] \<Rightarrow> None
      | c # t \<Rightarrow>
        if c \<noteq> CHR 0x22 then None
        else if \<not> mem (length t + 1) then None
        else map_option (\<lambda>(out, r1). (takeWhile (\<lambda>c. c \<noteq> NUL) out, r1)) (str_loop [] t))"

lemma ws_length: "length (ws r) \<le> length r"
  by (simp add: ws_def length_dropWhile_le)

lemma str_loop_length: "str_loop out r = Some (s, r') \<Longrightarrow> length r' < length r"
proof (induction r arbitrary: out rule: length_induct)
  case (1 r)
  have ih: "length r1 < length r \<Longrightarrow> str_loop o1 r1 = Some (s, r') \<Longrightarrow> length r' < length r" for o1 r1
    using 1(1) by (meson less_trans)
  obtain c t where r: "r = c # t" using 1(2) by (cases r) auto
  show ?case
  proof (cases "c \<noteq> CHR 0x5C \<or> c = CHR 0x22 \<or> (of_char c :: nat) < 0x20")
    case True
    then consider "r' = t" | "str_loop (out @ [c]) t = Some (s, r')"
      using 1(2) unfolding r str_loop.simps by (metis not_None_eq option.inject prod.inject)
    then show ?thesis using ih [of t] r by cases auto
  next
    case False
    obtain e r1 where t: "t = e # r1" using 1(2) False unfolding r str_loop.simps by (cases t) auto
    show ?thesis
    proof (cases "simple_escape e")
      case (Some x)
      then have "str_loop (out @ [x]) r1 = Some (s, r')" using 1(2) False unfolding r t str_loop.simps by simp
      then show ?thesis using ih [of r1] r t by simp
    next
      case None
      then obtain cp r2 where u: "unicode_escape r1 = Some (cp, r2)" and l: "str_loop (out @ put_utf8 cp) r2 = Some (s, r')"
        using 1(2) False unfolding r t str_loop.simps by (cases "unicode_escape r1") (auto split: if_splits)
      then show ?thesis using ih [OF _ l] r t unicode_escape_length [OF u] by simp
    qed
  qed
qed

lemma str_length: "str mem r = Some (s, r') \<Longrightarrow> length r' < length r"
  using ws_length [of r] by (cases "ws r") (auto simp: str_def split: if_splits dest!: str_loop_length)

lemma eat_length: "eat c r = (True, r') \<Longrightarrow> length r' < length r" "eat c r = (b, r') \<Longrightarrow> length r' \<le> length r"
proof -
  have "length (ws r) \<le> length r" by (rule ws_length)
  then show "eat c r = (True, r') \<Longrightarrow> length r' < length r" "eat c r = (b, r') \<Longrightarrow> length r' \<le> length r"
    by (cases "ws r"; auto simp: eat_def split: if_splits)+
qed

definition scalar_char :: "char \<Rightarrow> bool" where
  "scalar_char c \<longleftrightarrow> is_digit c \<or> c = CHR ''-'' \<or> c = CHR ''+'' \<or> c = CHR ''.'' \<or> c = CHR ''e'' \<or> c = CHR ''E'' \<or> is_lower c"

text \<open>Skipping a value. Every turn of the loop over members consumes text; the test of the lengths only makes
  that explicit, and \<open>skip_shrinks\<close> shows that it never fails.\<close>

definition close_of :: "char \<Rightarrow> char" where "close_of c = (if c = CHR ''{'' then CHR ''}'' else CHR '']'')"

text \<open>The name of a member and its colon, for an object.\<close>

definition member_name :: "allocator \<Rightarrow> char \<Rightarrow> string \<Rightarrow> string option" where
  "member_name mem c r =
     (if c \<noteq> CHR ''{'' then Some r
      else case str mem r of None \<Rightarrow> None | Some (_, r1) \<Rightarrow> (case eat CHR '':'' r1 of (True, r2) \<Rightarrow> Some r2 | _ \<Rightarrow> None))"

lemma member_name_length: "member_name mem c r = Some r' \<Longrightarrow> length r' \<le> length r"
  by (fastforce simp: member_name_def split: if_splits option.splits bool.splits prod.splits dest: str_length eat_length)

function skip :: "allocator \<Rightarrow> nat \<Rightarrow> string \<Rightarrow> string option"
  and skip_items :: "allocator \<Rightarrow> char \<Rightarrow> nat \<Rightarrow> string \<Rightarrow> string option" where
  "skip mem depth r =
     (case ws r of
        [] \<Rightarrow> None
      | c # t \<Rightarrow>
        if depth > IM_MAX_DEPTH then None
        else if c = CHR 0x22 then map_option snd (str mem (c # t))
        else if c = CHR ''{'' \<or> c = CHR ''['' then
          (case eat (close_of c) t of (True, t1) \<Rightarrow> Some t1 | (False, t1) \<Rightarrow> skip_items mem c depth t1)
        else if \<not> scalar_char c then None
        else Some (dropWhile scalar_char (c # t)))"
| "skip_items mem c depth r =
     (case member_name mem c r of
        None \<Rightarrow> None
      | Some r1 \<Rightarrow>
        (case skip mem (depth + 1) r1 of
          None \<Rightarrow> None
        | Some r2 \<Rightarrow>
          (case eat CHR '','' r2 of
            (True, r3) \<Rightarrow> if length r3 < length r then skip_items mem c depth r3 else None
          | (False, r3) \<Rightarrow> (case eat (close_of c) r3 of (True, r4) \<Rightarrow> Some r4 | _ \<Rightarrow> None))))"
  by pat_completeness auto
termination
proof (relation "measures [\<lambda>x. case x of Inl (mem, d, r) \<Rightarrow> length r | Inr (mem, c, d, r) \<Rightarrow> length r, \<lambda>x. case x of Inl _ \<Rightarrow> 0 | Inr _ \<Rightarrow> 1]", goal_cases)
  case (2 mem depth r c t b t1)
  then have "length t1 \<le> length t" using eat_length(2) by metis
  moreover have "length t < length r" using 2(1) ws_length [of r] by simp
  ultimately show ?case by simp
next
  case (3 mem c depth r r1)
  then show ?case using member_name_length [of mem c r r1] by auto
qed simp_all

declare skip.simps [simp del] skip_items.simps [simp del]

lemma skip_shrinks:
  "skip mem depth r = Some r' \<Longrightarrow> length r' < length r"
  "skip_items mem c depth r = Some r' \<Longrightarrow> length r' < length r"
proof (induction mem depth r and mem c depth r arbitrary: r' and r' rule: skip_skip_items.induct)
  case (1 mem depth r)
  obtain c t where w: "ws r = c # t" using 1(2) by (cases "ws r") (auto simp: skip.simps)
  have le: "length t < length r" using w ws_length [of r] by simp
  obtain b t1 where e: "eat (close_of c) t = (b, t1)" by (metis surj_pair)
  have t1: "length t1 \<le> length t" using eat_length(2) [OF e] .
  have d: "\<not> IM_MAX_DEPTH < depth" using 1(2) w by (auto simp: skip.simps)
  consider (string) "c = CHR 0x22" | (nested) "c \<noteq> CHR 0x22" "c = CHR ''{'' \<or> c = CHR ''[''"
    | (scalar) "c \<noteq> CHR 0x22" "\<not> (c = CHR ''{'' \<or> c = CHR ''['')" by blast
  then show ?case
  proof cases
    case string
    then obtain s where "str mem (c # t) = Some (s, r')" using 1(2) w d by (auto simp: skip.simps)
    then show ?thesis using str_length [of mem "c # t" s r'] le by simp
  next
    case nested
    show ?thesis
    proof (cases b)
      case True
      then show ?thesis using 1(2) w d e t1 le nested by (auto simp: skip.simps)
    next
      case False
      have "skip_items mem c depth t1 = Some r'" using 1(2) w d e False nested by (simp add: skip.simps)
      then have "length r' < length t1" using 1(1) [OF w d nested(1,2) e [symmetric]] False by simp
      then show ?thesis using t1 le by simp
    qed
  next
    case scalar
    then have "scalar_char c" "r' = dropWhile scalar_char (c # t)" using 1(2) w d by (simp_all add: skip.simps split: if_splits)
    then show ?thesis using le length_dropWhile_le [of scalar_char t] by simp
  qed
next
  case (2 mem c depth r)
  obtain r1 where r1: "member_name mem c r = Some r1" using 2(3) by (cases "member_name mem c r") (auto simp: skip_items.simps)
  obtain r2 where r2: "skip mem (depth + 1) r1 = Some r2" using 2(3) r1 by (cases "skip mem (depth + 1) r1") (auto simp: skip_items.simps)
  obtain b r3 where r3: "eat CHR '','' r2 = (b, r3)" by (metis surj_pair)
  have len: "length r3 < length r"
    using member_name_length [OF r1] 2(1) [OF r1 r2] eat_length(2) [OF r3] by simp
  show ?case
  proof (cases b)
    case True
    then have "skip_items mem c depth r3 = Some r'" using 2(3) r1 r2 r3 len by (simp add: skip_items.simps [of mem c depth r])
    then show ?thesis using 2(2) [OF r1 r2 r3 [symmetric]] True len by simp
  next
    case False
    obtain d r4 where "eat (close_of c) r3 = (d, r4)" by (metis surj_pair)
    then show ?thesis using 2(3) r1 r2 r3 len False eat_length(2) [of "close_of c" r3 d r4]
      by (auto simp: skip_items.simps [of mem c depth r] split: bool.splits)
  qed
qed

subsection \<open>Building the map\<close>

definition url_like :: "string \<Rightarrow> bool" where
  "url_like s \<longleftrightarrow> prefix ''/'' s \<or> prefix ''./'' s \<or> prefix ''../'' s \<or> url_has_scheme (Some s)"

text \<open>The size of an entry, an index and two pointers, and of a pointer.\<close>

definition ENTRY_SIZE :: nat where "ENTRY_SIZE = 24"
definition PTR_SIZE :: nat where "PTR_SIZE = 8"

text \<open>\<open>None\<close> is a failure that spoils the whole map; a pair that does not resolve is dropped.\<close>

definition add :: "allocator \<Rightarrow> im_url_fn \<Rightarrow> string \<Rightarrow> im_map \<Rightarrow> int \<Rightarrow> string \<Rightarrow> string \<Rightarrow> im_map option" where
  "add mem resolve doc_url m scope key addr =
     (if length (im_e m) \<ge> IM_MAX_ENTRIES then None
      else case (if url_like key then resolve doc_url key else Some key) of
          None \<Rightarrow> Some m
        | Some k \<Rightarrow>
          (case resolve doc_url addr of
            None \<Rightarrow> Some m
          | Some ab \<Rightarrow>
            (let nc = (if length (im_e m) = im_cap m then (if im_cap m \<noteq> 0 then im_cap m * 2 else 16) else im_cap m) in
             if length (im_e m) = im_cap m \<and> \<not> mem (nc * ENTRY_SIZE) then None
             else if \<not> mem (length k + 1) \<or> \<not> mem (length ab + 1) then None
             else Some (m\<lparr>im_e := im_e m @ [\<lparr> ie_scope = scope, ie_key = k, ie_addr = ab \<rparr>], im_cap := nc\<rparr>))))"

text \<open>A member: a string and its colon.\<close>

definition named :: "allocator \<Rightarrow> string \<Rightarrow> (string \<times> string) option" where
  "named mem r = (case str mem r of None \<Rightarrow> None
     | Some (k, r1) \<Rightarrow> (case eat CHR '':'' r1 of (True, r2) \<Rightarrow> Some (k, r2) | _ \<Rightarrow> None))"

lemma named_length: "named mem r = Some (k, r') \<Longrightarrow> length r' < length r"
  by (fastforce simp: named_def split: option.splits prod.splits bool.splits dest: str_length eat_length)

function spec_items :: "allocator \<Rightarrow> im_url_fn \<Rightarrow> string \<Rightarrow> int \<Rightarrow> im_map \<Rightarrow> string \<Rightarrow> (im_map \<times> string) option" where
  "spec_items mem resolve doc_url scope m r =
     (case named mem r of
        None \<Rightarrow> None
      | Some (k, r1) \<Rightarrow>
        (case str mem r1 of
          None \<Rightarrow> None
        | Some (v, r2) \<Rightarrow>
          (case add mem resolve doc_url m scope k v of
            None \<Rightarrow> None
          | Some m1 \<Rightarrow>
            (case eat CHR '','' r2 of
              (True, r3) \<Rightarrow> spec_items mem resolve doc_url scope m1 r3
            | (False, r3) \<Rightarrow> (case eat CHR ''}'' r3 of (True, r4) \<Rightarrow> Some (m1, r4) | _ \<Rightarrow> None)))))"
  by pat_completeness auto
termination
proof (relation "measure (\<lambda>(mem, resolve, d, s, m, r). length r)", goal_cases)
  case (2 mem resolve doc scope m r kr k r1 vr v r2 m1 b r3)
  have "length r3 < length r2" using 2 eat_length(1) [of "CHR '',''" r2 r3] by simp
  moreover have "length r2 < length r1" "length r1 < length r" using 2 str_length [of mem r1 v r2] named_length [of mem r k r1] by simp_all
  ultimately show ?case by simp
qed simp

declare spec_items.simps [simp del]

definition specifier_map :: "allocator \<Rightarrow> im_url_fn \<Rightarrow> string \<Rightarrow> int \<Rightarrow> im_map \<Rightarrow> string \<Rightarrow> (im_map \<times> string) option" where
  "specifier_map mem resolve doc_url scope m r =
     (case eat CHR ''{'' r of
        (False, _) \<Rightarrow> None
      | (True, r1) \<Rightarrow>
        (case eat CHR ''}'' r1 of (True, r2) \<Rightarrow> Some (m, r2) | (False, r2) \<Rightarrow> spec_items mem resolve doc_url scope m r2))"

lemma spec_items_length: "spec_items mem resolve d scope m r = Some (m', r') \<Longrightarrow> length r' < length r"
proof (induction mem resolve d scope m r arbitrary: m' r' rule: spec_items.induct)
  case (1 mem resolve d scope m r)
  obtain k r1 where n: "named mem r = Some (k, r1)" using 1(2) by (cases "named mem r") (auto simp: spec_items.simps)
  obtain v r2 where v: "str mem r1 = Some (v, r2)" using 1(2) n by (cases "str mem r1") (auto simp: spec_items.simps)
  obtain m1 where a: "add mem resolve d m scope k v = Some m1" using 1(2) n v by (cases "add mem resolve d m scope k v") (auto simp: spec_items.simps)
  obtain b r3 where e: "eat CHR '','' r2 = (b, r3)" by (metis surj_pair)
  have len: "length r3 < length r" using named_length [OF n] str_length [OF v] eat_length(2) [OF e] by simp
  show ?case
  proof (cases b)
    case True
    then have "spec_items mem resolve d scope m1 r3 = Some (m', r')" using 1(2) n v a e by (simp add: spec_items.simps [of mem resolve d scope m r])
    then show ?thesis using 1(1) [OF n _ v _ a e [symmetric]] True len by fastforce
  next
    case False
    obtain c r4 where "eat CHR ''}'' r3 = (c, r4)" by (metis surj_pair)
    then show ?thesis using 1(2) n v a e False len eat_length(2) [of "CHR ''}''" r3 c r4]
      by (auto simp: spec_items.simps [of mem resolve d scope m r] split: bool.splits)
  qed
qed

lemma specifier_map_length: "specifier_map mem resolve d scope m r = Some (m', r') \<Longrightarrow> length r' < length r"
proof -
  assume sm: "specifier_map mem resolve d scope m r = Some (m', r')"
  obtain b r1 where e: "eat CHR ''{'' r = (b, r1)" by (metis surj_pair)
  obtain c r2 where f: "eat CHR ''}'' r1 = (c, r2)" by (metis surj_pair)
  have b: "b" using sm e by (cases b) (simp_all add: specifier_map_def)
  have l: "length r1 < length r" "length r2 \<le> length r1" using e f b eat_length by (simp_all add: eat_length(2) [OF f])
  show ?thesis
  proof (cases c)
    case True
    then show ?thesis using sm e f b l by (simp add: specifier_map_def)
  next
    case False
    then have "spec_items mem resolve d scope m r2 = Some (m', r')" using sm e f b by (simp add: specifier_map_def)
    then show ?thesis using l spec_items_length [of mem resolve d scope m r2 m' r'] by simp
  qed
qed

text \<open>One scope: its prefix is resolved, or kept as the empty string that applies to nothing.\<close>

definition add_scope :: "allocator \<Rightarrow> im_url_fn \<Rightarrow> string \<Rightarrow> im_map \<Rightarrow> string \<Rightarrow> im_map option" where
  "add_scope mem resolve doc_url m pre =
     (if length (im_scopes m) \<ge> IM_MAX_SCOPES then None
      else
        let sc = (case resolve doc_url pre of None \<Rightarrow> [] | Some pb \<Rightarrow> pb) in
        if \<not> mem ((length (im_scopes m) + 1) * PTR_SIZE) \<or> \<not> mem (length sc + 1) then None
        else Some (m\<lparr>im_scopes := im_scopes m @ [sc]\<rparr>))"

function scope_items :: "allocator \<Rightarrow> im_url_fn \<Rightarrow> string \<Rightarrow> im_map \<Rightarrow> string \<Rightarrow> (im_map \<times> string) option" where
  "scope_items mem resolve doc_url m r =
     (case named mem r of
        None \<Rightarrow> None
      | Some (pre, r1) \<Rightarrow>
        (case add_scope mem resolve doc_url m pre of
          None \<Rightarrow> None
        | Some m1 \<Rightarrow>
          (case specifier_map mem resolve doc_url (int (length (im_scopes m1)) - 1) m1 r1 of
            None \<Rightarrow> None
          | Some (m2, r2) \<Rightarrow>
            (case eat CHR '','' r2 of
              (True, r3) \<Rightarrow> scope_items mem resolve doc_url m2 r3
            | (False, r3) \<Rightarrow> (case eat CHR ''}'' r3 of (True, r4) \<Rightarrow> Some (m2, r4) | _ \<Rightarrow> None)))))"
  by pat_completeness auto
termination
proof (relation "measure (\<lambda>(mem, resolve, d, m, r). length r)", goal_cases)
  case (2 mem resolve doc m r kr k r1 m1 vr m2 r2 b r3)
  have "length r3 < length r2" using 2 eat_length(1) [of "CHR '',''" r2 r3] by simp
  moreover have "length r2 < length r1" using 2 specifier_map_length by metis
  moreover have "length r1 < length r" using 2 named_length [of mem r k r1] by simp
  ultimately show ?case by simp
qed simp

declare scope_items.simps [simp del]

definition scopes_value :: "allocator \<Rightarrow> im_url_fn \<Rightarrow> string \<Rightarrow> im_map \<Rightarrow> string \<Rightarrow> (im_map \<times> string) option" where
  "scopes_value mem resolve doc_url m r =
     (case eat CHR ''{'' r of
        (False, _) \<Rightarrow> None
      | (True, r1) \<Rightarrow>
        (case eat CHR ''}'' r1 of (True, r2) \<Rightarrow> Some (m, r2) | (False, r2) \<Rightarrow> scope_items mem resolve doc_url m r2))"

lemma scope_items_length: "scope_items mem resolve d m r = Some (m', r') \<Longrightarrow> length r' < length r"
proof (induction mem resolve d m r arbitrary: m' r' rule: scope_items.induct)
  case (1 mem resolve d m r)
  obtain k r1 where n: "named mem r = Some (k, r1)" using 1(2) by (cases "named mem r") (auto simp: scope_items.simps)
  obtain m1 where a: "add_scope mem resolve d m k = Some m1" using 1(2) n by (cases "add_scope mem resolve d m k") (auto simp: scope_items.simps)
  obtain m2 r2 where v: "specifier_map mem resolve d (int (length (im_scopes m1)) - 1) m1 r1 = Some (m2, r2)"
    using 1(2) n a by (cases "specifier_map mem resolve d (int (length (im_scopes m1)) - 1) m1 r1") (auto simp: scope_items.simps)
  obtain b r3 where e: "eat CHR '','' r2 = (b, r3)" by (metis surj_pair)
  have len: "length r3 < length r" using named_length [OF n] specifier_map_length [OF v] eat_length(2) [OF e] by simp
  show ?case
  proof (cases b)
    case True
    then have "scope_items mem resolve d m2 r3 = Some (m', r')" using 1(2) n v a e by (simp add: scope_items.simps [of mem resolve d m r])
    then show ?thesis using 1(1) [OF n _ a v _ e [symmetric]] True len by fastforce
  next
    case False
    obtain c r4 where "eat CHR ''}'' r3 = (c, r4)" by (metis surj_pair)
    then show ?thesis using 1(2) n v a e False len eat_length(2) [of "CHR ''}''" r3 c r4]
      by (auto simp: scope_items.simps [of mem resolve d m r] split: bool.splits)
  qed
qed

lemma scopes_value_length: "scopes_value mem resolve d m r = Some (m', r') \<Longrightarrow> length r' < length r"
proof -
  assume sm: "scopes_value mem resolve d m r = Some (m', r')"
  obtain b r1 where e: "eat CHR ''{'' r = (b, r1)" by (metis surj_pair)
  obtain c r2 where f: "eat CHR ''}'' r1 = (c, r2)" by (metis surj_pair)
  have b: "b" using sm e by (cases b) (simp_all add: scopes_value_def)
  have l: "length r1 < length r" "length r2 \<le> length r1" using e f b eat_length by (simp_all add: eat_length(2) [OF f])
  show ?thesis
  proof (cases c)
    case True
    then show ?thesis using sm e f b l by (simp add: scopes_value_def)
  next
    case False
    then have "scope_items mem resolve d m r2 = Some (m', r')" using sm e f b by (simp add: scopes_value_def)
    then show ?thesis using l scope_items_length [of mem resolve d m r2 m' r'] by simp
  qed
qed

text \<open>The value of one top-level member.\<close>

definition member_value :: "allocator \<Rightarrow> im_url_fn \<Rightarrow> string \<Rightarrow> im_map \<Rightarrow> string \<Rightarrow> string \<Rightarrow> (im_map \<times> string) option" where
  "member_value mem resolve doc_url m name r =
     (if name = ''imports'' then specifier_map mem resolve doc_url (- 1) m r
      else if name = ''scopes'' then scopes_value mem resolve doc_url m r
      else map_option (\<lambda>r1. (m, r1)) (skip mem 1 r))"

lemma member_value_length: "member_value mem resolve d m name r = Some (m', r') \<Longrightarrow> length r' < length r"
  by (auto simp: member_value_def split: if_splits dest: specifier_map_length scopes_value_length skip_shrinks(1))

function member_items :: "allocator \<Rightarrow> im_url_fn \<Rightarrow> string \<Rightarrow> im_map \<Rightarrow> string \<Rightarrow> (im_map \<times> string) option" where
  "member_items mem resolve doc_url m r =
     (case named mem r of
        None \<Rightarrow> None
      | Some (name, r1) \<Rightarrow>
        (case member_value mem resolve doc_url m name r1 of
          None \<Rightarrow> None
        | Some (m1, r2) \<Rightarrow>
          (case eat CHR '','' r2 of
            (True, r3) \<Rightarrow> member_items mem resolve doc_url m1 r3
          | (False, r3) \<Rightarrow> (case eat CHR ''}'' r3 of (True, r4) \<Rightarrow> Some (m1, r4) | _ \<Rightarrow> None))))"
  by pat_completeness auto
termination
proof (relation "measure (\<lambda>(mem, resolve, d, m, r). length r)", goal_cases)
  case (2 mem resolve doc m r kr k r1 vr m1 r2 b r3)
  have "length r3 < length r2" using 2 eat_length(1) [of "CHR '',''" r2 r3] by simp
  moreover have "length r2 < length r1" using 2 member_value_length by metis
  moreover have "length r1 < length r" using 2 named_length [of mem r k r1] by simp
  ultimately show ?case by simp
qed simp

declare member_items.simps [simp del]

text \<open>The whole text: \<open>None\<close> if there is no memory for the map itself.\<close>

definition parse_text :: "allocator \<Rightarrow> im_url_fn \<Rightarrow> string \<Rightarrow> string \<Rightarrow> im_map" where
  "parse_text mem resolve doc_url json =
     (case eat CHR ''{'' json of
        (False, _) \<Rightarrow> empty_map
      | (True, r) \<Rightarrow>
        (case (case eat CHR ''}'' r of (True, r1) \<Rightarrow> Some (empty_map, r1)
               | (False, r1) \<Rightarrow> member_items mem resolve doc_url empty_map r1) of
          None \<Rightarrow> empty_map
        | Some (m, r2) \<Rightarrow> if ws r2 = [] then m else empty_map))"

definition MAP_SIZE :: nat where "MAP_SIZE = 40"

definition im_parse :: "allocator \<Rightarrow> im_url_fn option \<Rightarrow> cptr \<Rightarrow> cptr \<Rightarrow> im_map option" where
  "im_parse mem resolve json doc_url =
     (if \<not> mem MAP_SIZE then None
      else Some (case (json, doc_url, resolve) of
          (Some j, Some d, Some f) \<Rightarrow> if length j > IM_MAX_TEXT then empty_map else parse_text mem f d j
        | _ \<Rightarrow> empty_map))"

subsection \<open>Resolving a specifier\<close>

datatype im_match = Matched string | No_Match | Match_Error

definition prefix_match :: "nat \<Rightarrow> string \<Rightarrow> im_entry option \<Rightarrow> im_match" where
  "prefix_match outsz key best =
     (case best of
        None \<Rightarrow> No_Match
      | Some e \<Rightarrow>
        if ie_addr e = [] \<or> last (ie_addr e) \<noteq> CHR ''/'' then Match_Error
        else
          let rest = drop (length (ie_key e)) key in
          if length (ie_addr e) + length rest \<ge> outsz then Match_Error
          else Matched (ie_addr e @ rest))"

definition best_len :: "im_entry option \<Rightarrow> nat" where
  "best_len best = (case best of None \<Rightarrow> 0 | Some e \<Rightarrow> length (ie_key e))"

fun match_scan :: "nat \<Rightarrow> int \<Rightarrow> string \<Rightarrow> im_entry option \<Rightarrow> im_entry list \<Rightarrow> im_match" where
  "match_scan outsz scope key best [] = prefix_match outsz key best"
| "match_scan outsz scope key best (e # es) =
     (if ie_scope e \<noteq> scope then match_scan outsz scope key best es
      else if ie_key e = key then (if length (ie_addr e) \<ge> outsz then Match_Error else Matched (ie_addr e))
      else if ie_key e \<noteq> [] \<and> last (ie_key e) = CHR ''/'' \<and> prefix (ie_key e) key \<and> length (ie_key e) > best_len best
      then match_scan outsz scope key (Some e) es
      else match_scan outsz scope key best es)"

definition im_match_in :: "im_map \<Rightarrow> int \<Rightarrow> string \<Rightarrow> nat \<Rightarrow> im_match" where
  "im_match_in m scope key outsz = match_scan outsz scope key None (im_e m)"

text \<open>Whether a scope applies to the importing module.\<close>

definition scope_hit :: "string \<Rightarrow> string \<Rightarrow> bool" where
  "scope_hit base pre \<longleftrightarrow> pre \<noteq> [] \<and> (pre = base \<or> last pre = CHR ''/'' \<and> prefix pre base)"

text \<open>One round: the longest applicable prefix not tried yet, the later one of equals.\<close>

fun pick_scope :: "bool list \<Rightarrow> string \<Rightarrow> string list \<Rightarrow> nat \<Rightarrow> (nat \<times> nat) option \<Rightarrow> (nat \<times> nat) option" where
  "pick_scope tried base [] s pick = pick"
| "pick_scope tried base (pre # pres) s pick =
     pick_scope tried base pres (Suc s)
       (if \<not> tried ! s \<and> scope_hit base pre \<and> length pre \<ge> (case pick of None \<Rightarrow> 0 | Some (_, l) \<Rightarrow> l)
        then Some (s, length pre) else pick)"

fun scope_rounds :: "im_map \<Rightarrow> string \<Rightarrow> string \<Rightarrow> nat \<Rightarrow> nat \<Rightarrow> bool list \<Rightarrow> im_match" where
  "scope_rounds m base key outsz 0 tried = No_Match"
| "scope_rounds m base key outsz (Suc rounds) tried =
     (case pick_scope tried base (im_scopes m) 0 None of
        None \<Rightarrow> No_Match
      | Some (pick, _) \<Rightarrow>
        (case im_match_in m (int pick) key outsz of
          No_Match \<Rightarrow> scope_rounds m base key outsz rounds (tried[pick := True])
        | r \<Rightarrow> r))"

text \<open>\<open>None\<close> is the failure \<open>-1\<close>.\<close>

definition im_resolve :: "im_map option \<Rightarrow> cptr \<Rightarrow> cptr \<Rightarrow> im_url_fn option \<Rightarrow> cbuf \<Rightarrow> string option" where
  "im_resolve m base specifier resolve out =
     (case (base, specifier, resolve, out) of
        (Some b, Some spec, Some f, Some outsz) \<Rightarrow>
          if outsz = 0 then None
          else
            let as_url = (if url_like spec then f b spec else None);
                key = (case as_url of Some u \<Rightarrow> u | None \<Rightarrow> spec);
                mapped = (case m of
                    None \<Rightarrow> No_Match
                  | Some mp \<Rightarrow>
                    (case scope_rounds mp b key outsz (length (im_scopes mp)) (replicate IM_MAX_SCOPES False) of
                      No_Match \<Rightarrow> im_match_in mp (- 1) key outsz
                    | r \<Rightarrow> r)) in
            (case mapped of
              Matched u \<Rightarrow> Some u
            | Match_Error \<Rightarrow> None
            | No_Match \<Rightarrow>
              (case as_url of None \<Rightarrow> None | Some u \<Rightarrow> if length u \<ge> outsz then None else Some u))
      | _ \<Rightarrow> None)"

definition im_count :: "im_map option \<Rightarrow> nat" where
  "im_count m = (case m of None \<Rightarrow> 0 | Some mp \<Rightarrow> length (im_e mp))"

section \<open>Resolution against the standard's algorithm\<close>

text \<open>The first minimum and the last maximum of a list, and what stable sorting makes of them.\<close>

definition first_min :: "('a \<Rightarrow> 'b::linorder) \<Rightarrow> 'a list \<Rightarrow> 'a" where "first_min g xs = hd (sort_key g xs)"
definition last_max :: "('a \<Rightarrow> 'b::linorder) \<Rightarrow> 'a list \<Rightarrow> 'a" where "last_max g xs = last (sort_key g xs)"

lemma sort_key_Nil_iff: "sort_key g xs = [] \<longleftrightarrow> xs = []"
  by (metis length_0_conv length_sort)

lemma first_min_simps:
  "first_min g [x] = x" "first_min g (x # y # ys) = (if g x \<le> g (first_min g (y # ys)) then x else first_min g (y # ys))"
proof -
  have hd: "hd (insort_key g x zs) = (if zs = [] \<or> g x \<le> g (hd zs) then x else hd zs)" for zs by (cases zs) simp_all
  show "first_min g [x] = x" by (simp add: first_min_def)
  show "first_min g (x # y # ys) = (if g x \<le> g (first_min g (y # ys)) then x else first_min g (y # ys))"
    using hd [of "sort_key g (y # ys)"] sort_key_Nil_iff [of g "y # ys"] unfolding first_min_def by (metis list.distinct(1) sort_key_simps(2))
qed

lemma last_insort_key: "sorted (map g zs) \<Longrightarrow> last (insort_key g x zs) = (if zs = [] \<or> g (last zs) < g x then x else last zs)"
proof (induction zs)
  case (Cons y ys)
  show ?case
  proof (cases "g x \<le> g y")
    case True
    have "g y \<le> g (last (y # ys))" using Cons.prems by (cases "ys = []") (auto intro: last_in_set)
    then show ?thesis using True by auto
  next
    case False
    have "insort_key g x ys \<noteq> []" by (cases ys) auto
    then show ?thesis using False Cons by auto
  qed
qed simp

lemma last_max_simps:
  "last_max g [x] = x" "last_max g (x # y # ys) = (if g (last_max g (y # ys)) < g x then x else last_max g (y # ys))"
proof -
  show "last_max g [x] = x" by (simp add: last_max_def)
  show "last_max g (x # y # ys) = (if g (last_max g (y # ys)) < g x then x else last_max g (y # ys))"
    using last_insort_key [of g "sort_key g (y # ys)" x] sort_key_Nil_iff [of g "y # ys"] unfolding last_max_def
    by (metis list.distinct(1) sort_key_simps(2) sorted_sort_key)
qed

subsection \<open>One specifier map\<close>

definition prefix_key :: "string \<Rightarrow> im_entry \<Rightarrow> bool" where
  "prefix_key key e \<longleftrightarrow> ie_key e \<noteq> [] \<and> last (ie_key e) = CHR ''/'' \<and> prefix (ie_key e) key"

text \<open>An exact key decides; otherwise the longest key that is a directory prefix.\<close>

definition spec_match :: "im_entry list \<Rightarrow> string \<Rightarrow> nat \<Rightarrow> im_match" where
  "spec_match es key outsz =
     (case List.find (\<lambda>e. ie_key e = key) es of
        Some e \<Rightarrow> if length (ie_addr e) \<ge> outsz then Match_Error else Matched (ie_addr e)
      | None \<Rightarrow>
        (case sort_key (\<lambda>e. - int (length (ie_key e))) (filter (prefix_key key) es) of
          [] \<Rightarrow> No_Match
        | e # _ \<Rightarrow> prefix_match outsz key (Some e)))"

definition longer :: "im_entry option \<Rightarrow> im_entry \<Rightarrow> im_entry option" where
  "longer best e = (if length (ie_key e) > best_len best then Some e else best)"

lemma foldl_longer: "foldl longer (Some b) es = Some (first_min (\<lambda>e. - int (length (ie_key e))) (b # es))"
proof (induction es arbitrary: b)
  case (Cons e es)
  let ?g = "\<lambda>e. - int (length (ie_key e))" and ?c = "if length (ie_key b) < length (ie_key e) then e else b"
  have "longer (Some b) e = Some ?c" by (simp add: longer_def best_len_def)
  then have "foldl longer (Some b) (e # es) = Some (first_min ?g (?c # es))" using Cons.IH [of ?c] by simp
  moreover have "first_min ?g (b # e # es) = first_min ?g (?c # es)" by (cases es) (auto simp: first_min_simps)
  ultimately show ?case by simp
qed (simp add: first_min_simps)

lemma match_scan_filter: "match_scan outsz scope key best es = match_scan outsz scope key best (filter (\<lambda>e. ie_scope e = scope) es)"
  by (induction es arbitrary: best) simp_all

lemma match_scan_spec:
  "list_all (\<lambda>e. ie_scope e = scope) es \<Longrightarrow> match_scan outsz scope key best es =
     (case List.find (\<lambda>e. ie_key e = key) es of
        Some e \<Rightarrow> if length (ie_addr e) \<ge> outsz then Match_Error else Matched (ie_addr e)
      | None \<Rightarrow> prefix_match outsz key (foldl longer best (filter (prefix_key key) es)))"
proof (induction es arbitrary: best)
  case (Cons e es)
  have "match_scan outsz scope key best (e # es) = match_scan outsz scope key (if prefix_key key e then longer best e else best) es"
    if "ie_key e \<noteq> key" using that Cons.prems by (simp add: prefix_key_def longer_def)
  then show ?case using Cons by (cases "ie_key e = key") (simp_all del: match_scan.simps(2) split: option.split, simp)
qed simp

lemma im_match_in_spec: "im_match_in m scope key outsz = spec_match (filter (\<lambda>e. ie_scope e = scope) (im_e m)) key outsz"
proof -
  let ?es = "filter (\<lambda>e. ie_scope e = scope) (im_e m)"
  let ?ps = "filter (prefix_key key) ?es" and ?g = "\<lambda>e. - int (length (ie_key e))"
  note ne = sort_key_Nil_iff [of ?g ?ps]
  have "prefix_match outsz key (foldl longer None ?ps) = (case sort_key ?g ?ps of [] \<Rightarrow> No_Match | e # _ \<Rightarrow> prefix_match outsz key (Some e))"
  proof (cases ?ps)
    case Nil
    then show ?thesis by (simp add: prefix_match_def)
  next
    case (Cons e r)
    then have "prefix_key key e" by (metis filter_eq_ConsD)
    then have "longer None e = Some e" by (simp add: longer_def best_len_def prefix_key_def)
    then have "foldl longer None ?ps = Some (hd (sort_key ?g ?ps))" using foldl_longer [of e r] unfolding Cons first_min_def by simp
    then show ?thesis using ne Cons by (cases "sort_key ?g ?ps") auto
  qed
  note pm = this
  have "list_all (\<lambda>e. ie_scope e = scope) ?es" by (simp add: list_all_iff)
  then show ?thesis unfolding im_match_in_def match_scan_filter [of outsz scope key None "im_e m"] spec_match_def
    using match_scan_spec [of scope ?es outsz key None] unfolding pm by simp
qed

subsection \<open>The order of the scopes\<close>

text \<open>The scopes that apply, the longest prefix first, the later one of equals first.\<close>

definition scope_order :: "im_map \<Rightarrow> string \<Rightarrow> nat list" where
  "scope_order m base = rev (sort_key (\<lambda>s. length (im_scopes m ! s))
     (filter (\<lambda>s. scope_hit base (im_scopes m ! s)) [0..<length (im_scopes m)]))"

fun first_match :: "(nat \<Rightarrow> im_match) \<Rightarrow> nat list \<Rightarrow> im_match" where
  "first_match f [] = No_Match"
| "first_match f (s # ss) = (case f s of No_Match \<Rightarrow> first_match f ss | r \<Rightarrow> r)"

definition take_longest :: "(nat \<Rightarrow> nat) \<Rightarrow> (nat \<times> nat) option \<Rightarrow> nat \<Rightarrow> (nat \<times> nat) option" where
  "take_longest f p s = (if f s \<ge> (case p of None \<Rightarrow> 0 | Some (_, l) \<Rightarrow> l) then Some (s, f s) else p)"

lemma pick_scope_foldl:
  "s \<le> length scs \<Longrightarrow> pick_scope tried base (drop s scs) s p =
     foldl (take_longest (\<lambda>i. length (scs ! i))) p (filter (\<lambda>i. \<not> tried ! i \<and> scope_hit base (scs ! i)) [s..<length scs])"
proof (induction "length scs - s" arbitrary: s p)
  case (Suc k)
  then have "s < length scs" by simp
  then show ?case using Suc(1) [of "Suc s"] Suc(2,3) by (simp add: Cons_nth_drop_Suc [symmetric] upt_conv_Cons take_longest_def)
qed simp

lemma foldl_take_longest: "foldl (take_longest f) (Some (b, f b)) ss = (let q = last_max f (b # ss) in Some (q, f q))"
proof (induction ss arbitrary: b)
  case (Cons x ss)
  let ?c = "if f b \<le> f x then x else b"
  have "take_longest f (Some (b, f b)) x = Some (?c, f ?c)" by (simp add: take_longest_def)
  then have "foldl (take_longest f) (Some (b, f b)) (x # ss) = (let q = last_max f (?c # ss) in Some (q, f q))" using Cons.IH [of ?c] by simp
  moreover have "last_max f (b # x # ss) = last_max f (?c # ss)" by (cases ss) (auto simp: last_max_simps)
  ultimately show ?case by simp
qed (simp add: last_max_simps)

lemma pick_scope_last:
  "pick_scope tried base scs 0 None =
     (let R = filter (\<lambda>i. \<not> tried ! i \<and> scope_hit base (scs ! i)) [0..<length scs]; f = \<lambda>i. length (scs ! i) in
      if R = [] then None else Some (last (sort_key f R), f (last (sort_key f R))))"
proof -
  have "foldl (take_longest f) None R = (if R = [] then None else Some (last (sort_key f R), f (last (sort_key f R))))" for f R
    using foldl_take_longest [of f "hd R" "tl R"] unfolding last_max_def by (cases R) (simp_all add: take_longest_def Let_def)
  then show ?thesis using pick_scope_foldl [of 0 scs tried base None] by (simp add: Let_def)
qed

lemma sort_key_last:
  assumes "distinct R" and "R \<noteq> []"
  shows "sort_key f R = sort_key f (filter (\<lambda>x. x \<noteq> last (sort_key f R)) R) @ [last (sort_key f R)]"
proof -
  let ?S = "sort_key f R"
  have ne: "?S \<noteq> []" using assms(2) by (metis length_0_conv length_sort)
  then obtain xs where xs: "?S = xs @ [last ?S]" by (metis append_butlast_last_id)
  have "distinct ?S" using assms(1) by simp
  then have "last ?S \<notin> set xs" by (subst (asm) xs) simp
  then have "filter (\<lambda>x. x \<noteq> last ?S) ?S = xs" by (subst (2) xs) (simp add: filter_id_conv, metis)
  then show ?thesis using xs filter_sort [of "\<lambda>x. x \<noteq> last ?S" f R] by simp
qed

lemma scope_rounds_order:
  assumes "length (im_scopes m) \<le> length tried"
    and "R = filter (\<lambda>i. \<not> tried ! i \<and> scope_hit base (im_scopes m ! i)) [0..<length (im_scopes m)]" and "length R \<le> rounds"
  shows "scope_rounds m base key outsz rounds tried
    = first_match (\<lambda>s. im_match_in m (int s) key outsz) (rev (sort_key (\<lambda>i. length (im_scopes m ! i)) R))"
  using assms
proof (induction rounds arbitrary: tried R)
  case (Suc rounds)
  let ?f = "\<lambda>i. length (im_scopes m ! i)"
  show ?case
  proof (cases "R = []")
    case True
    then show ?thesis using Suc(3) pick_scope_last [of tried base "im_scopes m"] by (simp add: Let_def)
  next
    case False
    define p where "p = last (sort_key ?f R)"
    have pick: "pick_scope tried base (im_scopes m) 0 None = Some (p, ?f p)"
      using False Suc(3) pick_scope_last [of tried base "im_scopes m"] by (simp add: Let_def p_def)
    have d: "distinct R" unfolding Suc(3) by simp
    have sk: "sort_key ?f R = sort_key ?f (filter (\<lambda>x. x \<noteq> p) R) @ [p]" using sort_key_last [OF d False, of ?f] by (simp add: p_def)
    then have pR: "p \<in> set R" by (metis in_set_conv_decomp set_sort)
    then have pn: "p < length (im_scopes m)" unfolding Suc(3) by simp
    have R': "filter (\<lambda>x. x \<noteq> p) R = filter (\<lambda>i. \<not> (tried[p := True]) ! i \<and> scope_hit base (im_scopes m ! i)) [0..<length (im_scopes m)]"
      unfolding Suc(3) filter_filter using pn Suc(2) by (intro filter_cong refl) (auto simp: nth_list_update)
    have "length (filter (\<lambda>x. x \<noteq> p) R) < length R" using pR by (intro length_filter_less) auto
    then have "length (filter (\<lambda>x. x \<noteq> p) R) \<le> rounds" using Suc(4) by simp
    then have "scope_rounds m base key outsz rounds (tried[p := True])
      = first_match (\<lambda>s. im_match_in m (int s) key outsz) (rev (sort_key ?f (filter (\<lambda>x. x \<noteq> p) R)))"
      using Suc(1) [OF _ R'] Suc(2) by simp
    then show ?thesis unfolding sk using pick by (simp split: im_match.split)
  qed
qed simp


definition sample_import_map :: im_map where
  "sample_import_map = \<lparr> im_e = [\<lparr> ie_scope = - 1, ie_key = ''lib/'', ie_addr = ''https://c/lib/'' \<rparr>,
       \<lparr> ie_scope = - 1, ie_key = ''lib/ui/'', ie_addr = ''https://c/ui/'' \<rparr>,
       \<lparr> ie_scope = 0, ie_key = ''lib/x'', ie_addr = ''https://c/old.js'' \<rparr>],
     im_cap = 16, im_scopes = [''https://h/old/''] \<rparr>"


section \<open>Reading back a printed map\<close>

text \<open>The JSON text of a map given as its specifiers and scopes.\<close>

definition esc :: "char \<Rightarrow> string" where
  "esc c =
     (if c = CHR 0x22 \<or> c = CHR 0x5C then [CHR 0x5C, c]
      else if (of_char c :: nat) < 0x20 then [CHR 0x5C, CHR ''u'', CHR ''0'', CHR ''0'', hex_digit (of_char c div 16), hex_digit (of_char c mod 16)]
      else [c])"

definition quote :: "string \<Rightarrow> string" where
  "quote s = CHR 0x22 # concat (map esc s) @ [CHR 0x22]"

fun print_pairs :: "(string \<times> string) list \<Rightarrow> string" where
  "print_pairs [] = ''}''"
| "print_pairs [(k, v)] = quote k @ CHR '':'' # quote v @ ''}''"
| "print_pairs ((k, v) # ps) = quote k @ CHR '':'' # quote v @ CHR '','' # print_pairs ps"

fun print_scopes :: "(string \<times> (string \<times> string) list) list \<Rightarrow> string" where
  "print_scopes [] = ''}''"
| "print_scopes [(p, ps)] = quote p @ '':{'' @ print_pairs ps @ ''}''"
| "print_scopes ((p, ps) # ss) = quote p @ '':{'' @ print_pairs ps @ CHR '','' # print_scopes ss"

definition print_map :: "(string \<times> string) list \<Rightarrow> (string \<times> (string \<times> string) list) list \<Rightarrow> string" where
  "print_map imports scopes = CHR ''{'' # quote ''imports'' @ '':{'' @ print_pairs imports @ CHR '','' # quote ''scopes'' @ '':{'' @ print_scopes scopes @ ''}''"

text \<open>What the map should hold: every pair added in order, every scope with its pairs.\<close>

fun add_pairs :: "allocator \<Rightarrow> im_url_fn \<Rightarrow> string \<Rightarrow> int \<Rightarrow> im_map \<Rightarrow> (string \<times> string) list \<Rightarrow> im_map option" where
  "add_pairs mem f d scope m [] = Some m"
| "add_pairs mem f d scope m ((k, v) # ps) = (case add mem f d m scope k v of None \<Rightarrow> None | Some m1 \<Rightarrow> add_pairs mem f d scope m1 ps)"

fun add_scopes :: "allocator \<Rightarrow> im_url_fn \<Rightarrow> string \<Rightarrow> im_map \<Rightarrow> (string \<times> (string \<times> string) list) list \<Rightarrow> im_map option" where
  "add_scopes mem f d m [] = Some m"
| "add_scopes mem f d m ((p, ps) # ss) =
     (case add_scope mem f d m p of
        None \<Rightarrow> None
      | Some m1 \<Rightarrow>
        (case add_pairs mem f d (int (length (im_scopes m1)) - 1) m1 ps of None \<Rightarrow> None | Some m2 \<Rightarrow> add_scopes mem f d m2 ss))"

lemma hex_digit_read: "n < 16 \<Longrightarrow> hex_digit_val (hex_digit n) = Some n"
proof -
  have all: "\<forall>n \<in> set [0..<16]. hex_digit_val (hex_digit n) = Some n" by code_simp
  assume "n < 16" then show ?thesis using all by simp
qed

lemma unicode_control: "(of_char c :: nat) < 0x20 \<Longrightarrow>
    unicode_escape (CHR ''0'' # CHR ''0'' # hex_digit (of_char c div 16) # hex_digit (of_char c mod 16) # r) = Some (of_char c, r)"
proof -
  assume c: "(of_char c :: nat) < 0x20"
  have z: "hex_digit_val CHR ''0'' = Some 0" by code_simp
  have "(of_char c :: nat) div 16 < 16" using c by simp
  then show ?thesis using c by (simp add: unicode_escape_def z hex_digit_read Let_def)
qed

lemma str_loop_esc: "str_loop out (esc c @ r) = str_loop (out @ [c]) r"
proof -
  have e: "simple_escape CHR 0x22 = Some CHR 0x22" "simple_escape CHR 0x5C = Some CHR 0x5C" "simple_escape CHR ''u'' = None" by code_simp+
  have v: "\<not> (of_char (CHR 0x5C) :: nat) < 0x20" by code_simp
  consider (q) "c = CHR 0x22 \<or> c = CHR 0x5C" | (ctl) "\<not> (c = CHR 0x22 \<or> c = CHR 0x5C)" "(of_char c :: nat) < 0x20"
    | (plain) "\<not> (c = CHR 0x22 \<or> c = CHR 0x5C)" "\<not> (of_char c :: nat) < 0x20" by blast
  then show ?thesis
  proof cases
    case q
    then show ?thesis using e by (auto simp: esc_def)
  next
    case ctl
    have "put_utf8 (of_char c) = [c]" using ctl(2) by (simp add: put_utf8_def)
    then show ?thesis using ctl e unicode_control [OF ctl(2)] by (simp add: esc_def)
  next
    case plain
    then show ?thesis by (simp add: esc_def)
  qed
qed

lemma str_loop_quote: "str_loop out (concat (map esc s) @ CHR 0x22 # r) = Some (out @ s, r)"
  by (induction s arbitrary: out) (simp_all add: str_loop_esc del: str_loop.simps(2), simp)

definition ample :: allocator where "ample n = True"

lemma eat_self [simp]: "eat CHR '':'' (CHR '':'' # r) = (True, r)" "eat CHR '','' (CHR '','' # r) = (True, r)"
    "eat CHR ''{'' (CHR ''{'' # r) = (True, r)" "eat CHR ''}'' (CHR ''}'' # r) = (True, r)"
    "eat CHR '','' (CHR ''}'' # r) = (False, CHR ''}'' # r)" "eat CHR ''}'' (CHR 0x22 # r) = (False, CHR 0x22 # r)"
  by (simp_all add: eat_def ws_def)

lemma str_quote: "cstr s \<Longrightarrow> str ample (quote s @ r) = Some (s, r)"
proof -
  assume "cstr s"
  then have "takeWhile (\<lambda>c. c \<noteq> NUL) s = s" by (simp add: cstr_def)
  then show ?thesis using str_loop_quote [of "[]" s r] by (simp add: str_def quote_def ws_def ample_def)
qed

lemma named_quote: "cstr k \<Longrightarrow> named ample (quote k @ CHR '':'' # r) = Some (k, r)"
  by (simp add: named_def str_quote)

definition cstr_pairs :: "(string \<times> string) list \<Rightarrow> bool" where
  "cstr_pairs ps \<longleftrightarrow> list_all (\<lambda>(k, v). cstr k \<and> cstr v) ps"

lemma spec_items_print:
  "cstr_pairs ps \<Longrightarrow> ps \<noteq> [] \<Longrightarrow> spec_items ample f d scope m (print_pairs ps @ r) = map_option (\<lambda>m. (m, r)) (add_pairs ample f d scope m ps)"
proof (induction ps arbitrary: m rule: print_pairs.induct)
  case (2 k v)
  then show ?case by (simp add: spec_items.simps cstr_pairs_def named_quote str_quote split: option.split)
next
  case (3 k v p ps)
  then show ?case by (simp add: spec_items.simps [of _ _ _ _ m] cstr_pairs_def named_quote str_quote split: option.split)
qed simp

lemma print_pairs_head: "ps \<noteq> [] \<Longrightarrow> \<exists>t. print_pairs ps @ r = CHR 0x22 # t"
  by (cases ps rule: print_pairs.cases) (auto simp: quote_def)

lemma specifier_map_print:
  "cstr_pairs ps \<Longrightarrow> specifier_map ample f d scope m (CHR ''{'' # print_pairs ps @ r) = map_option (\<lambda>m. (m, r)) (add_pairs ample f d scope m ps)"
proof (cases "ps = []")
  case True
  then show ?thesis by (simp add: specifier_map_def)
next
  case False
  assume c: "cstr_pairs ps"
  obtain t where t: "print_pairs ps @ r = CHR 0x22 # t" using print_pairs_head [OF False] by blast
  show ?thesis using spec_items_print [OF c False, of f d scope m r] unfolding t by (simp add: specifier_map_def)
qed

lemma scope_items_print:
  "list_all (\<lambda>(p, ps). cstr p \<and> cstr_pairs ps) ss \<Longrightarrow> ss \<noteq> [] \<Longrightarrow>
   scope_items ample f d m (print_scopes ss @ r) = map_option (\<lambda>m. (m, r)) (add_scopes ample f d m ss)"
proof (induction ss arbitrary: m rule: print_scopes.induct)
  case (2 p ps)
  then show ?case using specifier_map_print [of ps f d _ _ "CHR ''}'' # r"]
    by (simp add: scope_items.simps named_quote split: option.split)
next
  case (3 p ps s ss)
  then show ?case using specifier_map_print [of ps f d _ _ "CHR '','' # print_scopes (s # ss) @ r"]
    by (simp add: scope_items.simps [of _ _ _ m] named_quote split: option.split)
qed simp

lemma scopes_value_print:
  assumes "list_all (\<lambda>(p, ps). cstr p \<and> cstr_pairs ps) ss"
  shows "scopes_value ample f d m (CHR ''{'' # print_scopes ss @ r) = map_option (\<lambda>m. (m, r)) (add_scopes ample f d m ss)"
proof (cases "ss = []")
  case True
  then show ?thesis by (simp add: scopes_value_def)
next
  case False
  obtain t where t: "print_scopes ss @ r = CHR 0x22 # t" using False by (cases ss rule: print_scopes.cases) (auto simp: quote_def)
  show ?thesis using scope_items_print [OF assms False, of f d m r] unfolding t by (simp add: scopes_value_def)
qed

text \<open>C16: the JSON text of an import map is read back exactly: with memory available, whatever characters other than
  NUL the strings contain, the parsed map holds every specifier and every scope in order, each
  resolved against the document, or is empty if a bound is exceeded.\<close>

theorem im_parse_print:
  assumes "cstr_pairs imports" and "list_all (\<lambda>(p, ps). cstr p \<and> cstr_pairs ps) scopes"
    and "length (print_map imports scopes) \<le> IM_MAX_TEXT"
  shows "im_parse ample (Some f) (Some (print_map imports scopes)) (Some d) =
    Some (case add_pairs ample f d (- 1) empty_map imports of
        None \<Rightarrow> empty_map
      | Some m \<Rightarrow> (case add_scopes ample f d m scopes of None \<Rightarrow> empty_map | Some m' \<Rightarrow> m'))"
proof -
  let ?r1 = "quote ''scopes'' @ '':{'' @ print_scopes scopes @ ''}''"
  let ?r0 = "quote ''imports'' @ '':{'' @ print_pairs imports @ CHR '','' # ?r1"
  have cs: "cstr ''imports''" "cstr ''scopes''" by code_simp+
  have imp: "member_items ample f d empty_map ?r0 =
    (case add_pairs ample f d (- 1) empty_map imports of None \<Rightarrow> None | Some m \<Rightarrow> member_items ample f d m ?r1)"
    using specifier_map_print [OF assms(1), of f d "- 1" empty_map "CHR '','' # ?r1"] named_quote [OF cs(1)]
    by (simp add: member_items.simps [of _ _ _ empty_map] member_value_def split: option.split)
  have sco: "member_items ample f d m ?r1 = map_option (\<lambda>m. (m, [])) (add_scopes ample f d m scopes)" for m
    using scopes_value_print [OF assms(2), of f d m "''}''"] named_quote [OF cs(2)]
    by (simp add: member_items.simps [of _ _ _ m] member_value_def split: option.split)
  have q: "eat CHR ''}'' ?r0 = (False, ?r0)" by (simp add: quote_def)
  have "parse_text ample f d (print_map imports scopes) = (case add_pairs ample f d (- 1) empty_map imports of
        None \<Rightarrow> empty_map
      | Some m \<Rightarrow> (case add_scopes ample f d m scopes of None \<Rightarrow> empty_map | Some m' \<Rightarrow> m'))"
    unfolding parse_text_def print_map_def using q imp sco by (simp add: ws_def split: option.split)
  then show ?thesis using assms(3) by (simp add: im_parse_def ample_def)
qed

theorem im_parse_print_witness:
  "im_parse ample (Some (\<lambda>b r. Some r)) (Some (print_map [(''a'', ''/x.js'')] [(''/old/'', [(''a'', ''/y.js'')])])) (Some ''https://h/'')
    = Some \<lparr> im_e = [\<lparr> ie_scope = - 1, ie_key = ''a'', ie_addr = ''/x.js'' \<rparr>, \<lparr> ie_scope = 0, ie_key = ''a'', ie_addr = ''/y.js'' \<rparr>],
        im_cap = 16, im_scopes = [''/old/''] \<rparr>"
proof -
  have h: "cstr_pairs [(''a'', ''/x.js'')]" "list_all (\<lambda>(p, ps). cstr p \<and> cstr_pairs ps) [(''/old/'', [(''a'', ''/y.js'')])]"
    "length (print_map [(''a'', ''/x.js'')] [(''/old/'', [(''a'', ''/y.js'')])]) \<le> IM_MAX_TEXT" by code_simp+
  have "(case add_pairs ample (\<lambda>b r. Some r) ''https://h/'' (- 1) empty_map [(''a'', ''/x.js'')] of
        None \<Rightarrow> empty_map
      | Some m \<Rightarrow> (case add_scopes ample (\<lambda>b r. Some r) ''https://h/'' m [(''/old/'', [(''a'', ''/y.js'')])] of None \<Rightarrow> empty_map | Some m' \<Rightarrow> m'))
    = \<lparr> im_e = [\<lparr> ie_scope = - 1, ie_key = ''a'', ie_addr = ''/x.js'' \<rparr>, \<lparr> ie_scope = 0, ie_key = ''a'', ie_addr = ''/y.js'' \<rparr>],
        im_cap = 16, im_scopes = [''/old/''] \<rparr>" by code_simp
  then show ?thesis using im_parse_print [OF h, of "\<lambda>b r. Some r" "''https://h/''"] by simp
qed

section \<open>Every parsed map is within the bounds\<close>

definition map_ok :: "im_url_fn \<Rightarrow> string \<Rightarrow> im_map \<Rightarrow> bool" where
  "map_ok f d m \<longleftrightarrow> length (im_e m) \<le> IM_MAX_ENTRIES \<and> length (im_e m) \<le> im_cap m \<and> length (im_scopes m) \<le> IM_MAX_SCOPES
     \<and> (\<forall>e \<in> set (im_e m). - 1 \<le> ie_scope e \<and> ie_scope e < int (length (im_scopes m)) \<and> (\<exists>a. f d a = Some (ie_addr e)))
     \<and> (\<forall>p \<in> set (im_scopes m). p = [] \<or> (\<exists>a. f d a = Some p))"

lemma map_ok_empty: "map_ok f d empty_map" by (simp add: map_ok_def empty_map_def)

lemma map_ok_add:
  assumes "map_ok f d m" and "- 1 \<le> scope" and "scope < int (length (im_scopes m))" and "add mem f d m scope k v = Some m'"
  shows "map_ok f d m' \<and> im_scopes m' = im_scopes m"
proof -
  consider (same) "m' = m" | (new) k' ab where "im_e m' = im_e m @ [\<lparr> ie_scope = scope, ie_key = k', ie_addr = ab \<rparr>]" "f d v = Some ab"
      "im_scopes m' = im_scopes m" "length (im_e m) < IM_MAX_ENTRIES" "length (im_e m) < im_cap m'"
    using assms(1,4) by (auto simp: add_def Let_def map_ok_def split: if_splits option.splits)
  then show ?thesis
  proof cases
    case new
    then show ?thesis using assms(1-3) by (auto simp: map_ok_def)
  qed (use assms(1) in simp)
qed

lemma map_ok_spec_items:
  "spec_items mem f d scope m r = Some (m', r') \<Longrightarrow> map_ok f d m \<Longrightarrow> - 1 \<le> scope \<Longrightarrow> scope < int (length (im_scopes m))
   \<Longrightarrow> map_ok f d m' \<and> im_scopes m' = im_scopes m"
proof (induction mem f d scope m r arbitrary: m' r' rule: spec_items.induct)
  case (1 mem f d scope m r)
  obtain k r1 v r2 m1 b r3 where s: "named mem r = Some (k, r1)" "str mem r1 = Some (v, r2)" "add mem f d m scope k v = Some m1"
    "eat CHR '','' r2 = (b, r3)" "b \<and> spec_items mem f d scope m1 r3 = Some (m', r') \<or> \<not> b \<and> m' = m1"
    using 1(2) by (subst (asm) spec_items.simps) (auto split: option.splits prod.splits bool.splits)
  have m1: "map_ok f d m1 \<and> im_scopes m1 = im_scopes m" using map_ok_add [OF 1(3-5) s(3)] .
  show ?case
  proof (cases b)
    case True
    then show ?thesis using 1(1) [OF s(1) refl s(2) refl s(3) s(4) [symmetric]] s(5) m1 1(4,5) by auto
  next
    case False
    then show ?thesis using s(5) m1 by simp
  qed
qed

lemma eat_pair_cases:
  "(case eat a r of (False, _) \<Rightarrow> None | (True, r1) \<Rightarrow> (case eat b r1 of (True, r2) \<Rightarrow> Some (m, r2) | (False, r2) \<Rightarrow> g r2)) = Some (m', r')
   \<Longrightarrow> m' = m \<or> (\<exists>r2. g r2 = Some (m', r'))"
  by (auto split: prod.splits bool.splits)

lemma map_ok_specifier_map:
  assumes "specifier_map mem f d scope m r = Some (m', r')" and "map_ok f d m" and "- 1 \<le> scope" and "scope < int (length (im_scopes m))"
  shows "map_ok f d m' \<and> im_scopes m' = im_scopes m"
  using eat_pair_cases [OF assms(1) [unfolded specifier_map_def]] assms(2-4) map_ok_spec_items by blast

lemma map_ok_scope_items:
  "scope_items mem f d m r = Some (m', r') \<Longrightarrow> map_ok f d m \<Longrightarrow> map_ok f d m'"
proof (induction mem f d m r arbitrary: m' r' rule: scope_items.induct)
  case (1 mem f d m r)
  obtain p r1 m1 m2 r2 b r3 where s: "named mem r = Some (p, r1)" "add_scope mem f d m p = Some m1"
    "specifier_map mem f d (int (length (im_scopes m1)) - 1) m1 r1 = Some (m2, r2)" "eat CHR '','' r2 = (b, r3)"
    "b \<and> scope_items mem f d m2 r3 = Some (m', r') \<or> \<not> b \<and> m' = m2"
    using 1(2) by (subst (asm) scope_items.simps) (auto split: option.splits prod.splits bool.splits)
  obtain sc where m1: "m1 = m\<lparr>im_scopes := im_scopes m @ [sc]\<rparr>" "sc = [] \<or> (\<exists>a. f d a = Some sc)" "length (im_scopes m) < IM_MAX_SCOPES"
    using s(2) by (auto simp: add_scope_def Let_def split: if_splits option.splits)
  have "\<forall>e \<in> set (im_e m). ie_scope e < int (length (im_scopes m)) + 1" using 1(3) by (fastforce simp: map_ok_def)
  then have "map_ok f d m1" "im_scopes m1 \<noteq> []" using m1 1(3) by (auto simp: map_ok_def)
  then have "map_ok f d m2" using map_ok_specifier_map [OF s(3)] by simp
  then show ?case using 1(1) [OF s(1) refl s(2) s(3) refl s(4) [symmetric]] s(5) by (cases b) auto
qed

lemma map_ok_member_items:
  "member_items mem f d m r = Some (m', r') \<Longrightarrow> map_ok f d m \<Longrightarrow> map_ok f d m'"
proof (induction mem f d m r arbitrary: m' r' rule: member_items.induct)
  case (1 mem f d m r)
  obtain name r1 m1 r2 b r3 where s: "named mem r = Some (name, r1)" "member_value mem f d m name r1 = Some (m1, r2)"
    "eat CHR '','' r2 = (b, r3)" "b \<and> member_items mem f d m1 r3 = Some (m', r') \<or> \<not> b \<and> m' = m1"
    using 1(2) by (subst (asm) member_items.simps) (auto split: option.splits prod.splits bool.splits)
  have "map_ok f d m1" if "scopes_value mem f d m r1 = Some (m1, r2)"
    using eat_pair_cases [OF that [unfolded scopes_value_def]] 1(3) map_ok_scope_items by blast
  then have "map_ok f d m1"
    using s(2) 1(3) map_ok_specifier_map [of mem f d "- 1" m r1 m1 r2] by (auto simp: member_value_def split: if_splits)
  then show ?case using 1(1) [OF s(1) refl s(2) refl s(3) [symmetric]] s(4) by (cases b) auto
qed

text \<open>C17: whatever text a page gives, the parsed map is within its bounds, every entry belongs to a scope that
  exists, and every address and every scope prefix in it is a URL the caller's resolver produced.\<close>

theorem im_parse_bounds:
  assumes "im_parse mem (Some f) json (Some d) = Some m"
  shows "map_ok f d m"
proof -
  have "map_ok f d (parse_text mem f d j)" for j
    unfolding parse_text_def using map_ok_empty [of f d] map_ok_member_items [of mem f d empty_map]
    by (auto split: prod.split option.split bool.split)
  then show ?thesis using assms map_ok_empty by (auto simp: im_parse_def split: if_splits option.splits)
qed

theorem im_parse_bounds_witness:
  "\<exists>m. im_parse ample (Some (\<lambda>b r. None)) (Some ''{ '') (Some ''https://h/'') = Some m \<and> length (im_scopes m) \<le> IM_MAX_SCOPES"
proof -
  have run: "im_parse ample (Some (\<lambda>b r. None)) (Some ''{ '') (Some ''https://h/'') = Some empty_map" by code_simp
  from im_parse_bounds [OF run] run show ?thesis unfolding map_ok_def by blast
qed

end
