(* ===== verification/Css_Vars.thy ===== *)
theory Css_Vars
  imports Host_Block
begin

unbundle bit_operations_syntax

text \<open>
  The module \<^verbatim>\<open>src/css_vars.c\<close> with the helpers of \<^verbatim>\<open>css_select\<close> that it calls: the custom-property table
  of a style sheet or an element, and the scanner that fills it from a declaration block. The table is
  an array of entries with an open-addressed hash index over it; an outcome \<open>None\<close> of a table operation is a run that does not return a value: a probe
  of an index with no free slot, or an access through the index pointer while it is NULL. Each call
  of \<open>cvr_set\<close> makes at most four allocation requests and takes their answers as a \<open>cvr_mem\<close>.
\<close>

section \<open>Table\<close>

subsection \<open>Model\<close>

definition CVR_NAME_MAX :: nat where
  "CVR_NAME_MAX = 256"

definition CVR_VALUE_MAX :: nat where
  "CVR_VALUE_MAX = 1024"

definition CVR_MAX_ENTRIES :: nat where
  "CVR_MAX_ENTRIES = 65536"

record cvr_ent =
  ce_name :: string
  ce_value :: string

text \<open>The counters \<^verbatim>\<open>n\<close> and \<^verbatim>\<open>nslot\<close> of the source are the lengths of the two lists; a slot holds the
  index of its entry plus one, and 0 when it is free.\<close>

record cvr_table =
  ct_ent :: "cvr_ent list"
  ct_cap :: nat
  ct_slot :: "nat list"

text \<open>Which requests of one \<^verbatim>\<open>cvr_set\<close> are granted: the entry array, the index, the copies of the name
  and of the value.\<close>

record cvr_mem =
  ok_ent :: bool
  ok_slot :: bool
  ok_name :: bool
  ok_value :: bool

definition zero_table :: cvr_table where
  "zero_table = \<lparr> ct_ent = [], ct_cap = 0, ct_slot = [] \<rparr>"

fun name_hash :: "64 word \<Rightarrow> string \<Rightarrow> 64 word" where
  "name_hash h [] = h"
| "name_hash h (c # s) = name_hash ((h XOR word_of_nat (of_char c)) * 1099511628211) s"

definition find_slot :: "cvr_ent list \<Rightarrow> nat list \<Rightarrow> string \<Rightarrow> nat option" where
  "find_slot ent slot name =
     (if slot = [] then None
      else scan (\<lambda>i. slot ! i = 0 \<or> ce_name (ent ! (slot ! i - 1)) = name) (length slot - 1)
             (unat (name_hash 1469598103934665603 name) AND (length slot - 1)))"

text \<open>The loop of \<^verbatim>\<open>grow\<close> that enters every stored name into the new index, from entry \<open>k\<close> on.\<close>

fun reindex :: "cvr_ent list \<Rightarrow> nat list \<Rightarrow> nat \<Rightarrow> cvr_ent list \<Rightarrow> nat list option" where
  "reindex ent slot k [] = Some slot"
| "reindex ent slot k (e # es) =
     do { i \<leftarrow> find_slot ent slot (ce_name e); reindex ent (slot[i := k + 1]) (k + 1) es }"

definition grow :: "cvr_mem \<Rightarrow> cvr_table \<Rightarrow> (cvr_table \<times> bool) option" where
  "grow m t =
     (let ncap = min (if ct_cap t \<noteq> 0 then ct_cap t * 2 else 64) CVR_MAX_ENTRIES in
      if ncap \<le> ct_cap t then Some (t, False)
      else if ncap > (2 ^ 64 - 1) div 2 div 8 then Some (t, False)
      else if \<not> ok_ent m then Some (t, False)
      else if \<not> ok_slot m then Some (t\<lparr>ct_cap := ncap\<rparr>, False)
      else do { slot \<leftarrow> reindex (ct_ent t) (replicate (ncap * 2) 0) 0 (ct_ent t);
                Some (t\<lparr>ct_cap := ncap, ct_slot := slot\<rparr>, True) })"

definition storable :: "string \<Rightarrow> string \<Rightarrow> bool" where
  "storable name value \<longleftrightarrow> 3 \<le> length name \<and> take 2 name = ''--'' \<and> length name < CVR_NAME_MAX
     \<and> value \<noteq> [] \<and> length value < CVR_VALUE_MAX \<and> NUL \<notin> set name"

definition append_entry :: "cvr_mem \<Rightarrow> cvr_table \<Rightarrow> string \<Rightarrow> string \<Rightarrow> (cvr_table \<times> bool) option" where
  "append_entry m t name value =
     do { (t, room) \<leftarrow> if length (ct_ent t) \<ge> ct_cap t then grow m t else Some (t, True);
          if \<not> room \<or> \<not> ok_name m \<or> \<not> ok_value m then Some (t, False)
          else do { i \<leftarrow> find_slot (ct_ent t) (ct_slot t) name;
                    Some (t\<lparr>ct_ent := ct_ent t @ [\<lparr> ce_name = name, ce_value = value \<rparr>],
                            ct_slot := (ct_slot t)[i := length (ct_ent t) + 1]\<rparr>, True) } }"

definition put_entry :: "cvr_mem \<Rightarrow> cvr_table \<Rightarrow> string \<Rightarrow> string \<Rightarrow> (cvr_table \<times> bool) option" where
  "put_entry m t name value =
     (if \<not> storable name value then Some (t, False)
      else if ct_slot t = [] then append_entry m t name value
      else do { i \<leftarrow> find_slot (ct_ent t) (ct_slot t) name;
                if ct_slot t ! i \<noteq> 0
                then Some (if ok_value m
                           then (t\<lparr>ct_ent := (ct_ent t)[ct_slot t ! i - 1 :=
                                     (ct_ent t ! (ct_slot t ! i - 1))\<lparr>ce_value := value\<rparr>]\<rparr>, True)
                           else (t, False))
                else append_entry m t name value })"

fun cvr_set :: "cvr_mem \<Rightarrow> cvr_table option \<Rightarrow> cptr \<Rightarrow> cptr \<Rightarrow> (cvr_table option \<times> bool) option" where
  "cvr_set m (Some t) (Some name) (Some value) =
     do { (t', ok) \<leftarrow> put_entry m t name value; Some (Some t', ok) }"
| "cvr_set m t name value = Some (t, False)"

text \<open>The result is read as a C string: the stored bytes up to the first NUL.\<close>

fun cvr_get :: "cvr_table option \<Rightarrow> cptr \<Rightarrow> cptr option" where
  "cvr_get (Some t) (Some name) =
     (if ct_slot t = [] \<or> ct_ent t = [] then Some None
      else do { i \<leftarrow> find_slot (ct_ent t) (ct_slot t) name;
                let e = ct_slot t ! i in
                Some (if e \<noteq> 0 then Some (takeWhile (\<lambda>c. c \<noteq> NUL) (ce_value (ct_ent t ! (e - 1)))) else None) })"
| "cvr_get t name = Some None"

definition cvr_count :: "cvr_table option \<Rightarrow> nat" where
  "cvr_count t = (case t of None \<Rightarrow> 0 | Some t \<Rightarrow> length (ct_ent t))"

definition cvr_reset :: "cvr_table \<Rightarrow> cvr_table" where
  "cvr_reset t = t\<lparr>ct_ent := [], ct_slot := replicate (length (ct_slot t)) 0\<rparr>"

definition cvr_free :: "cvr_table \<Rightarrow> cvr_table" where
  "cvr_free t = zero_table"

subsection \<open>Invariant\<close>

text \<open>The index seen as the slots of a hash set of names, to which the probing lemmas of the host table
  apply.\<close>

definition names :: "cvr_ent list \<Rightarrow> nat list \<Rightarrow> string option list" where
  "names ent slot = map (\<lambda>e. if e = 0 then None else Some (ce_name (ent ! (e - 1)))) slot"

definition index_of :: "cvr_ent list \<Rightarrow> nat list \<Rightarrow> cvr_ent list \<Rightarrow> bool" where
  "index_of ent slot es \<longleftrightarrow> slots_ok (names ent slot) \<and> keys (names ent slot) = ce_name ` set es
     \<and> occupied (names ent slot) = length es \<and> list_all (\<lambda>e. e \<le> length es) slot"

definition ents_ok :: "cvr_ent list \<Rightarrow> bool" where
  "ents_ok ent \<longleftrightarrow> distinct (map ce_name ent) \<and> list_all (\<lambda>e. storable (ce_name e) (ce_value e)) ent"

definition cvr_inv :: "cvr_table \<Rightarrow> bool" where
  "cvr_inv t \<longleftrightarrow> t = zero_table \<or>
     ((\<exists>k. ct_cap t = 2 ^ k) \<and> 64 \<le> ct_cap t \<and> ct_cap t \<le> CVR_MAX_ENTRIES \<and> length (ct_slot t) = ct_cap t * 2
      \<and> length (ct_ent t) \<le> ct_cap t \<and> ents_ok (ct_ent t) \<and> index_of (ct_ent t) (ct_slot t) (ct_ent t))"

definition ent_map :: "cvr_ent list \<Rightarrow> string \<rightharpoonup> string" where
  "ent_map ent = map_of (map (\<lambda>e. (ce_name e, ce_value e)) ent)"

abbreviation table_map :: "cvr_table \<Rightarrow> string \<rightharpoonup> string" where
  "table_map t \<equiv> ent_map (ct_ent t)"

lemma name_hash_fnv1a: "name_hash 1469598103934665603 s = fnv1a s"
proof -
  have "name_hash h s = foldl (\<lambda>h c. (h XOR word_of_nat (of_char c)) * 1099511628211) h s" for h
    by (induction s arbitrary: h) simp_all
  then show ?thesis by (simp add: fnv1a_def)
qed

lemma length_names [simp]: "length (names ent slot) = length slot"
  by (simp add: names_def)

lemma nth_names: "i < length slot \<Longrightarrow>
  names ent slot ! i = (if slot ! i = 0 then None else Some (ce_name (ent ! (slot ! i - 1))))"
  by (simp add: names_def)

lemma scan_cong:
  assumes n: "n = 2 ^ k" and "h < n" and "\<And>i. i < n \<Longrightarrow> stop i \<longleftrightarrow> stop' i" and "stop i" "i < n"
  shows "scan stop (n - 1) h = scan stop' (n - 1) h"
proof -
  have "(h + (i + n - h)) mod n = i" using assms(2,5) by simp
  then have ex: "\<exists>j. stop ((h + j) mod n)" using assms(4) by metis
  obtain J where J: "stop ((h + J) mod n)" "\<And>j. j < J \<Longrightarrow> \<not> stop ((h + j) mod n)"
    using exists_least_iff [of "\<lambda>j. stop ((h + j) mod n)"] ex by blast
  have "(h + j) mod n < n" for j using n by simp
  then have "stop' ((h + j) mod n) \<longleftrightarrow> stop ((h + j) mod n)" for j using assms(3) by blast
  then have "scan stop' (n - 1) h = Some ((h + J) mod n)"
    by (intro scan_first [OF n assms(2)]) (simp_all add: J)
  then show ?thesis using scan_first [OF n assms(2), of stop J] J by metis
qed

text \<open>The probe of the source is the probe of the set of names.\<close>

lemma find_slot_scan:
  assumes n: "length slot = 2 ^ k" and free: "0 \<in> set slot"
  shows "find_slot ent slot name =
    scan (\<lambda>i. names ent slot ! i = None \<or> names ent slot ! i = Some name) (length slot - 1) (home (length slot) name)"
proof -
  obtain i where i: "i < length slot" "slot ! i = 0" using free by (metis in_set_conv_nth)
  have "slot \<noteq> []" using i by auto
  moreover have "scan (\<lambda>i. slot ! i = 0 \<or> ce_name (ent ! (slot ! i - 1)) = name) (length slot - 1) (home (length slot) name)
    = scan (\<lambda>i. names ent slot ! i = None \<or> names ent slot ! i = Some name) (length slot - 1) (home (length slot) name)"
    by (rule scan_cong [OF n home_less [OF n], where i = i]) (use i in \<open>auto simp: nth_names\<close>)
  ultimately show ?thesis by (simp add: find_slot_def home_def name_hash_fnv1a)
qed

lemma names_None: "None \<in> set (names ent slot) \<longleftrightarrow> 0 \<in> set slot"
  by (auto simp: names_def)

lemma index_room:
  assumes "index_of ent slot es" and "length es < length slot"
  shows "0 \<in> set slot" "\<exists>k. length slot = 2 ^ k"
  using assms occupied_less [of "names ent slot"] by (auto simp: index_of_def names_None slots_ok_def)

lemma find_slot_free:
  assumes inv: "index_of ent slot es" and room: "length es < length slot" and new: "name \<notin> ce_name ` set es"
  obtains i where "find_slot ent slot name = Some i" "i < length slot" "slot ! i = 0"
    "reachable_slot (names ent slot) name i"
proof -
  obtain k where k: "length slot = 2 ^ k" and free: "0 \<in> set slot" using index_room [OF inv room] by blast
  have "slots_ok (names ent slot)" "name \<notin> keys (names ent slot)" using inv new by (auto simp: index_of_def)
  from probe_free [OF this(1) _ this(2), of "\<lambda>i. names ent slot ! i = None \<or> names ent slot ! i = Some name" True]
  show ?thesis using that free by (auto simp: find_slot_scan [OF k free] names_None nth_names split: if_splits)
qed

lemma find_slot_found:
  assumes inv: "index_of ent slot es" and room: "length es < length slot" and old: "name \<in> ce_name ` set es"
  obtains i where "find_slot ent slot name = Some i" "i < length slot" "slot ! i \<noteq> 0"
    "slot ! i \<le> length es" "ce_name (ent ! (slot ! i - 1)) = name"
proof -
  obtain k where k: "length slot = 2 ^ k" and free: "0 \<in> set slot" using index_room [OF inv room] by blast
  let ?ns = "names ent slot"
  have ok: "slots_ok ?ns" and key: "name \<in> keys ?ns" using inv old by (auto simp: index_of_def)
  obtain j where j: "j < length ?ns" "?ns ! j = Some name" using key by (auto simp: keys_nth)
  with ok have "reachable_slot ?ns name j" by (simp add: slots_ok_def)
  then obtain J where J: "j = visit (length ?ns) name J"
    "\<And>j'. j' < J \<Longrightarrow> ?ns ! visit (length ?ns) name j' \<noteq> None \<and> ?ns ! visit (length ?ns) name j' \<noteq> Some name"
    unfolding reachable_slot_def by blast
  have "find_slot ent slot name = Some j"
    using scan_visit [of ?ns k "\<lambda>i. ?ns ! i = None \<or> ?ns ! i = Some name" name J] J j k
    by (auto simp: find_slot_scan [OF k free])
  then show ?thesis using that [of j] j inv
    by (auto simp: nth_names index_of_def list_all_length split: if_splits)
qed

text \<open>Entering a new name at the slot its probe ends at.\<close>

lemma names_put:
  assumes "i < length slot"
  shows "names ent (slot[i := k + 1]) = (names ent slot)[i := Some (ce_name (ent ! k))]"
  using assms by (simp add: names_def map_update)

lemma index_of_put:
  assumes inv: "index_of ent slot es" and i: "i < length slot" "slot ! i = 0" "reachable_slot (names ent slot) (ce_name e) i"
    and k: "k = length es" "ent ! k = e"
  shows "index_of ent (slot[i := k + 1]) (es @ [e])"
proof -
  let ?ns = "names ent slot"
  have ok: "slots_ok ?ns" and f: "i < length ?ns" "?ns ! i = None" using inv i by (auto simp: index_of_def nth_names)
  have "list_all (\<lambda>x. x \<le> length (es @ [e])) (slot[i := k + 1])"
    using inv k set_update_subset_insert [of slot i "k + 1"] by (force simp: index_of_def list_all_iff)
  then show ?thesis
    using put_ok [OF ok f i(3)] put_keys [OF f, of "ce_name e"] put_occupied [OF f, of "ce_name e"] inv k i(1)
    by (simp add: index_of_def names_put [simplified])
qed

lemma names_append: "list_all (\<lambda>e. e \<le> length ent) slot \<Longrightarrow> names (ent @ xs) slot = names ent slot"
  unfolding names_def by (rule map_cong) (auto simp: list_all_iff nth_append)

lemma index_of_append_ent: "index_of ent slot ent \<Longrightarrow> index_of (ent @ xs) slot ent"
  by (simp add: index_of_def names_append)

lemma index_of_empty: "length slot = 2 ^ k \<Longrightarrow> list_all ((=) 0) slot \<Longrightarrow> index_of ent slot []"
proof -
  assume k: "length slot = 2 ^ k" and z: "list_all ((=) 0) slot"
  have "slot = replicate (2 ^ k) 0" by (rule replicate_eqI) (use k z in \<open>auto simp: list_all_iff\<close>)
  then have "names ent slot = replicate (2 ^ k) None" by (simp add: names_def)
  then show ?thesis using z slots_ok_replicate [of k]
    by (auto simp: index_of_def keys_def occupied_def list_all_iff)
qed

lemma reindex_correct:
  assumes "index_of ent slot (take k ent)" and "es = drop k ent" and "distinct (map ce_name ent)" and "length ent < length slot"
    and "k \<le> length ent"
  shows "\<exists>slot'. reindex ent slot k es = Some slot' \<and> length slot' = length slot \<and> index_of ent slot' ent"
  using assms
proof (induction es arbitrary: slot k)
  case Nil
  then show ?case by simp
next
  case (Cons e es)
  have k: "k < length ent" "ent ! k = e" "es = drop (Suc k) ent"
    using Cons.prems(2) by (metis drop_all linorder_not_less list.distinct(1), metis nth_via_drop, metis drop_Suc tl_drop list.sel(3))
  have new: "ce_name e \<notin> ce_name ` set (take k ent)"
    using Cons.prems(3) k(1,2) by (auto simp: in_set_conv_nth distinct_conv_nth)
  have "length (take k ent) < length slot" using Cons.prems(4) by simp
  from find_slot_free [OF Cons.prems(1) this new] obtain i where i: "find_slot ent slot (ce_name e) = Some i"
    "i < length slot" "slot ! i = 0" "reachable_slot (names ent slot) (ce_name e) i" by blast
  have "index_of ent (slot[i := k + 1]) (take (Suc k) ent)"
    using index_of_put [OF Cons.prems(1) i(2-4), of k] k by (simp add: take_Suc_conv_app_nth)
  from Cons.IH [OF this k(3) Cons.prems(3)] Cons.prems(4) k(1) i(1) show ?case by auto
qed

subsection \<open>Operations\<close>

lemma pow2_double_le:
  assumes "(c::nat) = 2 ^ k" and "c < 2 ^ j"
  shows "c * 2 \<le> 2 ^ j"
proof -
  have "k < j" using assms by simp
  then have "(2::nat) ^ Suc k \<le> 2 ^ j" by (intro power_increasing) auto
  then show ?thesis using assms(1) by simp
qed

lemma cvr_inv_cases:
  assumes "cvr_inv t"
  obtains "t = zero_table"
  | k where "ct_cap t = 2 ^ k" "64 \<le> ct_cap t" "ct_cap t \<le> CVR_MAX_ENTRIES" "length (ct_slot t) = ct_cap t * 2"
      "length (ct_ent t) \<le> ct_cap t" "ents_ok (ct_ent t)" "index_of (ct_ent t) (ct_slot t) (ct_ent t)"
  using assms by (auto simp: cvr_inv_def)

lemma cvr_inv_ents: "cvr_inv t \<Longrightarrow> ents_ok (ct_ent t)"
  by (auto simp: cvr_inv_def zero_table_def ents_ok_def)

lemma cvr_inv_room: "cvr_inv t \<Longrightarrow> ct_slot t \<noteq> [] \<Longrightarrow>
  index_of (ct_ent t) (ct_slot t) (ct_ent t) \<and> length (ct_ent t) < length (ct_slot t)"
  by (erule cvr_inv_cases) (auto simp: zero_table_def)

lemma grow_correct:
  assumes inv: "cvr_inv t" and full: "length (ct_ent t) \<ge> ct_cap t" and m: "ok_slot m"
  shows "\<exists>t' ok. grow m t = Some (t', ok) \<and> cvr_inv t' \<and> ct_ent t' = ct_ent t
    \<and> (ok \<longrightarrow> length (ct_ent t) < ct_cap t') \<and> (ok \<longleftrightarrow> ok_ent m \<and> length (ct_ent t) < CVR_MAX_ENTRIES)"
proof -
  let ?n = "min (if ct_cap t \<noteq> 0 then ct_cap t * 2 else 64) CVR_MAX_ENTRIES"
  have cap: "ct_cap t = length (ct_ent t)" "ct_cap t \<le> CVR_MAX_ENTRIES"
    using inv full by (auto elim!: cvr_inv_cases simp: zero_table_def)
  show ?thesis
  proof (cases "ok_ent m \<and> length (ct_ent t) < CVR_MAX_ENTRIES")
    case False
    then have "?n \<le> ct_cap t \<or> \<not> ok_ent m" using cap by auto
    then have "grow m t = Some (t, False)" by (auto simp: grow_def Let_def)
    with False inv show ?thesis by auto
  next
    case True
    have n: "\<exists>k. ?n = 2 ^ k" "64 \<le> ?n" "ct_cap t < ?n"
    proof (atomize (full), use inv in \<open>cases rule: cvr_inv_cases\<close>)
      case 1
      then show "(\<exists>k. ?n = 2 ^ k) \<and> 64 \<le> ?n \<and> ct_cap t < ?n"
        by (auto simp: zero_table_def CVR_MAX_ENTRIES_def intro: exI [of _ 6])
    next
      case (2 k)
      have "ct_cap t * 2 \<le> CVR_MAX_ENTRIES"
        using pow2_double_le [OF 2(1), of 16] True cap by (simp add: CVR_MAX_ENTRIES_def)
      then have "?n = 2 ^ Suc k" using 2 by simp
      with 2 show "(\<exists>k. ?n = 2 ^ k) \<and> 64 \<le> ?n \<and> ct_cap t < ?n" by (metis (mono_tags, lifting) le_trans power_Suc mult_2 le_add1 less_add_same_cancel1 zero_less_power zero_less_numeral)
    qed
    define N where "N = ?n"
    note n = n [folded N_def]
    then obtain k where k: "N = 2 ^ k" by blast
    have "index_of (ct_ent t) (replicate (N * 2) 0) (take 0 (ct_ent t))"
      using index_of_empty [of "replicate (N * 2) 0" "Suc k"] k by (simp add: list_all_iff)
    from reindex_correct [OF this] obtain slot where slot: "reindex (ct_ent t) (replicate (N * 2) 0) 0 (ct_ent t) = Some slot"
      "length slot = N * 2" "index_of (ct_ent t) slot (ct_ent t)"
      using cvr_inv_ents [OF inv] n(3) cap by (auto simp: ents_ok_def)
    have small: "N \<le> CVR_MAX_ENTRIES" "\<not> N > (2 ^ 64 - 1) div 2 div 8"
      by (simp_all add: N_def CVR_MAX_ENTRIES_def)
    let ?t = "t\<lparr>ct_cap := N, ct_slot := slot\<rparr>"
    have "grow m t = Some (?t, True)"
      using slot(1) n(3) True m small unfolding grow_def N_def [symmetric] Let_def by simp
    moreover have "cvr_inv ?t"
      unfolding cvr_inv_def using k n slot small cvr_inv_ents [OF inv] cap by auto
    ultimately show ?thesis using True n(3) cap by (intro exI [of _ ?t] exI [of _ True]) simp
  qed
qed

lemma dom_ent_map: "dom (ent_map ent) = ce_name ` set ent"
  by (simp add: ent_map_def dom_map_of_conv_image_fst image_image)

lemma card_ent_map: "ents_ok ent \<Longrightarrow> card (dom (ent_map ent)) = length ent"
  by (metis dom_ent_map distinct_card ents_ok_def length_map set_map)

lemma ent_map_append:
  "ce_name e \<notin> ce_name ` set ent \<Longrightarrow> ent_map (ent @ [e]) = (ent_map ent)(ce_name e \<mapsto> ce_value e)"
  by (induction ent) (auto simp: ent_map_def fun_eq_iff)

lemma ent_map_update:
  assumes "distinct (map ce_name ent)" and "i < length ent"
  shows "ent_map (ent[i := (ent ! i)\<lparr>ce_value := v\<rparr>]) = (ent_map ent)(ce_name (ent ! i) \<mapsto> v)"
  using assms
proof (induction ent arbitrary: i)
  case (Cons a ent)
  have "j < length ent \<Longrightarrow> ce_name (ent ! j) \<noteq> ce_name a" for j using Cons.prems(1) by (metis distinct.simps(2) image_eqI list.simps(9) nth_mem set_map)
  with Cons show ?case by (cases i) (auto simp: ent_map_def fun_upd_twist)
qed simp

lemma ent_map_nth: "distinct (map ce_name ent) \<Longrightarrow> i < length ent \<Longrightarrow> ent_map ent (ce_name (ent ! i)) = Some (ce_value (ent ! i))"
  unfolding ent_map_def by (intro map_of_is_SomeI) (simp_all add: o_def)

lemma names_update:
  "names (ent[i := (ent ! i)\<lparr>ce_value := v\<rparr>]) slot = names ent slot"
proof -
  have "ce_name (ent[i := (ent ! i)\<lparr>ce_value := v\<rparr>] ! j) = ce_name (ent ! j)" for j
    by (cases "i < length ent"; cases "i = j") (simp_all add: list_update_beyond)
  then show ?thesis by (simp add: names_def)
qed

lemma append_entry_correct:
  assumes inv: "cvr_inv t" and m: "ok_slot m" and st: "storable name value" and new: "name \<notin> dom (table_map t)"
  shows "\<exists>t' ok. append_entry m t name value = Some (t', ok) \<and> cvr_inv t'
    \<and> table_map t' = (if ok then (table_map t)(name \<mapsto> value) else table_map t) \<and> (ok \<longrightarrow> ok_value m)
    \<and> (ok_ent m \<and> ok_name m \<and> ok_value m \<longrightarrow> (ok \<longleftrightarrow> length (ct_ent t) < CVR_MAX_ENTRIES))"
proof -
  obtain r room where r: "(if length (ct_ent t) \<ge> ct_cap t then grow m t else Some (t, True)) = Some (r, room)"
    "cvr_inv r" "ct_ent r = ct_ent t" "room \<longrightarrow> length (ct_ent t) < ct_cap r"
    "ok_ent m \<longrightarrow> (room \<longleftrightarrow> length (ct_ent t) < CVR_MAX_ENTRIES)"
  proof (cases "length (ct_ent t) \<ge> ct_cap t")
    case True
    with grow_correct [OF inv True m] that show ?thesis by auto
  next
    case False
    then show ?thesis using that [of t True] inv by (auto simp: zero_table_def elim!: cvr_inv_cases)
  qed
  show ?thesis
  proof (cases "room \<and> ok_name m \<and> ok_value m")
    case False
    then have "append_entry m t name value = Some (r, False)" using r(1) by (auto simp: append_entry_def)
    with r False show ?thesis by auto
  next
    case True
    let ?e = "\<lparr> ce_name = name, ce_value = value \<rparr>" and ?ent = "ct_ent t"
    have room: "length ?ent < ct_cap r" using r(4) True by blast
    then obtain k where k: "ct_cap r = 2 ^ k" "64 \<le> ct_cap r" "ct_cap r \<le> CVR_MAX_ENTRIES"
      "length (ct_slot r) = ct_cap r * 2" "ents_ok ?ent" and ix: "index_of ?ent (ct_slot r) ?ent"
      using r(2,3) by (elim cvr_inv_cases) (auto simp: zero_table_def)
    have new': "name \<notin> ce_name ` set ?ent" using new by (simp add: dom_ent_map)
    obtain i where i: "find_slot ?ent (ct_slot r) name = Some i" "i < length (ct_slot r)" "ct_slot r ! i = 0"
      "reachable_slot (names ?ent (ct_slot r)) name i"
      using find_slot_free [OF ix _ new'] room k(4) by auto
    let ?t = "r\<lparr>ct_ent := ?ent @ [?e], ct_slot := (ct_slot r)[i := length ?ent + 1]\<rparr>"
    have "names (?ent @ [?e]) (ct_slot r) = names ?ent (ct_slot r)"
      using ix by (intro names_append) (simp add: index_of_def)
    then have "index_of (?ent @ [?e]) ((ct_slot r)[i := length ?ent + 1]) (?ent @ [?e])"
      using index_of_put [OF index_of_append_ent [OF ix, of "[?e]"] i(2,3), of ?e "length ?ent"] i(4) by simp
    moreover have "ents_ok (?ent @ [?e])" using k(5) new' st by (auto simp: ents_ok_def)
    ultimately have "cvr_inv ?t" using k room by (auto simp: cvr_inv_def)
    moreover have "append_entry m t name value = Some (?t, True)"
      using r(1,3) i(1) True by (simp add: append_entry_def)
    ultimately show ?thesis
      using True r(5) ent_map_append [of ?e ?ent] new' by (intro exI [of _ ?t] exI [of _ True]) simp
  qed
qed

lemma put_entry_correct:
  assumes inv: "cvr_inv t" and m: "ok_slot m"
  shows "\<exists>t' ok. put_entry m t name value = Some (t', ok) \<and> cvr_inv t'
    \<and> table_map t' = (if ok then (table_map t)(name \<mapsto> value) else table_map t) \<and> (ok \<longrightarrow> storable name value)
    \<and> (ok_ent m \<and> ok_name m \<and> ok_value m \<longrightarrow>
        (ok \<longleftrightarrow> storable name value \<and> (name \<in> dom (table_map t) \<or> card (dom (table_map t)) < CVR_MAX_ENTRIES)))"
proof (cases "storable name value")
  case False
  with inv show ?thesis by (auto simp: put_entry_def)
next
  case st: True
  note card = card_ent_map [OF cvr_inv_ents [OF inv]]
  show ?thesis
  proof (cases "name \<in> dom (table_map t)")
    case False
    have "ct_slot t \<noteq> [] \<Longrightarrow> \<exists>i. find_slot (ct_ent t) (ct_slot t) name = Some i \<and> ct_slot t ! i = 0"
      using cvr_inv_room [OF inv] False find_slot_free [of "ct_ent t" "ct_slot t" "ct_ent t" name] by (metis dom_ent_map)
    then have "put_entry m t name value = append_entry m t name value"
      using st by (auto simp: put_entry_def)
    with append_entry_correct [OF inv m st False] show ?thesis unfolding card using st False by metis
  next
    case True
    then have ne: "ct_slot t \<noteq> []" using inv by (auto elim!: cvr_inv_cases simp: zero_table_def ent_map_def)
    note room = cvr_inv_room [OF inv ne]
    obtain i where i: "find_slot (ct_ent t) (ct_slot t) name = Some i" "ct_slot t ! i \<noteq> 0"
      "ct_slot t ! i \<le> length (ct_ent t)" "ce_name (ct_ent t ! (ct_slot t ! i - 1)) = name"
      using find_slot_found [of "ct_ent t" "ct_slot t" "ct_ent t" name] room True by (auto simp: dom_ent_map)
    let ?j = "ct_slot t ! i - 1"
    let ?ent = "(ct_ent t)[?j := (ct_ent t ! ?j)\<lparr>ce_value := value\<rparr>]"
    have j: "?j < length (ct_ent t)" using i(2,3) by linarith
    have dist: "distinct (map ce_name (ct_ent t))" using cvr_inv_ents [OF inv] by (simp add: ents_ok_def)
    have nm: "map ce_name ?ent = map ce_name (ct_ent t)" using j by (intro nth_equalityI) (auto simp: nth_list_update)
    then have set_nm: "ce_name ` set ?ent = ce_name ` set (ct_ent t)" by (metis set_map)
    have "list_all (\<lambda>e. storable (ce_name e) (ce_value e)) ?ent"
      using cvr_inv_ents [OF inv] st i(4) j by (auto simp: ents_ok_def list_all_length nth_list_update)
    then have "ents_ok ?ent" using nm dist by (simp add: ents_ok_def)
    moreover have "index_of ?ent (ct_slot t) ?ent" using room unfolding index_of_def names_update set_nm by simp
    ultimately have "cvr_inv (t\<lparr>ct_ent := ?ent\<rparr>)"
      using inv ne by (auto simp: cvr_inv_def zero_table_def)
    moreover have "ent_map ?ent = (table_map t)(name \<mapsto> value)" using ent_map_update [OF dist j] i(4) by simp
    ultimately show ?thesis
      using i st ne True inv by (cases "ok_value m") (auto simp: put_entry_def)
  qed
qed

lemma cvr_get_correct:
  assumes inv: "cvr_inv t"
  shows "cvr_get (Some t) (Some name) = Some (map_option (takeWhile (\<lambda>c. c \<noteq> NUL)) (table_map t name))"
proof (cases "ct_slot t = [] \<or> ct_ent t = []")
  case True
  then have "ct_ent t = []" using inv by (auto elim!: cvr_inv_cases simp: zero_table_def)
  with True show ?thesis by (simp add: ent_map_def)
next
  case False
  then have room: "index_of (ct_ent t) (ct_slot t) (ct_ent t)" "length (ct_ent t) < length (ct_slot t)"
    using cvr_inv_room [OF inv] by auto
  have dist: "distinct (map ce_name (ct_ent t))" using cvr_inv_ents [OF inv] by (simp add: ents_ok_def)
  show ?thesis
  proof (cases "name \<in> ce_name ` set (ct_ent t)")
    case True
    from find_slot_found [OF room this] obtain i where i: "find_slot (ct_ent t) (ct_slot t) name = Some i"
      "ct_slot t ! i \<noteq> 0" "ct_slot t ! i \<le> length (ct_ent t)" "ce_name (ct_ent t ! (ct_slot t ! i - 1)) = name" by blast
    then have "table_map t name = Some (ce_value (ct_ent t ! (ct_slot t ! i - 1)))"
      using ent_map_nth [OF dist, of "ct_slot t ! i - 1"] by auto
    with i(1,2) False show ?thesis by simp
  next
    case n: False
    then have "table_map t name = None" by (metis dom_ent_map domIff)
    moreover obtain i where "find_slot (ct_ent t) (ct_slot t) name = Some i" "ct_slot t ! i = 0"
      using find_slot_free [OF room n] by blast
    ultimately show ?thesis using False by simp
  qed
qed

lemma cvr_inv_reset: "cvr_inv t \<Longrightarrow> cvr_inv (cvr_reset t)"
  by (erule cvr_inv_cases)
    (auto simp: cvr_reset_def zero_table_def cvr_inv_def ents_ok_def list_all_iff intro!: index_of_empty [of _ "Suc k" for k])

section \<open>The table as a bounded map\<close>

text \<open>What the scanner and the resolver rely on: a table operation returns, an accepted pair is in the map
  and a refused one leaves it alone; \<open>fair\<close> are the answers of the allocator under which the provider
  keeps its promises, \<open>full\<close> those under which only the bounds decide.\<close>

locale bounded_map =
  fixes put :: "'m \<Rightarrow> 't \<Rightarrow> string \<Rightarrow> string \<Rightarrow> ('t \<times> bool) option"
    and get :: "'t \<Rightarrow> string \<Rightarrow> cptr option"
    and inv :: "'t \<Rightarrow> bool"
    and abs :: "'t \<Rightarrow> string \<rightharpoonup> string"
    and fair :: "'m \<Rightarrow> bool"
    and full :: "'m \<Rightarrow> bool"
    and accepts :: "(string \<rightharpoonup> string) \<Rightarrow> string \<Rightarrow> string \<Rightarrow> bool"
  assumes put_returns: "inv t \<Longrightarrow> fair m \<Longrightarrow> \<exists>t' ok. put m t n v = Some (t', ok) \<and> inv t'
      \<and> abs t' = (if ok then (abs t)(n \<mapsto> v) else abs t) \<and> (full m \<longrightarrow> (ok \<longleftrightarrow> accepts (abs t) n v))"
    and get_returns: "inv t \<Longrightarrow> get t n = Some (map_option (takeWhile (\<lambda>c. c \<noteq> NUL)) (abs t n))"
    and full_fair: "full m \<Longrightarrow> fair m"
begin

lemma put_full: "inv t \<Longrightarrow> full m \<Longrightarrow> \<exists>t'. put m t n v = Some (t', accepts (abs t) n v) \<and> inv t'
    \<and> abs t' = (if accepts (abs t) n v then (abs t)(n \<mapsto> v) else abs t)"
  using put_returns [of t m n v] full_fair [of m] by fastforce

lemma put_get:
  assumes "inv t" "full m" "accepts (abs t) n v" "cstr v"
  shows "\<exists>t'. put m t n v = Some (t', True) \<and> get t' n = Some (Some v)"
proof -
  have "takeWhile (\<lambda>c. c \<noteq> NUL) v = v" using assms(4) by (auto simp: cstr_def)
  then show ?thesis using put_full [OF assms(1,2), of n v] assms(3) get_returns by fastforce
qed

end

definition index_granted :: "cvr_mem \<Rightarrow> bool" where
  "index_granted m \<longleftrightarrow> ok_slot m"

definition all_granted :: "cvr_mem \<Rightarrow> bool" where
  "all_granted m \<longleftrightarrow> ok_ent m \<and> ok_slot m \<and> ok_name m \<and> ok_value m"

definition map_accepts :: "(string \<rightharpoonup> string) \<Rightarrow> string \<Rightarrow> string \<Rightarrow> bool" where
  "map_accepts m name value \<longleftrightarrow> storable name value \<and> (name \<in> dom m \<or> card (dom m) < CVR_MAX_ENTRIES)"

interpretation cvr: bounded_map put_entry "\<lambda>t n. cvr_get (Some t) (Some n)" cvr_inv table_map index_granted all_granted map_accepts
proof
  show "\<exists>t' ok. put_entry m t n v = Some (t', ok) \<and> cvr_inv t'
      \<and> table_map t' = (if ok then (table_map t)(n \<mapsto> v) else table_map t)
      \<and> (all_granted m \<longrightarrow> (ok \<longleftrightarrow> map_accepts (table_map t) n v))"
    if "cvr_inv t" "index_granted m" for t m n v
    using put_entry_correct [OF that(1), of m n v] that(2) unfolding index_granted_def all_granted_def map_accepts_def by metis
qed (simp_all add: cvr_get_correct all_granted_def index_granted_def del: cvr_get.simps)

subsection \<open>Runs\<close>

datatype cvr_op = OSet cvr_mem string string | OReset | OFree

fun cvr_step :: "cvr_table \<Rightarrow> cvr_op \<Rightarrow> cvr_table option" where
  "cvr_step t (OSet m n v) = map_option fst (put_entry m t n v)"
| "cvr_step t OReset = Some (cvr_reset t)"
| "cvr_step t OFree = Some (cvr_free t)"

fun cvr_run :: "cvr_table \<Rightarrow> cvr_op list \<Rightarrow> cvr_table option" where
  "cvr_run t [] = Some t"
| "cvr_run t (op # ops) = do { t' \<leftarrow> cvr_step t op; cvr_run t' ops }"

fun map_step :: "(string \<rightharpoonup> string) \<Rightarrow> cvr_op \<Rightarrow> string \<rightharpoonup> string" where
  "map_step m (OSet a n v) = (if map_accepts m n v then m(n \<mapsto> v) else m)"
| "map_step m OReset = Map.empty"
| "map_step m OFree = Map.empty"

fun op_granted :: "cvr_op \<Rightarrow> bool" where
  "op_granted (OSet m n v) = all_granted m"
| "op_granted op = True"

lemma cvr_inv_zero [simp]: "cvr_inv zero_table"
  by (simp add: cvr_inv_def)

lemma ent_map_Nil [simp]: "ent_map [] = Map.empty"
  by (simp add: ent_map_def)

lemma cvr_step_map:
  assumes "cvr_inv t" and "op_granted op"
  shows "\<exists>t'. cvr_step t op = Some t' \<and> cvr_inv t' \<and> table_map t' = map_step (table_map t) op"
proof (cases op)
  case (OSet m n v)
  then show ?thesis using cvr.put_full [OF assms(1), of m n v] assms(2) by fastforce
next
  case OReset
  then show ?thesis using cvr_inv_reset [OF assms(1)] by (simp add: cvr_reset_def)
next
  case OFree
  then show ?thesis by (simp add: cvr_free_def) (simp add: zero_table_def)
qed

lemma cvr_run_map:
  "cvr_inv t \<Longrightarrow> list_all op_granted ops \<Longrightarrow>
   \<exists>t'. cvr_run t ops = Some t' \<and> cvr_inv t' \<and> table_map t' = foldl map_step (table_map t) ops"
proof (induction ops arbitrary: t)
  case (Cons op ops)
  then obtain t' where "cvr_step t op = Some t'" "cvr_inv t'" "table_map t' = map_step (table_map t) op"
    using cvr_step_map [of t op] by auto
  then show ?case using Cons.IH [of t'] Cons.prems(2) by simp
qed simp

text \<open>C20: Refinement: while memory lasts, the custom-property table, through growth of the entry array and
  its hash index, resets and frees, is a map from names to values bounded to 65536 names: every run of
  operations returns, the count is the number of names, and a look-up returns the last value stored
  for exactly that name, read as a C string, or NULL.\<close>

theorem cvr_table_refines_map:
  assumes "list_all op_granted ops"
  defines "m \<equiv> foldl map_step Map.empty ops"
  shows "\<exists>t. cvr_run zero_table ops = Some t \<and> cvr_count (Some t) = card (dom m)
    \<and> (\<forall>name. cvr_get (Some t) (Some name) = Some (map_option (takeWhile (\<lambda>c. c \<noteq> NUL)) (m name)))"
proof -
  have "table_map zero_table = Map.empty" by (simp add: zero_table_def)
  then obtain t where t: "cvr_run zero_table ops = Some t" "cvr_inv t" "table_map t = m"
    using cvr_run_map [OF cvr_inv_zero assms(1)] by (auto simp: m_def)
  then have "cvr_count (Some t) = card (dom m)"
    using card_ent_map [OF cvr_inv_ents [OF t(2)]] by (simp add: cvr_count_def)
  with t cvr_get_correct [OF t(2)] show ?thesis by blast
qed

definition granted :: cvr_mem where
  "granted = \<lparr> ok_ent = True, ok_slot = True, ok_name = True, ok_value = True \<rparr>"

lemma cvr_table_refines_map_witness:
  "\<exists>t. cvr_run zero_table [OSet granted ''--a'' ''x'', OReset, OSet granted ''--a'' ''1px'', OSet granted ''--a'' ''2px'']
     = Some t \<and> cvr_count (Some t) = 1 \<and> cvr_get (Some t) (Some ''--a'') = Some (Some ''2px'')"
proof -
  let ?ops = "[OSet granted ''--a'' ''x'', OReset, OSet granted ''--a'' ''1px'', OSet granted ''--a'' ''2px'']"
  have g: "list_all op_granted ?ops" by (simp add: all_granted_def granted_def)
  have m: "foldl map_step Map.empty ?ops = [''--a'' \<mapsto> ''2px'']"
    by (simp add: map_accepts_def storable_def CVR_NAME_MAX_def CVR_VALUE_MAX_def CVR_MAX_ENTRIES_def NUL_def)
  have v: "takeWhile (\<lambda>c. c \<noteq> NUL) ''2px'' = ''2px''" by (simp add: NUL_def)
  from cvr_table_refines_map [OF g] show ?thesis unfolding m
    by (elim exE conjE) (drule spec [of _ "''--a''"], simp del: cvr_run.simps cvr_get.simps takeWhile.simps add: v)
qed

text \<open>C31: Error path: when the request for the index is refused after the entry array was extended,
  \<^verbatim>\<open>grow\<close> reports failure but has already recorded the new capacity. The call that was refused leaves
  the table empty; the next call that would store any property goes through the NULL index and
  does not return.\<close>

theorem cvr_set_after_index_refused:
  assumes "storable name value" and "storable name' value'" and "ok_ent m" and "\<not> ok_slot m" and "all_granted m'"
  shows "\<exists>t. cvr_set m (Some zero_table) (Some name) (Some value) = Some (Some t, False) \<and> cvr_count (Some t) = 0
    \<and> cvr_set m' (Some t) (Some name') (Some value') = None"
proof -
  let ?t = "zero_table\<lparr>ct_cap := 64\<rparr>"
  have "grow m zero_table = Some (?t, False)"
    using assms(3,4) by (simp add: grow_def zero_table_def CVR_MAX_ENTRIES_def)
  then have "put_entry m zero_table name value = Some (?t, False)"
    using assms(1) by (simp add: put_entry_def append_entry_def) (simp add: zero_table_def)
  moreover have "put_entry m' ?t name' value' = None"
    using assms(2,5) by (simp add: put_entry_def append_entry_def all_granted_def zero_table_def find_slot_def)
  ultimately show ?thesis by (intro exI [of _ ?t]) (simp add: cvr_count_def zero_table_def)
qed

lemma cvr_set_after_index_refused_witness:
  "\<exists>t. cvr_set \<lparr> ok_ent = True, ok_slot = False, ok_name = True, ok_value = True \<rparr> (Some zero_table) (Some ''--a'') (Some ''x'')
       = Some (Some t, False) \<and> cvr_count (Some t) = 0
    \<and> cvr_set granted (Some t) (Some ''--b'') (Some ''y'') = None"
  by (rule cvr_set_after_index_refused) (simp_all add: storable_def CVR_NAME_MAX_def CVR_VALUE_MAX_def NUL_def all_granted_def granted_def)

section \<open>Declarations\<close>

definition csel_ident_ch :: "char \<Rightarrow> bool" where
  "csel_ident_ch c \<longleftrightarrow> is_lower c \<or> is_upper c \<or> is_digit c \<or> c = CHR ''_'' \<or> c = CHR ''-''"

definition css_ws :: "char \<Rightarrow> bool" where
  "css_ws c \<longleftrightarrow> c = CHR '' '' \<or> c = CHR 0x09 \<or> c = CHR 0x0A \<or> c = CHR 0x0D"

definition css_rtrim :: "string \<Rightarrow> string" where
  "css_rtrim s = rev (dropWhile css_ws (rev s))"

definition css_trim :: "string \<Rightarrow> string" where
  "css_trim s = css_rtrim (dropWhile css_ws s)"

text \<open>\<^verbatim>\<open>csel_decl_end\<close> with \<^verbatim>\<open>stop_brace\<close>: the parenthesis depth and the open quote after one byte, \<open>None\<close> at
  the byte that ends the declaration; and from a depth and a quote on, what the loop passes over and
  what is left.\<close>

definition decl_char :: "nat \<Rightarrow> char option \<Rightarrow> char \<Rightarrow> (nat \<times> char option) option" where
  "decl_char depth q c =
     (case q of
        Some x \<Rightarrow> Some (depth, if c = x then None else q)
      | None \<Rightarrow>
          if c = CHR 0x22 \<or> c = CHR 0x27 then Some (depth, Some c)
          else if c = CHR ''('' then Some (depth + 1, None)
          else if c = CHR '')'' then Some (if depth > 0 then depth - 1 else depth, None)
          else if depth = 0 \<and> (c = CHR '';'' \<or> c = CHR ''}'') then None
          else Some (depth, None))"

function csel_decl_end :: "nat \<Rightarrow> char option \<Rightarrow> string \<Rightarrow> string \<times> string" where
  "csel_decl_end depth q [] = ([], [])"
| "csel_decl_end depth q (c # s) =
     (if c = CHR 0x5C \<and> s \<noteq> [] then apfst (\<lambda>v. c # hd s # v) (csel_decl_end depth q (tl s))
      else case decl_char depth q c of
        None \<Rightarrow> ([], c # s)
      | Some (depth', q') \<Rightarrow> apfst ((#) c) (csel_decl_end depth' q' s))"
  by pat_completeness auto
termination
  by (relation "measure (\<lambda>(depth, q, s). length s)") auto

text \<open>The text before and after the last exclamation mark, when there is one.\<close>

definition last_bang :: "string \<Rightarrow> (string \<times> string) option" where
  "last_bang s = (if CHR ''!'' \<in> set s
     then Some (rev (tl (dropWhile (\<lambda>c. c \<noteq> CHR ''!'') (rev s))), rev (takeWhile (\<lambda>c. c \<noteq> CHR ''!'') (rev s)))
     else None)"

definition without_important :: "string \<Rightarrow> string" where
  "without_important val =
     (case last_bang val of
        None \<Rightarrow> val
      | Some (a, b) \<Rightarrow>
          if lower_str (dropWhile (\<lambda>c. c = CHR '' '' \<or> c = CHR 0x09) b) = ''important'' then css_rtrim a else val)"

text \<open>A declaration \<open>--ident : value\<close> at the head of the text, where the byte before is \<open>prev\<close>: its name, its
  value, the last byte of it and what follows.\<close>

definition take_decl :: "char option \<Rightarrow> string \<Rightarrow> (string \<times> string \<times> char \<times> string) option" where
  "take_decl prev s =
     (if take 2 s = ''--'' \<and> (case prev of None \<Rightarrow> True | Some p \<Rightarrow> \<not> csel_ident_ch p)
      then let name = ''--'' @ takeWhile csel_ident_ch (drop 2 s);
               k = dropWhile css_ws (dropWhile csel_ident_ch (drop 2 s)) in
           (case k of
              [] \<Rightarrow> None
            | c # v0 \<Rightarrow>
                if c = CHR '':''
                then let (v, rest) = csel_decl_end 0 None v0 in
                     Some (name, without_important (css_trim v), last (c # v), rest)
                else None)
      else None)"

lemma decl_end_append: "fst (csel_decl_end d q s) @ snd (csel_decl_end d q s) = s"
  by (induction d q s rule: csel_decl_end.induct) (auto split: option.split)

lemma take_decl_shorter: "take_decl prev s = Some (n, v, p, rest) \<Longrightarrow> length rest < length s"
proof -
  assume a: "take_decl prev s = Some (n, v, p, rest)"
  let ?k = "dropWhile css_ws (dropWhile csel_ident_ch (drop 2 s))"
  obtain c v0 where k: "?k = c # v0" and rest: "rest = snd (csel_decl_end 0 None v0)"
    using a by (auto simp: take_decl_def Let_def split: if_splits list.splits prod.splits)
  have "length rest \<le> length v0"
    unfolding rest by (metis decl_end_append length_append le_add2)
  also have "\<dots> < length ?k" unfolding k by simp
  also have "\<dots> \<le> length (dropWhile csel_ident_ch (drop 2 s))" by (rule length_dropWhile_le)
  also have "\<dots> \<le> length (drop 2 s)" by (rule length_dropWhile_le)
  also have "\<dots> \<le> length s" by simp
  finally show ?thesis .
qed

text \<open>Answers for the requests of a declaration: by the number of bytes from it to the end of the text.\<close>

function collect_from :: "(nat \<Rightarrow> cvr_mem) \<Rightarrow> cvr_table \<Rightarrow> char option \<Rightarrow> string \<Rightarrow> cvr_table option" where
  "collect_from mem t prev [] = Some t"
| "collect_from mem t prev (c # s) =
     (case take_decl prev (c # s) of
        Some (name, value, p, rest) \<Rightarrow>
          do { (t', _) \<leftarrow> put_entry (mem (length (c # s))) t name value; collect_from mem t' (Some p) rest }
      | None \<Rightarrow> collect_from mem t (Some c) s)"
  by pat_completeness auto
termination
  by (relation "measure (\<lambda>(mem, t, prev, s). length s)") (auto dest: take_decl_shorter)

fun cvr_collect_decls :: "(nat \<Rightarrow> cvr_mem) \<Rightarrow> cvr_table option \<Rightarrow> cptr \<Rightarrow> cvr_table option option" where
  "cvr_collect_decls mem (Some t) (Some s) = map_option Some (collect_from mem t None s)"
| "cvr_collect_decls mem t s = Some t"

subsection \<open>Reading back a declaration block\<close>

text \<open>The scanner always returns a well-formed table, whatever the text.\<close>

lemma collect_from_inv:
  "cvr_inv t \<Longrightarrow> (\<And>i. ok_slot (mem i)) \<Longrightarrow> \<exists>t'. collect_from mem t prev s = Some t' \<and> cvr_inv t'"
proof (induction mem t prev s rule: collect_from.induct)
  case (2 mem t prev c s)
  show ?case
  proof (cases "take_decl prev (c # s)")
    case None
    then show ?thesis using 2 by simp
  next
    case (Some d)
    obtain n v p r where d: "d = (n, v, p, r)" by (cases d)
    obtain t' ok where t': "put_entry (mem (length (c # s))) t n v = Some (t', ok)" "cvr_inv t'"
      using put_entry_correct [OF 2(3,4), of _ n v] by blast
    have "\<exists>t''. collect_from mem t' (Some p) r = Some t'' \<and> cvr_inv t''"
      by (rule 2(2) [OF Some [unfolded d] refl refl refl t'(1) refl t'(2) 2(4)])
    then show ?thesis using Some d t'(1) by simp
  qed
qed simp

text \<open>A value that ends where its declaration does, with nothing to trim and no mark of importance.\<close>

definition closed_value :: "string \<Rightarrow> bool" where
  "closed_value v \<longleftrightarrow> v \<noteq> [] \<and> csel_decl_end 0 None (v @ '';'') = (v, '';'') \<and> css_trim v = v \<and> without_important v = v"

definition print_decl :: "string \<Rightarrow> string \<Rightarrow> bool \<Rightarrow> string" where
  "print_decl name value imp = name @ '': '' @ value @ (if imp then '' !important'' else []) @ '';''"

lemma decl_end_closed:
  "csel_decl_end d q (v @ '';'') = (v, '';'') \<Longrightarrow> csel_decl_end d q (v @ r) = apfst ((@) v) (csel_decl_end 0 None r)"
proof (induction v arbitrary: d q rule: length_induct)
  case (1 v)
  show ?case
  proof (cases v)
    case Nil
    with 1(2) have "d = 0 \<and> q = None" by (auto simp: decl_char_def apfst_def split: option.splits if_splits prod.splits)
    with Nil show ?thesis by (simp add: apfst_def map_prod_def split_def)
  next
    case (Cons c w)
    show ?thesis
    proof (cases "c = CHR 0x5C \<and> w \<noteq> []")
      case True
      then obtain x u where w: "w = x # u" by (cases w) auto
      with 1(2) Cons True have "csel_decl_end d q (u @ '';'') = (u, '';'')"
        by (cases "csel_decl_end d q (u @ '';'')") auto
      with 1(1) Cons w have "csel_decl_end d q (u @ r) = apfst ((@) u) (csel_decl_end 0 None r)" by simp
      with Cons w True show ?thesis by (cases "csel_decl_end 0 None r") simp
    next
      case False
      have nb: "c \<noteq> CHR 0x5C" using 1(2) Cons False by (auto split: if_splits)
      obtain d' q' where dc: "decl_char d q c = Some (d', q')"
        using 1(2) Cons nb by (auto split: option.splits)
      then have "csel_decl_end d' q' (w @ '';'') = (w, '';'')"
        using 1(2) Cons nb by (cases "csel_decl_end d' q' (w @ '';'')") auto
      with 1(1) Cons have "csel_decl_end d' q' (w @ r) = apfst ((@) w) (csel_decl_end 0 None r)" by simp
      with Cons nb dc show ?thesis by (cases "csel_decl_end 0 None r") simp
    qed
  qed
qed

lemma decl_end_print:
  assumes "closed_value v"
  shows "csel_decl_end 0 None ('' '' @ v @ (if imp then '' !important'' else []) @ '';'' @ r)
    = ('' '' @ v @ (if imp then '' !important'' else []), '';'' @ r)"
proof -
  have "csel_decl_end 0 None (v @ (if imp then '' !important'' else []) @ '';'' @ r)
    = (v @ (if imp then '' !important'' else []), '';'' @ r)"
    using decl_end_closed [of 0 None v] assms by (auto simp: closed_value_def decl_char_def)
  then show ?thesis by (simp add: decl_char_def)
qed

lemma css_rtrim_last: "s = [] \<or> \<not> css_ws (last s) \<Longrightarrow> css_rtrim s = s"
  by (cases s rule: rev_cases) (auto simp: css_rtrim_def)

lemma css_rtrim_ws: "css_ws c \<Longrightarrow> css_rtrim (s @ [c]) = css_rtrim s"
  by (simp add: css_rtrim_def)

lemma css_trim_id:
  assumes "css_trim v = v" and "v \<noteq> []"
  shows "\<not> css_ws (hd v)" "\<not> css_ws (last v)"
proof -
  show l: "\<not> css_ws (last v)"
    using assms unfolding css_trim_def css_rtrim_def
    by (metis hd_dropWhile last_rev rev_is_Nil_conv rev_rev_ident)
  have "length v \<le> length (dropWhile css_ws v)"
    using assms(1) unfolding css_trim_def css_rtrim_def by (metis length_dropWhile_le length_rev)
  then show "\<not> css_ws (hd v)" using assms(2) by (metis length_dropWhile_less leD)
qed

lemma trim_print:
  assumes "closed_value v"
  shows "without_important (css_trim ('' '' @ v @ (if imp then '' !important'' else []))) = v"
proof -
  have v: "v \<noteq> []" "css_trim v = v" "without_important v = v" using assms by (auto simp: closed_value_def)
  note ends = css_trim_id [OF v(2,1)]
  have d: "dropWhile css_ws ('' '' @ v @ x) = v @ x" for x
    using ends v(1) by (cases v) (simp_all add: css_ws_def)
  show ?thesis
  proof (cases imp)
    case False
    then show ?thesis using d [of "[]"] ends v by (simp add: css_trim_def css_rtrim_last)
  next
    case True
    have "css_trim ('' '' @ v @ '' !important'') = v @ '' !important''"
      unfolding css_trim_def d by (rule css_rtrim_last) (simp add: css_ws_def)
    moreover have "last_bang (v @ '' !important'') = Some (v @ '' '', ''important'')"
      by (simp add: last_bang_def)
    moreover have "css_rtrim (v @ '' '') = v"
      using css_rtrim_ws [of "CHR '' ''" v] css_rtrim_last ends by (simp add: css_ws_def)
    ultimately show ?thesis using True by (simp add: without_important_def ascii_lower_def ascii_class_defs)
  qed
qed

lemma take_decl_print:
  assumes "name = ''--'' @ nm" "list_all csel_ident_ch nm" "closed_value v" "prev = None \<or> prev = Some CHR '';''"
  shows "take_decl prev (print_decl name v imp @ r)
    = Some (name, v, last (CHR '':'' # '' '' @ v @ (if imp then '' !important'' else [])), '';'' @ r)"
proof -
  let ?w = "'' '' @ v @ (if imp then '' !important'' else []) @ '';'' @ r"
  have nc: "\<not> csel_ident_ch CHR '':''" "\<not> css_ws CHR '':''" by (simp_all add: csel_ident_ch_def ascii_class_defs css_ws_def)
  have p: "case prev of None \<Rightarrow> True | Some p \<Rightarrow> \<not> csel_ident_ch p"
    using assms(4) by (auto simp: csel_ident_ch_def ascii_class_defs)
  have s: "print_decl name v imp @ r = CHR ''-'' # CHR ''-'' # nm @ CHR '':'' # ?w"
    by (simp add: print_decl_def assms(1))
  have k: "takeWhile csel_ident_ch (nm @ CHR '':'' # ?w) = nm" "dropWhile csel_ident_ch (nm @ CHR '':'' # ?w) = CHR '':'' # ?w"
    using assms(2) nc(1) by (simp_all add: list_all_iff takeWhile_append dropWhile_append)
  show ?thesis
    unfolding take_decl_def s using p k nc(2) decl_end_print [OF assms(3), of imp r] trim_print [OF assms(3), of imp] assms(1)
    by (simp add: Let_def)
qed

definition print_decls :: "(string \<times> string \<times> bool) list \<Rightarrow> string" where
  "print_decls ds = concat (map (\<lambda>(n, v, imp). print_decl n v imp) ds)"

definition decl_ok :: "string \<times> string \<times> bool \<Rightarrow> bool" where
  "decl_ok d \<longleftrightarrow> (case d of (n, v, imp) \<Rightarrow> take 2 n = ''--'' \<and> list_all csel_ident_ch n \<and> closed_value v)"

definition decls_map :: "(string \<rightharpoonup> string) \<Rightarrow> (string \<times> string \<times> bool) list \<Rightarrow> string \<rightharpoonup> string" where
  "decls_map m ds = foldl map_step m (map (\<lambda>(n, v, imp). OSet granted n v) ds)"

lemma take_decl_semi: "take_decl prev (CHR '';'' # s) = None"
  by (simp add: take_decl_def)

lemma collect_from_print:
  assumes "cvr_inv t" and "\<And>i. all_granted (mem i)" and "list_all decl_ok ds" and "prev = None \<or> prev = Some CHR '';''"
  shows "\<exists>t'. collect_from mem t prev (print_decls ds) = Some t' \<and> cvr_inv t' \<and> table_map t' = decls_map (table_map t) ds"
  using assms(1,3,4)
proof (induction ds arbitrary: t prev)
  case Nil
  then show ?case by (simp add: print_decls_def decls_map_def)
next
  case (Cons d ds)
  obtain n v imp where d: "d = (n, v, imp)" by (cases d)
  let ?s = "print_decl n v imp @ print_decls ds"
  have nm: "n = ''--'' @ drop 2 n" "list_all csel_ident_ch (drop 2 n)" "closed_value v"
    using Cons.prems(2) d by (auto simp: decl_ok_def list_all_iff dest: in_set_dropD) (metis append_take_drop_id append_Cons append_Nil)
  have s: "print_decls (d # ds) = ?s" by (simp add: print_decls_def d)
  obtain c w where cw: "?s = c # w" by (cases ?s) (auto simp: print_decl_def)
  obtain t' where t': "put_entry (mem (length ?s)) t n v = Some (t', map_accepts (table_map t) n v)" "cvr_inv t'"
    "table_map t' = map_step (table_map t) (OSet granted n v)"
    using cvr.put_full [OF Cons.prems(1) assms(2) [of "length ?s"], of n v] by fastforce
  from Cons.IH [OF t'(2), of "Some CHR '';''"] obtain t'' where
    "collect_from mem t' (Some CHR '';'') (print_decls ds) = Some t''" "cvr_inv t''" "table_map t'' = decls_map (table_map t') ds"
    using Cons.prems(2) by auto
  moreover have "collect_from mem t prev ?s = collect_from mem t' (Some CHR '';'') (print_decls ds)"
    using take_decl_print [OF nm Cons.prems(3), of imp "print_decls ds"] t'(1) unfolding cw
    by (simp add: take_decl_semi)
  ultimately show ?case unfolding s by (simp add: d t'(3) decls_map_def)
qed

text \<open>Round trip: a block of declarations \<open>--name: value;\<close>, each with or without \<^verbatim>\<open>!important\<close>, whose names
  are identifiers and whose values end where their declaration does (separators inside quotes,
  parentheses and escapes included), is read back by the scanner into exactly the map that storing the
  declarations in order gives: the last accepted one wins, trimmed and without its mark of importance.\<close>

theorem cvr_collect_print:
  assumes "list_all decl_ok ds" and "\<And>i. all_granted (mem i)"
  shows "\<exists>t. cvr_collect_decls mem (Some zero_table) (Some (print_decls ds)) = Some (Some t)
    \<and> (\<forall>n. cvr_get (Some t) (Some n) = Some (map_option (takeWhile (\<lambda>c. c \<noteq> NUL)) (decls_map Map.empty ds n)))"
proof -
  obtain t where t: "collect_from mem zero_table None (print_decls ds) = Some t" "cvr_inv t"
    "table_map t = decls_map (table_map zero_table) ds"
    using collect_from_print [of zero_table mem ds None] assms by auto
  have "table_map t = decls_map Map.empty ds" using t(3) by (simp add: zero_table_def)
  then show ?thesis using t(1) cvr.get_returns [OF t(2)] by simp
qed

lemma cvr_collect_print_witness:
  "\<exists>t. cvr_collect_decls (\<lambda>i. granted) (Some zero_table) (Some ''--a: red !important;--i: url(a;b);--a: 2px;'') = Some (Some t)
    \<and> cvr_get (Some t) (Some ''--i'') = Some (Some ''url(a;b)'') \<and> cvr_get (Some t) (Some ''--a'') = Some (Some ''2px'')"
proof -
  let ?ds = "[(''--a'', ''red'', True), (''--i'', ''url(a;b)'', False), (''--a'', ''2px'', False)]"
  have ok: "list_all decl_ok ?ds" by code_simp
  have p: "print_decls ?ds = ''--a: red !important;--i: url(a;b);--a: 2px;''" by code_simp
  have st: "storable ''--a'' ''red''" "storable ''--i'' ''url(a;b)''" "storable ''--a'' ''2px''" by code_simp+
  have m: "decls_map Map.empty ?ds = [''--a'' \<mapsto> ''2px'', ''--i'' \<mapsto> ''url(a;b)'']"
    using st by (simp add: decls_map_def map_accepts_def CVR_MAX_ENTRIES_def fun_upd_twist)
  have g: "\<And>i. all_granted ((\<lambda>i :: nat. granted) i)" by (simp add: all_granted_def granted_def)
  have v: "takeWhile (\<lambda>c. c \<noteq> NUL) ''url(a;b)'' = ''url(a;b)''" "takeWhile (\<lambda>c. c \<noteq> NUL) ''2px'' = ''2px''" by (simp_all add: NUL_def)
  from cvr_collect_print [OF ok g] obtain t where t: "cvr_collect_decls (\<lambda>i. granted) (Some zero_table) (Some (print_decls ?ds)) = Some (Some t)"
    "\<And>n. cvr_get (Some t) (Some n) = Some (map_option (takeWhile (\<lambda>c. c \<noteq> NUL)) ([''--a'' \<mapsto> ''2px'', ''--i'' \<mapsto> ''url(a;b)''] n))"
    unfolding m by blast
  show ?thesis
    by (rule exI [of _ t]) (use t(1) in \<open>simp del: cvr_collect_decls.simps cvr_get.simps takeWhile.simps add: p t(2) v\<close>)
qed

end
