(* ===== verification/Css_Subst.thy ===== *)
theory Css_Subst
  imports Css_Vars
begin

text \<open>
  The second half of \<^verbatim>\<open>src/css_vars.c\<close>: the scope a value is resolved in and the bounded substitution of \<^verbatim>\<open>var()\<close>
  and \<^verbatim>\<open>env()\<close>. The locale \<open>scope_lookup\<close> is what the resolver relies on, interpreted on the scopes of well-formed
  tables. An inductive relation gives the substitution of CSS Variables 1 without bounds; the resolver is
  proved to compute it where its bounds allow, and to return, within its buffer and within a bound on its
  work, on every input.
\<close>

definition CVR_MAX_DEPTH :: nat where
  "CVR_MAX_DEPTH = 32"

definition CVR_MAX_LOOKUPS :: int where
  "CVR_MAX_LOOKUPS = 1024"

definition CVR_CHAIN_MAX :: nat where
  "CVR_CHAIN_MAX = 256"

section \<open>Model\<close>

text \<open>The inherited chain is the list of the tables of its nodes, nearest first.\<close>

record cvr_scope =
  sc_first :: "cvr_table option"
  sc_second :: "cvr_table option"
  sc_chain :: "cvr_table option list"
  sc_initial :: "cvr_table option"

fun chain_get :: "nat \<Rightarrow> cvr_table option list \<Rightarrow> string \<Rightarrow> cptr option" where
  "chain_get hops [] name = Some None"
| "chain_get hops (own # parent) name =
     (if hops < CVR_CHAIN_MAX
      then do { v \<leftarrow> cvr_get own (Some name);
                case v of Some x \<Rightarrow> Some (Some x) | None \<Rightarrow> chain_get (hops + 1) parent name }
      else Some None)"

fun scope_get :: "cvr_scope option \<Rightarrow> string \<Rightarrow> cptr option" where
  "scope_get None name = Some None"
| "scope_get (Some sc) name =
     do { v \<leftarrow> cvr_get (sc_first sc) (Some name);
          case v of Some x \<Rightarrow> Some (Some x) | None \<Rightarrow>
          do { v \<leftarrow> chain_get 0 (sc_chain sc) name;
               case v of Some x \<Rightarrow> Some (Some x) | None \<Rightarrow>
               do { v \<leftarrow> cvr_get (sc_second sc) (Some name);
                    case v of Some x \<Rightarrow> Some (Some x) | None \<Rightarrow> cvr_get (sc_initial sc) (Some name) } } }"

definition cvr_lookup :: "cvr_scope option \<Rightarrow> cptr \<Rightarrow> cptr option" where
  "cvr_lookup sc name = (case name of None \<Rightarrow> Some None | Some n \<Rightarrow> scope_get sc n)"

definition env_value :: "string \<Rightarrow> cptr" where
  "env_value name =
     (if list_ex (\<lambda>p. length name > length p \<and> ci_prefix name p)
           [''safe-area-inset-'', ''safe-area-max-inset-'', ''keyboard-inset-'']
      then Some ''0px'' else None)"

text \<open>The text up to the parenthesis that closes an argument list, and what follows it.\<close>

fun close_paren :: "nat \<Rightarrow> string \<Rightarrow> (string \<times> string) option" where
  "close_paren pdepth [] = None"
| "close_paren pdepth (c # s) =
     (if c = CHR ''('' then map_option (apfst ((#) c)) (close_paren (pdepth + 1) s)
      else if c = CHR '')''
      then (if pdepth - 1 = 0 then Some ([], s) else map_option (apfst ((#) c)) (close_paren (pdepth - 1) s))
      else map_option (apfst ((#) c)) (close_paren pdepth s))"

text \<open>The argument list cut at its first top-level comma.\<close>

fun top_comma :: "int \<Rightarrow> string \<Rightarrow> string \<times> string option" where
  "top_comma cd [] = ([], None)"
| "top_comma cd (c # s) =
     (if c = CHR ''('' then apfst ((#) c) (top_comma (cd + 1) s)
      else if c = CHR '')'' then apfst ((#) c) (top_comma (cd - 1) s)
      else if c = CHR '','' \<and> cd = 0 then ([], Some s)
      else apfst ((#) c) (top_comma cd s))"

text \<open>The name, the fallback when there is one, and the text after the reference, from the byte after its
  opening parenthesis on.\<close>

definition split_call :: "string \<Rightarrow> (string \<times> string option \<times> string) option" where
  "split_call s =
     (case close_paren 1 s of
        None \<Rightarrow> None
      | Some (args, rest) \<Rightarrow>
          Some (css_trim (fst (top_comma 0 args)), map_option css_trim (snd (top_comma 0 args)), rest))"

definition at_env :: "char option \<Rightarrow> string \<Rightarrow> bool" where
  "at_env prev s \<longleftrightarrow> ci_prefix s ''env('' \<and> (case prev of None \<Rightarrow> True | Some p \<Rightarrow> \<not> csel_ident_ch p)"

definition at_var :: "string \<Rightarrow> bool" where
  "at_var s \<longleftrightarrow> ci_prefix s ''var(''"

definition custom_name :: "string \<Rightarrow> bool" where
  "custom_name n \<longleftrightarrow> \<not> length n < 3 \<and> take 2 n = ''--''"

lemma close_paren_length: "close_paren d s = Some (a, r) \<Longrightarrow> length a + length r < length s"
  by (induction d s arbitrary: a r rule: close_paren.induct) (auto split: if_splits)

lemma top_comma_length:
  "length (fst (top_comma cd s)) \<le> length s" "snd (top_comma cd s) = Some f \<Longrightarrow> length f < length s"
  by (induction cd s rule: top_comma.induct) (auto split: if_splits)

lemma css_trim_length: "length (css_trim s) \<le> length s"
  unfolding css_trim_def css_rtrim_def by (metis length_dropWhile_le length_rev order_trans)

lemma split_call_length:
  assumes "split_call s = Some (n, f, r)"
  shows "length r < length s" "f = Some u \<Longrightarrow> length u < length s"
proof -
  obtain a where a: "close_paren 1 s = Some (a, r)" "f = map_option css_trim (snd (top_comma 0 a))"
    using assms by (auto simp: split_call_def split: option.splits)
  then have l: "length a + length r < length s" by (auto dest: close_paren_length)
  then show "length r < length s" by simp
  assume "f = Some u"
  then obtain g where "snd (top_comma 0 a) = Some g" "u = css_trim g" using a(2) by auto
  then show "length u < length s" using top_comma_length(2) [of 0 a g] css_trim_length [of g] l by simp
qed

text \<open>
  The loop of \<^verbatim>\<open>resolve_rec\<close> at one position: \<open>prev\<close> is the byte before it, if any, and \<open>val\<close> the text from it
  on; \<open>out\<close> is what has been written so far. The outcome is the written text, or \<open>None\<close> where the source
  returns 0, with the budget that is left; on a failure below a reference the source rewinds the output to
  its length before it, which is \<open>out\<close>.
\<close>

function resolve_rec :: "(string \<Rightarrow> cptr option) \<Rightarrow> nat \<Rightarrow> nat \<Rightarrow> char option \<Rightarrow> string \<Rightarrow> string \<Rightarrow> int
    \<Rightarrow> (string option \<times> int) option" where
  "resolve_rec look outcap depth prev [] out budget = Some (Some out, budget)"
| "resolve_rec look outcap depth prev (c # s) out budget =
     (if at_env prev (c # s) then
        (case split_call (drop 4 (c # s)) of
           None \<Rightarrow> Some (None, budget)
         | Some (name, fallback, rest) \<Rightarrow>
             if depth \<ge> CVR_MAX_DEPTH then Some (None, budget)
             else if budget - 1 < 0 then Some (None, budget - 1)
             else (case (case env_value name of Some v \<Rightarrow> Some v | None \<Rightarrow> fallback) of
                 None \<Rightarrow> Some (None, budget - 1)
               | Some v \<Rightarrow>
                   do { (r, b) \<leftarrow> resolve_rec look outcap (depth + 1) None v out (budget - 1);
                        case r of
                          None \<Rightarrow> Some (None, b)
                        | Some out' \<Rightarrow> resolve_rec look outcap depth (Some CHR '')'') rest out' b }))
      else if at_var (c # s) then
        (case split_call (drop 4 (c # s)) of
           None \<Rightarrow> Some (None, budget)
         | Some (name, fallback, rest) \<Rightarrow>
             if \<not> custom_name name then Some (None, budget)
             else if depth \<ge> CVR_MAX_DEPTH then Some (None, budget)
             else if budget - 1 < 0 then Some (None, budget - 1)
             else do { hit \<leftarrow> look name;
                       (r, b) \<leftarrow> (case hit of
                           None \<Rightarrow> Some (None, budget - 1)
                         | Some v \<Rightarrow> resolve_rec look outcap (depth + 1) None v out (budget - 1));
                       case r of
                         Some out' \<Rightarrow> resolve_rec look outcap depth (Some CHR '')'') rest out' b
                       | None \<Rightarrow>
                           if b < 0 then Some (None, b)
                           else (case fallback of
                               None \<Rightarrow> Some (None, b)
                             | Some v \<Rightarrow>
                                 do { (r, b) \<leftarrow> resolve_rec look outcap (depth + 1) None v out b;
                                      case r of
                                        None \<Rightarrow> Some (None, b)
                                      | Some out' \<Rightarrow> resolve_rec look outcap depth (Some CHR '')'') rest out' b }) })
      else if length out + 1 \<ge> outcap then Some (None, budget)
      else resolve_rec look outcap depth (Some c) s (out @ [c]) budget)"
  by pat_completeness auto
termination
  by (relation "measures [\<lambda>(look, outcap, depth, prev, val, out, budget). CVR_MAX_DEPTH - depth,
        \<lambda>(look, outcap, depth, prev, val, out, budget). length val]")
    (auto dest!: split_call_length(1))

fun cvr_resolve :: "cptr \<Rightarrow> cbuf \<Rightarrow> cvr_scope option \<Rightarrow> cptr option" where
  "cvr_resolve (Some val) (Some outcap) sc =
     (if outcap = 0 then Some None
      else map_option fst (resolve_rec (scope_get sc) outcap 0 None val [] CVR_MAX_LOOKUPS))"
| "cvr_resolve val out sc = Some None"

declare resolve_rec.simps(2) [simp del]

section \<open>Scopes\<close>

text \<open>What the resolver relies on: a look-up in a scope returns what the scope holds for the name.\<close>

locale scope_lookup =
  fixes look :: "'s \<Rightarrow> string \<Rightarrow> cptr option"
    and inv :: "'s \<Rightarrow> bool"
    and holds :: "'s \<Rightarrow> string \<rightharpoonup> string"
    and bound :: nat
  assumes look_returns: "inv s \<Longrightarrow> look s n = Some (holds s n)"
    and holds_bound: "inv s \<Longrightarrow> holds s n = Some v \<Longrightarrow> length v < bound \<and> cstr v"
begin

lemma look_pure: "inv s \<Longrightarrow> look s = (\<lambda>n. Some (holds s n))"
  by (rule ext) (rule look_returns)

end

definition ptr_inv :: "cvr_table option \<Rightarrow> bool" where
  "ptr_inv t \<longleftrightarrow> (case t of None \<Rightarrow> True | Some t \<Rightarrow> cvr_inv t)"

definition ptr_map :: "cvr_table option \<Rightarrow> string \<rightharpoonup> string" where
  "ptr_map t = (case t of None \<Rightarrow> Map.empty
     | Some t \<Rightarrow> (\<lambda>n. map_option (takeWhile (\<lambda>c. c \<noteq> NUL)) (table_map t n)))"

definition scope_inv :: "cvr_scope option \<Rightarrow> bool" where
  "scope_inv sc \<longleftrightarrow> (case sc of None \<Rightarrow> True
     | Some sc \<Rightarrow> list_all ptr_inv (sc_first sc # sc_second sc # sc_initial sc # sc_chain sc))"

text \<open>The maps of a scope in the order of precedence, least first; nodes of the chain beyond the bound do
  not count.\<close>

definition scope_map :: "cvr_scope option \<Rightarrow> string \<rightharpoonup> string" where
  "scope_map sc = (case sc of None \<Rightarrow> Map.empty
     | Some sc \<Rightarrow> ptr_map (sc_initial sc) ++ ptr_map (sc_second sc)
         ++ foldr (\<lambda>t m. m ++ ptr_map t) (take CVR_CHAIN_MAX (sc_chain sc)) Map.empty ++ ptr_map (sc_first sc))"

lemma cvr_get_ptr: "ptr_inv t \<Longrightarrow> cvr_get t (Some n) = Some (ptr_map t n)"
  by (cases t) (simp_all add: ptr_inv_def ptr_map_def cvr_get_correct del: cvr_get.simps(1))

lemma chain_get_map:
  "list_all ptr_inv ts \<Longrightarrow>
   chain_get h ts n = Some (foldr (\<lambda>t m. m ++ ptr_map t) (take (CVR_CHAIN_MAX - h) ts) Map.empty n)"
proof (induction ts arbitrary: h)
  case (Cons t ts)
  then have "cvr_get t (Some n) = Some (ptr_map t n)"
    "chain_get (Suc h) ts n = Some (foldr (\<lambda>t m. m ++ ptr_map t) (take (CVR_CHAIN_MAX - Suc h) ts) Map.empty n)"
    by (simp_all add: cvr_get_ptr)
  moreover have "h < CVR_CHAIN_MAX \<Longrightarrow> CVR_CHAIN_MAX - h = Suc (CVR_CHAIN_MAX - Suc h)" by simp
  ultimately show ?case by (auto simp: map_add_def split: option.split)
qed simp

lemma scope_get_map: "scope_inv sc \<Longrightarrow> scope_get sc n = Some (scope_map sc n)"
proof (cases sc)
  case (Some s)
  assume "scope_inv sc"
  then have "ptr_inv (sc_first s)" "ptr_inv (sc_second s)" "ptr_inv (sc_initial s)" "list_all ptr_inv (sc_chain s)"
    by (auto simp: scope_inv_def Some)
  then show ?thesis
    by (auto simp: Some cvr_get_ptr chain_get_map scope_map_def map_add_def split: option.split)
qed (simp add: scope_map_def)

lemma ptr_map_bound: "ptr_inv t \<Longrightarrow> ptr_map t n = Some v \<Longrightarrow> length v < CVR_VALUE_MAX \<and> cstr v"
proof (cases t)
  case (Some u)
  assume "ptr_inv t" "ptr_map t n = Some v"
  then obtain w where w: "table_map u n = Some w" "v = takeWhile (\<lambda>c. c \<noteq> NUL) w" and "cvr_inv u"
    by (auto simp: Some ptr_map_def ptr_inv_def)
  then obtain e where "e \<in> set (ct_ent u)" "ce_value e = w"
    by (auto simp: ent_map_def dest!: map_of_SomeD)
  then have "length w < CVR_VALUE_MAX"
    using cvr_inv_ents [OF \<open>cvr_inv u\<close>] by (auto simp: ents_ok_def list_all_iff storable_def)
  then show ?thesis
    using w(2) length_takeWhile_le [of "\<lambda>c. c \<noteq> NUL" w] by (auto simp: cstr_def dest: set_takeWhileD)
qed (simp add: ptr_map_def)

lemma foldr_map_Some:
  "foldr (\<lambda>t m. m ++ ptr_map t) ts Map.empty n = Some v \<Longrightarrow> \<exists>t \<in> set ts. ptr_map t n = Some v"
  by (induction ts) (auto simp: map_add_Some_iff)

lemma scope_map_bound:
  assumes "scope_inv sc" and "scope_map sc n = Some v"
  shows "length v < CVR_VALUE_MAX \<and> cstr v"
proof -
  obtain s where s: "sc = Some s" using assms(2) by (cases sc) (auto simp: scope_map_def)
  have "\<exists>t. ptr_inv t \<and> ptr_map t n = Some v"
    using assms by (auto simp: s scope_map_def scope_inv_def list_all_iff map_add_Some_iff dest!: foldr_map_Some in_set_takeD)
  then show ?thesis using ptr_map_bound by blast
qed

interpretation sl: scope_lookup scope_get scope_inv scope_map CVR_VALUE_MAX
  by unfold_locales (simp_all add: scope_get_map scope_map_bound)

section \<open>Reference semantics\<close>

text \<open>
  Substitution as CSS Variables 1 defines it, with no bound on the output and none on the work:
  \<open>subst f n prev s r k w\<close> says that the text \<open>s\<close> after the byte \<open>prev\<close>, in a scope that holds \<open>f\<close>, substitutes to \<open>r\<close>
  (\<open>None\<close>: invalid at computed-value time) with references nested at most \<open>n\<close> deep, \<open>k\<close> references looked up, and
  at most \<open>w\<close> bytes written at any time, those of abandoned values included. A reference whose name is
  absent or whose value is invalid takes its fallback. A value that refers to itself has no derivation.
\<close>

inductive subst :: "(string \<rightharpoonup> string) \<Rightarrow> nat \<Rightarrow> char option \<Rightarrow> string \<Rightarrow> string option \<Rightarrow> nat \<Rightarrow> nat \<Rightarrow> bool"
  for f where
  end_of_value: "subst f n prev [] (Some []) 0 0"
| plain: "\<lbrakk>\<not> at_env prev (c # s); \<not> at_var (c # s); subst f n (Some c) s r k w\<rbrakk>
    \<Longrightarrow> subst f n prev (c # s) (map_option ((#) c) r) k (Suc w)"
| env_malformed: "\<lbrakk>at_env prev s; split_call (drop 4 s) = None\<rbrakk> \<Longrightarrow> subst f n prev s None 0 0"
| env_unknown: "\<lbrakk>at_env prev s; split_call (drop 4 s) = Some (name, None, rest); env_value name = None\<rbrakk>
    \<Longrightarrow> subst f (Suc n) prev s None 1 0"
| env_invalid: "\<lbrakk>at_env prev s; split_call (drop 4 s) = Some (name, fb, rest);
      (case env_value name of Some v \<Rightarrow> Some v | None \<Rightarrow> fb) = Some v; subst f n None v None k w\<rbrakk>
    \<Longrightarrow> subst f (Suc n) prev s None (Suc k) w"
| env_known: "\<lbrakk>at_env prev s; split_call (drop 4 s) = Some (name, fb, rest);
      (case env_value name of Some v \<Rightarrow> Some v | None \<Rightarrow> fb) = Some v; subst f n None v (Some t) k w;
      subst f (Suc n) (Some CHR '')'') rest r k' w'\<rbrakk>
    \<Longrightarrow> subst f (Suc n) prev s (map_option ((@) t) r) (Suc (k + k')) (max w (length t + w'))"
| var_malformed: "\<lbrakk>\<not> at_env prev s; at_var s; split_call (drop 4 s) = None\<rbrakk> \<Longrightarrow> subst f n prev s None 0 0"
| var_unnamed: "\<lbrakk>\<not> at_env prev s; at_var s; split_call (drop 4 s) = Some (name, fb, rest); \<not> custom_name name\<rbrakk>
    \<Longrightarrow> subst f n prev s None 0 0"
| var_value: "\<lbrakk>\<not> at_env prev s; at_var s; split_call (drop 4 s) = Some (name, fb, rest); custom_name name;
      f name = Some v; subst f n None v (Some t) k w; subst f (Suc n) (Some CHR '')'') rest r k' w'\<rbrakk>
    \<Longrightarrow> subst f (Suc n) prev s (map_option ((@) t) r) (Suc (k + k')) (max w (length t + w'))"
| var_absent: "\<lbrakk>\<not> at_env prev s; at_var s; split_call (drop 4 s) = Some (name, None, rest); custom_name name; f name = None\<rbrakk>
    \<Longrightarrow> subst f (Suc n) prev s None 1 0"
| var_invalid: "\<lbrakk>\<not> at_env prev s; at_var s; split_call (drop 4 s) = Some (name, None, rest); custom_name name;
      f name = Some v; subst f n None v None k w\<rbrakk>
    \<Longrightarrow> subst f (Suc n) prev s None (Suc k) w"
| var_fallback_invalid: "\<lbrakk>\<not> at_env prev s; at_var s; split_call (drop 4 s) = Some (name, Some fb, rest); custom_name name;
      f name = None \<and> k = 0 \<and> w = 0 \<or> (\<exists>v. f name = Some v \<and> subst f n None v None k w);
      subst f n None fb None k' w'\<rbrakk>
    \<Longrightarrow> subst f (Suc n) prev s None (Suc (k + k')) (max w w')"
| var_fallback: "\<lbrakk>\<not> at_env prev s; at_var s; split_call (drop 4 s) = Some (name, Some fb, rest); custom_name name;
      f name = None \<and> k = 0 \<and> w = 0 \<or> (\<exists>v. f name = Some v \<and> subst f n None v None k w);
      subst f n None fb (Some t) k' w'; subst f (Suc n) (Some CHR '')'') rest r k'' w''\<rbrakk>
    \<Longrightarrow> subst f (Suc n) prev s (map_option ((@) t) r) (Suc (k + k' + k'')) (max (max w w') (length t + w''))"

lemma no_call: "CHR ''('' \<notin> set s \<Longrightarrow> \<not> at_env p s \<and> \<not> at_var s"
proof -
  have p: "ascii_lower c = CHR ''('' \<longleftrightarrow> c = CHR ''(''" for c
    by (rule ascii_lower_eq_nonletter) (simp add: ascii_class_defs)
  have "CHR ''('' \<in> set s" if "ci_prefix s (kw @ ''('')" for kw
  proof -
    have "ascii_lower CHR ''('' \<in> set (lower_str s)" using that
      unfolding ci_prefix_iff prefix_def by (elim exE) (simp only: map_append list.map append_assoc set_append list.set, blast)
    then obtain c where "c \<in> set s" "ascii_lower c = ascii_lower CHR ''(''" by (metis imageE set_map)
    then show ?thesis using p [of c] p [of "CHR ''(''"] by metis
  qed
  from this [of "''env''"] this [of "''var''"] show "CHR ''('' \<notin> set s \<Longrightarrow> ?thesis"
    by (auto simp: at_env_def at_var_def)
qed

text \<open>The loop at each kind of position.\<close>

lemma at_call_Cons: "at_env prev s \<Longrightarrow> \<exists>c t. s = c # t" "at_var s \<Longrightarrow> \<exists>c t. s = c # t"
  by (cases s; simp add: at_env_def at_var_def)+

lemma resolve_plain:
  "\<not> at_env prev (c # s) \<Longrightarrow> \<not> at_var (c # s) \<Longrightarrow> resolve_rec look outcap depth prev (c # s) out budget =
     (if length out + 1 \<ge> outcap then Some (None, budget)
      else resolve_rec look outcap depth (Some c) s (out @ [c]) budget)"
  by (simp add: resolve_rec.simps(2))

lemma resolve_env:
  assumes "at_env prev s"
  shows "resolve_rec look outcap depth prev s out budget =
    (case split_call (drop 4 s) of
       None \<Rightarrow> Some (None, budget)
     | Some (name, fallback, rest) \<Rightarrow>
         if depth \<ge> CVR_MAX_DEPTH then Some (None, budget)
         else if budget - 1 < 0 then Some (None, budget - 1)
         else (case (case env_value name of Some v \<Rightarrow> Some v | None \<Rightarrow> fallback) of
             None \<Rightarrow> Some (None, budget - 1)
           | Some v \<Rightarrow>
               do { (r, b) \<leftarrow> resolve_rec look outcap (depth + 1) None v out (budget - 1);
                    case r of
                      None \<Rightarrow> Some (None, b)
                    | Some out' \<Rightarrow> resolve_rec look outcap depth (Some CHR '')'') rest out' b }))"
proof -
  obtain c t where "s = c # t" using at_call_Cons(1) [OF assms] by blast
  then show ?thesis using assms by (simp only: resolve_rec.simps(2) if_True)
qed

lemma resolve_var:
  assumes "\<not> at_env prev s" and "at_var s"
  shows "resolve_rec (\<lambda>x. Some (f x)) outcap depth prev s out budget =
    (case split_call (drop 4 s) of
       None \<Rightarrow> Some (None, budget)
     | Some (name, fallback, rest) \<Rightarrow>
         if \<not> custom_name name then Some (None, budget)
         else if depth \<ge> CVR_MAX_DEPTH then Some (None, budget)
         else if budget - 1 < 0 then Some (None, budget - 1)
         else do { (r, b) \<leftarrow> (case f name of
                       None \<Rightarrow> Some (None, budget - 1)
                     | Some v \<Rightarrow> resolve_rec (\<lambda>x. Some (f x)) outcap (depth + 1) None v out (budget - 1));
                   case r of
                     Some out' \<Rightarrow> resolve_rec (\<lambda>x. Some (f x)) outcap depth (Some CHR '')'') rest out' b
                   | None \<Rightarrow>
                       if b < 0 then Some (None, b)
                       else (case fallback of
                           None \<Rightarrow> Some (None, b)
                         | Some v \<Rightarrow>
                             do { (r, b) \<leftarrow> resolve_rec (\<lambda>x. Some (f x)) outcap (depth + 1) None v out b;
                                  case r of
                                    None \<Rightarrow> Some (None, b)
                                  | Some out' \<Rightarrow> resolve_rec (\<lambda>x. Some (f x)) outcap depth (Some CHR '')'') rest out' b }) })"
proof -
  obtain c t where "s = c # t" using at_call_Cons(2) [OF assms(2)] by blast
  then show ?thesis using assms by (simp only: resolve_rec.simps(2) if_True if_False Option.bind.bind_lunit)
qed

text \<open>The outcome of a position whose substitution is \<open>r\<close> after \<open>k\<close> look-ups.\<close>

definition outcome :: "string \<Rightarrow> int \<Rightarrow> string option \<Rightarrow> nat \<Rightarrow> string option \<times> int" where
  "outcome out b r k = (if int k \<le> b then (map_option ((@) out) r, b - int k) else (None, -1))"

lemma outcome_append: "int k \<le> b \<Longrightarrow> outcome (out @ t) (b - int k) r k' = outcome out b (map_option ((@) t) r) (k + k')"
  by (cases r) (simp_all add: outcome_def)

lemma outcome_Cons: "outcome (out @ [c]) b r k = outcome out b (map_option ((#) c) r) k"
  by (cases r) (simp_all add: outcome_def)

lemma outcome_spent: "b < int k \<Longrightarrow> outcome out b r k = (None, -1)"
  by (simp add: outcome_def)

lemma outcome_left: "int k \<le> b \<Longrightarrow> outcome out b (Some t) k = (Some (out @ t), b - int k)"
  by (simp add: outcome_def)

lemma outcome_invalid: "int k \<le> b \<Longrightarrow> outcome out b None k = (None, b - int k)"
  by (simp add: outcome_def)

lemmas outcome_cases = outcome_spent outcome_left outcome_invalid

lemma resolve_rec_subst:
  assumes "subst f n prev s r k w" and "n + depth \<le> CVR_MAX_DEPTH" and "length out + w < outcap" and "0 \<le> b"
  shows "resolve_rec (\<lambda>x. Some (f x)) outcap depth prev s out b = Some (outcome out b r k)"
  using assms
proof (induction arbitrary: depth out b rule: subst.induct)
  case (plain prev c s n r k w)
  then show ?case by (simp add: resolve_plain outcome_Cons)
next
  case (env_invalid prev s name fb rest v n k w)
  have "1 \<le> b \<Longrightarrow> resolve_rec (\<lambda>x. Some (f x)) outcap (depth + 1) None v out (b - 1) = Some (outcome out (b - 1) None k)"
    using env_invalid by simp
  with env_invalid(1-3) env_invalid.prems show ?case by (auto simp: resolve_env outcome_def)
next
  case (env_known prev s name fb rest v n t k w r k' w')
  have 1: "1 \<le> b \<Longrightarrow> resolve_rec (\<lambda>x. Some (f x)) outcap (depth + 1) None v out (b - 1) = Some (outcome out (b - 1) (Some t) k)"
    using env_known by simp
  have 2: "int k \<le> b - 1 \<Longrightarrow> resolve_rec (\<lambda>x. Some (f x)) outcap depth (Some CHR '')'') rest (out @ t) (b - 1 - int k)
      = Some (outcome out b (map_option ((@) t) r) (Suc (k + k')))"
    using env_known outcome_append [of "Suc k" b out t r k'] by (simp add: algebra_simps)
  show ?case
    by (cases "b < 1"; cases "int k \<le> b - 1") (use 1 2 env_known(1-3) env_known.prems in \<open>simp_all add: resolve_env outcome_cases\<close>)
next
  case (var_value prev s name fb rest v n t k w r k' w')
  have 1: "1 \<le> b \<Longrightarrow> resolve_rec (\<lambda>x. Some (f x)) outcap (depth + 1) None v out (b - 1) = Some (outcome out (b - 1) (Some t) k)"
    using var_value by simp
  have 2: "int k \<le> b - 1 \<Longrightarrow> resolve_rec (\<lambda>x. Some (f x)) outcap depth (Some CHR '')'') rest (out @ t) (b - 1 - int k)
      = Some (outcome out b (map_option ((@) t) r) (Suc (k + k')))"
    using var_value outcome_append [of "Suc k" b out t r k'] by (simp add: algebra_simps)
  show ?case
    by (cases "b < 1"; cases "int k \<le> b - 1") (use 1 2 var_value(1-5) var_value.prems in \<open>simp_all add: resolve_var outcome_cases\<close>)
next
  case (var_invalid prev s name rest v n k w)
  have "1 \<le> b \<Longrightarrow> resolve_rec (\<lambda>x. Some (f x)) outcap (depth + 1) None v out (b - 1) = Some (outcome out (b - 1) None k)"
    using var_invalid by simp
  with var_invalid(1-5) var_invalid.prems show ?case by (auto simp: resolve_var outcome_def)
next
  case (var_fallback_invalid prev s name fb rest k w n k' w')
  have 1: "1 \<le> b \<Longrightarrow> (case f name of None \<Rightarrow> Some (None, b - 1)
      | Some v \<Rightarrow> resolve_rec (\<lambda>x. Some (f x)) outcap (depth + 1) None v out (b - 1)) = Some (outcome out (b - 1) None k)"
    using var_fallback_invalid by (auto simp: outcome_def)
  have 2: "int k \<le> b - 1 \<Longrightarrow> resolve_rec (\<lambda>x. Some (f x)) outcap (depth + 1) None fb out (b - 1 - int k)
      = Some (outcome out (b - 1 - int k) None k')"
    using var_fallback_invalid by simp
  show ?case
    by (cases "b < 1"; cases "int k \<le> b - 1"; cases "int k' \<le> b - 1 - int k")
      (use 1 2 var_fallback_invalid(1-4) var_fallback_invalid.prems in \<open>simp_all add: resolve_var outcome_cases\<close>)
next
  case (var_fallback prev s name fb rest k w n t k' w' r k'' w'')
  have 1: "1 \<le> b \<Longrightarrow> (case f name of None \<Rightarrow> Some (None, b - 1)
      | Some v \<Rightarrow> resolve_rec (\<lambda>x. Some (f x)) outcap (depth + 1) None v out (b - 1)) = Some (outcome out (b - 1) None k)"
    using var_fallback by (auto simp: outcome_def)
  have 2: "int k \<le> b - 1 \<Longrightarrow> resolve_rec (\<lambda>x. Some (f x)) outcap (depth + 1) None fb out (b - 1 - int k)
      = Some (outcome out (b - 1 - int k) (Some t) k')"
    using var_fallback by simp
  have 3: "int k + int k' \<le> b - 1 \<Longrightarrow> resolve_rec (\<lambda>x. Some (f x)) outcap depth (Some CHR '')'') rest (out @ t) (b - 1 - int k - int k')
      = Some (outcome out b (map_option ((@) t) r) (Suc (k + k' + k'')))"
    using var_fallback outcome_append [of "Suc (k + k')" b out t r k''] by (simp add: algebra_simps)
  show ?case
    by (cases "b < 1"; cases "int k \<le> b - 1"; cases "int k' \<le> b - 1 - int k")
      (use 1 2 3 var_fallback(1-4) var_fallback.prems in \<open>simp_all add: resolve_var outcome_cases\<close>)
qed (simp_all add: outcome_def resolve_env resolve_var)

section \<open>Work and output bounds\<close>

text \<open>Induction along the two ways the loop goes on: deeper, within the bound, or further in the text.\<close>

lemma resolve_position_induct:
  assumes "\<And>d p s out b. (\<And>d' p' s' out' b'. d < CVR_MAX_DEPTH \<and> d < d' \<or> d' = d \<and> length s' < length s \<Longrightarrow> P d' p' s' out' b')
      \<Longrightarrow> P d p s out b"
  shows "P (d :: nat) (p :: char option) (s :: string) (out :: string) (b :: int)"
proof (induction "CVR_MAX_DEPTH - d" arbitrary: d p s out b rule: less_induct)
  case deeper: (less d p s out b)
  show ?case
  proof (induction "length s" arbitrary: p s out b rule: less_induct)
    case (less s p out b)
    show ?case
    proof (rule assms)
      fix d' p' out' b' and s' :: string
      assume "d < CVR_MAX_DEPTH \<and> d < d' \<or> d' = d \<and> length s' < length s"
      then show "P d' p' s' out' b'"
      proof
        assume "d < CVR_MAX_DEPTH \<and> d < d'"
        then show ?thesis using deeper [of d' p' s' out' b'] by (simp add: diff_less_mono2)
      next
        assume "d' = d \<and> length s' < length s"
        then show ?thesis using less [of s' p' out' b'] by simp
      qed
    qed
  qed
qed

lemma split_call_shorter: "split_call (drop 4 s) = Some (n, f, r) \<Longrightarrow> length r < length s"
  "split_call (drop 4 s) = Some (n, Some u, r) \<Longrightarrow> length u < length s"
  using split_call_length [of "drop 4 s"] by fastforce+

text \<open>The resolver returns, never raises its budget, succeeds only within it, and stays inside the buffer.\<close>

definition good_outcome :: "nat \<Rightarrow> int \<Rightarrow> (string option \<times> int) option \<Rightarrow> bool" where
  "good_outcome outcap b res \<longleftrightarrow> (\<exists>r b'. res = Some (r, b') \<and> -1 \<le> b' \<and> b' \<le> b
     \<and> (\<forall>out'. r = Some out' \<longrightarrow> 0 \<le> b' \<and> length out' < outcap))"

lemma good_outcome_fail [simp]: "good_outcome outcap b (Some (None, b')) \<longleftrightarrow> -1 \<le> b' \<and> b' \<le> b"
  by (auto simp: good_outcome_def)

lemma good_outcome_done [simp]:
  "good_outcome outcap b (Some (Some out, b')) \<longleftrightarrow> 0 \<le> b' \<and> b' \<le> b \<and> length out < outcap"
  by (auto simp: good_outcome_def)

lemma good_outcome_mono: "good_outcome outcap b' res \<Longrightarrow> b' \<le> b \<Longrightarrow> good_outcome outcap b res"
  by (auto simp: good_outcome_def)

lemma good_outcome_bind:
  assumes "good_outcome outcap b0 res" and "b0 \<le> b"
    and "\<And>b'. -1 \<le> b' \<Longrightarrow> b' \<le> b0 \<Longrightarrow> good_outcome outcap b (g None b')"
    and "\<And>out' b'. 0 \<le> b' \<Longrightarrow> b' \<le> b0 \<Longrightarrow> length out' < outcap \<Longrightarrow> good_outcome outcap b (g (Some out') b')"
  shows "good_outcome outcap b (do { (r, b') \<leftarrow> res; g r b' })"
proof -
  obtain r b' where res: "res = Some (r, b')" "-1 \<le> b'" "b' \<le> b0" "\<And>out'. r = Some out' \<Longrightarrow> 0 \<le> b' \<and> length out' < outcap"
    using assms(1) by (auto simp: good_outcome_def)
  then show ?thesis using assms(3,4) by (cases r) simp_all
qed

lemma resolve_rec_good:
  "0 \<le> b \<Longrightarrow> length out < outcap \<Longrightarrow> good_outcome outcap b (resolve_rec (\<lambda>x. Some (f x)) outcap d p s out b)"
proof (induction d p s out b rule: resolve_position_induct)
  case (1 d p s out b)
  note IH = "1.IH" and b = "1.prems"
  let ?R = "resolve_rec (\<lambda>x. Some (f x)) outcap"
  have deep: "good_outcome outcap b' (?R (Suc d) None v out b')" if "\<not> CVR_MAX_DEPTH \<le> d" "0 \<le> b'" for v b'
    using IH b that by simp
  have go: "good_outcome outcap b (?R d p' s' out' b')"
    if "length s' < length s" "0 \<le> b'" "length out' < outcap" "b' \<le> b" for p' s' out' b'
    using IH [of d s' b' out' p'] that by (blast intro: good_outcome_mono)
  have go_on: "good_outcome outcap b (do { (r, b') \<leftarrow> res; case r of None \<Rightarrow> Some (None, b') | Some out' \<Rightarrow> ?R d p' s' out' b' })"
    if "good_outcome outcap b0 res" "b0 \<le> b" "length s' < length s" for b0 res p' s'
    using that go by (intro good_outcome_bind [OF that(1,2)]) auto
  consider (env) "at_env p s" | (var) "\<not> at_env p s" "at_var s" | (plain) "\<not> at_env p s" "\<not> at_var s" by blast
  then show ?case
  proof cases
    case env
    show ?thesis
    proof (cases "split_call (drop 4 s)")
      case (Some call)
      obtain name fb rest where call: "call = (name, fb, rest)" by (cases call)
      then have l: "length rest < length s" using split_call_shorter(1) Some by blast
      show ?thesis unfolding resolve_env [OF env] Some call
        using b by (auto split: option.split intro!: go_on [OF deep _ l])
    qed (use env b in \<open>simp add: resolve_env\<close>)
  next
    case var
    show ?thesis
    proof (cases "split_call (drop 4 s)")
      case (Some call)
      obtain name fb rest where call: "call = (name, fb, rest)" by (cases call)
      then have l: "length rest < length s" using split_call_shorter(1) Some by blast
      let ?X = "case f name of None \<Rightarrow> Some (None, b - 1) | Some v \<Rightarrow> ?R (Suc d) None v out (b - 1)"
      have X: "\<not> CVR_MAX_DEPTH \<le> d \<Longrightarrow> 1 \<le> b \<Longrightarrow> good_outcome outcap (b - 1) ?X"
        using deep by (auto split: option.split)
      have "good_outcome outcap b (do { (r, b) \<leftarrow> ?X;
          case r of
            Some out' \<Rightarrow> ?R d (Some CHR '')'') rest out' b
          | None \<Rightarrow>
              if b < 0 then Some (None, b)
              else (case fb of
                  None \<Rightarrow> Some (None, b)
                | Some v \<Rightarrow>
                    do { (r, b) \<leftarrow> ?R (Suc d) None v out b;
                         case r of None \<Rightarrow> Some (None, b) | Some out' \<Rightarrow> ?R d (Some CHR '')'') rest out' b }) })"
        if "\<not> CVR_MAX_DEPTH \<le> d" "1 \<le> b"
        by (rule good_outcome_bind [OF X [OF that]])
          (use that in \<open>auto split: option.split intro!: go_on [OF deep _ l] go [OF l]\<close>)
      then show ?thesis unfolding resolve_var [OF var] Some call Suc_eq_plus1 [symmetric] using b by simp
    qed (use var b in \<open>simp add: resolve_var\<close>)
  next
    case plain
    then show ?thesis using b go by (cases s) (simp_all add: resolve_plain)
  qed
qed

text \<open>The number of loop iterations, recursive calls included, in a scope that holds \<open>f\<close>; \<open>call\<close> is the cost of one
  nested call and, where it succeeds, of the rest of the text after it.\<close>

function T_resolve :: "(string \<rightharpoonup> string) \<Rightarrow> nat \<Rightarrow> nat \<Rightarrow> char option \<Rightarrow> string \<Rightarrow> string \<Rightarrow> int \<Rightarrow> nat" where
  "T_resolve f outcap d prev [] out b = 1"
| "T_resolve f outcap d prev (c # s) out b = 1 +
     (if at_env prev (c # s) then
        (case split_call (drop 4 (c # s)) of
           None \<Rightarrow> 0
         | Some (name, fb, rest) \<Rightarrow>
             if d \<ge> CVR_MAX_DEPTH \<or> b < 1 then 0
             else (case (case env_value name of Some v \<Rightarrow> Some v | None \<Rightarrow> fb) of
                 None \<Rightarrow> 0
               | Some v \<Rightarrow>
                   T_resolve f outcap (d + 1) None v out (b - 1)
                   + (case resolve_rec (\<lambda>x. Some (f x)) outcap (d + 1) None v out (b - 1) of
                        Some (Some out', b') \<Rightarrow> T_resolve f outcap d (Some CHR '')'') rest out' b'
                      | _ \<Rightarrow> 0)))
      else if at_var (c # s) then
        (case split_call (drop 4 (c # s)) of
           None \<Rightarrow> 0
         | Some (name, fb, rest) \<Rightarrow>
             if \<not> custom_name name \<or> d \<ge> CVR_MAX_DEPTH \<or> b < 1 then 0
             else (case f name of None \<Rightarrow> 0 | Some v \<Rightarrow> T_resolve f outcap (d + 1) None v out (b - 1))
               + (case (case f name of None \<Rightarrow> Some (None, b - 1)
                        | Some v \<Rightarrow> resolve_rec (\<lambda>x. Some (f x)) outcap (d + 1) None v out (b - 1)) of
                    None \<Rightarrow> 0
                  | Some (Some out', b') \<Rightarrow> T_resolve f outcap d (Some CHR '')'') rest out' b'
                  | Some (None, b') \<Rightarrow>
                      if b' < 0 then 0
                      else (case fb of
                          None \<Rightarrow> 0
                        | Some v \<Rightarrow>
                            T_resolve f outcap (d + 1) None v out b'
                            + (case resolve_rec (\<lambda>x. Some (f x)) outcap (d + 1) None v out b' of
                                 Some (Some out', b'') \<Rightarrow> T_resolve f outcap d (Some CHR '')'') rest out' b''
                               | _ \<Rightarrow> 0))))
      else if length out + 1 \<ge> outcap then 0
      else T_resolve f outcap d (Some c) s (out @ [c]) b)"
  by pat_completeness auto
termination
  by (relation "measures [\<lambda>(f, outcap, d, prev, val, out, b). CVR_MAX_DEPTH - d,
        \<lambda>(f, outcap, d, prev, val, out, b). length val]")
    (auto dest!: split_call_length(1))

declare T_resolve.simps(2) [simp del]

text \<open>The work that the budget pays for: a reference costs at most two nested texts of \<open>L\<close> bytes.\<close>

definition paid :: "nat \<Rightarrow> nat \<Rightarrow> int \<Rightarrow> int \<Rightarrow> nat \<Rightarrow> bool" where
  "paid L n b b' T \<longleftrightarrow> int T \<le> int n + 1 + 2 * (int L + 1) * (b - b')"

lemma paid_zero [intro!]: "b' \<le> b \<Longrightarrow> 0 < n \<Longrightarrow> paid L n b b' (Suc 0)"
  by (simp add: paid_def)

lemma paid_nested:
  assumes "n \<le> L" "paid L n (b - 1) b1 T1"
  shows "0 < m \<Longrightarrow> paid L m b b1 (Suc T1)" "paid L k b1 b2 T2 \<Longrightarrow> k < m \<Longrightarrow> paid L m b b2 (Suc (T1 + T2))"
  using assms by (auto simp: paid_def algebra_simps)

lemma paid_twice:
  assumes "n \<le> L" "paid L n (b - 1) b1 T1" "n' \<le> L" "paid L n' b1 b2 T2"
  shows "0 < m \<Longrightarrow> paid L m b b2 (Suc (T1 + T2))" "paid L k b2 b3 T3 \<Longrightarrow> k < m \<Longrightarrow> paid L m b b3 (Suc (T1 + (T2 + T3)))"
  using assms by (auto simp: paid_def algebra_simps)

lemma good_cases:
  assumes "good_outcome outcap b res"
  obtains (fails) b' where "res = Some (None, b')" "-1 \<le> b'" "b' \<le> b"
  | (goes) out' b' where "res = Some (Some out', b')" "0 \<le> b'" "b' \<le> b" "length out' < outcap"
proof -
  obtain r b' where "res = Some (r, b')" using assms by (auto simp: good_outcome_def)
  then show ?thesis using assms that by (cases r) auto
qed

text \<open>One position of the loop, given that its nested calls and the rest of the text are paid for.\<close>

abbreviation paid_at :: "nat \<Rightarrow> (string \<rightharpoonup> string) \<Rightarrow> nat \<Rightarrow> nat \<Rightarrow> char option \<Rightarrow> string \<Rightarrow> string \<Rightarrow> int \<Rightarrow> bool" where
  "paid_at L f outcap d p s out b \<equiv>
     paid L (length s) b (snd (the (resolve_rec (\<lambda>x. Some (f x)) outcap d p s out b))) (T_resolve f outcap d p s out b)"

lemma paid_env:
  assumes env: "at_env p s" and b: "0 \<le> b" "length out < outcap" "length s \<le> L" and L: "3 \<le> L"
    and deep: "\<And>v b'. \<not> CVR_MAX_DEPTH \<le> d \<Longrightarrow> 0 \<le> b' \<Longrightarrow> length v \<le> L \<Longrightarrow> paid_at L f outcap (Suc d) None v out b'"
    and go: "\<And>s' b' out'. length s' < length s \<Longrightarrow> 0 \<le> b' \<Longrightarrow> length out' < outcap \<Longrightarrow>
      paid_at L f outcap d (Some CHR '')'') s' out' b'"
  shows "paid_at L f outcap d p s out b"
proof (cases "split_call (drop 4 s)")
  case None
  obtain c s' where s: "s = c # s'" using env at_call_Cons(1) by blast
  then show ?thesis using env None by (auto simp: resolve_env T_resolve.simps(2))
next
  case (Some call)
  obtain c s' where s: "s = c # s'" using env at_call_Cons(1) by blast
  obtain name fb rest where call: "call = (name, fb, rest)" by (cases call)
  then have l: "length rest < length s" using split_call_shorter(1) Some by blast
  let ?v = "case env_value name of Some v \<Rightarrow> Some v | None \<Rightarrow> fb"
  show ?thesis
  proof (cases "d \<ge> CVR_MAX_DEPTH \<or> b < 1 \<or> ?v = None")
    case True
    then show ?thesis using env s Some call b by (auto simp: resolve_env T_resolve.simps(2) split: if_splits)
  next
    case False
    then obtain v where v: "?v = Some v" "\<not> CVR_MAX_DEPTH \<le> d" "1 \<le> b" by auto
    have lv: "length v \<le> L"
      using v(1) L split_call_shorter(2) [of s name v rest] Some call b by (auto simp: env_value_def split: if_splits)
    note p = deep [OF v(2) _ lv, of "b - 1"]
    have "good_outcome outcap (b - 1) (resolve_rec (\<lambda>x. Some (f x)) outcap (Suc d) None v out (b - 1))"
      using v(3) b(2) by (intro resolve_rec_good) simp_all
    then show ?thesis
    proof (cases rule: good_cases)
      case (fails b')
      then show ?thesis using env s Some call v p paid_nested(1) [OF lv, of b b' _ "length s"]
        by (simp add: resolve_env T_resolve.simps(2))
    next
      case (goes out' b')
      then show ?thesis using env s Some call v p paid_nested(2) [OF lv, of b b' _ _ _ _ "length s"] go [OF l goes(2,4)] l
        by (simp add: resolve_env T_resolve.simps(2))
    qed
  qed
qed

lemma paid_var:
  assumes var: "\<not> at_env p s" "at_var s" and b: "0 \<le> b" "length out < outcap" "length s \<le> L"
    and f: "\<And>n v. f n = Some v \<Longrightarrow> length v \<le> L"
    and deep: "\<And>v b'. \<not> CVR_MAX_DEPTH \<le> d \<Longrightarrow> 0 \<le> b' \<Longrightarrow> length v \<le> L \<Longrightarrow> paid_at L f outcap (Suc d) None v out b'"
    and go: "\<And>s' b' out'. length s' < length s \<Longrightarrow> 0 \<le> b' \<Longrightarrow> length out' < outcap \<Longrightarrow>
      paid_at L f outcap d (Some CHR '')'') s' out' b'"
  shows "paid_at L f outcap d p s out b"
proof (cases "split_call (drop 4 s)")
  case None
  obtain c s' where s: "s = c # s'" using var at_call_Cons(2) by blast
  then show ?thesis using var None by (auto simp: resolve_var T_resolve.simps(2))
next
  case (Some call)
  obtain c s' where s: "s = c # s'" using var at_call_Cons(2) by blast
  obtain name fb rest where call: "call = (name, fb, rest)" by (cases call)
  then have l: "length rest < length s" using split_call_shorter(1) Some by blast
  let ?R = "resolve_rec (\<lambda>x. Some (f x)) outcap"
  show ?thesis
  proof (cases "\<not> custom_name name \<or> d \<ge> CVR_MAX_DEPTH \<or> b < 1")
    case True
    then show ?thesis using var s Some call b by (auto simp: resolve_var T_resolve.simps(2))
  next
    case False
    then have ok: "custom_name name" "\<not> CVR_MAX_DEPTH \<le> d" "1 \<le> b" by auto
    let ?X = "case f name of None \<Rightarrow> Some (None, b - 1) | Some v \<Rightarrow> ?R (Suc d) None v out (b - 1)"
    let ?T1 = "case f name of None \<Rightarrow> 0 | Some v \<Rightarrow> T_resolve f outcap (Suc d) None v out (b - 1)"
    have X: "good_outcome outcap (b - 1) ?X" using ok(3) b(2) resolve_rec_good by (auto split: option.split)
    obtain n where n: "n \<le> L" "paid L n (b - 1) (snd (the ?X)) ?T1"
    proof (cases "f name")
      case None
      then show ?thesis using that [of 0] by (simp add: paid_def)
    next
      case (Some v)
      then show ?thesis using that [of "length v"] f deep [OF ok(2), of "b - 1" v] ok(3) by simp
    qed
    note eqs = resolve_var [OF var, folded Suc_eq_plus1] T_resolve.simps(2) [of _ _ _ _ c s', folded s Suc_eq_plus1]
    from X show ?thesis
    proof (cases rule: good_cases)
      case (goes out' b')
      have "paid L (length s) b (snd (the (?R d (Some CHR '')'') rest out' b'))) (Suc (?T1 + T_resolve f outcap d (Some CHR '')'') rest out' b'))"
        using paid_nested(2) [OF n(1), of b b'] n(2) go [OF l goes(2,4)] l goes(1) by simp
      then show ?thesis using goes(1) var ok Some call by (simp add: eqs)
    next
      case (fails b')
      show ?thesis
      proof (cases "b' < 0 \<or> fb = None")
        case True
        have "paid L (length s) b b' (Suc ?T1)" using paid_nested(1) [OF n(1), of b b' ?T1 "length s"] n(2) fails(1) by (simp add: s)
        with True show ?thesis using fails(1) var ok Some call by (elim disjE) (simp_all add: eqs)
      next
        case False
        then obtain v where v: "fb = Some v" "0 \<le> b'" by auto
        have lv: "length v \<le> L" using split_call_shorter(2) [of s name v rest] Some call b v(1) by simp
        note p = deep [OF ok(2) v(2) lv]
        have "good_outcome outcap b' (?R (Suc d) None v out b')" using v(2) b(2) by (rule resolve_rec_good)
        then show ?thesis
        proof (cases rule: good_cases)
          case f2: (fails b2)
          have "paid L (length s) b b2 (Suc (?T1 + T_resolve f outcap (Suc d) None v out b'))"
            by (rule paid_twice(1) [OF n(1) _ lv]) (use n(2) p s fails(1) f2(1) in simp_all)
          then show ?thesis using fails(1) f2 v var ok Some call by (simp add: eqs)
        next
          case g2: (goes out2 b2)
          have "paid L (length s) b (snd (the (?R d (Some CHR '')'') rest out2 b2)))
              (Suc (?T1 + (T_resolve f outcap (Suc d) None v out b' + T_resolve f outcap d (Some CHR '')'') rest out2 b2)))"
            using paid_twice(2) [OF n(1), of b b' _ "length v"] n(2) lv p l fails(1) g2 go [OF l g2(2,4)] by simp
          then show ?thesis using fails(1) g2 v var ok Some call by (simp add: eqs)
        qed
      qed
    qed
  qed
qed

lemma T_resolve_paid:
  assumes f: "\<And>n v. f n = Some v \<Longrightarrow> length v \<le> L" and L: "3 \<le> L"
  shows "0 \<le> b \<Longrightarrow> length out < outcap \<Longrightarrow> length s \<le> L \<Longrightarrow> paid_at L f outcap d p s out b"
proof (induction d p s out b rule: resolve_position_induct)
  case (1 d p s out b)
  note IH = "1.IH" and b = "1.prems"
  have deep: "paid_at L f outcap (Suc d) None v out b'" if "\<not> CVR_MAX_DEPTH \<le> d" "0 \<le> b'" "length v \<le> L" for v b'
    using IH b that by simp
  have go: "paid_at L f outcap d p' s' out' b'" if "length s' < length s" "0 \<le> b'" "length out' < outcap" for p' s' out' b'
    using IH [of d s' b' out' p'] that b by simp
  consider (nil) "s = []" | (env) "at_env p s" | (var) "\<not> at_env p s" "at_var s" | (plain) c s' where "\<not> at_env p s" "\<not> at_var s" "s = c # s'"
    by (metis neq_Nil_conv)
  then show ?case
  proof cases
    case nil
    then show ?thesis by (simp add: paid_def)
  next
    case plain
    then show ?thesis using b go [of s' b "out @ [c]" "Some c"] by (auto simp: resolve_plain T_resolve.simps(2) paid_def)
  next
    case env
    then show ?thesis using b L deep go by (rule paid_env)
  next
    case var
    then show ?thesis using b f deep go by (rule paid_var)
  qed
qed

section \<open>Properties of the resolver\<close>

lemma cvr_resolve_pure:
  assumes "scope_inv sc" and "0 < outcap"
  shows "cvr_resolve (Some val) (Some outcap) sc
    = map_option fst (resolve_rec (\<lambda>n. Some (scope_map sc n)) outcap 0 None val [] CVR_MAX_LOOKUPS)"
  using assms by (simp add: sl.look_pure)


lemma subst_text: "CHR ''('' \<notin> set s \<Longrightarrow> subst f n p s (Some s) 0 (length s)"
proof (induction s arbitrary: p)
  case Nil
  then show ?case by (simp add: end_of_value)
next
  case (Cons c s)
  have "\<not> at_env p (c # s)" "\<not> at_var (c # s)"
    using Cons.prems no_call by blast+
  from plain [OF this, of f n "Some s" 0 "length s"] Cons show ?case by simp
qed


text \<open>C22: Termination: on any value and any scope, cycles and exponential fans of references included, \<^verbatim>\<open>cvr_resolve\<close>
  returns. What it writes fits the buffer with its terminator, and its loop runs at most \<open>2051 * (L + 1)\<close>
  iterations in all, where \<open>L\<close> is 1023 or the length of the value if that is more.\<close>

theorem cvr_resolve_terminates:
  assumes "scope_inv sc" and "0 < outcap"
  shows "\<exists>r. cvr_resolve (Some val) (Some outcap) sc = Some r \<and> (\<forall>out. r = Some out \<longrightarrow> length out < outcap)
    \<and> T_resolve (scope_map sc) outcap 0 None val [] CVR_MAX_LOOKUPS \<le> 2051 * (max 1023 (length val) + 1)"
proof -
  let ?R = "resolve_rec (\<lambda>n. Some (scope_map sc n)) outcap 0 None val [] CVR_MAX_LOOKUPS"
  let ?T = "T_resolve (scope_map sc) outcap 0 None val [] CVR_MAX_LOOKUPS"
  let ?L = "max 1023 (length val)"
  have good: "good_outcome outcap CVR_MAX_LOOKUPS ?R"
    by (rule resolve_rec_good) (use assms(2) in \<open>simp_all add: CVR_MAX_LOOKUPS_def\<close>)
  then obtain r b' where R: "?R = Some (r, b')" "-1 \<le> b'" "\<forall>out. r = Some out \<longrightarrow> length out < outcap"
    by (auto simp: good_outcome_def)
  have f: "length v \<le> ?L" if "scope_map sc n = Some v" for n v
    using sl.holds_bound [OF assms(1) that] by (auto simp: CVR_VALUE_MAX_def le_max_iff_disj)
  have "paid ?L (length val) CVR_MAX_LOOKUPS b' ?T"
    using T_resolve_paid [of "scope_map sc" ?L CVR_MAX_LOOKUPS "[]" outcap val 0 None] f assms(2) R(1)
    by (simp add: CVR_MAX_LOOKUPS_def)
  then have "int ?T \<le> int ?L + 1 + 2 * (int ?L + 1) * (1024 - b')" by (simp add: paid_def CVR_MAX_LOOKUPS_def)
  also have "\<dots> \<le> int ?L + 1 + 2 * (int ?L + 1) * 1025" using R(2) by (intro add_mono mult_left_mono) auto
  also have "\<dots> = int (2051 * (?L + 1))" by simp
  finally have "?T \<le> 2051 * (?L + 1)" by (simp only: of_nat_le_iff)
  then show ?thesis using R cvr_resolve_pure [OF assms] by (simp del: cvr_resolve.simps)
qed

lemma cvr_resolve_terminates_witness:
  "\<exists>t r. cvr_run zero_table [OSet granted ''--a'' ''var(--a,var(--a))''] = Some t
    \<and> cvr_resolve (Some ''var(--a)'') (Some 64)
        (Some \<lparr> sc_first = Some t, sc_second = None, sc_chain = [], sc_initial = None \<rparr>) = Some r
    \<and> (\<forall>out. r = Some out \<longrightarrow> length out < 64)"
proof -
  let ?ops = "[OSet granted ''--a'' ''var(--a,var(--a))'']"
  have "list_all op_granted ?ops" by (simp add: all_granted_def granted_def)
  then obtain t where t: "cvr_run zero_table ?ops = Some t" "cvr_inv t"
    using cvr_run_map [OF cvr_inv_zero, of ?ops] by blast
  let ?sc = "Some \<lparr> sc_first = Some t, sc_second = None, sc_chain = [], sc_initial = None \<rparr>"
  have "scope_inv ?sc" using t(2) by (simp add: scope_inv_def ptr_inv_def)
  from cvr_resolve_terminates [OF this, of 64 "''var(--a)''"] t(1) show ?thesis
    by (simp del: cvr_resolve.simps cvr_run.simps) blast
qed

text \<open>A text without parentheses is copied when it fits and refused when it does not.\<close>

lemma resolve_text:
  "CHR ''('' \<notin> set s \<Longrightarrow> length out < outcap \<Longrightarrow> resolve_rec look outcap d p s out b
    = Some (if length out + length s < outcap then Some (out @ s) else None, b)"
proof (induction s arbitrary: p out)
  case (Cons c s)
  have "\<not> at_env p (c # s)" "\<not> at_var (c # s)" using no_call Cons.prems(1) by blast+
  then show ?case using Cons.IH [of "out @ [c]" "Some c"] Cons.prems by (simp add: resolve_plain)
qed simp

text \<open>Error path: a value that does not fit the buffer is treated like an invalid one. Where the
  reference has a fallback, \<^verbatim>\<open>cvr_resolve\<close> rewinds the output and succeeds with the fallback although the
  property is set and valid; only a reference without fallback fails.\<close>

theorem cvr_resolve_overflow_takes_fallback:
  assumes "scope_inv sc" and "scope_map sc ''--a'' = Some v" and "CHR ''('' \<notin> set v" and "outcap \<le> length v" and "1 < outcap"
  shows "cvr_resolve (Some ''var(--a,x)'') (Some outcap) sc = Some (Some ''x'')
    \<and> cvr_resolve (Some ''var(--a)'') (Some outcap) sc = Some None"
proof -
  have c: "\<not> at_env None ''var(--a,x)''" "at_var ''var(--a,x)''" "split_call (drop 4 ''var(--a,x)'') = Some (''--a'', Some ''x'', [])"
    "\<not> at_env None ''var(--a)''" "at_var ''var(--a)''" "split_call (drop 4 ''var(--a)'') = Some (''--a'', None, [])"
    "custom_name ''--a''" by code_simp+
  have "0 < outcap" using assms(5) by simp
  note [simp] = cvr_resolve_pure [OF assms(1) this]
  show ?thesis
    using assms(2-) c by (simp del: cvr_resolve.simps add: resolve_var resolve_text CVR_MAX_DEPTH_def CVR_MAX_LOOKUPS_def)
qed

lemma cvr_resolve_overflow_takes_fallback_witness:
  "\<exists>t. cvr_run zero_table [OSet granted ''--a'' ''abc''] = Some t
    \<and> cvr_resolve (Some ''var(--a,x)'') (Some 3)
        (Some \<lparr> sc_first = Some t, sc_second = None, sc_chain = [], sc_initial = None \<rparr>) = Some (Some ''x'')"
proof -
  let ?ops = "[OSet granted ''--a'' ''abc'']"
  have st: "storable ''--a'' ''abc''" by code_simp
  have "list_all op_granted ?ops" by (simp add: all_granted_def granted_def)
  then obtain t where t: "cvr_run zero_table ?ops = Some t" "cvr_inv t" "table_map t = foldl map_step Map.empty ?ops"
    using cvr_run_map [OF cvr_inv_zero, of ?ops] by (auto simp: zero_table_def)
  let ?sc = "Some \<lparr> sc_first = Some t, sc_second = None, sc_chain = [], sc_initial = None \<rparr>"
  have "scope_inv ?sc" "scope_map ?sc ''--a'' = Some ''abc''"
    using t(2,3) st by (simp_all add: scope_inv_def ptr_inv_def scope_map_def ptr_map_def NUL_def map_add_def map_accepts_def CVR_MAX_ENTRIES_def)
  from cvr_resolve_overflow_takes_fallback [OF this, of 3] t(1) show ?thesis
    by (simp del: cvr_resolve.simps cvr_run.simps)
qed

end
