(* ===== verification/Css_Counter.thy ===== *)
theory Css_Counter
  imports Decimal "HOL-Library.Monad_Syntax"
begin

unbundle bit_operations_syntax

text \<open>
  The module \<^verbatim>\<open>src/css_counter.c\<close>: CSS counters. The formatter writes a value in a counter style; the two parsers
  read the counter properties and the generated content of a hostile style sheet; the state is the stack of
  counter instances that a walk of the document in order pushes, changes and pops; the resolver expands
  generated content against it. A reader per style shows that the formatter loses nothing.
\<close>

section \<open>Model\<close>

subsection \<open>Names and declarations\<close>

definition CNT_MAX_DECL :: nat where
  "CNT_MAX_DECL = 4"

definition CNT_MAX_INSTANCES :: nat where
  "CNT_MAX_INSTANCES = 1024"

definition CNT_NAME_MAX :: nat where
  "CNT_NAME_MAX = 64"

definition CNT_VALUE_LIMIT :: int where
  "CNT_VALUE_LIMIT = 1000000000"

definition CNT_STR_MAX :: nat where
  "CNT_STR_MAX = 192"

record cnt_decl =
  cd_name :: "32 word"
  cd_value :: int

definition cnt_hash :: "string \<Rightarrow> 32 word" where
  "cnt_hash name =
     (let hsh = foldl (\<lambda>h c. (h XOR word_of_nat (of_char c)) * 16777619) 2166136261 name in
      if hsh \<noteq> 0 then hsh else 1)"

definition cnt_ws :: "char \<Rightarrow> bool" where
  "cnt_ws c \<longleftrightarrow> c = CHR '' '' \<or> c = CHR 0x09 \<or> c = CHR 0x0A \<or> c = CHR 0x0D \<or> c = CHR 0x0C"

definition is_ident_start :: "char \<Rightarrow> bool" where
  "is_ident_start c \<longleftrightarrow> is_alpha c \<or> c = CHR ''_'' \<or> c = CHR ''-'' \<or> (of_char c :: nat) \<ge> 0x80"

definition is_ident_char :: "char \<Rightarrow> bool" where
  "is_ident_char c \<longleftrightarrow> is_ident_start c \<or> is_digit c"

definition ci_eq :: "string \<Rightarrow> string \<Rightarrow> bool" where
  "ci_eq a b \<longleftrightarrow> lower_str a = lower_str b"

definition valid_name :: "string \<Rightarrow> bool" where
  "valid_name s \<longleftrightarrow> s \<noteq> [] \<and> length s < CNT_NAME_MAX \<and> is_ident_start (hd s)
     \<and> \<not> (hd s = CHR ''-'' \<and> (length s = 1 \<or> is_digit (s ! 1))) \<and> list_all is_ident_char s
     \<and> \<not> list_ex (ci_eq s) [''none'', ''inherit'', ''initial'', ''unset'', ''revert'', ''revert-layer'', ''default'']"

text \<open>An optional integer at the head of a declaration's rest: \<open>Inl\<close> when it is malformed, \<open>Inr None\<close> when there is none,
  else its value and what follows. \<^verbatim>\<open>strtol\<close> reads the sign and the digits of the buffer.\<close>

definition decl_int :: "string \<Rightarrow> unit + (int \<times> string) option" where
  "decl_int q =
     (case q of
        c # s \<Rightarrow>
          if c = CHR ''-'' \<or> c = CHR ''+'' \<or> is_digit c then
            let ds = takeWhile is_digit s; r = dropWhile is_digit s; bl = 1 + length ds in
            if r \<noteq> [] \<and> \<not> cnt_ws (hd r) then Inl ()
            else if bl \<ge> 16 \<or> (bl = 1 \<and> (c = CHR ''-'' \<or> c = CHR ''+'')) then Inl ()
            else (case scan_int (c # ds) of
                None \<Rightarrow> Inl ()
              | Some (v, _) \<Rightarrow> if v > CNT_VALUE_LIMIT \<or> v < - CNT_VALUE_LIMIT then Inl () else Inr (Some (v, r)))
          else Inr None
      | [] \<Rightarrow> Inr None)"

lemma decl_int_shorter: "decl_int q = Inr (Some (v, r)) \<Longrightarrow> length r < length q"
  by (auto simp: decl_int_def Let_def less_Suc_eq_le length_dropWhile_le split: list.splits if_splits option.splits)

text \<open>The loop of \<^verbatim>\<open>cnt_parse_decls\<close> from a position on, with the entries written so far; \<open>None\<close> is the source's -1.\<close>

function parse_decls :: "int \<Rightarrow> cnt_decl list \<Rightarrow> string \<Rightarrow> cnt_decl list option" where
  "parse_decls dflt ds p =
     (let s = dropWhile cnt_ws p in
      if s = [] then Some ds
      else
        let name = takeWhile (\<lambda>c. \<not> cnt_ws c) s;
            p1 = dropWhile (\<lambda>c. \<not> cnt_ws c) s;
            q = dropWhile cnt_ws p1 in
        if name = ''none'' \<and> ds = [] then (if q = [] then Some [] else None)
        else if \<not> valid_name name \<or> length ds \<ge> CNT_MAX_DECL then None
        else (case decl_int q of
            Inl _ \<Rightarrow> None
          | Inr None \<Rightarrow> parse_decls dflt (ds @ [\<lparr> cd_name = cnt_hash name, cd_value = dflt \<rparr>]) p1
          | Inr (Some (v, r)) \<Rightarrow> parse_decls dflt (ds @ [\<lparr> cd_name = cnt_hash name, cd_value = v \<rparr>]) r))"
  by pat_completeness auto
termination
proof (relation "measure (\<lambda>(dflt, ds, p). length p)", goal_cases)
  case (2 dflt ds p s name p1 q)
  then have "\<not> cnt_ws (hd s)" by (metis hd_dropWhile)
  then have "length p1 < length s" using 2 by (simp add: length_dropWhile_less)
  also have "\<dots> \<le> length p" unfolding 2(1) by (rule length_dropWhile_le)
  finally show ?case by simp
next
  case (3 dflt ds p s name p1 q x a v r)
  have "length r < length q" by (rule decl_int_shorter) (use 3 in auto)
  also have "\<dots> \<le> length p1" unfolding 3(5) by (rule length_dropWhile_le)
  also have "\<dots> \<le> length s" unfolding 3(4) by (rule length_dropWhile_le)
  also have "\<dots> \<le> length p" unfolding 3(1) by (rule length_dropWhile_le)
  finally show ?case by simp
qed simp

declare parse_decls.simps [simp del]

definition cnt_parse_decls :: "string \<Rightarrow> int \<Rightarrow> cnt_decl list option" where
  "cnt_parse_decls val dflt = (if dropWhile cnt_ws val = [] then None else parse_decls dflt [] val)"

subsection \<open>Formatting\<close>

datatype cnt_style = CNT_DECIMAL | CNT_DECIMAL_ZERO | CNT_LOWER_ROMAN | CNT_UPPER_ROMAN | CNT_LOWER_ALPHA
  | CNT_UPPER_ALPHA | CNT_LOWER_GREEK | CNT_DISC | CNT_CIRCLE | CNT_SQUARE | CNT_NONE

definition styles :: "cnt_style list" where
  "styles = [CNT_DECIMAL, CNT_DECIMAL_ZERO, CNT_LOWER_ROMAN, CNT_UPPER_ROMAN, CNT_LOWER_ALPHA, CNT_UPPER_ALPHA,
     CNT_LOWER_GREEK, CNT_DISC, CNT_CIRCLE, CNT_SQUARE, CNT_NONE]"

text \<open>The \<^verbatim>\<open>switch\<close> on an integer, whose default is the decimal style.\<close>

definition style_of_int :: "int \<Rightarrow> cnt_style" where
  "style_of_int i = (if 0 \<le> i \<and> i < int (length styles) then styles ! nat i else CNT_DECIMAL)"

fun style_code :: "cnt_style \<Rightarrow> nat" where
  "style_code CNT_DECIMAL = 0"
| "style_code CNT_DECIMAL_ZERO = 1"
| "style_code CNT_LOWER_ROMAN = 2"
| "style_code CNT_UPPER_ROMAN = 3"
| "style_code CNT_LOWER_ALPHA = 4"
| "style_code CNT_UPPER_ALPHA = 5"
| "style_code CNT_LOWER_GREEK = 6"
| "style_code CNT_DISC = 7"
| "style_code CNT_CIRCLE = 8"
| "style_code CNT_SQUARE = 9"
| "style_code CNT_NONE = 10"

definition roman_upper :: "(nat \<times> string) list" where
  "roman_upper = [(1000, ''M''), (900, ''CM''), (500, ''D''), (400, ''CD''), (100, ''C''), (90, ''XC''), (50, ''L''),
     (40, ''XL''), (10, ''X''), (9, ''IX''), (5, ''V''), (4, ''IV''), (1, ''I'')]"

definition roman_lower :: "(nat \<times> string) list" where
  "roman_lower = [(1000, ''m''), (900, ''cm''), (500, ''d''), (400, ''cd''), (100, ''c''), (90, ''xc''), (50, ''l''),
     (40, ''xl''), (10, ''x''), (9, ''ix''), (5, ''v''), (4, ''iv''), (1, ''i'')]"

function roman :: "(nat \<times> string) list \<Rightarrow> nat \<Rightarrow> string" where
  "roman [] n = []"
| "roman ((v, s) # t) n = (if v \<le> n \<and> 0 < v then s @ roman ((v, s) # t) (n - v) else roman t n)"
  by pat_completeness auto
termination by (relation "measures [length \<circ> fst, snd]") auto

text \<open>The digits of the alphabetic styles, last first, at most as many as the buffer holds.\<close>

fun alpha_rev :: "char \<Rightarrow> nat \<Rightarrow> nat \<Rightarrow> string" where
  "alpha_rev a 0 n = []"
| "alpha_rev a (Suc k) n = (if n > 0 then char_of (of_char a + (n - 1) mod 26) # alpha_rev a k ((n - 1) div 26) else [])"

definition utf8_put :: "nat \<Rightarrow> string" where
  "utf8_put cp = takeWhile (\<lambda>c. c \<noteq> NUL)
     (if cp < 0x80 then [char_of cp]
      else if cp < 0x800 then [char_of (0xC0 OR cp div 64), char_of (0x80 OR (cp AND 0x3F))]
      else if cp < 0x10000 then [char_of (0xE0 OR cp div 4096), char_of (0x80 OR (cp div 64 AND 0x3F)), char_of (0x80 OR (cp AND 0x3F))]
      else [char_of (0xF0 OR cp div 262144), char_of (0x80 OR (cp div 4096 AND 0x3F)), char_of (0x80 OR (cp div 64 AND 0x3F)),
            char_of (0x80 OR (cp AND 0x3F))])"

definition greek_cp :: "nat \<Rightarrow> nat" where
  "greek_cp v = (if v \<le> 17 then 0x3B1 + v - 1 else 0x3C3 + v - 18)"

definition style_text :: "cnt_style \<Rightarrow> int \<Rightarrow> string" where
  "style_text style value =
     (case style of
        CNT_NONE \<Rightarrow> []
      | CNT_DISC \<Rightarrow> [CHR 0xE2, CHR 0x80, CHR 0xA2]
      | CNT_CIRCLE \<Rightarrow> [CHR 0xE2, CHR 0x97, CHR 0xA6]
      | CNT_SQUARE \<Rightarrow> [CHR 0xE2, CHR 0x96, CHR 0xAA]
      | CNT_DECIMAL_ZERO \<Rightarrow>
          if value > -10 \<and> value < 10 then (if value < 0 then ''-'' else []) @ ''0'' @ show_int \<bar>value\<bar> else show_int value
      | CNT_LOWER_ROMAN \<Rightarrow> if value < 1 \<or> value > 3999 then show_int value else roman roman_lower (nat value)
      | CNT_UPPER_ROMAN \<Rightarrow> if value < 1 \<or> value > 3999 then show_int value else roman roman_upper (nat value)
      | CNT_LOWER_ALPHA \<Rightarrow> if value < 1 then show_int value else rev (alpha_rev CHR ''a'' 16 (nat value))
      | CNT_UPPER_ALPHA \<Rightarrow> if value < 1 then show_int value else rev (alpha_rev CHR ''A'' 16 (nat value))
      | CNT_LOWER_GREEK \<Rightarrow>
          if value < 1 \<or> value > 24 then show_int value
          else utf8_put (greek_cp (nat value))
      | CNT_DECIMAL \<Rightarrow> show_int value)"

text \<open>The text goes through a buffer of 64 bytes, then to the output.\<close>

definition cnt_format :: "cnt_style \<Rightarrow> int \<Rightarrow> nat \<Rightarrow> string" where
  "cnt_format style value cap = (if cap = 0 then [] else take (cap - 1) (take 63 (style_text style value)))"

definition style_names :: "(string \<times> cnt_style) list" where
  "style_names = [(''decimal'', CNT_DECIMAL), (''decimal-leading-zero'', CNT_DECIMAL_ZERO), (''lower-roman'', CNT_LOWER_ROMAN),
     (''upper-roman'', CNT_UPPER_ROMAN), (''lower-alpha'', CNT_LOWER_ALPHA), (''lower-latin'', CNT_LOWER_ALPHA),
     (''upper-alpha'', CNT_UPPER_ALPHA), (''upper-latin'', CNT_UPPER_ALPHA), (''lower-greek'', CNT_LOWER_GREEK),
     (''disc'', CNT_DISC), (''circle'', CNT_CIRCLE), (''square'', CNT_SQUARE), (''none'', CNT_NONE)]"

definition style_of :: "string \<Rightarrow> cnt_style" where
  "style_of name = (case find (\<lambda>(n, s). ci_eq name n) style_names of Some (n, s) \<Rightarrow> s | None \<Rightarrow> CNT_DECIMAL)"

subsection \<open>Generated content\<close>

definition CNT_SEQ_MARK :: string where
  "CNT_SEQ_MARK = CHR 0x01 # ''seq:''"

definition CNT_ITEM_END :: char where
  "CNT_ITEM_END = CHR 0x1E"

definition CNT_FIELD_SEP :: char where
  "CNT_FIELD_SEP = CHR 0x1F"

definition is_hex :: "char \<Rightarrow> bool" where
  "is_hex c \<longleftrightarrow> is_digit c \<or> (CHR ''a'' \<le> c \<and> c \<le> CHR ''f'') \<or> (CHR ''A'' \<le> c \<and> c \<le> CHR ''F'')"

definition hex_number :: "string \<Rightarrow> nat" where
  "hex_number ds = foldl (\<lambda>v c. v * 16 + hex_val c) 0 ds"

definition escaped_cp :: "nat \<Rightarrow> nat" where
  "escaped_cp v = (if v = 0 \<or> v > 0x10FFFF \<or> (0xD800 \<le> v \<and> v \<le> 0xDFFF) then 0xFFFD else v)"

definition is_control :: "char \<Rightarrow> bool" where
  "is_control c \<longleftrightarrow> (of_char c :: nat) < 0x20"

text \<open>The bytes of an escape, dropped when the buffer is full; a byte of the text, refused then.\<close>

fun put_escape :: "nat \<Rightarrow> string \<Rightarrow> string \<Rightarrow> string" where
  "put_escape cap dst [] = dst"
| "put_escape cap dst (c # u) = put_escape cap (if length dst + 1 < cap \<and> \<not> is_control c then dst @ [c] else dst) u"

definition put_byte :: "nat \<Rightarrow> string \<Rightarrow> char \<Rightarrow> string option" where
  "put_byte cap dst c = (if is_control c then Some dst else if length dst + 1 < cap then Some (dst @ [c]) else None)"

text \<open>\<^verbatim>\<open>read_string\<close> after its opening quote: the decoded text and what follows the closing quote.\<close>

function read_string :: "char \<Rightarrow> nat \<Rightarrow> string \<Rightarrow> string \<Rightarrow> (string \<times> string) option" where
  "read_string q cap dst [] = None"
| "read_string q cap dst (c # p) =
     (if c = q then Some (dst, p)
      else if c = CHR 0x5C then
        (case p of
           [] \<Rightarrow> None
         | d # p' \<Rightarrow>
             if d = CHR 0x0A then read_string q cap dst p'
             else if is_hex d then
               let ds = take 6 (takeWhile is_hex p);
                   r = drop (length ds) p in
               read_string q cap (put_escape cap dst (utf8_put (escaped_cp (hex_number ds))))
                 (if r \<noteq> [] \<and> cnt_ws (hd r) then tl r else r)
             else (case put_byte cap dst d of None \<Rightarrow> None | Some dst' \<Rightarrow> read_string q cap dst' p'))
      else (case put_byte cap dst c of None \<Rightarrow> None | Some dst' \<Rightarrow> read_string q cap dst' p))"
  by pat_completeness auto
termination by (relation "measure (\<lambda>(q, cap, dst, p). length p)") auto

definition is_quote :: "char \<Rightarrow> bool" where
  "is_quote c \<longleftrightarrow> c = CHR 0x22 \<or> c = CHR 0x27"

lemma read_string_shorter: "read_string q cap dst p = Some (t, e) \<Longrightarrow> length e < length p"
proof (induction q cap dst p rule: read_string.induct)
  case (2 q cap dst c p)
  show ?case
  proof (cases "c = CHR 0x5C \<and> c \<noteq> q")
    case True
    then show ?thesis using 2 by (cases p) (fastforce simp: Let_def split: if_splits option.splits)+
  next
    case False
    then show ?thesis using 2 by (auto split: if_splits option.splits intro: less_SucI)
  qed
qed simp

text \<open>\<^verbatim>\<open>split_args\<close> at a position \<open>p\<close> of the text, where \<open>bl\<close> bytes are left at the end of the argument list.\<close>

fun skip_ws :: "nat \<Rightarrow> string \<Rightarrow> string" where
  "skip_ws bl [] = []"
| "skip_ws bl (c # p) = (if length (c # p) > bl \<and> cnt_ws c then skip_ws bl p else c # p)"

lemma length_skip_ws: "length (skip_ws bl p) \<le> length p"
  by (induction p) (auto intro: le_SucI)

definition cnt_rtrim :: "string \<Rightarrow> string" where
  "cnt_rtrim s = rev (dropWhile cnt_ws (rev s))"

definition next_arg :: "nat \<Rightarrow> string \<Rightarrow> (string \<times> string) option" where
  "next_arg bl p =
     (if length p > bl \<and> p \<noteq> [] \<and> is_quote (hd p) then
        (case read_string (hd p) (CNT_STR_MAX - 1) [] (tl p) of
           None \<Rightarrow> None
         | Some (t, e) \<Rightarrow> if length e < bl then None else Some (CHR 0x22 # t, skip_ws bl e))
      else
        let seg = takeWhile (\<lambda>c. c \<noteq> CHR '','') (take (length p - bl) p);
            f = cnt_rtrim seg in
        if f = [] \<or> length f \<ge> CNT_STR_MAX then None else Some (f, drop (length seg) p))"

lemma next_arg_length: "next_arg bl p = Some (f, e) \<Longrightarrow> length e \<le> length p"
proof -
  assume a: "next_arg bl p = Some (f, e)"
  show ?thesis
  proof (cases "length p > bl \<and> p \<noteq> [] \<and> is_quote (hd p)")
    case True
    then obtain t r where "read_string (hd p) (CNT_STR_MAX - 1) [] (tl p) = Some (t, r)" "e = skip_ws bl r"
      using a by (auto simp: next_arg_def split: option.splits if_splits)
    then have "length r < length (tl p)" "length e \<le> length r" by (auto dest: read_string_shorter simp: length_skip_ws)
    then show ?thesis by simp
  next
    case False
    then show ?thesis using a by (auto simp: next_arg_def Let_def split: if_splits)
  qed
qed

function split_args :: "nat \<Rightarrow> string \<Rightarrow> string list \<Rightarrow> string list option" where
  "split_args bl p fs =
     (case next_arg bl (skip_ws bl p) of
        None \<Rightarrow> None
      | Some (f, e) \<Rightarrow>
          if length fs \<ge> 3 then None
          else if length e \<le> bl then Some (fs @ [f])
          else if hd e \<noteq> CHR '','' then None
          else split_args bl (tl e) (fs @ [f]))"
  by pat_completeness auto
termination
proof (relation "measure (\<lambda>(bl, p, fs). length p)", goal_cases)
  case (2 bl p fs a f e)
  have "length e \<le> length p" using next_arg_length [of bl "skip_ws bl p" f e] length_skip_ws [of bl p] 2 by simp
  moreover have "e \<noteq> []" using 2 by auto
  ultimately show ?case by (cases e) auto
qed simp

declare split_args.simps [simp del]

definition cnt_is_marker :: "cptr \<Rightarrow> bool" where
  "cnt_is_marker s = (case s of None \<Rightarrow> False | Some s \<Rightarrow> prefix CNT_SEQ_MARK s)"

text \<open>\<^verbatim>\<open>c | 32\<close> on a byte.\<close>

definition or32 :: "char \<Rightarrow> char" where
  "or32 c = char_of ((of_char c :: nat) OR 32)"

fun has_counter_fn :: "string \<Rightarrow> bool" where
  "has_counter_fn [] = False"
| "has_counter_fn (c # p) =
     ((map or32 (take 7 (c # p)) = ''counter''
        \<and> (take 1 (drop 7 (c # p)) = ''('' \<or> map or32 (take 1 (drop 7 (c # p))) = ''s'' \<and> take 1 (drop 8 (c # p)) = ''(''))
      \<or> has_counter_fn p)"

text \<open>The closing parenthesis of a function, from its argument list on.\<close>

function find_close :: "char option \<Rightarrow> string \<Rightarrow> string option" where
  "find_close q [] = None"
| "find_close q (c # s) =
     (case q of
        Some x \<Rightarrow>
          if c = CHR 0x5C \<and> s \<noteq> [] then find_close q (tl s)
          else find_close (if c = x then None else q) s
      | None \<Rightarrow>
          if c = CHR '')'' then Some (c # s)
          else find_close (if is_quote c then Some c else None) s)"
  by pat_completeness auto
termination by (relation "measure (\<lambda>(q, s). length s)") auto

lemma find_close_shorter: "find_close q s = Some e \<Longrightarrow> length e \<le> length s \<and> e \<noteq> []"
  by (induction q s rule: find_close.induct) (fastforce split: if_splits option.splits)+

datatype cnt_content = CNT_FOREIGN | CNT_INVALID | CNT_MARKER string

text \<open>The bounded output of the parser and the resolver: what was written, and whether a byte was lost.\<close>

type_synonym sink = "string \<times> bool"

definition sk_char :: "nat \<Rightarrow> sink \<Rightarrow> char \<Rightarrow> sink" where
  "sk_char cap k c = (if length (fst k) + 1 \<ge> cap then (fst k, True) else (fst k @ [c], snd k))"

definition sk_str :: "nat \<Rightarrow> sink \<Rightarrow> string \<Rightarrow> sink" where
  "sk_str cap k s = foldl (sk_char cap) k s"

text \<open>The item a function of the content stands for, as it is written to the marker, and whether it is a counter;
  \<open>None\<close> when it is not one this module accepts.\<close>

definition fn_item :: "string \<Rightarrow> string list \<Rightarrow> (string \<times> bool) option" where
  "fn_item word f =
     (if ci_eq word ''counter'' then
        if length f > 2 \<or> hd (f ! 0) = CHR 0x22 \<or> \<not> valid_name (f ! 0) then None
        else if length f = 2 \<and> hd (f ! 1) = CHR 0x22 then None
        else Some (''C'' @ f ! 0 @ [CNT_FIELD_SEP, char_of (48 + style_code (if length f = 2 then style_of (f ! 1) else CNT_DECIMAL)),
                     CNT_ITEM_END], True)
      else if ci_eq word ''counters'' then
        if length f < 2 \<or> hd (f ! 0) = CHR 0x22 \<or> hd (f ! 1) \<noteq> CHR 0x22 \<or> \<not> valid_name (f ! 0) then None
        else if length f = 3 \<and> hd (f ! 2) = CHR 0x22 then None
        else Some (''N'' @ f ! 0 @ [CNT_FIELD_SEP] @ tl (f ! 1) @ [CNT_FIELD_SEP,
                     char_of (48 + style_code (if length f = 3 then style_of (f ! 2) else CNT_DECIMAL)), CNT_ITEM_END], True)
      else if ci_eq word ''attr'' then
        if length f \<noteq> 1 \<or> hd (f ! 0) = CHR 0x22 then None
        else if \<not> list_all (\<lambda>c. is_ident_char c \<or> c = CHR '':'' \<or> c = CHR ''.'') (f ! 0) then None
        else Some (''A'' @ f ! 0 @ [CNT_ITEM_END], False)
      else None)"

definition word_item :: "string \<Rightarrow> string option" where
  "word_item word =
     (if ci_eq word ''open-quote'' then Some (''S'' @ [CHR 0xE2, CHR 0x80, CHR 0x9C, CNT_ITEM_END])
      else if ci_eq word ''close-quote'' then Some (''S'' @ [CHR 0xE2, CHR 0x80, CHR 0x9D, CNT_ITEM_END])
      else if ci_eq word ''no-open-quote'' \<or> ci_eq word ''no-close-quote'' then Some []
      else None)"

text \<open>One item of the content at a position with no leading white space: what it writes, whether it is a
  counter, and what follows.\<close>

definition next_item :: "string \<Rightarrow> (string \<times> bool \<times> string) option" where
  "next_item p =
     (if is_quote (hd p) then
        (case read_string (hd p) CNT_STR_MAX [] (tl p) of
           None \<Rightarrow> None
         | Some (t, e) \<Rightarrow> Some (''S'' @ t @ [CNT_ITEM_END], False, e))
      else
        let word = takeWhile (\<lambda>c. \<not> cnt_ws c \<and> c \<noteq> CHR ''('') p;
            r = dropWhile (\<lambda>c. \<not> cnt_ws c \<and> c \<noteq> CHR ''('') p in
        if word = [] \<or> length word \<ge> 24 then None
        else if r = [] \<or> hd r \<noteq> CHR ''('' then map_option (\<lambda>i. (i, False, r)) (word_item word)
        else (case find_close None (tl r) of
            None \<Rightarrow> None
          | Some e \<Rightarrow>
              (case split_args (length e) (tl r) [] of
                 None \<Rightarrow> None
               | Some f \<Rightarrow> map_option (\<lambda>(i, ctr). (i, ctr, tl e)) (fn_item word f))))"

lemma next_item_shorter: "p \<noteq> [] \<Longrightarrow> next_item p = Some (i, ctr, e) \<Longrightarrow> length e < length p"
proof -
  assume p: "p \<noteq> []" and a: "next_item p = Some (i, ctr, e)"
  let ?P = "\<lambda>c. \<not> cnt_ws c \<and> c \<noteq> CHR ''(''"
  show ?thesis
  proof (cases "is_quote (hd p)")
    case True
    then obtain t where "read_string (hd p) CNT_STR_MAX [] (tl p) = Some (t, e)"
      using a by (auto simp: next_item_def split: option.splits)
    then show ?thesis using read_string_shorter p by fastforce
  next
    case False
    have w: "takeWhile ?P p \<noteq> []" using a False by (auto simp: next_item_def Let_def split: if_splits)
    then have "?P (hd p)" using p by (cases p) (auto split: if_splits)
    then have r: "length (dropWhile ?P p) < length p" using p by (intro length_dropWhile_less) auto
    show ?thesis
    proof (cases "dropWhile ?P p = [] \<or> hd (dropWhile ?P p) \<noteq> CHR ''(''")
      case True
      then show ?thesis using a False r by (auto simp: next_item_def Let_def split: if_splits)
    next
      case n: False
      then obtain x where "find_close None (tl (dropWhile ?P p)) = Some x" "e = tl x"
        using a False by (auto simp: next_item_def Let_def split: if_splits option.splits)
      then have "length e \<le> length (tl (dropWhile ?P p))" by (auto dest: find_close_shorter)
      then show ?thesis using r by simp
    qed
  qed
qed

function parse_items :: "nat \<Rightarrow> sink \<Rightarrow> bool \<Rightarrow> nat \<Rightarrow> string \<Rightarrow> cnt_content" where
  "parse_items cap k saw items p =
     (let p1 = dropWhile cnt_ws p in
      if p1 = [] then
        (if \<not> saw then CNT_FOREIGN
         else if snd k \<or> length (fst k) + 1 > cap then CNT_INVALID
         else CNT_MARKER (fst k))
      else if items + 1 > 32 then CNT_INVALID
      else (case next_item p1 of
          None \<Rightarrow> CNT_INVALID
        | Some (i, ctr, e) \<Rightarrow> parse_items cap (sk_str cap k i) (saw \<or> ctr) (items + 1) e))"
  by pat_completeness auto
termination
proof (relation "measure (\<lambda>(cap, k, saw, items, p). length p)", goal_cases)
  case (2 cap k saw items p p1 x i y ctr e)
  have "length e < length p1" by (rule next_item_shorter [of p1 i ctr e]) (use 2 in auto)
  also have "\<dots> \<le> length p" unfolding 2(1) by (rule length_dropWhile_le)
  finally show ?case by simp
qed simp

declare parse_items.simps [simp del]

definition cnt_parse_content :: "string \<Rightarrow> nat \<Rightarrow> cnt_content" where
  "cnt_parse_content val cap =
     (if \<not> has_counter_fn val then CNT_FOREIGN
      else parse_items cap (sk_str cap ([], False) CNT_SEQ_MARK) False 0 val)"

subsection \<open>State\<close>

record cnt_inst =
  ci_name :: "32 word"
  ci_value :: int
  ci_depth :: nat

text \<open>The instances in the order of their creation; the counter \<^verbatim>\<open>n\<close> of the source is the length.\<close>

type_synonym cnt_state = "cnt_inst list"

fun top_scan :: "cnt_state \<Rightarrow> 32 word \<Rightarrow> nat \<Rightarrow> nat option" where
  "top_scan s name 0 = None"
| "top_scan s name (Suc i) = (if ci_name (s ! i) = name then Some i else top_scan s name i)"

definition top_of :: "cnt_state \<Rightarrow> 32 word \<Rightarrow> nat option" where
  "top_of s name = top_scan s name (length s)"

definition clampv :: "int \<Rightarrow> int" where
  "clampv v = (if v > CNT_VALUE_LIMIT then CNT_VALUE_LIMIT else if v < - CNT_VALUE_LIMIT then - CNT_VALUE_LIMIT else v)"

definition push_inst :: "nat \<Rightarrow> cnt_state \<Rightarrow> 32 word \<Rightarrow> int \<Rightarrow> cnt_state" where
  "push_inst depth s name v =
     (if length s \<ge> CNT_MAX_INSTANCES then s else s @ [\<lparr> ci_name = name, ci_value = v, ci_depth = depth \<rparr>])"

definition reset_one :: "nat \<Rightarrow> cnt_state \<Rightarrow> cnt_decl \<Rightarrow> cnt_state" where
  "reset_one depth s d =
     (case top_of s (cd_name d) of
        Some i \<Rightarrow>
          if ci_depth (s ! i) = depth then s[i := (s ! i)\<lparr>ci_value := cd_value d\<rparr>]
          else push_inst depth s (cd_name d) (cd_value d)
      | None \<Rightarrow> push_inst depth s (cd_name d) (cd_value d))"

definition cnt_reset :: "cnt_state \<Rightarrow> nat \<Rightarrow> cnt_decl list \<Rightarrow> cnt_state" where
  "cnt_reset s depth ds = foldl (reset_one depth) s ds"

text \<open>A missing counter is created at 0 and then incremented like any other.\<close>

definition increment_one :: "nat \<Rightarrow> cnt_state \<Rightarrow> cnt_decl \<Rightarrow> cnt_state" where
  "increment_one depth s d =
     (case top_of s (cd_name d) of
        Some i \<Rightarrow> s[i := (s ! i)\<lparr>ci_value := clampv (ci_value (s ! i) + cd_value d)\<rparr>]
      | None \<Rightarrow> push_inst depth s (cd_name d) (clampv (0 + cd_value d)))"

definition cnt_increment :: "cnt_state \<Rightarrow> nat \<Rightarrow> cnt_decl list \<Rightarrow> cnt_state" where
  "cnt_increment s depth ds = foldl (increment_one depth) s ds"

definition cnt_leave :: "cnt_state \<Rightarrow> nat \<Rightarrow> cnt_state" where
  "cnt_leave s depth = rev (dropWhile (\<lambda>x. ci_depth x \<ge> depth) (rev s))"

subsection \<open>Resolution\<close>

definition num_text :: "char \<Rightarrow> int \<Rightarrow> string" where
  "num_text st v = cnt_format (style_of_int (of_char st - 48)) v 40"

text \<open>The first byte of a C string at a position, its terminator at the end.\<close>

definition char_at :: "string \<Rightarrow> nat \<Rightarrow> char" where
  "char_at s i = (if i < length s then s ! i else NUL)"

definition counter_value :: "cnt_state \<Rightarrow> 32 word \<Rightarrow> int" where
  "counter_value s name = (case top_of s name of Some i \<Rightarrow> ci_value (s ! i) | None \<Rightarrow> 0)"

text \<open>The values of all instances of a name, outermost first, joined by the separator; 0 when there is none.\<close>

definition counters_text :: "cnt_state \<Rightarrow> 32 word \<Rightarrow> string \<Rightarrow> char \<Rightarrow> string" where
  "counters_text s name sep st =
     (case map ci_value (filter (\<lambda>x. ci_name x = name) s) of
        [] \<Rightarrow> num_text st 0
      | v # vs \<Rightarrow> num_text st v @ concat (map (\<lambda>v. sep @ num_text st v) vs))"

definition item_text :: "cnt_state option \<Rightarrow> (string \<Rightarrow> cptr) option \<Rightarrow> char \<Rightarrow> string \<Rightarrow> string" where
  "item_text s attr type item =
     (if type = CHR ''S'' then item
      else if type = CHR ''A'' then
        (case attr of None \<Rightarrow> [] | Some f \<Rightarrow> (case f item of None \<Rightarrow> [] | Some v \<Rightarrow> v))
      else if CNT_FIELD_SEP \<notin> set item then []
      else
        let name = cnt_hash (takeWhile (\<lambda>c. c \<noteq> CNT_FIELD_SEP) item);
            r = tl (dropWhile (\<lambda>c. c \<noteq> CNT_FIELD_SEP) item);
            st = (case s of None \<Rightarrow> [] | Some s \<Rightarrow> s) in
        if type = CHR ''C'' then num_text (char_at r 0) (counter_value st name)
        else if type = CHR ''N'' then
          if CNT_FIELD_SEP \<notin> set r then []
          else counters_text st name (takeWhile (\<lambda>c. c \<noteq> CNT_FIELD_SEP) r) (char_at (tl (dropWhile (\<lambda>c. c \<noteq> CNT_FIELD_SEP) r)) 0)
        else [])"

function resolve_items :: "cnt_state option \<Rightarrow> (string \<Rightarrow> cptr) option \<Rightarrow> string \<Rightarrow> string list" where
  "resolve_items s attr [] = []"
| "resolve_items s attr (type # p) =
     (if CNT_ITEM_END \<notin> set p then []
      else item_text s attr type (take (2 * CNT_STR_MAX - 1) (takeWhile (\<lambda>c. c \<noteq> CNT_ITEM_END) p))
           # resolve_items s attr (tl (dropWhile (\<lambda>c. c \<noteq> CNT_ITEM_END) p)))"
  by pat_completeness auto
termination
  by (relation "measure (\<lambda>(s, attr, p). length p)") (auto simp: less_Suc_eq_le intro: le_trans [OF diff_le_self length_dropWhile_le])

definition cnt_resolve :: "cnt_state option \<Rightarrow> cptr \<Rightarrow> (string \<Rightarrow> cptr) option \<Rightarrow> nat \<Rightarrow> string" where
  "cnt_resolve s marker attr cap =
     (if cap = 0 then []
      else if \<not> cnt_is_marker marker then fst (sk_str cap ([], False) (case marker of None \<Rightarrow> [] | Some m \<Rightarrow> m))
      else fst (foldl (sk_str cap) ([], False) (resolve_items s attr (drop (length CNT_SEQ_MARK) (the marker)))))"

section \<open>Reading formatted counters\<close>

text \<open>Numerals read with the subtractive rule, bijective numbers in base 26, Greek letters by their place.\<close>

definition roman_digit :: "char \<Rightarrow> nat" where
  "roman_digit c = (let d = ascii_lower c in
     if d = CHR ''m'' then 1000 else if d = CHR ''d'' then 500 else if d = CHR ''c'' then 100 else if d = CHR ''l'' then 50
     else if d = CHR ''x'' then 10 else if d = CHR ''v'' then 5 else 1)"

fun roman_value :: "string \<Rightarrow> int" where
  "roman_value [] = 0"
| "roman_value [c] = int (roman_digit c)"
| "roman_value (c # d # s) =
     (if roman_digit c < roman_digit d then - int (roman_digit c) else int (roman_digit c)) + roman_value (d # s)"

definition alpha_value :: "char \<Rightarrow> string \<Rightarrow> nat" where
  "alpha_value a s = foldl (\<lambda>n c. 26 * n + (of_char c - of_char a) + 1) 0 s"

definition greek_letters :: "string list" where
  "greek_letters = map utf8_put ([0x3B1..<0x3C2] @ [0x3C3..<0x3CA])"

definition greek_value :: "string \<Rightarrow> int" where
  "greek_value t = int (length (takeWhile (\<lambda>l. l \<noteq> t) greek_letters)) + 1"

definition read_counter :: "cnt_style \<Rightarrow> string \<Rightarrow> int option" where
  "read_counter style t =
     (if t \<noteq> [] \<and> (is_digit (hd t) \<or> hd t = CHR ''-'') then map_option fst (scan_int t)
      else case style of
        CNT_LOWER_ROMAN \<Rightarrow> Some (roman_value t)
      | CNT_UPPER_ROMAN \<Rightarrow> Some (roman_value t)
      | CNT_LOWER_ALPHA \<Rightarrow> Some (int (alpha_value CHR ''a'' t))
      | CNT_UPPER_ALPHA \<Rightarrow> Some (int (alpha_value CHR ''A'' t))
      | CNT_LOWER_GREEK \<Rightarrow> Some (greek_value t)
      | _ \<Rightarrow> None)"

lemma roman_value_append:
  assumes "s \<noteq> []" and "t = [] \<or> roman_digit (hd t) \<le> roman_digit (last s)"
  shows "roman_value (s @ t) = roman_value s + roman_value t"
  using assms
proof (induction s rule: roman_value.induct)
  case (2 c)
  then show ?case by (cases t) auto
qed auto

lemma less_ten_cases: "(b :: nat) < 10 \<longleftrightarrow> b \<in> {0, 1, 2, 3, 4, 5, 6, 7, 8, 9}"
  by auto

lemma roman_split:
  assumes "b < 10" and "k = 10 \<or> k = 100" and "r < k" and "t = roman_upper \<or> t = roman_lower"
  shows "roman t (k * b + r) = roman t (k * b) @ roman t r"
proof -
  have "r < 10 \<Longrightarrow> roman t (10 * b + r) = roman t (10 * b) @ roman t r"
    using assms(1,4) unfolding less_ten_cases [of b] roman_upper_def roman_lower_def by (elim insertE disjE) simp_all
  moreover have "r < 100 \<Longrightarrow> roman t (100 * b + r) = roman t (100 * b) @ roman t r"
    using assms(1,4) unfolding less_ten_cases [of b] roman_upper_def roman_lower_def by (elim insertE disjE) simp_all
  ultimately show ?thesis using assms(2,3) by auto
qed

text \<open>One decimal place: what it reads as, that it ends with a digit worth its place, its length and its letters.\<close>

definition place_ok :: "(nat \<times> string) list \<Rightarrow> nat \<Rightarrow> nat \<Rightarrow> bool" where
  "place_ok t k b \<longleftrightarrow> (let s = roman t (k * b) in
     roman_value s = int (k * b) \<and> s \<noteq> [] \<and> roman_digit (last s) \<ge> k \<and> length s \<le> 4
     \<and> list_all (\<lambda>c. is_alpha c \<and> roman_digit c \<le> 10 * k) s)"

lemma roman_places:
  assumes "t = roman_upper \<or> t = roman_lower" and "k = 1 \<or> k = 10 \<or> k = 100" and "0 < b" "b < 10"
  shows "place_ok t k b"
proof -
  have "list_all (place_ok roman_upper 1) [1..<10]" "list_all (place_ok roman_upper 10) [1..<10]"
    "list_all (place_ok roman_upper 100) [1..<10]" "list_all (place_ok roman_lower 1) [1..<10]"
    "list_all (place_ok roman_lower 10) [1..<10]" "list_all (place_ok roman_lower 100) [1..<10]" by code_simp+
  then show ?thesis using assms by (auto simp: list_all_iff)
qed

definition roman_good :: "(nat \<times> string) list \<Rightarrow> nat \<Rightarrow> nat \<Rightarrow> nat \<Rightarrow> bool" where
  "roman_good t n k d \<longleftrightarrow> roman_value (roman t n) = int n \<and> length (roman t n) \<le> k
     \<and> list_all (\<lambda>c. is_alpha c \<and> roman_digit c \<le> d) (roman t n)"

lemma roman_good_mono: "roman_good t n k d \<Longrightarrow> k \<le> k' \<Longrightarrow> d \<le> d' \<Longrightarrow> roman_good t n k' d'"
  by (auto simp: roman_good_def list_all_iff)

text \<open>A place in front of a numeral of smaller digits.\<close>

lemma roman_good_place:
  assumes t: "t = roman_upper \<or> t = roman_lower" and k: "k = 1 \<or> k = 10 \<or> k = 100" and b: "b < 10"
    and eq: "roman t (k * b + r) = roman t (k * b) @ roman t r" and g: "roman_good t r l k"
  shows "roman_good t (k * b + r) (l + 4) (10 * k)"
proof (cases "b = 0")
  case True
  then show ?thesis using roman_good_mono [OF g, of "l + 4" "10 * k"] by simp
next
  case False
  then have p: "place_ok t k b" using roman_places [OF t k] b by simp
  let ?h = "roman t (k * b)"
  have "roman t r = [] \<or> roman_digit (hd (roman t r)) \<le> roman_digit (last ?h)"
    using g p by (cases "roman t r") (auto simp: roman_good_def place_ok_def Let_def)
  moreover have "?h \<noteq> []" using p by (simp add: place_ok_def Let_def)
  ultimately have "roman_value (?h @ roman t r) = roman_value ?h + roman_value (roman t r)" by (intro roman_value_append)
  moreover have "list_all (\<lambda>c. is_alpha c \<and> roman_digit c \<le> 10 * k) (roman t r)" using g by (auto simp: roman_good_def list_all_iff)
  ultimately show ?thesis using g p unfolding roman_good_def eq by (simp add: place_ok_def Let_def)
qed

lemma roman_good_thousand:
  assumes t: "t = roman_upper \<or> t = roman_lower" and n: "n < 1000"
  shows "roman_good t n 12 1000"
proof -
  have z: "roman t 0 = []" using t by (auto simp: roman_upper_def roman_lower_def)
  obtain a b c where d: "n = 100 * a + (10 * b + c)" "a < 10" "b < 10" "c < 10"
  proof
    have "n = 10 * (n div 10) + n mod 10" "n div 10 = 10 * (n div 10 div 10) + n div 10 mod 10" by simp_all
    then show "n = 100 * (n div 10 div 10) + (10 * (n div 10 mod 10) + n mod 10)" by linarith
  qed (use n in auto)
  have "roman_good t (1 * c + 0) (0 + 4) (10 * 1)"
    by (rule roman_good_place [OF t]) (simp_all add: z roman_good_def d)
  then have 1: "roman_good t c 4 10" by simp
  have "roman_good t (10 * b + c) (4 + 4) (10 * 10)"
    by (rule roman_good_place [OF t _ d(3) roman_split [OF d(3) _ d(4) t] 1]) simp_all
  then have 2: "roman_good t (10 * b + c) 8 100" by simp
  have r: "10 * b + c < 100" using d(3,4) by linarith
  have "roman_good t n (8 + 4) (10 * 100)"
    unfolding d(1) by (rule roman_good_place [OF t _ d(2) roman_split [OF d(2) _ r t] 2]) simp_all
  then show ?thesis by simp
qed

lemma roman_good_all:
  assumes t: "t = roman_upper \<or> t = roman_lower" and n: "n < 4000"
  shows "roman_good t n 15 1000"
proof -
  have step: "roman_good t (m + 1000) (Suc k) 1000" if g: "roman_good t m k 1000" for m k
  proof -
    have m: "roman_digit CHR ''M'' = 1000" "is_alpha CHR ''M''" "roman_digit CHR ''m'' = 1000" "is_alpha CHR ''m''"
      by code_simp+
    obtain c where c: "roman t (m + 1000) = c # roman t m" "roman_digit c = 1000" "is_alpha c"
      using t that [of "CHR ''M''"] that [of "CHR ''m''"] m by (auto simp: roman_upper_def roman_lower_def)
    have d: "roman_digit x \<le> 1000" for x by (simp add: roman_digit_def Let_def)
    have "roman_value ([c] @ roman t m) = roman_value [c] + roman_value (roman t m)"
      by (rule roman_value_append) (auto simp: c(2) d)
    then show ?thesis using g c by (simp add: roman_good_def)
  qed
  consider "n < 1000" | "1000 \<le> n" "n < 2000" | "2000 \<le> n" "n < 3000" | "3000 \<le> n" using n by linarith
  then show ?thesis
  proof cases
    case 1
    then show ?thesis using roman_good_mono [OF roman_good_thousand [OF t]] by simp
  next
    case 2
    then show ?thesis using roman_good_mono [OF step [OF roman_good_thousand [OF t, of "n - 1000"]]] by simp
  next
    case 3
    then show ?thesis using roman_good_mono [OF step [OF step [OF roman_good_thousand [OF t, of "n - 2000"]]]] by simp
  next
    case 4
    then show ?thesis using roman_good_mono [OF step [OF step [OF step [OF roman_good_thousand [OF t, of "n - 3000"]]]]] n by simp
  qed
qed

lemma alpha_rev_value:
  "n < 26 ^ k \<Longrightarrow> of_char a + 25 < (256 :: nat) \<Longrightarrow> alpha_value a (rev (alpha_rev a k n)) = n"
proof (induction a k n rule: alpha_rev.induct)
  case (2 a k n)
  show ?case
  proof (cases "n > 0")
    case True
    then have "(n - 1) div 26 < 26 ^ k" using 2(2) by (simp add: less_mult_imp_div_less)
    then have "alpha_value a (rev (alpha_rev a k ((n - 1) div 26))) = (n - 1) div 26" using 2 True by simp
    moreover have "(n - 1) mod 26 < 26" by simp
    then have "(of_char a :: nat) + (n - 1) mod 26 < 256" using 2(3) by linarith
    then have "(of_char (char_of (of_char a + (n - 1) mod 26 :: nat) :: char) :: nat) = of_char a + (n - 1) mod 26" by simp
    moreover have "26 * ((n - 1) div 26) + (n - 1) mod 26 + 1 = n" using True by simp
    ultimately show ?thesis using True by (simp add: alpha_value_def del: of_char_of)
  qed (simp add: alpha_value_def)
qed (simp add: alpha_value_def)

lemma alpha_rev_chars:
  "a = CHR ''a'' \<or> a = CHR ''A'' \<Longrightarrow>
   list_all is_alpha (alpha_rev a k n) \<and> length (alpha_rev a k n) \<le> k \<and> (0 < n \<and> 0 < k \<longrightarrow> alpha_rev a k n \<noteq> [])"
proof (induction a k n rule: alpha_rev.induct)
  case (2 a k n)
  let ?c = "char_of (of_char a + (n - 1) mod 26 :: nat) :: char"
  have m: "(n - 1) mod 26 < 26" by simp
  have "(of_char ?c :: nat) = (if a = CHR ''a'' then 97 else 65) + (n - 1) mod 26" using 2(2) m by auto
  then have "is_alpha ?c" using m unfolding is_alpha_def of_char_classes by (auto split: if_splits)
  then show ?case using 2 by simp
qed simp

lemma scan_zero_show: "scan_int ((if v < 0 then ''-'' else []) @ ''0'' @ show_int \<bar>v\<bar>) = Some (v, [])"
proof -
  let ?ds = "CHR ''0'' # show_nat (nat \<bar>v\<bar>)"
  have d: "list_all is_digit ?ds" "digits_value ?ds = \<bar>v\<bar>"
    using show_nat_digits [of "nat \<bar>v\<bar>"] by (simp_all add: digits_value_def digit_value_def is_digit_def)
  have "show_int \<bar>v\<bar> = show_nat (nat \<bar>v\<bar>)" by (simp add: show_int_def)
  then show ?thesis using scan_int_end [OF d(1)] d(2) by (cases "v < 0") simp_all
qed

lemma decimal_head: "show_int v \<noteq> [] \<and> (is_digit (hd (show_int v)) \<or> hd (show_int v) = CHR ''-'')"
  using show_nat_digits [of "nat v"] by (cases "show_nat (nat v)") (auto simp: show_int_def)

lemma alpha_head: "list_all is_alpha t \<Longrightarrow> t \<noteq> [] \<Longrightarrow> \<not> (is_digit (hd t) \<or> hd t = CHR ''-'')"
  by (cases t) (auto simp: is_alpha_def of_char_classes)

lemma greek_reads_back:
  "list_all (\<lambda>v. let t = utf8_put (greek_cp v) in
     greek_value t = int v \<and> length t = 2 \<and> \<not> is_digit (hd t) \<and> hd t \<noteq> CHR ''-'') [1..<25]"
  by code_simp

definition numeric_style :: "cnt_style \<Rightarrow> bool" where
  "numeric_style st \<longleftrightarrow> st \<notin> {CNT_DISC, CNT_CIRCLE, CNT_SQUARE, CNT_NONE}"

text \<open>A value of the C type in a numeric style: at most twenty bytes, read back as the value.\<close>

lemma style_text_reads_back:
  assumes st: "numeric_style st" and v: "- (2 ^ 63) \<le> v" "v < 2 ^ 63"
  shows "read_counter st (style_text st v) = Some v \<and> length (style_text st v) \<le> 20"
proof -
  have dec: "read_counter st (show_int v) = Some v \<and> length (show_int v) \<le> 20"
    using decimal_head [of v] show_int_length [OF v] by (simp add: read_counter_def scan_show_int)
  have roman: "read_counter st (roman t (nat v)) = Some v \<and> length (roman t (nat v)) \<le> 20"
    if "t = roman_upper \<or> t = roman_lower" "st = CNT_LOWER_ROMAN \<or> st = CNT_UPPER_ROMAN" "1 \<le> v" "v \<le> 3999" for t
  proof -
    have g: "roman_good t (nat v) 15 1000" using that by (intro roman_good_all) auto
    then have "roman t (nat v) \<noteq> []" using that(3) by (auto simp: roman_good_def)
    moreover have "list_all is_alpha (roman t (nat v))" using g by (auto simp: roman_good_def list_all_iff)
    ultimately show ?thesis using g alpha_head that(2,3) by (auto simp: roman_good_def read_counter_def)
  qed
  have alpha: "read_counter st (rev (alpha_rev a 16 (nat v))) = Some v \<and> length (alpha_rev a 16 (nat v)) \<le> 20"
    if "st = CNT_LOWER_ALPHA \<and> a = CHR ''a'' \<or> st = CNT_UPPER_ALPHA \<and> a = CHR ''A''" "1 \<le> v" for a
  proof -
    have "nat v < 26 ^ 16" using v(2) by (simp add: nat_less_iff)
    then have "alpha_value a (rev (alpha_rev a 16 (nat v))) = nat v" using that(1) by (intro alpha_rev_value) auto
    moreover have c: "list_all is_alpha (rev (alpha_rev a 16 (nat v)))" "length (alpha_rev a 16 (nat v)) \<le> 16" "rev (alpha_rev a 16 (nat v)) \<noteq> []"
      using alpha_rev_chars [of a 16 "nat v"] that by auto
    ultimately show ?thesis using alpha_head [OF c(1,3)] that by (auto simp: read_counter_def)
  qed
  have zero: "read_counter st z = Some v \<and> length z \<le> 20"
    if "z = (if v < 0 then ''-'' else []) @ ''0'' @ show_int \<bar>v\<bar>" "- 10 < v" "v < 10" for z
  proof -
    have "z \<noteq> []" "is_digit (hd z) \<or> hd z = CHR ''-''" unfolding that(1) by (simp_all add: is_digit_def)
    moreover have "length (show_int \<bar>v\<bar>) = 1" using that(2,3) by (simp add: show_int_def show_nat.simps nat_less_iff)
    ultimately show ?thesis using scan_zero_show [of v] by (simp add: read_counter_def that(1))
  qed
  have greek: "read_counter CNT_LOWER_GREEK t = Some v \<and> length t \<le> 20"
    if "1 \<le> v" "v \<le> 24" "t = utf8_put (greek_cp (nat v))" for t
  proof -
    have "nat v \<in> set [1..<25]" using that by auto
    then have "greek_value t = v" "length t = 2" "\<not> is_digit (hd t)" "hd t \<noteq> CHR ''-''"
      using greek_reads_back that unfolding list_all_iff Let_def by auto
    then show ?thesis by (simp add: read_counter_def)
  qed
  show ?thesis
  proof (cases st)
    case CNT_LOWER_GREEK
    then show ?thesis using dec greek by (auto simp: style_text_def)
  next
    case CNT_DECIMAL_ZERO
    then show ?thesis using dec zero by (auto simp: style_text_def)
  qed (use st dec roman alpha in \<open>auto simp: style_text_def numeric_style_def\<close>)
qed

text \<open>C23: Round trip: a counter value formatted in a numeric style, decimal with or without leading zero, roman,
  alphabetic or Greek, with the decimal fallback outside the range of the style, is read back as that
  value by the reader of the style; so no two values of the C type have the same text.\<close>

theorem cnt_format_reads_back:
  assumes "numeric_style st" and "- (2 ^ 63) \<le> v" and "v < 2 ^ 63" and "21 \<le> cap"
  shows "read_counter st (cnt_format st v cap) = Some v"
proof -
  have "take (cap - 1) (take 63 (style_text st v)) = style_text st v"
    using style_text_reads_back [OF assms(1-3)] assms(4) by auto
  then show ?thesis using style_text_reads_back [OF assms(1-3)] assms(4) by (simp add: cnt_format_def)
qed

lemma cnt_format_reads_back_witness:
  "cnt_format CNT_UPPER_ROMAN 1994 40 = ''MCMXCIV'' \<and> read_counter CNT_UPPER_ROMAN ''MCMXCIV'' = Some 1994"
proof -
  have f: "cnt_format CNT_UPPER_ROMAN 1994 40 = ''MCMXCIV''" by code_simp
  show ?thesis using cnt_format_reads_back [of CNT_UPPER_ROMAN 1994 40] by (simp add: f numeric_style_def)
qed

section \<open>Generated content\<close>

text \<open>Content as the author means it: its items, the text they stand for, the CSS that writes them, and the form
  they have in a marker.\<close>

datatype content_item = Str string | Attr string | Counter string cnt_style | Counters string string cnt_style

definition style_name :: "cnt_style \<Rightarrow> string" where
  "style_name st = (case find (\<lambda>(n, s). s = st) style_names of Some (n, s) \<Rightarrow> n | None \<Rightarrow> [])"

fun print_item :: "content_item \<Rightarrow> string" where
  "print_item (Str t) = [CHR 0x22] @ t @ [CHR 0x22]"
| "print_item (Attr a) = ''attr('' @ a @ '')''"
| "print_item (Counter n st) = ''counter('' @ n @ '','' @ style_name st @ '')''"
| "print_item (Counters n sep st) = ''counters('' @ n @ '','' @ [CHR 0x22] @ sep @ [CHR 0x22] @ '','' @ style_name st @ '')''"

fun encode_item :: "content_item \<Rightarrow> string" where
  "encode_item (Str t) = ''S'' @ t @ [CNT_ITEM_END]"
| "encode_item (Attr a) = ''A'' @ a @ [CNT_ITEM_END]"
| "encode_item (Counter n st) = ''C'' @ n @ [CNT_FIELD_SEP, char_of (48 + style_code st), CNT_ITEM_END]"
| "encode_item (Counters n sep st) =
     ''N'' @ n @ [CNT_FIELD_SEP] @ sep @ [CNT_FIELD_SEP, char_of (48 + style_code st), CNT_ITEM_END]"

definition join :: "string \<Rightarrow> string list \<Rightarrow> string" where
  "join sep ts = (case ts of [] \<Rightarrow> [] | t # ts \<Rightarrow> t @ concat (map (\<lambda>x. sep @ x) ts))"

text \<open>The value of the innermost instance of a counter, and all its values from the outermost in.\<close>

definition values_of :: "cnt_state \<Rightarrow> string \<Rightarrow> int list" where
  "values_of s name = map ci_value (filter (\<lambda>x. ci_name x = cnt_hash name) s)"

fun render_item :: "cnt_state \<Rightarrow> (string \<Rightarrow> cptr) \<Rightarrow> content_item \<Rightarrow> string" where
  "render_item s attr (Str t) = t"
| "render_item s attr (Attr a) = (case attr a of None \<Rightarrow> [] | Some v \<Rightarrow> v)"
| "render_item s attr (Counter n st) = style_text st (if values_of s n = [] then 0 else last (values_of s n))"
| "render_item s attr (Counters n sep st) = join sep (map (style_text st) (if values_of s n = [] then [0] else values_of s n))"

definition plain_char :: "char \<Rightarrow> bool" where
  "plain_char c \<longleftrightarrow> \<not> is_control c \<and> c \<noteq> CHR 0x22 \<and> c \<noteq> CHR 0x5C"

fun item_ok :: "content_item \<Rightarrow> bool" where
  "item_ok (Str t) \<longleftrightarrow> list_all plain_char t \<and> length t < CNT_STR_MAX"
| "item_ok (Attr a) \<longleftrightarrow> a \<noteq> [] \<and> list_all is_ident_char a \<and> length a < CNT_STR_MAX"
| "item_ok (Counter n st) \<longleftrightarrow> valid_name n"
| "item_ok (Counters n sep st) \<longleftrightarrow> valid_name n \<and> list_all plain_char sep \<and> length sep + 1 < CNT_STR_MAX"

fun is_counter :: "content_item \<Rightarrow> bool" where
  "is_counter (Counter n st) = True"
| "is_counter (Counters n sep st) = True"
| "is_counter it = False"

definition marker_of :: "content_item list \<Rightarrow> string" where
  "marker_of its = CNT_SEQ_MARK @ concat (map encode_item its)"

definition insts_ok :: "cnt_state \<Rightarrow> bool" where
  "insts_ok s \<longleftrightarrow> list_all (\<lambda>x. \<bar>ci_value x\<bar> \<le> CNT_VALUE_LIMIT) s"

subsection \<open>Expansion of a marker\<close>

lemma all_styles: "list_all P styles \<Longrightarrow> P st"
  by (cases st) (simp_all add: styles_def)

lemma style_round: "style_of_int (of_char (char_of (48 + style_code st) :: char) - 48) = st"
  by (rule all_styles [where P = "\<lambda>st. style_of_int (of_char (char_of (48 + style_code st) :: char) - 48) = st"]) code_simp

lemma style_text_short:
  assumes "- (2 ^ 63) \<le> v" "v < 2 ^ 63"
  shows "length (style_text st v) \<le> 20"
  using style_text_reads_back [of st v] assms by (cases "numeric_style st") (auto simp: numeric_style_def style_text_def)

lemma num_text_style: "\<bar>v\<bar> \<le> CNT_VALUE_LIMIT \<Longrightarrow> num_text (char_of (48 + style_code st)) v = style_text st v"
proof -
  assume v: "\<bar>v\<bar> \<le> CNT_VALUE_LIMIT"
  have "length (style_text st v) \<le> 20" using v by (intro style_text_short) (auto simp: CNT_VALUE_LIMIT_def abs_if split: if_splits)
  then show ?thesis by (simp add: num_text_def cnt_format_def style_round)
qed

lemma top_scan_last:
  "i \<le> length s \<Longrightarrow> (case top_scan s name i of
      None \<Rightarrow> filter (\<lambda>x. ci_name x = name) (take i s) = []
    | Some j \<Rightarrow> j < i \<and> filter (\<lambda>x. ci_name x = name) (take i s) \<noteq> []
        \<and> last (filter (\<lambda>x. ci_name x = name) (take i s)) = s ! j)"
proof (induction i)
  case (Suc i)
  then show ?case by (cases "ci_name (s ! i) = name") (auto simp: take_Suc_conv_app_nth split: option.splits)
qed simp

lemma counter_value_last:
  "counter_value s (cnt_hash n) = (if values_of s n = [] then 0 else last (values_of s n))"
  using top_scan_last [of "length s" s "cnt_hash n"]
  by (auto simp: counter_value_def top_of_def values_of_def last_map split: option.splits)

lemma ident_not_sep: "is_ident_char c \<Longrightarrow> c \<noteq> CNT_FIELD_SEP \<and> c \<noteq> CNT_ITEM_END"
proof -
  have "\<not> is_ident_char CNT_FIELD_SEP" "\<not> is_ident_char CNT_ITEM_END" by code_simp+
  then show "is_ident_char c \<Longrightarrow> ?thesis" by auto
qed

lemma plain_not_sep: "plain_char c \<Longrightarrow> c \<noteq> CNT_FIELD_SEP \<and> c \<noteq> CNT_ITEM_END"
proof -
  have "\<not> plain_char CNT_FIELD_SEP" "\<not> plain_char CNT_ITEM_END" by code_simp+
  then show "plain_char c \<Longrightarrow> ?thesis" by auto
qed

lemma name_chars: "valid_name n \<Longrightarrow> CNT_FIELD_SEP \<notin> set n \<and> CNT_ITEM_END \<notin> set n \<and> n \<noteq> [] \<and> length n < 64"
  using ident_not_sep by (auto simp: valid_name_def list_all_iff CNT_NAME_MAX_def)

lemma plain_chars: "list_all plain_char t \<Longrightarrow> CNT_FIELD_SEP \<notin> set t \<and> CNT_ITEM_END \<notin> set t"
  using plain_not_sep by (auto simp: list_all_iff)

lemma style_char: "char_of (48 + style_code st) \<noteq> CNT_FIELD_SEP \<and> char_of (48 + style_code st) \<noteq> CNT_ITEM_END"
  by (rule all_styles [where P = "\<lambda>st. char_of (48 + style_code st) \<noteq> CNT_FIELD_SEP \<and> char_of (48 + style_code st) \<noteq> CNT_ITEM_END"]) code_simp

fun item_type :: "content_item \<Rightarrow> char" where
  "item_type (Str t) = CHR ''S''"
| "item_type (Attr a) = CHR ''A''"
| "item_type (Counter n st) = CHR ''C''"
| "item_type (Counters n sep st) = CHR ''N''"

fun item_body :: "content_item \<Rightarrow> string" where
  "item_body (Str t) = t"
| "item_body (Attr a) = a"
| "item_body (Counter n st) = n @ [CNT_FIELD_SEP, char_of (48 + style_code st)]"
| "item_body (Counters n sep st) = n @ [CNT_FIELD_SEP] @ sep @ [CNT_FIELD_SEP, char_of (48 + style_code st)]"

lemma encode_item_body: "encode_item it = item_type it # item_body it @ [CNT_ITEM_END]"
  by (cases it) simp_all

lemma seps_differ: "CNT_FIELD_SEP \<noteq> CNT_ITEM_END"
  by code_simp

lemma item_body_ok: "item_ok it \<Longrightarrow> CNT_ITEM_END \<notin> set (item_body it) \<and> length (item_body it) < 2 * CNT_STR_MAX"
  using ident_not_sep seps_differ
  by (cases it) (auto simp: plain_chars name_chars style_char [THEN conjunct2, symmetric] CNT_STR_MAX_def list_all_iff
      dest: name_chars plain_not_sep)

lemma values_bound: "insts_ok s \<Longrightarrow> v \<in> set (values_of s n) \<Longrightarrow> \<bar>v\<bar> \<le> CNT_VALUE_LIMIT"
  by (auto simp: insts_ok_def values_of_def list_all_iff)

lemma counters_text_join:
  assumes "insts_ok s"
  shows "counters_text s (cnt_hash n) sep (char_of (48 + style_code st))
    = join sep (map (style_text st) (if values_of s n = [] then [0] else values_of s n))"
proof -
  have z: "num_text (char_of (48 + style_code st)) 0 = style_text st 0" by (rule num_text_style) (simp add: CNT_VALUE_LIMIT_def)
  have v: "map (num_text (char_of (48 + style_code st))) (values_of s n) = map (style_text st) (values_of s n)"
    using num_text_style values_bound [OF assms] by simp
  show ?thesis
    using z v unfolding counters_text_def values_of_def [symmetric]
    by (cases "values_of s n") (auto simp: join_def comp_def cong: map_cong)
qed

lemma item_text_render:
  assumes "item_ok it" and s: "insts_ok s"
  shows "item_text (Some s) (Some attr) (item_type it) (item_body it) = render_item s attr it"
proof (cases it)
  case (Counter n st)
  have "CNT_FIELD_SEP \<notin> set n" using assms(1) name_chars by (simp add: Counter)
  moreover have "\<bar>counter_value s (cnt_hash n)\<bar> \<le> CNT_VALUE_LIMIT"
    using values_bound [OF s, of "last (values_of s n)" n] by (auto simp: counter_value_last CNT_VALUE_LIMIT_def)
  ultimately show ?thesis
    by (simp add: Counter item_text_def Let_def char_at_def num_text_style counter_value_last)
next
  case (Counters n sep st)
  have "CNT_FIELD_SEP \<notin> set n" "CNT_FIELD_SEP \<notin> set sep" using assms(1) name_chars plain_chars by (simp_all add: Counters)
  then show ?thesis using counters_text_join [OF s] by (simp add: Counters item_text_def Let_def char_at_def)
qed (simp_all add: item_text_def)

lemma resolve_items_render:
  "list_all item_ok its \<Longrightarrow> insts_ok s \<Longrightarrow>
   resolve_items (Some s) (Some attr) (concat (map encode_item its)) = map (render_item s attr) its"
proof (induction its)
  case (Cons it its)
  have b: "CNT_ITEM_END \<notin> set (item_body it)" "length (item_body it) < 2 * CNT_STR_MAX"
    using item_body_ok [of it] Cons.prems(1) by auto
  have e: "concat (map encode_item (it # its)) = item_type it # item_body it @ CNT_ITEM_END # concat (map encode_item its)"
    by (simp add: encode_item_body)
  have "take (2 * CNT_STR_MAX - 1) (item_body it) = item_body it" using b(2) by simp
  then show ?case unfolding e using Cons b item_text_render [of it s attr] by (simp del: map_map)
qed simp

lemma sk_str_take:
  "length (fst k) < cap \<Longrightarrow> fst (sk_str cap k t) = take (cap - 1) (fst k @ t)
     \<and> snd (sk_str cap k t) = (snd k \<or> cap \<le> length (fst k) + length t)"
proof (induction t arbitrary: k)
  case (Cons c t)
  show ?case
  proof (cases "length (fst k) + 1 \<ge> cap")
    case True
    then have l: "length (fst k) = cap - 1" using Cons.prems by simp
    have "sk_str cap k (c # t) = sk_str cap (fst k, True) t" using True by (simp add: sk_str_def sk_char_def)
    then show ?thesis using Cons.IH [of "(fst k, True)"] Cons.prems l by auto
  next
    case False
    then have "sk_str cap k (c # t) = sk_str cap (fst k @ [c], snd k) t" by (simp add: sk_str_def sk_char_def)
    then show ?thesis using Cons.IH [of "(fst k @ [c], snd k)"] False by simp
  qed
qed (simp add: sk_str_def)

lemma sk_str_concat:
  "length (fst k) < cap \<Longrightarrow> fst (foldl (sk_str cap) k ts) = take (cap - 1) (fst k @ concat ts)"
proof (induction ts arbitrary: k)
  case (Cons t ts)
  have k: "fst (sk_str cap k t) = take (cap - 1) (fst k @ t)" using sk_str_take [OF Cons.prems] by blast
  have "length (fst (sk_str cap k t)) < cap" unfolding k using Cons.prems by auto
  from Cons.IH [OF this] show ?case unfolding k by (simp add: min_def)
qed simp

lemma cnt_resolve_marker:
  assumes "list_all item_ok its" and "insts_ok s" and "0 < cap"
  shows "cnt_resolve (Some s) (Some (marker_of its)) (Some attr) cap = take (cap - 1) (concat (map (render_item s attr) its))"
proof -
  have "cnt_is_marker (Some (marker_of its))" by (simp add: cnt_is_marker_def marker_of_def)
  moreover have "drop (length CNT_SEQ_MARK) (marker_of its) = concat (map encode_item its)" by (simp add: marker_of_def)
  ultimately show ?thesis
    using resolve_items_render [OF assms(1,2)] sk_str_concat [of "([], False)" cap] assms(3) by (simp add: cnt_resolve_def)
qed

subsection \<open>Parsing of content\<close>

lemma read_string_plain:
  "list_all plain_char t \<Longrightarrow> length dst + length t < cap \<Longrightarrow>
   read_string CHR 0x22 cap dst (t @ CHR 0x22 # r) = Some (dst @ t, r)"
proof (induction t arbitrary: dst)
  case (Cons c t)
  then show ?case by (simp add: plain_char_def put_byte_def)
qed simp

text \<open>Text that neither closes nor opens anything.\<close>

definition arg_char :: "char \<Rightarrow> bool" where
  "arg_char c \<longleftrightarrow> \<not> is_quote c \<and> c \<noteq> CHR '')'' \<and> c \<noteq> CHR ''('' \<and> c \<noteq> CHR '','' \<and> \<not> cnt_ws c"

lemma ident_arg_char: "is_ident_char c \<Longrightarrow> arg_char c"
proof -
  have "\<not> is_ident_char CHR 0x22" "\<not> is_ident_char CHR 0x27" "\<not> is_ident_char CHR '')''" "\<not> is_ident_char CHR ''(''"
    "\<not> is_ident_char CHR '',''" "\<not> is_ident_char CHR '' ''" "\<not> is_ident_char CHR 0x09" "\<not> is_ident_char CHR 0x0A"
    "\<not> is_ident_char CHR 0x0D" "\<not> is_ident_char CHR 0x0C" by code_simp+
  then show "is_ident_char c \<Longrightarrow> arg_char c" by (auto simp: arg_char_def is_quote_def cnt_ws_def)
qed

lemma find_close_arg:
  "list_all (\<lambda>c. arg_char c \<or> c = CHR '','') a \<Longrightarrow> find_close None (a @ r) = find_close None r"
  by (induction a) (auto simp: arg_char_def is_quote_def)

lemma find_close_quoted:
  "list_all plain_char t \<Longrightarrow> find_close (Some CHR 0x22) (t @ CHR 0x22 # r) = find_close None r"
  by (induction t) (auto simp: plain_char_def)

lemma skip_ws_arg: "\<not> cnt_ws (hd p) \<Longrightarrow> skip_ws bl p = p"
  by (cases p) auto

lemma cnt_rtrim_arg: "list_all arg_char a \<Longrightarrow> cnt_rtrim a = a"
  by (cases a rule: rev_cases) (auto simp: cnt_rtrim_def arg_char_def)

lemma next_arg_plain:
  assumes "a \<noteq> []" "list_all arg_char a" "length a < CNT_STR_MAX" "x = CHR '','' # y \<or> x = []"
  shows "next_arg (length r) (a @ x @ r) = Some (a, x @ r)" "skip_ws (length r) (a @ x @ r) = a @ x @ r"
proof -
  obtain c a' where a: "a = c # a'" using assms(1) by (cases a) auto
  have c: "\<not> is_quote c" "\<not> cnt_ws c" using assms(2) a by (auto simp: arg_char_def)
  have comma: "CHR '','' \<notin> set a" using assms(2) by (auto simp: arg_char_def list_all_iff)
  have "takeWhile (\<lambda>c. c \<noteq> CHR '','') (a @ x) = a" using assms(4) comma by auto
  then show "next_arg (length r) (a @ x @ r) = Some (a, x @ r)"
    using assms c cnt_rtrim_arg [OF assms(2)] by (simp add: next_arg_def Let_def a)
  show "skip_ws (length r) (a @ x @ r) = a @ x @ r" by (rule skip_ws_arg) (simp add: a c)
qed

lemma next_arg_quoted:
  assumes "list_all plain_char t" "length t + 1 < CNT_STR_MAX"
  shows "next_arg (length r) (CHR 0x22 # t @ CHR 0x22 # CHR '','' # y @ r) = Some (CHR 0x22 # t, CHR '','' # y @ r)"
    "skip_ws (length r) (CHR 0x22 # t @ CHR 0x22 # CHR '','' # y @ r) = CHR 0x22 # t @ CHR 0x22 # CHR '','' # y @ r"
proof -
  have "read_string CHR 0x22 (CNT_STR_MAX - 1) [] (t @ CHR 0x22 # CHR '','' # y @ r) = Some (t, CHR '','' # y @ r)"
    using read_string_plain [OF assms(1), of "[]" "CNT_STR_MAX - 1"] assms(2) by simp
  moreover have "\<not> cnt_ws CHR '',''" "\<not> cnt_ws CHR 0x22" by code_simp+
  ultimately show "next_arg (length r) (CHR 0x22 # t @ CHR 0x22 # CHR '','' # y @ r) = Some (CHR 0x22 # t, CHR '','' # y @ r)"
    "skip_ws (length r) (CHR 0x22 # t @ CHR 0x22 # CHR '','' # y @ r) = CHR 0x22 # t @ CHR 0x22 # CHR '','' # y @ r"
    by (simp_all add: next_arg_def is_quote_def skip_ws_arg)
qed

lemma style_names_ok:
  "style_of (style_name st) = st \<and> style_name st \<noteq> [] \<and> list_all is_ident_char (style_name st) \<and> length (style_name st) < 64"
  by (rule all_styles [where P = "\<lambda>st. style_of (style_name st) = st \<and> style_name st \<noteq> []
    \<and> list_all is_ident_char (style_name st) \<and> length (style_name st) < 64"]) code_simp

lemma ident_args: "list_all is_ident_char a \<Longrightarrow> list_all arg_char a"
  using ident_arg_char by (auto simp: list_all_iff)

lemma name_arg:
  assumes "valid_name n"
  shows "n \<noteq> []" "list_all arg_char n" "length n < CNT_STR_MAX" "hd n \<noteq> CHR 0x22"
proof -
  show n: "n \<noteq> []" "list_all arg_char n" "length n < CNT_STR_MAX"
    using assms ident_args by (auto simp: valid_name_def CNT_NAME_MAX_def CNT_STR_MAX_def)
  then show "hd n \<noteq> CHR 0x22" by (cases n) (auto simp: arg_char_def is_quote_def)
qed

lemma style_arg:
  shows "style_name st \<noteq> []" "list_all arg_char (style_name st)" "length (style_name st) < CNT_STR_MAX" "hd (style_name st) \<noteq> CHR 0x22"
proof -
  show n: "style_name st \<noteq> []" "list_all arg_char (style_name st)" "length (style_name st) < CNT_STR_MAX"
    using style_names_ok [of st] ident_args by (auto simp: CNT_STR_MAX_def)
  then show "hd (style_name st) \<noteq> CHR 0x22" by (cases "style_name st") (auto simp: arg_char_def is_quote_def)
qed

text \<open>The arguments that the printed functions have.\<close>

lemma split_args_last:
  assumes "a \<noteq> []" "list_all arg_char a" "length a < CNT_STR_MAX" "length fs < 3"
  shows "split_args (length r) (a @ r) fs = Some (fs @ [a])"
  using next_arg_plain [OF assms(1-3), of "[]" "[]" r] assms(4) by (simp add: split_args.simps [of "length r" "a @ r"])

lemma split_args_more:
  assumes "a \<noteq> []" "list_all arg_char a" "length a < CNT_STR_MAX" "length fs < 3"
  shows "split_args (length r) (a @ CHR '','' # y @ r) fs = split_args (length r) (y @ r) (fs @ [a])"
  using next_arg_plain [OF assms(1-3), of "CHR '','' # y" y r] assms(4)
  by (simp add: split_args.simps [of "length r" "a @ CHR '','' # y @ r"])

lemma split_args_quoted:
  assumes "list_all plain_char t" "length t + 1 < CNT_STR_MAX" "length fs < 3"
  shows "split_args (length r) (CHR 0x22 # t @ CHR 0x22 # CHR '','' # y @ r) fs = split_args (length r) (y @ r) (fs @ [CHR 0x22 # t])"
  using next_arg_quoted [OF assms(1,2), of r y] assms(3)
  by (simp add: split_args.simps [of "length r" "CHR 0x22 # t @ CHR 0x22 # CHR '','' # y @ r"])

lemma next_item_fn:
  assumes "word \<in> {''counter'', ''counters'', ''attr''}" and "find_close None (args @ CHR '')'' # r) = Some (CHR '')'' # r)"
    and "split_args (length (CHR '')'' # r)) (args @ CHR '')'' # r) [] = Some f" and "fn_item word f = Some (i, ctr)"
  shows "next_item (word @ CHR ''('' # args @ CHR '')'' # r) = Some (i, ctr, r)"
proof -
  have w: "list_all (\<lambda>w. w \<noteq> [] \<and> length w < 24 \<and> \<not> is_quote (hd w) \<and> list_all (\<lambda>c. \<not> cnt_ws c \<and> c \<noteq> CHR ''('') w)
      [''counter'', ''counters'', ''attr'']" by code_simp
  have w: "word \<noteq> []" "length word < 24" "\<not> is_quote (hd word)" "\<forall>c \<in> set word. \<not> cnt_ws c \<and> c \<noteq> CHR ''(''"
    using w assms(1) by (auto simp: list_all_iff)
  have "takeWhile (\<lambda>c. \<not> cnt_ws c \<and> c \<noteq> CHR ''('') (word @ CHR ''('' # args @ CHR '')'' # r) = word"
    "dropWhile (\<lambda>c. \<not> cnt_ws c \<and> c \<noteq> CHR ''('') (word @ CHR ''('' # args @ CHR '')'' # r) = CHR ''('' # args @ CHR '')'' # r"
    using w(4) by (simp_all add: takeWhile_append dropWhile_append)
  then show ?thesis using w assms(2-) by (simp add: next_item_def Let_def)
qed

lemma fn_words: "ci_eq ''counter'' ''counter''" "ci_eq ''counters'' ''counters''" "\<not> ci_eq ''counters'' ''counter''"
  "ci_eq ''attr'' ''attr''" "\<not> ci_eq ''attr'' ''counter''" "\<not> ci_eq ''attr'' ''counters''"
  by code_simp+

lemma next_item_print:
  assumes "item_ok it"
  shows "next_item (print_item it @ r) = Some (encode_item it, is_counter it, r)"
proof (cases it)
  case (Str t)
  then show ?thesis using read_string_plain [of t "[]" CNT_STR_MAX r] assms by (simp add: next_item_def is_quote_def)
next
  case (Attr a)
  have a: "a \<noteq> []" "list_all arg_char a" "length a < CNT_STR_MAX" "list_all is_ident_char a" "hd a \<noteq> CHR 0x22"
    using assms ident_args [of a] by (auto simp: Attr arg_char_def is_quote_def) (cases a; auto simp: arg_char_def is_quote_def)
  have "next_item (''attr'' @ CHR ''('' # a @ CHR '')'' # r) = Some (encode_item it, False, r)"
    by (rule next_item_fn [OF _ _ split_args_last [OF a(1-3)]])
      (use a find_close_arg [of a "CHR '')'' # r"] in \<open>auto simp: fn_item_def fn_words Attr list_all_iff\<close>)
  then show ?thesis by (simp add: Attr)
next
  case (Counter n st)
  have n: "valid_name n" using assms by (simp add: Counter)
  let ?args = "n @ CHR '','' # style_name st"
  have s: "split_args (length (CHR '')'' # r)) (?args @ CHR '')'' # r) [] = Some [n, style_name st]"
    using split_args_more [OF name_arg(1-3) [OF n], of "[]" "CHR '')'' # r" "style_name st"]
      split_args_last [OF style_arg(1-3), of "[n]" "CHR '')'' # r" st] by simp
  have c: "find_close None (?args @ CHR '')'' # r) = Some (CHR '')'' # r)"
    using find_close_arg [of ?args "CHR '')'' # r"] name_arg(2) [OF n] style_arg(2) [of st] by (auto simp: list_all_iff)
  have "next_item (''counter'' @ CHR ''('' # ?args @ CHR '')'' # r) = Some (encode_item it, True, r)"
    by (rule next_item_fn [OF _ c s]) (use n name_arg(4) [OF n] style_arg(4) [of st] style_names_ok [of st] in \<open>auto simp: fn_item_def fn_words Counter\<close>)
  then show ?thesis by (simp add: Counter)
next
  case (Counters n sep st)
  have n: "valid_name n" "list_all plain_char sep" "length sep + 1 < CNT_STR_MAX" using assms by (simp_all add: Counters)
  let ?args = "n @ CHR '','' # CHR 0x22 # sep @ CHR 0x22 # CHR '','' # style_name st"
  have s: "split_args (length (CHR '')'' # r)) (?args @ CHR '')'' # r) [] = Some [n, CHR 0x22 # sep, style_name st]"
    using split_args_more [OF name_arg(1-3) [OF n(1)], of "[]" "CHR '')'' # r" "CHR 0x22 # sep @ CHR 0x22 # CHR '','' # style_name st"]
      split_args_quoted [OF n(2,3), of "[n]" "CHR '')'' # r" "style_name st"]
      split_args_last [OF style_arg(1-3), of "[n, CHR 0x22 # sep]" "CHR '')'' # r" st] by simp
  have "find_close None (CHR '','' # style_name st @ CHR '')'' # r) = Some (CHR '')'' # r)"
    using find_close_arg [of "CHR '','' # style_name st" "CHR '')'' # r"] style_arg(2) [of st] by (auto simp: list_all_iff)
  then have c: "find_close None (?args @ CHR '')'' # r) = Some (CHR '')'' # r)"
    using find_close_arg [of "n @ '',''" "CHR 0x22 # sep @ CHR 0x22 # CHR '','' # style_name st @ CHR '')'' # r"] name_arg(2) [OF n(1)]
      find_close_quoted [OF n(2), of "CHR '','' # style_name st @ CHR '')'' # r"] by (auto simp: list_all_iff is_quote_def)
  have "next_item (''counters'' @ CHR ''('' # ?args @ CHR '')'' # r) = Some (encode_item it, True, r)"
    by (rule next_item_fn [OF _ c s])
      (use n(1) name_arg(4) [OF n(1)] style_arg(4) [of st] style_names_ok [of st] in \<open>auto simp: fn_item_def fn_words Counters\<close>)
  then show ?thesis by (simp add: Counters)
qed

definition print_content :: "content_item list \<Rightarrow> string" where
  "print_content its = concat (map (\<lambda>it. print_item it @ '' '') its)"

lemma has_counter_append: "has_counter_fn s \<Longrightarrow> has_counter_fn (a @ s)"
  by (induction a) auto

lemma has_counter_print: "is_counter it \<Longrightarrow> has_counter_fn (print_item it @ r)"
proof -
  have o: "map or32 ''counter'' = ''counter''" "or32 CHR ''s'' = CHR ''s''" by code_simp+
  assume "is_counter it"
  then show ?thesis using o by (cases it) (simp_all add: numeral_eq_Suc)
qed

lemma has_counter_content: "list_ex is_counter its \<Longrightarrow> has_counter_fn (print_content its)"
proof (induction its)
  case (Cons it its)
  have e: "print_content (it # its) = print_item it @ ('' '' @ print_content its)" by (simp add: print_content_def)
  show ?case
  proof (cases "is_counter it")
    case True
    then show ?thesis unfolding e by (rule has_counter_print)
  next
    case False
    then have "has_counter_fn (print_content its)" using Cons by simp
    then have "has_counter_fn ('' '' @ print_content its)" by (rule has_counter_append)
    then show ?thesis unfolding e by (rule has_counter_append)
  qed
qed simp

lemma print_item_hd: "item_ok it \<Longrightarrow> print_item it \<noteq> [] \<and> \<not> cnt_ws (hd (print_item it))"
proof -
  have "\<not> cnt_ws CHR 0x22" "\<not> cnt_ws CHR ''a''" "\<not> cnt_ws CHR ''c''" by code_simp+
  then show ?thesis by (cases it) simp_all
qed

lemma parse_items_print:
  assumes "list_all item_ok its" and "n + length its \<le> 32" and "length (out @ concat (map encode_item its)) < cap"
    and "saw \<or> list_ex is_counter its" and "w = [] \<or> w = '' ''"
  shows "parse_items cap (out, False) saw n (w @ print_content its) = CNT_MARKER (out @ concat (map encode_item its))"
  using assms
proof (induction its arbitrary: n out saw w)
  case Nil
  have "dropWhile cnt_ws w = []" using Nil(5) by (auto simp: cnt_ws_def)
  then show ?case using Nil by (simp add: parse_items.simps [of _ _ _ _ w] print_content_def)
next
  case (Cons it its)
  let ?p = "print_item it @ '' '' @ print_content its"
  have p: "w @ print_content (it # its) = w @ ?p" by (simp add: print_content_def)
  have d: "dropWhile cnt_ws (w @ ?p) = ?p" "?p \<noteq> []"
    using Cons.prems(5) print_item_hd [of it] Cons.prems(1) by (cases "print_item it"; auto simp: cnt_ws_def)+
  have k: "sk_str cap (out, False) (encode_item it) = (out @ encode_item it, False)"
    using sk_str_take [of "(out, False)" cap "encode_item it"] Cons.prems(3) by (simp add: prod_eq_iff)
  have "parse_items cap (out @ encode_item it, False) (saw \<or> is_counter it) (n + 1) ('' '' @ print_content its)
    = CNT_MARKER ((out @ encode_item it) @ concat (map encode_item its))"
    by (rule Cons.IH) (use Cons.prems in auto)
  then show ?case unfolding p
    using next_item_print [of it "'' '' @ print_content its"] Cons.prems(1,2) d k
    by (simp add: parse_items.simps [of _ _ _ _ "w @ ?p"] Let_def del: append_assoc append.simps)
qed

text \<open>Equivalence: generated content written in CSS with strings, attributes, \<^verbatim>\<open>counter()\<close> and \<^verbatim>\<open>counters()\<close> is
  accepted, and expanding the marker it is stored as against the state of the counters gives the text its
  items stand for: the innermost value of a counter, all its values joined from the outermost in, each in
  its style, cut to the capacity of the buffer.\<close>

theorem cnt_content_resolves:
  assumes "list_all item_ok its" and "list_ex is_counter its" and "length its \<le> 32" and "length (marker_of its) < mcap"
    and "insts_ok s" and "0 < cap"
  shows "\<exists>m. cnt_parse_content (print_content its) mcap = CNT_MARKER m
    \<and> cnt_resolve (Some s) (Some m) (Some attr) cap = take (cap - 1) (concat (map (render_item s attr) its))"
proof -
  have "sk_str mcap ([], False) CNT_SEQ_MARK = (CNT_SEQ_MARK, False)"
    using sk_str_take [of "([], False)" mcap CNT_SEQ_MARK] assms(4) by (simp add: prod_eq_iff marker_of_def)
  then have "cnt_parse_content (print_content its) mcap = CNT_MARKER (marker_of its)"
    using parse_items_print [OF assms(1), of 0 CNT_SEQ_MARK mcap False "[]"] assms(2-4) has_counter_content [OF assms(2)]
    by (simp add: cnt_parse_content_def marker_of_def)
  then show ?thesis using cnt_resolve_marker [OF assms(1,5,6)] by blast
qed

lemma cnt_content_resolves_witness:
  "\<exists>m. cnt_parse_content ''counters(a,\".\",decimal) \")\" counter(b,upper-roman) '' 1024 = CNT_MARKER m
    \<and> cnt_resolve (Some [\<lparr> ci_name = cnt_hash ''a'', ci_value = 2, ci_depth = 0 \<rparr>, \<lparr> ci_name = cnt_hash ''a'', ci_value = 3, ci_depth = 1 \<rparr>])
        (Some m) (Some (\<lambda>a. None)) 64 = ''2.3)0''"
proof -
  let ?its = "[Counters ''a'' ''.'' CNT_DECIMAL, Str '')'', Counter ''b'' CNT_UPPER_ROMAN]"
  let ?s = "[\<lparr> ci_name = cnt_hash ''a'', ci_value = 2, ci_depth = 0 \<rparr>, \<lparr> ci_name = cnt_hash ''a'', ci_value = 3, ci_depth = 1 \<rparr>]"
  have ok: "list_all item_ok ?its" "list_ex is_counter ?its" "length (marker_of ?its) < 1024" by code_simp+
  have s: "insts_ok ?s" by code_simp
  have p: "print_content ?its = ''counters(a,\".\",decimal) \")\" counter(b,upper-roman) ''" by code_simp
  have r: "take (64 - 1) (concat (map (render_item ?s (\<lambda>a. None)) ?its)) = ''2.3)0''" by code_simp
  show ?thesis using cnt_content_resolves [OF ok(1,2) _ ok(3) s, of 64 "\<lambda>a. None"] unfolding p r by simp
qed

end
