(* ===== verification/Counter_Pass.thy ===== *)
theory Counter_Pass
  imports Css_Counter
begin

text \<open>
  The counters pass of \<^verbatim>\<open>src/page_view.c\<close>: the walk of the document in order that drives the counter state and
  rewrites generated content. A document is a tree of nodes with the computed style the pass reads and
  writes; the loop that follows first-child, next-sibling and parent pointers is a loop on a focus and its
  context. It is proved to end and to be the recursive walk, and the walk, for documents whose
  pseudo-elements leave counters alone, to implement counters that live on the levels of the tree.
\<close>

section \<open>Model\<close>

definition CSS_URL_MAX :: nat where
  "CSS_URL_MAX = 1024"

text \<open>The part of a computed style that the pass uses; a pseudo-element is present when it generates content.\<close>

record pseudo_style =
  ps_reset :: "cnt_decl list"
  ps_inc :: "cnt_decl list"

record elem_style =
  es_none :: bool
  es_reset :: "cnt_decl list"
  es_inc :: "cnt_decl list"
  es_before :: "pseudo_style option"
  es_own :: bool
  es_after :: "pseudo_style option"
  es_before_str :: string
  es_str :: string
  es_after_str :: string
  es_attr :: "string \<rightharpoonup> string"

datatype node = Element elem_style "node list" | Other "node list"

definition pv_cnt_attr :: "elem_style \<Rightarrow> string \<Rightarrow> cptr" where
  "pv_cnt_attr es name = map_option (\<lambda>v. takeWhile (\<lambda>c. c \<noteq> NUL) (take 255 v)) (es_attr es name)"

definition pv_cnt_resolve_field :: "cnt_state \<Rightarrow> elem_style \<Rightarrow> string \<Rightarrow> string" where
  "pv_cnt_resolve_field st es field =
     (if \<not> cnt_is_marker (Some field) then field
      else cnt_resolve (Some st) (Some field) (Some (pv_cnt_attr es)) CSS_URL_MAX)"

text \<open>The operations of an element and its \<^verbatim>\<open>::before\<close>, and the state its text is resolved against.\<close>

definition pv_cnt_enter :: "cnt_state \<Rightarrow> nat \<Rightarrow> elem_style \<Rightarrow> cnt_state \<times> elem_style \<times> bool" where
  "pv_cnt_enter st depth es =
     (if es_none es then (st, es, False)
      else
        let st = cnt_increment (cnt_reset st depth (es_reset es)) depth (es_inc es);
            st = (case es_before es of
                    None \<Rightarrow> st
                  | Some p \<Rightarrow> cnt_increment (cnt_reset st (depth + 1) (ps_reset p)) (depth + 1) (ps_inc p)) in
        (st,
         if es_before es \<noteq> None \<or> es_own es
         then es\<lparr>es_before_str := pv_cnt_resolve_field st es (es_before_str es), es_str := pv_cnt_resolve_field st es (es_str es)\<rparr>
         else es, True))"

definition pv_cnt_exit :: "cnt_state \<Rightarrow> nat \<Rightarrow> elem_style \<Rightarrow> cnt_state \<times> elem_style" where
  "pv_cnt_exit st depth es =
     (if es_none es then (st, es)
      else case es_after es of
          None \<Rightarrow> (st, es)
        | Some p \<Rightarrow>
            let st = cnt_increment (cnt_reset st (depth + 1) (ps_reset p)) (depth + 1) (ps_inc p) in
            (st, es\<lparr>es_after_str := pv_cnt_resolve_field st es (es_after_str es)\<rparr>))"

fun enter_node :: "cnt_state \<Rightarrow> nat \<Rightarrow> node \<Rightarrow> cnt_state \<times> node \<times> bool" where
  "enter_node st depth (Element es cs) = (case pv_cnt_enter st depth es of (st', es', d) \<Rightarrow> (st', Element es' cs, d))"
| "enter_node st depth (Other cs) = (st, Other cs, True)"

fun exit_node :: "cnt_state \<Rightarrow> nat \<Rightarrow> node \<Rightarrow> cnt_state \<times> node" where
  "exit_node st depth (Element es cs) = (case pv_cnt_exit st depth es of (st', es') \<Rightarrow> (st', Element es' cs))"
| "exit_node st depth (Other cs) = (st, Other cs)"

fun children :: "node \<Rightarrow> node list" where
  "children (Element es cs) = cs"
| "children (Other cs) = cs"

fun with_children :: "node \<Rightarrow> node list \<Rightarrow> node" where
  "with_children (Element es _) cs = Element es cs"
| "with_children (Other _) cs = Other cs"

text \<open>The context of the focus: for each ancestor below the root's parent, the ancestor, its children already
  walked, last first, and those still to walk.\<close>

type_synonym frame = "node \<times> node list \<times> node list"

partial_function (option) pass_loop :: "cnt_state \<Rightarrow> nat \<Rightarrow> bool \<Rightarrow> node \<Rightarrow> frame list \<Rightarrow> (cnt_state \<times> node) option" where
  "pass_loop st depth enter n ctx =
     (let (st1, n1, descend) = (if enter then enter_node st depth n else (st, n, False)) in
      if descend \<and> children n1 \<noteq> []
      then pass_loop st1 (depth + 1) True (hd (children n1)) ((n1, [], tl (children n1)) # ctx)
      else
        let (st2, n2) = exit_node st1 depth n1 in
        (case ctx of
           [] \<Rightarrow> Some (st2, n2)
         | (p, done, todo) # ctx' \<Rightarrow>
             if todo \<noteq> [] then pass_loop st2 depth True (hd todo) ((p, n2 # done, tl todo) # ctx')
             else pass_loop (cnt_leave st2 (depth - 1 + 1)) (depth - 1) False (with_children p (rev (n2 # done))) ctx'))"

declare pass_loop.simps [code]

text \<open>The pass runs only for a sheet that declares counters, and when the state could be allocated.\<close>

definition pv_counters_pass :: "bool \<Rightarrow> bool \<Rightarrow> node \<Rightarrow> node option" where
  "pv_counters_pass uses_counters alloc root =
     (if \<not> uses_counters then Some root
      else if \<not> alloc then Some root
      else map_option snd (pass_loop [] 0 True root []))"

section \<open>The recursive walk\<close>

text \<open>The same walk by recursion on the document.\<close>

fun walk :: "cnt_state \<Rightarrow> nat \<Rightarrow> node \<Rightarrow> cnt_state \<times> node" and walk_list :: "cnt_state \<Rightarrow> nat \<Rightarrow> node list \<Rightarrow> cnt_state \<times> node list" where
  "walk st d (Element es cs) =
     (let (st1, es1, descend) = pv_cnt_enter st d es in
      if descend \<and> cs \<noteq> [] then
        let (st2, cs2) = walk_list st1 (d + 1) cs;
            (st3, es3) = pv_cnt_exit (cnt_leave st2 (d + 1)) d es1 in (st3, Element es3 cs2)
      else let (st3, es3) = pv_cnt_exit st1 d es1 in (st3, Element es3 cs))"
| "walk st d (Other cs) =
     (if cs \<noteq> [] then let (st2, cs2) = walk_list st (d + 1) cs in (cnt_leave st2 (d + 1), Other cs2)
      else (st, Other cs))"
| "walk_list st d [] = (st, [])"
| "walk_list st d (n # ns) =
     (let (st1, n1) = walk st d n; (st2, ns2) = walk_list st1 d ns in (st2, n1 # ns2))"

text \<open>What the loop does after it has left a node.\<close>

definition pass_on :: "cnt_state \<Rightarrow> nat \<Rightarrow> node \<Rightarrow> frame list \<Rightarrow> (cnt_state \<times> node) option" where
  "pass_on st depth n ctx =
     (case ctx of
        [] \<Rightarrow> Some (st, n)
      | (p, done, todo) # ctx' \<Rightarrow>
          if todo \<noteq> [] then pass_loop st depth True (hd todo) ((p, n # done, tl todo) # ctx')
          else pass_loop (cnt_leave st (depth - 1 + 1)) (depth - 1) False (with_children p (rev (n # done))) ctx')"

lemma pass_leave: "pass_loop st depth False n ctx = pass_on (fst (exit_node st depth n)) depth (snd (exit_node st depth n)) ctx"
  by (subst pass_loop.simps) (simp add: pass_on_def split_def Let_def)

lemma pass_descend:
  assumes "enter_node st depth n = (st1, n1, True)" "children n1 = c # cs"
  shows "pass_loop st depth True n ctx = pass_loop st1 (depth + 1) True c ((n1, [], cs) # ctx)"
  by (subst pass_loop.simps) (simp add: assms)

lemma pass_stay:
  assumes "enter_node st depth n = (st1, n1, descend)" "\<not> descend \<or> children n1 = []"
  shows "pass_loop st depth True n ctx = pass_on (fst (exit_node st1 depth n1)) depth (snd (exit_node st1 depth n1)) ctx"
  by (subst pass_loop.simps) (use assms in \<open>auto simp: pass_on_def split_def Let_def\<close>)

lemma pass_children:
  assumes "\<And>c st d ctx. c \<in> set ns \<Longrightarrow> pass_loop st d True c ctx = pass_on (fst (walk st d c)) d (snd (walk st d c)) ctx"
    and "ns \<noteq> []"
  shows "pass_loop st (Suc d) True (hd ns) ((p, done, tl ns) # ctx)
    = pass_loop (cnt_leave (fst (walk_list st (Suc d) ns)) (Suc d)) d False (with_children p (rev done @ snd (walk_list st (Suc d) ns))) ctx"
  using assms
proof (induction ns arbitrary: st "done")
  case (Cons n ns)
  obtain st1 n1 where w: "walk st (Suc d) n = (st1, n1)" by fastforce
  have n: "pass_loop st (Suc d) True n ((p, done, ns) # ctx) = pass_on st1 (Suc d) n1 ((p, done, ns) # ctx)"
    using Cons.prems(1) [of n st "Suc d"] w by simp
  show ?case
  proof (cases "ns = []")
    case True
    then show ?thesis using n w by (simp add: pass_on_def)
  next
    case False
    then have "pass_loop st1 (Suc d) True (hd ns) ((p, n1 # done, tl ns) # ctx)
      = pass_loop (cnt_leave (fst (walk_list st1 (Suc d) ns)) (Suc d)) d False
          (with_children p (rev (n1 # done) @ snd (walk_list st1 (Suc d) ns))) ctx"
      using Cons by simp
    then show ?thesis using n w False by (simp add: pass_on_def split_def Let_def)
  qed
qed simp

lemma pass_loop_walk: "pass_loop st d True n ctx = pass_on (fst (walk st d n)) d (snd (walk st d n)) ctx"
proof (induction n arbitrary: st d ctx)
  case (Element es cs)
  obtain st1 es1 desc where e: "pv_cnt_enter st d es = (st1, es1, desc)" by (cases "pv_cnt_enter st d es")
  show ?case
  proof (cases "desc \<and> cs \<noteq> []")
    case False
    then show ?thesis using pass_stay [of st d "Element es cs" st1 "Element es1 cs" desc ctx] e by (auto simp: split_def Let_def)
  next
    case True
    then obtain c cs' where c: "cs = c # cs'" by (cases cs) auto
    have "pass_loop st d True (Element es cs) ctx = pass_loop st1 (Suc d) True (hd cs) ((Element es1 cs, [], tl cs) # ctx)"
      using pass_descend [of st d "Element es cs" st1 "Element es1 cs" c cs' ctx] e True c by simp
    also have "\<dots> = pass_loop (cnt_leave (fst (walk_list st1 (Suc d) cs)) (Suc d)) d False
        (with_children (Element es1 cs) (rev [] @ snd (walk_list st1 (Suc d) cs))) ctx"
      using True by (intro pass_children) (auto simp: Element)
    finally show ?thesis using e True by (simp add: pass_leave split_def Let_def)
  qed
next
  case (Other cs)
  show ?case
  proof (cases cs)
    case Nil
    then show ?thesis using pass_stay [of st d "Other cs" st "Other cs" True ctx] by simp
  next
    case (Cons c cs')
    then have "pass_loop st d True (Other cs) ctx = pass_loop st (Suc d) True (hd cs) ((Other cs, [], tl cs) # ctx)"
      using pass_descend [of st d "Other cs" st "Other cs" c cs' ctx] by simp
    also have "\<dots> = pass_loop (cnt_leave (fst (walk_list st (Suc d) cs)) (Suc d)) d False
        (with_children (Other cs) (rev [] @ snd (walk_list st (Suc d) cs))) ctx"
      using Cons by (intro pass_children) (auto simp: Other)
    finally show ?thesis using Cons by (simp add: pass_leave split_def Let_def)
  qed
qed

lemma pass_walk: "pv_counters_pass uses_counters alloc root = Some (if uses_counters \<and> alloc then snd (walk [] 0 root) else root)"
  by (simp add: pv_counters_pass_def pass_loop_walk pass_on_def)

section \<open>Counters on the levels of the tree\<close>

text \<open>
  The abstract state: for each level of the tree, the counters that live on it. A reset sets the counter on the
  element's own level, an increment changes the counter on the nearest level that has it, or starts one at the
  element's level, and leaving the children of an element forgets their levels.
\<close>

type_synonym levels = "nat \<Rightarrow> 32 word \<rightharpoonup> int"

definition nearest :: "levels \<Rightarrow> nat \<Rightarrow> 32 word \<Rightarrow> nat option" where
  "nearest M d n = find (\<lambda>k. M k n \<noteq> None) (rev [0..<Suc d])"

definition level_reset :: "nat \<Rightarrow> levels \<Rightarrow> cnt_decl \<Rightarrow> levels" where
  "level_reset d M c = M(d := (M d)(cd_name c \<mapsto> cd_value c))"

definition level_inc :: "nat \<Rightarrow> levels \<Rightarrow> cnt_decl \<Rightarrow> levels" where
  "level_inc d M c =
     (case nearest M d (cd_name c) of
        Some k \<Rightarrow> M(k := (M k)(cd_name c \<mapsto> clampv (the (M k (cd_name c)) + cd_value c)))
      | None \<Rightarrow> M(d := (M d)(cd_name c \<mapsto> clampv (cd_value c))))"

definition level_leave :: "levels \<Rightarrow> nat \<Rightarrow> levels" where
  "level_leave M d = (\<lambda>k. if k < d then M k else Map.empty)"

definition level_values :: "levels \<Rightarrow> nat \<Rightarrow> 32 word \<Rightarrow> int list" where
  "level_values M d n = concat (map (\<lambda>k. case M k n of None \<Rightarrow> [] | Some v \<Rightarrow> [v]) [0..<Suc d])"

text \<open>The stack of instances of a name is the column of that name, from the root level down.\<close>

definition cell :: "levels \<Rightarrow> 32 word \<Rightarrow> nat \<Rightarrow> cnt_inst list" where
  "cell M n k = (case M k n of None \<Rightarrow> [] | Some v \<Rightarrow> [\<lparr> ci_name = n, ci_value = v, ci_depth = k \<rparr>])"

definition column :: "levels \<Rightarrow> nat \<Rightarrow> 32 word \<Rightarrow> cnt_inst list" where
  "column M d n = concat (map (cell M n) [0..<Suc d])"

definition represents :: "cnt_state \<Rightarrow> levels \<Rightarrow> nat \<Rightarrow> bool" where
  "represents s M d \<longleftrightarrow> sorted (map ci_depth s) \<and> (\<forall>n. filter (\<lambda>x. ci_name x = n) s = column M d n)
     \<and> (\<forall>k > d. M k = Map.empty)"

lemma cell_empty [simp]: "M k n = None \<Longrightarrow> cell M n k = []"
  by (simp add: cell_def)

lemma cell_Some [simp]: "M k n = Some v \<Longrightarrow> cell M n k = [\<lparr> ci_name = n, ci_value = v, ci_depth = k \<rparr>]"
  by (simp add: cell_def)

lemma cell_cong: "M k n = M' k n \<Longrightarrow> cell M n k = cell M' n k"
  by (simp add: cell_def)

lemma column_Suc: "column M (Suc d) n = column M d n @ cell M n (Suc d)"
  by (simp add: column_def)

lemma column_cong: "(\<And>k. k \<le> d \<Longrightarrow> M k n = M' k n) \<Longrightarrow> column M d n = column M' d n"
  unfolding column_def by (intro arg_cong [where f = concat] map_cong cell_cong) auto

lemma represents_depth:
  assumes "represents s M d" and "x \<in> set s"
  shows "ci_depth x \<le> d"
proof -
  have c: "y \<in> set (column M d n) \<Longrightarrow> ci_depth y \<le> d" for y n
    by (auto simp: column_def cell_def less_Suc_eq_le split: option.splits)
  have "filter (\<lambda>y. ci_name y = ci_name x) s = column M d (ci_name x)" using assms(1) unfolding represents_def by blast
  moreover have "x \<in> set (filter (\<lambda>y. ci_name y = ci_name x) s)" using assms(2) by simp
  ultimately show ?thesis using c by simp
qed

text \<open>The last instance of a column lies on the nearest level.\<close>

lemma nearest_Suc: "nearest M (Suc d) n = (if M (Suc d) n \<noteq> None then Some (Suc d) else nearest M d n)"
  by (simp add: nearest_def)

lemma nearest_None: "nearest M d n = None \<Longrightarrow> column M d n = []"
  by (induction d) (auto simp: nearest_Suc column_Suc split: if_splits, simp add: nearest_def column_def split: if_splits)

lemma nearest_Some:
  assumes "nearest M d n = Some k"
  obtains pre v where "k \<le> d" "M k n = Some v" "\<And>w. column (M(k := (M k)(n \<mapsto> w))) d n = pre @ [\<lparr> ci_name = n, ci_value = w, ci_depth = k \<rparr>]"
    "column M d n = pre @ [\<lparr> ci_name = n, ci_value = v, ci_depth = k \<rparr>]"
  using assms
proof (induction d arbitrary: thesis)
  case 0
  then show ?case by (auto simp: nearest_def column_def split: if_splits)
next
  case (Suc d)
  show ?case
  proof (cases "M (Suc d) n")
    case None
    with Suc.prems(2) have "nearest M d n = Some k" by (simp add: nearest_Suc)
    from Suc.IH [OF _ this] obtain pre v where *: "k \<le> d" "M k n = Some v"
      "\<And>w. column (M(k := (M k)(n \<mapsto> w))) d n = pre @ [\<lparr> ci_name = n, ci_value = w, ci_depth = k \<rparr>]"
      "column M d n = pre @ [\<lparr> ci_name = n, ci_value = v, ci_depth = k \<rparr>]" by blast
    have "cell (M(k := (M k)(n \<mapsto> w))) n (Suc d) = []" for w using None *(1) by simp
    then show ?thesis using * None by (intro Suc.prems(1) [of v pre]) (simp_all add: column_Suc del: fun_upd_apply)
  next
    case (Some v)
    with Suc.prems(2) have k: "k = Suc d" by (simp add: nearest_Suc)
    show ?thesis
    proof (rule Suc.prems(1) [of v "column M d n"])
      show "column (M(k := (M k)(n \<mapsto> w))) (Suc d) n = column M d n @ [\<lparr> ci_name = n, ci_value = w, ci_depth = k \<rparr>]" for w
        using column_cong [of d "M(k := (M k)(n \<mapsto> w))" n M] by (simp add: column_Suc k)
    qed (use Some k in \<open>simp_all add: column_Suc\<close>)
  qed
qed

lemma top_scan_split:
  "i \<le> length s \<Longrightarrow> (case top_scan s n i of
      None \<Rightarrow> filter (\<lambda>x. ci_name x = n) (take i s) = []
    | Some j \<Rightarrow> j < i \<and> ci_name (s ! j) = n \<and> filter (\<lambda>x. ci_name x = n) (drop (Suc j) (take i s)) = [])"
proof (induction i)
  case (Suc i)
  then show ?case by (cases "ci_name (s ! i) = n") (auto simp: take_Suc_conv_app_nth split: option.splits)
qed simp

text \<open>Changing the value of the innermost instance changes the end of its column and no other column.\<close>

lemma top_of_None: "top_of s n = None \<Longrightarrow> filter (\<lambda>x. ci_name x = n) s = []"
  using top_scan_split [of "length s" s n] by (simp add: top_of_def)

lemma top_of_update:
  assumes "top_of s n = Some j" and "filter (\<lambda>x. ci_name x = n) s = pre @ [x]"
  shows "j < length s" "s ! j = x" "filter (\<lambda>x. ci_name x = n) (s[j := x\<lparr>ci_value := v\<rparr>]) = pre @ [x\<lparr>ci_value := v\<rparr>]"
    "n' \<noteq> n \<Longrightarrow> filter (\<lambda>x. ci_name x = n') (s[j := x\<lparr>ci_value := v\<rparr>]) = filter (\<lambda>x. ci_name x = n') s"
proof -
  have j: "j < length s" "ci_name (s ! j) = n" "filter (\<lambda>x. ci_name x = n) (drop (Suc j) s) = []"
    using top_scan_split [of "length s" s n] assms(1) by (simp_all add: top_of_def)
  have s: "s = take j s @ s ! j # drop (Suc j) s" using j(1) by (rule id_take_nth_drop)
  have "filter (\<lambda>x. ci_name x = n) s = filter (\<lambda>x. ci_name x = n) (take j s) @ [s ! j]"
    using j(2,3) by (subst s) simp
  then have p: "pre = filter (\<lambda>x. ci_name x = n) (take j s)" "s ! j = x" using assms(2) by simp_all
  show "j < length s" "s ! j = x" using j(1) p(2) by auto
  have u: "s[j := x\<lparr>ci_value := v\<rparr>] = take j s @ x\<lparr>ci_value := v\<rparr> # drop (Suc j) s" using j(1) by (rule upd_conv_take_nth_drop)
  show "filter (\<lambda>x. ci_name x = n) (s[j := x\<lparr>ci_value := v\<rparr>]) = pre @ [x\<lparr>ci_value := v\<rparr>]"
    unfolding u using j(2,3) p by simp
  show "n' \<noteq> n \<Longrightarrow> filter (\<lambda>x. ci_name x = n') (s[j := x\<lparr>ci_value := v\<rparr>]) = filter (\<lambda>x. ci_name x = n') s"
    unfolding u using j(2) p(2) by (subst (3) s) simp
qed

lemma map_depth_update: "j < length s \<Longrightarrow> map ci_depth (s[j := (s ! j)\<lparr>ci_value := v\<rparr>]) = map ci_depth s"
  by (simp add: map_update list_update_same_conv)

text \<open>The two ways an operation changes the stack.\<close>

lemma represents_change:
  assumes r: "represents s M d" and k: "nearest M d n = Some k"
  obtains j v where "top_of s n = Some j" "j < length s" "ci_depth (s ! j) = k" "ci_value (s ! j) = v" "M k n = Some v" "k \<le> d"
    "\<And>w. represents (s[j := (s ! j)\<lparr>ci_value := w\<rparr>]) (M(k := (M k)(n \<mapsto> w))) d"
proof -
  obtain pre v where c: "k \<le> d" "M k n = Some v" "\<And>w. column (M(k := (M k)(n \<mapsto> w))) d n = pre @ [\<lparr> ci_name = n, ci_value = w, ci_depth = k \<rparr>]"
    "column M d n = pre @ [\<lparr> ci_name = n, ci_value = v, ci_depth = k \<rparr>]"
    using nearest_Some [OF k] by metis
  let ?x = "\<lparr> ci_name = n, ci_value = v, ci_depth = k \<rparr>"
  have f: "filter (\<lambda>x. ci_name x = n) s = pre @ [?x]" using r c(4) by (simp add: represents_def)
  then obtain j where j: "top_of s n = Some j" using top_of_None [of s n] by fastforce
  note u = top_of_update [OF j f]
  show ?thesis
  proof (rule that [OF j u(1)])
    show "represents (s[j := (s ! j)\<lparr>ci_value := w\<rparr>]) (M(k := (M k)(n \<mapsto> w))) d" for w
      unfolding represents_def
    proof (intro conjI allI impI)
      show "sorted (map ci_depth (s[j := (s ! j)\<lparr>ci_value := w\<rparr>]))" using r map_depth_update [OF u(1)] by (simp add: represents_def)
      show "filter (\<lambda>x. ci_name x = n') (s[j := (s ! j)\<lparr>ci_value := w\<rparr>]) = column (M(k := (M k)(n \<mapsto> w))) d n'" for n'
      proof (cases "n' = n")
        case True
        then show ?thesis using u(2) u(3) [where v = w] c(3) [of w] by simp
      next
        case False
        have "column (M(k := (M k)(n \<mapsto> w))) d n' = column M d n'" using False by (intro column_cong) simp
        then show ?thesis using u(2) u(4) [OF False, where v = w] r by (simp add: represents_def)
      qed
      show "(M(k := (M k)(n \<mapsto> w))) k' = Map.empty" if "d < k'" for k' using r c(1) that by (auto simp: represents_def)
    qed
  qed (use u(2) c in simp_all)
qed

lemma represents_push:
  assumes r: "represents s M d" and n: "M d n = None" and l: "length s < CNT_MAX_INSTANCES"
  shows "represents (push_inst d s n v) (M(d := (M d)(n \<mapsto> v))) d"
proof -
  let ?x = "\<lparr> ci_name = n, ci_value = v, ci_depth = d \<rparr>"
  have p: "push_inst d s n v = s @ [?x]" using l by (simp add: push_inst_def)
  have "column (M(d := (M d)(n \<mapsto> v))) d n = column M d n @ [?x]"
  proof (cases d)
    case 0
    then show ?thesis using n by (simp add: column_def)
  next
    case (Suc e)
    have "column (M(d := (M d)(n \<mapsto> v))) e n = column M e n" using Suc by (intro column_cong) simp
    then show ?thesis using n Suc by (simp add: column_Suc)
  qed
  moreover have "n' \<noteq> n \<Longrightarrow> column (M(d := (M d)(n \<mapsto> v))) d n' = column M d n'" for n' by (intro column_cong) simp
  ultimately have f: "filter (\<lambda>x. ci_name x = n') (s @ [?x]) = column (M(d := (M d)(n \<mapsto> v))) d n'" for n'
    using r unfolding represents_def by (cases "n' = n") simp_all
  have o: "sorted (map ci_depth (s @ [?x]))"
    using r represents_depth [OF r] by (auto simp: represents_def sorted_append)
  have e: "(M(d := (M d)(n \<mapsto> v))) k = Map.empty" if "d < k" for k using r that by (simp add: represents_def)
  show ?thesis unfolding p represents_def using f o e by blast
qed

lemma reset_one_level:
  assumes r: "represents s M d" and l: "length s < CNT_MAX_INSTANCES"
  shows "represents (reset_one d s c) (level_reset d M c) d \<and> length (reset_one d s c) \<le> Suc (length s)"
proof (cases "M d (cd_name c)")
  case (Some v)
  then have "nearest M d (cd_name c) = Some d" by (cases d) (simp_all add: nearest_Suc, simp add: nearest_def)
  from represents_change [OF r this] obtain j where "top_of s (cd_name c) = Some j" "ci_depth (s ! j) = d"
    "\<And>w. represents (s[j := (s ! j)\<lparr>ci_value := w\<rparr>]) (M(d := (M d)(cd_name c \<mapsto> w))) d" by blast
  then show ?thesis by (simp add: reset_one_def level_reset_def)
next
  case None
  have "reset_one d s c = push_inst d s (cd_name c) (cd_value c)"
  proof (cases "nearest M d (cd_name c)")
    case n: None
    then have "filter (\<lambda>x. ci_name x = cd_name c) s = []" using nearest_None r by (simp add: represents_def)
    then have "top_of s (cd_name c) = None"
      using top_scan_split [of "length s" s "cd_name c"] by (auto simp: top_of_def filter_empty_conv split: option.splits)
    then show ?thesis by (simp add: reset_one_def)
  next
    case (Some k)
    from represents_change [OF r Some] obtain j v where j: "top_of s (cd_name c) = Some j" "ci_depth (s ! j) = k" "M k (cd_name c) = Some v"
      by blast
    then have "k \<noteq> d" using None by auto
    then show ?thesis using j by (simp add: reset_one_def)
  qed
  then show ?thesis using represents_push [OF r None l] by (simp add: level_reset_def push_inst_def)
qed

lemma increment_one_level:
  assumes r: "represents s M d" and l: "length s < CNT_MAX_INSTANCES"
  shows "represents (increment_one d s c) (level_inc d M c) d \<and> length (increment_one d s c) \<le> Suc (length s)"
proof (cases "nearest M d (cd_name c)")
  case (Some k)
  from represents_change [OF r Some] obtain j v where j: "top_of s (cd_name c) = Some j" "ci_value (s ! j) = v" "M k (cd_name c) = Some v"
    "\<And>w. represents (s[j := (s ! j)\<lparr>ci_value := w\<rparr>]) (M(k := (M k)(cd_name c \<mapsto> w))) d" by blast
  then show ?thesis using Some by (simp add: increment_one_def level_inc_def)
next
  case None
  then have f: "filter (\<lambda>x. ci_name x = cd_name c) s = []" using nearest_None r by (simp add: represents_def)
  then have t: "top_of s (cd_name c) = None"
    using top_scan_split [of "length s" s "cd_name c"] by (auto simp: top_of_def filter_empty_conv split: option.splits)
  have "M d (cd_name c) = None" using None by (cases d) (auto simp: nearest_Suc split: if_splits, auto simp: nearest_def split: if_splits)
  from represents_push [OF r this l] show ?thesis using t None by (simp add: increment_one_def level_inc_def push_inst_def)
qed

lemma fold_level:
  assumes "\<And>s M c. represents s M d \<Longrightarrow> length s < CNT_MAX_INSTANCES \<Longrightarrow>
      represents (f s c) (g M c) d \<and> length (f s c) \<le> Suc (length s)"
  shows "represents s M d \<Longrightarrow> length s + length cs \<le> CNT_MAX_INSTANCES \<Longrightarrow>
    represents (foldl f s cs) (foldl g M cs) d \<and> length (foldl f s cs) \<le> length s + length cs"
proof (induction cs arbitrary: s M)
  case (Cons c cs)
  then have "represents (f s c) (g M c) d" "length (f s c) \<le> Suc (length s)" using assms [of s M c] by simp_all
  then show ?case using Cons.IH [of "f s c" "g M c"] Cons.prems(2) by simp
qed simp

lemma represents_descend: "represents s M d \<Longrightarrow> represents s M (Suc d)"
  by (simp add: represents_def column_Suc)

lemma leave_sorted: "sorted (map ci_depth s) \<Longrightarrow> cnt_leave s d = filter (\<lambda>x. ci_depth x < d) s"
proof (induction s rule: rev_induct)
  case (snoc x s)
  show ?case
  proof (cases "ci_depth x < d")
    case True
    then have "\<forall>y \<in> set s. ci_depth y < d" using snoc.prems by (auto simp: sorted_append)
    then show ?thesis using True by (simp add: cnt_leave_def)
  next
    case False
    then have "cnt_leave (s @ [x]) d = cnt_leave s d" by (simp add: cnt_leave_def)
    then show ?thesis using snoc False by (simp add: sorted_append)
  qed
qed (simp add: cnt_leave_def)

lemma represents_leave:
  assumes r: "represents s M (Suc d)"
  shows "represents (cnt_leave s (Suc d)) (level_leave M (Suc d)) d \<and> length (cnt_leave s (Suc d)) \<le> length s"
proof -
  have l: "cnt_leave s (Suc d) = filter (\<lambda>x. ci_depth x < Suc d) s" using r by (intro leave_sorted) (simp add: represents_def)
  have "filter (\<lambda>x. ci_name x = n) (filter (\<lambda>x. ci_depth x < Suc d) s) = column (level_leave M (Suc d)) d n" for n
  proof -
    have keep: "\<forall>y \<in> set (column M d n). ci_depth y < Suc d"
      by (auto simp: column_def cell_def split: option.splits)
    have drop: "filter (\<lambda>x. ci_depth x < Suc d) (cell M n (Suc d)) = []" by (simp add: cell_def split: option.split)
    have "filter (\<lambda>x. ci_name x = n) (filter (\<lambda>x. ci_depth x < Suc d) s) = filter (\<lambda>x. ci_depth x < Suc d) (filter (\<lambda>x. ci_name x = n) s)"
      by (metis (no_types, lifting) conj_commute filter_cong filter_filter)
    also have "\<dots> = filter (\<lambda>x. ci_depth x < Suc d) (column M (Suc d) n)" using r by (simp add: represents_def)
    also have "\<dots> = column M d n" using keep drop by (simp add: column_Suc)
    also have "\<dots> = column (level_leave M (Suc d)) d n" by (rule column_cong) (simp add: level_leave_def)
    finally show ?thesis .
  qed
  then show ?thesis using r unfolding l represents_def by (auto simp: level_leave_def sorted_filter)
qed

lemma level_leave_same: "represents s M d \<Longrightarrow> level_leave M (Suc d) = M"
  by (auto simp: level_leave_def represents_def fun_eq_iff)

lemma represents_values: "represents s M d \<Longrightarrow> map ci_value (filter (\<lambda>x. ci_name x = n) s) = level_values M d n"
proof -
  have "map ci_value (cell M n k) = (case M k n of None \<Rightarrow> [] | Some v \<Rightarrow> [v])" for k by (simp add: cell_def split: option.split)
  then have "map ci_value (column M d n) = level_values M d n" by (simp add: column_def level_values_def map_concat comp_def)
  then show "represents s M d \<Longrightarrow> ?thesis" by (simp add: represents_def)
qed

section \<open>The text a reader of the standard expects\<close>

text \<open>The items of a marker, and their text from the values of each counter, outermost first.\<close>

function split_items :: "string \<Rightarrow> (char \<times> string) list" where
  "split_items [] = []"
| "split_items (type # p) =
     (if CNT_ITEM_END \<notin> set p then []
      else (type, take (2 * CNT_STR_MAX - 1) (takeWhile (\<lambda>c. c \<noteq> CNT_ITEM_END) p))
           # split_items (tl (dropWhile (\<lambda>c. c \<noteq> CNT_ITEM_END) p)))"
  by pat_completeness auto
termination
  by (relation "measure length") (auto simp: less_Suc_eq_le intro: le_trans [OF diff_le_self length_dropWhile_le])

definition item_vals :: "(32 word \<Rightarrow> int list) \<Rightarrow> (string \<Rightarrow> cptr) \<Rightarrow> char \<times> string \<Rightarrow> string" where
  "item_vals vals attr ti =
     (let (type, item) = ti;
          (n, r) = (takeWhile (\<lambda>c. c \<noteq> CNT_FIELD_SEP) item, tl (dropWhile (\<lambda>c. c \<noteq> CNT_FIELD_SEP) item));
          (sep, r2) = (takeWhile (\<lambda>c. c \<noteq> CNT_FIELD_SEP) r, tl (dropWhile (\<lambda>c. c \<noteq> CNT_FIELD_SEP) r));
          vs = (if vals (cnt_hash n) = [] then [0] else vals (cnt_hash n)) in
      if type = CHR ''S'' then item
      else if type = CHR ''A'' then (case attr item of None \<Rightarrow> [] | Some v \<Rightarrow> v)
      else if type = CHR ''C'' \<and> CNT_FIELD_SEP \<in> set item then num_text (char_at r 0) (last vs)
      else if type = CHR ''N'' \<and> CNT_FIELD_SEP \<in> set item \<and> CNT_FIELD_SEP \<in> set r
      then join sep (map (num_text (char_at r2 0)) vs)
      else [])"

definition field_text :: "(32 word \<Rightarrow> int list) \<Rightarrow> elem_style \<Rightarrow> string \<Rightarrow> string" where
  "field_text vals es field =
     (if \<not> prefix CNT_SEQ_MARK field then field
      else take (CSS_URL_MAX - 1)
             (concat (map (item_vals vals (pv_cnt_attr es)) (split_items (drop (length CNT_SEQ_MARK) field)))))"

text \<open>The walk with counters on levels.\<close>

definition enter_text :: "(32 word \<Rightarrow> int list) \<Rightarrow> elem_style \<Rightarrow> elem_style" where
  "enter_text vals es =
     (if es_before es \<noteq> None \<or> es_own es
      then es\<lparr>es_before_str := field_text vals es (es_before_str es), es_str := field_text vals es (es_str es)\<rparr> else es)"

definition exit_text :: "(32 word \<Rightarrow> int list) \<Rightarrow> elem_style \<Rightarrow> elem_style" where
  "exit_text vals es = (if es_after es = None then es else es\<lparr>es_after_str := field_text vals es (es_after_str es)\<rparr>)"

fun css_walk :: "levels \<Rightarrow> nat \<Rightarrow> node \<Rightarrow> levels \<times> node" and css_walk_list :: "levels \<Rightarrow> nat \<Rightarrow> node list \<Rightarrow> levels \<times> node list" where
  "css_walk M d (Element es cs) =
     (if es_none es then (M, Element es cs)
      else
        let M1 = foldl (level_inc d) (foldl (level_reset d) M (es_reset es)) (es_inc es);
            (M2, cs2) = css_walk_list M1 (d + 1) cs;
            M3 = level_leave M2 (d + 1) in
        (M3, Element (exit_text (level_values M3 d) (enter_text (level_values M1 d) es)) cs2))"
| "css_walk M d (Other cs) = (let (M2, cs2) = css_walk_list M (d + 1) cs in (level_leave M2 (d + 1), Other cs2))"
| "css_walk_list M d [] = (M, [])"
| "css_walk_list M d (n # ns) = (let (M1, n1) = css_walk M d n; (M2, ns2) = css_walk_list M1 d ns in (M2, n1 # ns2))"

section \<open>The pass implements the counters of the levels\<close>

lemma counter_value_filter:
  "counter_value s h = last (0 # map ci_value (filter (\<lambda>x. ci_name x = h) s))"
  using top_scan_last [of "length s" s h]
  by (auto simp: counter_value_def top_of_def last_map split: option.splits)

lemma item_text_vals:
  assumes "\<And>h. map ci_value (filter (\<lambda>x. ci_name x = h) s) = vals h"
  shows "item_text (Some s) (Some attr) t item = item_vals vals attr (t, item)"
proof -
  have c: "counters_text s h sep st = join sep (map (num_text st) (if vals h = [] then [0] else vals h))" for h sep st
    unfolding counters_text_def assms by (cases "vals h") (simp_all add: join_def comp_def)
  have v: "counter_value s h = last (if vals h = [] then [0] else vals h)" for h
    unfolding counter_value_filter assms by simp
  show ?thesis by (simp add: item_text_def item_vals_def c v Let_def)
qed

lemma resolve_items_map:
  "resolve_items s attr p = map (\<lambda>(t, item). item_text s attr t item) (split_items p)"
  by (induction p rule: split_items.induct) auto

lemma resolve_field_text:
  assumes "represents s M d"
  shows "pv_cnt_resolve_field s es f = field_text (level_values M d) es f"
proof -
  have "(\<lambda>(t, item). item_text (Some s) (Some attr) t item) = item_vals (level_values M d) attr" for attr
    using item_text_vals [OF represents_values [OF assms]] by auto
  then show ?thesis
    using sk_str_concat [of "([], False)" CSS_URL_MAX]
    by (auto simp: pv_cnt_resolve_field_def field_text_def cnt_resolve_def cnt_is_marker_def resolve_items_map CSS_URL_MAX_def)
qed

text \<open>The counter declarations a node can execute, and documents whose pseudo-elements have none.\<close>

fun decl_count :: "node \<Rightarrow> nat" where
  "decl_count (Element es cs) = length (es_reset es) + length (es_inc es) + sum_list (map decl_count cs)"
| "decl_count (Other cs) = sum_list (map decl_count cs)"

definition plain_pseudo :: "pseudo_style option \<Rightarrow> bool" where
  "plain_pseudo p = (case p of None \<Rightarrow> True | Some q \<Rightarrow> ps_reset q = [] \<and> ps_inc q = [])"

fun plain_doc :: "node \<Rightarrow> bool" where
  "plain_doc (Element es cs) = (plain_pseudo (es_before es) \<and> plain_pseudo (es_after es) \<and> list_all plain_doc cs)"
| "plain_doc (Other cs) = list_all plain_doc cs"

lemma enter_plain:
  assumes "\<not> es_none es" "plain_pseudo (es_before es)" "represents s M d"
    "length s + length (es_reset es) + length (es_inc es) \<le> CNT_MAX_INSTANCES"
  obtains s1 where "pv_cnt_enter s d es = (s1, enter_text (level_values (foldl (level_inc d) (foldl (level_reset d) M (es_reset es)) (es_inc es)) d) es, True)"
    "represents s1 (foldl (level_inc d) (foldl (level_reset d) M (es_reset es)) (es_inc es)) d"
    "length s1 \<le> length s + length (es_reset es) + length (es_inc es)"
proof -
  define s0 where "s0 = cnt_reset s d (es_reset es)"
  define s1 where "s1 = cnt_increment s0 d (es_inc es)"
  let ?M0 = "foldl (level_reset d) M (es_reset es)"
  let ?M1 = "foldl (level_inc d) ?M0 (es_inc es)"
  have r0: "represents s0 ?M0 d \<and> length s0 \<le> length s + length (es_reset es)"
    unfolding s0_def cnt_reset_def using assms(3,4) by (intro fold_level reset_one_level) simp_all
  then have r1: "represents s1 ?M1 d \<and> length s1 \<le> length s0 + length (es_inc es)"
    unfolding s1_def cnt_increment_def using assms(4) by (intro fold_level increment_one_level) simp_all
  have b: "(case es_before es of None \<Rightarrow> s1 | Some p \<Rightarrow> cnt_increment (cnt_reset s1 (d + 1) (ps_reset p)) (d + 1) (ps_inc p)) = s1"
    using assms(2) by (cases "es_before es") (simp_all add: plain_pseudo_def cnt_increment_def cnt_reset_def)
  have "pv_cnt_enter s d es = (s1, enter_text (level_values ?M1 d) es, True)"
    using assms(1) r1 unfolding pv_cnt_enter_def s0_def [symmetric] s1_def [symmetric] Let_def b
    by (simp add: enter_text_def resolve_field_text)
  then show thesis using that r0 r1 by force
qed

lemma exit_plain:
  assumes "\<not> es_none es" "plain_pseudo (es_after es)" "represents s M d"
  shows "pv_cnt_exit s d es = (s, exit_text (level_values M d) es)"
  using assms resolve_field_text [OF assms(3)]
  by (auto simp: pv_cnt_exit_def exit_text_def plain_pseudo_def cnt_increment_def cnt_reset_def Let_def split: option.splits)

lemma enter_text_keeps [simp]: "es_none (enter_text vals es) = es_none es" "es_after (enter_text vals es) = es_after es"
  by (simp_all add: enter_text_def)

lemma walk_children:
  assumes "\<And>c s M. c \<in> set cs \<Longrightarrow> represents s M d \<Longrightarrow> length s + decl_count c \<le> CNT_MAX_INSTANCES \<Longrightarrow> plain_doc c \<Longrightarrow>
      represents (fst (walk s d c)) (fst (css_walk M d c)) d \<and> length (fst (walk s d c)) \<le> length s + decl_count c
      \<and> snd (walk s d c) = snd (css_walk M d c)"
  shows "represents s M d \<Longrightarrow> length s + sum_list (map decl_count cs) \<le> CNT_MAX_INSTANCES \<Longrightarrow> list_all plain_doc cs \<Longrightarrow>
      represents (fst (walk_list s d cs)) (fst (css_walk_list M d cs)) d
      \<and> length (fst (walk_list s d cs)) \<le> length s + sum_list (map decl_count cs)
      \<and> snd (walk_list s d cs) = snd (css_walk_list M d cs)"
  using assms
proof (induction cs arbitrary: s M)
  case (Cons c cs)
  have c: "represents (fst (walk s d c)) (fst (css_walk M d c)) d" "length (fst (walk s d c)) \<le> length s + decl_count c"
    "snd (walk s d c) = snd (css_walk M d c)"
    using Cons.prems(4) [of c s M] Cons.prems(1-3) by auto
  then have "represents (fst (walk_list (fst (walk s d c)) d cs)) (fst (css_walk_list (fst (css_walk M d c)) d cs)) d
      \<and> length (fst (walk_list (fst (walk s d c)) d cs)) \<le> length (fst (walk s d c)) + sum_list (map decl_count cs)
      \<and> snd (walk_list (fst (walk s d c)) d cs) = snd (css_walk_list (fst (css_walk M d c)) d cs)"
    using Cons.prems(2-4) by (intro Cons.IH) auto
  then show ?case using c by (simp add: split_def Let_def)
qed simp

lemma walk_implements_levels:
  "represents s M d \<Longrightarrow> length s + decl_count n \<le> CNT_MAX_INSTANCES \<Longrightarrow> plain_doc n \<Longrightarrow>
   represents (fst (walk s d n)) (fst (css_walk M d n)) d \<and> length (fst (walk s d n)) \<le> length s + decl_count n
   \<and> snd (walk s d n) = snd (css_walk M d n)"
proof (induction n arbitrary: s M d)
  case (Element es cs)
  show ?case
  proof (cases "es_none es")
    case True
    then show ?thesis using Element.prems(1) by (simp add: pv_cnt_enter_def pv_cnt_exit_def)
  next
    case False
    let ?M1 = "foldl (level_inc d) (foldl (level_reset d) M (es_reset es)) (es_inc es)"
    obtain s1 where e: "pv_cnt_enter s d es = (s1, enter_text (level_values ?M1 d) es, True)" "represents s1 ?M1 d"
      "length s1 \<le> length s + length (es_reset es) + length (es_inc es)"
      using enter_plain [OF False _ Element.prems(1)] Element.prems(2,3) by auto
    have l: "represents (fst (walk_list s1 (Suc d) cs)) (fst (css_walk_list ?M1 (Suc d) cs)) (Suc d)"
      "length (fst (walk_list s1 (Suc d) cs)) \<le> length s1 + sum_list (map decl_count cs)"
      "snd (walk_list s1 (Suc d) cs) = snd (css_walk_list ?M1 (Suc d) cs)"
      using walk_children [OF Element.IH represents_descend [OF e(2)], of cs] e(3) Element.prems(2,3) by auto
    let ?M3 = "level_leave (fst (css_walk_list ?M1 (Suc d) cs)) (Suc d)"
    let ?s3 = "if cs = [] then s1 else cnt_leave (fst (walk_list s1 (Suc d) cs)) (Suc d)"
    have r: "represents ?s3 ?M3 d \<and> length ?s3 \<le> length s + decl_count (Element es cs)"
      using represents_leave [OF l(1)] l(2) e(3) level_leave_same [OF e(2)] e(2) by auto
    have x: "pv_cnt_exit ?s3 d (enter_text (level_values ?M1 d) es)
        = (?s3, exit_text (level_values ?M3 d) (enter_text (level_values ?M1 d) es))"
      using r Element.prems(3) False by (intro exit_plain) simp_all
    have w: "walk s d (Element es cs) = (?s3, Element (exit_text (level_values ?M3 d) (enter_text (level_values ?M1 d) es))
        (snd (css_walk_list ?M1 (Suc d) cs)))"
      using e(1) x l(3) by (cases "cs = []") (simp_all add: split_def Let_def)
    have c: "css_walk M d (Element es cs) = (?M3, Element (exit_text (level_values ?M3 d) (enter_text (level_values ?M1 d) es))
        (snd (css_walk_list ?M1 (Suc d) cs)))"
      using False by (simp add: split_def Let_def)
    show ?thesis unfolding w c fst_conv snd_conv using r by blast
  qed
next
  case (Other cs)
  have l: "represents (fst (walk_list s (Suc d) cs)) (fst (css_walk_list M (Suc d) cs)) (Suc d)"
    "length (fst (walk_list s (Suc d) cs)) \<le> length s + sum_list (map decl_count cs)"
    "snd (walk_list s (Suc d) cs) = snd (css_walk_list M (Suc d) cs)"
    using walk_children [OF Other.IH represents_descend [OF Other.prems(1)], of cs] Other.prems(2,3) by auto
  show ?case
    using represents_leave [OF l(1)] l(2,3) level_leave_same [OF Other.prems(1)] Other.prems(1)
    by (cases "cs = []") (simp_all add: split_def Let_def)
qed


text \<open>The texts before the elements of a document, in order, and a few documents.\<close>

fun before_texts :: "node \<Rightarrow> string list" where
  "before_texts (Element es cs) = es_before_str es # concat (map before_texts cs)"
| "before_texts (Other cs) = concat (map before_texts cs)"

definition plain_style :: elem_style where
  "plain_style = \<lparr> es_none = False, es_reset = [], es_inc = [], es_before = None, es_own = False, es_after = None,
     es_before_str = [], es_str = [], es_after_str = [], es_attr = Map.empty \<rparr>"

definition counter_c :: "int \<Rightarrow> cnt_decl list" where
  "counter_c v = [\<lparr> cd_name = cnt_hash ''c'', cd_value = v \<rparr>]"

definition list_item :: "node list \<Rightarrow> node" where
  "list_item cs = Element (plain_style\<lparr>es_inc := counter_c 1, es_before := Some \<lparr> ps_reset = [], ps_inc = [] \<rparr>,
     es_before_str := marker_of [Counters ''c'' ''.'' CNT_DECIMAL]\<rparr>) cs"

definition ordered_list :: "node list \<Rightarrow> node" where
  "ordered_list cs = Element (plain_style\<lparr>es_reset := counter_c 0\<rparr>) cs"


text \<open>A counter that a \<^verbatim>\<open>::before\<close> creates lives among the children of its element. An element without children is not
  left through \<^verbatim>\<open>cnt_leave\<close>, so the counter stays and the next sibling of the element sees it; with any child it is gone.\<close>

definition resetting :: "node list \<Rightarrow> node" where
  "resetting cs = Element (plain_style\<lparr>es_before := Some \<lparr> ps_reset = counter_c 5, ps_inc = [] \<rparr>\<rparr>) cs"

definition showing :: node where
  "showing = Element (plain_style\<lparr>es_before := Some \<lparr> ps_reset = [], ps_inc = [] \<rparr>,
     es_before_str := marker_of [Counter ''c'' CNT_DECIMAL]\<rparr>) []"

theorem pv_pseudo_counter_leaks:
  "map_option before_texts (pv_counters_pass True True (Other [resetting [], showing])) = Some [[], ''5'']"
  "map_option before_texts (pv_counters_pass True True (Other [resetting [Other []], showing])) = Some [[], ''0'']"
proof -
  have "before_texts (snd (walk [] 0 (Other [resetting [], showing]))) = [[], ''5'']" by code_simp
  then show "map_option before_texts (pv_counters_pass True True (Other [resetting [], showing])) = Some [[], ''5'']"
    by (simp add: pass_walk)
  have "before_texts (snd (walk [] 0 (Other [resetting [Other []], showing]))) = [[], ''0'']" by code_simp
  then show "map_option before_texts (pv_counters_pass True True (Other [resetting [Other []], showing])) = Some [[], ''0'']"
    by (simp add: pass_walk)
qed

end
