(* ===== verification/Prefetch_Scan.thy ===== *)
theory Prefetch_Scan
  imports C_Prelude
begin

text \<open>
  The scanners of \<^verbatim>\<open>src/prefetch.c\<close>: the references of a page to style sheets and scripts, the static imports of a
  JavaScript module, the body of the import map. The rest of the text from a position is the list of its
  bytes; a position before it is the byte there, where the code looks back.
\<close>

section \<open>Model\<close>

definition PF_MAX_URL :: nat where "PF_MAX_URL = 8192"
definition PF_MAX_REFS :: nat where "PF_MAX_REFS = 64"
definition PF_MAX_IMPORTS :: nat where "PF_MAX_IMPORTS = 64"
definition PF_SPEC_MAX :: nat where "PF_SPEC_MAX = 1024"

definition pf_ws :: "char \<Rightarrow> bool" where
  "pf_ws c \<longleftrightarrow> c \<in> {CHR '' '', CHR 0x09, CHR 0x0A, CHR 0x0D, CHR 0x0C}"

definition is_name_char :: "char \<Rightarrow> bool" where
  "is_name_char c \<longleftrightarrow> is_alnum c \<or> c = CHR ''-''"

definition ci_starts :: "string \<Rightarrow> string \<Rightarrow> bool" where
  "ci_starts p kw \<longleftrightarrow> length kw \<le> length p \<and> lower_str (take (length kw) p) = kw"

fun ci_find :: "string \<Rightarrow> string \<Rightarrow> string option" where
  "ci_find p kw = (if ci_starts p kw then Some p else case p of [] \<Rightarrow> None | c # q \<Rightarrow> ci_find q kw)"

definition ci_eq_span :: "string \<Rightarrow> string \<Rightarrow> bool" where
  "ci_eq_span s kw \<longleftrightarrow> lower_str s = kw"

text \<open>What a caller that reads a C string sees of bytes copied into a terminated buffer.\<close>

definition c_string :: "string \<Rightarrow> string" where
  "c_string s = takeWhile (\<lambda>c. c \<noteq> NUL) s"

subsection \<open>Attributes\<close>

record attr_span =
  as_name :: string
  as_val :: "string option"

definition name_stop :: "char \<Rightarrow> bool" where
  "name_stop c \<longleftrightarrow> c \<in> {CHR ''='', CHR ''>'', CHR ''/''} \<or> pf_ws c"

definition attr_value :: "string \<Rightarrow> string \<times> string" where
  "attr_value p =
     (case p of
        [] \<Rightarrow> ([], [])
      | q # r \<Rightarrow>
        if q = CHR 0x22 \<or> q = CHR 0x27 then (takeWhile (\<lambda>c. c \<noteq> q) r, drop 1 (dropWhile (\<lambda>c. c \<noteq> q) r))
        else (takeWhile (\<lambda>c. \<not> pf_ws c \<and> c \<noteq> CHR ''>'') p, dropWhile (\<lambda>c. \<not> pf_ws c \<and> c \<noteq> CHR ''>'') p))"

text \<open>\<open>None\<close> is the end of the tag; the text behind is returned in both cases.\<close>

definition next_attr :: "string \<Rightarrow> attr_span option \<times> string" where
  "next_attr p =
     (let p = dropWhile (\<lambda>c. pf_ws c \<or> c = CHR ''/'') p in
      case p of
        [] \<Rightarrow> (None, [])
      | c # r \<Rightarrow>
        if c = CHR ''>'' then (None, r)
        else
          let name = takeWhile (\<lambda>c. \<not> name_stop c) p in
          if name = [] then (Some \<lparr> as_name = [], as_val = None \<rparr>, r)
          else
            let q = dropWhile pf_ws (dropWhile (\<lambda>c. \<not> name_stop c) p) in
            (case q of
               [] \<Rightarrow> (Some \<lparr> as_name = name, as_val = None \<rparr>, q)
             | e # q' \<Rightarrow>
               if e = CHR ''='' then
                 let (v, rest) = attr_value (dropWhile pf_ws q') in (Some \<lparr> as_name = name, as_val = Some v \<rparr>, rest)
               else (Some \<lparr> as_name = name, as_val = None \<rparr>, q)))"

lemma attr_value_length: "attr_value p = (v, r) \<Longrightarrow> length r \<le> length p"
  by (auto simp: attr_value_def length_dropWhile_le le_SucI le_diff_conv split: list.splits if_splits)

lemma next_attr_shorter:
  assumes "next_attr p = (Some a, r)"
  shows "length r < length p"
proof -
  define q where "q = dropWhile (\<lambda>c. pf_ws c \<or> c = CHR ''/'') p"
  have qp: "length q \<le> length p" by (simp add: q_def length_dropWhile_le)
  obtain c q1 where q: "q = c # q1" "c \<noteq> CHR ''>''"
    using assms by (auto simp: next_attr_def q_def Let_def split: list.splits if_splits)
  show ?thesis
  proof (cases "name_stop c")
    case True
    then show ?thesis using assms q qp by (auto simp: next_attr_def q_def [symmetric] Let_def)
  next
    case False
    define s where "s = dropWhile pf_ws (dropWhile (\<lambda>c. \<not> name_stop c) q1)"
    have s: "length s \<le> length q1"
      unfolding s_def by (rule order_trans [OF length_dropWhile_le length_dropWhile_le])
    have "r = s \<or> (\<exists>e s' v. s = e # s' \<and> attr_value (dropWhile pf_ws s') = (v, r))"
      using assms q False by (auto simp: next_attr_def q_def [symmetric] s_def [symmetric] Let_def split: list.splits if_splits prod.splits)
    then have "length r \<le> length s"
      using attr_value_length length_dropWhile_le by (fastforce intro: order_trans le_SucI)
    then show ?thesis using s q qp by simp
  qed
qed

text \<open>All attributes of a tag, and the text behind it.\<close>

function tag_attrs :: "string \<Rightarrow> attr_span list \<times> string" where
  "tag_attrs p =
     (case next_attr p of
        (None, r) \<Rightarrow> ([], r)
      | (Some a, r) \<Rightarrow> (let (as, e) = tag_attrs r in (a # as, e)))"
  by pat_completeness auto
termination
  by (relation "measure length") (auto dest: next_attr_shorter [OF sym])

declare tag_attrs.simps [simp del]

text \<open>The value of an attribute that the loops over a tag end with: the last one that has a value.\<close>

definition keep_attr :: "string \<Rightarrow> string option \<Rightarrow> attr_span \<Rightarrow> string option" where
  "keep_attr name cur a =
     (case as_val a of None \<Rightarrow> cur | Some v \<Rightarrow> if ci_eq_span (as_name a) name then Some v else cur)"

definition attr_of :: "string \<Rightarrow> attr_span list \<Rightarrow> string option" where
  "attr_of name as = foldl (keep_attr name) None as"

function rel_has_stylesheet :: "string \<Rightarrow> bool" where
  "rel_has_stylesheet v =
     (let t = dropWhile pf_ws v in
      if t = [] then False
      else if ci_eq_span (takeWhile (\<lambda>c. \<not> pf_ws c) t) ''stylesheet'' then True
      else rel_has_stylesheet (dropWhile (\<lambda>c. \<not> pf_ws c) t))"
  by pat_completeness auto
termination
proof (relation "measure length", simp, goal_cases)
  case (1 v t)
  then have "\<not> pf_ws (hd t)" by (metis hd_dropWhile)
  then have "length (dropWhile (\<lambda>c. \<not> pf_ws c) t) < length t"
    using 1(2) by (cases t) (auto simp: less_Suc_eq_le length_dropWhile_le)
  also have "length t \<le> length v" using 1(1) by (simp add: length_dropWhile_le)
  finally show ?case by simp
qed

declare rel_has_stylesheet.simps [simp del]

subsection \<open>The references of a page\<close>

datatype pf_kind = PF_STYLESHEET | PF_SCRIPT

type_synonym pf_list = "(pf_kind \<times> string) list"

definition emit :: "allocator \<Rightarrow> pf_list \<Rightarrow> pf_kind \<Rightarrow> string option \<Rightarrow> pf_list" where
  "emit mem out kind val =
     (case val of
        None \<Rightarrow> out
      | Some v \<Rightarrow>
        if length out \<ge> PF_MAX_REFS \<or> v = [] \<or> length v \<ge> PF_MAX_URL then out
        else if \<not> mem (length v + 1) then out
        else out @ [(kind, c_string v)])"

text \<open>Whether a tag of this name opens here, and the text behind a closing word, or none.\<close>

definition opens_tag :: "string \<Rightarrow> string \<Rightarrow> bool" where
  "opens_tag p kw \<longleftrightarrow> ci_starts p kw \<and> \<not> (length kw < length p \<and> is_name_char (p ! length kw))"

definition past :: "string \<Rightarrow> string \<Rightarrow> string" where
  "past p kw = (case ci_find p kw of None \<Rightarrow> [] | Some q \<Rightarrow> drop (length kw) q)"

lemma ci_find_length: "ci_find p kw = Some q \<Longrightarrow> length q \<le> length p"
  by (induction p) (auto split: if_splits intro: le_SucI)

lemma past_length: "length (past p kw) \<le> length p"
  using ci_find_length [of p kw] by (auto simp: past_def split: option.splits intro: le_trans [OF diff_le_self])

lemma tag_attrs_length: "length (snd (tag_attrs p)) \<le> length p"
proof (induction p rule: tag_attrs.induct)
  case (1 p)
  obtain found r where n: "next_attr p = (found, r)" by fastforce
  show ?case
  proof (cases found)
    case None
    then have "length r \<le> length p"
      using n length_dropWhile_le [of "\<lambda>c. pf_ws c \<or> c = CHR ''/''" p]
      by (auto simp: next_attr_def Let_def split: list.splits if_splits prod.splits)
    then show ?thesis using n None by (subst tag_attrs.simps) simp
  next
    case (Some a)
    then show ?thesis using n 1 next_attr_shorter [of p a r] by (subst tag_attrs.simps) (fastforce simp: split_def Let_def)
  qed
qed

lemma scan_shorter:
  assumes "x = dropWhile (\<lambda>c. c \<noteq> CHR ''<'') p" "x \<noteq> []" "length y \<le> length x - 1"
  shows "((mem, y, out), mem', p, out') \<in> measure (\<lambda>(mem, p, out). length p)"
proof -
  have "length x \<le> length p" "0 < length x" using assms(1,2) by (simp_all add: length_dropWhile_le)
  then have "length y < length p" using assms(3) by linarith
  then show ?thesis by simp
qed

function scan_tags :: "allocator \<Rightarrow> string \<Rightarrow> pf_list \<Rightarrow> pf_list" where
  "scan_tags mem p out =
     (let p = dropWhile (\<lambda>c. c \<noteq> CHR ''<'') p in
      if p = [] then out
      else if ci_starts p ''<!--'' then scan_tags mem (past (drop 4 p) ''-->'') out
      else if opens_tag p ''<script'' then
        let (as, cur) = tag_attrs (drop 7 p) in
        scan_tags mem (past cur ''</script'') (emit mem out PF_SCRIPT (attr_of ''src'' as))
      else if opens_tag p ''<style'' then scan_tags mem (past (drop 6 p) ''</style'') out
      else if opens_tag p ''<link'' then
        let (as, cur) = tag_attrs (drop 5 p) in
        scan_tags mem cur
          (case (attr_of ''href'' as, attr_of ''rel'' as) of
             (Some href, Some rel) \<Rightarrow> if rel_has_stylesheet rel then emit mem out PF_STYLESHEET (Some href) else out
           | _ \<Rightarrow> out)
      else scan_tags mem (tl p) out)"
  by pat_completeness auto
termination
proof (relation "measure (\<lambda>(mem, p, out). length p)", goal_cases)
  case (2 mem p out x)
  then show ?case using past_length [of "drop 4 x" "''-->''"] by (intro scan_shorter [of x]) auto
next
  case (3 mem p out x z as cur)
  then have "length (past cur ''</script'') \<le> length (drop 7 x)"
    using past_length [of cur "''</script''"] tag_attrs_length [of "drop 7 x"] by (auto simp: prod_eq_iff)
  then show ?case using 3 by (intro scan_shorter [of x]) auto
next
  case (4 mem p out x)
  then show ?case using past_length [of "drop 6 x" "''</style''"] by (intro scan_shorter [of x]) auto
next
  case (5 mem p out x z as cur)
  then have "length cur \<le> length (drop 5 x)" using tag_attrs_length [of "drop 5 x"] by (auto simp: prod_eq_iff)
  then show ?case using 5 by (intro scan_shorter [of x]) auto
next
  case (6 mem p out x)
  then show ?case by (intro scan_shorter [of x]) auto
qed simp

declare scan_tags.simps [simp del]

definition pf_scan :: "allocator \<Rightarrow> cptr \<Rightarrow> pf_list option" where
  "pf_scan mem html = map_option (\<lambda>h. scan_tags mem h []) html"

subsection \<open>The static imports of a module\<close>

definition js_ident_ch :: "char \<Rightarrow> bool" where
  "js_ident_ch c \<longleftrightarrow> is_alnum c \<or> c = CHR ''_'' \<or> c = CHR ''$''"

definition js_blank :: "char \<Rightarrow> bool" where
  "js_blank c \<longleftrightarrow> c \<in> {CHR '' '', CHR 0x09, CHR 0x0A, CHR 0x0D}"

definition js_skip_ws :: "string \<Rightarrow> string" where
  "js_skip_ws p = dropWhile js_blank p"

text \<open>The text behind a literal, from behind its opening quote.\<close>

fun literal_end :: "char \<Rightarrow> string \<Rightarrow> string" where
  "literal_end q [] = []"
| "literal_end q (c # r) = (if c = q then r else if c = CHR 0x5C then literal_end q (tl r) else literal_end q r)"

definition js_skip_string :: "string \<Rightarrow> string" where
  "js_skip_string p = literal_end (hd p) (tl p)"

definition at_quote :: "string \<Rightarrow> bool" where
  "at_quote p \<longleftrightarrow> p \<noteq> [] \<and> (hd p = CHR 0x22 \<or> hd p = CHR 0x27)"

definition js_take_spec :: "nat \<Rightarrow> string \<Rightarrow> string list \<Rightarrow> string list" where
  "js_take_spec cap p out =
     (if \<not> at_quote p \<or> length out \<ge> cap then out
      else
        let q = hd p; r = tl p; sp = takeWhile (\<lambda>c. c \<noteq> q \<and> c \<noteq> CHR 0x5C \<and> c \<noteq> CHR 0x0A) r; rest = drop (length sp) r in
        if rest = [] \<or> hd rest \<noteq> q then out
        else if sp = [] \<or> length sp \<ge> PF_SPEC_MAX then out
        else out @ [c_string sp])"

text \<open>The text behind a block comment, from behind its opening.\<close>

fun comment_end :: "string \<Rightarrow> string" where
  "comment_end (c # d # r) = (if c = CHR ''*'' \<and> d = CHR ''/'' then r else comment_end (d # r))"
| "comment_end _ = []"

text \<open>One word: the text to continue with, the byte before it, whether a clause waits for \<^verbatim>\<open>from\<close>, the specifiers.\<close>

definition import_word :: "nat \<Rightarrow> string \<Rightarrow> string \<Rightarrow> bool \<Rightarrow> string list \<Rightarrow> string \<times> char \<times> bool \<times> string list" where
  "import_word cap w r clause out =
     (let j = js_skip_ws r in
      if w = ''import'' then
        if at_quote j then (js_skip_string j, hd j, False, js_take_spec cap j out)
        else if j \<noteq> [] \<and> (hd j = CHR ''('' \<or> hd j = CHR ''.'') then (r, last w, False, out)
        else (r, last w, True, out)
      else if w = ''export'' then (r, last w, True, out)
      else if w = ''from'' \<and> clause then
        if at_quote j then (js_skip_string j, hd j, False, js_take_spec cap j out)
        else (r, last w, False, js_take_spec cap j out)
      else (r, last w, clause, out))"

lemma literal_end_length: "length (literal_end q r) \<le> length r"
  by (induction q r rule: literal_end.induct) (auto intro: le_trans)

lemma js_skip_string_length: "length (js_skip_string p) \<le> length p"
  using literal_end_length [of "hd p" "tl p"] by (auto simp: js_skip_string_def intro: le_trans)

lemma comment_end_length: "length (comment_end p) \<le> length p"
  by (induction p rule: comment_end.induct) auto

lemma import_word_length:
  assumes "import_word cap w r clause out = (r', c, cl, out')"
  shows "length r' \<le> length r"
proof -
  have "length (js_skip_string (js_skip_ws r)) \<le> length r"
    using js_skip_string_length [of "js_skip_ws r"] by (simp add: js_skip_ws_def) (rule order_trans [OF _ length_dropWhile_le])
  then show ?thesis using assms by (auto simp: import_word_def Let_def split: if_splits)
qed

function scan_imports :: "nat \<Rightarrow> char option \<Rightarrow> bool \<Rightarrow> string list \<Rightarrow> string \<Rightarrow> string list" where
  "scan_imports cap prev clause out [] = out"
| "scan_imports cap prev clause out (c # r) =
     (if length out \<ge> cap then out
      else if c = CHR ''/'' \<and> r \<noteq> [] \<and> hd r = CHR ''/'' then
        let t = takeWhile (\<lambda>d. d \<noteq> CHR 0x0A) (c # r) in scan_imports cap (Some (last t)) clause out (drop (length t) (c # r))
      else if c = CHR ''/'' \<and> r \<noteq> [] \<and> hd r = CHR ''*'' then scan_imports cap (Some CHR ''/'') clause out (comment_end (tl r))
      else if c = CHR 0x22 \<or> c = CHR 0x27 \<or> c = CHR 0x60 then scan_imports cap (Some c) clause out (js_skip_string (c # r))
      else if c = CHR '';'' then scan_imports cap (Some c) False out r
      else if \<not> js_ident_ch c then scan_imports cap (Some c) clause out r
      else
        let w = takeWhile js_ident_ch (c # r); r1 = dropWhile js_ident_ch (c # r) in
        if prev = Some CHR ''.'' \<or> (\<exists>d. prev = Some d \<and> js_ident_ch d) then scan_imports cap (Some (last w)) clause out r1
        else
          let (r2, d, cl, out') = import_word cap w r1 clause out in scan_imports cap (Some d) cl out' r2)"
  by pat_completeness auto
termination
proof (relation "measure (\<lambda>(cap, prev, clause, out, p). length p)", goal_cases)
  case (3 cap prev clause out c r)
  then show ?case using comment_end_length [of "tl r"] by (cases r) auto
next
  case (4 cap prev clause out c r)
  then show ?case using literal_end_length [of c r] by (auto simp: js_skip_string_def less_Suc_eq_le)
next
  case (8 cap prev clause out c r w r1 x r2 y d z cl out')
  then have "length r2 \<le> length r1" "length r1 \<le> length r" by (auto dest: import_word_length [OF sym] simp: length_dropWhile_le)
  then show ?case by simp
qed (auto simp: less_Suc_eq_le length_dropWhile_le)

declare scan_imports.simps(2) [simp del]

definition pf_scan_imports :: "cptr \<Rightarrow> nat \<Rightarrow> string list" where
  "pf_scan_imports js cap = (case js of None \<Rightarrow> [] | Some p \<Rightarrow> if cap = 0 then [] else scan_imports cap None False [] p)"

subsection \<open>The import map of a page\<close>

fun closer_at :: "nat \<Rightarrow> string \<Rightarrow> nat option" where
  "closer_at n p =
     (if length p < 9 then None else if ci_starts p ''</script'' then Some n
      else case p of [] \<Rightarrow> None | c # q \<Rightarrow> closer_at (Suc n) q)"

declare closer_at.simps [simp del]

fun importmap_from :: "nat \<Rightarrow> string \<Rightarrow> (nat \<times> nat) option" where
  "importmap_from i [] = None"
| "importmap_from i (c # q) =
     (let p = c # q; tag = takeWhile (\<lambda>d. d \<noteq> CHR ''>'') (drop 7 p) in
      if length p \<le> 7 then None
      else if \<not> ci_starts p ''<script'' then importmap_from (Suc i) q
      else if CHR ''>'' \<notin> set (drop 7 p) then None
      else if ci_find tag ''importmap'' = None then importmap_from (Suc i) q
      else map_option (\<lambda>n. (i + 8 + length tag, n)) (closer_at 0 (drop (8 + length tag) p)))"

definition pf_find_importmap :: "cptr \<Rightarrow> (nat \<times> nat) option" where
  "pf_find_importmap html = (case html of None \<Rightarrow> None | Some h \<Rightarrow> importmap_from 0 h)"

section \<open>Scanning printed pages\<close>

text \<open>Pages as text, comments, tags and raw-text elements, with quoted attributes.\<close>

datatype page_item = Text string | Comment string | Element string "(string \<times> string) list" | Closing string
  | Raw string "(string \<times> string) list" string

definition print_attrs :: "(string \<times> string) list \<Rightarrow> string" where
  "print_attrs as = concat (map (\<lambda>(n, v). CHR '' '' # n @ CHR ''='' # CHR 0x22 # v @ [CHR 0x22]) as)"

fun print_item :: "page_item \<Rightarrow> string" where
  "print_item (Text t) = t"
| "print_item (Comment t) = ''<!--'' @ t @ ''-->''"
| "print_item (Element n as) = CHR ''<'' # n @ print_attrs as @ ''>''"
| "print_item (Closing n) = ''</'' @ n @ ''>''"
| "print_item (Raw n as t) = CHR ''<'' # n @ print_attrs as @ ''>'' @ t @ ''</'' @ n @ ''>''"

text \<open>The first occurrence of a closing word behind a text is the one after it.\<close>

definition closed_by :: "string \<Rightarrow> string \<Rightarrow> bool" where
  "closed_by kw t \<longleftrightarrow> ci_find (t @ kw) kw = Some kw"

definition tag_name :: "string \<Rightarrow> bool" where
  "tag_name n \<longleftrightarrow> n \<noteq> [] \<and> list_all is_name_char n"

definition attrs_ok :: "(string \<times> string) list \<Rightarrow> bool" where
  "attrs_ok as \<longleftrightarrow> list_all (\<lambda>(n, v). tag_name n \<and> CHR 0x22 \<notin> set v \<and> cstr v) as"

fun item_ok :: "page_item \<Rightarrow> bool" where
  "item_ok (Text t) = (CHR ''<'' \<notin> set t)"
| "item_ok (Comment t) = closed_by ''-->'' t"
| "item_ok (Element n as) = (tag_name n \<and> attrs_ok as \<and> lower_str n \<noteq> ''script'' \<and> lower_str n \<noteq> ''style''
     \<and> (lower_str n = ''link'' \<or> CHR ''<'' \<notin> set (print_attrs as)))"
| "item_ok (Closing n) = tag_name n"
| "item_ok (Raw n as t) = (attrs_ok as \<and> (lower_str n = ''script'' \<and> closed_by ''</script'' t
     \<or> lower_str n = ''style'' \<and> closed_by ''</style'' (print_attrs as @ ''>'' @ t)))"

text \<open>The references: the last \<^verbatim>\<open>src\<close> of a script, the last \<^verbatim>\<open>href\<close> of a link whose last \<^verbatim>\<open>rel\<close> lists \<^verbatim>\<open>stylesheet\<close>.\<close>

definition attr_in :: "string \<Rightarrow> (string \<times> string) list \<Rightarrow> string option" where
  "attr_in name as = map_of (rev (map (\<lambda>(n, v). (lower_str n, v)) as)) name"

fun words :: "string \<Rightarrow> string list" where
  "words [] = [[]]"
| "words (c # s) = (if pf_ws c then [] # words s else case words s of [] \<Rightarrow> [[c]] | w # ws \<Rightarrow> (c # w) # ws)"

definition lists_sheet :: "string \<Rightarrow> bool" where
  "lists_sheet v \<longleftrightarrow> ''stylesheet'' \<in> set (map lower_str (words v))"

definition ref_of :: "pf_kind \<Rightarrow> string option \<Rightarrow> pf_list" where
  "ref_of kind val = (case val of None \<Rightarrow> [] | Some v \<Rightarrow> if v = [] \<or> length v \<ge> PF_MAX_URL then [] else [(kind, v)])"

fun refs_of :: "page_item \<Rightarrow> pf_list" where
  "refs_of (Raw n as t) = (if lower_str n = ''script'' then ref_of PF_SCRIPT (attr_in ''src'' as) else [])"
| "refs_of (Element n as) =
     (if lower_str n = ''link'' \<and> (case attr_in ''rel'' as of None \<Rightarrow> False | Some rel \<Rightarrow> lists_sheet rel)
      then ref_of PF_STYLESHEET (attr_in ''href'' as) else [])"
| "refs_of _ = []"

subsection \<open>Words and attributes\<close>

lemma ci_starts_append: "ci_starts (c @ r) kw \<longleftrightarrow> lower_str c = kw" if "length c = length kw"
  using that by (auto simp: ci_starts_def)

lemma ci_find_closed:
  assumes "closed_by kw t" "lower_str c = kw"
  shows "ci_find (t @ c @ rest) kw = Some (c @ rest)"
  using assms(1)
proof (induction t)
  case Nil
  have "ci_starts (c @ rest) kw" using assms(2) ci_starts_append [of c kw rest] by auto
  then show ?case by (subst ci_find.simps) simp
next
  case (Cons a t)
  have n: "\<not> ci_starts (a # t @ kw) kw"
    using Cons.prems by (auto simp: closed_by_def split: if_splits dest: arg_cong [where f = length])
  have l: "length c = length kw" using assms(2) by auto
  have "take (length kw) (a # t @ c @ rest) = take (length kw) (a # t @ c)" using l by (cases "length kw") simp_all
  moreover have "lower_str (take (length kw) (a # t @ c)) = lower_str (take (length kw) (a # t @ kw))"
    using assms(2) by (simp add: take_map [symmetric] del: map_map) (metis lower_str_idem)
  ultimately have "\<not> ci_starts (a # t @ c @ rest) kw" using n l by (simp add: ci_starts_def)
  moreover have "closed_by kw t" using Cons.prems n by (simp add: closed_by_def)
  ultimately show ?case using Cons.IH by simp
qed

lemma past_closed: "closed_by kw t \<Longrightarrow> lower_str c = kw \<Longrightarrow> past (t @ c @ rest) kw = rest"
  using ci_find_closed [of kw t c rest] by (auto simp: past_def)

lemma name_char_stop: "is_name_char c \<Longrightarrow> \<not> name_stop c \<and> \<not> pf_ws c \<and> c \<noteq> CHR ''<'' \<and> c \<noteq> CHR ''!'' \<and> c \<noteq> CHR ''>'' \<and> c \<noteq> CHR ''/''"
  by (auto simp: is_name_char_def is_alnum_def is_alpha_def is_upper_def is_lower_def is_digit_def name_stop_def pf_ws_def less_eq_char_def)

lemma next_attr_print:
  assumes "tag_name n" "CHR 0x22 \<notin> set v"
  shows "next_attr (CHR '' '' # n @ CHR ''='' # CHR 0x22 # v @ CHR 0x22 # rest) = (Some \<lparr> as_name = n, as_val = Some v \<rparr>, rest)"
proof -
  obtain c m where n: "n = c # m" "is_name_char c" "list_all is_name_char m" using assms(1) by (cases n) (auto simp: tag_name_def)
  have all: "\<forall>d \<in> set n. \<not> name_stop d" using assms(1) name_char_stop by (auto simp: tag_name_def list_all_iff)
  have eq: "name_stop CHR ''=''" "\<not> pf_ws CHR ''=''" "pf_ws CHR '' ''" by (simp_all add: name_stop_def pf_ws_def)
  have t: "takeWhile (\<lambda>c. \<not> name_stop c) (n @ CHR ''='' # CHR 0x22 # v @ CHR 0x22 # rest) = n"
    "dropWhile (\<lambda>c. \<not> name_stop c) (n @ CHR ''='' # CHR 0x22 # v @ CHR 0x22 # rest) = CHR ''='' # CHR 0x22 # v @ CHR 0x22 # rest"
    using all eq by simp_all
  have d: "dropWhile (\<lambda>c. pf_ws c \<or> c = CHR ''/'') (CHR '' '' # n @ CHR ''='' # CHR 0x22 # v @ CHR 0x22 # rest)
      = n @ CHR ''='' # CHR 0x22 # v @ CHR 0x22 # rest"
    using n name_char_stop [of c] eq by simp
  have v: "attr_value (dropWhile pf_ws (CHR 0x22 # v @ CHR 0x22 # rest)) = (v, rest)"
    using assms(2) by (simp add: attr_value_def pf_ws_def)
  have "\<exists>x y. n @ CHR ''='' # CHR 0x22 # v @ CHR 0x22 # rest = x # y \<and> x \<noteq> CHR ''>''" using n name_char_stop [of c] by simp
  then show ?thesis unfolding next_attr_def d Let_def t using n eq v by (auto split: list.split)
qed

lemma tag_attrs_print:
  "attrs_ok as \<Longrightarrow> tag_attrs (print_attrs as @ CHR ''>'' # rest) = (map (\<lambda>(n, v). \<lparr> as_name = n, as_val = Some v \<rparr>) as, rest)"
proof (induction as)
  case Nil
  then show ?case by (subst tag_attrs.simps) (simp add: print_attrs_def next_attr_def pf_ws_def)
next
  case (Cons a as)
  obtain n v where a: "a = (n, v)" by (cases a)
  have "next_attr (print_attrs (a # as) @ CHR ''>'' # rest) = (Some \<lparr> as_name = n, as_val = Some v \<rparr>, print_attrs as @ CHR ''>'' # rest)"
    using Cons.prems next_attr_print [of n v] by (simp add: a attrs_ok_def print_attrs_def)
  then show ?case using Cons by (subst tag_attrs.simps) (simp add: a attrs_ok_def)
qed

lemma attr_of_in: "attr_of name (map (\<lambda>(n, v). \<lparr> as_name = n, as_val = Some v \<rparr>) as) = attr_in name as"
proof (induction as rule: rev_induct)
  case (snoc a as)
  then show ?case by (cases a) (auto simp: attr_of_def attr_in_def keep_attr_def ci_eq_span_def)
qed (simp add: attr_of_def attr_in_def)

lemma words_word: "words v = takeWhile (\<lambda>c. \<not> pf_ws c) v # (case dropWhile (\<lambda>c. \<not> pf_ws c) v of [] \<Rightarrow> [] | c # r \<Rightarrow> words r)"
  by (induction v) auto

lemma lists_sheet_blank: "lists_sheet (dropWhile pf_ws v) = lists_sheet v"
  by (induction v) (auto simp: lists_sheet_def)

lemma lists_sheet_word:
  "lists_sheet v \<longleftrightarrow> lower_str (takeWhile (\<lambda>c. \<not> pf_ws c) v) = ''stylesheet'' \<or> lists_sheet (dropWhile (\<lambda>c. \<not> pf_ws c) v)"
proof -
  let ?r = "dropWhile (\<lambda>c. \<not> pf_ws c) v"
  have "''stylesheet'' \<in> lower_str ` set (words ?r) \<longleftrightarrow> ''stylesheet'' \<in> lower_str ` set (case ?r of [] \<Rightarrow> [] | c # q \<Rightarrow> words q)"
  proof (cases ?r)
    case Nil
    show ?thesis unfolding Nil by simp
  next
    case (Cons c q)
    then have "pf_ws c" using hd_dropWhile [of "\<lambda>c. \<not> pf_ws c" v] by simp
    then show ?thesis unfolding Cons by simp
  qed
  then show ?thesis unfolding lists_sheet_def by (subst words_word) auto
qed

lemma rel_has_stylesheet_words: "rel_has_stylesheet v \<longleftrightarrow> lists_sheet v"
proof (induction v rule: rel_has_stylesheet.induct)
  case (1 v)
  let ?t = "dropWhile pf_ws v"
  have u: "rel_has_stylesheet v \<longleftrightarrow> ?t \<noteq> [] \<and> (lower_str (takeWhile (\<lambda>c. \<not> pf_ws c) ?t) = ''stylesheet''
      \<or> rel_has_stylesheet (dropWhile (\<lambda>c. \<not> pf_ws c) ?t))"
    by (subst rel_has_stylesheet.simps) (simp only: Let_def ci_eq_span_def, argo)
  show ?case
  proof (cases "?t = []")
    case True
    then have "\<not> lists_sheet v" by (subst lists_sheet_blank [symmetric]) (simp only: True, simp add: lists_sheet_def)
    then show ?thesis using u True by blast
  next
    case False
    then show ?thesis using u "1.IH" [OF refl False] lists_sheet_word [of ?t] lists_sheet_blank [of v] by (auto simp: ci_eq_span_def)
  qed
qed

subsection \<open>Tags\<close>

lemma lower_name_char: "is_name_char (ascii_lower d) \<Longrightarrow> is_name_char d"
  by (cases "is_upper d") (auto simp: is_name_char_def is_alnum_def is_alpha_def ascii_lower_def)

lemma opens_tag_name:
  assumes "tag_name n" "\<not> is_name_char d" "list_all is_name_char kw"
  shows "opens_tag (CHR ''<'' # n @ d # rest) (CHR ''<'' # kw) \<longleftrightarrow> lower_str n = kw"
proof -
  have lt: "ascii_lower CHR ''<'' = CHR ''<''" by code_simp
  consider "length kw < length n" | "length kw = length n" | "length n < length kw" by linarith
  then show ?thesis
  proof cases
    case 1
    then have "is_name_char ((n @ d # rest) ! length kw)" using assms(1) by (simp add: nth_append tag_name_def list_all_iff)
    then show ?thesis using 1 by (auto simp: opens_tag_def)
  next
    case 2
    then show ?thesis using assms(2) lt by (auto simp: opens_tag_def ci_starts_def nth_append)
  next
    case 3
    have "lower_str (take (length kw) (n @ d # rest)) \<noteq> kw"
    proof
      assume e: "lower_str (take (length kw) (n @ d # rest)) = kw"
      have "kw ! length n = ascii_lower d" by (subst e [symmetric]) (use 3 in \<open>simp add: nth_append\<close>)
      then have "is_name_char (ascii_lower d)" using assms(3) 3 by (auto simp: list_all_iff dest!: nth_mem)
      then show False using lower_name_char assms(2) by blast
    qed
    then show ?thesis using 3 lt by (auto simp: opens_tag_def ci_starts_def)
  qed
qed

lemma scan_text: "CHR ''<'' \<notin> set t \<Longrightarrow> scan_tags mem (t @ rest) out = scan_tags mem rest out"
proof -
  assume "CHR ''<'' \<notin> set t"
  then have d: "dropWhile (\<lambda>c. c \<noteq> CHR ''<'') (t @ rest) = dropWhile (\<lambda>c. c \<noteq> CHR ''<'') rest" by (intro dropWhile_append2) auto
  show ?thesis by (subst (1 2) scan_tags.simps) (simp only: d)
qed

lemma not_name_chars: "\<not> is_name_char CHR '' ''" "\<not> is_name_char CHR ''>''" "\<not> is_name_char CHR ''/''" "\<not> is_name_char CHR ''!''"
  by code_simp+

lemma attrs_hd: "\<exists>d r. print_attrs as @ CHR ''>'' # rest = d # r \<and> \<not> is_name_char d"
  using not_name_chars by (cases as) (auto simp: print_attrs_def)

lemma opens_printed:
  assumes "tag_name n" "list_all is_name_char kw"
  shows "opens_tag (CHR ''<'' # n @ print_attrs as @ CHR ''>'' # rest) (CHR ''<'' # kw) \<longleftrightarrow> lower_str n = kw"
  using opens_tag_name [OF assms(1) _ assms(2)] attrs_hd [of as rest] by force

lemma no_comment: "tag_name n \<Longrightarrow> \<not> ci_starts (CHR ''<'' # n @ r) ''<!--''"
proof -
  assume "tag_name n"
  then obtain c m where n: "n = c # m" "is_name_char c" by (cases n) (auto simp: tag_name_def)
  then have "ascii_lower c \<noteq> CHR ''!''"
    using not_name_chars ascii_lower_eq_nonletter [of "CHR ''!''" c] by (auto simp: is_alpha_def is_upper_def is_lower_def less_eq_char_def)
  then show ?thesis using n by (simp add: ci_starts_def)
qed

lemma tag_words: "list_all is_name_char ''script''" "list_all is_name_char ''style''" "list_all is_name_char ''link''"
  by code_simp+

lemma scan_tag:
  "scan_tags mem (CHR ''<'' # r) out =
     (if ci_starts (CHR ''<'' # r) ''<!--'' then scan_tags mem (past (drop 3 r) ''-->'') out
      else if opens_tag (CHR ''<'' # r) ''<script'' then
        scan_tags mem (past (snd (tag_attrs (drop 6 r))) ''</script'') (emit mem out PF_SCRIPT (attr_of ''src'' (fst (tag_attrs (drop 6 r)))))
      else if opens_tag (CHR ''<'' # r) ''<style'' then scan_tags mem (past (drop 5 r) ''</style'') out
      else if opens_tag (CHR ''<'' # r) ''<link'' then
        scan_tags mem (snd (tag_attrs (drop 4 r)))
          (case (attr_of ''href'' (fst (tag_attrs (drop 4 r))), attr_of ''rel'' (fst (tag_attrs (drop 4 r)))) of
             (Some href, Some rel) \<Rightarrow> if rel_has_stylesheet rel then emit mem out PF_STYLESHEET (Some href) else out
           | _ \<Rightarrow> out)
      else scan_tags mem r out)"
  by (subst scan_tags.simps) (simp add: split_def Let_def)

definition add_ref :: "pf_list \<Rightarrow> pf_kind \<times> string \<Rightarrow> pf_list" where
  "add_ref out r = (if length out \<ge> PF_MAX_REFS then out else out @ [r])"

lemma emit_ref_of:
  assumes "\<And>n. n \<le> PF_MAX_URL \<Longrightarrow> mem n" "\<And>v. val = Some v \<Longrightarrow> cstr v"
  shows "emit mem out kind val = foldl add_ref out (ref_of kind val)"
proof (cases val)
  case (Some v)
  have "c_string v = v" using assms(2) [OF Some] by (auto simp: c_string_def cstr_def takeWhile_eq_all_conv)
  then show ?thesis using assms(1) [of "length v + 1"] by (auto simp: Some emit_def ref_of_def add_ref_def)
qed (simp add: emit_def ref_of_def)

lemma attr_in_cstr: "attrs_ok as \<Longrightarrow> attr_in name as = Some v \<Longrightarrow> cstr v"
  by (auto simp: attr_in_def attrs_ok_def list_all_iff dest!: map_of_SomeD)

lemma foldl_add_ref: "length out \<le> PF_MAX_REFS \<Longrightarrow> foldl add_ref out rs = take PF_MAX_REFS (out @ rs)"
  by (induction rs arbitrary: out) (auto simp: add_ref_def take_Cons')

lemma lower_marks [simp]: "ascii_lower CHR ''<'' = CHR ''<''" "ascii_lower CHR ''!'' = CHR ''!''"
  "ascii_lower CHR ''/'' = CHR ''/''" "ascii_lower CHR ''-'' = CHR ''-''"
  by code_simp+

lemma scan_comment:
  assumes "closed_by ''-->'' t"
  shows "scan_tags mem (''<!--'' @ t @ ''-->'' @ rest) out = scan_tags mem rest out"
proof -
  have "ci_starts (''<!--'' @ t @ ''-->'' @ rest) ''<!--''" by (simp add: ci_starts_def)
  then have "scan_tags mem (''<!--'' @ t @ ''-->'' @ rest) out = scan_tags mem (past (t @ ''-->'' @ rest) ''-->'') out"
    using scan_tag [of mem "''!--'' @ t @ ''-->'' @ rest" out] by simp
  moreover have "past (t @ ''-->'' @ rest) ''-->'' = rest" using assms by (rule past_closed) code_simp
  ultimately show ?thesis by simp
qed

lemma scan_closing:
  assumes "tag_name n"
  shows "scan_tags mem (''</'' @ n @ ''>'' @ rest) out = scan_tags mem rest out"
proof -
  have o: "\<not> opens_tag (CHR ''<'' # CHR ''/'' # r) (CHR ''<'' # k # kw)" "\<not> ci_starts (CHR ''<'' # CHR ''/'' # r) (CHR ''<'' # k # kw)"
    if "k \<noteq> CHR ''/''" for k kw r
    using that by (simp_all add: opens_tag_def ci_starts_def)
  have "scan_tags mem (''</'' @ n @ ''>'' @ rest) out = scan_tags mem ((CHR ''/'' # n @ ''>'') @ rest) out"
    using scan_tag [of mem "CHR ''/'' # n @ ''>'' @ rest" out] by (simp add: o)
  also have "\<dots> = scan_tags mem rest out"
    using assms name_char_stop by (intro scan_text) (auto simp: tag_name_def list_all_iff)
  finally show ?thesis .
qed

lemma scan_element:
  assumes "item_ok (Element n as)" and mem: "\<And>n. n \<le> PF_MAX_URL \<Longrightarrow> mem n"
  shows "scan_tags mem (CHR ''<'' # n @ print_attrs as @ ''>'' @ rest) out = scan_tags mem rest (foldl add_ref out (refs_of (Element n as)))"
proof -
  let ?r = "n @ print_attrs as @ ''>'' @ rest"
  have n: "tag_name n" "attrs_ok as" using assms(1) by simp_all
  have o: "opens_tag (CHR ''<'' # ?r) (CHR ''<'' # kw) \<longleftrightarrow> lower_str n = kw" if "list_all is_name_char kw" for kw
    using opens_printed [OF n(1) that, of as rest] by simp
  have c: "\<not> ci_starts (CHR ''<'' # ?r) ''<!--''" using no_comment [OF n(1)] by simp
  show ?thesis
  proof (cases "lower_str n = ''link''")
    case True
    then have "drop 4 ?r = print_attrs as @ CHR ''>'' # rest" by (auto dest: arg_cong [where f = length])
    then have t: "tag_attrs (drop 4 ?r) = (map (\<lambda>(n, v). \<lparr> as_name = n, as_val = Some v \<rparr>) as, rest)"
      using tag_attrs_print [OF n(2), of rest] by simp
    have "scan_tags mem (CHR ''<'' # ?r) out = scan_tags mem rest
        (case (attr_in ''href'' as, attr_in ''rel'' as) of
           (Some href, Some rel) \<Rightarrow> if lists_sheet rel then emit mem out PF_STYLESHEET (Some href) else out | _ \<Rightarrow> out)"
      unfolding scan_tag [of mem ?r] using c True o [OF tag_words(1)] o [OF tag_words(2)] o [OF tag_words(3)] t
      by (simp add: attr_of_in rel_has_stylesheet_words split: option.split)
    also have "\<dots> = scan_tags mem rest (foldl add_ref out (refs_of (Element n as)))"
      using True emit_ref_of [OF mem, where val = "attr_in ''href'' as"] attr_in_cstr [OF n(2)]
      by (auto simp: ref_of_def split: option.splits)
    finally show ?thesis .
  next
    case False
    have "CHR ''<'' \<notin> set (n @ print_attrs as @ ''>'')"
      using assms(1) False name_char_stop by (auto simp: tag_name_def list_all_iff)
    then have "scan_tags mem ?r out = scan_tags mem rest out" using scan_text [of "n @ print_attrs as @ ''>''"] by simp
    moreover have "scan_tags mem (CHR ''<'' # ?r) out = scan_tags mem ?r out"
      unfolding scan_tag [of mem ?r] using c False assms(1) o [OF tag_words(1)] o [OF tag_words(2)] o [OF tag_words(3)] by simp
    ultimately show ?thesis using False by simp
  qed
qed

lemma scan_raw:
  assumes "item_ok (Raw n as t)" and mem: "\<And>n. n \<le> PF_MAX_URL \<Longrightarrow> mem n"
  shows "scan_tags mem (CHR ''<'' # n @ print_attrs as @ ''>'' @ t @ ''</'' @ n @ ''>'' @ rest) out
    = scan_tags mem rest (foldl add_ref out (refs_of (Raw n as t)))"
proof -
  let ?r = "n @ print_attrs as @ ''>'' @ t @ ''</'' @ n @ ''>'' @ rest"
  have as: "attrs_ok as" using assms(1) by simp
  have "list_all is_name_char (lower_str n) \<and> n \<noteq> []" using assms(1) tag_words by auto
  then have n: "tag_name n" using lower_name_char by (auto simp: tag_name_def list_all_iff)
  have o: "opens_tag (CHR ''<'' # ?r) (CHR ''<'' # kw) \<longleftrightarrow> lower_str n = kw" if "list_all is_name_char kw" for kw
    using opens_printed [OF n that, of as "t @ ''</'' @ n @ ''>'' @ rest"] by simp
  have c: "\<not> ci_starts (CHR ''<'' # ?r) ''<!--''" using no_comment [OF n] by simp
  have gt: "scan_tags mem (CHR ''>'' # rest) out' = scan_tags mem rest out'" for out' using scan_text [of "''>''"] by simp
  show ?thesis
  proof (cases "lower_str n = ''script''")
    case True
    then have "drop 6 ?r = print_attrs as @ CHR ''>'' # t @ ''</'' @ n @ ''>'' @ rest" by (auto dest: arg_cong [where f = length])
    then have a: "tag_attrs (drop 6 ?r) = (map (\<lambda>(n, v). \<lparr> as_name = n, as_val = Some v \<rparr>) as, t @ ''</'' @ n @ ''>'' @ rest)"
      using tag_attrs_print [OF as] by simp
    have "past (t @ (''</'' @ n) @ ''>'' @ rest) ''</script'' = ''>'' @ rest"
      using assms(1) True by (intro past_closed) simp_all
    then have "scan_tags mem (CHR ''<'' # ?r) out = scan_tags mem (CHR ''>'' # rest) (emit mem out PF_SCRIPT (attr_in ''src'' as))"
      unfolding scan_tag [of mem ?r] using c True o [OF tag_words(1)] a by (simp add: attr_of_in)
    then show ?thesis using gt True emit_ref_of [OF mem, where val = "attr_in ''src'' as"] attr_in_cstr [OF as] by simp
  next
    case False
    then have s: "lower_str n = ''style''" "closed_by ''</style'' (print_attrs as @ ''>'' @ t)" using assms(1) by auto
    then have "drop 5 ?r = (print_attrs as @ ''>'' @ t) @ (''</'' @ n) @ ''>'' @ rest" by (auto dest: arg_cong [where f = length])
    then have "past (drop 5 ?r) ''</style'' = ''>'' @ rest" using past_closed [OF s(2), of "''</'' @ n"] s(1) by simp
    then have "scan_tags mem (CHR ''<'' # ?r) out = scan_tags mem (CHR ''>'' # rest) out"
      unfolding scan_tag [of mem ?r] using c s(1) o [OF tag_words(1)] o [OF tag_words(2)] by simp
    then show ?thesis using gt False by simp
  qed
qed



end
