(* ===== verification/Prefetch_Pool.thy ===== *)
theory Prefetch_Pool
  imports Prefetch_Scan Url Import_Map
begin

text \<open>
  The download pool of \<^verbatim>\<open>src/prefetch.c\<close>. Each section that runs under the lock is a function on the pool; threads
  and callers are the interleaving of these sections, a step relation on the pool, the positions of its
  threads, the callers that wait and a log of what was requested, answered and handed out. The fetcher
  answers anything at any time; the URL resolver and the import map are those of \<open>Url\<close> and \<open>Import_Map\<close>.
\<close>

section \<open>Model\<close>

definition PF_MAX_THREADS :: nat where "PF_MAX_THREADS = 6"
definition PF_MAX_JOBS :: nat where "PF_MAX_JOBS = 256"
definition IM_URL_MAX :: nat where "IM_URL_MAX = 8192"

text \<open>An answer of the fetcher: its return value and what it wrote; the length is that of the body.\<close>

record pf_result =
  pr_rc :: int
  pr_status :: int
  pr_body :: "string option"
  pr_ctype :: "string option"

datatype pf_job_state = PF_JOB_PENDING | PF_JOB_RUNNING | PF_JOB_DONE | PF_JOB_CONSUMED

record pf_job =
  pj_url :: string
  pj_state :: pf_job_state
  pj_res :: pf_result

text \<open>Where a thread is: waiting for work, in the fetcher for a job, queueing the imports of its answer, gone.\<close>

datatype pf_thread = Idle | Fetching nat | Following nat pf_result "string list" | Exited

record pf_pool =
  pp_jobs :: "pf_job list"
  pp_threads :: "pf_thread list"
  pp_next :: nat
  pp_started :: bool
  pp_closing :: bool
  pp_imap :: "im_map option"
  pp_page :: "string option"

definition no_result :: pf_result where
  "no_result = \<lparr> pr_rc = 0, pr_status = 0, pr_body = None, pr_ctype = None \<rparr>"

definition zero_pool :: pf_pool where
  "zero_pool = \<lparr> pp_jobs = [], pp_threads = [], pp_next = 0, pp_started = False, pp_closing = False, pp_imap = None, pp_page = None \<rparr>"

definition pending :: "string \<Rightarrow> pf_job" where
  "pending url = \<lparr> pj_url = url, pj_state = PF_JOB_PENDING, pj_res = no_result \<rparr>"

subsection \<open>Resolution of imports\<close>

definition ends_with :: "string \<Rightarrow> string \<Rightarrow> bool" where
  "ends_with u s \<longleftrightarrow> length s \<le> length u \<and> drop (length u - length s) u = s"

definition pf_is_js :: "cptr \<Rightarrow> cptr \<Rightarrow> bool" where
  "pf_is_js url ctype =
     (if (case ctype of None \<Rightarrow> False | Some t \<Rightarrow> strstr t ''javascript'' \<noteq> None) then True
      else case url of
          None \<Rightarrow> False
        | Some u \<Rightarrow> let p = takeWhile (\<lambda>c. c \<noteq> CHR ''?'' \<and> c \<noteq> CHR ''#'') u in ends_with p ''.js'' \<or> ends_with p ''.mjs'')"

definition pf_url_cb :: "nat \<Rightarrow> string \<Rightarrow> string \<Rightarrow> string option" where
  "pf_url_cb outsz base ref = (case url_resolve_https (Some base) (Some ref) (Some outsz) of Inr u \<Rightarrow> Some u | Inl e \<Rightarrow> None)"

definition pf_url_shaped :: "string \<Rightarrow> bool" where
  "pf_url_shaped sp \<longleftrightarrow> prefix ''./'' sp \<or> prefix ''../'' sp \<or> prefix ''/'' sp \<or> prefix ''https://'' sp"

definition import_url :: "im_map option \<Rightarrow> string \<Rightarrow> string \<Rightarrow> string option" where
  "import_url imap base sp =
     (case (case imap of None \<Rightarrow> None
                       | Some m \<Rightarrow> im_resolve (Some m) (Some base) (Some sp) (Some (pf_url_cb IM_URL_MAX)) (Some (PF_SPEC_MAX * 2))) of
        Some u \<Rightarrow> Some u
      | None \<Rightarrow> if pf_url_shaped sp then pf_url_cb (PF_SPEC_MAX * 2) base sp else None)"

text \<open>The specifiers a thread follows after an answer.\<close>

definition follow_specs :: "allocator \<Rightarrow> string \<Rightarrow> pf_result \<Rightarrow> string list" where
  "follow_specs mem url res =
     (case pr_body res of
        None \<Rightarrow> []
      | Some b \<Rightarrow>
        if pr_rc res = 0 \<and> 200 \<le> pr_status res \<and> pr_status res < 300 \<and> pf_is_js (Some url) (pr_ctype res)
          \<and> mem (PF_MAX_IMPORTS * PF_SPEC_MAX)
        then pf_scan_imports (Some b) PF_MAX_IMPORTS else [])"

subsection \<open>The sections under the lock\<close>

definition pf_pool_add :: "allocator \<Rightarrow> pf_pool \<Rightarrow> cptr \<Rightarrow> pf_pool \<times> bool" where
  "pf_pool_add mem p url =
     (case url of
        None \<Rightarrow> (p, False)
      | Some u \<Rightarrow>
        if u = [] then (p, False)
        else if pp_started p \<and> \<not> pp_closing p \<and> length (pp_jobs p) < PF_MAX_JOBS then
          if u \<in> set (map pj_url (pp_jobs p)) then (p, False)
          else if \<not> mem (length u + 1) then (p, False)
          else (p\<lparr>pp_jobs := pp_jobs p @ [pending u]\<rparr>, True)
        else (p, False))"

definition set_thread :: "nat \<Rightarrow> pf_thread \<Rightarrow> pf_pool \<Rightarrow> pf_pool" where
  "set_thread w t p = p\<lparr>pp_threads := (pp_threads p)[w := t]\<rparr>"

definition set_state :: "nat \<Rightarrow> pf_job_state \<Rightarrow> pf_pool \<Rightarrow> pf_pool" where
  "set_state i s p = p\<lparr>pp_jobs := (pp_jobs p)[i := (pp_jobs p ! i)\<lparr>pj_state := s\<rparr>]\<rparr>"

text \<open>A thread takes the next job, sees that the pool closes, adds one import, publishes its answer.\<close>

definition claim :: "nat \<Rightarrow> pf_pool \<Rightarrow> pf_pool" where
  "claim w p = set_thread w (Fetching (pp_next p)) (set_state (pp_next p) PF_JOB_RUNNING (p\<lparr>pp_next := pp_next p + 1\<rparr>))"

definition follow_one :: "allocator \<Rightarrow> string \<Rightarrow> string \<Rightarrow> pf_pool \<Rightarrow> pf_pool" where
  "follow_one mem base sp p = (case import_url (pp_imap p) base sp of None \<Rightarrow> p | Some u \<Rightarrow> fst (pf_pool_add mem p (Some u)))"

definition publish :: "nat \<Rightarrow> pf_result \<Rightarrow> pf_pool \<Rightarrow> pf_pool" where
  "publish i res p = p\<lparr>pp_jobs := (pp_jobs p)[i := (pp_jobs p ! i)\<lparr>pj_res := res, pj_state := PF_JOB_DONE\<rparr>]\<rparr>"

text \<open>A caller finds the job it will wait for, and takes the result once it is there.\<close>

definition wanted :: "string \<Rightarrow> pf_job \<Rightarrow> bool" where
  "wanted url j \<longleftrightarrow> pj_state j \<noteq> PF_JOB_CONSUMED \<and> pj_url j = url"

definition take_find :: "pf_pool \<Rightarrow> cptr \<Rightarrow> nat option" where
  "take_find p url =
     (case url of
        None \<Rightarrow> None
      | Some u \<Rightarrow> if \<not> pp_started p then None else find (\<lambda>i. wanted u (pp_jobs p ! i)) [0..<length (pp_jobs p)])"

definition take_result :: "nat \<Rightarrow> pf_pool \<Rightarrow> pf_result \<times> pf_pool" where
  "take_result i p =
     (let j = pp_jobs p ! i in
      (pj_res j, p\<lparr>pp_jobs := (pp_jobs p)[i := j\<lparr>pj_state := PF_JOB_CONSUMED, pj_res := (pj_res j)\<lparr>pr_body := None, pr_ctype := None\<rparr>\<rparr>]\<rparr>))"

subsection \<open>Starting and finishing\<close>

definition queue_url :: "allocator \<Rightarrow> pf_job list \<Rightarrow> cptr \<Rightarrow> pf_job list" where
  "queue_url mem jobs url =
     (case url of
        None \<Rightarrow> jobs
      | Some u \<Rightarrow>
        if length jobs \<ge> PF_MAX_JOBS \<or> u = [] \<or> u \<in> set (map pj_url jobs) \<or> \<not> mem (length u + 1) then jobs
        else jobs @ [pending u])"

text \<open>\<open>thr\<close> is the number of threads the system lets it create.\<close>

definition pool_start :: "allocator \<Rightarrow> nat \<Rightarrow> cptr list option \<Rightarrow> im_map option \<Rightarrow> cptr \<Rightarrow> pf_pool option" where
  "pool_start mem thr urls imap page_url =
     (case urls of
        None \<Rightarrow> None
      | Some us \<Rightarrow>
        let jobs = foldl (queue_url mem) [] us; n = min thr PF_MAX_THREADS in
        if us = [] \<or> jobs = [] then None
        else if n = 0 then None
        else Some \<lparr> pp_jobs = jobs, pp_threads = replicate n Idle, pp_next = 0, pp_started = True, pp_closing = False,
                    pp_imap = imap,
                    pp_page = (case page_url of None \<Rightarrow> None | Some u \<Rightarrow> if mem (length u + 1) then Some u else None) \<rparr>)"

definition pf_pool_start :: "allocator \<Rightarrow> nat \<Rightarrow> cptr list option \<Rightarrow> pf_pool option" where
  "pf_pool_start mem thr urls = pool_start mem thr urls None None"

text \<open>The key of a reference of the page, and the references the grants admit.\<close>

definition page_key :: "cptr \<Rightarrow> string \<Rightarrow> string" where
  "page_key page_url ref =
     (case page_url of
        None \<Rightarrow> ref
      | Some b \<Rightarrow> (case pf_url_cb (PF_SPEC_MAX * 2) b ref of Some u \<Rightarrow> u | None \<Rightarrow> ref))"

definition granted :: "bool \<Rightarrow> bool \<Rightarrow> pf_kind \<Rightarrow> bool" where
  "granted css_grant js_grant kind = (if kind = PF_STYLESHEET then css_grant else js_grant)"

definition page_urls :: "cptr \<Rightarrow> bool \<Rightarrow> bool \<Rightarrow> pf_list \<Rightarrow> string list" where
  "page_urls page_url css_grant js_grant refs = map (\<lambda>(k, r). page_key page_url r) (filter (\<lambda>(k, r). granted css_grant js_grant k) refs)"

definition page_map :: "allocator \<Rightarrow> cptr \<Rightarrow> cptr \<Rightarrow> bool \<Rightarrow> im_map option" where
  "page_map mem html page_url js_grant =
     (if js_grant \<and> page_url \<noteq> None then
        case pf_find_importmap html of
          None \<Rightarrow> None
        | Some (s, n) \<Rightarrow> im_parse mem (Some (pf_url_cb IM_URL_MAX)) (Some (take n (drop s (the html)))) page_url
      else None)"

definition pf_pool_start_page :: "allocator \<Rightarrow> nat \<Rightarrow> cptr \<Rightarrow> cptr \<Rightarrow> bool \<Rightarrow> bool \<Rightarrow> pf_pool option" where
  "pf_pool_start_page mem thr html page_url css_grant js_grant =
     (if \<not> (css_grant \<or> js_grant) then None
      else case pf_scan mem html of
          None \<Rightarrow> None
        | Some refs \<Rightarrow>
          if \<not> mem (PF_MAX_REFS * (PF_SPEC_MAX * 2)) then None
          else
            let urls = page_urls page_url css_grant js_grant refs in
            if urls = [] then None
            else pool_start mem thr (Some (map Some urls)) (page_map mem html page_url js_grant) page_url)"

text \<open>The pool after its threads have been joined.\<close>

definition pf_pool_close :: "pf_pool \<Rightarrow> pf_pool" where
  "pf_pool_close p = p\<lparr>pp_closing := True\<rparr>"

definition pf_pool_finish :: "pf_pool \<Rightarrow> pf_pool option" where
  "pf_pool_finish p =
     (if \<not> pp_started p then Some p
      else if list_all (\<lambda>t. t = Exited) (pp_threads (pf_pool_close p)) then Some zero_pool else None)"

text \<open>What a fetch through the pool does: refuse, ask the pool for a key first, or call the fetcher.\<close>

datatype pf_route = Refuse | Ask string | Direct

definition pf_pooled_fetch :: "bool \<Rightarrow> pf_pool option \<Rightarrow> cptr \<Rightarrow> cptr \<Rightarrow> pf_route" where
  "pf_pooled_fetch inner pool method url =
     (if \<not> inner then Refuse
      else case (pool, method, url) of
          (Some p, Some m, Some u) \<Rightarrow> if m = ''GET'' then Ask (page_key (pp_page p) u) else Direct
        | _ \<Rightarrow> Direct)"

section \<open>Interleavings\<close>

datatype pf_event = Request string | Answer string pf_result | Hit nat string pf_result

record pf_world =
  pw_pool :: pf_pool
  pw_waiting :: "nat \<rightharpoonup> nat"
  pw_log :: "pf_event list"

definition log_event :: "pf_event \<Rightarrow> pf_world \<Rightarrow> pf_world" where
  "log_event e W = W\<lparr>pw_log := pw_log W @ [e]\<rparr>"

definition on_pool :: "(pf_pool \<Rightarrow> pf_pool) \<Rightarrow> pf_world \<Rightarrow> pf_world" where
  "on_pool f W = W\<lparr>pw_pool := f (pw_pool W)\<rparr>"

abbreviation thread_at :: "pf_world \<Rightarrow> nat \<Rightarrow> pf_thread \<Rightarrow> bool" where
  "thread_at W w t \<equiv> w < length (pp_threads (pw_pool W)) \<and> pp_threads (pw_pool W) ! w = t"

abbreviation job_url :: "pf_world \<Rightarrow> nat \<Rightarrow> string" where
  "job_url W i \<equiv> pj_url (pp_jobs (pw_pool W) ! i)"

inductive work_step :: "allocator \<Rightarrow> pf_world \<Rightarrow> pf_world \<Rightarrow> bool" for mem where
  step_claim: "thread_at W w Idle \<Longrightarrow> pp_next (pw_pool W) < length (pp_jobs (pw_pool W)) \<Longrightarrow>
    work_step mem W (log_event (Request (job_url W (pp_next (pw_pool W)))) (on_pool (claim w) W))"
| step_exit: "thread_at W w Idle \<Longrightarrow> pp_next (pw_pool W) \<ge> length (pp_jobs (pw_pool W)) \<Longrightarrow> pp_closing (pw_pool W) \<Longrightarrow>
    work_step mem W (on_pool (set_thread w Exited) W)"
| step_answer: "thread_at W w (Fetching i) \<Longrightarrow>
    work_step mem W (log_event (Answer (job_url W i) res) (on_pool (set_thread w (Following i res (follow_specs mem (job_url W i) res))) W))"
| step_follow: "thread_at W w (Following i res (sp # sps)) \<Longrightarrow>
    work_step mem W (on_pool (\<lambda>p. set_thread w (Following i res sps) (follow_one mem (job_url W i) sp p)) W)"
| step_publish: "thread_at W w (Following i res []) \<Longrightarrow>
    work_step mem W (on_pool (\<lambda>p. set_thread w Idle (publish i res p)) W)"

text \<open>Callers are numbered; one that waits makes no other call. A caller whose job is there is served.\<close>

definition serve :: "nat \<Rightarrow> nat \<Rightarrow> pf_world \<Rightarrow> pf_world" where
  "serve c i W =
     log_event (Hit c (job_url W i) (fst (take_result i (pw_pool W))))
       (W\<lparr>pw_pool := snd (take_result i (pw_pool W)), pw_waiting := (pw_waiting W)(c := None)\<rparr>)"

inductive pool_step :: "allocator \<Rightarrow> pf_world \<Rightarrow> pf_world \<Rightarrow> bool" for mem where
  step_work: "work_step mem W W' \<Longrightarrow> pool_step mem W W'"
| step_hit: "pw_waiting W c = None \<Longrightarrow> take_find (pw_pool W) (Some url) = Some i \<Longrightarrow>
    pj_state (pp_jobs (pw_pool W) ! i) = PF_JOB_DONE \<Longrightarrow> pool_step mem W (serve c i W)"
| step_wait: "pw_waiting W c = None \<Longrightarrow> take_find (pw_pool W) (Some url) = Some i \<Longrightarrow>
    pj_state (pp_jobs (pw_pool W) ! i) \<noteq> PF_JOB_DONE \<Longrightarrow> pool_step mem W (W\<lparr>pw_waiting := (pw_waiting W)(c \<mapsto> i)\<rparr>)"
| step_serve: "pw_waiting W c = Some i \<Longrightarrow> pj_state (pp_jobs (pw_pool W) ! i) = PF_JOB_DONE \<Longrightarrow> pool_step mem W (serve c i W)"
| step_close: "pool_step mem W (on_pool pf_pool_close W)"

definition start_world :: "pf_pool \<Rightarrow> pf_world" where
  "start_world p = \<lparr> pw_pool = p, pw_waiting = Map.empty, pw_log = [] \<rparr>"

abbreviation pool_reach :: "allocator \<Rightarrow> pf_world \<Rightarrow> pf_world \<Rightarrow> bool" where
  "pool_reach mem \<equiv> (pool_step mem)\<^sup>*\<^sup>*"

lemma reach_refl: "pool_reach mem W W"
  by simp

lemma reach_step: "pool_reach mem W W' \<Longrightarrow> pool_step mem W' W'' \<Longrightarrow> pool_reach mem W W''"
  by simp

inductive_cases pool_stepE: "pool_step mem W W'"

section \<open>The invariant\<close>

text \<open>What can be observed of a pool, and how each section changes it.\<close>

definition njobs :: "pf_pool \<Rightarrow> nat" where "njobs p = length (pp_jobs p)"
definition nthr :: "pf_pool \<Rightarrow> nat" where "nthr p = length (pp_threads p)"
definition jurl :: "pf_pool \<Rightarrow> nat \<Rightarrow> string" where "jurl p i = pj_url (pp_jobs p ! i)"
definition jstate :: "pf_pool \<Rightarrow> nat \<Rightarrow> pf_job_state" where "jstate p i = pj_state (pp_jobs p ! i)"
definition jres :: "pf_pool \<Rightarrow> nat \<Rightarrow> pf_result" where "jres p i = pj_res (pp_jobs p ! i)"
definition thr :: "pf_pool \<Rightarrow> nat \<Rightarrow> pf_thread" where "thr p w = pp_threads p ! w"

lemmas observers = njobs_def nthr_def jurl_def jstate_def jres_def thr_def

named_theorems pool_simps \<open>observations of a pool after a section\<close>

lemma nth_update_keeps: "f x = f (xs ! k) \<Longrightarrow> f (xs[k := x] ! i) = f (xs ! i)"
  by (cases "k < length xs"; cases "i = k") (simp_all add: list_update_beyond)

lemma set_thread_obs [pool_simps]:
  "njobs (set_thread w t p) = njobs p" "nthr (set_thread w t p) = nthr p" "jurl (set_thread w t p) = jurl p"
  "jstate (set_thread w t p) = jstate p" "jres (set_thread w t p) = jres p" "pp_next (set_thread w t p) = pp_next p"
  "pp_started (set_thread w t p) = pp_started p" "pp_closing (set_thread w t p) = pp_closing p" "pp_imap (set_thread w t p) = pp_imap p"
  "w < nthr p \<Longrightarrow> thr (set_thread w t p) v = (if v = w then t else thr p v)"
  by (auto simp: observers set_thread_def fun_eq_iff nth_list_update)

lemma claim_obs [pool_simps]:
  "njobs (claim w p) = njobs p" "nthr (claim w p) = nthr p" "jurl (claim w p) = jurl p"
  "jres (claim w p) = jres p" "pp_next (claim w p) = Suc (pp_next p)"
  "pp_started (claim w p) = pp_started p" "pp_closing (claim w p) = pp_closing p" "pp_imap (claim w p) = pp_imap p"
  "pp_next p < njobs p \<Longrightarrow> jstate (claim w p) i = (if i = pp_next p then PF_JOB_RUNNING else jstate p i)"
  "w < nthr p \<Longrightarrow> thr (claim w p) v = (if v = w then Fetching (pp_next p) else thr p v)"
  by (simp_all add: observers claim_def set_thread_def set_state_def fun_eq_iff nth_list_update
      nth_update_keeps [where f = pj_url] nth_update_keeps [where f = pj_res])

lemma publish_obs [pool_simps]:
  "njobs (publish i res p) = njobs p" "nthr (publish i res p) = nthr p" "jurl (publish i res p) = jurl p"
  "thr (publish i res p) = thr p" "pp_next (publish i res p) = pp_next p"
  "pp_started (publish i res p) = pp_started p" "pp_closing (publish i res p) = pp_closing p" "pp_imap (publish i res p) = pp_imap p"
  "i < njobs p \<Longrightarrow> jstate (publish i res p) k = (if k = i then PF_JOB_DONE else jstate p k)"
  "i < njobs p \<Longrightarrow> jres (publish i res p) k = (if k = i then res else jres p k)"
  by (simp_all add: observers publish_def fun_eq_iff nth_list_update nth_update_keeps [where f = pj_url])

lemma take_result_obs [pool_simps]:
  "fst (take_result i p) = jres p i"
  "njobs (snd (take_result i p)) = njobs p" "nthr (snd (take_result i p)) = nthr p" "jurl (snd (take_result i p)) = jurl p"
  "thr (snd (take_result i p)) = thr p" "pp_next (snd (take_result i p)) = pp_next p"
  "pp_started (snd (take_result i p)) = pp_started p" "pp_closing (snd (take_result i p)) = pp_closing p" "pp_imap (snd (take_result i p)) = pp_imap p"
  "i < njobs p \<Longrightarrow> jstate (snd (take_result i p)) k = (if k = i then PF_JOB_CONSUMED else jstate p k)"
  "k \<noteq> i \<Longrightarrow> jres (snd (take_result i p)) k = jres p k"
  by (simp_all add: observers take_result_def Let_def fun_eq_iff nth_list_update nth_update_keeps [where f = pj_url])

lemma close_obs [pool_simps]:
  "njobs (pf_pool_close p) = njobs p" "nthr (pf_pool_close p) = nthr p" "jurl (pf_pool_close p) = jurl p"
  "jstate (pf_pool_close p) = jstate p" "jres (pf_pool_close p) = jres p" "thr (pf_pool_close p) = thr p"
  "pp_next (pf_pool_close p) = pp_next p" "pp_started (pf_pool_close p) = pp_started p" "pp_closing (pf_pool_close p)"
  "pp_imap (pf_pool_close p) = pp_imap p"
  by (simp_all add: observers pf_pool_close_def fun_eq_iff)

text \<open>An import is added behind the jobs, or nothing happens.\<close>

lemma follow_one_cases:
  obtains "follow_one mem base sp p = p"
  | u where "import_url (pp_imap p) base sp = Some u" "follow_one mem base sp p = p\<lparr>pp_jobs := pp_jobs p @ [pending u]\<rparr>"
    "\<not> pp_closing p" "njobs p < PF_MAX_JOBS" "\<forall>i < njobs p. jurl p i \<noteq> u"
proof (cases "import_url (pp_imap p) base sp")
  case None
  then show ?thesis using that(1) by (simp add: follow_one_def)
next
  case (Some u)
  show ?thesis
  proof (cases "follow_one mem base sp p = p")
    case False
    then have "follow_one mem base sp p = p\<lparr>pp_jobs := pp_jobs p @ [pending u]\<rparr>" "\<not> pp_closing p" "njobs p < PF_MAX_JOBS"
      "u \<notin> pj_url ` set (pp_jobs p)"
      using Some by (auto simp: follow_one_def pf_pool_add_def njobs_def split: if_splits)
    then show ?thesis by (intro that(2) [OF Some]) (auto simp: jurl_def njobs_def)
  qed (rule that(1))
qed

lemma added_obs:
  "njobs (p\<lparr>pp_jobs := pp_jobs p @ [pending u]\<rparr>) = Suc (njobs p)"
  "nthr (p\<lparr>pp_jobs := js\<rparr>) = nthr p" "thr (p\<lparr>pp_jobs := js\<rparr>) = thr p"
  "i \<le> njobs p \<Longrightarrow> jurl (p\<lparr>pp_jobs := pp_jobs p @ [pending u]\<rparr>) i = (if i = njobs p then u else jurl p i)"
  "i \<le> njobs p \<Longrightarrow> jstate (p\<lparr>pp_jobs := pp_jobs p @ [pending u]\<rparr>) i = (if i = njobs p then PF_JOB_PENDING else jstate p i)"
  "i < njobs p \<Longrightarrow> jres (p\<lparr>pp_jobs := pp_jobs p @ [pending u]\<rparr>) i = jres p i"
  by (auto simp: observers nth_append pending_def)

fun held :: "pf_thread \<Rightarrow> nat option" where
  "held (Fetching i) = Some i"
| "held (Following i res sps) = Some i"
| "held _ = None"

text \<open>Jobs, threads and the next index: a job is pending from the next index on, running exactly when one thread holds
  it, and threads have only left when nothing is pending.\<close>

definition jobs_ok :: "pf_pool \<Rightarrow> bool" where
  "jobs_ok p \<longleftrightarrow> (\<forall>i < njobs p. \<forall>k < njobs p. jurl p i = jurl p k \<longrightarrow> i = k) \<and> njobs p \<le> PF_MAX_JOBS \<and> pp_next p \<le> njobs p
     \<and> (\<forall>i < njobs p. jstate p i = PF_JOB_PENDING \<longleftrightarrow> pp_next p \<le> i)"

definition threads_ok :: "pf_pool \<Rightarrow> bool" where
  "threads_ok p \<longleftrightarrow> pp_started p
     \<and> (\<forall>w < nthr p. \<forall>i. held (thr p w) = Some i \<longrightarrow> i < pp_next p \<and> jstate p i = PF_JOB_RUNNING)
     \<and> (\<forall>i < njobs p. jstate p i = PF_JOB_RUNNING \<longrightarrow> (\<exists>w < nthr p. held (thr p w) = Some i))
     \<and> (\<forall>v < nthr p. \<forall>w < nthr p. \<forall>i. held (thr p v) = Some i \<and> held (thr p w) = Some i \<longrightarrow> v = w)
     \<and> (\<forall>w < nthr p. thr p w = Exited \<longrightarrow> pp_closing p \<and> pp_next p = njobs p)"

definition requests :: "pf_event list \<Rightarrow> string list" where
  "requests log = concat (map (\<lambda>e. case e of Request u \<Rightarrow> [u] | _ \<Rightarrow> []) log)"

definition answers :: "pf_event list \<Rightarrow> (string \<times> pf_result) list" where
  "answers log = concat (map (\<lambda>e. case e of Answer u r \<Rightarrow> [(u, r)] | _ \<Rightarrow> []) log)"

definition hits :: "pf_event list \<Rightarrow> (string \<times> pf_result) list" where
  "hits log = concat (map (\<lambda>e. case e of Hit c u r \<Rightarrow> [(u, r)] | _ \<Rightarrow> []) log)"

lemma log_snoc [simp]:
  "requests (log @ [e]) = requests log @ (case e of Request u \<Rightarrow> [u] | _ \<Rightarrow> [])"
  "answers (log @ [e]) = answers log @ (case e of Answer u r \<Rightarrow> [(u, r)] | _ \<Rightarrow> [])"
  "hits (log @ [e]) = hits log @ (case e of Hit c u r \<Rightarrow> [(u, r)] | _ \<Rightarrow> [])"
  by (simp_all add: requests_def answers_def hits_def)

lemma log_Nil [simp]: "requests [] = []" "answers [] = []" "hits [] = []"
  by (simp_all add: requests_def answers_def hits_def)

text \<open>The log: the requests are the claimed jobs in order; what threads, finished jobs and callers have are answers, each
  given once and handed out once.\<close>

definition log_ok :: "pf_pool \<Rightarrow> pf_event list \<Rightarrow> bool" where
  "log_ok p log \<longleftrightarrow> requests log = map (jurl p) [0..<pp_next p]
     \<and> distinct (map fst (answers log)) \<and> distinct (map fst (hits log)) \<and> set (hits log) \<subseteq> set (answers log)
     \<and> (\<forall>u r. (u, r) \<in> set (answers log) \<longrightarrow> (\<exists>i < pp_next p. jurl p i = u \<and> (\<forall>w < nthr p. thr p w \<noteq> Fetching i)))
     \<and> (\<forall>u r. (u, r) \<in> set (hits log) \<longrightarrow> (\<exists>i < pp_next p. jurl p i = u \<and> jstate p i = PF_JOB_CONSUMED))
     \<and> (\<forall>i < pp_next p. jstate p i = PF_JOB_DONE \<longrightarrow> (jurl p i, jres p i) \<in> set (answers log))"

definition imported :: "allocator \<Rightarrow> im_map option \<Rightarrow> pf_event list \<Rightarrow> string \<Rightarrow> bool" where
  "imported mem imap log u \<longleftrightarrow> (\<exists>base res sp. (base, res) \<in> set (answers log) \<and> sp \<in> set (follow_specs mem base res) \<and> import_url imap base sp = Some u)"

definition origin_ok :: "allocator \<Rightarrow> im_map option \<Rightarrow> string set \<Rightarrow> pf_pool \<Rightarrow> pf_event list \<Rightarrow> bool" where
  "origin_ok mem imap start p log \<longleftrightarrow> pp_imap p = imap
     \<and> (\<forall>i < njobs p. jurl p i \<in> start \<or> imported mem imap log (jurl p i))
     \<and> (\<forall>w < nthr p. \<forall>i res sps. thr p w = Following i res sps \<longrightarrow>
          (jurl p i, res) \<in> set (answers log) \<and> set sps \<subseteq> set (follow_specs mem (jurl p i) res))"

definition waits_ok :: "pf_world \<Rightarrow> bool" where
  "waits_ok W \<longleftrightarrow> (\<forall>c i. pw_waiting W c = Some i \<longrightarrow> i < njobs (pw_pool W))"

definition pool_inv :: "allocator \<Rightarrow> im_map option \<Rightarrow> string set \<Rightarrow> pf_world \<Rightarrow> bool" where
  "pool_inv mem imap start W \<longleftrightarrow> jobs_ok (pw_pool W) \<and> threads_ok (pw_pool W) \<and> log_ok (pw_pool W) (pw_log W)
     \<and> origin_ok mem imap start (pw_pool W) (pw_log W) \<and> waits_ok W"

lemma imported_mono: "imported mem imap log u \<Longrightarrow> set (answers log) \<subseteq> set (answers log') \<Longrightarrow> imported mem imap log' u"
  by (auto simp: imported_def)

subsection \<open>Every section keeps the jobs and the threads in order\<close>

lemma claim_jobs: "jobs_ok p \<Longrightarrow> pp_next p < njobs p \<Longrightarrow> jobs_ok (claim w p)"
  by (auto simp: jobs_ok_def pool_simps)

lemma threads_okI:
  assumes "pp_started p" and "\<And>w i. w < nthr p \<Longrightarrow> held (thr p w) = Some i \<Longrightarrow> i < pp_next p \<and> jstate p i = PF_JOB_RUNNING"
    and "\<And>i. i < njobs p \<Longrightarrow> jstate p i = PF_JOB_RUNNING \<Longrightarrow> \<exists>w < nthr p. held (thr p w) = Some i"
    and "\<And>v w i. v < nthr p \<Longrightarrow> w < nthr p \<Longrightarrow> held (thr p v) = Some i \<Longrightarrow> held (thr p w) = Some i \<Longrightarrow> v = w"
    and "\<And>w. w < nthr p \<Longrightarrow> thr p w = Exited \<Longrightarrow> pp_closing p \<and> pp_next p = njobs p"
  shows "threads_ok p"
  unfolding threads_ok_def using assms by blast

lemma threads_okD:
  assumes "threads_ok p"
  shows "pp_started p" "w < nthr p \<Longrightarrow> held (thr p w) = Some i \<Longrightarrow> i < pp_next p"
    "w < nthr p \<Longrightarrow> held (thr p w) = Some i \<Longrightarrow> jstate p i = PF_JOB_RUNNING"
    "i < njobs p \<Longrightarrow> jstate p i = PF_JOB_RUNNING \<Longrightarrow> \<exists>w < nthr p. held (thr p w) = Some i"
    "v < nthr p \<Longrightarrow> w < nthr p \<Longrightarrow> held (thr p v) = Some i \<Longrightarrow> held (thr p w) = Some i \<Longrightarrow> v = w"
    "w < nthr p \<Longrightarrow> thr p w = Exited \<Longrightarrow> pp_closing p" "w < nthr p \<Longrightarrow> thr p w = Exited \<Longrightarrow> pp_next p = njobs p"
  using assms unfolding threads_ok_def by blast+

lemma claim_threads:
  assumes "threads_ok p" "w < nthr p" "thr p w = Idle" "pp_next p < njobs p"
  shows "threads_ok (claim w p)"
proof (rule threads_okI, goal_cases)
  case (3 i)
  show ?case
  proof (cases "i = pp_next p")
    case True
    then show ?thesis using assms(2) by (intro exI [of _ w]) (simp add: pool_simps)
  next
    case False
    then obtain v where "v < nthr p" "held (thr p v) = Some i"
      using 3 assms(4) threads_okD(4) [OF assms(1), of i] by (auto simp: pool_simps)
    then show ?thesis using assms(2,3) by (intro exI [of _ v]) (auto simp: pool_simps)
  qed
next
  case (4 u v i)
  have n: "held (thr p x) \<noteq> Some (pp_next p)" if "x < nthr p" for x using threads_okD(2) [OF assms(1) that] by blast
  then show ?case using 4 assms(2) threads_okD(5) [OF assms(1), of u v i] by (auto simp: pool_simps split: if_splits)
next
  case (5 v)
  then show ?case using assms threads_okD(7) [OF assms(1), of v] by (auto simp: pool_simps split: if_splits)
qed (use assms threads_okD [OF assms(1)] in \<open>auto simp: pool_simps less_Suc_eq split: if_splits\<close>)

lemma swap_threads:
  assumes "threads_ok p" "w < nthr p" "held t = held (thr p w)" "t = Exited \<Longrightarrow> pp_closing p \<and> pp_next p = njobs p"
  shows "threads_ok (set_thread w t p)"
proof -
  have h: "held (thr (set_thread w t p) v) = held (thr p v)" for v using assms(2,3) by (simp add: pool_simps)
  show ?thesis
  proof (rule threads_okI, goal_cases)
    case (5 v)
    then show ?case using assms(2,4) threads_okD(6,7) [OF assms(1), of v] by (auto simp: pool_simps split: if_splits)
  qed (use threads_okD [OF assms(1)] in \<open>auto simp: h set_thread_obs(1-9)\<close>)
qed

lemma swap_jobs: "jobs_ok p \<Longrightarrow> jobs_ok (set_thread w t p)"
  by (simp add: jobs_ok_def pool_simps)

lemma publish_jobs: "jobs_ok p \<Longrightarrow> i < pp_next p \<Longrightarrow> jobs_ok (publish i res p)"
  by (auto simp: jobs_ok_def pool_simps)

lemma publish_threads:
  assumes "threads_ok p" "jobs_ok p" "w < nthr p" "held (thr p w) = Some i"
  shows "threads_ok (set_thread w Idle (publish i res p))"
proof -
  have i: "i < njobs p" using threads_okD(2) [OF assms(1,3,4)] assms(2) by (simp add: jobs_ok_def)
  have t: "thr (set_thread w Idle (publish i res p)) v = (if v = w then Idle else thr p v)" for v using assms(3) by (simp add: pool_simps)
  have st: "jstate (set_thread w Idle (publish i res p)) k = (if k = i then PF_JOB_DONE else jstate p k)" for k using i by (simp add: pool_simps)
  have n: "nthr (set_thread w Idle (publish i res p)) = nthr p" "njobs (set_thread w Idle (publish i res p)) = njobs p"
    "pp_next (set_thread w Idle (publish i res p)) = pp_next p" "pp_closing (set_thread w Idle (publish i res p)) = pp_closing p"
    "pp_started (set_thread w Idle (publish i res p)) = pp_started p" by (simp_all add: pool_simps)
  show ?thesis
  proof (rule threads_okI, unfold n st t, goal_cases)
    case 1
    show ?case using threads_okD(1) [OF assms(1)] .
  next
    case (2 v k)
    then have v: "v \<noteq> w" "held (thr p v) = Some k" by (auto split: if_splits)
    then have "k \<noteq> i" using threads_okD(5) [OF assms(1) 2(1) assms(3), of k] assms(4) by blast
    then show ?case using threads_okD(2,3) [OF assms(1) 2(1) v(2)] by simp
  next
    case (3 k)
    then have "k \<noteq> i" "jstate p k = PF_JOB_RUNNING" by (auto split: if_splits)
    then obtain v where "v < nthr p" "held (thr p v) = Some k" "v \<noteq> w" using threads_okD(4) [OF assms(1) 3(1)] assms(4) by force
    then show ?case by (intro exI [of _ v]) simp
  next
    case (4 u v k)
    then show ?case using threads_okD(5) [OF assms(1) 4(1,2), of k] by (auto split: if_splits)
  next
    case (5 v)
    then show ?case using threads_okD(6,7) [OF assms(1) 5(1)] by (auto split: if_splits)
  qed
qed

lemma add_jobs:
  assumes "jobs_ok p" "njobs p < PF_MAX_JOBS" "\<forall>i < njobs p. jurl p i \<noteq> u"
  shows "jobs_ok (p\<lparr>pp_jobs := pp_jobs p @ [pending u]\<rparr>)"
  using assms by (auto simp: jobs_ok_def added_obs less_Suc_eq)

lemma add_threads:
  assumes "threads_ok p" "jobs_ok p" "\<not> pp_closing p"
  shows "threads_ok (p\<lparr>pp_jobs := pp_jobs p @ [pending u]\<rparr>)"
proof -
  have "jstate (p\<lparr>pp_jobs := pp_jobs p @ [pending u]\<rparr>) i = jstate p i" if "i < pp_next p" for i
    using that assms(2) by (auto simp: added_obs jobs_ok_def)
  then show ?thesis using assms by (auto simp: threads_ok_def added_obs less_Suc_eq)
qed

lemma serve_jobs: "jobs_ok p \<Longrightarrow> i < pp_next p \<Longrightarrow> jobs_ok (snd (take_result i p))"
  by (auto simp: jobs_ok_def pool_simps)

lemma serve_threads:
  assumes "threads_ok p" "i < njobs p" "jstate p i = PF_JOB_DONE"
  shows "threads_ok (snd (take_result i p))"
  using assms by (auto simp: threads_ok_def pool_simps)

lemma close_ok: "jobs_ok p \<Longrightarrow> jobs_ok (pf_pool_close p)" "threads_ok p \<Longrightarrow> threads_ok (pf_pool_close p)"
  by (auto simp: jobs_ok_def threads_ok_def pool_simps)

subsection \<open>Every section keeps the log in order\<close>

lemma log_okI:
  assumes "requests log = map (jurl p) [0..<pp_next p]" "distinct (map fst (answers log))" "distinct (map fst (hits log))"
    "set (hits log) \<subseteq> set (answers log)"
    "\<And>u r. (u, r) \<in> set (answers log) \<Longrightarrow> \<exists>i < pp_next p. jurl p i = u \<and> (\<forall>w < nthr p. thr p w \<noteq> Fetching i)"
    "\<And>u r. (u, r) \<in> set (hits log) \<Longrightarrow> \<exists>i < pp_next p. jurl p i = u \<and> jstate p i = PF_JOB_CONSUMED"
    "\<And>i. i < pp_next p \<Longrightarrow> jstate p i = PF_JOB_DONE \<Longrightarrow> (jurl p i, jres p i) \<in> set (answers log)"
  shows "log_ok p log"
  unfolding log_ok_def using assms by blast

lemma log_okD:
  assumes "log_ok p log"
  shows "requests log = map (jurl p) [0..<pp_next p]" "distinct (map fst (answers log))" "distinct (map fst (hits log))"
    "set (hits log) \<subseteq> set (answers log)"
    "(u, r) \<in> set (answers log) \<Longrightarrow> \<exists>i < pp_next p. jurl p i = u \<and> (\<forall>w < nthr p. thr p w \<noteq> Fetching i)"
    "(u, r) \<in> set (hits log) \<Longrightarrow> \<exists>i < pp_next p. jurl p i = u \<and> jstate p i = PF_JOB_CONSUMED"
    "i < pp_next p \<Longrightarrow> jstate p i = PF_JOB_DONE \<Longrightarrow> (jurl p i, jres p i) \<in> set (answers log)"
  using assms unfolding log_ok_def by blast+

lemma jurl_inj: "jobs_ok p \<Longrightarrow> i < njobs p \<Longrightarrow> k < njobs p \<Longrightarrow> jurl p i = jurl p k \<Longrightarrow> i = k"
  by (auto simp: jobs_ok_def)

lemma claim_log:
  assumes "log_ok p log" "w < nthr p" "pp_next p < njobs p"
  shows "log_ok (claim w p) (log @ [Request (jurl p (pp_next p))])"
proof (rule log_okI, goal_cases)
  case (5 u r)
  then obtain i where "i < pp_next p" "jurl p i = u" "\<forall>w < nthr p. thr p w \<noteq> Fetching i" using log_okD(5) [OF assms(1)] by auto
  then show ?case using assms(2) by (intro exI [of _ i]) (simp add: pool_simps)
next
  case (6 u r)
  then obtain i where "i < pp_next p" "jurl p i = u" "jstate p i = PF_JOB_CONSUMED" using log_okD(6) [OF assms(1)] by auto
  then show ?case using assms(3) by (intro exI [of _ i]) (simp add: pool_simps)
next
  case (7 i)
  then show ?case using assms(3) log_okD(7) [OF assms(1), of i] by (auto simp: pool_simps split: if_splits)
qed (use log_okD(1-4) [OF assms(1)] in \<open>simp_all add: pool_simps\<close>)

lemma swap_log:
  assumes "log_ok p log" "w < nthr p" "\<And>i. t \<noteq> Fetching i"
  shows "log_ok (set_thread w t p) log"
proof (rule log_okI, goal_cases)
  case (5 u r)
  then obtain i where "i < pp_next p" "jurl p i = u" "\<forall>w < nthr p. thr p w \<noteq> Fetching i" using log_okD(5) [OF assms(1)] by auto
  then show ?case using assms(2,3) by (intro exI [of _ i]) (simp add: pool_simps)
next
  case (6 u r)
  then show ?case using log_okD(6) [OF assms(1)] by (simp add: pool_simps)
qed (use log_okD(1-4) [OF assms(1)] log_okD(7) [OF assms(1)] in \<open>simp_all add: pool_simps\<close>)

lemma answer_log:
  assumes "log_ok p log" "jobs_ok p" "threads_ok p" "w < nthr p" "thr p w = Fetching i"
  shows "log_ok (set_thread w (Following i res sps) p) (log @ [Answer (jurl p i) res])"
proof -
  have i: "i < pp_next p" "i < njobs p" using threads_okD(2) [OF assms(3,4), of i] assms(2,5) by (auto simp: jobs_ok_def)
  have new: "jurl p i \<notin> fst ` set (answers log)"
  proof
    assume "jurl p i \<in> fst ` set (answers log)"
    then obtain k where "k < pp_next p" "jurl p k = jurl p i" "thr p w \<noteq> Fetching k" using log_okD(5) [OF assms(1)] assms(4) by fastforce
    then show False using jurl_inj [OF assms(2), of k i] i assms(2,5) by (auto simp: jobs_ok_def)
  qed
  have l: "log_ok (set_thread w (Following i res sps) p) log" using assms(1,4) by (intro swap_log) simp_all
  show ?thesis
  proof (rule log_okI, goal_cases)
    case (5 u r)
    have "thr (set_thread w (Following i res sps) p) v \<noteq> Fetching i" if "v < nthr p" for v
      using threads_okD(5) [OF assms(3) assms(4) that, of i] assms(4,5) by (auto simp: pool_simps)
    then show ?case using 5 i log_okD(5) [OF l, of u r] by (auto simp: pool_simps)
  next
    case (6 u r)
    then show ?case using log_okD(6) [OF l, of u r] by simp
  qed (use log_okD(1-4) [OF l] log_okD(7) [OF l] new in \<open>auto simp: pool_simps\<close>)
qed

lemma add_log:
  assumes "log_ok p log" "jobs_ok p"
  shows "log_ok (p\<lparr>pp_jobs := pp_jobs p @ [pending u]\<rparr>) log"
proof -
  have n: "i < pp_next p \<Longrightarrow> i < njobs p" for i using assms(2) by (simp add: jobs_ok_def)
  then have o: "i < pp_next p \<Longrightarrow> jurl (p\<lparr>pp_jobs := pp_jobs p @ [pending u]\<rparr>) i = jurl p i"
    "i < pp_next p \<Longrightarrow> jstate (p\<lparr>pp_jobs := pp_jobs p @ [pending u]\<rparr>) i = jstate p i"
    "i < pp_next p \<Longrightarrow> jres (p\<lparr>pp_jobs := pp_jobs p @ [pending u]\<rparr>) i = jres p i" for i
    by (fastforce simp: added_obs)+
  show ?thesis
  proof (rule log_okI, goal_cases)
    case (5 v r)
    then show ?case using log_okD(5) [OF assms(1) 5] o by (auto simp: added_obs)
  next
    case (6 v r)
    then show ?case using log_okD(6) [OF assms(1) 6] o by auto
  qed (use log_okD(1-4) [OF assms(1)] log_okD(7) [OF assms(1)] o in auto)
qed

lemma publish_log:
  assumes "log_ok p log" "i < njobs p" "jstate p i = PF_JOB_RUNNING" "(jurl p i, res) \<in> set (answers log)"
  shows "log_ok (publish i res p) log"
proof (rule log_okI, goal_cases)
  case (6 u r)
  then obtain k where "k < pp_next p" "jurl p k = u" "jstate p k = PF_JOB_CONSUMED" using log_okD(6) [OF assms(1)] by auto
  moreover from this have "k \<noteq> i" using assms(3) by auto
  ultimately show ?case using assms(2) by (intro exI [of _ k]) (simp add: pool_simps)
next
  case (7 k)
  then show ?case using assms(2,4) log_okD(7) [OF assms(1), of k] by (auto simp: pool_simps split: if_splits)
qed (use log_okD(1-5) [OF assms(1)] in \<open>simp_all add: pool_simps\<close>)

lemma serve_log:
  assumes "log_ok p log" "jobs_ok p" "i < njobs p" "jstate p i = PF_JOB_DONE"
  shows "log_ok (snd (take_result i p)) (log @ [Hit c (jurl p i) (jres p i)])"
proof -
  have n: "i < pp_next p" using assms(2-4) by (auto simp: jobs_ok_def not_le [symmetric])
  have new: "jurl p i \<notin> fst ` set (hits log)"
  proof
    assume "jurl p i \<in> fst ` set (hits log)"
    then obtain k where "k < pp_next p" "jurl p k = jurl p i" "jstate p k = PF_JOB_CONSUMED" using log_okD(6) [OF assms(1)] by fastforce
    then show False using jurl_inj [OF assms(2), of k i] assms(2-4) by (auto simp: jobs_ok_def)
  qed
  show ?thesis
  proof (rule log_okI, goal_cases)
    case (5 u r)
    then show ?case using log_okD(5) [OF assms(1), of u r] by (simp add: pool_simps)
  next
    case (6 u r)
    show ?case
    proof (cases "u = jurl p i")
      case True
      then show ?thesis using n assms(3) by (intro exI [of _ i]) (simp add: pool_simps)
    next
      case False
      then obtain k where "k < pp_next p" "jurl p k = u" "jstate p k = PF_JOB_CONSUMED" using 6 log_okD(6) [OF assms(1), of u r] by auto
      then show ?thesis using assms(3) by (intro exI [of _ k]) (simp add: pool_simps)
    qed
  next
    case (7 k)
    then show ?case using assms(3) log_okD(7) [OF assms(1), of k] by (auto simp: pool_simps split: if_splits)
  qed (use log_okD(1-4) [OF assms(1)] log_okD(7) [OF assms(1) n assms(4)] new in \<open>auto simp: pool_simps\<close>)
qed

lemma close_log: "log_ok p log \<Longrightarrow> log_ok (pf_pool_close p) log"
  by (simp add: log_ok_def pool_simps)

subsection \<open>Where the requests come from\<close>

lemma origin_okI:
  assumes "pp_imap p = imap" "\<And>i. i < njobs p \<Longrightarrow> jurl p i \<in> start \<or> imported mem imap log (jurl p i)"
    "\<And>w i res sps. w < nthr p \<Longrightarrow> thr p w = Following i res sps \<Longrightarrow>
        (jurl p i, res) \<in> set (answers log) \<and> set sps \<subseteq> set (follow_specs mem (jurl p i) res)"
  shows "origin_ok mem imap start p log"
  unfolding origin_ok_def using assms by blast

lemma origin_okD:
  assumes "origin_ok mem imap start p log"
  shows "pp_imap p = imap" "i < njobs p \<Longrightarrow> jurl p i \<in> start \<or> imported mem imap log (jurl p i)"
    "w < nthr p \<Longrightarrow> thr p w = Following i res sps \<Longrightarrow> (jurl p i, res) \<in> set (answers log)"
    "w < nthr p \<Longrightarrow> thr p w = Following i res sps \<Longrightarrow> set sps \<subseteq> set (follow_specs mem (jurl p i) res)"
  using assms unfolding origin_ok_def by blast+

text \<open>A thread moves on, the log grows.\<close>

lemma origin_move:
  assumes "origin_ok mem imap start p log" "njobs q = njobs p" "jurl q = jurl p" "nthr q = nthr p" "pp_imap q = pp_imap p"
    "set (answers log) \<subseteq> set (answers log')"
    "\<And>v i res sps. v < nthr p \<Longrightarrow> thr q v = Following i res sps \<Longrightarrow> thr q v \<noteq> thr p v \<Longrightarrow>
        (jurl p i, res) \<in> set (answers log') \<and> set sps \<subseteq> set (follow_specs mem (jurl p i) res)"
  shows "origin_ok mem imap start q log'"
proof (rule origin_okI, goal_cases)
  case 1
  then show ?case using assms(5) origin_okD(1) [OF assms(1)] by simp
next
  case (2 i)
  then show ?case using origin_okD(2) [OF assms(1), of i] imported_mono [OF _ assms(6)] assms(2,3) by auto
next
  case (3 v i res sps)
  then show ?case
    using assms(3,4,6,7) origin_okD(3,4) [OF assms(1), of v i res sps] by (cases "thr q v = thr p v") auto
qed

lemma add_origin:
  assumes "origin_ok mem imap start p log" "imported mem imap log u" "threads_ok p" "jobs_ok p"
  shows "origin_ok mem imap start (p\<lparr>pp_jobs := pp_jobs p @ [pending u]\<rparr>) log"
proof (rule origin_okI, goal_cases)
  case 1
  then show ?case using origin_okD(1) [OF assms(1)] by simp
next
  case (2 i)
  then show ?case using origin_okD(2) [OF assms(1), of i] assms(2) by (auto simp: added_obs)
next
  case (3 w i res sps)
  then have "thr p w = Following i res sps" "w < nthr p" by (simp_all add: added_obs)
  moreover from this have "i < njobs p" using threads_okD(2) [OF assms(3), of w i] assms(4) by (simp add: jobs_ok_def)
  ultimately show ?case using origin_okD(3,4) [OF assms(1)] by (simp add: added_obs)
qed

subsection \<open>The invariant holds in every world\<close>

lemma thread_at_obs: "thread_at W w t \<longleftrightarrow> w < nthr (pw_pool W) \<and> thr (pw_pool W) w = t" "job_url W i = jurl (pw_pool W) i"
  by (simp_all add: observers)

lemma world_obs [simp]:
  "pw_pool (log_event e W) = pw_pool W" "pw_log (log_event e W) = pw_log W @ [e]" "pw_waiting (log_event e W) = pw_waiting W"
  "pw_pool (on_pool f W) = f (pw_pool W)" "pw_log (on_pool f W) = pw_log W" "pw_waiting (on_pool f W) = pw_waiting W"
  by (simp_all add: log_event_def on_pool_def)

lemma follow_obs:
  assumes inv: "pool_inv mem imap start W" and w: "w < nthr (pw_pool W)" "thr (pw_pool W) w = Following i res (sp # sps)"
  defines "q \<equiv> follow_one mem (jurl (pw_pool W) i) sp (pw_pool W)"
  shows "jobs_ok q \<and> threads_ok q \<and> log_ok q (pw_log W) \<and> origin_ok mem imap start q (pw_log W) \<and> njobs (pw_pool W) \<le> njobs q
    \<and> nthr q = nthr (pw_pool W) \<and> thr q = thr (pw_pool W) \<and> (\<forall>k < njobs (pw_pool W). jurl q k = jurl (pw_pool W) k)"
proof -
  let ?p = "pw_pool W"
  have I: "jobs_ok ?p" "threads_ok ?p" "log_ok ?p (pw_log W)" "origin_ok mem imap start ?p (pw_log W)" using inv by (simp_all add: pool_inv_def)
  from follow_one_cases [of mem "jurl ?p i" sp ?p] show ?thesis
  proof cases
    case 1
    then show ?thesis using I by (simp add: q_def)
  next
    case (2 u)
    have "sp \<in> set (follow_specs mem (jurl ?p i) res)" "(jurl ?p i, res) \<in> set (answers (pw_log W))"
      using origin_okD(3,4) [OF I(4) w] by auto
    then have "imported mem imap (pw_log W) u" using 2(1) origin_okD(1) [OF I(4)] unfolding imported_def by blast
    then show ?thesis using add_jobs [OF I(1) 2(4,5)] add_threads [OF I(2,1) 2(3)] add_log [OF I(3,1)] add_origin [OF I(4) _ I(2,1)]
      unfolding q_def 2(2) by (simp add: added_obs)
  qed
qed

lemma follow_inv:
  assumes inv: "pool_inv mem imap start W" and w: "w < nthr (pw_pool W)" "thr (pw_pool W) w = Following i res (sp # sps)"
  shows "pool_inv mem imap start (on_pool (\<lambda>p. set_thread w (Following i res sps) (follow_one mem (jurl (pw_pool W) i) sp p)) W)"
proof -
  let ?q = "follow_one mem (jurl (pw_pool W) i) sp (pw_pool W)"
  note q = follow_obs [OF inv w]
  have i: "i < njobs (pw_pool W)"
    using inv threads_okD(2) [of "pw_pool W" w i] w by (auto simp: pool_inv_def jobs_ok_def)
  have wq: "w < nthr ?q" "thr ?q w = Following i res (sp # sps)" "jurl ?q i = jurl (pw_pool W) i" using q w i by auto
  have o: "origin_ok mem imap start ?q (pw_log W)" using q by blast
  have "origin_ok mem imap start (set_thread w (Following i res sps) ?q) (pw_log W)"
    using wq origin_okD(3,4) [OF o wq(1,2)] by (intro origin_move [OF o]) (auto simp: pool_simps split: if_splits)
  moreover have "threads_ok (set_thread w (Following i res sps) ?q)" using q wq by (intro swap_threads) simp_all
  moreover have "log_ok (set_thread w (Following i res sps) ?q) (pw_log W)" using q wq by (intro swap_log) simp_all
  moreover have "waits_ok (on_pool (\<lambda>p. set_thread w (Following i res sps) (follow_one mem (jurl (pw_pool W) i) sp p)) W)"
    using inv q by (auto simp: pool_inv_def waits_ok_def pool_simps intro: less_le_trans)
  ultimately show ?thesis using q swap_jobs by (simp add: pool_inv_def)
qed

lemma publish_inv:
  assumes inv: "pool_inv mem imap start W" and w: "w < nthr (pw_pool W)" "thr (pw_pool W) w = Following i res []"
  shows "pool_inv mem imap start (on_pool (\<lambda>p. set_thread w Idle (publish i res p)) W)"
proof -
  let ?p = "pw_pool W"
  have I: "jobs_ok ?p" "threads_ok ?p" "log_ok ?p (pw_log W)" "origin_ok mem imap start ?p (pw_log W)" "waits_ok W"
    using inv by (simp_all add: pool_inv_def)
  have i: "i < pp_next ?p" "i < njobs ?p" "jstate ?p i = PF_JOB_RUNNING"
    using threads_okD(2,3) [OF I(2) w(1), of i] w(2) I(1) by (auto simp: jobs_ok_def)
  have "log_ok (set_thread w Idle (publish i res ?p)) (pw_log W)"
    using publish_log [OF I(3) i(2,3) origin_okD(3) [OF I(4) w]] w(1) by (intro swap_log) (simp_all add: pool_simps)
  moreover have "origin_ok mem imap start (set_thread w Idle (publish i res ?p)) (pw_log W)"
    using w(1) by (intro origin_move [OF I(4)]) (auto simp: pool_simps split: if_splits)
  moreover have "threads_ok (set_thread w Idle (publish i res ?p))" using w by (intro publish_threads [OF I(2,1)]) simp_all
  moreover have "waits_ok (on_pool (\<lambda>p. set_thread w Idle (publish i res p)) W)" using I(5) by (simp add: waits_ok_def pool_simps)
  ultimately show ?thesis using swap_jobs publish_jobs [OF I(1) i(1), of res] by (simp add: pool_inv_def)
qed

lemma work_inv:
  assumes "work_step mem W W'" and inv: "pool_inv mem imap start W"
  shows "pool_inv mem imap start W'"
  using assms(1)
proof cases
  case (step_claim w)
  then show ?thesis using inv
    by (auto simp: pool_inv_def thread_at_obs njobs_def [symmetric] waits_ok_def pool_simps
        intro!: claim_jobs claim_threads claim_log intro: origin_move split: if_splits)
next
  case (step_exit w)
  then show ?thesis using inv
    by (auto simp: pool_inv_def thread_at_obs njobs_def [symmetric] waits_ok_def pool_simps jobs_ok_def
        intro!: swap_jobs swap_threads swap_log intro: origin_move split: if_splits)
next
  case (step_answer w i res)
  then show ?thesis using inv
    by (auto simp: pool_inv_def thread_at_obs waits_ok_def pool_simps
        intro!: swap_jobs swap_threads answer_log intro: origin_move split: if_splits)
next
  case (step_follow w i res sp sps)
  then show ?thesis using follow_inv [OF inv, of w i res sp sps] by (simp add: thread_at_obs)
next
  case (step_publish w i res)
  then show ?thesis using publish_inv [OF inv, of w i res] by (simp add: thread_at_obs)
qed

lemma serve_inv:
  assumes inv: "pool_inv mem imap start W" and i: "i < njobs (pw_pool W)" "jstate (pw_pool W) i = PF_JOB_DONE"
  shows "pool_inv mem imap start (serve c i W)"
proof -
  let ?p = "pw_pool W" and ?q = "snd (take_result i (pw_pool W))" and ?l = "pw_log W @ [Hit c (jurl (pw_pool W) i) (jres (pw_pool W) i)]"
  have I: "jobs_ok ?p" "threads_ok ?p" "log_ok ?p (pw_log W)" "origin_ok mem imap start ?p (pw_log W)" "waits_ok W"
    using inv by (simp_all add: pool_inv_def)
  have n: "i < pp_next ?p" using I(1) i by (auto simp: jobs_ok_def not_le [symmetric])
  have "pw_pool (serve c i W) = ?q" "pw_log (serve c i W) = ?l" "pw_waiting (serve c i W) = (pw_waiting W)(c := None)"
    by (simp_all add: serve_def pool_simps thread_at_obs(2))
  moreover have "origin_ok mem imap start ?q ?l" by (intro origin_move [OF I(4)]) (auto simp: pool_simps)
  ultimately show ?thesis
    using serve_jobs [OF I(1) n] serve_threads [OF I(2) i] serve_log [OF I(3,1) i, of c] I(5)
    by (auto simp: pool_inv_def waits_ok_def pool_simps)
qed

lemma take_find_Some: "take_find p (Some u) = Some i \<Longrightarrow> i < njobs p \<and> jurl p i = u \<and> jstate p i \<noteq> PF_JOB_CONSUMED"
  by (auto simp: take_find_def find_Some_iff wanted_def observers split: if_splits)

lemma step_inv:
  assumes "pool_step mem W W'" and inv: "pool_inv mem imap start W"
  shows "pool_inv mem imap start W'"
  using assms(1)
proof cases
  case step_work
  then show ?thesis using work_inv inv by blast
next
  case (step_hit c u i)
  then show ?thesis using take_find_Some serve_inv [OF inv] by (auto simp: jstate_def)
next
  case (step_wait c u i)
  then show ?thesis using take_find_Some [of "pw_pool W" u i] inv by (auto simp: pool_inv_def waits_ok_def)
next
  case (step_serve c i)
  then show ?thesis using inv serve_inv [OF inv, of i] by (auto simp: pool_inv_def waits_ok_def jstate_def)
next
  case step_close
  then show ?thesis using inv close_ok close_log origin_move [of mem imap start "pw_pool W" "pw_log W" "pf_pool_close (pw_pool W)" "pw_log W"]
    by (auto simp: pool_inv_def waits_ok_def pool_simps)
qed

interpretation pool: step_invariant "pool_step mem" "pool_inv mem imap start" for mem imap start
  by unfold_locales (rule step_inv)

subsection \<open>Started pools\<close>

lemma queue_urls:
  assumes "distinct (map pj_url jobs)" "length jobs \<le> PF_MAX_JOBS" "\<forall>j \<in> set jobs. pj_state j = PF_JOB_PENDING"
  shows "distinct (map pj_url (foldl (queue_url mem) jobs us)) \<and> length (foldl (queue_url mem) jobs us) \<le> PF_MAX_JOBS
    \<and> (\<forall>j \<in> set (foldl (queue_url mem) jobs us). pj_state j = PF_JOB_PENDING)
    \<and> pj_url ` set (foldl (queue_url mem) jobs us) \<subseteq> pj_url ` set jobs \<union> {u. Some u \<in> set us}"
  using assms
proof (induction us arbitrary: jobs)
  case (Cons u us)
  have "distinct (map pj_url (queue_url mem jobs u)) \<and> length (queue_url mem jobs u) \<le> PF_MAX_JOBS
      \<and> (\<forall>j \<in> set (queue_url mem jobs u). pj_state j = PF_JOB_PENDING)
      \<and> pj_url ` set (queue_url mem jobs u) \<subseteq> pj_url ` set jobs \<union> {v. u = Some v}"
    using Cons.prems by (auto simp: queue_url_def pending_def split: option.splits)
  then show ?case using Cons.IH [of "queue_url mem jobs u"] by (simp, blast)
qed simp

lemma start_inv:
  assumes "pool_start mem n (Some us) imap page = Some p"
  shows "pool_inv mem imap {u. Some u \<in> set us} (start_world p)" "0 < nthr p"
proof -
  have p: "pp_jobs p = foldl (queue_url mem) [] us" "pp_threads p = replicate (min n PF_MAX_THREADS) Idle" "pp_next p = 0" "pp_started p"
    "\<not> pp_closing p" "pp_imap p = imap" "0 < min n PF_MAX_THREADS"
    using assms by (auto simp: pool_start_def Let_def split: if_splits)
  have q: "distinct (map pj_url (pp_jobs p))" "length (pp_jobs p) \<le> PF_MAX_JOBS" "\<forall>j \<in> set (pp_jobs p). pj_state j = PF_JOB_PENDING"
    "pj_url ` set (pp_jobs p) \<subseteq> {u. Some u \<in> set us}"
    using queue_urls [of "[]" mem us] p(1) by simp_all
  show "0 < nthr p" using p by (simp add: nthr_def)
  have t: "thr p w = Idle" if "w < nthr p" for w using that p(2) by (simp add: observers)
  have "jobs_ok p" using q p(3) by (auto simp: jobs_ok_def observers distinct_conv_nth)
  moreover have "threads_ok p" using t p q(3) by (auto simp: threads_ok_def jstate_def njobs_def)
  moreover have "log_ok p []" using p(3) by (simp add: log_ok_def)
  moreover have "jurl p i \<in> {u. Some u \<in> set us}" if "i < njobs p" for i
    using q(4) nth_mem [of i "pp_jobs p"] that by (auto simp: observers image_subset_iff)
  then have "origin_ok mem imap {u. Some u \<in> set us} p []" using t p(6) by (auto simp: origin_ok_def)
  ultimately show "pool_inv mem imap {u. Some u \<in> set us} (start_world p)"
    by (simp add: pool_inv_def start_world_def waits_ok_def)
qed

section \<open>What is fetched, and who gets it\<close>

lemma page_start:
  assumes "pf_pool_start_page mem n (Some html) page css js = Some p"
  shows "pool_inv mem (page_map mem (Some html) page js) (set (page_urls page css js (scan_tags mem html []))) (start_world p)" "0 < nthr p"
proof -
  let ?us = "page_urls page css js (scan_tags mem html [])"
  have st: "pool_start mem n (Some (map Some ?us)) (page_map mem (Some html) page js) page = Some p"
    using assms by (auto simp: pf_pool_start_page_def pf_scan_def Let_def split: if_splits)
  have "{u. Some u \<in> set (map Some ?us)} = set ?us" by auto
  then show "pool_inv mem (page_map mem (Some html) page js) (set ?us) (start_world p)" "0 < nthr p" using start_inv [OF st] by simp_all
qed

lemma in_log: "Request u \<in> set log \<longleftrightarrow> u \<in> set (requests log)" "Answer u r \<in> set log \<longleftrightarrow> (u, r) \<in> set (answers log)"
  "Hit c u r \<in> set log \<Longrightarrow> (u, r) \<in> set (hits log)"
  by (force simp: requests_def answers_def hits_def split: pf_event.splits)+

text \<open>C11: Safety: however the threads of a page's pool and its callers interleave, and whatever the fetcher answers, no URL is
  requested twice and at most 256 are; each is a style sheet or script reference of the page that its grant
  admits, or a static import, as the page's map resolves it, of a script that was answered; and what a caller
  gets is the answer to the request for its URL, handed out at most once.\<close>

theorem pf_pool_safe:
  assumes "pf_pool_start_page mem n (Some html) page css js = Some p" and "pool_reach mem (start_world p) W"
  shows "distinct (requests (pw_log W)) \<and> length (requests (pw_log W)) \<le> PF_MAX_JOBS
    \<and> (\<forall>u. Request u \<in> set (pw_log W) \<longrightarrow>
        (\<exists>k r. (k, r) \<in> set (the (pf_scan mem (Some html))) \<and> granted css js k \<and> u = page_key page r)
        \<or> imported mem (page_map mem (Some html) page js) (pw_log W) u)
    \<and> (\<forall>c u r. Hit c u r \<in> set (pw_log W) \<longrightarrow> Answer u r \<in> set (pw_log W) \<and> Request u \<in> set (pw_log W))
    \<and> distinct (map fst (answers (pw_log W))) \<and> distinct (map fst (hits (pw_log W)))"
proof -
  let ?p = "pw_pool W" and ?l = "pw_log W"
  have I: "jobs_ok ?p" "log_ok ?p ?l"
    "origin_ok mem (page_map mem (Some html) page js) (set (page_urls page css js (scan_tags mem html []))) ?p ?l"
    using pool.reach_keeps [OF assms(2) page_start(1) [OF assms(1)]] by (simp_all add: pool_inv_def)
  note L = log_okD [OF I(2)]
  have n: "pp_next ?p \<le> njobs ?p" "njobs ?p \<le> PF_MAX_JOBS" using I(1) by (simp_all add: jobs_ok_def)
  have "distinct (requests ?l)" unfolding L(1) using jurl_inj [OF I(1)] n(1) by (auto simp: distinct_map inj_on_def)
  moreover have "length (requests ?l) \<le> PF_MAX_JOBS" unfolding L(1) using n by simp
  moreover have "(\<exists>k r. (k, r) \<in> set (the (pf_scan mem (Some html))) \<and> granted css js k \<and> u = page_key page r)
      \<or> imported mem (page_map mem (Some html) page js) ?l u" if req: "Request u \<in> set ?l" for u
  proof -
    obtain i where "i < pp_next ?p" "u = jurl ?p i" using req unfolding in_log(1) L(1) by auto
    then show ?thesis using origin_okD(2) [OF I(3), of i] n(1) by (auto simp: page_urls_def pf_scan_def)
  qed
  moreover have "Answer u r \<in> set ?l \<and> Request u \<in> set ?l" if "Hit c u r \<in> set ?l" for c u r
    using in_log(3) [OF that] L(4,5) unfolding in_log L(1) by fastforce
  ultimately show ?thesis using L(2,3) by blast
qed

section \<open>Progress\<close>

lemma scan_imports_bound: "length out \<le> cap \<Longrightarrow> length (scan_imports cap prev clause out p) \<le> cap"
proof (induction cap prev clause out p rule: scan_imports.induct)
  case (2 cap prev clause out c r)
  have "length (js_take_spec cap j out) \<le> cap" for j using "2.prems" by (simp add: js_take_spec_def Let_def)
  then have "length out' \<le> cap" if "import_word cap w r1 clause out = (r2, d, cl, out')" for w r1 r2 d cl out'
    using that "2.prems" by (auto simp: import_word_def Let_def split: if_splits)
  then show ?case using 2 by (subst scan_imports.simps) (auto simp: Let_def split: prod.split)
qed simp

lemma follow_specs_bound: "length (follow_specs mem u res) \<le> PF_MAX_IMPORTS"
  using scan_imports_bound [of "[]" PF_MAX_IMPORTS] by (auto simp: follow_specs_def pf_scan_imports_def split: option.splits)

fun thread_work :: "pf_thread \<Rightarrow> nat" where
  "thread_work Exited = 0"
| "thread_work Idle = 1"
| "thread_work (Following i res sps) = 2 + length sps"
| "thread_work (Fetching i) = 3 + PF_MAX_IMPORTS"

definition pool_work :: "pf_pool \<Rightarrow> nat" where
  "pool_work p = (PF_MAX_JOBS - pp_next p) * (3 + PF_MAX_IMPORTS) + (\<Sum>w < nthr p. thread_work (thr p w))"

lemma thread_sum:
  assumes "w < nthr p" "nthr q = nthr p" "\<And>v. v < nthr p \<Longrightarrow> v \<noteq> w \<Longrightarrow> thr q v = thr p v"
  shows "(\<Sum>v < nthr q. thread_work (thr q v)) + thread_work (thr p w) = (\<Sum>v < nthr p. thread_work (thr p v)) + thread_work (thr q w)"
proof -
  have "(\<Sum>v \<in> {..<nthr p} - {w}. thread_work (thr q v)) = (\<Sum>v \<in> {..<nthr p} - {w}. thread_work (thr p v))"
    using assms(3) by (intro sum.cong) auto
  then show ?thesis
    using assms(1,2) sum.remove [of "{..<nthr p}" w "\<lambda>v. thread_work (thr p v)"] sum.remove [of "{..<nthr p}" w "\<lambda>v. thread_work (thr q v)"]
    by simp
qed

lemma follow_one_obs: "pp_next (follow_one mem b sp p) = pp_next p" "nthr (follow_one mem b sp p) = nthr p" "thr (follow_one mem b sp p) = thr p"
  by (rule follow_one_cases [of mem b sp p]; simp add: added_obs)+

lemma work_decreases:
  assumes "work_step mem W W'" and inv: "pool_inv mem imap start W"
  shows "pool_work (pw_pool W') < pool_work (pw_pool W)"
  using assms(1)
proof cases
  case (step_claim w)
  have "pp_next (pw_pool W) < PF_MAX_JOBS" using step_claim(3) inv by (auto simp: pool_inv_def jobs_ok_def njobs_def)
  then have k: "(PF_MAX_JOBS - pp_next (pw_pool W)) * (3 + PF_MAX_IMPORTS)
      = (PF_MAX_JOBS - Suc (pp_next (pw_pool W))) * (3 + PF_MAX_IMPORTS) + (3 + PF_MAX_IMPORTS)"
    by (metis Suc_diff_Suc add.commute mult_Suc)
  then show ?thesis using step_claim thread_sum [of w "pw_pool W" "claim w (pw_pool W)"]
    by (simp add: pool_work_def thread_at_obs pool_simps)
next
  case (step_exit w)
  then show ?thesis using thread_sum [of w "pw_pool W" "set_thread w Exited (pw_pool W)"] by (simp add: pool_work_def thread_at_obs pool_simps)
next
  case (step_answer w i res)
  then show ?thesis using thread_sum [of w "pw_pool W" "pw_pool W'"] follow_specs_bound [of mem "jurl (pw_pool W) i" res]
    by (simp add: pool_work_def thread_at_obs pool_simps)
next
  case (step_follow w i res sp sps)
  then show ?thesis using thread_sum [of w "pw_pool W" "pw_pool W'"]
    by (simp add: pool_work_def thread_at_obs pool_simps follow_one_obs)
next
  case (step_publish w i res)
  then show ?thesis using thread_sum [of w "pw_pool W" "pw_pool W'"] by (simp add: pool_work_def thread_at_obs pool_simps)
qed

lemma busy_steps:
  assumes "w < nthr (pw_pool W)" "held (thr (pw_pool W) w) = Some i"
  shows "\<exists>W'. work_step mem W W'"
proof (cases "thr (pw_pool W) w")
  case (Following k res sps)
  then show ?thesis using assms(1) step_follow [where W = W and w = w and i = k and res = res] step_publish [where W = W and w = w and i = k and res = res] by (cases sps) (fastforce simp: thread_at_obs)+
qed (use assms step_answer [where W = W and w = w] in \<open>fastforce simp: thread_at_obs\<close>)+

lemma stuck_done:
  assumes inv: "pool_inv mem imap start W" and "0 < nthr (pw_pool W)" and stuck: "\<not> (\<exists>W'. work_step mem W W')" and i: "i < njobs (pw_pool W)"
  shows "jstate (pw_pool W) i \<in> {PF_JOB_DONE, PF_JOB_CONSUMED}"
proof (cases "jstate (pw_pool W) i")
  case PF_JOB_PENDING
  then have n: "pp_next (pw_pool W) < njobs (pw_pool W)" using inv i by (auto simp: pool_inv_def jobs_ok_def)
  have "thr (pw_pool W) 0 \<noteq> Exited" using inv n assms(2) threads_okD(7) [of "pw_pool W" 0] by (auto simp: pool_inv_def)
  moreover have "thr (pw_pool W) 0 \<noteq> Idle"
  proof
    assume "thr (pw_pool W) 0 = Idle"
    then have "thread_at W 0 Idle" using assms(2) unfolding thread_at_obs by simp
    then show False using step_claim [of 0 W mem] n stuck unfolding njobs_def by blast
  qed
  ultimately obtain k where "held (thr (pw_pool W) 0) = Some k" by (cases "thr (pw_pool W) 0") auto
  then show ?thesis using busy_steps [OF assms(2), of k mem] stuck by blast
next
  case PF_JOB_RUNNING
  then obtain w where "w < nthr (pw_pool W)" "held (thr (pw_pool W) w) = Some i"
    using threads_okD(4) [of "pw_pool W" i] inv i by (auto simp: pool_inv_def)
  then show ?thesis using busy_steps stuck by blast
qed simp_all

lemma work_keeps:
  assumes "work_step mem W W'"
  shows "nthr (pw_pool W') = nthr (pw_pool W)" "pw_waiting W' = pw_waiting W"
  using assms by (cases; simp add: pool_simps follow_one_obs)+

interpretation work: ranked_steps "work_step mem" "\<lambda>V. pool_inv mem imap start V \<and> nthr (pw_pool V) = n" "\<lambda>V. pool_work (pw_pool V)"
  for mem imap start n
  by unfold_locales (auto intro: work_inv work_decreases simp: work_keeps)

lemma step_nthr: "pool_step mem W W' \<Longrightarrow> nthr (pw_pool W') = nthr (pw_pool W)"
  by (erule pool_stepE) (simp_all add: work_keeps pool_simps serve_def)

interpretation pool_size: step_invariant "pool_step mem" "\<lambda>W. nthr (pw_pool W) = n" for mem n
  by unfold_locales (simp add: step_nthr)

text \<open>C12: Liveness: in whatever order the threads of a page's pool run, and whatever the fetcher answers, they come to rest after
  a bounded number of steps; then every job has been answered and published, so that every caller waiting for
  a result that nobody else has taken can be served.\<close>

theorem pf_pool_live:
  assumes "pf_pool_start_page mem n (Some html) page css js = Some p" and "pool_reach mem (start_world p) W"
    and "(work_step mem ^^ k) W W'"
  shows "k \<le> pool_work (pw_pool W)
    \<and> ((\<nexists>W''. work_step mem W' W'') \<longrightarrow>
        (\<forall>j \<in> set (pp_jobs (pw_pool W')). pj_state j \<in> {PF_JOB_DONE, PF_JOB_CONSUMED})
        \<and> (\<forall>c i. pw_waiting W' c = Some i \<and> pj_state (pp_jobs (pw_pool W') ! i) \<noteq> PF_JOB_CONSUMED \<longrightarrow> pool_step mem W' (serve c i W')))"
proof -
  have inv: "pool_inv mem (page_map mem (Some html) page js) (set (page_urls page css js (scan_tags mem html []))) W"
    using pool.reach_keeps [OF assms(2) page_start(1) [OF assms(1)]] .
  have m: "0 < nthr (pw_pool W)"
    using pool_size.reach_keeps [OF assms(2), of "nthr p"] page_start(2) [OF assms(1)] by (simp add: start_world_def)
  have r: "pool_inv mem (page_map mem (Some html) page js) (set (page_urls page css js (scan_tags mem html []))) W'"
    "nthr (pw_pool W') = nthr (pw_pool W)" "k \<le> pool_work (pw_pool W)"
    using work.run_keeps [OF assms(3), of "page_map mem (Some html) page js" _ "nthr (pw_pool W)"] work.run_bound [OF assms(3)] inv by fastforce+
  have n: "0 < nthr (pw_pool W')" using m r(2) by simp
  have d: "jstate (pw_pool W') i \<in> {PF_JOB_DONE, PF_JOB_CONSUMED}" if "\<nexists>W''. work_step mem W' W''" "i < njobs (pw_pool W')" for i
    using stuck_done [OF _ n that] r by blast
  have "\<forall>j \<in> set (pp_jobs (pw_pool W')). pj_state j \<in> {PF_JOB_DONE, PF_JOB_CONSUMED}" if "\<nexists>W''. work_step mem W' W''"
    using d [OF that] unfolding all_set_conv_all_nth observers by blast
  moreover have "pool_step mem W' (serve c i W')"
    if "\<nexists>W''. work_step mem W' W''" "pw_waiting W' c = Some i" "pj_state (pp_jobs (pw_pool W') ! i) \<noteq> PF_JOB_CONSUMED" for c i
  proof -
    have "i < njobs (pw_pool W')" using r that(2) by (auto simp: pool_inv_def waits_ok_def)
    then show ?thesis using d [OF that(1)] that(2,3) by (intro step_serve) (auto simp: jstate_def)
  qed
  ultimately show ?thesis using r by auto
qed

section \<open>Two callers for one job\<close>

definition consumed :: "nat \<Rightarrow> pf_world \<Rightarrow> bool" where
  "consumed i W \<longleftrightarrow> i < njobs (pw_pool W) \<and> jstate (pw_pool W) i = PF_JOB_CONSUMED"

lemma consumed_step:
  assumes "pool_step mem W W'" "pool_inv mem imap start W" "consumed i W"
  shows "consumed i W'"
proof -
  have I: "jobs_ok (pw_pool W)" "threads_ok (pw_pool W)" using assms(2) by (simp_all add: pool_inv_def)
  have c: "i < njobs (pw_pool W)" "jstate (pw_pool W) i = PF_JOB_CONSUMED" using assms(3) by (simp_all add: consumed_def)
  have n: "i \<noteq> pp_next (pw_pool W)" using I(1) c by (auto simp: jobs_ok_def)
  have h: "held (thr (pw_pool W) w) \<noteq> Some i" if "w < nthr (pw_pool W)" for w using threads_okD(3) [OF I(2) that, of i] c by auto
  have work: "consumed i V" if "work_step mem W V" for V
    using that
  proof cases
    case (step_claim w)
    then show ?thesis using c n by (simp add: consumed_def pool_simps njobs_def [symmetric])
  next
    case (step_follow w k res sp sps)
    have "jstate (follow_one mem b sp (pw_pool W)) i = jstate (pw_pool W) i \<and> njobs (pw_pool W) \<le> njobs (follow_one mem b sp (pw_pool W))" for b
      using c by (cases rule: follow_one_cases [of mem b sp "pw_pool W"]) (auto simp: added_obs)
    then show ?thesis using step_follow(1) c by (auto simp: consumed_def pool_simps intro: less_le_trans)
  next
    case (step_publish w k res)
    then have "k \<noteq> i" "k < njobs (pw_pool W)"
      using h [of w] threads_okD(2) [OF I(2), of w k] I(1) by (auto simp: thread_at_obs jobs_ok_def)
    then show ?thesis using step_publish c by (simp add: consumed_def pool_simps)
  qed (use c in \<open>simp_all add: consumed_def pool_simps\<close>)
  have serve: "consumed i (serve d k W)" if "k < njobs (pw_pool W)" for d k
    using that c by (simp add: consumed_def serve_def pool_simps)
  from assms(1) show ?thesis
  proof cases
    case step_work
    then show ?thesis by (rule work)
  next
    case (step_hit d u k)
    then show ?thesis using serve take_find_Some by blast
  next
    case (step_serve d k)
    then show ?thesis using serve assms(2) by (auto simp: pool_inv_def waits_ok_def)
  qed (use c in \<open>simp_all add: consumed_def pool_simps\<close>)
qed

lemma starved_step:
  assumes "pool_step mem W W'" "consumed i W" "pw_waiting W c = Some i"
  shows "pw_waiting W' c = Some i"
  using assms(1)
proof cases
  case step_work
  then show ?thesis using work_keeps(2) assms(3) by metis
next
  case (step_hit d u k)
  then show ?thesis using assms(3) by (auto simp: serve_def)
next
  case (step_wait d u k)
  then show ?thesis using assms(3) by auto
next
  case (step_serve d k)
  then show ?thesis using assms(2,3) by (auto simp: serve_def consumed_def jstate_def)
next
  case step_close
  then show ?thesis using assms(3) by simp
qed

interpretation starved: step_invariant "pool_step mem" "\<lambda>W. pool_inv mem imap start W \<and> consumed i W \<and> pw_waiting W c = Some i"
  for mem imap start i c
  by unfold_locales (auto intro: step_inv consumed_step starved_step)

text \<open>C13: Error: when two callers wait for the same job, the one that is served first leaves the other waiting in every world that
  can follow: it waits for a state the job will not have again. The requests of a batch run on several threads
  and go through the pool.\<close>

theorem pf_pool_take_starves:
  assumes "pf_pool_start_page mem n (Some html) page css js = Some p" and "pool_reach mem (start_world p) W"
    and "pw_waiting W c = Some i" and "pw_waiting W d = Some i" and "c \<noteq> d" and "pj_state (pp_jobs (pw_pool W) ! i) = PF_JOB_DONE"
    and "pool_reach mem (serve c i W) W'"
  shows "pool_step mem W (serve c i W) \<and> pw_waiting W' d = Some i"
proof -
  have inv: "pool_inv mem (page_map mem (Some html) page js) (set (page_urls page css js (scan_tags mem html []))) W"
    using pool.reach_keeps [OF assms(2) page_start(1) [OF assms(1)]] .
  have i: "i < njobs (pw_pool W)" using inv assms(3) by (auto simp: pool_inv_def waits_ok_def)
  have st: "pool_step mem W (serve c i W)" using assms(3,6) by (rule step_serve)
  have "consumed i (serve c i W)" using i by (simp add: consumed_def serve_def pool_simps)
  moreover have "pw_waiting (serve c i W) d = Some i" using assms(4,5) by (simp add: serve_def)
  moreover have "pool_inv mem (page_map mem (Some html) page js) (set (page_urls page css js (scan_tags mem html []))) (serve c i W)"
    using step_inv [OF st inv] .
  ultimately have "pw_waiting W' d = Some i" using starved.reach_keeps [OF assms(7)] by blast
  then show ?thesis using st by blast
qed

section \<open>Runs\<close>

text \<open>A page with one script, its pool of one thread, and a run in which two callers ask for the script while it is
  fetched; with a further step one of them is served.\<close>

definition script_page :: string where
  "script_page = ''<script src=\"/a.js\"></script>''"

definition script_pool :: pf_pool where
  "script_pool = the (pf_pool_start_page (\<lambda>n. True) 1 (Some script_page) (Some ''https://x/'') False True)"

definition ok_answer :: "string \<Rightarrow> pf_result" where
  "ok_answer b = \<lparr> pr_rc = 0, pr_status = 200, pr_body = Some b, pr_ctype = None \<rparr>"

definition claimed_by :: "nat \<Rightarrow> pf_world \<Rightarrow> pf_world" where
  "claimed_by w W = log_event (Request (job_url W (pp_next (pw_pool W)))) (on_pool (claim w) W)"

definition answered_by :: "nat \<Rightarrow> nat \<Rightarrow> pf_result \<Rightarrow> pf_world \<Rightarrow> pf_world" where
  "answered_by w i res W =
     log_event (Answer (job_url W i) res) (on_pool (set_thread w (Following i res (follow_specs (\<lambda>n. True) (job_url W i) res))) W)"

definition published_by :: "nat \<Rightarrow> nat \<Rightarrow> pf_result \<Rightarrow> pf_world \<Rightarrow> pf_world" where
  "published_by w i res W = on_pool (\<lambda>p. set_thread w Idle (publish i res p)) W"

definition waiting_for :: "nat \<Rightarrow> nat \<Rightarrow> pf_world \<Rightarrow> pf_world" where
  "waiting_for c i W = W\<lparr>pw_waiting := (pw_waiting W)(c \<mapsto> i)\<rparr>"

lemmas run_defs = claimed_by_def answered_by_def published_by_def waiting_for_def

definition asked_twice :: pf_world where
  "asked_twice = published_by 0 0 (ok_answer ''f()'') (answered_by 0 0 (ok_answer ''f()'')
     (waiting_for 2 0 (waiting_for 1 0 (claimed_by 0 (start_world script_pool)))))"

lemma asked_twice_reach: "pool_reach (\<lambda>n. True) (start_world script_pool) asked_twice"
proof -
  let ?W0 = "start_world script_pool"
  let ?W1 = "claimed_by 0 ?W0"
  let ?W2 = "waiting_for 1 0 ?W1"
  let ?W3 = "waiting_for 2 0 ?W2"
  let ?W4 = "answered_by 0 0 (ok_answer ''f()'') ?W3"
  have g: "thread_at ?W0 0 Idle" "pp_next (pw_pool ?W0) < length (pp_jobs (pw_pool ?W0))"
    "pw_waiting ?W1 1 = None" "take_find (pw_pool ?W1) (Some ''https://x/a.js'') = Some 0" "pj_state (pp_jobs (pw_pool ?W1) ! 0) \<noteq> PF_JOB_DONE"
    "pw_waiting ?W2 2 = None" "take_find (pw_pool ?W2) (Some ''https://x/a.js'') = Some 0" "pj_state (pp_jobs (pw_pool ?W2) ! 0) \<noteq> PF_JOB_DONE"
    "thread_at ?W3 0 (Fetching 0)" "thread_at ?W4 0 (Following 0 (ok_answer ''f()'') [])"
    by code_simp+
  note r0 = reach_refl [of "\<lambda>n. True" ?W0]
  note r1 = reach_step [OF r0 step_work [OF step_claim [OF g(1,2)]], folded claimed_by_def]
  note r2 = reach_step [OF r1 step_wait [OF g(3-5)], folded waiting_for_def]
  note r3 = reach_step [OF r2 step_wait [OF g(6-8)], folded waiting_for_def]
  note r4 = reach_step [OF r3 step_work [OF step_answer [OF g(9), where res = "ok_answer ''f()''"]], folded answered_by_def]
  note r5 = reach_step [OF r4 step_work [OF step_publish [OF g(10)]], folded published_by_def]
  show ?thesis unfolding asked_twice_def by (rule r5)
qed

lemma script_pool_start: "pf_pool_start_page (\<lambda>n. True) 1 (Some script_page) (Some ''https://x/'') False True = Some script_pool"
  by code_simp

lemma pf_pool_safe_witness:
  "requests (pw_log asked_twice) = [''https://x/a.js'']
    \<and> (imported (\<lambda>n. True) (page_map (\<lambda>n. True) (Some script_page) (Some ''https://x/'') True) (pw_log asked_twice) ''https://x/a.js''
      \<or> (\<exists>k r. (k, r) \<in> set (the (pf_scan (\<lambda>n. True) (Some script_page))) \<and> granted False True k \<and> ''https://x/a.js'' = page_key (Some ''https://x/'') r))"
proof -
  have r: "requests (pw_log asked_twice) = [''https://x/a.js'']" by code_simp
  then have "Request ''https://x/a.js'' \<in> set (pw_log asked_twice)" by (simp add: in_log(1))
  then show ?thesis using pf_pool_safe [OF script_pool_start asked_twice_reach] r by blast
qed

lemma asked_twice_rests: "\<not> work_step (\<lambda>n. True) asked_twice W'"
proof
  assume st: "work_step (\<lambda>n. True) asked_twice W'"
  have g: "pp_threads (pw_pool asked_twice) = [Idle]" "pp_next (pw_pool asked_twice) = length (pp_jobs (pw_pool asked_twice))"
    "\<not> pp_closing (pw_pool asked_twice)" by code_simp+
  from st show False by cases (use g in auto)
qed

lemma pf_pool_live_witness:
  "pj_state (pp_jobs (pw_pool asked_twice) ! 0) \<in> {PF_JOB_DONE, PF_JOB_CONSUMED}
    \<and> pool_step (\<lambda>n. True) asked_twice (serve 2 0 asked_twice)"
proof -
  have g: "pw_waiting asked_twice 2 = Some 0" "pj_state (pp_jobs (pw_pool asked_twice) ! 0) \<noteq> PF_JOB_CONSUMED"
    "length (pp_jobs (pw_pool asked_twice)) = 1"
    by code_simp+
  have "(work_step (\<lambda>n. True) ^^ 0) asked_twice asked_twice" by simp
  from pf_pool_live [OF script_pool_start asked_twice_reach this] asked_twice_rests g show ?thesis by (metis less_one nth_mem)
qed

lemma pf_pool_take_starves_witness:
  "pool_step (\<lambda>n. True) asked_twice (serve 1 0 asked_twice) \<and> pw_waiting (serve 1 0 asked_twice) 2 = Some 0"
proof -
  have g: "pw_waiting asked_twice 1 = Some 0" "pw_waiting asked_twice 2 = Some 0" "pj_state (pp_jobs (pw_pool asked_twice) ! 0) = PF_JOB_DONE"
    by code_simp+
  show ?thesis using pf_pool_take_starves [OF script_pool_start asked_twice_reach g(1,2) _ g(3) reach_refl] by simp
qed

text \<open>A style sheet is followed like a script when its URL or type says so: with scripts not granted, a page whose style sheet
  is called like one makes the pool fetch what its text imports.\<close>

definition sheet_pool :: pf_pool where
  "sheet_pool = the (pf_pool_start_page (\<lambda>n. True) 1 (Some ''<link rel=\"stylesheet\" href=\"/a.js\">'') (Some ''https://x/'') True False)"

definition sheet_answer :: pf_result where
  "sheet_answer = ok_answer ''import \"./b.js\"''"

definition followed :: "pf_world \<Rightarrow> pf_world" where
  "followed W = on_pool (\<lambda>p. set_thread 0 (Following 0 sheet_answer []) (follow_one (\<lambda>n. True) (job_url W 0) ''./b.js'' p)) W"

theorem pf_sheet_imports_fetched:
  "pf_pool_start_page (\<lambda>n. True) 1 (Some ''<link rel=\"stylesheet\" href=\"/a.js\">'') (Some ''https://x/'') True False = Some sheet_pool
    \<and> (\<exists>W. pool_reach (\<lambda>n. True) (start_world sheet_pool) W \<and> requests (pw_log W) = [''https://x/a.js'', ''https://x/b.js''])"
proof -
  let ?W0 = "start_world sheet_pool"
  let ?W1 = "claimed_by 0 ?W0"
  let ?W2 = "answered_by 0 0 sheet_answer ?W1"
  let ?W3 = "followed ?W2"
  let ?W4 = "published_by 0 0 sheet_answer ?W3"
  let ?W5 = "claimed_by 0 ?W4"
  have g: "thread_at ?W0 0 Idle" "pp_next (pw_pool ?W0) < length (pp_jobs (pw_pool ?W0))" "thread_at ?W1 0 (Fetching 0)"
    "thread_at ?W2 0 (Following 0 sheet_answer [''./b.js''])" "thread_at ?W3 0 (Following 0 sheet_answer [])"
    "thread_at ?W4 0 Idle" "pp_next (pw_pool ?W4) < length (pp_jobs (pw_pool ?W4))"
    by code_simp+
  note r1 = reach_step [OF reach_refl step_work [OF step_claim [OF g(1,2)]], folded claimed_by_def]
  note r2 = reach_step [OF r1 step_work [OF step_answer [OF g(3), where res = sheet_answer and mem = "\<lambda>n. True"]], folded answered_by_def]
  note r3 = reach_step [OF r2 step_work [OF step_follow [OF g(4)]], folded followed_def]
  note r4 = reach_step [OF r3 step_work [OF step_publish [OF g(5)]], folded published_by_def]
  note r5 = reach_step [OF r4 step_work [OF step_claim [OF g(6,7)]], folded claimed_by_def]
  have "requests (pw_log ?W5) = [''https://x/a.js'', ''https://x/b.js'']" by code_simp
  moreover have "pf_pool_start_page (\<lambda>n. True) 1 (Some ''<link rel=\"stylesheet\" href=\"/a.js\">'') (Some ''https://x/'') True False = Some sheet_pool"
    by code_simp
  ultimately show ?thesis using r5 by blast
qed

end
