(* ===== verification/Css_Select.thy ===== *)
theory Css_Select
  imports C_Prelude
begin

unbundle bit_operations_syntax

text \<open>
  The matcher of \<^verbatim>\<open>src/css_select.c\<close>: a parsed selector against the view of an element that the style engine builds
  (\<^verbatim>\<open>css_element\<close>: its own data and links to the parent and to the previous sibling). The matcher walks the
  combinators from right to left and skips, without comparing a string, elements whose feature bits lack a
  bit that a compound requires. The declarative meaning of a selector (\<open>selects\<close>) knows neither bits nor walks;
  the theorems show that the two agree, that the ancestor filter \<^verbatim>\<open>csel_anc_reject\<close> loses no match, and that a
  selector for which \<^verbatim>\<open>csel_needs_structure\<close> answers 0 does not read the structure of the document.

  NULL views are not modelled: every caller tests for them. The engine's inputs that no selector reads (the
  inherited font size and custom properties) are left out of the view. \<^verbatim>\<open>:has()\<close> walks the document itself; a
  node of it is a \<open>dom_node\<close>, which holds the answers of the HTML library for the node: its local name, the
  lookup of an attribute by name, and its children.
\<close>

section \<open>Model\<close>

subsection \<open>Selectors\<close>

definition CSS_TOK_MAX :: nat where
  "CSS_TOK_MAX = 64"

definition CSS_MAX_COMPOUNDS :: nat where
  "CSS_MAX_COMPOUNDS = 8"

definition CSEL_FOLD_PREFIX :: nat where
  "CSEL_FOLD_PREFIX = 40"

definition CSEL_FOLD_MARK :: char where
  "CSEL_FOLD_MARK = CHR 0x1F"

datatype css_comb = COMB_DESCENDANT | COMB_CHILD | COMB_ADJACENT | COMB_GENERAL

datatype css_attr_op = ATTR_PRESENT | ATTR_EQ | ATTR_TILDE | ATTR_PIPE | ATTR_CARET | ATTR_DOLLAR | ATTR_STAR

datatype css_pseudo_kind = PSEUDO_LINK | PSEUDO_NEVER | PSEUDO_HOVER | PSEUDO_ROOT
  | PSEUDO_FIRST_CHILD | PSEUDO_LAST_CHILD | PSEUDO_ONLY_CHILD
  | PSEUDO_NTH_CHILD | PSEUDO_NTH_LAST_CHILD
  | PSEUDO_CHECKED | PSEUDO_DISABLED | PSEUDO_ENABLED
  | PSEUDO_NOT | PSEUDO_IS | PSEUDO_WHERE
  | PSEUDO_FIRST_OF_TYPE | PSEUDO_LAST_OF_TYPE | PSEUDO_ONLY_OF_TYPE
  | PSEUDO_NTH_OF_TYPE | PSEUDO_NTH_LAST_OF_TYPE
  | PSEUDO_EMPTY | PSEUDO_TARGET | PSEUDO_LANG
  | PSEUDO_BEFORE | PSEUDO_AFTER | PSEUDO_HAS
  | PSEUDO_ACTIVE | PSEUDO_FOCUS | PSEUDO_FOCUS_WITHIN | PSEUDO_FOCUS_VISIBLE
  | PSEUDO_PLACEHOLDER

text \<open>A flag and its slot (\<^verbatim>\<open>has_tag\<close> and \<^verbatim>\<open>tag\<close>) are an option; an array and its count are a list.\<close>

record css_attr_match =
  am_name :: string
  am_value :: string
  am_op :: css_attr_op
  am_ci :: bool

record css_sub_sel =
  sub_tag :: cptr
  sub_id :: cptr
  sub_cls :: cptr
  sub_attrs :: "css_attr_match list"
  sub_pseudos :: "css_pseudo_kind list"

record css_pseudo_match =
  pm_kind :: css_pseudo_kind
  pm_a :: int
  pm_b :: int
  pm_sub_first :: int
  pm_sub_count :: nat
  pm_lang :: string

record css_compound =
  cp_tag :: cptr
  cp_id :: cptr
  cp_cls :: "string list"
  cp_attrs :: "css_attr_match list"
  cp_pseudos :: "css_pseudo_match list"

record css_sel =
  sel_comb :: "css_comb list"
  sel_spec :: int
  sel_subs :: "css_sub_sel list"
  sel_anc_req :: "64 word"
  sel_subj_req :: "64 word"
  sel_part_req :: "64 word list"
  sel_parts :: "css_compound list"

abbreviation nparts :: "css_sel \<Rightarrow> nat" where
  "nparts sel \<equiv> length (sel_parts sel)"

subsection \<open>Elements\<close>

datatype dom_node = Dom_Element (dn_name: cptr) (dn_attribute: "string \<Rightarrow> cptr") (dn_children: "dom_node list") | Dom_Other

definition CSEL_STATE_HOVER :: "32 word" where
  "CSEL_STATE_HOVER = push_bit 0 1"

definition CSEL_STATE_ACTIVE :: "32 word" where
  "CSEL_STATE_ACTIVE = push_bit 1 1"

definition CSEL_STATE_FOCUS :: "32 word" where
  "CSEL_STATE_FOCUS = push_bit 2 1"

definition CSEL_STATE_FOCUS_WITHIN :: "32 word" where
  "CSEL_STATE_FOCUS_WITHIN = push_bit 3 1"

definition CSEL_STATE_FOCUS_VISIBLE :: "32 word" where
  "CSEL_STATE_FOCUS_VISIBLE = push_bit 4 1"

record css_view =
  el_tag :: cptr
  el_id :: cptr
  el_classes :: "cptr list"
  el_attrs :: "(cptr \<times> cptr) list"
  el_nth :: int
  el_nsib :: int
  el_nth_of_type :: int
  el_nsib_of_type :: int
  el_child_count :: int
  el_dom_node :: "dom_node option"
  el_state :: "32 word"
  el_anc_bloom :: "64 word"
  el_own_bloom :: "64 word"
  el_anc_bloom_valid :: bool

datatype css_element = Element (el_view: css_view) (el_parent: "css_element option") (el_prev: "css_element option")

text \<open>The elements that the loops over \<^verbatim>\<open>parent\<close> and \<^verbatim>\<open>prev\<close> links visit, in their order.\<close>

fun el_ancestors :: "css_element \<Rightarrow> css_element list" where
  "el_ancestors (Element d None q) = []"
| "el_ancestors (Element d (Some p) q) = p # el_ancestors p"

fun el_preceding :: "css_element \<Rightarrow> css_element list" where
  "el_preceding (Element d p None) = []"
| "el_preceding (Element d p (Some q)) = q # el_preceding q"

subsection \<open>Text helpers\<close>

definition csel_fold_ch :: "bool \<Rightarrow> char \<Rightarrow> char" where
  "csel_fold_ch ci c = (if ci then ascii_lower c else c)"

fun csel_ci_eq :: "string \<Rightarrow> string \<Rightarrow> bool" where
  "csel_ci_eq (a # s) (b # t) = (if ascii_lower a \<noteq> ascii_lower b then False else csel_ci_eq s t)"
| "csel_ci_eq s t = (s = [] \<and> t = [])"

text \<open>Every caller passes spans of at least \<open>n\<close> bytes.\<close>

definition csel_span_eq :: "string \<Rightarrow> string \<Rightarrow> nat \<Rightarrow> bool \<Rightarrow> bool" where
  "csel_span_eq a b n ci = list_all (\<lambda>i. csel_fold_ch ci (a ! i) = csel_fold_ch ci (b ! i)) [0..<n]"

definition csel_substr :: "string \<Rightarrow> string \<Rightarrow> bool \<Rightarrow> bool" where
  "csel_substr hay needle ci =
     (let nl = length needle; hl = length hay in
      if nl = 0 \<or> nl > hl then False
      else list_ex (\<lambda>off. csel_span_eq (drop off hay) needle nl ci) [0..<hl - nl + 1])"

text \<open>Reading a buffer as a string stops at its first NUL.\<close>

definition c_read :: "string \<Rightarrow> string" where
  "c_read s = takeWhile (\<lambda>c. c \<noteq> NUL) s"

definition fnv_step :: "64 word \<Rightarrow> char \<Rightarrow> 64 word" where
  "fnv_step h c = (h XOR word_of_nat (of_char c)) * 1099511628211"

definition ident_hash :: "string \<Rightarrow> 64 word" where
  "ident_hash s = foldl fnv_step 1469598103934665603 s"

definition csel_ident_fold :: "string \<Rightarrow> string" where
  "csel_ident_fold src =
     (if length src < CSS_TOK_MAX then src
      else take CSEL_FOLD_PREFIX src @ [CSEL_FOLD_MARK]
        @ map (\<lambda>k. ''0123456789abcdef'' ! unat (drop_bit (4 * k) (ident_hash src) AND 0xF)) (rev [0..<16]))"

definition csel_ident_eq :: "string \<Rightarrow> string \<Rightarrow> bool" where
  "csel_ident_eq stored tok =
     (if length tok < CSS_TOK_MAX then stored = tok else stored = c_read (csel_ident_fold tok))"

subsection \<open>Feature bits\<close>

definition feat_bits :: "64 word \<Rightarrow> string \<Rightarrow> 64 word" where
  "feat_bits kind tok0 =
     (let tok = (if length tok0 \<ge> CSS_TOK_MAX then c_read (csel_ident_fold tok0) else tok0);
          h = foldl fnv_step (1469598103934665603 XOR (kind * 0x9E3779B97F4A7C15)) tok
      in push_bit (unat (h AND 63)) 1 OR push_bit (unat (drop_bit 7 h AND 63)) 1)"

definition FEAT_TAG :: "64 word" where
  "FEAT_TAG = 1"

definition FEAT_ID :: "64 word" where
  "FEAT_ID = 2"

definition FEAT_CLASS :: "64 word" where
  "FEAT_CLASS = 3"

text \<open>The bits of a slot that is there and not empty.\<close>

definition slot_bits :: "64 word \<Rightarrow> cptr \<Rightarrow> 64 word" where
  "slot_bits kind t = (case t of None \<Rightarrow> 0 | Some s \<Rightarrow> if s = [] then 0 else feat_bits kind s)"

definition csel_element_feature_bits :: "css_view \<Rightarrow> 64 word" where
  "csel_element_feature_bits e =
     foldl (\<lambda>b c. b OR slot_bits FEAT_CLASS c) (slot_bits FEAT_TAG (el_tag e) OR slot_bits FEAT_ID (el_id e)) (el_classes e)"

definition compound_req :: "css_compound \<Rightarrow> 64 word" where
  "compound_req c =
     foldl (\<lambda>b k. b OR slot_bits FEAT_CLASS (Some k)) (slot_bits FEAT_TAG (cp_tag c) OR slot_bits FEAT_ID (cp_id c)) (cp_cls c)"

text \<open>The loop of \<^verbatim>\<open>compute_anc_req\<close> from index \<open>j\<close> down.\<close>

fun anc_req_from :: "css_sel \<Rightarrow> nat \<Rightarrow> 64 word" where
  "anc_req_from sel 0 = 0"
| "anc_req_from sel (Suc j) =
     (if sel_comb sel ! Suc j \<noteq> COMB_DESCENDANT \<and> sel_comb sel ! Suc j \<noteq> COMB_CHILD then 0
      else compound_req (sel_parts sel ! j) OR anc_req_from sel j)"

definition compute_anc_req :: "css_sel \<Rightarrow> 64 word" where
  "compute_anc_req sel = anc_req_from sel (nparts sel - 1)"

definition compute_subj_req :: "css_sel \<Rightarrow> 64 word" where
  "compute_subj_req sel = (if nparts sel < 1 then 0 else compound_req (sel_parts sel ! (nparts sel - 1)))"

text \<open>What \<^verbatim>\<open>csel_parse\<close> adds to the selector that the parser read.\<close>

definition with_requirements :: "css_sel \<Rightarrow> css_sel" where
  "with_requirements sel = sel\<lparr>sel_anc_req := compute_anc_req sel, sel_subj_req := compute_subj_req sel,
     sel_part_req := map compound_req (sel_parts sel)\<rparr>"

definition csel_anc_reject :: "css_sel \<Rightarrow> css_element \<Rightarrow> bool" where
  "csel_anc_reject sel el \<longleftrightarrow> el_anc_bloom_valid (el_view el)
     \<and> (sel_anc_req sel AND NOT (el_anc_bloom (el_view el)) \<noteq> 0
        \<or> sel_subj_req sel AND NOT (el_own_bloom (el_view el)) \<noteq> 0)"

subsection \<open>Attributes and positions\<close>

fun attr_scan :: "(cptr \<times> cptr) list \<Rightarrow> string \<Rightarrow> cptr" where
  "attr_scan [] name = None"
| "attr_scan ((n, v) # as) name =
     (if (case n of None \<Rightarrow> False | Some m \<Rightarrow> csel_ci_eq m name) then Some (case v of None \<Rightarrow> [] | Some w \<Rightarrow> w)
      else attr_scan as name)"

definition el_attr_value :: "css_view \<Rightarrow> string \<Rightarrow> cptr" where
  "el_attr_value el name = attr_scan (el_attrs el) name"

definition attr_ends_with :: "string \<Rightarrow> string \<Rightarrow> bool \<Rightarrow> bool" where
  "attr_ends_with v suf ci =
     (let vl = length v; fl = length suf in
      if fl = 0 \<or> fl > vl then False else csel_span_eq (drop (vl - fl) v) suf fl ci)"

definition word_space :: "char \<Rightarrow> bool" where
  "word_space c \<longleftrightarrow> c = CHR '' '' \<or> c = CHR 0x09 \<or> c = CHR 0x0A \<or> c = CHR 0x0D \<or> c = CHR 0x0C"

function word_scan :: "string \<Rightarrow> string \<Rightarrow> bool \<Rightarrow> bool" where
  "word_scan v w ci =
     (if v = [] then False
      else (let st = dropWhile word_space v; word = takeWhile (\<lambda>c. \<not> word_space c) st in
        if length word = length w \<and> csel_span_eq word w (length w) ci then True
        else word_scan (dropWhile (\<lambda>c. \<not> word_space c) st) w ci))"
  by pat_completeness auto

lemma word_scan_shorter:
  "v \<noteq> [] \<Longrightarrow> length (dropWhile (\<lambda>c. \<not> word_space c) (dropWhile word_space v)) < length v"
proof (cases "word_space (hd v)")
  case True
  assume v: "v \<noteq> []"
  have "length (dropWhile word_space v) < length v" using length_dropWhile_less [of v word_space] v True by simp
  then show ?thesis using length_dropWhile_le [of "\<lambda>c. \<not> word_space c" "dropWhile word_space v"] by linarith
next
  case False
  assume v: "v \<noteq> []"
  then have "dropWhile word_space v = v" using False by (cases v) auto
  then show ?thesis using length_dropWhile_less [of v "\<lambda>c. \<not> word_space c"] v False by simp
qed

termination word_scan
  by (relation "measure (\<lambda>(v, w, ci). length v)") (use word_scan_shorter in auto)

declare word_scan.simps [simp del]

definition has_word :: "string \<Rightarrow> string \<Rightarrow> bool \<Rightarrow> bool" where
  "has_word v w ci = (if w = [] then False else word_scan v w ci)"

definition attr_matches :: "css_attr_match \<Rightarrow> css_view \<Rightarrow> bool" where
  "attr_matches am el =
     (case el_attr_value el (am_name am) of
        None \<Rightarrow> False
      | Some v \<Rightarrow>
          (let vl = length v; nl = length (am_value am) in
           case am_op am of
             ATTR_PRESENT \<Rightarrow> True
           | ATTR_EQ \<Rightarrow> vl = nl \<and> csel_span_eq v (am_value am) nl (am_ci am)
           | ATTR_TILDE \<Rightarrow> has_word v (am_value am) (am_ci am)
           | ATTR_PIPE \<Rightarrow> (vl = nl \<and> csel_span_eq v (am_value am) nl (am_ci am))
               \<or> (vl > nl \<and> csel_span_eq v (am_value am) nl (am_ci am) \<and> v ! nl = CHR ''-'')
           | ATTR_CARET \<Rightarrow> nl > 0 \<and> vl \<ge> nl \<and> csel_span_eq v (am_value am) nl (am_ci am)
           | ATTR_DOLLAR \<Rightarrow> attr_ends_with v (am_value am) (am_ci am)
           | ATTR_STAR \<Rightarrow> csel_substr v (am_value am) (am_ci am)))"

definition nth_matches :: "int \<Rightarrow> int \<Rightarrow> int \<Rightarrow> bool" where
  "nth_matches A B idx =
     (if idx \<le> 0 then False
      else if A = 0 then idx = B
      else let d = idx - B in
        if A > 0 then d \<ge> 0 \<and> d mod A = 0
        else d \<le> 0 \<and> (- d) mod (- A) = 0)"

definition is_form_control :: "cptr \<Rightarrow> bool" where
  "is_form_control tag =
     (case tag of None \<Rightarrow> False
      | Some t \<Rightarrow> csel_ci_eq t ''input'' \<or> csel_ci_eq t ''button'' \<or> csel_ci_eq t ''select'' \<or> csel_ci_eq t ''textarea''
          \<or> csel_ci_eq t ''option'' \<or> csel_ci_eq t ''optgroup'' \<or> csel_ci_eq t ''fieldset'')"

subsection \<open>Pseudo-classes\<close>

definition state_has :: "css_view \<Rightarrow> 32 word \<Rightarrow> bool" where
  "state_has el b \<longleftrightarrow> el_state el AND b \<noteq> 0"

definition is_tag :: "css_view \<Rightarrow> string \<Rightarrow> bool" where
  "is_tag el name = (case el_tag el of None \<Rightarrow> False | Some t \<Rightarrow> csel_ci_eq t name)"

definition lang_matches :: "string \<Rightarrow> css_view \<Rightarrow> bool" where
  "lang_matches lang el =
     (case el_attr_value el ''lang'' of
        None \<Rightarrow> False
      | Some lv \<Rightarrow>
          (let pl = length lang in
           if length lv < pl then False
           else if \<not> csel_span_eq lv lang pl True then False
           else length lv = pl \<or> lv ! pl = CHR ''-''))"

text \<open>The cases of \<^verbatim>\<open>pseudo_matches\<close> that do not read the selector, and what the others answer when there is none.\<close>

fun plain_pseudo_matches :: "css_pseudo_match \<Rightarrow> css_pseudo_kind \<Rightarrow> css_view \<Rightarrow> cptr \<Rightarrow> bool \<Rightarrow> bool" where
  "plain_pseudo_matches pm PSEUDO_LINK el target allow = ((is_tag el ''a'' \<or> is_tag el ''area'') \<and> el_attr_value el ''href'' \<noteq> None)"
| "plain_pseudo_matches pm PSEUDO_NEVER el target allow = False"
| "plain_pseudo_matches pm PSEUDO_HOVER el target allow = state_has el CSEL_STATE_HOVER"
| "plain_pseudo_matches pm PSEUDO_ACTIVE el target allow = state_has el CSEL_STATE_ACTIVE"
| "plain_pseudo_matches pm PSEUDO_FOCUS el target allow = state_has el CSEL_STATE_FOCUS"
| "plain_pseudo_matches pm PSEUDO_FOCUS_WITHIN el target allow = state_has el CSEL_STATE_FOCUS_WITHIN"
| "plain_pseudo_matches pm PSEUDO_FOCUS_VISIBLE el target allow = state_has el CSEL_STATE_FOCUS_VISIBLE"
| "plain_pseudo_matches pm PSEUDO_ROOT el target allow = is_tag el ''html''"
| "plain_pseudo_matches pm PSEUDO_FIRST_CHILD el target allow = (el_nth el = 1)"
| "plain_pseudo_matches pm PSEUDO_LAST_CHILD el target allow = (el_nth el > 0 \<and> el_nth el = el_nsib el)"
| "plain_pseudo_matches pm PSEUDO_ONLY_CHILD el target allow = (el_nth el = 1 \<and> el_nsib el = 1)"
| "plain_pseudo_matches pm PSEUDO_NTH_CHILD el target allow = nth_matches (pm_a pm) (pm_b pm) (el_nth el)"
| "plain_pseudo_matches pm PSEUDO_NTH_LAST_CHILD el target allow =
     (el_nth el > 0 \<and> el_nsib el \<ge> el_nth el \<and> nth_matches (pm_a pm) (pm_b pm) (el_nsib el - el_nth el + 1))"
| "plain_pseudo_matches pm PSEUDO_CHECKED el target allow = (el_attr_value el ''checked'' \<noteq> None)"
| "plain_pseudo_matches pm PSEUDO_DISABLED el target allow = (el_attr_value el ''disabled'' \<noteq> None)"
| "plain_pseudo_matches pm PSEUDO_ENABLED el target allow = (is_form_control (el_tag el) \<and> el_attr_value el ''disabled'' = None)"
| "plain_pseudo_matches pm PSEUDO_NOT el target allow = False"
| "plain_pseudo_matches pm PSEUDO_IS el target allow = False"
| "plain_pseudo_matches pm PSEUDO_WHERE el target allow = False"
| "plain_pseudo_matches pm PSEUDO_FIRST_OF_TYPE el target allow = (el_nth_of_type el = 1 \<and> el_nsib_of_type el \<ge> 1)"
| "plain_pseudo_matches pm PSEUDO_LAST_OF_TYPE el target allow =
     (el_nth_of_type el > 0 \<and> el_nsib_of_type el > 0 \<and> el_nth_of_type el = el_nsib_of_type el)"
| "plain_pseudo_matches pm PSEUDO_ONLY_OF_TYPE el target allow = (el_nth_of_type el = 1 \<and> el_nsib_of_type el = 1)"
| "plain_pseudo_matches pm PSEUDO_NTH_OF_TYPE el target allow =
     (el_nth_of_type el > 0 \<and> nth_matches (pm_a pm) (pm_b pm) (el_nth_of_type el))"
| "plain_pseudo_matches pm PSEUDO_NTH_LAST_OF_TYPE el target allow =
     (el_nth_of_type el > 0 \<and> el_nsib_of_type el \<ge> el_nth_of_type el
      \<and> nth_matches (pm_a pm) (pm_b pm) (el_nsib_of_type el - el_nth_of_type el + 1))"
| "plain_pseudo_matches pm PSEUDO_EMPTY el target allow = (el_child_count el = 0)"
| "plain_pseudo_matches pm PSEUDO_TARGET el target allow = (target \<noteq> None \<and> el_id el \<noteq> None \<and> el_id el = target)"
| "plain_pseudo_matches pm PSEUDO_LANG el target allow = lang_matches (pm_lang pm) el"
| "plain_pseudo_matches pm PSEUDO_HAS el target allow = False"
| "plain_pseudo_matches pm PSEUDO_BEFORE el target allow = allow"
| "plain_pseudo_matches pm PSEUDO_AFTER el target allow = allow"
| "plain_pseudo_matches pm PSEUDO_PLACEHOLDER el target allow = allow"

definition has_class :: "string \<Rightarrow> css_view \<Rightarrow> bool" where
  "has_class c el = list_ex (\<lambda>k. case k of None \<Rightarrow> False | Some t \<Rightarrow> csel_ident_eq c t) (el_classes el)"

definition tag_slot_matches :: "cptr \<Rightarrow> css_view \<Rightarrow> bool" where
  "tag_slot_matches s el = (case s of None \<Rightarrow> True | Some t \<Rightarrow> (case el_tag el of None \<Rightarrow> False | Some n \<Rightarrow> csel_ci_eq t n))"

definition id_slot_matches :: "cptr \<Rightarrow> css_view \<Rightarrow> bool" where
  "id_slot_matches s el = (case s of None \<Rightarrow> True | Some i \<Rightarrow> (case el_id el of None \<Rightarrow> False | Some n \<Rightarrow> csel_ident_eq i n))"

definition bare_pseudo :: "css_pseudo_kind \<Rightarrow> css_pseudo_match" where
  "bare_pseudo k = \<lparr>pm_kind = k, pm_a = 0, pm_b = 0, pm_sub_first = -1, pm_sub_count = 0, pm_lang = []\<rparr>"

definition sub_sel_matches :: "css_sub_sel \<Rightarrow> css_view \<Rightarrow> bool" where
  "sub_sel_matches sub el \<longleftrightarrow>
     tag_slot_matches (sub_tag sub) el \<and> id_slot_matches (sub_id sub) el
     \<and> (case sub_cls sub of None \<Rightarrow> True | Some c \<Rightarrow> has_class c el)
     \<and> list_all (\<lambda>am. attr_matches am el) (sub_attrs sub)
     \<and> list_all (\<lambda>k. plain_pseudo_matches (bare_pseudo k) k el None False) (sub_pseudos sub)"

text \<open>The sub-selectors that a pseudo-class names: \<^verbatim>\<open>sub_count\<close> of them from \<^verbatim>\<open>sub_first\<close>, as far as there are any.\<close>

definition pm_subs :: "css_sel \<Rightarrow> css_pseudo_match \<Rightarrow> css_sub_sel list" where
  "pm_subs sel pm = take (pm_sub_count pm) (drop (nat (pm_sub_first pm)) (sel_subs sel))"

subsection \<open>The descendant walk of \<^verbatim>\<open>:has()\<close>\<close>

definition HAS_MAX_DEPTH :: nat where
  "HAS_MAX_DEPTH = 32"

definition HAS_STACK :: nat where
  "HAS_STACK = 128"

definition has_attr_op :: "css_attr_op \<Rightarrow> string \<Rightarrow> string \<Rightarrow> bool" where
  "has_attr_op oper av val =
     (let avl = length av; vl = length val in
      case oper of
        ATTR_PRESENT \<Rightarrow> True
      | ATTR_EQ \<Rightarrow> av = val
      | ATTR_TILDE \<Rightarrow> val \<in> set (split_on (CHR '' '') av)
      | ATTR_PIPE \<Rightarrow> avl \<ge> vl \<and> take vl av = val \<and> \<not> (avl > vl \<and> av ! vl \<noteq> CHR ''-'')
      | ATTR_CARET \<Rightarrow> avl \<ge> vl \<and> take vl av = val
      | ATTR_DOLLAR \<Rightarrow> avl \<ge> vl \<and> drop (avl - vl) av = val
      | ATTR_STAR \<Rightarrow> vl \<le> avl \<and> list_ex (\<lambda>off. take vl (drop off av) = val) [0..<avl - vl + 1])"

definition has_sub_matches :: "(string \<Rightarrow> cptr) \<Rightarrow> cptr \<Rightarrow> css_sub_sel \<Rightarrow> bool" where
  "has_sub_matches attrib name sub \<longleftrightarrow>
     (case sub_tag sub of None \<Rightarrow> True
      | Some t \<Rightarrow> (case name of None \<Rightarrow> False | Some nm \<Rightarrow> length t = length nm \<and> csel_span_eq nm t (length nm) True))
     \<and> (case sub_id sub of None \<Rightarrow> True
        | Some i \<Rightarrow> (case attrib ''id'' of None \<Rightarrow> False | Some idv \<Rightarrow> csel_ident_eq i idv))
     \<and> (case sub_cls sub of None \<Rightarrow> True
        | Some c \<Rightarrow> (case attrib ''class'' of None \<Rightarrow> False
            | Some cv \<Rightarrow> list_ex (\<lambda>tok. tok \<noteq> [] \<and> csel_ident_eq c tok) (split_on (CHR '' '') cv)))
     \<and> list_all (\<lambda>am. case attrib (am_name am) of None \<Rightarrow> False | Some av \<Rightarrow> has_attr_op (am_op am) av (am_value am)) (sub_attrs sub)"

fun has_push :: "dom_node list \<Rightarrow> nat \<Rightarrow> (dom_node \<times> nat) list \<Rightarrow> (dom_node \<times> nat) list" where
  "has_push [] d stack = stack"
| "has_push (ch # chs) d stack = (if length stack < HAS_STACK then has_push chs d ((ch, d) # stack) else stack)"

definition stack_size :: "(dom_node \<times> nat) list \<Rightarrow> nat" where
  "stack_size stack = sum_list (map (\<lambda>(n, d). Suc (size n)) stack)"

lemma has_push_size: "stack_size (has_push chs d stack) \<le> sum_list (map (\<lambda>n. Suc (size n)) chs) + stack_size stack"
  by (induction chs d stack rule: has_push.induct) (auto simp: stack_size_def)

function has_walk :: "css_sub_sel list \<Rightarrow> (dom_node \<times> nat) list \<Rightarrow> bool" where
  "has_walk subs [] = False"
| "has_walk subs ((Dom_Other, cd) # stack) = has_walk subs stack"
| "has_walk subs ((Dom_Element name attrib chs, cd) # stack) =
     (if list_ex (has_sub_matches attrib name) subs then True
      else has_walk subs (if cd < HAS_MAX_DEPTH then has_push chs (cd + 1) stack else stack))"
  by pat_completeness auto

lemma sum_size_children: "sum_list (map (\<lambda>n. Suc (size n)) chs) < Suc (size (Dom_Element name attrib chs))"
  by (induction chs) auto

termination has_walk
proof (relation "measure (\<lambda>(subs, stack). stack_size stack)", goal_cases)
  case (3 subs name attrib chs cd stack)
  then show ?case using has_push_size [of chs "cd + 1" stack] sum_size_children [of chs name attrib]
    by (auto simp: stack_size_def)
qed (simp_all add: stack_size_def)

text \<open>The children of the element itself open the stack.\<close>

definition has_matches :: "css_sub_sel list \<Rightarrow> dom_node \<Rightarrow> bool" where
  "has_matches subs root = (case root of Dom_Other \<Rightarrow> False | Dom_Element name attrib chs \<Rightarrow> has_walk subs (has_push chs 1 []))"

subsection \<open>Compounds and combinators\<close>

definition pseudo_matches :: "css_pseudo_match \<Rightarrow> css_view \<Rightarrow> css_sel option \<Rightarrow> cptr \<Rightarrow> bool \<Rightarrow> bool" where
  "pseudo_matches pm el sel target allow =
     (case sel of
        None \<Rightarrow> plain_pseudo_matches pm (pm_kind pm) el target allow
      | Some s \<Rightarrow>
          (case pm_kind pm of
             PSEUDO_NOT \<Rightarrow> if pm_sub_first pm < 0 then False else \<not> list_ex (\<lambda>sub. sub_sel_matches sub el) (pm_subs s pm)
           | PSEUDO_IS \<Rightarrow> if pm_sub_first pm < 0 then False else list_ex (\<lambda>sub. sub_sel_matches sub el) (pm_subs s pm)
           | PSEUDO_WHERE \<Rightarrow> if pm_sub_first pm < 0 then False else list_ex (\<lambda>sub. sub_sel_matches sub el) (pm_subs s pm)
           | PSEUDO_HAS \<Rightarrow> (case el_dom_node el of None \<Rightarrow> False
               | Some root \<Rightarrow> if pm_sub_first pm < 0 then False else has_matches (pm_subs s pm) root)
           | k \<Rightarrow> plain_pseudo_matches pm k el target allow))"

definition is_pseudo_element :: "css_pseudo_kind \<Rightarrow> bool" where
  "is_pseudo_element k \<longleftrightarrow> k = PSEUDO_BEFORE \<or> k = PSEUDO_AFTER \<or> k = PSEUDO_PLACEHOLDER"

fun pseudo_loop :: "css_pseudo_match list \<Rightarrow> css_view \<Rightarrow> css_sel \<Rightarrow> cptr \<Rightarrow> bool \<Rightarrow> css_pseudo_kind option
    \<Rightarrow> css_pseudo_kind option option" where
  "pseudo_loop [] el sel target allow pk = Some pk"
| "pseudo_loop (pm # pms) el sel target allow pk =
     (if \<not> pseudo_matches pm el (Some sel) target allow then None
      else pseudo_loop pms el sel target allow
        (if allow \<and> is_pseudo_element (pm_kind pm) then Some (pm_kind pm) else pk))"

text \<open>\<open>None\<close> is no match; \<open>Some pk\<close> is a match and what \<^verbatim>\<open>*pseudo_kind\<close> receives (\<open>None\<close> for -1).\<close>

definition compound_matches :: "css_compound \<Rightarrow> css_view \<Rightarrow> css_sel \<Rightarrow> cptr \<Rightarrow> bool \<Rightarrow> css_pseudo_kind option option" where
  "compound_matches c el sel target allow =
     (if \<not> tag_slot_matches (cp_tag c) el then None
      else if \<not> id_slot_matches (cp_id c) el then None
      else if \<not> list_all (\<lambda>k. has_class k el) (cp_cls c) then None
      else if \<not> list_all (\<lambda>am. attr_matches am el) (cp_attrs c) then None
      else pseudo_loop (cp_pseudos c) el sel target allow None)"

definition part_rejects :: "css_sel \<Rightarrow> nat \<Rightarrow> css_view \<Rightarrow> bool" where
  "part_rejects sel k el \<longleftrightarrow> el_anc_bloom_valid el \<and> sel_part_req sel ! k AND NOT (el_own_bloom el) \<noteq> 0"

fun complex_matches :: "css_sel \<Rightarrow> nat \<Rightarrow> css_element \<Rightarrow> cptr \<Rightarrow> bool \<Rightarrow> css_pseudo_kind option option" where
  "complex_matches sel 0 el target allow =
     (if part_rejects sel 0 (el_view el) then None
      else compound_matches (sel_parts sel ! 0) (el_view el) sel target allow)"
| "complex_matches sel (Suc k) el target allow =
     (if part_rejects sel (Suc k) (el_view el) then None
      else (case compound_matches (sel_parts sel ! Suc k) (el_view el) sel target allow of
         None \<Rightarrow> None
       | Some pk \<Rightarrow>
           (if (case sel_comb sel ! Suc k of
                  COMB_CHILD \<Rightarrow> (case el_parent el of None \<Rightarrow> False
                    | Some p \<Rightarrow> complex_matches sel k p target allow \<noteq> None)
                | COMB_ADJACENT \<Rightarrow> (case el_prev el of None \<Rightarrow> False
                    | Some q \<Rightarrow> complex_matches sel k q target allow \<noteq> None)
                | COMB_GENERAL \<Rightarrow> list_ex (\<lambda>sib. complex_matches sel k sib target allow \<noteq> None) (el_preceding el)
                | COMB_DESCENDANT \<Rightarrow> list_ex (\<lambda>anc. complex_matches sel k anc target allow \<noteq> None) (el_ancestors el))
            then Some pk else None)))"

definition csel_matches :: "css_sel \<Rightarrow> css_element \<Rightarrow> cptr \<Rightarrow> bool \<Rightarrow> css_pseudo_kind option option" where
  "csel_matches sel el target allow = complex_matches sel (nparts sel - 1) el target allow"

subsection \<open>Which selectors read the structure\<close>

definition pseudo_is_local :: "css_pseudo_kind \<Rightarrow> bool" where
  "pseudo_is_local k \<longleftrightarrow> k \<in> {PSEUDO_LINK, PSEUDO_NEVER, PSEUDO_HOVER, PSEUDO_ROOT, PSEUDO_CHECKED, PSEUDO_DISABLED,
     PSEUDO_ENABLED, PSEUDO_TARGET, PSEUDO_LANG, PSEUDO_BEFORE, PSEUDO_AFTER, PSEUDO_ACTIVE, PSEUDO_FOCUS,
     PSEUDO_FOCUS_WITHIN, PSEUDO_FOCUS_VISIBLE, PSEUDO_PLACEHOLDER}"

definition sub_needs_structure :: "css_sel \<Rightarrow> int \<Rightarrow> bool" where
  "sub_needs_structure sel si =
     (if si < 0 \<or> si \<ge> int (length (sel_subs sel)) then True
      else list_ex (\<lambda>k. \<not> pseudo_is_local k) (sub_pseudos (sel_subs sel ! nat si)))"

definition pseudo_needs_structure :: "css_sel \<Rightarrow> css_pseudo_match \<Rightarrow> bool" where
  "pseudo_needs_structure sel p =
     (if pm_kind p = PSEUDO_NOT \<or> pm_kind p = PSEUDO_IS \<or> pm_kind p = PSEUDO_WHERE
      then list_ex (\<lambda>j. sub_needs_structure sel (pm_sub_first p + int j)) [0..<pm_sub_count p]
      else \<not> pseudo_is_local (pm_kind p))"

definition csel_needs_structure :: "css_sel \<Rightarrow> bool" where
  "csel_needs_structure sel =
     list_ex (\<lambda>i. (i \<ge> 1 \<and> (sel_comb sel ! i = COMB_ADJACENT \<or> sel_comb sel ! i = COMB_GENERAL))
        \<or> list_ex (pseudo_needs_structure sel) (cp_pseudos (sel_parts sel ! i))) [0..<nparts sel]"

section \<open>What a selector means\<close>

subsection \<open>Simple selectors\<close>

abbreviation folded :: "bool \<Rightarrow> string \<Rightarrow> string" where
  "folded ci \<equiv> map (csel_fold_ch ci)"

definition is_word_of :: "string \<Rightarrow> string \<Rightarrow> bool" where
  "is_word_of w v \<longleftrightarrow> w \<noteq> [] \<and> (\<forall>c \<in> set w. \<not> word_space c)
     \<and> (\<exists>a b. v = a @ w @ b \<and> (a = [] \<or> word_space (last a)) \<and> (b = [] \<or> word_space (hd b)))"

definition attr_sat :: "css_attr_match \<Rightarrow> css_view \<Rightarrow> bool" where
  "attr_sat am el \<longleftrightarrow> (\<exists>v. el_attr_value el (am_name am) = Some v \<and>
     (let F = folded (am_ci am); x = am_value am in
      case am_op am of
        ATTR_PRESENT \<Rightarrow> True
      | ATTR_EQ \<Rightarrow> F v = F x
      | ATTR_TILDE \<Rightarrow> \<exists>w. is_word_of w v \<and> F w = F x
      | ATTR_PIPE \<Rightarrow> F v = F x \<or> prefix (F x @ ''-'') (F v)
      | ATTR_CARET \<Rightarrow> x \<noteq> [] \<and> prefix (F x) (F v)
      | ATTR_DOLLAR \<Rightarrow> x \<noteq> [] \<and> suffix (F x) (F v)
      | ATTR_STAR \<Rightarrow> x \<noteq> [] \<and> sublist (F x) (F v)))"

definition nth_sat :: "int \<Rightarrow> int \<Rightarrow> int \<Rightarrow> bool" where
  "nth_sat A B i \<longleftrightarrow> i > 0 \<and> (\<exists>m \<ge> 0. i = A * m + B)"

definition sub_sat :: "css_sub_sel \<Rightarrow> css_view \<Rightarrow> bool" where
  "sub_sat sub el \<longleftrightarrow>
     tag_slot_matches (sub_tag sub) el \<and> id_slot_matches (sub_id sub) el
     \<and> (\<forall>c. sub_cls sub = Some c \<longrightarrow> has_class c el)
     \<and> (\<forall>am \<in> set (sub_attrs sub). attr_sat am el)
     \<and> (\<forall>k \<in> set (sub_pseudos sub). plain_pseudo_matches (bare_pseudo k) k el None False)"

definition pseudo_sat :: "css_sel \<Rightarrow> css_pseudo_match \<Rightarrow> css_view \<Rightarrow> cptr \<Rightarrow> bool \<Rightarrow> bool" where
  "pseudo_sat sel pm el target allow =
     (case pm_kind pm of
        PSEUDO_NTH_CHILD \<Rightarrow> nth_sat (pm_a pm) (pm_b pm) (el_nth el)
      | PSEUDO_NTH_OF_TYPE \<Rightarrow> nth_sat (pm_a pm) (pm_b pm) (el_nth_of_type el)
      | PSEUDO_NOT \<Rightarrow> pm_sub_first pm \<ge> 0 \<and> (\<forall>sub \<in> set (pm_subs sel pm). \<not> sub_sat sub el)
      | PSEUDO_IS \<Rightarrow> pm_sub_first pm \<ge> 0 \<and> (\<exists>sub \<in> set (pm_subs sel pm). sub_sat sub el)
      | PSEUDO_WHERE \<Rightarrow> pm_sub_first pm \<ge> 0 \<and> (\<exists>sub \<in> set (pm_subs sel pm). sub_sat sub el)
      | PSEUDO_HAS \<Rightarrow> pm_sub_first pm \<ge> 0 \<and> (\<exists>root. el_dom_node el = Some root \<and> has_matches (pm_subs sel pm) root)
      | k \<Rightarrow> plain_pseudo_matches pm k el target allow)"

definition compound_sat :: "css_sel \<Rightarrow> cptr \<Rightarrow> bool \<Rightarrow> css_compound \<Rightarrow> css_view \<Rightarrow> bool" where
  "compound_sat sel target allow c el \<longleftrightarrow>
     tag_slot_matches (cp_tag c) el \<and> id_slot_matches (cp_id c) el
     \<and> (\<forall>k \<in> set (cp_cls c). has_class k el)
     \<and> (\<forall>am \<in> set (cp_attrs c). attr_sat am el)
     \<and> (\<forall>pm \<in> set (cp_pseudos c). pseudo_sat sel pm el target allow)"

subsection \<open>Combinators\<close>

definition parent_of :: "css_element \<Rightarrow> css_element \<Rightarrow> bool" where
  "parent_of e p \<longleftrightarrow> el_parent e = Some p"

definition sibling_before :: "css_element \<Rightarrow> css_element \<Rightarrow> bool" where
  "sibling_before e q \<longleftrightarrow> el_prev e = Some q"

definition comb_rel :: "css_comb \<Rightarrow> css_element \<Rightarrow> css_element \<Rightarrow> bool" where
  "comb_rel c = (case c of COMB_CHILD \<Rightarrow> parent_of | COMB_DESCENDANT \<Rightarrow> parent_of\<^sup>+\<^sup>+
     | COMB_ADJACENT \<Rightarrow> sibling_before | COMB_GENERAL \<Rightarrow> sibling_before\<^sup>+\<^sup>+)"

inductive selects :: "css_sel \<Rightarrow> cptr \<Rightarrow> bool \<Rightarrow> nat \<Rightarrow> css_element \<Rightarrow> bool" for sel target allow where
  selects_first: "compound_sat sel target allow (sel_parts sel ! 0) (el_view e) \<Longrightarrow> selects sel target allow 0 e"
| selects_next: "compound_sat sel target allow (sel_parts sel ! Suc k) (el_view e) \<Longrightarrow>
    comb_rel (sel_comb sel ! Suc k) e e' \<Longrightarrow> selects sel target allow k e' \<Longrightarrow> selects sel target allow (Suc k) e"

inductive_simps selects_0: "selects sel target allow 0 e"
inductive_simps selects_Suc: "selects sel target allow (Suc k) e"

definition reported_pseudo :: "bool \<Rightarrow> css_compound \<Rightarrow> css_pseudo_kind option" where
  "reported_pseudo allow c =
     (let ks = filter is_pseudo_element (map pm_kind (cp_pseudos c)) in if allow \<and> ks \<noteq> [] then Some (last ks) else None)"

subsection \<open>Well-formed selectors and views\<close>

definition stored_ok :: "string \<Rightarrow> bool" where
  "stored_ok s \<longleftrightarrow> length s < CSS_TOK_MAX"

definition compound_wf :: "css_compound \<Rightarrow> bool" where
  "compound_wf c \<longleftrightarrow> pred_option (\<lambda>t. stored_ok t \<and> lower_str t = t) (cp_tag c) \<and> pred_option stored_ok (cp_id c)
     \<and> list_all stored_ok (cp_cls c)"

definition sel_wf :: "css_sel \<Rightarrow> bool" where
  "sel_wf sel \<longleftrightarrow> 1 \<le> nparts sel \<and> nparts sel \<le> CSS_MAX_COMPOUNDS \<and> length (sel_comb sel) = nparts sel
     \<and> list_all compound_wf (sel_parts sel) \<and> with_requirements sel = sel"

definition anc_bits :: "css_element \<Rightarrow> 64 word" where
  "anc_bits e = foldr (\<lambda>a b. csel_element_feature_bits (el_view a) OR b) (el_ancestors e) 0"

definition bloom_right :: "css_element \<Rightarrow> bool" where
  "bloom_right e \<longleftrightarrow> pred_option (\<lambda>t. lower_str t = t) (el_tag (el_view e))
     \<and> (el_anc_bloom_valid (el_view e) \<longrightarrow>
          el_own_bloom (el_view e) = csel_element_feature_bits (el_view e) \<and> el_anc_bloom (el_view e) = anc_bits e)"

fun views_ok :: "css_element \<Rightarrow> bool" where
  "views_ok (Element d p q) = (bloom_right (Element d p q)
     \<and> (case p of None \<Rightarrow> True | Some e \<Rightarrow> views_ok e) \<and> (case q of None \<Rightarrow> True | Some e \<Rightarrow> views_ok e))"

section \<open>Simple selectors mean what they say\<close>

lemma csel_ci_eq_iff: "csel_ci_eq s t \<longleftrightarrow> lower_str s = lower_str t"
  by (induction s t rule: csel_ci_eq.induct) auto

lemma csel_span_eq_iff:
  "n \<le> length a \<Longrightarrow> n \<le> length b \<Longrightarrow> csel_span_eq a b n ci \<longleftrightarrow> folded ci (take n a) = folded ci (take n b)"
  by (auto simp: csel_span_eq_def list_all_iff list_eq_iff_nth_eq)

lemma fold_ch_dash [simp]: "csel_fold_ch ci c = CHR ''-'' \<longleftrightarrow> c = CHR ''-''"
  by (simp add: csel_fold_ch_def)

lemma is_word_of_space: "word_space c \<Longrightarrow> is_word_of w (c # v) \<longleftrightarrow> is_word_of w v"
proof
  assume c: "word_space c" and "is_word_of w (c # v)"
  then obtain a b where w: "w \<noteq> []" "\<forall>x \<in> set w. \<not> word_space x" and ab: "c # v = a @ w @ b"
      "a = [] \<or> word_space (last a)" "b = [] \<or> word_space (hd b)" unfolding is_word_of_def by blast
  obtain a' where a: "a = c # a'" using ab(1) w c by (cases a) (auto simp: Cons_eq_append_conv)
  then have "v = a' @ w @ b" "a' = [] \<or> word_space (last a')" using ab by (auto split: if_splits)
  then show "is_word_of w v" unfolding is_word_of_def using w ab(3) by blast
next
  assume c: "word_space c" and "is_word_of w v"
  then obtain a b where w: "w \<noteq> []" "\<forall>x \<in> set w. \<not> word_space x" and ab: "v = a @ w @ b"
      "a = [] \<or> word_space (last a)" "b = [] \<or> word_space (hd b)" unfolding is_word_of_def by blast
  then have "c # v = (c # a) @ w @ b" "word_space (last (c # a))" using c by auto
  then show "is_word_of w (c # v)" unfolding is_word_of_def using w ab(3) by blast
qed

lemma is_word_of_skip: "is_word_of w (dropWhile word_space v) \<longleftrightarrow> is_word_of w v"
  by (induction v) (auto simp: is_word_of_space)

lemma is_word_of_first:
  assumes "v \<noteq> []" and "\<not> word_space (hd v)"
  shows "is_word_of w v \<longleftrightarrow> w = takeWhile (\<lambda>c. \<not> word_space c) v \<or> is_word_of w (dropWhile (\<lambda>c. \<not> word_space c) v)"
proof -
  define x r where "x = takeWhile (\<lambda>c. \<not> word_space c) v" and "r = dropWhile (\<lambda>c. \<not> word_space c) v"
  have v: "v = x @ r" by (simp add: x_def r_def)
  have x: "x \<noteq> []" "\<forall>c \<in> set x. \<not> word_space c" using assms by (cases v; auto simp: x_def dest: set_takeWhileD)+
  have r: "r = [] \<or> word_space (hd r)" unfolding r_def by (metis hd_dropWhile)
  have "is_word_of x v" unfolding is_word_of_def using v x r by (metis append_Nil)
  moreover have "is_word_of w v" if wr: "is_word_of w r"
  proof -
    obtain a b where w: "w \<noteq> []" "\<forall>c \<in> set w. \<not> word_space c" and ab: "r = a @ w @ b"
        "a = [] \<or> word_space (last a)" "b = [] \<or> word_space (hd b)" using wr unfolding is_word_of_def by blast
    have "a \<noteq> []" using r ab(1) w by (cases w) auto
    then have "v = (x @ a) @ w @ b" "word_space (last (x @ a))" using v ab by auto
    then show ?thesis unfolding is_word_of_def using w ab(3) by blast
  qed
  moreover have "w = x \<or> is_word_of w r" if wv: "is_word_of w v"
  proof -
    obtain a b where w: "w \<noteq> []" "\<forall>c \<in> set w. \<not> word_space c" and ab: "v = a @ w @ b"
        "a = [] \<or> word_space (last a)" "b = [] \<or> word_space (hd b)" using wv unfolding is_word_of_def by blast
    show ?thesis
    proof (cases "a = []")
      case True
      then have "x = w @ takeWhile (\<lambda>c. \<not> word_space c) b" unfolding x_def ab(1) using w(2) by (simp add: takeWhile_append2)
      then show ?thesis using ab(3) by (cases b) auto
    next
      case False
      then obtain a1 s where a: "a = a1 @ [s]" "word_space s" using ab(2) by (metis append_butlast_last_id)
      then have "x = takeWhile (\<lambda>c. \<not> word_space c) a" unfolding x_def ab(1) by (simp add: takeWhile_append)
      then have r': "r = dropWhile (\<lambda>c. \<not> word_space c) a @ w @ b"
        unfolding r_def ab(1) using a by (simp add: dropWhile_append)
      have "dropWhile (\<lambda>c. \<not> word_space c) a \<noteq> []" using a by (auto simp: dropWhile_eq_Nil_conv)
      then have "word_space (last (dropWhile (\<lambda>c. \<not> word_space c) a))" using a
        by (metis append_is_Nil_conv last_appendR last_snoc takeWhile_dropWhile_id)
      then show ?thesis unfolding is_word_of_def using w ab(3) r' by blast
    qed
  qed
  ultimately show ?thesis unfolding x_def r_def by blast
qed

lemma word_scan_iff: "w \<noteq> [] \<Longrightarrow> word_scan v w ci \<longleftrightarrow> (\<exists>x. is_word_of x v \<and> folded ci x = folded ci w)"
proof (induction v w ci rule: word_scan.induct)
  case (1 v w ci)
  define st where "st = dropWhile word_space v"
  define x where "x = takeWhile (\<lambda>c. \<not> word_space c) st"
  define r where "r = dropWhile (\<lambda>c. \<not> word_space c) st"
  have none: "\<not> is_word_of y []" for y unfolding is_word_of_def by (metis append_is_Nil_conv)
  have eq: "length x = length w \<and> csel_span_eq x w (length w) ci \<longleftrightarrow> folded ci x = folded ci w"
    using csel_span_eq_iff [of "length w" x w ci] by (metis le_refl length_map take_all)
  have step: "word_scan v w ci \<longleftrightarrow> v \<noteq> [] \<and> (folded ci x = folded ci w \<or> word_scan r w ci)"
    unfolding word_scan.simps [of v] Let_def st_def [symmetric] x_def [symmetric] r_def [symmetric] eq by simp
  show ?case
  proof (cases "st = []")
    case True
    then have "r = []" "x = []" by (simp_all add: r_def x_def)
    moreover have "\<not> is_word_of y v" for y using is_word_of_skip [of y v] True none unfolding st_def by metis
    ultimately show ?thesis using step "1.prems" by (simp add: word_scan.simps [of "[]"])
  next
    case False
    then have v: "v \<noteq> []" and hd: "\<not> word_space (hd st)" using hd_dropWhile [of word_space v] by (auto simp: st_def)
    have IH: "folded ci x \<noteq> folded ci w \<Longrightarrow> word_scan r w ci \<longleftrightarrow> (\<exists>y. is_word_of y r \<and> folded ci y = folded ci w)"
      using "1.IH" [OF v refl refl] "1.prems" eq unfolding st_def x_def r_def by blast
    have "is_word_of y v \<longleftrightarrow> y = x \<or> is_word_of y r" for y
      using is_word_of_first [OF False hd] is_word_of_skip [of y v] unfolding x_def r_def st_def by blast
    then show ?thesis using step v IH by metis
  qed
qed

lemma has_word_iff: "has_word v w ci \<longleftrightarrow> (\<exists>x. is_word_of x v \<and> folded ci x = folded ci w)"
  using word_scan_iff [of w v ci] by (auto simp: has_word_def is_word_of_def)

lemma span_prefix: "csel_span_eq v x (length x) ci \<and> length x \<le> length v \<longleftrightarrow> prefix (folded ci x) (folded ci v)"
proof (cases "length x \<le> length v")
  case True
  then show ?thesis using csel_span_eq_iff [of "length x" v x ci] by (simp add: prefix_def take_map [symmetric])
      (metis append_take_drop_id append_eq_conv_conj length_map)
next
  case False
  then show ?thesis using prefix_length_le [of "folded ci x" "folded ci v"] by auto
qed

lemma ends_with_iff: "attr_ends_with v x ci \<longleftrightarrow> x \<noteq> [] \<and> suffix (folded ci x) (folded ci v)"
proof (cases "length x \<le> length v")
  case True
  have "csel_span_eq (drop (length v - length x) v) x (length x) ci
      \<longleftrightarrow> drop (length v - length x) (folded ci v) = folded ci x"
    using csel_span_eq_iff [of "length x" "drop (length v - length x) v" x ci] True by (simp add: drop_map)
  also have "\<dots> \<longleftrightarrow> suffix (folded ci x) (folded ci v)"
    using True suffix_drop [of _ "folded ci v"] by (metis length_map suffix_def suffix_length_le append_eq_conv_conj length_append add_diff_cancel_right' suffix_drop)
  finally show ?thesis using True by (simp add: attr_ends_with_def Let_def)
next
  case False
  then show ?thesis using suffix_length_le [of "folded ci x" "folded ci v"] by (auto simp: attr_ends_with_def Let_def)
qed

lemma csel_substr_iff: "csel_substr v x ci \<longleftrightarrow> x \<noteq> [] \<and> sublist (folded ci x) (folded ci v)"
proof (cases "x \<noteq> [] \<and> length x \<le> length v")
  case True
  have "list_ex (\<lambda>off. csel_span_eq (drop off v) x (length x) ci) [0..<length v - length x + 1]
      \<longleftrightarrow> (\<exists>off. off + length x \<le> length v \<and> prefix (folded ci x) (drop off (folded ci v)))"
  proof -
    have "csel_span_eq (drop off v) x (length x) ci \<longleftrightarrow> prefix (folded ci x) (drop off (folded ci v))"
      if "off + length x \<le> length v" for off
      using span_prefix [of "drop off v" x ci] that by (simp add: drop_map le_diff_conv2 add.commute)
    moreover have "off < length v - length x + 1 \<longleftrightarrow> off + length x \<le> length v" for off using True by auto
    ultimately show ?thesis unfolding list_ex_iff set_upt Bex_def atLeastLessThan_iff by (metis le0)
  qed
  also have "\<dots> \<longleftrightarrow> sublist (folded ci x) (folded ci v)"
  proof
    assume "sublist (folded ci x) (folded ci v)"
    then obtain a b where "folded ci v = a @ folded ci x @ b" unfolding sublist_def by blast
    then have "length v = length a + length x + length b" "prefix (folded ci x) (drop (length a) (folded ci v))"
      by (metis add.assoc length_append length_map, simp)
    then show "\<exists>off. off + length x \<le> length v \<and> prefix (folded ci x) (drop off (folded ci v))" by (metis le_add1)
  next
    assume "\<exists>off. off + length x \<le> length v \<and> prefix (folded ci x) (drop off (folded ci v))"
    then show "sublist (folded ci x) (folded ci v)"
      by (meson prefix_imp_sublist sublist_drop sublist_order.order.trans)
  qed
  finally show ?thesis using True by (simp add: csel_substr_def Let_def)
next
  case False
  then show ?thesis using sublist_length_le [of "folded ci x" "folded ci v"] by (auto simp: csel_substr_def Let_def)
qed

lemma pipe_iff:
  "(length v > length x \<and> csel_span_eq v x (length x) ci \<and> v ! length x = CHR ''-'')
    \<longleftrightarrow> prefix (folded ci x @ ''-'') (folded ci v)"
proof
  assume a: "length v > length x \<and> csel_span_eq v x (length x) ci \<and> v ! length x = CHR ''-''"
  then have "prefix (folded ci x) (folded ci v)" using span_prefix [of v x ci] by simp
  then obtain r where r: "folded ci v = folded ci x @ r" by (auto simp: prefix_def)
  have "folded ci v ! length x = CHR ''-''" using a by simp
  then have "r \<noteq> [] \<and> hd r = CHR ''-''" using r a
    by (metis append_Nil2 hd_conv_nth length_map less_irrefl nth_append_length_plus add.right_neutral)
  then show "prefix (folded ci x @ ''-'') (folded ci v)" using r by (cases r) auto
next
  assume "prefix (folded ci x @ ''-'') (folded ci v)"
  then obtain r where r: "folded ci v = folded ci x @ CHR ''-'' # r" by (auto simp: prefix_def)
  then have l: "length v > length x"
    by (metis length_append length_map length_Cons less_add_same_cancel1 zero_less_Suc)
  have "folded ci v ! length x = CHR ''-''" using r by (metis length_map nth_append_length)
  then have "v ! length x = CHR ''-''" using l by simp
  moreover have "prefix (folded ci x) (folded ci v)" using r by simp
  ultimately show "length v > length x \<and> csel_span_eq v x (length x) ci \<and> v ! length x = CHR ''-''"
    using l span_prefix [of v x ci] by simp
qed

lemma attr_matches_iff: "attr_matches am el \<longleftrightarrow> attr_sat am el"
proof (cases "el_attr_value el (am_name am)")
  case (Some v)
  have eq: "length v = length x \<and> csel_span_eq v x (length x) ci \<longleftrightarrow> folded ci v = folded ci x" for x ci
    using csel_span_eq_iff [of "length x" v x ci] by (metis le_refl length_map take_all)
  show ?thesis
    using span_prefix [of v "am_value am" "am_ci am"]
    by (cases "am_op am")
      (auto simp: attr_matches_def attr_sat_def Some Let_def eq has_word_iff ends_with_iff csel_substr_iff pipe_iff)
qed (simp add: attr_matches_def attr_sat_def)

lemma nth_matches_iff: "nth_matches A B i \<longleftrightarrow> nth_sat A B i"
proof (cases "i \<le> 0 \<or> A = 0")
  case False
  have p: "d \<ge> 0 \<and> d mod c = 0 \<longleftrightarrow> (\<exists>m \<ge> 0. d = c * m)" if "c > 0" for c d :: int
    using that by (auto simp: zero_le_mult_iff)
  show ?thesis
  proof (cases "A > 0")
    case True
    then show ?thesis using p [OF True, of "i - B"] False
      by (simp add: nth_matches_def nth_sat_def Let_def) (metis add_diff_cancel_right' diff_add_cancel)
  next
    case neg: False
    then have "0 < - A" using False by linarith
    then have "- (i - B) \<ge> 0 \<and> - (i - B) mod - A = 0 \<longleftrightarrow> (\<exists>m \<ge> 0. - (i - B) = - A * m)" by (rule p)
    also have "\<dots> \<longleftrightarrow> (\<exists>m \<ge> 0. i = A * m + B)" by (auto simp: algebra_simps)
    finally show ?thesis using neg False by (simp add: nth_matches_def nth_sat_def Let_def mod_eq_0_iff_dvd dvd_diff_commute)
  qed
qed (auto simp: nth_matches_def nth_sat_def intro: exI [of _ 0])

lemma sub_sel_matches_iff: "sub_sel_matches sub el \<longleftrightarrow> sub_sat sub el"
  by (auto simp: sub_sel_matches_def sub_sat_def list_all_iff attr_matches_iff split: option.splits)

lemma pseudo_matches_iff: "pseudo_matches pm el (Some sel) target allow \<longleftrightarrow> pseudo_sat sel pm el target allow"
  by (cases "pm_kind pm")
    (auto simp: pseudo_matches_def pseudo_sat_def nth_matches_iff sub_sel_matches_iff list_ex_iff nth_sat_def split: option.splits)

text \<open>\<^verbatim>\<open>sub_sel_matches\<close> asks \<^verbatim>\<open>pseudo_matches\<close> without a selector.\<close>

lemma sub_sel_matches_pseudos:
  "sub_sel_matches sub el \<longleftrightarrow> sub_sel_matches (sub\<lparr>sub_pseudos := []\<rparr>) el
     \<and> (\<forall>k \<in> set (sub_pseudos sub). pseudo_matches (bare_pseudo k) el None None False)"
  by (auto simp: sub_sel_matches_def pseudo_matches_def bare_pseudo_def list_all_iff)

lemma pseudo_loop_result:
  "pseudo_loop pms el sel target allow pk =
     (if \<forall>pm \<in> set pms. pseudo_sat sel pm el target allow
      then Some (let ks = filter is_pseudo_element (map pm_kind pms) in if allow \<and> ks \<noteq> [] then Some (last ks) else pk)
      else None)"
  by (induction pms el sel target allow pk rule: pseudo_loop.induct) (auto simp: pseudo_matches_iff Let_def)

lemma compound_matches_result:
  "compound_matches c el sel target allow =
     (if compound_sat sel target allow c el then Some (reported_pseudo allow c) else None)"
  by (auto simp: compound_matches_def compound_sat_def list_all_iff attr_matches_iff pseudo_loop_result reported_pseudo_def)

section \<open>Feature bits never exclude a match\<close>

definition sub_bits :: "64 word \<Rightarrow> 64 word \<Rightarrow> bool" where
  "sub_bits a b \<longleftrightarrow> a AND NOT b = 0"

lemma sub_bits_iff: "sub_bits a b \<longleftrightarrow> (\<forall>n. bit a n \<longrightarrow> bit b n)"
  unfolding sub_bits_def using bit_imp_le_length [of a] by (auto simp: bit_eq_iff bit_simps)

lemma sub_bits_zero [simp]: "sub_bits 0 b"
  by (simp add: sub_bits_def)

lemma sub_bits_or [simp]: "sub_bits (a OR b) c \<longleftrightarrow> sub_bits a c \<and> sub_bits b c"
  by (auto simp: sub_bits_iff bit_simps)

lemma sub_bits_trans: "sub_bits a b \<Longrightarrow> sub_bits b c \<Longrightarrow> sub_bits a c"
  by (simp add: sub_bits_iff)

lemma sub_bits_orI: "sub_bits a b \<or> sub_bits a c \<Longrightarrow> sub_bits a (b OR c)"
  by (auto simp: sub_bits_iff bit_simps)

lemma sub_bits_foldl: "sub_bits (foldl (\<lambda>b k. b OR f k) z ks) c \<longleftrightarrow> sub_bits z c \<and> (\<forall>k \<in> set ks. sub_bits (f k) c)"
  by (induction ks arbitrary: z) auto

lemma foldl_sub_bits: "sub_bits a z \<or> (\<exists>k \<in> set ks. sub_bits a (f k)) \<Longrightarrow> sub_bits a (foldl (\<lambda>b k. b OR f k) z ks)"
  by (induction ks arbitrary: z) (auto intro: sub_bits_orI)

lemma sub_bits_foldr: "x \<in> set xs \<Longrightarrow> sub_bits (f x) (foldr (\<lambda>a b. f a OR b) xs z)"
  by (induction xs) (auto simp: sub_bits_iff bit_simps)

text \<open>A stored name and a token that \<^verbatim>\<open>csel_ident_eq\<close> takes for the same have the same bits.\<close>

lemma c_read_fold_nonempty: "csel_ident_eq s t \<Longrightarrow> s \<noteq> [] \<Longrightarrow> t \<noteq> []"
  by (auto simp: csel_ident_eq_def CSS_TOK_MAX_def split: if_splits)

lemma feat_bits_eq: "csel_ident_eq s t \<Longrightarrow> stored_ok s \<Longrightarrow> feat_bits k s = feat_bits k t"
  by (auto simp: csel_ident_eq_def feat_bits_def stored_ok_def Let_def split: if_splits)

lemma slot_bits_eq: "csel_ident_eq s t \<Longrightarrow> stored_ok s \<Longrightarrow> s = [] \<or> slot_bits k (Some s) = slot_bits k (Some t)"
  using c_read_fold_nonempty feat_bits_eq by (auto simp: slot_bits_def)

lemma compound_req_sub:
  assumes "compound_sat sel target allow c v" and "compound_wf c" and "pred_option (\<lambda>t. lower_str t = t) (el_tag v)"
  shows "sub_bits (compound_req c) (csel_element_feature_bits v)"
proof -
  let ?E = "csel_element_feature_bits v"
  have emb: "sub_bits (slot_bits FEAT_TAG (el_tag v)) ?E" "sub_bits (slot_bits FEAT_ID (el_id v)) ?E"
    "\<And>k. k \<in> set (el_classes v) \<Longrightarrow> sub_bits (slot_bits FEAT_CLASS k) ?E"
    unfolding csel_element_feature_bits_def by (rule foldl_sub_bits; auto simp: sub_bits_iff bit_simps)+
  have "sub_bits (slot_bits FEAT_TAG (cp_tag c)) ?E"
  proof (cases "cp_tag c")
    case (Some t)
    then obtain n where "el_tag v = Some n" "csel_ci_eq t n" using assms(1)
      by (auto simp: compound_sat_def tag_slot_matches_def split: option.splits)
    moreover have "n = t" using calculation assms(2,3) Some by (simp add: csel_ci_eq_iff compound_wf_def)
    ultimately show ?thesis using emb(1) Some by simp
  qed (simp add: slot_bits_def)
  moreover have "sub_bits (slot_bits FEAT_ID (cp_id c)) ?E"
  proof (cases "cp_id c")
    case (Some i)
    then obtain n where "el_id v = Some n" "csel_ident_eq i n" "stored_ok i" using assms(1,2)
      by (auto simp: compound_sat_def id_slot_matches_def compound_wf_def split: option.splits)
    then show ?thesis using emb(2) Some slot_bits_eq [of i n FEAT_ID] by (auto simp: slot_bits_def)
  qed (simp add: slot_bits_def)
  moreover have "sub_bits (slot_bits FEAT_CLASS (Some k)) ?E" if k: "k \<in> set (cp_cls c)" for k
  proof -
    obtain n where "Some n \<in> set (el_classes v)" "csel_ident_eq k n" "stored_ok k" using assms(1,2) k
      by (fastforce simp: compound_sat_def has_class_def list_ex_iff compound_wf_def list_all_iff split: option.splits)
    then show ?thesis using emb(3) [of "Some n"] slot_bits_eq [of k n FEAT_CLASS] by (auto simp: slot_bits_def)
  qed
  ultimately show ?thesis by (simp add: compound_req_def sub_bits_foldl)
qed

section \<open>Walking the combinators\<close>

lemma el_ancestors_Some: "el_parent e = Some p \<Longrightarrow> el_ancestors e = p # el_ancestors p"
  by (cases e) auto

lemma el_ancestors_None: "el_parent e = None \<Longrightarrow> el_ancestors e = []"
  by (cases e) auto

lemma el_preceding_Some: "el_prev e = Some p \<Longrightarrow> el_preceding e = p # el_preceding p"
  by (cases e) auto

lemma el_preceding_None: "el_prev e = None \<Longrightarrow> el_preceding e = []"
  by (cases e) auto

lemma set_el_ancestors: "set (el_ancestors e) = {a. parent_of\<^sup>+\<^sup>+ e a}"
proof (induction e rule: el_ancestors.induct)
  case (2 d p q)
  have "parent_of\<^sup>+\<^sup>+ (Element d (Some p) q) a \<longleftrightarrow> a = p \<or> parent_of\<^sup>+\<^sup>+ p a" for a
    by (auto simp: parent_of_def elim: converse_tranclpE intro: tranclp.r_into_trancl tranclp_into_tranclp2)
  then show ?case using 2 by auto
next
  case (1 d q)
  have "\<not> parent_of\<^sup>+\<^sup>+ (Element d None q) a" for a by (auto simp: parent_of_def dest: tranclpD)
  then show ?case by simp
qed

lemma set_el_preceding: "set (el_preceding e) = {a. sibling_before\<^sup>+\<^sup>+ e a}"
proof (induction e rule: el_preceding.induct)
  case (2 d p q)
  have "sibling_before\<^sup>+\<^sup>+ (Element d p (Some q)) a \<longleftrightarrow> a = q \<or> sibling_before\<^sup>+\<^sup>+ q a" for a
    by (auto simp: sibling_before_def elim: converse_tranclpE intro: tranclp.r_into_trancl tranclp_into_tranclp2)
  then show ?case using 2 by auto
next
  case (1 d q)
  have "\<not> sibling_before\<^sup>+\<^sup>+ (Element d q None) a" for a by (auto simp: sibling_before_def dest: tranclpD)
  then show ?case by simp
qed

lemma comb_walk:
  "(case c of COMB_CHILD \<Rightarrow> (case el_parent e of None \<Rightarrow> False | Some p \<Rightarrow> P p)
     | COMB_ADJACENT \<Rightarrow> (case el_prev e of None \<Rightarrow> False | Some q \<Rightarrow> P q)
     | COMB_GENERAL \<Rightarrow> list_ex P (el_preceding e) | COMB_DESCENDANT \<Rightarrow> list_ex P (el_ancestors e))
   \<longleftrightarrow> (\<exists>e'. comb_rel c e e' \<and> P e')"
  by (cases c) (auto simp: comb_rel_def list_ex_iff set_el_preceding set_el_ancestors parent_of_def sibling_before_def
      split: option.splits)

text \<open>What holds at every linked element holds wherever a combinator leads.\<close>

lemma views_ok_here: "views_ok e \<Longrightarrow> bloom_right e"
  by (cases e) simp

lemma views_ok_parent: "views_ok e \<Longrightarrow> parent_of e p \<Longrightarrow> views_ok p"
  by (cases e) (auto simp: parent_of_def)

lemma views_ok_prev: "views_ok e \<Longrightarrow> sibling_before e p \<Longrightarrow> views_ok p"
  by (cases e) (auto simp: sibling_before_def)

lemma views_ok_comb: "views_ok e \<Longrightarrow> comb_rel c e e' \<Longrightarrow> views_ok e'"
proof -
  have a: "views_ok e'" if "parent_of\<^sup>+\<^sup>+ e e'" "views_ok e"
    using that by (induction rule: tranclp_induct) (auto intro: views_ok_parent)
  have b: "views_ok e'" if "sibling_before\<^sup>+\<^sup>+ e e'" "views_ok e"
    using that by (induction rule: tranclp_induct) (auto intro: views_ok_prev)
  assume "views_ok e" "comb_rel c e e'"
  then show ?thesis using a b by (cases c) (auto simp: comb_rel_def intro: views_ok_parent views_ok_prev)
qed

lemma sel_wf_part:
  assumes "sel_wf sel" and "k < nparts sel"
  shows "sel_part_req sel ! k = compound_req (sel_parts sel ! k)" and "compound_wf (sel_parts sel ! k)"
proof -
  have "sel_part_req sel = map compound_req (sel_parts sel)" using assms(1)
    unfolding sel_wf_def with_requirements_def by (metis css_sel.select_convs(6) css_sel.surjective css_sel.update_convs(4,5,6))
  then show "sel_part_req sel ! k = compound_req (sel_parts sel ! k)" using assms(2) by simp
  show "compound_wf (sel_parts sel ! k)" using assms by (auto simp: sel_wf_def list_all_length)
qed

lemma part_rejects_sound:
  assumes "sel_wf sel" and "k < nparts sel" and "views_ok e" and "compound_sat sel target allow (sel_parts sel ! k) (el_view e)"
  shows "\<not> part_rejects sel k (el_view e)"
  using compound_req_sub [OF assms(4) sel_wf_part(2) [OF assms(1,2)]] views_ok_here [OF assms(3)] sel_wf_part(1) [OF assms(1,2)]
  by (auto simp: part_rejects_def bloom_right_def sub_bits_def)

lemma complex_matches_selects:
  "sel_wf sel \<Longrightarrow> k < nparts sel \<Longrightarrow> views_ok e \<Longrightarrow>
   complex_matches sel k e target allow =
     (if selects sel target allow k e then Some (reported_pseudo allow (sel_parts sel ! k)) else None)"
proof (induction k arbitrary: e)
  case 0
  then show ?case using part_rejects_sound [OF 0(1,2,3)] by (auto simp: selects_0 compound_matches_result)
next
  case (Suc k)
  have IH: "complex_matches sel k e' target allow \<noteq> None \<longleftrightarrow> selects sel target allow k e'"
    if "comb_rel (sel_comb sel ! Suc k) e e'" for e'
    using Suc.IH [of e'] Suc.prems views_ok_comb [OF _ that] by simp
  have "(\<exists>e'. comb_rel (sel_comb sel ! Suc k) e e' \<and> complex_matches sel k e' target allow \<noteq> None)
      \<longleftrightarrow> (\<exists>e'. comb_rel (sel_comb sel ! Suc k) e e' \<and> selects sel target allow k e')" using IH by blast
  then show ?case using part_rejects_sound [OF Suc.prems]
    unfolding complex_matches.simps comb_walk selects_Suc by (auto simp: compound_matches_result)
qed

text \<open>What the ancestors must carry.\<close>

lemma anc_bits_parent:
  "el_parent e = Some p \<Longrightarrow> anc_bits e = csel_element_feature_bits (el_view p) OR anc_bits p"
  by (simp add: anc_bits_def el_ancestors_Some)

lemma anc_bits_member: "parent_of\<^sup>+\<^sup>+ e a \<Longrightarrow> sub_bits (csel_element_feature_bits (el_view a)) (anc_bits e)"
  unfolding anc_bits_def by (rule sub_bits_foldr) (simp add: set_el_ancestors)

lemma anc_bits_mono: "parent_of\<^sup>+\<^sup>+ e a \<Longrightarrow> sub_bits (anc_bits a) (anc_bits e)"
  by (induction rule: tranclp_induct)
    (auto simp: parent_of_def anc_bits_parent sub_bits_iff bit_simps)

lemma anc_req_sub:
  "sel_wf sel \<Longrightarrow> k < nparts sel \<Longrightarrow> views_ok e \<Longrightarrow> selects sel target allow k e \<Longrightarrow> sub_bits (anc_req_from sel k) (anc_bits e)"
proof (induction k arbitrary: e)
  case (Suc k)
  obtain e' where e': "comb_rel (sel_comb sel ! Suc k) e e'" "selects sel target allow k e'"
    using Suc.prems(4) by (auto simp: selects_Suc)
  have v: "views_ok e'" using views_ok_comb [OF Suc.prems(3) e'(1)] .
  show ?case
  proof (cases "sel_comb sel ! Suc k = COMB_DESCENDANT \<or> sel_comb sel ! Suc k = COMB_CHILD")
    case True
    then have up: "parent_of\<^sup>+\<^sup>+ e e'" using e'(1) by (auto simp: comb_rel_def)
    have "compound_sat sel target allow (sel_parts sel ! k) (el_view e')" using e'(2) by (cases k) (auto simp: selects_0 selects_Suc)
    then have "sub_bits (compound_req (sel_parts sel ! k)) (csel_element_feature_bits (el_view e'))"
      using compound_req_sub sel_wf_part(2) [OF Suc.prems(1)] Suc.prems(2) views_ok_here [OF v] by (metis Suc_lessD bloom_right_def)
    then have "sub_bits (compound_req (sel_parts sel ! k)) (anc_bits e)" using anc_bits_member [OF up] sub_bits_trans by blast
    moreover have "sub_bits (anc_req_from sel k) (anc_bits e)"
      using Suc.IH [OF Suc.prems(1) _ v e'(2)] Suc.prems(2) anc_bits_mono [OF up] sub_bits_trans by (metis Suc_lessD)
    ultimately show ?thesis by simp
  qed simp
qed simp

lemma sel_wf_reqs:
  assumes "sel_wf sel"
  shows "sel_anc_req sel = anc_req_from sel (nparts sel - 1)" and "sel_subj_req sel = compound_req (sel_parts sel ! (nparts sel - 1))"
proof -
  have w: "with_requirements sel = sel" and n: "\<not> nparts sel < 1" using assms by (auto simp: sel_wf_def)
  show "sel_anc_req sel = anc_req_from sel (nparts sel - 1)"
    using arg_cong [OF w, of sel_anc_req] by (simp add: with_requirements_def compute_anc_req_def)
  show "sel_subj_req sel = compound_req (sel_parts sel ! (nparts sel - 1))"
    using arg_cong [OF w, of sel_subj_req] n by (simp add: with_requirements_def compute_subj_req_def)
qed

lemma csel_anc_reject_sound:
  assumes "sel_wf sel" and "views_ok el" and "selects sel target allow (nparts sel - 1) el"
  shows "\<not> csel_anc_reject sel el"
proof -
  let ?k = "nparts sel - 1"
  have k: "?k < nparts sel" using assms(1) by (auto simp: sel_wf_def)
  have b: "bloom_right el" by (rule views_ok_here [OF assms(2)])
  have "compound_sat sel target allow (sel_parts sel ! ?k) (el_view el)"
    using assms(3) by (cases ?k) (auto simp: selects_0 selects_Suc)
  then have "sub_bits (sel_subj_req sel) (csel_element_feature_bits (el_view el))"
    unfolding sel_wf_reqs(2) [OF assms(1)]
    by (rule compound_req_sub [OF _ sel_wf_part(2) [OF assms(1) k]]) (use b in \<open>simp add: bloom_right_def\<close>)
  moreover have "sub_bits (sel_anc_req sel) (anc_bits el)"
    unfolding sel_wf_reqs(1) [OF assms(1)] by (rule anc_req_sub [OF assms(1) k assms(2,3)])
  ultimately show ?thesis using b by (auto simp: csel_anc_reject_def bloom_right_def sub_bits_def)
qed

section \<open>Selectors that do not read the structure\<close>

text \<open>What is left of an element when its position among its siblings, its children and its siblings are
  forgotten, on the whole chain of ancestors.\<close>

definition bare_view :: "css_view \<Rightarrow> css_view" where
  "bare_view v = v\<lparr>el_nth := 0, el_nsib := 0, el_nth_of_type := 0, el_nsib_of_type := 0, el_child_count := -1, el_dom_node := None\<rparr>"

fun without_structure :: "css_element \<Rightarrow> css_element" where
  "without_structure (Element d p q) = Element (bare_view d) (map_option without_structure p) None"

lemma bare_view_simps [simp]:
  "el_tag (bare_view v) = el_tag v" "el_id (bare_view v) = el_id v" "el_classes (bare_view v) = el_classes v"
  "el_attrs (bare_view v) = el_attrs v" "el_state (bare_view v) = el_state v" "el_own_bloom (bare_view v) = el_own_bloom v"
  "el_anc_bloom (bare_view v) = el_anc_bloom v" "el_anc_bloom_valid (bare_view v) = el_anc_bloom_valid v"
  "el_attr_value (bare_view v) = el_attr_value v" "is_tag (bare_view v) = is_tag v" "state_has (bare_view v) = state_has v"
  "lang_matches l (bare_view v) = lang_matches l v" "has_class c (bare_view v) = has_class c v"
  "tag_slot_matches t (bare_view v) = tag_slot_matches t v" "id_slot_matches t (bare_view v) = id_slot_matches t v"
  "attr_matches am (bare_view v) = attr_matches am v" "part_rejects sel k (bare_view v) = part_rejects sel k v"
  by (simp_all add: bare_view_def el_attr_value_def is_tag_def state_has_def lang_matches_def has_class_def tag_slot_matches_def
      id_slot_matches_def attr_matches_def part_rejects_def fun_eq_iff split: option.split)

lemma bare_view_plain: "pseudo_is_local k \<Longrightarrow> plain_pseudo_matches pm k (bare_view v) target allow = plain_pseudo_matches pm k v target allow"
  by (cases k) (simp_all add: pseudo_is_local_def)

lemma bare_view_sub:
  "list_all pseudo_is_local (sub_pseudos sub) \<Longrightarrow> sub_sel_matches sub (bare_view v) = sub_sel_matches sub v"
  by (auto simp: sub_sel_matches_def list_all_iff bare_view_plain split: option.split)

lemma pm_subs_local:
  assumes "\<not> list_ex (\<lambda>j. sub_needs_structure sel (pm_sub_first pm + int j)) [0..<pm_sub_count pm]" and "0 \<le> pm_sub_first pm"
    and "sub \<in> set (pm_subs sel pm)"
  shows "list_all pseudo_is_local (sub_pseudos sub)"
proof -
  obtain j where j: "j < pm_sub_count pm" "nat (pm_sub_first pm) + j < length (sel_subs sel)" "sub = sel_subs sel ! (nat (pm_sub_first pm) + j)"
    using assms(3) by (auto simp: pm_subs_def in_set_conv_nth)
  then have "\<not> sub_needs_structure sel (pm_sub_first pm + int j)" using assms(1) by (auto simp: list_ex_iff)
  moreover have "nat (pm_sub_first pm + int j) = nat (pm_sub_first pm) + j" using assms(2) by simp
  ultimately show ?thesis using j(3) by (auto simp: sub_needs_structure_def list_ex_iff list_all_iff split: if_splits)
qed

lemma bare_view_pseudo:
  assumes "\<not> pseudo_needs_structure sel pm"
  shows "pseudo_matches pm (bare_view v) (Some sel) target allow = pseudo_matches pm v (Some sel) target allow"
proof (cases "pm_kind pm = PSEUDO_NOT \<or> pm_kind pm = PSEUDO_IS \<or> pm_kind pm = PSEUDO_WHERE")
  case True
  then have n: "\<not> list_ex (\<lambda>j. sub_needs_structure sel (pm_sub_first pm + int j)) [0..<pm_sub_count pm]"
    using assms by (simp add: pseudo_needs_structure_def)
  have "list_ex (\<lambda>sub. sub_sel_matches sub (bare_view v)) (pm_subs sel pm) = list_ex (\<lambda>sub. sub_sel_matches sub v) (pm_subs sel pm)"
    if "0 \<le> pm_sub_first pm" using pm_subs_local [OF n that] bare_view_sub [of _ v] by (auto simp: list_ex_iff)
  then show ?thesis using True by (auto simp: pseudo_matches_def)
next
  case False
  then have "pseudo_is_local (pm_kind pm)" using assms by (simp add: pseudo_needs_structure_def)
  then show ?thesis using bare_view_plain [of "pm_kind pm" pm v target allow]
    by (cases "pm_kind pm") (simp_all add: pseudo_matches_def pseudo_is_local_def)
qed

lemma bare_view_compound:
  assumes "\<not> list_ex (pseudo_needs_structure sel) (cp_pseudos c)"
  shows "compound_matches c (bare_view v) sel target allow = compound_matches c v sel target allow"
proof -
  have "pseudo_loop pms (bare_view v) sel target allow pk = pseudo_loop pms v sel target allow pk"
    if "\<not> list_ex (pseudo_needs_structure sel) pms" for pms pk
    using that by (induction pms arbitrary: pk) (auto simp: bare_view_pseudo)
  then show ?thesis using assms by (simp add: compound_matches_def)
qed

lemma without_structure_simps [simp]:
  "el_view (without_structure e) = bare_view (el_view e)"
  "el_parent (without_structure e) = map_option without_structure (el_parent e)"
  by (cases e; simp)+

lemma el_ancestors_without: "el_ancestors (without_structure e) = map without_structure (el_ancestors e)"
  by (induction e rule: el_ancestors.induct) auto

lemma complex_matches_without:
  "\<not> csel_needs_structure sel \<Longrightarrow> k < nparts sel \<Longrightarrow>
   complex_matches sel k (without_structure e) target allow = complex_matches sel k e target allow"
proof (induction k arbitrary: e)
  case 0
  then have "\<not> list_ex (pseudo_needs_structure sel) (cp_pseudos (sel_parts sel ! 0))" by (auto simp: csel_needs_structure_def list_ex_iff)
  then show ?case by (simp add: bare_view_compound)
next
  case (Suc k)
  then have c: "\<not> list_ex (pseudo_needs_structure sel) (cp_pseudos (sel_parts sel ! Suc k))"
      "sel_comb sel ! Suc k \<noteq> COMB_ADJACENT" "sel_comb sel ! Suc k \<noteq> COMB_GENERAL"
    by (auto simp: csel_needs_structure_def list_ex_iff Bex_def)
  have IH: "complex_matches sel k (without_structure e') target allow = complex_matches sel k e' target allow" for e'
    using Suc by simp
  show ?case using c(2,3)
    by (cases "sel_comb sel ! Suc k") (auto simp: bare_view_compound [OF c(1)] IH el_ancestors_without list_ex_iff split: option.splits)
qed

text \<open>A selector for which \<^verbatim>\<open>csel_needs_structure\<close> answers 0 gives the same answer, pseudo-element included, on any
  two elements that differ only in structure: positions among siblings, numbers of children, previous siblings and
  the document below. So the caller may leave the sibling lists unread, as \<^verbatim>\<open>cch_element_matches\<close> does.\<close>

theorem csel_needs_structure_sound:
  assumes "\<not> csel_needs_structure sel" and "sel_parts sel \<noteq> []" and "without_structure e = without_structure e'"
  shows "csel_matches sel e target allow = csel_matches sel e' target allow"
  unfolding csel_matches_def
  using complex_matches_without [OF assms(1), of "nparts sel - 1"] assms(2,3) by (metis diff_less length_greater_0_conv zero_less_one)

section \<open>The descendant walk of \<^verbatim>\<open>:has()\<close> visits descendants only\<close>

inductive dom_below :: "dom_node \<Rightarrow> nat \<Rightarrow> dom_node \<Rightarrow> bool" where
  below_self: "dom_below n 0 n"
| below_child: "c \<in> set chs \<Longrightarrow> dom_below c m d \<Longrightarrow> dom_below (Dom_Element name attrib chs) (Suc m) d"

inductive_simps dom_below_Other: "dom_below Dom_Other m d"
inductive_simps dom_below_Element: "dom_below (Dom_Element name attrib chs) m d"

definition has_hit :: "css_sub_sel list \<Rightarrow> dom_node \<Rightarrow> bool" where
  "has_hit subs d = (case d of Dom_Other \<Rightarrow> False | Dom_Element name attrib chs \<Rightarrow> list_ex (has_sub_matches attrib name) subs)"

fun dom_count :: "dom_node \<Rightarrow> nat" where
  "dom_count Dom_Other = 1"
| "dom_count (Dom_Element name attrib chs) = Suc (sum_list (map dom_count chs))"

definition hit_from :: "css_sub_sel list \<Rightarrow> (dom_node \<times> nat) list \<Rightarrow> bool" where
  "hit_from subs stack \<longleftrightarrow> (\<exists>(n, cd) \<in> set stack. \<exists>m d. dom_below n m d \<and> has_hit subs d \<and> cd + m \<le> HAS_MAX_DEPTH)"

lemma set_has_push: "set (has_push chs d stack) \<subseteq> (\<lambda>c. (c, d)) ` set chs \<union> set stack"
  by (induction chs d stack rule: has_push.induct) auto

lemma has_push_all: "length chs + length stack \<le> HAS_STACK \<Longrightarrow> has_push chs d stack = rev (map (\<lambda>c. (c, d)) chs) @ stack"
  by (induction chs d stack rule: has_push.induct) auto

lemma hit_from_Cons:
  "hit_from subs ((n, cd) # stack) \<longleftrightarrow> (\<exists>m d. dom_below n m d \<and> has_hit subs d \<and> cd + m \<le> HAS_MAX_DEPTH) \<or> hit_from subs stack"
  by (simp add: hit_from_def)

lemma hit_from_children:
  "hit_from subs (map (\<lambda>c. (c, Suc cd)) chs) \<longleftrightarrow>
     (\<exists>m d. m \<noteq> 0 \<and> dom_below (Dom_Element name attrib chs) m d \<and> has_hit subs d \<and> cd + m \<le> HAS_MAX_DEPTH)"
  by (fastforce simp: hit_from_def dom_below_Element)

lemma hit_from_mono: "hit_from subs xs \<Longrightarrow> set xs \<subseteq> set ys \<Longrightarrow> hit_from subs ys"
  unfolding hit_from_def by blast

lemma hit_from_append: "hit_from subs (xs @ ys) \<longleftrightarrow> hit_from subs xs \<or> hit_from subs ys"
  unfolding hit_from_def set_append by blast

lemma hit_from_rev: "hit_from subs (rev xs) \<longleftrightarrow> hit_from subs xs"
  by (simp add: hit_from_def)

lemma has_walk_sound:
  "has_walk subs stack \<Longrightarrow> \<forall>(n, cd) \<in> set stack. cd \<le> HAS_MAX_DEPTH \<Longrightarrow> hit_from subs stack"
proof (induction subs stack rule: has_walk.induct)
  case (3 subs name attrib chs cd stack)
  let ?e = "Dom_Element name attrib chs"
  show ?case
  proof (cases "has_hit subs ?e")
    case True
    then show ?thesis using 3(3) below_self [of ?e] unfolding hit_from_Cons by fastforce
  next
    case False
    then have no: "\<not> list_ex (has_sub_matches attrib name) subs" by (simp add: has_hit_def)
    define st where "st = (if cd < HAS_MAX_DEPTH then has_push chs (cd + 1) stack else stack)"
    have sub: "set st \<subseteq> set (map (\<lambda>c. (c, Suc cd)) chs @ stack)" unfolding st_def
      using set_has_push [of chs "cd + 1" stack] by auto
    have "\<forall>(n, d) \<in> set st. d \<le> HAS_MAX_DEPTH"
      using set_has_push [of chs "cd + 1" stack] 3(3) unfolding st_def by (fastforce split: if_splits)
    then have "hit_from subs st" using 3(1) [OF no] 3(2) no by (simp add: st_def)
    then have "hit_from subs (map (\<lambda>c. (c, Suc cd)) chs @ stack)" using sub hit_from_mono by blast
    then show ?thesis unfolding hit_from_append hit_from_Cons using hit_from_children by blast
  qed
qed (auto simp: hit_from_Cons)

lemma dom_count_pos: "0 < dom_count n"
  by (cases n) simp_all

lemma length_le_dom_count: "length chs \<le> sum_list (map dom_count chs)"
proof (induction chs)
  case (Cons n chs)
  then show ?case using dom_count_pos [of n] by simp
qed simp

lemma length_le_stack_count: "length stack \<le> sum_list (map (dom_count \<circ> fst) stack)"
  using length_le_dom_count [of "map fst stack"] by simp

lemma has_walk_complete:
  "hit_from subs stack \<Longrightarrow> sum_list (map (dom_count \<circ> fst) stack) \<le> HAS_STACK \<Longrightarrow> has_walk subs stack"
proof (induction subs stack rule: has_walk.induct)
  case (1 subs)
  then show ?case by (simp add: hit_from_def)
next
  case (2 subs cd stack)
  then show ?case by (auto simp: hit_from_Cons dom_below_Other has_hit_def)
next
  case (3 subs name attrib chs cd stack)
  let ?e = "Dom_Element name attrib chs"
  show ?case
  proof (cases "list_ex (has_sub_matches attrib name) subs")
    case no: False
    then have nh: "\<not> has_hit subs ?e" by (simp add: has_hit_def)
    have "length chs + length stack \<le> HAS_STACK"
      using 3(3) length_le_dom_count [of chs] length_le_stack_count [of stack] by (simp add: comp_def)
    note all = has_push_all [OF this, of "Suc cd"]
    define st where "st = (if cd < HAS_MAX_DEPTH then has_push chs (Suc cd) stack else stack)"
    have "hit_from subs (map (\<lambda>c. (c, Suc cd)) chs) \<and> cd < HAS_MAX_DEPTH \<or> hit_from subs stack"
    proof (cases "hit_from subs stack")
      case False
      then obtain m d where md: "dom_below ?e m d" "has_hit subs d" "cd + m \<le> HAS_MAX_DEPTH" using 3(2) unfolding hit_from_Cons by blast
      then have "m \<noteq> 0" using nh by (auto simp: dom_below_Element)
      then show ?thesis using md hit_from_children [of subs cd chs name attrib] by auto
    qed simp
    then have "hit_from subs st" unfolding st_def by (auto simp: all hit_from_append hit_from_rev)
    moreover have "sum_list (map (dom_count \<circ> fst) st) \<le> HAS_STACK"
      using 3(3) unfolding st_def by (simp add: all rev_map [symmetric] sum_list_rev comp_def)
    ultimately have "has_walk subs st" using 3(1) [OF no] unfolding st_def Suc_eq_plus1 by blast
    then show ?thesis using no by (simp add: st_def split: if_splits)
  qed simp
qed

lemma has_matches_sound:
  "has_matches subs root \<Longrightarrow> \<exists>m d. 1 \<le> m \<and> m \<le> HAS_MAX_DEPTH \<and> dom_below root m d \<and> has_hit subs d"
proof (cases root)
  case (Dom_Element name attrib chs)
  assume "has_matches subs root"
  then have "has_walk subs (has_push chs 1 [])" using Dom_Element by (simp add: has_matches_def)
  then have "hit_from subs (has_push chs 1 [])"
    by (rule has_walk_sound) (use set_has_push [of chs 1 "[]"] in \<open>auto simp: HAS_MAX_DEPTH_def\<close>)
  then have "hit_from subs (map (\<lambda>c. (c, Suc 0)) chs)" by (rule hit_from_mono) (use set_has_push [of chs 1 "[]"] in auto)
  then show ?thesis using hit_from_children [of subs 0 chs name attrib] Dom_Element by (auto simp: Suc_le_eq)
qed (simp add: has_matches_def)

theorem has_matches_small_document:
  assumes "dom_count root \<le> HAS_STACK"
  shows "has_matches subs root \<longleftrightarrow> (\<exists>m d. 1 \<le> m \<and> m \<le> HAS_MAX_DEPTH \<and> dom_below root m d \<and> has_hit subs d)"
proof
  assume "\<exists>m d. 1 \<le> m \<and> m \<le> HAS_MAX_DEPTH \<and> dom_below root m d \<and> has_hit subs d"
  then obtain m d where md: "1 \<le> m" "m \<le> HAS_MAX_DEPTH" "dom_below root m d" "has_hit subs d" by blast
  show "has_matches subs root"
  proof (cases root)
    case (Dom_Element name attrib chs)
    have "hit_from subs (map (\<lambda>c. (c, Suc 0)) chs)" using hit_from_children [of subs 0 chs name attrib] md Dom_Element
      by (metis add_0 not_one_le_zero)
    moreover have "has_push chs 1 [] = rev (map (\<lambda>c. (c, 1)) chs)"
      using has_push_all [of chs "[]" 1] assms length_le_dom_count [of chs] Dom_Element by simp
    ultimately show ?thesis
      using has_walk_complete [of subs "has_push chs 1 []"] assms Dom_Element
      by (simp add: has_matches_def hit_from_rev rev_map [symmetric] sum_list_rev comp_def)
  qed (use md in \<open>auto simp: dom_below_Other has_hit_def\<close>)
qed (rule has_matches_sound)

end
