(* ===== verification/Css_Index.thy ===== *)
theory Css_Index
  imports Css_Select "HOL-Library.Product_Lexorder"
begin

unbundle bit_operations_syntax

text \<open>
  The rule index of \<^verbatim>\<open>src/css_index.c\<close> and the matching pass of the cascade that uses it
  (\<^verbatim>\<open>resolve_core\<close> of \<^verbatim>\<open>src/css.c\<close>). The index keys every selector of a sheet by the hash of one name its
  subject must carry; the candidates of an element come from a merge of the sorted buckets of its names. The pass
  tests the candidates with the ancestor filter and the matcher. The theorems show that the rules the cascade
  applies are the matching selectors of the whole sheet in document order, whatever the index holds back and
  whichever allocation fails.
\<close>

section \<open>Model\<close>

subsection \<open>The index\<close>

definition KEY_ID :: "64 word" where
  "KEY_ID = 1"

definition KEY_CLASS :: "64 word" where
  "KEY_CLASS = 2"

definition KEY_TAG :: "64 word" where
  "KEY_TAG = 3"

definition UINT32_MAX :: nat where
  "UINT32_MAX = 4294967295"

definition SIZE_MAX :: nat where
  "SIZE_MAX = 18446744073709551615"

definition key_of :: "64 word \<Rightarrow> string \<Rightarrow> bool \<Rightarrow> 64 word" where
  "key_of kind s low =
     foldl (\<lambda>h c. fnv_step h (if low then ascii_lower c else c)) ((1469598103934665603 XOR kind) * 1099511628211) s"

definition key_of_token :: "64 word \<Rightarrow> string \<Rightarrow> 64 word" where
  "key_of_token kind tok =
     (if length tok < CSS_TOK_MAX then key_of kind tok False else key_of kind (c_read (csel_ident_fold tok)) False)"

record cix_entry =
  ce_key :: "64 word"
  ce_sel :: nat

record cix_index =
  ix_keyed :: "cix_entry list"
  ix_universal :: "nat list"
  ix_nsels :: nat
  ix_valid :: bool

definition cix_empty :: cix_index where
  "cix_empty = \<lparr>ix_keyed = [], ix_universal = [], ix_nsels = 0, ix_valid = False\<rparr>"

text \<open>The key of a selector, \<open>None\<close> for one that goes to the universal list.\<close>

definition sel_key :: "css_sel \<Rightarrow> 64 word option" where
  "sel_key s =
     (if nparts s \<le> 0 \<or> nparts s > CSS_MAX_COMPOUNDS then None
      else let c = sel_parts s ! (nparts s - 1) in
        case cp_id c of
          Some i \<Rightarrow> Some (key_of KEY_ID i False)
        | None \<Rightarrow> (case cp_cls c of
              k # ks \<Rightarrow> Some (key_of KEY_CLASS k False)
            | [] \<Rightarrow> (case cp_tag c of Some t \<Rightarrow> Some (key_of KEY_TAG t True) | None \<Rightarrow> None)))"

text \<open>The loop over the selectors, from position \<open>i\<close>: the keyed entries and the universal positions.\<close>

fun index_loop :: "nat \<Rightarrow> css_sel list \<Rightarrow> cix_entry list \<times> nat list" where
  "index_loop i [] = ([], [])"
| "index_loop i (s # ss) =
     (case index_loop (Suc i) ss of (ks, us) \<Rightarrow>
        (case sel_key s of None \<Rightarrow> (ks, i # us) | Some k \<Rightarrow> (\<lparr>ce_key = k, ce_sel = i\<rparr> # ks, us)))"

text \<open>\<^verbatim>\<open>entry_cmp\<close> orders by key, then by position; positions differ, so that the order of the sorted array is determined.\<close>

definition entry_rank :: "cix_entry \<Rightarrow> 64 word \<times> nat" where
  "entry_rank e = (ce_key e, ce_sel e)"

definition cix_build :: "allocator \<Rightarrow> css_sel list option \<Rightarrow> nat \<Rightarrow> cix_index" where
  "cix_build mem sels n =
     (case sels of
        None \<Rightarrow> if n = 0 then cix_empty\<lparr>ix_valid := True\<rparr> else cix_empty
      | Some ss \<Rightarrow>
          if n = 0 \<or> n > UINT32_MAX then
            cix_empty\<lparr>ix_valid := n \<le> UINT32_MAX, ix_nsels := if n \<le> UINT32_MAX then n else 0\<rparr>
          else if \<not> mem (n * 16) \<or> \<not> mem (n * 4) then cix_empty
          else (case index_loop 0 (take n ss) of (ks, us) \<Rightarrow>
            \<lparr>ix_keyed = sort_key entry_rank ks, ix_universal = us, ix_nsels = n, ix_valid = True\<rparr>))"

definition cix_free :: "cix_index \<Rightarrow> cix_index" where
  "cix_free idx = cix_empty"

subsection \<open>Candidates of an element\<close>

function bound_loop :: "cix_entry list \<Rightarrow> 64 word \<Rightarrow> nat \<Rightarrow> nat \<Rightarrow> nat" where
  "bound_loop keyed k lo hi =
     (if lo < hi then
        let mid = lo + (hi - lo) div 2 in
        if ce_key (keyed ! mid) < k then bound_loop keyed k (mid + 1) hi else bound_loop keyed k lo mid
      else lo)"
  by pat_completeness auto

termination bound_loop
  by (relation "measure (\<lambda>(keyed, k, lo, hi). hi - lo)") auto

declare bound_loop.simps [simp del]

definition lower_bound :: "cix_index \<Rightarrow> 64 word \<Rightarrow> nat" where
  "lower_bound idx k = bound_loop (ix_keyed idx) k 0 (length (ix_keyed idx))"

text \<open>A run is the list of the positions it still holds.\<close>

definition add_bucket :: "cix_index \<Rightarrow> 64 word \<Rightarrow> nat list list \<Rightarrow> nat list list" where
  "add_bucket idx k runs =
     (let es = takeWhile (\<lambda>e. ce_key e = k) (drop (lower_bound idx k) (ix_keyed idx)) in
      if es = [] then runs else runs @ [map ce_sel es])"

definition cix_runs :: "cix_index \<Rightarrow> css_view \<Rightarrow> nat list list" where
  "cix_runs idx el =
     (let r0 = (if ix_universal idx \<noteq> [] then [ix_universal idx] else []);
          r1 = (case el_id el of None \<Rightarrow> r0 | Some i \<Rightarrow> add_bucket idx (key_of_token KEY_ID i) r0);
          r2 = (case el_tag el of None \<Rightarrow> r1 | Some t \<Rightarrow> add_bucket idx (key_of KEY_TAG t True) r1)
      in foldl (\<lambda>r c. case c of None \<Rightarrow> r | Some t \<Rightarrow> add_bucket idx (key_of_token KEY_CLASS t) r) r2 (el_classes el))"

text \<open>The run with the least head, the first of equals: its number and the head.\<close>

fun best_run :: "nat \<Rightarrow> nat list list \<Rightarrow> (nat \<times> nat) option \<Rightarrow> (nat \<times> nat) option" where
  "best_run r [] best = best"
| "best_run r ([] # runs) best = best_run (Suc r) runs best"
| "best_run r ((v # vs) # runs) best =
     best_run (Suc r) runs (case best of None \<Rightarrow> Some (r, v) | Some (b, bv) \<Rightarrow> if v < bv then Some (r, v) else best)"

text \<open>Room for one more position: the capacity after it, \<open>None\<close> when the buffer cannot grow.\<close>

definition push_cap :: "allocator \<Rightarrow> nat \<Rightarrow> nat \<Rightarrow> nat option" where
  "push_cap mem cap n =
     (if n = cap then
        let nc = (if cap > 0 then cap * 2 else 64) in
        if nc > SIZE_MAX div 4 then None else if \<not> mem (nc * 4) then None else Some nc
      else Some cap)"

lemma best_run_in:
  "best_run r runs best = Some (b, v) \<Longrightarrow> best = Some (b, v) \<or> (r \<le> b \<and> b < r + length runs \<and> (\<exists>vs. runs ! (b - r) = v # vs))"
proof (induction r runs best rule: best_run.induct)
  case (2 r runs best)
  then have "best = Some (b, v) \<or> (Suc r \<le> b \<and> b < Suc r + length runs \<and> (\<exists>vs. runs ! (b - Suc r) = v # vs))" by simp
  moreover have "([] # runs) ! (b - r) = runs ! (b - Suc r)" if "Suc r \<le> b" using that by (simp add: nth_Cons')
  ultimately show ?case by auto
next
  case (3 r v' vs' runs best)
  define best' where "best' = (case best of None \<Rightarrow> Some (r, v') | Some (b, bv) \<Rightarrow> if v' < bv then Some (r, v') else best)"
  have "best' = Some (b, v) \<or> (Suc r \<le> b \<and> b < Suc r + length runs \<and> (\<exists>vs. runs ! (b - Suc r) = v # vs))"
    using 3 by (simp add: best'_def)
  moreover have "((v' # vs') # runs) ! (b - r) = runs ! (b - Suc r)" if "Suc r \<le> b" using that by (simp add: nth_Cons')
  moreover have "best' = best \<or> best' = Some (r, v')" by (auto simp: best'_def split: option.splits)
  ultimately show ?case by auto
qed simp

definition advance :: "nat list list \<Rightarrow> nat \<Rightarrow> nat list list" where
  "advance runs b = runs[b := tl (runs ! b)]"

lemma advance_shorter:
  assumes "best_run 0 runs None = Some (b, v)"
  shows "length (concat (advance runs b)) < length (concat runs)"
proof -
  obtain vs where b: "b < length runs" "runs ! b = v # vs" using best_run_in [OF assms] by auto
  then have "runs = take b runs @ (v # vs) # drop (Suc b) runs" by (metis id_take_nth_drop)
  moreover have "advance runs b = take b runs @ vs # drop (Suc b) runs" using b by (simp add: advance_def upd_conv_take_nth_drop)
  ultimately show ?thesis by (metis add_Suc_right append_Cons concat.simps(2) concat_append length_Cons length_append lessI)
qed

text \<open>The merge loop: \<open>out\<close> is what the buffer holds so far, \<^verbatim>\<open>last\<close> its last entry.\<close>

function merge_runs :: "allocator \<Rightarrow> nat \<Rightarrow> nat list list \<Rightarrow> nat list \<Rightarrow> nat list option" where
  "merge_runs mem cap runs out =
     (case best_run 0 runs None of
        None \<Rightarrow> Some out
      | Some (b, v) \<Rightarrow>
          if out \<noteq> [] \<and> v = last out then merge_runs mem cap (advance runs b) out
          else (case push_cap mem cap (length out) of
             None \<Rightarrow> None
           | Some cap' \<Rightarrow> merge_runs mem cap' (advance runs b) (out @ [v])))"
  by pat_completeness auto

termination merge_runs
  by (relation "measure (\<lambda>(mem, cap, runs, out). length (concat runs))") (use advance_shorter in auto)

declare merge_runs.simps [simp del]

text \<open>A run is 32 bytes. \<open>None\<close> is the answer -1.\<close>

definition cix_candidates :: "allocator \<Rightarrow> cix_index \<Rightarrow> css_view \<Rightarrow> nat \<Rightarrow> nat list option" where
  "cix_candidates mem idx el cap =
     (if \<not> ix_valid idx then None
      else if length (el_classes el) > SIZE_MAX div 32 - 3 then None
      else if \<not> mem ((length (el_classes el) + 3) * 32) then None
      else merge_runs mem cap (cix_runs idx el) [])"

subsection \<open>The matching pass of the cascade\<close>

definition CSS_PSEUDO_BEFORE :: int where
  "CSS_PSEUDO_BEFORE = 1"

definition CSS_PSEUDO_AFTER :: int where
  "CSS_PSEUDO_AFTER = 2"

definition CSS_PSEUDO_PLACEHOLDER :: int where
  "CSS_PSEUDO_PLACEHOLDER = 3"

definition pseudo_of :: "int \<Rightarrow> css_pseudo_kind option" where
  "pseudo_of which =
     (if which = CSS_PSEUDO_BEFORE then Some PSEUDO_BEFORE else if which = CSS_PSEUDO_AFTER then Some PSEUDO_AFTER
      else if which = CSS_PSEUDO_PLACEHOLDER then Some PSEUDO_PLACEHOLDER else None)"

record css_sheet =
  sh_sels :: "css_sel list"
  sh_idx :: cix_index

abbreviation sh_nsels :: "css_sheet \<Rightarrow> nat" where
  "sh_nsels sheet \<equiv> length (sh_sels sheet)"

text \<open>One selector of the loop: the pseudo-element under which its rule applies, \<open>None\<close> when the loop goes on to the next.\<close>

definition match_one :: "css_sel \<Rightarrow> css_element \<Rightarrow> int \<Rightarrow> css_pseudo_kind option option" where
  "match_one sel el want =
     (if csel_anc_reject sel el then None
      else (case csel_matches sel el None True of
         None \<Rightarrow> None
       | Some pk \<Rightarrow>
           if want \<noteq> 0 then (if pk \<noteq> pseudo_of want then None else Some None)
           else if pk = Some PSEUDO_PLACEHOLDER then None else Some pk))"

text \<open>The loop of the first pass over the positions \<open>cand\<close>; a match is a position and a pseudo-element (16 bytes). \<open>None\<close>
  is the failed growth of the array.\<close>

fun match_loop :: "allocator \<Rightarrow> css_sel list \<Rightarrow> css_element \<Rightarrow> int \<Rightarrow> nat list \<Rightarrow> nat \<Rightarrow> (nat \<times> css_pseudo_kind option) list
    \<Rightarrow> (nat \<times> css_pseudo_kind option) list option" where
  "match_loop mem sels el want [] mcap mt = Some mt"
| "match_loop mem sels el want (si # cand) mcap mt =
     (if si \<ge> length sels then match_loop mem sels el want cand mcap mt
      else (case match_one (sels ! si) el want of
         None \<Rightarrow> match_loop mem sels el want cand mcap mt
       | Some pk \<Rightarrow>
           if length mt = mcap then
             let nc = (if mcap > 0 then mcap * 2 else 32) in
             if \<not> mem (nc * 16) then None
             else match_loop mem sels el want cand nc (mt @ [(si, pk)])
           else match_loop mem sels el want cand mcap (mt @ [(si, pk)])))"

definition match_pass :: "allocator \<Rightarrow> css_sheet \<Rightarrow> css_element \<Rightarrow> int \<Rightarrow> (nat \<times> css_pseudo_kind option) list option" where
  "match_pass mem sheet el want =
     (let ncand = (if ix_valid (sh_idx sheet) \<and> ix_nsels (sh_idx sheet) = sh_nsels sheet
                   then cix_candidates mem (sh_idx sheet) (el_view el) 0 else None);
          loop = (case ncand of None \<Rightarrow> [0..<sh_nsels sheet] | Some cand \<Rightarrow> cand)
      in match_loop mem (sh_sels sheet) el want loop 0 [])"

text \<open>The third pass: the rules in the order in which \<^verbatim>\<open>apply_rule\<close> is called, from the array of the first pass or, when
  that ran out of memory, from a scan of the whole sheet.\<close>

fun scan_all :: "css_sel list \<Rightarrow> css_element \<Rightarrow> int \<Rightarrow> nat list \<Rightarrow> (nat \<times> css_pseudo_kind option) list" where
  "scan_all sels el want [] = []"
| "scan_all sels el want (si # sis) =
     (case match_one (sels ! si) el want of None \<Rightarrow> scan_all sels el want sis | Some pk \<Rightarrow> (si, pk) # scan_all sels el want sis)"

definition applied_rules :: "allocator \<Rightarrow> css_sheet \<Rightarrow> css_element \<Rightarrow> int \<Rightarrow> (nat \<times> css_pseudo_kind option) list" where
  "applied_rules mem sheet el want =
     (case match_pass mem sheet el want of
        None \<Rightarrow> scan_all (sh_sels sheet) el want [0..<sh_nsels sheet]
      | Some mt \<Rightarrow> mt)"

section \<open>Candidates\<close>

subsection \<open>Buckets\<close>

lemma bound_loop_result:
  "sorted (map ce_key keyed) \<Longrightarrow> lo \<le> hi \<Longrightarrow> hi \<le> length keyed \<Longrightarrow>
   (\<forall>i < lo. ce_key (keyed ! i) < k) \<Longrightarrow> (\<forall>i. hi \<le> i \<and> i < length keyed \<longrightarrow> k \<le> ce_key (keyed ! i)) \<Longrightarrow>
   (let b = bound_loop keyed k lo hi in b \<le> length keyed \<and> (\<forall>i < b. ce_key (keyed ! i) < k)
     \<and> (\<forall>i. b \<le> i \<and> i < length keyed \<longrightarrow> k \<le> ce_key (keyed ! i)))"
proof (induction keyed k lo hi rule: bound_loop.induct)
  case (1 keyed k lo hi)
  show ?case
  proof (cases "lo < hi")
    case True
    define mid where "mid = lo + (hi - lo) div 2"
    have m: "lo \<le> mid" "mid < hi" using True by (auto simp: mid_def)
    have mono: "ce_key (keyed ! i) \<le> ce_key (keyed ! j)" if "i \<le> j" "j < length keyed" for i j
      using sorted_nth_mono [OF "1.prems"(1), of i j] that by simp
    show ?thesis
    proof (cases "ce_key (keyed ! mid) < k")
      case less: True
      have "ce_key (keyed ! i) < k" if "i < mid + 1" for i using mono [of i mid] that m "1.prems"(3) less by simp
      then have "\<forall>i < mid + 1. ce_key (keyed ! i) < k" by blast
      then show ?thesis using "1.IH"(1) [OF True mid_def less "1.prems"(1)] "1.prems" m True less
        by (subst bound_loop.simps) (simp add: mid_def [symmetric] Let_def)
    next
      case ge: False
      have "k \<le> ce_key (keyed ! i)" if "mid \<le> i" "i < length keyed" for i using mono [of mid i] that ge by simp
      then have "\<forall>i. mid \<le> i \<and> i < length keyed \<longrightarrow> k \<le> ce_key (keyed ! i)" by blast
      then show ?thesis using "1.IH"(2) [OF True mid_def ge "1.prems"(1)] "1.prems" m True ge
        by (subst bound_loop.simps) (simp add: mid_def [symmetric] Let_def)
    qed
  next
    case False
    then show ?thesis using "1.prems" by (subst bound_loop.simps) (simp add: Let_def)
  qed
qed

lemma takeWhile_eq_filter_sorted:
  assumes "sorted (map f xs)" and "\<forall>x \<in> set xs. k \<le> f x"
  shows "takeWhile (\<lambda>x. f x = k) xs = filter (\<lambda>x. f x = k) xs"
  using assms
proof (induction xs)
  case (Cons x xs)
  then show ?case
  proof (cases "f x = k")
    case False
    then have "\<forall>y \<in> set xs. f y \<noteq> k" using Cons.prems by fastforce
    then have "filter (\<lambda>y. f y = k) xs = []" by simp
    then show ?thesis using False by simp
  qed simp
qed simp

lemma bucket_entries:
  assumes "sorted (map ce_key (ix_keyed idx))"
  shows "takeWhile (\<lambda>e. ce_key e = k) (drop (lower_bound idx k) (ix_keyed idx)) = filter (\<lambda>e. ce_key e = k) (ix_keyed idx)"
proof -
  let ?K = "ix_keyed idx" and ?b = "lower_bound idx k"
  have b: "?b \<le> length ?K" "\<forall>i < ?b. ce_key (?K ! i) < k" "\<forall>i. ?b \<le> i \<and> i < length ?K \<longrightarrow> k \<le> ce_key (?K ! i)"
  proof -
    have "\<forall>i. length ?K \<le> i \<and> i < length ?K \<longrightarrow> k \<le> ce_key (?K ! i)" by auto
    note bound_loop_result [OF assms le0 order_refl _ this, unfolded Let_def, folded lower_bound_def, simplified]
    then show "?b \<le> length ?K" "\<forall>i < ?b. ce_key (?K ! i) < k" "\<forall>i. ?b \<le> i \<and> i < length ?K \<longrightarrow> k \<le> ce_key (?K ! i)" by blast+
  qed
  have "\<forall>e \<in> set (drop ?b ?K). k \<le> ce_key e" using b(3) by (auto simp: in_set_conv_nth)
  then have "takeWhile (\<lambda>e. ce_key e = k) (drop ?b ?K) = filter (\<lambda>e. ce_key e = k) (drop ?b ?K)"
    by (rule takeWhile_eq_filter_sorted [rotated]) (use assms in \<open>simp add: drop_map [symmetric] sorted_wrt_drop\<close>)
  moreover have "filter (\<lambda>e. ce_key e = k) (take ?b ?K) = []" using b(2) by (fastforce simp: filter_empty_conv in_set_conv_nth)
  ultimately show ?thesis by (metis append_Nil append_take_drop_id filter_append)
qed

subsection \<open>The merge\<close>

lemma best_run_None: "best_run r runs best = None \<longleftrightarrow> best = None \<and> concat runs = []"
  by (induction r runs best rule: best_run.induct) (auto split: option.splits prod.splits if_splits)

lemma best_run_least:
  "best_run r runs best = Some (b, v) \<Longrightarrow>
   (\<forall>xs \<in> set runs. xs \<noteq> [] \<longrightarrow> v \<le> hd xs) \<and> (\<forall>c w. best = Some (c, w) \<longrightarrow> v \<le> w)"
  by (induction r runs best rule: best_run.induct) (fastforce split: option.splits prod.splits if_splits)+

lemma best_run_split:
  assumes "best_run 0 runs None = Some (b, v)" and "\<forall>xs \<in> set runs. sorted xs"
  shows "set (concat runs) = insert v (set (concat (advance runs b)))" and "\<forall>x \<in> set (concat runs). v \<le> x"
    and "\<forall>xs \<in> set (advance runs b). sorted xs"
proof -
  obtain vs where b: "b < length runs" "runs ! b = v # vs" using best_run_in [OF assms(1)] by auto
  have r: "runs = take b runs @ (v # vs) # drop (Suc b) runs" using b by (metis id_take_nth_drop)
  have a: "advance runs b = take b runs @ vs # drop (Suc b) runs" using b by (simp add: advance_def upd_conv_take_nth_drop)
  show "set (concat runs) = insert v (set (concat (advance runs b)))" unfolding a by (subst r) auto
  have "v \<le> x" if "xs \<in> set runs" "x \<in> set xs" for xs x
    using best_run_least [OF assms(1)] assms(2) that by (cases xs) fastforce+
  then show "\<forall>x \<in> set (concat runs). v \<le> x" by auto
  have "v # vs \<in> set runs" using b nth_mem by metis
  then have "sorted vs" using assms(2) by (metis sorted_simps(2))
  then show "\<forall>xs \<in> set (advance runs b). sorted xs" using assms(2) unfolding a by (auto dest: in_set_takeD in_set_dropD)
qed

lemma merge_runs_end: "best_run 0 runs None = None \<Longrightarrow> merge_runs mem cap runs out = Some out"
  by (subst merge_runs.simps) simp

lemma merge_runs_same:
  "best_run 0 runs None = Some (b, v) \<Longrightarrow> out \<noteq> [] \<and> v = last out \<Longrightarrow> merge_runs mem cap runs out = merge_runs mem cap (advance runs b) out"
  by (subst merge_runs.simps) simp

lemma merge_runs_new:
  "best_run 0 runs None = Some (b, v) \<Longrightarrow> \<not> (out \<noteq> [] \<and> v = last out) \<Longrightarrow>
   merge_runs mem cap runs out =
     (case push_cap mem cap (length out) of None \<Rightarrow> None | Some cap' \<Rightarrow> merge_runs mem cap' (advance runs b) (out @ [v]))"
  by (subst merge_runs.simps) auto

lemma sorted_le_last: "sorted_wrt (<) out \<Longrightarrow> x \<in> set out \<Longrightarrow> x \<le> last (out :: nat list)"
  by (induction out) (auto simp: less_imp_le)

lemma merge_runs_result:
  "merge_runs mem cap runs out = Some cs \<Longrightarrow> \<forall>xs \<in> set runs. sorted xs \<Longrightarrow> sorted_wrt (<) out \<Longrightarrow>
   (out \<noteq> [] \<longrightarrow> (\<forall>x \<in> set (concat runs). last out \<le> x)) \<Longrightarrow>
   sorted_wrt (<) cs \<and> set cs = set out \<union> set (concat runs)"
proof (induction mem cap runs out rule: merge_runs.induct)
  case (1 mem cap runs out)
  show ?case
  proof (cases "best_run 0 runs None")
    case None
    then have "cs = out" "set (concat runs) = {}" using "1.prems"(1) best_run_None [of 0 runs None] by (simp_all add: merge_runs_end)
    then show ?thesis using "1.prems"(3) Un_empty_right by metis
  next
    case (Some bv)
    then obtain b v where bv: "best_run 0 runs None = Some (b, v)" by (cases bv) auto
    note sp = best_run_split [OF bv "1.prems"(2)]
    show ?thesis
    proof (cases "out \<noteq> [] \<and> v = last out")
      case True
      have m: "merge_runs mem cap (advance runs b) out = Some cs" using "1.prems"(1) merge_runs_same [OF bv True] by metis
      have l: "out \<noteq> [] \<longrightarrow> (\<forall>x \<in> set (concat (advance runs b)). last out \<le> x)" using sp(1) "1.prems"(4) by blast
      have "sorted_wrt (<) cs \<and> set cs = set out \<union> set (concat (advance runs b))"
        by (rule "1.IH"(1) [OF bv refl True m sp(3) "1.prems"(3) l])
      moreover have "v \<in> set out" using True by simp
      ultimately show ?thesis unfolding sp(1) by blast
    next
      case False
      obtain cap' where c: "push_cap mem cap (length out) = Some cap'" "merge_runs mem cap' (advance runs b) (out @ [v]) = Some cs"
        using "1.prems"(1) merge_runs_new [OF bv False, of mem cap] by (cases "push_cap mem cap (length out)") auto
      have "x < v" if "x \<in> set out" for x
      proof -
        have "out \<noteq> []" "v \<in> set (concat runs)" using that sp(1) by auto
        then have "last out < v" using "1.prems"(4) False le_neq_implies_less by blast
        then show ?thesis using sorted_le_last [OF "1.prems"(3) that] by simp
      qed
      then have st: "sorted_wrt (<) (out @ [v])" using "1.prems"(3) by (simp add: sorted_wrt_append)
      have l: "out @ [v] \<noteq> [] \<longrightarrow> (\<forall>x \<in> set (concat (advance runs b)). last (out @ [v]) \<le> x)" using sp(1,2) by simp
      have "sorted_wrt (<) cs \<and> set cs = set (out @ [v]) \<union> set (concat (advance runs b))"
        by (rule "1.IH"(2) [OF bv refl False c(1,2) sp(3) st l])
      then show ?thesis unfolding sp(1) by simp
    qed
  qed
qed

text \<open>A buffer that can always grow: the merge ends with a result.\<close>

lemma merge_runs_total:
  "(\<And>n. mem n) \<Longrightarrow> length out + length (concat runs) \<le> cap0 \<Longrightarrow> cap \<le> 2 * cap0 \<Longrightarrow> 64 \<le> cap0 \<Longrightarrow> 4 * cap0 \<le> SIZE_MAX div 4 \<Longrightarrow>
   \<exists>cs. merge_runs mem cap runs out = Some cs"
proof (induction mem cap runs out rule: merge_runs.induct)
  case (1 mem cap runs out)
  show ?case
  proof (cases "best_run 0 runs None")
    case None
    then show ?thesis by (subst merge_runs.simps) simp
  next
    case (Some bv)
    then obtain b v where bv: "best_run 0 runs None = Some (b, v)" by (cases bv) auto
    have l: "length (concat (advance runs b)) < length (concat runs)" using advance_shorter [OF bv] .
    show ?thesis
    proof (cases "out \<noteq> [] \<and> v = last out")
      case True
      then show ?thesis using "1.IH"(1) [OF bv refl True "1.prems"(1) _ "1.prems"(3,4,5)] l "1.prems"(2)
        unfolding merge_runs_same [OF bv True] by simp
    next
      case False
      have "length out < cap0" using l "1.prems"(2) by linarith
      then have "push_cap mem cap (length out) = Some (if length out = cap then (if cap > 0 then cap * 2 else 64) else cap)"
        using "1.prems"(1,4,5) by (auto simp: push_cap_def Let_def not_less)
      then obtain cap' where c: "push_cap mem cap (length out) = Some cap'" "cap' \<le> 2 * cap0"
        using "1.prems"(3,4) \<open>length out < cap0\<close> by (auto split: if_splits)
      have "length (out @ [v]) + length (concat (advance runs b)) \<le> cap0" using l "1.prems"(2) by simp
      from "1.IH"(2) [OF bv refl False c(1) "1.prems"(1) this c(2) "1.prems"(4,5)] show ?thesis
        unfolding merge_runs_new [OF bv False] c(1) by simp
    qed
  qed
qed

subsection \<open>What the index holds\<close>

definition index_ok :: "cix_index \<Rightarrow> css_sel list \<Rightarrow> bool" where
  "index_ok idx sels \<longleftrightarrow> sorted (map ce_key (ix_keyed idx)) \<and> (\<forall>k. sorted (map ce_sel (filter (\<lambda>e. ce_key e = k) (ix_keyed idx))))
     \<and> sorted (ix_universal idx)
     \<and> set (ix_universal idx) = {i. i < length sels \<and> sel_key (sels ! i) = None}
     \<and> set (ix_keyed idx) = {\<lparr>ce_key = k, ce_sel = i\<rparr> | i k. i < length sels \<and> sel_key (sels ! i) = Some k}"

lemma index_loop_contents:
  "index_loop i ss = (ks, us) \<Longrightarrow>
   sorted us \<and> set us = {i + j | j. j < length ss \<and> sel_key (ss ! j) = None}
   \<and> set ks = {\<lparr>ce_key = k, ce_sel = i + j\<rparr> | j k. j < length ss \<and> sel_key (ss ! j) = Some k}"
proof (induction i ss arbitrary: ks us rule: index_loop.induct)
  case (2 i s ss)
  obtain ks' us' where r: "index_loop (Suc i) ss = (ks', us')" by fastforce
  have IH: "sorted us'" "set us' = {Suc i + j | j. j < length ss \<and> sel_key (ss ! j) = None}"
    "set ks' = {\<lparr>ce_key = k, ce_sel = Suc i + j\<rparr> | j k. j < length ss \<and> sel_key (ss ! j) = Some k}"
    using 2(1) [OF r] by blast+
  have n: "{i + j | j. j < length (s # ss) \<and> sel_key ((s # ss) ! j) = None}
      = (if sel_key s = None then {i} else {}) \<union> {Suc i + j | j. j < length ss \<and> sel_key (ss ! j) = None}"
    by (auto simp: less_Suc_eq_0_disj)
  have k: "{\<lparr>ce_key = k, ce_sel = i + j\<rparr> | j k. j < length (s # ss) \<and> sel_key ((s # ss) ! j) = Some k}
      = (case sel_key s of None \<Rightarrow> {} | Some k \<Rightarrow> {\<lparr>ce_key = k, ce_sel = i\<rparr>})
        \<union> {\<lparr>ce_key = k, ce_sel = Suc i + j\<rparr> | j k. j < length ss \<and> sel_key (ss ! j) = Some k}"
    by (auto simp: less_Suc_eq_0_disj split: option.splits)
  have "\<forall>x \<in> set us'. i \<le> x" using IH(2) by auto
  then show ?case using 2(2) IH r unfolding n k by (cases "sel_key s") auto
qed simp

lemma sorted_by_rank:
  assumes "sorted (map entry_rank es)"
  shows "sorted (map ce_key es)" and "sorted (map ce_sel (filter (\<lambda>e. ce_key e = k) es))"
  using assms by (induction es) (auto simp: entry_rank_def less_eq_prod_def)

lemma cix_build_ok:
  assumes "ix_valid (cix_build mem (Some sels) (length sels))"
  shows "index_ok (cix_build mem (Some sels) (length sels)) sels"
proof (cases "sels = [] \<or> length sels > UINT32_MAX \<or> \<not> mem (length sels * 16) \<or> \<not> mem (length sels * 4)")
  case True
  then have "sels = []" using assms by (auto simp: cix_build_def cix_empty_def split: if_splits)
  then show ?thesis by (simp add: cix_build_def cix_empty_def index_ok_def)
next
  case False
  obtain ks us where l: "index_loop 0 sels = (ks, us)" by fastforce
  have "cix_build mem (Some sels) (length sels)
      = \<lparr>ix_keyed = sort_key entry_rank ks, ix_universal = us, ix_nsels = length sels, ix_valid = True\<rparr>"
    using False l by (simp add: cix_build_def)
  then show ?thesis using index_loop_contents [OF l] sorted_by_rank [of "sort_key entry_rank ks"] by (simp add: index_ok_def)
qed

definition el_keys :: "css_view \<Rightarrow> 64 word set" where
  "el_keys v = {key_of_token KEY_ID i | i. el_id v = Some i} \<union> {key_of KEY_TAG t True | t. el_tag v = Some t}
     \<union> {key_of_token KEY_CLASS c | c. Some c \<in> set (el_classes v)}"

definition runs_hold :: "cix_index \<Rightarrow> 64 word set \<Rightarrow> nat list list \<Rightarrow> bool" where
  "runs_hold idx ks runs \<longleftrightarrow> (\<forall>xs \<in> set runs. sorted xs)
     \<and> set (concat runs) = set (ix_universal idx) \<union> {ce_sel e | e. e \<in> set (ix_keyed idx) \<and> ce_key e \<in> ks}"

lemma add_bucket_holds:
  assumes "index_ok idx sels" and "runs_hold idx ks runs"
  shows "runs_hold idx (insert k ks) (add_bucket idx k runs)"
proof -
  have e: "takeWhile (\<lambda>e. ce_key e = k) (drop (lower_bound idx k) (ix_keyed idx)) = filter (\<lambda>e. ce_key e = k) (ix_keyed idx)"
    by (rule bucket_entries) (use assms(1) in \<open>simp add: index_ok_def\<close>)
  have b: "sorted (map ce_sel (filter (\<lambda>e. ce_key e = k) (ix_keyed idx)))" using assms(1) unfolding index_ok_def by blast
  have "set (concat (add_bucket idx k runs)) = set (concat runs) \<union> set (map ce_sel (filter (\<lambda>e. ce_key e = k) (ix_keyed idx)))"
    unfolding add_bucket_def e Let_def by (cases "filter (\<lambda>e. ce_key e = k) (ix_keyed idx) = []") (simp_all del: set_concat set_map set_filter add: Un_commute)
  moreover have "\<forall>xs \<in> set (add_bucket idx k runs). sorted xs"
    using assms(2) b unfolding add_bucket_def e Let_def runs_hold_def by simp
  ultimately show ?thesis using assms(2) unfolding runs_hold_def by auto
qed

lemma cix_runs_hold:
  assumes "index_ok idx sels"
  shows "runs_hold idx (el_keys v) (cix_runs idx v)"
proof -
  let ?I = "{key_of_token KEY_ID i | i. el_id v = Some i}" and ?T = "{key_of KEY_TAG t True | t. el_tag v = Some t}"
  define r0 where "r0 = (if ix_universal idx \<noteq> [] then [ix_universal idx] else [])"
  define r1 where "r1 = (case el_id v of None \<Rightarrow> r0 | Some i \<Rightarrow> add_bucket idx (key_of_token KEY_ID i) r0)"
  define r2 where "r2 = (case el_tag v of None \<Rightarrow> r1 | Some t \<Rightarrow> add_bucket idx (key_of KEY_TAG t True) r1)"
  have "runs_hold idx {} r0" using assms by (auto simp: r0_def runs_hold_def index_ok_def)
  then have "runs_hold idx ?I r1" using add_bucket_holds [OF assms] by (cases "el_id v") (auto simp: r1_def)
  then have "runs_hold idx (?I \<union> ?T) r2" using add_bucket_holds [OF assms, of ?I] by (cases "el_tag v") (auto simp: r2_def)
  moreover have "runs_hold idx (ks \<union> {key_of_token KEY_CLASS c | c. Some c \<in> set cs})
      (foldl (\<lambda>r c. case c of None \<Rightarrow> r | Some t \<Rightarrow> add_bucket idx (key_of_token KEY_CLASS t) r) r cs)"
    if "runs_hold idx ks r" for ks r cs
    using that
  proof (induction cs arbitrary: ks r)
    case (Cons c cs)
    have ins: "insert k A \<union> B = A \<union> insert k B" for k :: "64 word" and A B by blast
    have "{key_of_token KEY_CLASS t | t. Some t \<in> set (c # cs)} =
        (case c of None \<Rightarrow> {} | Some t \<Rightarrow> {key_of_token KEY_CLASS t}) \<union> {key_of_token KEY_CLASS t | t. Some t \<in> set cs}"
      by (cases c) auto
    then show ?case using Cons.IH [OF Cons.prems] Cons.IH [OF add_bucket_holds [OF assms Cons.prems]]
      by (cases c) (simp_all add: ins)
  qed simp
  ultimately show ?thesis unfolding cix_runs_def el_keys_def Let_def r0_def r1_def r2_def by blast
qed

text \<open>A selector that matches goes by a key the element has.\<close>

lemma key_of_lower: "lower_str s = lower_str t \<Longrightarrow> key_of k s True = key_of k t True"
proof -
  have "key_of k s True = foldl fnv_step ((1469598103934665603 XOR k) * 1099511628211) (lower_str s)" for s
    by (simp add: key_of_def foldl_map)
  then show "lower_str s = lower_str t \<Longrightarrow> ?thesis" by simp
qed

lemma key_of_ident: "csel_ident_eq s t \<Longrightarrow> key_of_token k t = key_of k s False"
  by (auto simp: csel_ident_eq_def key_of_token_def split: if_splits)

lemma sel_key_in:
  assumes "compound_sat sel target allow (sel_parts sel ! (nparts sel - 1)) v" and "sel_key sel = Some k"
  shows "k \<in> el_keys v"
proof -
  let ?c = "sel_parts sel ! (nparts sel - 1)"
  consider (id) i where "cp_id ?c = Some i" "k = key_of KEY_ID i False"
    | (cls) c cs where "cp_cls ?c = c # cs" "k = key_of KEY_CLASS c False"
    | (tag) t where "cp_tag ?c = Some t" "k = key_of KEY_TAG t True"
    using assms(2) by (auto simp: sel_key_def Let_def split: if_splits option.splits list.splits)
  then show ?thesis
  proof cases
    case id
    then obtain n where "el_id v = Some n" "csel_ident_eq i n" using assms(1)
      by (auto simp: compound_sat_def id_slot_matches_def split: option.splits)
    then show ?thesis using id(2) key_of_ident [of i n KEY_ID] by (auto simp: el_keys_def)
  next
    case cls
    then obtain n where "Some n \<in> set (el_classes v)" "csel_ident_eq c n" using assms(1)
      by (fastforce simp: compound_sat_def has_class_def list_ex_iff split: option.splits)
    then show ?thesis using cls(2) key_of_ident [of c n KEY_CLASS] by (auto simp: el_keys_def)
  next
    case tag
    then obtain n where "el_tag v = Some n" "csel_ci_eq t n" using assms(1)
      by (auto simp: compound_sat_def tag_slot_matches_def split: option.splits)
    then show ?thesis using tag(2) key_of_lower [of t n KEY_TAG] by (auto simp: el_keys_def csel_ci_eq_iff)
  qed
qed

lemma cix_candidates_complete:
  assumes "index_ok idx sels" and "cix_candidates mem idx v cap = Some cs"
  shows "sorted_wrt (<) cs" and "set cs \<subseteq> {..<length sels}"
    and "i < length sels \<Longrightarrow> compound_sat (sels ! i) target allow (sel_parts (sels ! i) ! (nparts (sels ! i) - 1)) v \<Longrightarrow> i \<in> set cs"
proof -
  have m: "merge_runs mem cap (cix_runs idx v) [] = Some cs" using assms(2) by (auto simp: cix_candidates_def split: if_splits)
  have h: "runs_hold idx (el_keys v) (cix_runs idx v)" by (rule cix_runs_hold [OF assms(1)])
  have r: "sorted_wrt (<) cs" "set cs = set (concat (cix_runs idx v))"
    using merge_runs_result [OF m conjunct1 [OF h [unfolded runs_hold_def]]] by simp_all
  have c: "set cs = {i. i < length sels \<and> sel_key (sels ! i) = None} \<union> {i. i < length sels \<and> (\<exists>k \<in> el_keys v. sel_key (sels ! i) = Some k)}"
  proof -
    have "{ce_sel e | e. e \<in> set (ix_keyed idx) \<and> ce_key e \<in> el_keys v} = {i. i < length sels \<and> (\<exists>k \<in> el_keys v. sel_key (sels ! i) = Some k)}"
    proof -
      have k: "set (ix_keyed idx) = {\<lparr>ce_key = k, ce_sel = i\<rparr> | i k. i < length sels \<and> sel_key (sels ! i) = Some k}"
        using assms(1) unfolding index_ok_def by blast
      show ?thesis unfolding k by force
    qed
    moreover have "set (ix_universal idx) = {i. i < length sels \<and> sel_key (sels ! i) = None}" using assms(1) unfolding index_ok_def by blast
    moreover have "set (concat (cix_runs idx v)) = set (ix_universal idx) \<union> {ce_sel e | e. e \<in> set (ix_keyed idx) \<and> ce_key e \<in> el_keys v}"
      using h unfolding runs_hold_def by (rule conjunct2)
    ultimately show ?thesis unfolding r(2) by simp
  qed
  show "sorted_wrt (<) cs" by (rule r(1))
  show "set cs \<subseteq> {..<length sels}" unfolding c by auto
  show "i \<in> set cs" if "i < length sels" "compound_sat (sels ! i) target allow (sel_parts (sels ! i) ! (nparts (sels ! i) - 1)) v"
    using that sel_key_in [OF that(2)] unfolding c by (cases "sel_key (sels ! i)") auto
qed

section \<open>A prefilter in front of a scan\<close>

text \<open>What the cascade relies on when it asks an index for candidates: ascending positions of the sheet, without
  duplicates, that leave out no selector whose subject can match. A scan of the candidates then finds what a scan of
  the whole sheet finds, in the same order.\<close>

lemma filter_sorted_same:
  assumes "sorted_wrt (<) cs" and "set cs \<subseteq> {..<n}" and "\<And>i. i < n \<Longrightarrow> P i \<Longrightarrow> i \<in> set cs"
  shows "filter P cs = filter P [0..<n]"
proof -
  have s: "sorted_wrt (<) (filter P cs)" "sorted_wrt (<) (filter P [0..<n])"
    using assms(1) sorted_wrt_filter strict_sorted_iff by (auto simp: sorted_wrt_filter)
  have "set (filter P cs) = set (filter P [0..<n])" using assms(2,3) by auto
  then show ?thesis using s strict_sorted_equal by metis
qed

locale rule_prefilter =
  fixes candidates :: "'idx \<Rightarrow> 'el \<Rightarrow> nat list option"
    and index_for :: "'idx \<Rightarrow> 'sel list \<Rightarrow> bool"
    and can_match :: "'sel \<Rightarrow> 'el \<Rightarrow> bool"
  assumes ascending: "index_for idx sels \<Longrightarrow> candidates idx el = Some cs \<Longrightarrow> sorted_wrt (<) cs"
    and in_range: "index_for idx sels \<Longrightarrow> candidates idx el = Some cs \<Longrightarrow> set cs \<subseteq> {..<length sels}"
    and complete: "index_for idx sels \<Longrightarrow> candidates idx el = Some cs \<Longrightarrow> i < length sels \<Longrightarrow> can_match (sels ! i) el \<Longrightarrow> i \<in> set cs"
begin

lemma scan_candidates:
  assumes "index_for idx sels" and "candidates idx el = Some cs" and "\<And>i. i < length sels \<Longrightarrow> P i \<Longrightarrow> can_match (sels ! i) el"
  shows "filter P cs = filter P [0..<length sels]" and "filter (\<lambda>i. i < length sels) cs = cs"
proof -
  show "filter P cs = filter P [0..<length sels]"
    using filter_sorted_same [OF ascending [OF assms(1,2)] in_range [OF assms(1,2)]] complete [OF assms(1,2)] assms(3) by blast
  show "filter (\<lambda>i. i < length sels) cs = cs" using in_range [OF assms(1,2)] by (auto simp: filter_id_conv)
qed

end

definition subject_sat :: "css_sel \<Rightarrow> css_view \<Rightarrow> bool" where
  "subject_sat sel v = compound_sat sel None True (sel_parts sel ! (nparts sel - 1)) v"

interpretation cix: rule_prefilter "\<lambda>idx v. cix_candidates mem idx v cap" index_ok subject_sat for mem cap
  by unfold_locales (auto simp: subject_sat_def dest: cix_candidates_complete)

section \<open>The rules that apply\<close>

lemma match_loop_scan:
  "match_loop mem sels el want cand mcap mt = Some mt' \<Longrightarrow>
   mt' = mt @ scan_all sels el want (filter (\<lambda>si. si < length sels) cand)"
  by (induction mem sels el want cand mcap mt rule: match_loop.induct)
    (auto simp: Let_def split: if_splits option.splits)

lemma scan_all_filter:
  "scan_all sels el want sis =
     map (\<lambda>i. (i, the (match_one (sels ! i) el want))) (filter (\<lambda>i. match_one (sels ! i) el want \<noteq> None) sis)"
  by (induction sis) (auto split: option.splits)

text \<open>What should apply: the selectors that select the element, with the pseudo-element of their subject.\<close>

definition rule_for :: "css_sel \<Rightarrow> css_element \<Rightarrow> int \<Rightarrow> css_pseudo_kind option option" where
  "rule_for sel el want =
     (if selects sel None True (nparts sel - 1) el then
        let pk = reported_pseudo True (sel_parts sel ! (nparts sel - 1)) in
        if want \<noteq> 0 then (if pk = pseudo_of want then Some None else None)
        else (if pk = Some PSEUDO_PLACEHOLDER then None else Some pk)
      else None)"

definition matching_rules :: "css_sel list \<Rightarrow> css_element \<Rightarrow> int \<Rightarrow> (nat \<times> css_pseudo_kind option) list" where
  "matching_rules sels el want =
     map (\<lambda>i. (i, the (rule_for (sels ! i) el want))) (filter (\<lambda>i. rule_for (sels ! i) el want \<noteq> None) [0..<length sels])"

lemma match_one_rule: "sel_wf sel \<Longrightarrow> views_ok el \<Longrightarrow> match_one sel el want = rule_for sel el want"
proof -
  assume w: "sel_wf sel" and v: "views_ok el"
  have "nparts sel - 1 < nparts sel" using w by (auto simp: sel_wf_def)
  then have "csel_matches sel el None True =
      (if selects sel None True (nparts sel - 1) el then Some (reported_pseudo True (sel_parts sel ! (nparts sel - 1))) else None)"
    unfolding csel_matches_def by (rule complex_matches_selects [OF w _ v])
  then show ?thesis using csel_anc_reject_sound [OF w v] by (auto simp: match_one_def rule_for_def Let_def)
qed

lemma applied_rules_matching:
  assumes "list_all sel_wf (sh_sels sheet)" and "views_ok el"
    and "sh_idx sheet = cix_build mem' (Some (take k (sh_sels sheet))) k" and "k \<le> sh_nsels sheet"
  shows "applied_rules mem sheet el want = matching_rules (sh_sels sheet) el want"
proof -
  let ?S = "sh_sels sheet"
  have one: "match_one (?S ! i) el want = rule_for (?S ! i) el want" if "i < length ?S" for i
    using match_one_rule [OF _ assms(2)] assms(1) that by (simp add: list_all_length)
  have "matching_rules ?S el want = scan_all ?S el want [0..<length ?S]"
    unfolding matching_rules_def scan_all_filter using one by (auto intro!: map_cong filter_cong)
  moreover have "mt = scan_all ?S el want [0..<length ?S]" if mp: "match_pass mem sheet el want = Some mt" for mt
  proof -
    define ncand where "ncand = (if ix_valid (sh_idx sheet) \<and> ix_nsels (sh_idx sheet) = length ?S
        then cix_candidates mem (sh_idx sheet) (el_view el) 0 else None)"
    have mt: "mt = scan_all ?S el want (filter (\<lambda>si. si < length ?S) (case ncand of None \<Rightarrow> [0..<length ?S] | Some cand \<Rightarrow> cand))"
      using match_loop_scan mp unfolding match_pass_def Let_def ncand_def by fastforce
    show ?thesis
    proof (cases ncand)
      case None
      then show ?thesis using mt by simp
    next
      case (Some cs)
      then have v: "ix_valid (sh_idx sheet)" "ix_nsels (sh_idx sheet) = length ?S"
          "cix_candidates mem (sh_idx sheet) (el_view el) 0 = Some cs" unfolding ncand_def by (auto split: if_splits)
      have "k = length ?S" using v(1,2) assms(3,4)
        by (auto simp: cix_build_def cix_empty_def split: if_splits prod.splits)
      then have idx: "sh_idx sheet = cix_build mem' (Some ?S) (length ?S)" using assms(3) by simp
      have ok: "index_ok (sh_idx sheet) ?S" using cix_build_ok v(1) unfolding idx by blast
      have can: "subject_sat (?S ! i) (el_view el)" if i: "i < length ?S" "match_one (?S ! i) el want \<noteq> None" for i
      proof -
        have "selects (?S ! i) None True (nparts (?S ! i) - 1) el" using i(2) unfolding one [OF i(1)] rule_for_def by presburger
        then show ?thesis unfolding subject_sat_def by (cases "nparts (?S ! i) - 1") (auto simp: selects_0 selects_Suc)
      qed
      show ?thesis unfolding mt Some scan_all_filter option.case
        using cix.scan_candidates [OF ok v(3) can] by simp
    qed
  qed
  ultimately show ?thesis unfolding applied_rules_def by (cases "match_pass mem sheet el want") auto
qed

end
