(* ===== verification/Css_Chain.thy ===== *)
theory Css_Chain
  imports Css_Index
begin

unbundle bit_operations_syntax

text \<open>
  The views of elements that \<^verbatim>\<open>src/css_chain.c\<close> builds for the selector matcher. A document is what the HTML library answers
  about its nodes (numbers stand for node pointers): type, parent, the sibling nodes on both sides, number of
  children, local name, attributes. \<^verbatim>\<open>build_chain\<close> makes the view of an element with its ancestors and preceding
  siblings from scratch; \<^verbatim>\<open>cch_element_style_path\<close> keeps the path of the last element and refills only what changed.
  The theorems show that the cached path yields the same view as the rebuilt chain for any sequence of elements,
  and that the views have the feature bits the matcher relies on.
\<close>

section \<open>Model\<close>

subsection \<open>Documents\<close>

record document =
  doc_element :: "nat \<Rightarrow> bool"
  doc_parent :: "nat \<Rightarrow> nat option"
  doc_before :: "nat \<Rightarrow> nat list"
  doc_after :: "nat \<Rightarrow> nat list"
  doc_children :: "nat \<Rightarrow> nat"
  doc_name :: "nat \<Rightarrow> cptr"
  doc_attribute :: "nat \<Rightarrow> string \<Rightarrow> cptr"
  doc_attributes :: "nat \<Rightarrow> (cptr \<times> cptr) list"
  doc_tree :: "nat \<Rightarrow> dom_node"

definition CCH_CHAIN_MAX :: nat where
  "CCH_CHAIN_MAX = 32"

definition CCH_SIB_MAX :: nat where
  "CCH_SIB_MAX = 16"

definition CCH_NTH_MAX :: nat where
  "CCH_NTH_MAX = 1024"

definition CCH_TAG_MAX :: nat where
  "CCH_TAG_MAX = 64"

definition CCH_ID_MAX :: nat where
  "CCH_ID_MAX = 128"

definition CCH_CLASS_BUF :: nat where
  "CCH_CLASS_BUF = 256"

definition CCH_MAX_CLASSES :: nat where
  "CCH_MAX_CLASSES = 16"

definition CCH_CLASS_SPILL_MAX :: nat where
  "CCH_CLASS_SPILL_MAX = 65536"

definition CCH_MAX_ATTRS :: nat where
  "CCH_MAX_ATTRS = 16"

definition CCH_ATTR_BUF :: nat where
  "CCH_ATTR_BUF = 512"

subsection \<open>The data of one element\<close>

definition cls_space :: "char \<Rightarrow> bool" where
  "cls_space c \<longleftrightarrow> c = CHR '' '' \<or> c = CHR 0x09 \<or> c = CHR 0x0A \<or> c = CHR 0x0D \<or> c = CHR 0x0C"

function class_count :: "string \<Rightarrow> nat" where
  "class_count v =
     (let st = dropWhile cls_space v in
      if st = [] then 0 else Suc (class_count (dropWhile (\<lambda>c. \<not> cls_space c) st)))"
  by pat_completeness auto

lemma class_rest_shorter:
  "dropWhile cls_space v \<noteq> [] \<Longrightarrow> length (dropWhile (\<lambda>c. \<not> cls_space c) (dropWhile cls_space v)) < length v"
proof -
  assume n: "dropWhile cls_space v \<noteq> []"
  then have "\<not> cls_space (hd (dropWhile cls_space v))" by (rule hd_dropWhile)
  then have "length (dropWhile (\<lambda>c. \<not> cls_space c) (dropWhile cls_space v)) < length (dropWhile cls_space v)"
    using length_dropWhile_less [of "dropWhile cls_space v" "\<lambda>c. \<not> cls_space c"] n by simp
  then show ?thesis using length_dropWhile_le [of cls_space v] by linarith
qed

termination class_count
  by (relation "measure length") (use class_rest_shorter in auto)

text \<open>The loop that cuts the copy of the attribute into strings: white space turns into NUL when the loop passes over it,
  and the loop stops once \<open>cap\<close> tokens are found, so that the last of them reads to the end of the buffer.\<close>

function class_tokens :: "nat \<Rightarrow> string \<Rightarrow> string list" where
  "class_tokens cap v =
     (let st = dropWhile cls_space v in
      if cap = 0 \<or> st = [] then []
      else if cap = 1 then [st]
      else takeWhile (\<lambda>c. \<not> cls_space c) st # class_tokens (cap - 1) (dropWhile (\<lambda>c. \<not> cls_space c) st))"
  by pat_completeness auto

termination class_tokens
  by (relation "measure fst") auto

declare class_count.simps [simp del] class_tokens.simps [simp del]

definition split_classes :: "allocator \<Rightarrow> string \<Rightarrow> string list" where
  "split_classes mem v =
     (let n = length v; ntok = class_count v in
      if ntok = 0 then []
      else if n \<ge> CCH_CLASS_BUF \<or> ntok > CCH_MAX_CLASSES then
        if mem (ntok * 8 + n + 1) then class_tokens ntok v
        else if n \<ge> CCH_CLASS_BUF then [] else class_tokens CCH_MAX_CLASSES v
      else class_tokens CCH_MAX_CLASSES v)"

fun fill_attrs :: "nat \<Rightarrow> nat \<Rightarrow> (cptr \<times> cptr) list \<Rightarrow> (cptr \<times> cptr) list" where
  "fill_attrs na off [] = []"
| "fill_attrs na off ((an, av) # ats) =
     (if na \<ge> CCH_MAX_ATTRS then []
      else (case an of
         None \<Rightarrow> fill_attrs na off ats
       | Some a \<Rightarrow>
           if a = [] then fill_attrs na off ats
           else let v = (case av of None \<Rightarrow> [] | Some x \<Rightarrow> x) in
             if off + length a + 1 + length v + 1 > CCH_ATTR_BUF then []
             else (Some (lower_str a), Some v) # fill_attrs (na + 1) (off + length a + 1 + length v + 1) ats))"

definition bounded_text :: "nat \<Rightarrow> cptr \<Rightarrow> cptr" where
  "bounded_text m t = (case t of None \<Rightarrow> None | Some s \<Rightarrow> if 0 < length s \<and> length s < m then Some s else None)"

definition fill_css_node :: "allocator \<Rightarrow> document \<Rightarrow> nat \<Rightarrow> css_view" where
  "fill_css_node mem doc x =
     \<lparr>el_tag = bounded_text CCH_TAG_MAX (doc_name doc x), el_id = bounded_text CCH_ID_MAX (doc_attribute doc x ''id''),
      el_classes = (case bounded_text CCH_CLASS_SPILL_MAX (doc_attribute doc x ''class'') of None \<Rightarrow> []
        | Some c \<Rightarrow> map Some (split_classes mem c)),
      el_attrs = fill_attrs 0 0 (doc_attributes doc x), el_nth = 0, el_nsib = 0, el_nth_of_type = 0, el_nsib_of_type = 0,
      el_child_count = -1, el_dom_node = Some (doc_tree doc x), el_state = 0, el_anc_bloom = 0, el_own_bloom = 0,
      el_anc_bloom_valid = False\<rparr>"

subsection \<open>Positions\<close>

text \<open>A counting loop that gives up above a limit.\<close>

fun count_upto :: "nat \<Rightarrow> (nat \<Rightarrow> bool) \<Rightarrow> nat list \<Rightarrow> nat \<Rightarrow> nat option" where
  "count_upto lim P [] n = Some n"
| "count_upto lim P (x # xs) n = (if P x then (if Suc n > lim then None else count_upto lim P xs (Suc n)) else count_upto lim P xs n)"

definition position_by :: "(nat \<Rightarrow> bool) \<Rightarrow> document \<Rightarrow> nat \<Rightarrow> int \<times> int" where
  "position_by P doc x =
     (case count_upto CCH_NTH_MAX P (doc_before doc x) 0 of
        None \<Rightarrow> (0, 0)
      | Some before \<Rightarrow>
          (case count_upto (CCH_NTH_MAX - before) P (doc_after doc x) 0 of
             None \<Rightarrow> (0, 0)
           | Some after \<Rightarrow> (int before + 1, int before + 1 + int after)))"

definition sibling_position :: "document \<Rightarrow> nat \<Rightarrow> int \<times> int" where
  "sibling_position doc x = position_by (doc_element doc) doc x"

definition sibling_type_position :: "document \<Rightarrow> nat \<Rightarrow> int \<times> int" where
  "sibling_type_position doc x =
     (if doc_name doc x = None \<or> doc_name doc x = Some [] then (0, 0)
      else position_by (\<lambda>p. doc_element doc p \<and> doc_name doc p = doc_name doc x) doc x)"

definition count_children :: "document \<Rightarrow> nat \<Rightarrow> int" where
  "count_children doc x = int (doc_children doc x)"

definition with_structure :: "document \<Rightarrow> nat \<Rightarrow> css_view \<Rightarrow> css_view" where
  "with_structure doc x v =
     v\<lparr>el_nth := fst (sibling_position doc x), el_nsib := snd (sibling_position doc x),
       el_nth_of_type := fst (sibling_type_position doc x), el_nsib_of_type := snd (sibling_type_position doc x),
       el_child_count := count_children doc x\<rparr>"

definition with_blooms :: "64 word \<Rightarrow> css_view \<Rightarrow> css_view" where
  "with_blooms acc v = v\<lparr>el_anc_bloom := acc, el_anc_bloom_valid := True, el_own_bloom := csel_element_feature_bits v\<rparr>"

subsection \<open>The chain from scratch\<close>

text \<open>The loop up the parents, at most \<open>n\<close> elements.\<close>

fun up_chain :: "document \<Rightarrow> nat \<Rightarrow> nat option \<Rightarrow> nat list" where
  "up_chain doc 0 p = []"
| "up_chain doc (Suc n) p =
     (case p of None \<Rightarrow> [] | Some x \<Rightarrow> if doc_element doc x then x # up_chain doc n (doc_parent doc x) else [])"

text \<open>The chain of a list of nodes, subject first: the top element and the accumulated feature bits.\<close>

fun link_chain :: "allocator \<Rightarrow> document \<Rightarrow> bool \<Rightarrow> nat list \<Rightarrow> css_element option \<times> 64 word" where
  "link_chain mem doc structural [] = (None, 0)"
| "link_chain mem doc structural (x # xs) =
     (case link_chain mem doc structural xs of (p, acc) \<Rightarrow>
        (let v = with_blooms acc (fill_css_node mem doc x);
             w = (if structural then with_structure doc x v else v)
         in (Some (Element w p None), acc OR el_own_bloom v)))"

text \<open>The views of the preceding siblings, the \<open>ns\<close>-th first.\<close>

fun link_sibs :: "allocator \<Rightarrow> document \<Rightarrow> css_element option \<Rightarrow> int \<Rightarrow> int \<Rightarrow> nat \<Rightarrow> nat list \<Rightarrow> css_element option" where
  "link_sibs mem doc par nth0 nsib0 ns [] = None"
| "link_sibs mem doc par nth0 nsib0 ns (x # xs) =
     (if ns \<ge> CCH_SIB_MAX then None
      else if \<not> doc_element doc x then link_sibs mem doc par nth0 nsib0 ns xs
      else let v = fill_css_node mem doc x;
               v1 = (if nth0 > int ns + 1 then v\<lparr>el_nth := nth0 - (int ns + 1), el_nsib := nsib0\<rparr> else v)
        in Some (Element (v1\<lparr>el_child_count := count_children doc x\<rparr>) par (link_sibs mem doc par nth0 nsib0 (Suc ns) xs)))"

definition with_prev :: "allocator \<Rightarrow> document \<Rightarrow> nat \<Rightarrow> css_element \<Rightarrow> css_element" where
  "with_prev mem doc x e =
     Element (el_view e) (el_parent e)
       (link_sibs mem doc (el_parent e) (el_nth (el_view e)) (el_nsib (el_view e)) 0 (doc_before doc x))"

definition build_chain :: "allocator \<Rightarrow> document \<Rightarrow> nat \<Rightarrow> bool \<Rightarrow> css_element option" where
  "build_chain mem doc x structural =
     (case fst (link_chain mem doc structural (up_chain doc CCH_CHAIN_MAX (Some x))) of
        None \<Rightarrow> None
      | Some e \<Rightarrow> Some (if structural then with_prev mem doc x e else e))"

definition cch_element_matches :: "allocator \<Rightarrow> document \<Rightarrow> nat \<Rightarrow> css_sel \<Rightarrow> bool" where
  "cch_element_matches mem doc x sel =
     (case build_chain mem doc x (csel_needs_structure sel) of
        None \<Rightarrow> False
      | Some e \<Rightarrow> csel_matches sel e None False \<noteq> None)"

definition cch_element_matches_any :: "allocator \<Rightarrow> document \<Rightarrow> nat \<Rightarrow> css_sel list \<Rightarrow> bool" where
  "cch_element_matches_any mem doc x sels =
     (let own = csel_element_feature_bits (fill_css_node mem doc x) in
      list_ex (\<lambda>s. sel_subj_req s AND NOT own = 0 \<and> cch_element_matches mem doc x s) sels)"

subsection \<open>The cached path\<close>

text \<open>The root-first path of the last element: a node pointer and the view linked to the one before it.\<close>

type_synonym cch_path = "(nat \<times> css_element) list"

text \<open>The loop up the parents that gives up (\<open>None\<close>) on a chain longer than \<open>n\<close>.\<close>

fun path_up :: "document \<Rightarrow> nat \<Rightarrow> nat option \<Rightarrow> nat list option" where
  "path_up doc n None = Some []"
| "path_up doc 0 (Some x) = (if doc_element doc x then None else Some [])"
| "path_up doc (Suc n) (Some x) =
     (if doc_element doc x then map_option ((#) x) (path_up doc n (doc_parent doc x)) else Some [])"

fun common_prefix :: "cch_path \<Rightarrow> nat list \<Rightarrow> nat" where
  "common_prefix ((y, e) # pa) (x # xs) = (if y = x then Suc (common_prefix pa xs) else 0)"
| "common_prefix pa xs = 0"

definition path_node :: "allocator \<Rightarrow> document \<Rightarrow> css_element option \<Rightarrow> nat \<Rightarrow> css_element" where
  "path_node mem doc par x =
     (let acc = (case par of None \<Rightarrow> 0 | Some p \<Rightarrow> el_anc_bloom (el_view p) OR el_own_bloom (el_view p))
      in Element (with_structure doc x (with_blooms acc (fill_css_node mem doc x))) par None)"

fun path_fill :: "allocator \<Rightarrow> document \<Rightarrow> css_element option \<Rightarrow> nat list \<Rightarrow> cch_path" where
  "path_fill mem doc par [] = []"
| "path_fill mem doc par (x # xs) = (let e = path_node mem doc par x in (x, e) # path_fill mem doc (Some e) xs)"

text \<open>The view that the path hands to the cascade for element \<open>x\<close>, and the path it leaves behind. \<open>ok\<close> says whether the
  storage of the path could be allocated.\<close>

definition cch_path_resolve :: "allocator \<Rightarrow> document \<Rightarrow> bool \<Rightarrow> cch_path \<Rightarrow> nat \<Rightarrow> cch_path \<times> css_element option" where
  "cch_path_resolve mem doc ok pa x =
     (case path_up doc CCH_CHAIN_MAX (Some x) of
        None \<Rightarrow> (pa, build_chain mem doc x True)
      | Some up \<Rightarrow>
          if up = [] \<or> \<not> ok then (pa, build_chain mem doc x True)
          else (let ids = rev up; common = common_prefix pa ids; kept = take common pa;
                    par = (if kept = [] then None else Some (snd (last kept)));
                    pa' = kept @ path_fill mem doc par (drop common ids)
                in (pa', Some (with_prev mem doc (fst (last pa')) (snd (last pa'))))))"

text \<open>A walk of the document that resolves one element after the other with one path.\<close>

fun cch_resolve_all :: "allocator \<Rightarrow> document \<Rightarrow> bool \<Rightarrow> cch_path \<Rightarrow> nat list \<Rightarrow> css_element option list" where
  "cch_resolve_all mem doc ok pa [] = []"
| "cch_resolve_all mem doc ok pa (x # xs) =
     (case cch_path_resolve mem doc ok pa x of (pa', e) \<Rightarrow> e # cch_resolve_all mem doc ok pa' xs)"

section \<open>The cached path is the chain\<close>

text \<open>A path of the document: every entry is linked to the one before it.\<close>

definition path_ok :: "allocator \<Rightarrow> document \<Rightarrow> cch_path \<Rightarrow> bool" where
  "path_ok mem doc pa \<longleftrightarrow> pa = path_fill mem doc None (map fst pa)"

definition last_el :: "css_element option \<Rightarrow> cch_path \<Rightarrow> css_element option" where
  "last_el par pa = (if pa = [] then par else Some (snd (last pa)))"

lemma path_fill_append: "path_fill mem doc par (xs @ ys) = path_fill mem doc par xs @ path_fill mem doc (last_el par (path_fill mem doc par xs)) ys"
  by (induction xs arbitrary: par) (auto simp: Let_def last_el_def)

lemma map_fst_path_fill [simp]: "map fst (path_fill mem doc par xs) = xs"
  by (induction xs arbitrary: par) (auto simp: Let_def)

lemma length_path_fill [simp]: "length (path_fill mem doc par xs) = length xs"
  by (metis length_map map_fst_path_fill)

lemma path_fill_empty [simp]: "path_fill mem doc par xs = [] \<longleftrightarrow> xs = []"
  by (metis length_0_conv length_path_fill)

lemma common_prefix_take: "map fst (take (common_prefix pa xs) pa) = take (common_prefix pa xs) xs"
  by (induction pa xs rule: common_prefix.induct) auto

lemma path_ok_take:
  assumes "path_ok mem doc pa"
  shows "take n pa = path_fill mem doc None (map fst (take n pa))"
proof -
  have "pa = path_fill mem doc None (map fst (take n pa) @ map fst (drop n pa))"
    using assms unfolding path_ok_def by (metis append_take_drop_id map_append)
  then have "take n pa = take n (path_fill mem doc None (map fst (take n pa)) @
      path_fill mem doc (last_el None (path_fill mem doc None (map fst (take n pa)))) (map fst (drop n pa)))"
    unfolding path_fill_append by simp
  then show ?thesis by (cases "n \<le> length pa") auto
qed

lemma path_refill:
  assumes "path_ok mem doc pa"
  shows "take (common_prefix pa ids) pa
      @ path_fill mem doc (last_el None (take (common_prefix pa ids) pa)) (drop (common_prefix pa ids) ids) = path_fill mem doc None ids"
proof -
  let ?n = "common_prefix pa ids"
  have "take ?n pa = path_fill mem doc None (take ?n ids)"
    using path_ok_take [OF assms, of ?n] by (simp add: common_prefix_take)
  then show ?thesis using path_fill_append [of mem doc None "take ?n ids" "drop ?n ids"] by simp
qed

lemma path_up_chain: "path_up doc n p = Some up \<Longrightarrow> up = up_chain doc n p"
proof (induction doc n p arbitrary: up rule: path_up.induct)
  case (1 doc n)
  then show ?case by (cases n) simp_all
qed (auto split: if_splits)

lemma up_chain_first:
  "up_chain doc CCH_CHAIN_MAX (Some x) = (if doc_element doc x then x # up_chain doc 31 (doc_parent doc x) else [])"
proof -
  have n: "CCH_CHAIN_MAX = Suc 31" by (simp add: CCH_CHAIN_MAX_def)
  show ?thesis unfolding n up_chain.simps option.case by simp
qed

lemma view_blooms [simp]:
  "el_anc_bloom (with_structure doc x v) = el_anc_bloom v" "el_own_bloom (with_structure doc x v) = el_own_bloom v"
  "el_anc_bloom_valid (with_structure doc x v) = el_anc_bloom_valid v" "el_tag (with_structure doc x v) = el_tag v"
  "csel_element_feature_bits (with_structure doc x v) = csel_element_feature_bits v"
  "el_anc_bloom (with_blooms acc v) = acc" "el_own_bloom (with_blooms acc v) = csel_element_feature_bits v"
  "csel_element_feature_bits (with_blooms acc v) = csel_element_feature_bits v"
  "el_anc_bloom_valid (with_blooms acc v)" "el_tag (with_blooms acc v) = el_tag v"
  by (simp_all add: with_structure_def with_blooms_def csel_element_feature_bits_def)

definition bloom_above :: "css_element option \<Rightarrow> 64 word" where
  "bloom_above par = (case par of None \<Rightarrow> 0 | Some p \<Rightarrow> el_anc_bloom (el_view p) OR el_own_bloom (el_view p))"

lemma link_chain_acc: "snd (link_chain mem doc structural xs) = bloom_above (fst (link_chain mem doc structural xs))"
  by (cases xs) (auto simp: bloom_above_def Let_def split: prod.splits)

lemma link_chain_path: "fst (link_chain mem doc True xs) = last_el None (path_fill mem doc None (rev xs))"
proof (induction xs)
  case (Cons x xs)
  obtain p acc where r: "link_chain mem doc True xs = (p, acc)" by fastforce
  have acc: "acc = bloom_above p" using link_chain_acc [of mem doc True xs] r by simp
  have "p = last_el None (path_fill mem doc None (rev xs))" using Cons r by simp
  moreover have "fst (link_chain mem doc True (x # xs)) = Some (path_node mem doc p x)"
    unfolding link_chain.simps r by (simp add: Let_def path_node_def acc bloom_above_def)
  ultimately show ?case by (simp add: path_fill_append Let_def last_el_def)
qed (simp add: last_el_def)

lemma cch_path_resolve_chain:
  assumes "path_ok mem doc pa"
  shows "snd (cch_path_resolve mem doc ok pa x) = build_chain mem doc x True" and "path_ok mem doc (fst (cch_path_resolve mem doc ok pa x))"
proof -
  have "snd (cch_path_resolve mem doc ok pa x) = build_chain mem doc x True \<and> path_ok mem doc (fst (cch_path_resolve mem doc ok pa x))"
  proof (cases "path_up doc CCH_CHAIN_MAX (Some x)")
    case None
    then show ?thesis using assms by (simp add: cch_path_resolve_def)
  next
    case (Some up)
    show ?thesis
    proof (cases "up = [] \<or> \<not> ok")
      case True
      then show ?thesis using assms Some by (auto simp: cch_path_resolve_def)
    next
      case False
      define pa' where "pa' = path_fill mem doc None (rev up)"
      have u: "up = up_chain doc CCH_CHAIN_MAX (Some x)" by (rule path_up_chain [OF Some])
      then have hd: "hd up = x" using False by (auto simp: up_chain_first split: if_splits)
      have ne: "pa' \<noteq> []" using False by (simp add: pa'_def)
      have "fst (last pa') = last (map fst pa')" using ne by (simp add: last_map)
      then have lx: "fst (last pa') = x" using False hd by (simp add: pa'_def last_rev)
      have "cch_path_resolve mem doc ok pa x = (pa', Some (with_prev mem doc (fst (last pa')) (snd (last pa'))))"
        using Some False path_refill [OF assms, of "rev up"] by (simp add: cch_path_resolve_def Let_def last_el_def pa'_def)
      moreover have "fst (link_chain mem doc True up) = Some (snd (last pa'))" using link_chain_path [of mem doc up] ne by (simp add: pa'_def last_el_def)
      ultimately show ?thesis using u lx by (simp add: build_chain_def path_ok_def pa'_def)
    qed
  qed
  then show "snd (cch_path_resolve mem doc ok pa x) = build_chain mem doc x True" "path_ok mem doc (fst (cch_path_resolve mem doc ok pa x))"
    by blast+
qed

lemma cch_resolve_all_chain: "path_ok mem doc pa \<Longrightarrow> cch_resolve_all mem doc ok pa xs = map (\<lambda>x. build_chain mem doc x True) xs"
proof (induction xs arbitrary: pa)
  case (Cons x xs)
  obtain pa' e where r: "cch_path_resolve mem doc ok pa x = (pa', e)" by fastforce
  then have "e = build_chain mem doc x True" "path_ok mem doc pa'" using cch_path_resolve_chain [OF Cons.prems, of ok x] by simp_all
  then show ?case using Cons.IH r by simp
qed simp

text \<open>C27: The cached path is transparent: for any sequence of elements of a document, resolved one after the other with one
  path that starts empty, every view handed to the cascade (the element, its ancestors, its preceding siblings,
  positions and feature bits) is the one that \<^verbatim>\<open>build_chain\<close> makes from scratch.\<close>

theorem cch_path_transparent: "cch_resolve_all mem doc ok [] xs = map (\<lambda>x. build_chain mem doc x True) xs"
  by (rule cch_resolve_all_chain) (simp add: path_ok_def)

section \<open>The views carry the right feature bits\<close>

definition names_lower :: "document \<Rightarrow> bool" where
  "names_lower doc \<longleftrightarrow> (\<forall>x t. doc_name doc x = Some t \<longrightarrow> lower_str t = t)"

lemma fill_tag_lower: "names_lower doc \<Longrightarrow> pred_option (\<lambda>t. lower_str t = t) (el_tag (fill_css_node mem doc x))"
  by (auto simp: names_lower_def fill_css_node_def bounded_text_def split: option.splits if_splits)

lemma link_chain_ok:
  "names_lower doc \<Longrightarrow> link_chain mem doc structural xs = (Some e, acc) \<Longrightarrow>
   views_ok e \<and> acc = csel_element_feature_bits (el_view e) OR anc_bits e \<and> el_prev e = None"
proof (induction xs arbitrary: e acc)
  case (Cons x xs)
  obtain p a where r: "link_chain mem doc structural xs = (p, a)" by fastforce
  define v where "v = with_blooms a (fill_css_node mem doc x)"
  define w where "w = (if structural then with_structure doc x v else v)"
  have e: "e = Element w p None" "acc = a OR el_own_bloom v" using Cons.prems(2) r by (auto simp: Let_def v_def w_def)
  have w: "el_own_bloom w = csel_element_feature_bits w" "el_anc_bloom w = a" "el_tag w = el_tag (fill_css_node mem doc x)"
      "el_own_bloom v = csel_element_feature_bits w" by (simp_all add: w_def v_def)
  have p: "(\<forall>q. p = Some q \<longrightarrow> views_ok q) \<and> a = anc_bits e"
  proof (cases p)
    case None
    then have "a = 0" using link_chain_acc [of mem doc structural xs] r by (simp add: bloom_above_def)
    then show ?thesis using None e by (simp add: anc_bits_def)
  next
    case (Some q)
    moreover have "anc_bits e = csel_element_feature_bits (el_view q) OR anc_bits q" using Some e(1) by (intro anc_bits_parent) simp
    ultimately show ?thesis using Cons.IH [OF Cons.prems(1)] r by simp
  qed
  then have "bloom_right e" using e(1) w fill_tag_lower [OF Cons.prems(1), of mem x] by (simp add: bloom_right_def)
  then show ?case using p e w by (cases p) (auto simp: or.commute)
qed simp

lemma link_sibs_ok:
  assumes "names_lower doc" and "\<And>p. par = Some p \<Longrightarrow> views_ok p"
  shows "link_sibs mem doc par nth0 nsib0 ns xs = Some e \<Longrightarrow> views_ok e"
proof (induction xs arbitrary: ns e)
  case (Cons x xs)
  show ?case
  proof (cases "doc_element doc x")
    case True
    then obtain v q where e: "e = Element v par q" "q = link_sibs mem doc par nth0 nsib0 (Suc ns) xs"
        "el_tag v = el_tag (fill_css_node mem doc x)" "\<not> el_anc_bloom_valid v"
      using Cons.prems by (auto simp: Let_def fill_css_node_def split: if_splits)
    have "bloom_right e" using e fill_tag_lower [OF assms(1), of mem x] by (simp add: bloom_right_def)
    then show ?thesis using e(1) e(2) [symmetric] Cons.IH [of "Suc ns"] assms(2)
      by (cases par; cases q) auto
  next
    case False
    then show ?thesis using Cons by (auto split: if_splits)
  qed
qed simp

lemma build_chain_ok:
  assumes "names_lower doc" and "build_chain mem doc x structural = Some e"
  shows "views_ok e"
proof -
  obtain e0 acc where l: "link_chain mem doc structural (up_chain doc CCH_CHAIN_MAX (Some x)) = (Some e0, acc)"
    and e: "e = (if structural then with_prev mem doc x e0 else e0)"
    using assms(2) unfolding build_chain_def by (auto split: option.splits) (metis prod.collapse)
  have ok: "views_ok e0" using link_chain_ok [OF assms(1) l] by blast
  have par: "views_ok p" if "el_parent e0 = Some p" for p using ok that by (cases e0) auto
  have "bloom_right (Element (el_view e0) (el_parent e0) q) = bloom_right e0" for q
    by (cases e0; cases "el_parent e0") (auto simp: bloom_right_def anc_bits_def)
  then have "views_ok (with_prev mem doc x e0)"
    using views_ok_here [OF ok] par link_sibs_ok [OF assms(1) par] unfolding with_prev_def by (auto split: option.split)
  then show ?thesis using e ok by simp
qed

text \<open>Without structure the chain is the same but for what no selector that answers 0 to \<^verbatim>\<open>csel_needs_structure\<close> reads.\<close>

lemma bare_with_structure: "bare_view (with_structure doc x v) = bare_view v"
  by (simp add: bare_view_def with_structure_def)

lemma link_chain_structure:
  "map_option without_structure (fst (link_chain mem doc True xs)) = map_option without_structure (fst (link_chain mem doc False xs))
    \<and> snd (link_chain mem doc True xs) = snd (link_chain mem doc False xs)"
  by (induction xs) (auto simp: Let_def bare_with_structure split: prod.splits)

lemma build_chain_structure:
  "map_option without_structure (build_chain mem doc x True) = map_option without_structure (build_chain mem doc x False)"
proof -
  have w: "without_structure (with_prev mem doc x e) = without_structure e" for e by (cases e) (simp add: with_prev_def)
  let ?xs = "up_chain doc CCH_CHAIN_MAX (Some x)"
  show ?thesis using link_chain_structure [of mem doc ?xs]
    by (cases "fst (link_chain mem doc True ?xs)"; cases "fst (link_chain mem doc False ?xs)") (simp_all add: build_chain_def w)
qed

lemma build_chain_view: "build_chain mem doc x structural = Some e \<Longrightarrow>
   csel_element_feature_bits (el_view e) = csel_element_feature_bits (fill_css_node mem doc x)"
  by (auto simp: build_chain_def up_chain_first with_prev_def Let_def split: option.splits prod.splits if_splits)

lemma cch_matches_any_wf:
  assumes "names_lower doc" and "list_all sel_wf sels"
  shows "cch_element_matches_any mem doc x sels \<longleftrightarrow>
    (\<exists>sel \<in> set sels. \<exists>e. build_chain mem doc x True = Some e \<and> selects sel None False (nparts sel - 1) e)"
proof -
  have one: "cch_element_matches mem doc x sel \<longleftrightarrow> (\<exists>e. build_chain mem doc x True = Some e \<and> selects sel None False (nparts sel - 1) e)"
    if w: "sel_wf sel" for sel
  proof -
    have k: "nparts sel - 1 < nparts sel" "sel_parts sel \<noteq> []" using w by (auto simp: sel_wf_def)
    have full: "csel_matches sel e None False \<noteq> None \<longleftrightarrow> selects sel None False (nparts sel - 1) e" if "build_chain mem doc x True = Some e" for e
      unfolding csel_matches_def using complex_matches_selects [OF w k(1) build_chain_ok [OF assms(1) that]] by simp
    show ?thesis
    proof (cases "csel_needs_structure sel")
      case True
      then show ?thesis using full by (auto simp: cch_element_matches_def split: option.splits)
    next
      case False
      have "(case build_chain mem doc x False of None \<Rightarrow> False | Some e \<Rightarrow> csel_matches sel e None False \<noteq> None)
          \<longleftrightarrow> (case build_chain mem doc x True of None \<Rightarrow> False | Some e \<Rightarrow> csel_matches sel e None False \<noteq> None)"
        using build_chain_structure [of mem doc x] complex_matches_without [OF False k(1)]
        by (cases "build_chain mem doc x False"; cases "build_chain mem doc x True") (auto simp: csel_matches_def, metis+)
      then show ?thesis using full False by (auto simp: cch_element_matches_def split: option.splits)
    qed
  qed
  have pre: "sel_subj_req sel AND NOT (csel_element_feature_bits (fill_css_node mem doc x)) = 0"
    if w: "sel_wf sel" and e: "build_chain mem doc x True = Some e" and s: "selects sel None False (nparts sel - 1) e" for sel e
  proof -
    have k: "nparts sel - 1 < nparts sel" using w by (auto simp: sel_wf_def)
    have "compound_sat sel None False (sel_parts sel ! (nparts sel - 1)) (el_view e)"
      using s by (cases "nparts sel - 1") (auto simp: selects_0 selects_Suc)
    then have "sub_bits (sel_subj_req sel) (csel_element_feature_bits (el_view e))"
      unfolding sel_wf_reqs(2) [OF w]
      by (rule compound_req_sub [OF _ sel_wf_part(2) [OF w k]])
        (use views_ok_here [OF build_chain_ok [OF assms(1) e]] in \<open>simp add: bloom_right_def\<close>)
    then show ?thesis by (simp add: sub_bits_def build_chain_view [OF e])
  qed
  have "sel_subj_req sel AND NOT (csel_element_feature_bits (fill_css_node mem doc x)) = 0 \<and> cch_element_matches mem doc x sel
      \<longleftrightarrow> (\<exists>e. build_chain mem doc x True = Some e \<and> selects sel None False (nparts sel - 1) e)" if "sel \<in> set sels" for sel
    using one [of sel] pre [of sel] assms(2) that unfolding list_all_iff by blast
  then show ?thesis unfolding cch_element_matches_any_def Let_def list_ex_iff by blast
qed

section \<open>Class tokens\<close>

text \<open>The tokens of a class attribute as HTML defines them.\<close>

lemma cls_space_word: "cls_space = word_space"
  by (simp add: cls_space_def word_space_def fun_eq_iff)

lemma class_count_0: "class_count v = 0 \<longleftrightarrow> dropWhile cls_space v = []"
  by (subst class_count.simps) (simp add: Let_def)

lemma class_tokens_inside:
  "class_count v < cap \<Longrightarrow> set (class_tokens cap v) = {w. is_word_of w v}"
proof (induction cap v rule: class_tokens.induct)
  case (1 cap v)
  define st where "st = dropWhile cls_space v"
  define r where "r = dropWhile (\<lambda>c. \<not> cls_space c) st"
  have sk: "is_word_of w st \<longleftrightarrow> is_word_of w v" for w unfolding st_def cls_space_word by (rule is_word_of_skip)
  show ?case
  proof (cases "st = []")
    case True
    have "\<not> is_word_of w []" for w unfolding is_word_of_def by (metis append_is_Nil_conv)
    then have "{w. is_word_of w v} = {}" using sk True by simp
    then show ?thesis using True by (subst class_tokens.simps) (simp add: Let_def st_def [symmetric])
  next
    case False
    have c: "class_count v = Suc (class_count r)" using False by (subst class_count.simps) (simp add: Let_def st_def [symmetric] r_def)
    then have cap: "\<not> (cap = 0 \<or> st = [])" "cap \<noteq> 1" "class_count r < cap - 1" using "1.prems" False by auto
    have IH: "set (class_tokens (cap - 1) r) = {w. is_word_of w r}"
      using "1.IH" [OF st_def cap(1,2)] cap(3) unfolding r_def by simp
    have hd: "\<not> word_space (hd st)" using hd_dropWhile [of cls_space v] False unfolding st_def cls_space_word by simp
    have "is_word_of w v \<longleftrightarrow> w = takeWhile (\<lambda>c. \<not> cls_space c) st \<or> is_word_of w r" for w
      using is_word_of_first [OF False hd, of w] sk [of w] unfolding r_def cls_space_word by blast
    then show ?thesis using IH cap(1,2) by (subst class_tokens.simps) (auto simp: Let_def st_def [symmetric] r_def [symmetric])
  qed
qed

lemma split_classes_inline:
  "length v < CCH_CLASS_BUF \<Longrightarrow> class_count v < CCH_MAX_CLASSES \<Longrightarrow> set (split_classes mem v) = {w. is_word_of w v}"
  using class_tokens_inside [of v CCH_MAX_CLASSES] class_tokens_inside [of v 1] class_count_0 [of v]
  by (auto simp: split_classes_def Let_def class_tokens.simps [of "Suc 0" v])

text \<open>Where the loop stops at its last slot, nothing ends that token.\<close>

lemma last_class_tokens:
  "class_count v = cap \<Longrightarrow> 0 < cap \<Longrightarrow> v \<noteq> [] \<Longrightarrow> class_tokens cap v \<noteq> [] \<and> suffix (last (class_tokens cap v)) v"
proof (induction cap v rule: class_tokens.induct)
  case (1 cap v)
  define st where "st = dropWhile cls_space v"
  define r where "r = dropWhile (\<lambda>c. \<not> cls_space c) st"
  have ne: "st \<noteq> []" using "1.prems"(1,2) class_count_0 [of v] unfolding st_def by force
  have suf: "suffix st v" "suffix r st" unfolding st_def r_def by (rule suffix_dropWhile)+
  have tok: "class_tokens cap v = (if cap = 1 then [st] else takeWhile (\<lambda>c. \<not> cls_space c) st # class_tokens (cap - 1) r)"
    using ne "1.prems"(2) by (subst class_tokens.simps) (simp add: Let_def st_def [symmetric] r_def)
  show ?case
  proof (cases "cap = 1")
    case True
    then show ?thesis using tok suf(1) by simp
  next
    case False
    have c: "class_count v = Suc (class_count r)" using ne by (subst class_count.simps) (simp add: Let_def st_def [symmetric] r_def)
    then have cr: "class_count r = cap - 1" "0 < cap - 1" using "1.prems"(1,2) False by auto
    have "r \<noteq> []" using cr class_count_0 [of r] by auto
    then have "class_tokens (cap - 1) r \<noteq> [] \<and> suffix (last (class_tokens (cap - 1) r)) r"
      using "1.IH" [OF st_def _ False] ne "1.prems"(2) cr unfolding r_def by simp
    then show ?thesis using tok False suf by (metis last_ConsR list.distinct(1) suffix_order.trans)
  qed
qed

text \<open>C29: In a class attribute long enough to spill to the heap, white space after the last class becomes part of that class: the
  loop stops when it has found every token and leaves the white space behind the last one in the buffer. The
  element then has no class of the last token's name (unless an earlier token repeats it), and a rule for it does
  not apply.\<close>

theorem split_classes_keeps_trailing_space:
  assumes "CCH_CLASS_BUF \<le> length v" and "class_count v \<noteq> 0" and "mem (class_count v * 8 + length v + 1)" and "cls_space (last v)"
  shows "split_classes mem v \<noteq> [] \<and> last (split_classes mem v) \<noteq> [] \<and> cls_space (last (last (split_classes mem v)))
    \<and> \<not> is_word_of (last (split_classes mem v)) v"
proof -
  have v: "v \<noteq> []" using assms(1) by (auto simp: CCH_CLASS_BUF_def)
  have s: "split_classes mem v = class_tokens (class_count v) v" using assms(1,2,3) by (simp add: split_classes_def Let_def)
  have l: "class_tokens (class_count v) v \<noteq> []" "suffix (last (class_tokens (class_count v) v)) v"
    using last_class_tokens [OF refl _ v] assms(2) by auto
  have ne: "last (class_tokens (class_count v) v) \<noteq> []"
  proof -
    have "xs \<in> set (class_tokens cap w) \<Longrightarrow> xs \<noteq> []" for xs cap w
    proof (induction cap w rule: class_tokens.induct)
      case (1 cap w)
      define st where "st = dropWhile cls_space w"
      have t: "takeWhile (\<lambda>c. \<not> cls_space c) st \<noteq> []" if "st \<noteq> []"
        using hd_dropWhile [of cls_space w] that unfolding st_def [symmetric] by (cases st) auto
      show ?case using "1.prems" "1.IH" [OF st_def] t
        by (subst (asm) class_tokens.simps) (auto simp: Let_def st_def [symmetric] split: if_splits)
    qed
    then show ?thesis using l(1) last_in_set by blast
  qed
  then have sp: "cls_space (last (last (class_tokens (class_count v) v)))" using l(2) assms(4) unfolding suffix_def by (metis last_appendR)
  then have "\<not> is_word_of (last (class_tokens (class_count v) v)) v"
    unfolding is_word_of_def cls_space_word using ne last_in_set by blast
  then show ?thesis using s l(1) ne sp by simp
qed

definition spilled_class :: string where
  "spilled_class = replicate 254 (CHR ''a'') @ '' b ''"

lemma split_classes_keeps_trailing_space_witness:
  "split_classes (\<lambda>n. True) spilled_class = [replicate 254 (CHR ''a''), ''b ''] \<and> \<not> is_word_of ''b '' spilled_class"
proof -
  have g: "CCH_CLASS_BUF \<le> length spilled_class" "class_count spilled_class \<noteq> 0" "cls_space (last spilled_class)"
    "split_classes (\<lambda>n. True) spilled_class = [replicate 254 (CHR ''a''), ''b '']" by code_simp+
  have "last (split_classes (\<lambda>n. True) spilled_class) = ''b ''" unfolding g(4) by simp
  then show ?thesis using split_classes_keeps_trailing_space [of spilled_class "\<lambda>n. True"] g by metis
qed

end
