(* ===== verification/Css_Parse.thy ===== *)
theory Css_Parse
  imports Css_Select
begin

unbundle bit_operations_syntax

text \<open>
  The selector parser of \<^verbatim>\<open>src/css_select.c\<close>: escapes and identifiers, attribute selectors, pseudo-classes with their
  arguments, compounds and combinators. A position in the text and the end of the span (\<^verbatim>\<open>s\<close>, \<^verbatim>\<open>*ip\<close>, \<^verbatim>\<open>b\<close>) are the
  list of the bytes left; a parser answers \<open>None\<close> where the code drops the selector, else what it read and the
  bytes that follow. The theorem is the type of the result: whatever the style sheet holds, a selector that is
  accepted stays within the arrays of \<^verbatim>\<open>css_sel\<close>, its sub-selector references are in range and its precomputed
  feature bits are those of its compounds, so that the matcher's preconditions hold.
\<close>

section \<open>Model\<close>

subsection \<open>Escapes and identifiers\<close>

definition csel_hex_val :: "char \<Rightarrow> nat option" where
  "csel_hex_val c =
     (if is_digit c then Some (of_char c - 48)
      else if CHR ''a'' \<le> c \<and> c \<le> CHR ''f'' then Some (of_char c - 97 + 10)
      else if CHR ''A'' \<le> c \<and> c \<le> CHR ''F'' then Some (of_char c - 65 + 10) else None)"

definition csel_emit_utf8 :: "nat \<Rightarrow> string" where
  "csel_emit_utf8 cp0 =
     (let cp = (if cp0 = 0 \<or> (cp0 \<ge> 0xD800 \<and> cp0 \<le> 0xDFFF) \<or> cp0 > 0x10FFFF then 0xFFFD else cp0);
          tail = (\<lambda>x. char_of (0x80 + x mod 64)) in
      if cp < 0x80 then [char_of cp]
      else if cp < 0x800 then [char_of (0xC0 + cp div 64), tail cp]
      else if cp < 0x10000 then [char_of (0xE0 + cp div 4096), tail (cp div 64), tail cp]
      else [char_of (0xF0 + cp div 262144), tail (cp div 4096), tail (cp div 64), tail cp])"

definition hex_run :: "string \<Rightarrow> string" where
  "hex_run s = takeWhile (\<lambda>c. csel_hex_val c \<noteq> None) (take 6 s)"

definition starts :: "string \<Rightarrow> string \<Rightarrow> bool" where
  "starts p s \<longleftrightarrow> take (length p) s = p"

definition after_hex :: "string \<Rightarrow> string" where
  "after_hex s =
     (if s \<noteq> [] \<and> (hd s = CHR '' '' \<or> hd s = CHR 0x09) then drop 1 s
      else if s \<noteq> [] \<and> hd s = CHR 0x0A then drop 1 s
      else if starts [CHR 0x0D, CHR 0x0A] s then drop 2 s
      else if s \<noteq> [] \<and> hd s = CHR 0x0D then drop 1 s else s)"

text \<open>The loop of \<^verbatim>\<open>csel_unescape\<close> with \<open>n\<close> bytes already written.\<close>

function unescape_loop :: "nat \<Rightarrow> nat \<Rightarrow> string \<Rightarrow> string" where
  "unescape_loop cap n src =
     (if \<not> n + 1 < cap then [] else
      case src of
        [] \<Rightarrow> []
      | c # s \<Rightarrow>
          if c \<noteq> CHR 0x5C then c # unescape_loop cap (n + 1) s
          else (case s of
             [] \<Rightarrow> []
           | nx # r \<Rightarrow>
               if nx = CHR 0x0A then unescape_loop cap n r
               else if nx = CHR 0x0D then unescape_loop cap n (if r \<noteq> [] \<and> hd r = CHR 0x0A then drop 1 r else r)
               else if csel_hex_val nx = None then nx # unescape_loop cap (n + 1) r
               else (let ds = hex_run s; cp = foldl (\<lambda>v d. v * 16 + the (csel_hex_val d)) 0 ds; enc = csel_emit_utf8 cp in
                 if n + length enc \<ge> cap then []
                 else enc @ unescape_loop cap (n + length enc) (after_hex (drop (length ds) s)))))"
  by pat_completeness auto

lemma length_after_hex: "length (after_hex s) \<le> length s"
  by (simp add: after_hex_def)

termination unescape_loop
proof (relation "measure (\<lambda>(cap, n, src). length src)", goal_cases)
  case (6 cap n src c s nx r ds cp enc)
  then show ?case using length_after_hex [of "drop (length ds) s"] by (simp add: hex_run_def le_less_trans less_Suc_eq_le)
qed auto

declare unescape_loop.simps [simp del]

definition csel_unescape :: "nat \<Rightarrow> string \<Rightarrow> string" where
  "csel_unescape cap src = unescape_loop cap 0 src"

definition csel_escape_len :: "string \<Rightarrow> nat" where
  "csel_escape_len s =
     (case s of
        c # d # r \<Rightarrow>
          if c \<noteq> CHR 0x5C then 0
          else if d = CHR 0x0A \<or> d = CHR 0x0D \<or> d = CHR 0x0C then 0
          else if csel_hex_val d = None then 2
          else (let h = length (hex_run (d # r)); k = drop h (d # r) in
            if starts [CHR 0x0D, CHR 0x0A] k then h + 3
            else if k \<noteq> [] \<and> (hd k = CHR '' '' \<or> hd k = CHR 0x09 \<or> hd k = CHR 0x0A \<or> hd k = CHR 0x0D \<or> hd k = CHR 0x0C) then h + 2
            else h + 1)
      | _ \<Rightarrow> 0)"

definition sel_ident_ch :: "char \<Rightarrow> bool" where
  "sel_ident_ch c \<longleftrightarrow> is_alnum c \<or> c = CHR ''_'' \<or> c = CHR ''-''"

function ident_span :: "string \<Rightarrow> string \<times> string" where
  "ident_span s =
     (case s of
        [] \<Rightarrow> ([], [])
      | c # r \<Rightarrow>
          (let el = csel_escape_len s in
           if el > 0 then (case ident_span (drop el s) of (a, b) \<Rightarrow> (take el s @ a, b))
           else if sel_ident_ch c \<or> (of_char c :: nat) \<ge> 0x80 then (case ident_span r of (a, b) \<Rightarrow> (c # a, b))
           else ([], s)))"
  by pat_completeness auto

termination ident_span
  by (relation "measure length") auto

declare ident_span.simps [simp del]

definition CSEL_IDENT_SCRATCH :: nat where
  "CSEL_IDENT_SCRATCH = 1024"

definition csel_read_ident :: "string \<Rightarrow> bool \<Rightarrow> (string \<times> string) option" where
  "csel_read_ident s low =
     (case ident_span s of (a, rest) \<Rightarrow>
        if a = [] then None
        else let buf = (if CHR 0x5C \<in> set a then c_read (csel_unescape CSEL_IDENT_SCRATCH a) else take (CSEL_IDENT_SCRATCH - 1) a) in
          if buf = [] then None
          else Some (csel_ident_fold (if low then lower_str buf else buf), rest))"

subsection \<open>Attribute selectors and positions\<close>

definition ws2 :: "char \<Rightarrow> bool" where
  "ws2 c \<longleftrightarrow> c = CHR '' '' \<or> c = CHR 0x09"

definition ws4 :: "char \<Rightarrow> bool" where
  "ws4 c \<longleftrightarrow> c = CHR '' '' \<or> c = CHR 0x09 \<or> c = CHR 0x0A \<or> c = CHR 0x0D"

definition trim :: "(char \<Rightarrow> bool) \<Rightarrow> string \<Rightarrow> string" where
  "trim P s = rev (dropWhile P (rev (dropWhile P s)))"

text \<open>The bytes of a name, lowercased, as many as fit a slot; and what follows the name.\<close>

definition name_slot :: "string \<Rightarrow> string" where
  "name_slot s = lower_str (take (CSS_TOK_MAX - 1) (takeWhile sel_ident_ch s))"

definition attr_operator :: "string \<Rightarrow> (css_attr_op \<times> string) option" where
  "attr_operator s =
     (case s of
        [] \<Rightarrow> None
      | c # r \<Rightarrow>
          if c = CHR ''='' then Some (ATTR_EQ, r)
          else if r \<noteq> [] \<and> hd r = CHR ''='' then
            (if c = CHR ''~'' then Some (ATTR_TILDE, drop 1 r) else if c = CHR ''|'' then Some (ATTR_PIPE, drop 1 r)
             else if c = CHR ''^'' then Some (ATTR_CARET, drop 1 r) else if c = CHR ''$'' then Some (ATTR_DOLLAR, drop 1 r)
             else if c = CHR ''*'' then Some (ATTR_STAR, drop 1 r) else None)
          else None)"

definition attr_value_span :: "string \<Rightarrow> string \<times> string" where
  "attr_value_span s =
     (if s \<noteq> [] \<and> (hd s = CHR 0x22 \<or> hd s = CHR 0x27)
      then (takeWhile (\<lambda>c. c \<noteq> hd s) (tl s), drop 1 (dropWhile (\<lambda>c. c \<noteq> hd s) (tl s)))
      else (takeWhile (\<lambda>c. \<not> (c = CHR '']'' \<or> ws2 c)) s, dropWhile (\<lambda>c. \<not> (c = CHR '']'' \<or> ws2 c)) s))"

text \<open>From the byte after the bracket.\<close>

definition parse_attr_sel :: "string \<Rightarrow> (css_attr_match \<times> string) option" where
  "parse_attr_sel s0 =
     (let s1 = dropWhile ws2 s0; name = name_slot s1; s2 = dropWhile ws2 (dropWhile sel_ident_ch s1) in
      if name = [] then None
      else if s2 \<noteq> [] \<and> hd s2 = CHR '']'' then Some (\<lparr>am_name = name, am_value = [], am_op = ATTR_PRESENT, am_ci = False\<rparr>, tl s2)
      else (case attr_operator s2 of
         None \<Rightarrow> None
       | Some (oper, s3) \<Rightarrow>
           (case attr_value_span (dropWhile ws2 s3) of (v, s4) \<Rightarrow>
              let s5 = dropWhile ws2 s4;
                  ci = (s5 \<noteq> [] \<and> (hd s5 = CHR ''i'' \<or> hd s5 = CHR ''I''));
                  sf = (s5 \<noteq> [] \<and> (hd s5 = CHR ''s'' \<or> hd s5 = CHR ''S''));
                  s6 = dropWhile ws2 (if ci \<or> sf then tl s5 else s5)
              in if s6 = [] \<or> hd s6 \<noteq> CHR '']'' then None
                 else Some (\<lparr>am_name = name, am_value = take (CSS_TOK_MAX - 1) v, am_op = oper, am_ci = ci\<rparr>, tl s6))))"

definition CSS_NTH_MAX :: nat where
  "CSS_NTH_MAX = 100000"

text \<open>The digits of a number: its value, whether there was a digit, and the rest; \<open>None\<close> above the bound.\<close>

fun nth_digits :: "nat \<Rightarrow> bool \<Rightarrow> string \<Rightarrow> (nat \<times> bool \<times> string) option" where
  "nth_digits v seen [] = Some (v, seen, [])"
| "nth_digits v seen (c # s) =
     (if is_digit c then
        let v' = v * 10 + (of_char c - 48) in if v' > CSS_NTH_MAX then None else nth_digits v' True s
      else Some (v, seen, c # s))"

text \<open>The part of \<open>An+B\<close> after the letter: the value of \<open>B\<close>.\<close>

definition nth_b_part :: "string \<Rightarrow> int option" where
  "nth_b_part r1 =
     (if r1 = [] then Some 0
      else if hd r1 \<noteq> CHR ''+'' \<and> hd r1 \<noteq> CHR ''-'' then None
      else (case nth_digits 0 False (dropWhile ws2 (tl r1)) of
         None \<Rightarrow> None
       | Some (v2, digits2, r2) \<Rightarrow>
           if \<not> digits2 \<or> r2 \<noteq> [] then None else Some ((if hd r1 = CHR ''+'' then 1 else - 1) * int v2)))"

definition parse_nth_arg :: "string \<Rightarrow> (int \<times> int) option" where
  "parse_nth_arg s0 =
     (let s = trim ws2 s0 in
      if s = [] then None
      else if length s = 3 \<and> csel_span_eq s ''odd'' 3 True then Some (2, 1)
      else if length s = 4 \<and> csel_span_eq s ''even'' 4 True then Some (2, 0)
      else let signed = (hd s = CHR ''+'' \<or> hd s = CHR ''-''); sign1 = (if hd s = CHR ''-'' then - 1 else 1 :: int) in
        (case nth_digits 0 False (if signed then tl s else s) of
           None \<Rightarrow> None
         | Some (v1, digits1, r) \<Rightarrow>
             if r \<noteq> [] \<and> (hd r = CHR ''n'' \<or> hd r = CHR ''N'') then
               map_option (Pair (sign1 * int (if digits1 then v1 else 1))) (nth_b_part (dropWhile ws2 (tl r)))
             else if \<not> digits1 \<or> r \<noteq> [] then None
             else Some (0, sign1 * int v1)))"

subsection \<open>Sub-selectors\<close>

definition CSS_MAX_SUB_SELS :: nat where
  "CSS_MAX_SUB_SELS = 4"

definition CSS_SUB_MAX_ATTRS :: nat where
  "CSS_SUB_MAX_ATTRS = 1"

definition CSS_SUB_MAX_PSEUDOS :: nat where
  "CSS_SUB_MAX_PSEUDOS = 2"

definition simple_pseudo_kind :: "string \<Rightarrow> css_pseudo_kind option" where
  "simple_pseudo_kind nm = map_of
     [(''link'', PSEUDO_LINK), (''any-link'', PSEUDO_LINK), (''visited'', PSEUDO_NEVER), (''hover'', PSEUDO_HOVER),
      (''active'', PSEUDO_ACTIVE), (''focus'', PSEUDO_FOCUS), (''focus-within'', PSEUDO_FOCUS_WITHIN),
      (''focus-visible'', PSEUDO_FOCUS_VISIBLE), (''root'', PSEUDO_ROOT), (''first-child'', PSEUDO_FIRST_CHILD),
      (''last-child'', PSEUDO_LAST_CHILD), (''only-child'', PSEUDO_ONLY_CHILD), (''checked'', PSEUDO_CHECKED),
      (''disabled'', PSEUDO_DISABLED), (''enabled'', PSEUDO_ENABLED), (''first-of-type'', PSEUDO_FIRST_OF_TYPE),
      (''last-of-type'', PSEUDO_LAST_OF_TYPE), (''only-of-type'', PSEUDO_ONLY_OF_TYPE), (''empty'', PSEUDO_EMPTY),
      (''target'', PSEUDO_TARGET)] nm"

definition empty_sub :: css_sub_sel where
  "empty_sub = \<lparr>sub_tag = None, sub_id = None, sub_cls = None, sub_attrs = [], sub_pseudos = []\<rparr>"

lemma ident_span_split: "ident_span s = (a, b) \<Longrightarrow> s = a @ b"
proof (induction s arbitrary: a b rule: ident_span.induct)
  case (1 s)
  show ?case
  proof (cases s)
    case (Cons c r)
    then show ?thesis using "1.prems" "1.IH"(1) [OF Cons refl] "1.IH"(2) [OF Cons refl]
      by (subst (asm) ident_span.simps) (auto simp: Let_def split: if_splits prod.splits, metis append_take_drop_id)
  qed (use "1.prems" in \<open>simp add: ident_span.simps\<close>)
qed

lemma csel_read_ident_shorter: "csel_read_ident s low = Some (t, r) \<Longrightarrow> length r < length s"
  using ident_span_split [of s] by (auto simp: csel_read_ident_def Let_def split: prod.splits if_splits)

lemma attr_operator_shorter: "attr_operator s = Some (oper, r) \<Longrightarrow> length r < length s"
  by (auto simp: attr_operator_def split: list.splits if_splits)

lemma attr_value_span_shorter: "attr_value_span s = (v, r) \<Longrightarrow> length r \<le> length s"
  using length_dropWhile_le [of "\<lambda>c. c \<noteq> hd s" "tl s"] length_dropWhile_le [of "\<lambda>c. \<not> (c = CHR '']'' \<or> ws2 c)" s]
  by (auto simp: attr_value_span_def split: if_splits)

lemma parse_attr_sel_shorter: "parse_attr_sel s = Some (am, r) \<Longrightarrow> length r \<le> length s"
proof -
  assume p: "parse_attr_sel s = Some (am, r)"
  define s2 where "s2 = dropWhile ws2 (dropWhile sel_ident_ch (dropWhile ws2 s))"
  have l2: "length s2 \<le> length s" unfolding s2_def by (meson length_dropWhile_le le_trans)
  show ?thesis
  proof (cases "s2 \<noteq> [] \<and> hd s2 = CHR '']''")
    case True
    then have "r = tl s2" using p by (auto simp: parse_attr_sel_def Let_def s2_def [symmetric] split: if_splits)
    then show ?thesis using l2 by simp
  next
    case False
    obtain oper s3 where o: "attr_operator s2 = Some (oper, s3)"
      using p False unfolding parse_attr_sel_def Let_def s2_def [symmetric] by (auto split: if_splits option.splits)
    obtain v s4 where v: "attr_value_span (dropWhile ws2 s3) = (v, s4)" by fastforce
    define s5 where "s5 = dropWhile ws2 s4"
    obtain t where t: "r = tl (dropWhile ws2 t)" "t = s5 \<or> t = tl s5"
      using p False o v unfolding parse_attr_sel_def Let_def s2_def [symmetric]
      by (auto simp: s5_def [symmetric] split: if_splits)
    have "length r \<le> length t" using t(1) length_dropWhile_le [of ws2 t] by simp
    also have "\<dots> \<le> length s5" using t(2) by auto
    also have "\<dots> \<le> length s4" unfolding s5_def by (rule length_dropWhile_le)
    also have "\<dots> \<le> length s3" using attr_value_span_shorter [OF v] length_dropWhile_le [of ws2 s3] by linarith
    also have "\<dots> \<le> length s" using attr_operator_shorter [OF o] l2 by linarith
    finally show ?thesis .
  qed
qed

function sub_loop :: "string \<Rightarrow> css_sub_sel \<Rightarrow> css_sub_sel option" where
  "sub_loop s sub =
     (case s of
        [] \<Rightarrow> Some sub
      | c # r \<Rightarrow>
          if c = CHR ''.'' then
            if sub_cls sub \<noteq> None then None
            else (case csel_read_ident r False of None \<Rightarrow> None | Some (k, r') \<Rightarrow> sub_loop r' (sub\<lparr>sub_cls := Some k\<rparr>))
          else if c = CHR ''#'' then
            if sub_id sub \<noteq> None then None
            else (case csel_read_ident r False of None \<Rightarrow> None | Some (k, r') \<Rightarrow> sub_loop r' (sub\<lparr>sub_id := Some k\<rparr>))
          else if c = CHR ''['' then
            if length (sub_attrs sub) \<ge> CSS_SUB_MAX_ATTRS then None
            else (case parse_attr_sel r of None \<Rightarrow> None | Some (am, r') \<Rightarrow> sub_loop r' (sub\<lparr>sub_attrs := sub_attrs sub @ [am]\<rparr>))
          else if c = CHR '':'' \<and> r \<noteq> [] \<and> hd r \<noteq> CHR '':'' then
            (case simple_pseudo_kind (name_slot r) of
               None \<Rightarrow> None
             | Some kind \<Rightarrow>
                 if length (sub_pseudos sub) \<ge> CSS_SUB_MAX_PSEUDOS then None
                 else sub_loop (dropWhile sel_ident_ch r) (sub\<lparr>sub_pseudos := sub_pseudos sub @ [kind]\<rparr>))
          else None)"
  by pat_completeness auto

termination sub_loop
proof (relation "measure (\<lambda>(s, sub). length s)", goal_cases)
  case (2 s sub c r a k r')
  then show ?case using csel_read_ident_shorter [of r False k r'] by simp
next
  case (3 s sub c r a k r')
  then show ?case using csel_read_ident_shorter [of r False k r'] by simp
next
  case (4 s sub c r a k r')
  then show ?case using parse_attr_sel_shorter [of r k r'] by simp
qed (auto simp: le_imp_less_Suc length_dropWhile_le)

declare sub_loop.simps [simp del]

definition sub_type :: "string \<Rightarrow> (cptr \<times> string) option" where
  "sub_type s =
     (if hd s = CHR ''*'' then Some (None, tl s)
      else if is_alpha (hd s) \<or> hd s = CHR ''_'' then
        (case csel_read_ident s True of None \<Rightarrow> None | Some (t, r) \<Rightarrow> Some (Some t, r))
      else Some (None, s))"

definition parse_sub_compound :: "string \<Rightarrow> css_sub_sel option" where
  "parse_sub_compound s =
     (if s = [] then None
      else (case sub_type s of
         None \<Rightarrow> None
       | Some (t, r) \<Rightarrow>
           (case sub_loop r (empty_sub\<lparr>sub_tag := t\<rparr>) of
              None \<Rightarrow> None
            | Some sub \<Rightarrow>
                if sub_tag sub \<noteq> None \<or> sub_cls sub \<noteq> None \<or> sub_id sub \<noteq> None \<or> sub_attrs sub \<noteq> [] \<or> sub_pseudos sub \<noteq> []
                then Some sub else None)))"

definition take_sub_arg :: "string \<Rightarrow> css_sub_sel list \<Rightarrow> bool \<Rightarrow> css_sub_sel list option" where
  "take_sub_arg seg subs strict =
     (case (if length subs < CSS_MAX_SUB_SELS then parse_sub_compound (trim ws4 seg) else None) of
        Some sub \<Rightarrow> Some (subs @ [sub])
      | None \<Rightarrow> if strict then None else Some subs)"

subsection \<open>Pseudo-classes\<close>

definition CSS_MAX_PSEUDO_SEL :: nat where
  "CSS_MAX_PSEUDO_SEL = 4"

definition CSS_MAX_ATTR_SEL :: nat where
  "CSS_MAX_ATTR_SEL = 4"

definition CSS_MAX_CLASSES_PER_SEL :: nat where
  "CSS_MAX_CLASSES_PER_SEL = 6"

definition pseudo_element_kind :: "string \<Rightarrow> css_pseudo_kind option" where
  "pseudo_element_kind name =
     (if csel_ci_eq name ''before'' then Some PSEUDO_BEFORE
      else if csel_ci_eq name ''after'' then Some PSEUDO_AFTER
      else if csel_ci_eq name ''placeholder'' \<or> csel_ci_eq name ''-webkit-input-placeholder'' \<or> csel_ci_eq name ''-moz-placeholder''
      then Some PSEUDO_PLACEHOLDER else None)"

datatype wants_arg = No_arg | Nth_arg | Sub_arg | Lang_arg

definition pseudo_table :: "(string \<times> css_pseudo_kind \<times> wants_arg) list" where
  "pseudo_table =
     [(''link'', PSEUDO_LINK, No_arg), (''any-link'', PSEUDO_LINK, No_arg), (''visited'', PSEUDO_NEVER, No_arg),
      (''hover'', PSEUDO_HOVER, No_arg), (''active'', PSEUDO_ACTIVE, No_arg), (''focus'', PSEUDO_FOCUS, No_arg),
      (''focus-within'', PSEUDO_FOCUS_WITHIN, No_arg), (''focus-visible'', PSEUDO_FOCUS_VISIBLE, No_arg),
      (''root'', PSEUDO_ROOT, No_arg), (''first-child'', PSEUDO_FIRST_CHILD, No_arg), (''last-child'', PSEUDO_LAST_CHILD, No_arg),
      (''only-child'', PSEUDO_ONLY_CHILD, No_arg), (''nth-child'', PSEUDO_NTH_CHILD, Nth_arg),
      (''nth-last-child'', PSEUDO_NTH_LAST_CHILD, Nth_arg), (''checked'', PSEUDO_CHECKED, No_arg),
      (''disabled'', PSEUDO_DISABLED, No_arg), (''enabled'', PSEUDO_ENABLED, No_arg), (''not'', PSEUDO_NOT, Sub_arg),
      (''is'', PSEUDO_IS, Sub_arg), (''where'', PSEUDO_WHERE, Sub_arg), (''has'', PSEUDO_HAS, Sub_arg),
      (''nth-of-type'', PSEUDO_NTH_OF_TYPE, Nth_arg), (''nth-last-of-type'', PSEUDO_NTH_LAST_OF_TYPE, Nth_arg),
      (''first-of-type'', PSEUDO_FIRST_OF_TYPE, No_arg), (''last-of-type'', PSEUDO_LAST_OF_TYPE, No_arg),
      (''only-of-type'', PSEUDO_ONLY_OF_TYPE, No_arg), (''empty'', PSEUDO_EMPTY, No_arg), (''before'', PSEUDO_BEFORE, No_arg),
      (''after'', PSEUDO_AFTER, No_arg), (''target'', PSEUDO_TARGET, No_arg), (''lang'', PSEUDO_LANG, Lang_arg)]"

definition pseudo_named :: "string \<Rightarrow> (css_pseudo_kind \<times> wants_arg) option" where
  "pseudo_named name = map_option snd (find (\<lambda>(n, k, w). csel_ci_eq name n) pseudo_table)"

definition zero_pseudo :: "css_pseudo_kind \<Rightarrow> css_pseudo_match" where
  "zero_pseudo k = \<lparr>pm_kind = k, pm_a = 0, pm_b = 0, pm_sub_first = 0, pm_sub_count = 0, pm_lang = []\<rparr>"

text \<open>The span up to the first closing parenthesis and what follows it.\<close>

definition paren_arg :: "string \<Rightarrow> (string \<times> string) option" where
  "paren_arg s =
     (if s = [] \<or> hd s \<noteq> CHR ''('' then None
      else let r = dropWhile (\<lambda>c. c \<noteq> CHR '')'') (tl s) in
        if r = [] then None else Some (takeWhile (\<lambda>c. c \<noteq> CHR '')'') (tl s), tl r))"

text \<open>The loop over a list of sub-selectors, with the bytes of the current segment and the nesting depth.\<close>

function sub_args :: "string \<Rightarrow> nat \<Rightarrow> string \<Rightarrow> css_sub_sel list \<Rightarrow> bool \<Rightarrow> (css_sub_sel list \<times> string) option" where
  "sub_args s depth seg subs strict =
     (case s of
        [] \<Rightarrow> None
      | c # r \<Rightarrow>
          (let esc = csel_escape_len s in
           if esc > 0 then sub_args (drop esc s) depth (seg @ take esc s) subs strict
           else if c = CHR '')'' \<and> depth = 0 then map_option (\<lambda>subs'. (subs', r)) (take_sub_arg seg subs strict)
           else if c = CHR ''('' then sub_args r (depth + 1) (seg @ [c]) subs strict
           else if c = CHR ''['' then sub_args r (depth + 1) (seg @ [c]) subs strict
           else if c = CHR '']'' \<or> c = CHR '')'' then sub_args r (depth - 1) (seg @ [c]) subs strict
           else if c = CHR '','' \<and> depth = 0 then
             (case take_sub_arg seg subs strict of None \<Rightarrow> None | Some subs' \<Rightarrow> sub_args r depth [] subs' strict)
           else sub_args r depth (seg @ [c]) subs strict))"
  by pat_completeness auto

termination sub_args
  by (relation "measure (\<lambda>(s, depth, seg, subs, strict). length s)") auto

declare sub_args.simps [simp del]

text \<open>From the byte after the colon; \<open>subs\<close> are the sub-selectors of the selector so far.\<close>

definition parse_pseudo :: "string \<Rightarrow> css_sub_sel list \<Rightarrow> (css_pseudo_match \<times> css_sub_sel list \<times> string) option" where
  "parse_pseudo s subs =
     (if s \<noteq> [] \<and> hd s = CHR '':'' then
        map_option (\<lambda>k. (zero_pseudo k, subs, dropWhile sel_ident_ch (tl s))) (pseudo_element_kind (name_slot (tl s)))
      else let name = name_slot s; r = dropWhile sel_ident_ch s in
        if name = [] then None
        else (case pseudo_named name of
           None \<Rightarrow> None
         | Some (k, No_arg) \<Rightarrow> if r \<noteq> [] \<and> hd r = CHR ''('' then None else Some (zero_pseudo k, subs, r)
         | Some (k, Nth_arg) \<Rightarrow>
             (case paren_arg r of
                None \<Rightarrow> None
              | Some (arg, r') \<Rightarrow> map_option (\<lambda>(a, b). ((zero_pseudo k)\<lparr>pm_a := a, pm_b := b\<rparr>, subs, r')) (parse_nth_arg arg))
         | Some (k, Sub_arg) \<Rightarrow>
             if r = [] \<or> hd r \<noteq> CHR ''('' then None
             else map_option (\<lambda>(subs', r'). ((zero_pseudo k)\<lparr>pm_sub_first := int (length subs), pm_sub_count := length subs' - length subs\<rparr>, subs', r'))
               (sub_args (tl r) 0 [] subs (k = PSEUDO_NOT))
         | Some (k, Lang_arg) \<Rightarrow>
             (case paren_arg r of
                None \<Rightarrow> None
              | Some (arg, r') \<Rightarrow>
                  (let lang = lower_str (take (CSS_TOK_MAX - 1) (filter (\<lambda>c. is_alpha c \<or> c = CHR ''-'' \<or> c = CHR ''_'') arg)) in
                   if lang = [] then None else Some ((zero_pseudo k)\<lparr>pm_lang := lang\<rparr>, subs, r')))))"

subsection \<open>Compounds\<close>

definition empty_compound :: css_compound where
  "empty_compound = \<lparr>cp_tag = None, cp_id = None, cp_cls = [], cp_attrs = [], cp_pseudos = []\<rparr>"

lemma sub_args_shorter: "sub_args s depth seg subs strict = Some (subs', r) \<Longrightarrow> length r < length s"
proof (induction s depth seg subs strict rule: sub_args.induct)
  case (1 s depth seg subs strict)
  show ?case
  proof (cases s)
    case (Cons c t)
    define esc where "esc = csel_escape_len s"
    show ?thesis
    proof (cases "esc > 0")
      case True
      then have "sub_args (drop esc s) depth (seg @ take esc s) subs strict = Some (subs', r)"
        using "1.prems" Cons by (subst (asm) sub_args.simps) (simp add: Let_def esc_def)
      then show ?thesis using "1.IH"(1) [OF Cons esc_def True] True Cons by simp
    next
      case False
      note IH = "1.IH"(2-6) [OF Cons esc_def False]
      have z: "csel_escape_len (c # t) = 0" using False Cons by (simp add: esc_def)
      show ?thesis using "1.prems" IH unfolding Cons sub_args.simps [of "c # t"]
        by (auto simp: z less_SucI split: if_splits option.splits)
    qed
  qed (use "1.prems" in \<open>simp add: sub_args.simps\<close>)
qed

lemma paren_arg_shorter: "paren_arg s = Some (arg, r) \<Longrightarrow> length r \<le> length s"
proof -
  assume p: "paren_arg s = Some (arg, r)"
  then have "r = tl (dropWhile (\<lambda>c. c \<noteq> CHR '')'') (tl s))" by (auto simp: paren_arg_def Let_def split: if_splits)
  then show ?thesis using length_dropWhile_le [of "\<lambda>c. c \<noteq> CHR '')''" "tl s"] by simp
qed

lemma parse_pseudo_shorter: "parse_pseudo s subs = Some (pm, subs', r) \<Longrightarrow> length r \<le> length s"
proof -
  assume p: "parse_pseudo s subs = Some (pm, subs', r)"
  define t where "t = dropWhile sel_ident_ch s"
  have l: "length t \<le> length s" "length (dropWhile sel_ident_ch (tl s)) \<le> length s"
    using length_dropWhile_le [of sel_ident_ch s] length_dropWhile_le [of sel_ident_ch "tl s"] by (auto simp: t_def)
  show ?thesis using p l sub_args_shorter [of "tl t"] paren_arg_shorter [of t] unfolding parse_pseudo_def Let_def t_def [symmetric]
    by (fastforce split: if_splits option.splits wants_arg.splits)
qed

function compound_loop :: "string \<Rightarrow> css_compound \<Rightarrow> css_sub_sel list \<Rightarrow> (css_compound \<times> css_sub_sel list) option" where
  "compound_loop s cp subs =
     (case s of
        [] \<Rightarrow> Some (cp, subs)
      | c # r \<Rightarrow>
          if c = CHR '':'' then
            if length (cp_pseudos cp) \<ge> CSS_MAX_PSEUDO_SEL then None
            else (case parse_pseudo r subs of None \<Rightarrow> None
              | Some (pm, subs', r') \<Rightarrow> compound_loop r' (cp\<lparr>cp_pseudos := cp_pseudos cp @ [pm]\<rparr>) subs')
          else if c = CHR ''.'' then
            if length (cp_cls cp) \<ge> CSS_MAX_CLASSES_PER_SEL then None
            else (case csel_read_ident r False of None \<Rightarrow> None
              | Some (k, r') \<Rightarrow> compound_loop r' (cp\<lparr>cp_cls := cp_cls cp @ [k]\<rparr>) subs)
          else if c = CHR ''#'' then
            if cp_id cp \<noteq> None then None
            else (case csel_read_ident r False of None \<Rightarrow> None
              | Some (k, r') \<Rightarrow> compound_loop r' (cp\<lparr>cp_id := Some k\<rparr>) subs)
          else if c = CHR ''['' then
            if length (cp_attrs cp) \<ge> CSS_MAX_ATTR_SEL then None
            else (case parse_attr_sel r of None \<Rightarrow> None
              | Some (am, r') \<Rightarrow> compound_loop r' (cp\<lparr>cp_attrs := cp_attrs cp @ [am]\<rparr>) subs)
          else None)"
  by pat_completeness auto

termination compound_loop
proof (relation "measure (\<lambda>(s, cp, subs). length s)", goal_cases)
  case (2 s cp subs c r a pm b subs' r')
  then show ?case using parse_pseudo_shorter [of r subs pm subs' r'] by simp
next
  case (3 s cp subs c r a k r')
  then show ?case using csel_read_ident_shorter [of r False k r'] by simp
next
  case (4 s cp subs c r a k r')
  then show ?case using csel_read_ident_shorter [of r False k r'] by simp
next
  case (5 s cp subs c r a am r')
  then show ?case using parse_attr_sel_shorter [of r am r'] by simp
qed simp

declare compound_loop.simps [simp del]

definition parse_compound :: "string \<Rightarrow> css_sub_sel list \<Rightarrow> (css_compound \<times> css_sub_sel list) option" where
  "parse_compound s subs =
     (if s = [] then None
      else if hd s = CHR ''*'' then compound_loop (tl s) empty_compound subs
      else if is_alpha (hd s) then
        (case csel_read_ident s True of None \<Rightarrow> None | Some (t, r) \<Rightarrow> compound_loop r (empty_compound\<lparr>cp_tag := Some t\<rparr>) subs)
      else if hd s \<noteq> CHR ''.'' \<and> hd s \<noteq> CHR ''#'' \<and> hd s \<noteq> CHR ''['' \<and> hd s \<noteq> CHR '':'' then None
      else compound_loop s empty_compound subs)"

subsection \<open>Complex selectors\<close>

definition is_comb_char :: "char \<Rightarrow> bool" where
  "is_comb_char c \<longleftrightarrow> c = CHR ''>'' \<or> c = CHR ''+'' \<or> c = CHR ''~''"

definition comb_of :: "char \<Rightarrow> css_comb" where
  "comb_of c = (if c = CHR ''>'' then COMB_CHILD else if c = CHR ''+'' then COMB_ADJACENT else COMB_GENERAL)"

definition is_sep :: "char \<Rightarrow> bool" where
  "is_sep c \<longleftrightarrow> ws4 c \<or> is_comb_char c"

text \<open>The span of one compound, up to a separator outside brackets and parentheses.\<close>

function compound_span :: "string \<Rightarrow> bool \<Rightarrow> nat \<Rightarrow> (string \<times> string) option" where
  "compound_span s br par =
     (case s of
        [] \<Rightarrow> if par \<noteq> 0 then None else Some ([], [])
      | c # r \<Rightarrow>
          (let esc = csel_escape_len s in
           if esc > 0 then map_option (\<lambda>(a, b). (take esc s @ a, b)) (compound_span (drop esc s) br par)
           else if c = CHR ''['' then map_option (\<lambda>(a, b). (c # a, b)) (compound_span r True par)
           else if c = CHR '']'' then map_option (\<lambda>(a, b). (c # a, b)) (compound_span r False par)
           else if \<not> br \<and> c = CHR ''('' then map_option (\<lambda>(a, b). (c # a, b)) (compound_span r br (par + 1))
           else if \<not> br \<and> c = CHR '')'' then
             (if par = 0 then None else map_option (\<lambda>(a, b). (c # a, b)) (compound_span r br (par - 1)))
           else if \<not> br \<and> par = 0 \<and> is_sep c then Some ([], s)
           else map_option (\<lambda>(a, b). (c # a, b)) (compound_span r br par)))"
  by pat_completeness auto

termination compound_span
  by (relation "measure (\<lambda>(s, br, par). length s)") auto

declare compound_span.simps [simp del]

lemma compound_span_split: "compound_span s br par = Some (a, b) \<Longrightarrow> s = a @ b"
proof (induction s br par arbitrary: a b rule: compound_span.induct)
  case (1 s br par)
  show ?case
  proof (cases s)
    case (Cons c t)
    define esc where "esc = csel_escape_len s"
    show ?thesis
    proof (cases "esc > 0")
      case True
      obtain a' where "a = take esc s @ a'" "compound_span (drop esc s) br par = Some (a', b)"
        using "1.prems" True Cons by (subst (asm) compound_span.simps) (auto simp: Let_def esc_def)
      then show ?thesis using "1.IH"(1) [OF Cons esc_def True] by (metis append.assoc append_take_drop_id)
    next
      case False
      note IH = "1.IH"(2-6) [OF Cons esc_def False]
      have z: "csel_escape_len (c # t) = 0" using False Cons by (simp add: esc_def)
      show ?thesis using "1.prems" IH unfolding Cons compound_span.simps [of "c # t"]
        by (auto simp: z split: if_splits)
    qed
  qed (use "1.prems" in \<open>simp add: compound_span.simps split: if_splits\<close>)
qed

text \<open>The separators before a compound: the combinator they denote and whether one was written; \<open>None\<close> for two of them.\<close>

definition read_seps :: "string \<Rightarrow> (css_comb \<times> bool) option" where
  "read_seps s =
     (case filter is_comb_char (takeWhile is_sep s) of
        [] \<Rightarrow> Some (COMB_DESCENDANT, False) | [c] \<Rightarrow> Some (comb_of c, True) | _ \<Rightarrow> None)"

function core_loop :: "string \<Rightarrow> css_comb list \<Rightarrow> css_compound list \<Rightarrow> css_sub_sel list
    \<Rightarrow> (css_comb list \<times> css_compound list \<times> css_sub_sel list) option" where
  "core_loop s combs parts subs =
     (if s = [] then Some (combs, parts, subs)
      else (case read_seps s of
         None \<Rightarrow> None
       | Some (comb, comb_seen) \<Rightarrow>
           (let t = dropWhile is_sep s in
            if t = [] then (if comb_seen then None else Some (combs, parts, subs))
            else if parts = [] \<and> comb_seen then None
            else (case compound_span t False 0 of
               None \<Rightarrow> None
             | Some (sp, r) \<Rightarrow>
                 if length parts \<ge> CSS_MAX_COMPOUNDS then None
                 else (case parse_compound sp subs of
                    None \<Rightarrow> None
                  | Some (cp, subs') \<Rightarrow>
                      core_loop r (combs @ [if parts = [] then COMB_DESCENDANT else comb]) (parts @ [cp]) subs')))))"
  by pat_completeness auto

termination core_loop
proof (relation "measure (\<lambda>(s, combs, parts, subs). length s)", goal_cases)
  case (2 s combs parts subs a comb comb_seen t b sp r d cp subs')
  then have "dropWhile is_sep s = sp @ r" "sp \<noteq> []"
    using compound_span_split [of t False 0 sp r] by (auto simp: parse_compound_def)
  then have "length r < length (dropWhile is_sep s)" by simp
  then show ?case using length_dropWhile_le [of is_sep s] by simp
qed simp

declare core_loop.simps [simp del]

definition sub_spec :: "css_sub_sel \<Rightarrow> int" where
  "sub_spec sub = (if sub_id sub \<noteq> None then 100 else 0) + (if sub_cls sub \<noteq> None then 10 else 0)
     + int (length (sub_attrs sub)) * 10 + (if sub_tag sub \<noteq> None then 1 else 0)"

definition pseudo_spec :: "css_sub_sel list \<Rightarrow> css_pseudo_match \<Rightarrow> int" where
  "pseudo_spec subs pm =
     (if pm_kind pm = PSEUDO_WHERE then 0
      else if pm_kind pm = PSEUDO_NOT \<or> pm_kind pm = PSEUDO_IS then
        foldl (\<lambda>m si. let idx = pm_sub_first pm + int si in
            if 0 \<le> idx \<and> idx < int (length subs) then max m (sub_spec (subs ! nat idx)) else m) 0 [0..<pm_sub_count pm]
      else 10)"

definition compound_spec :: "css_sub_sel list \<Rightarrow> css_compound \<Rightarrow> int" where
  "compound_spec subs c = 100 * (if cp_id c \<noteq> None then 1 else 0) + 10 * int (length (cp_cls c) + length (cp_attrs c))
     + sum_list (map (pseudo_spec subs) (cp_pseudos c)) + (if cp_tag c \<noteq> None then 1 else 0)"

definition csel_parse_core :: "string \<Rightarrow> css_sel option" where
  "csel_parse_core s0 =
     (let s = trim ws4 s0 in
      if s = [] then None
      else (case core_loop s [] [] [] of
         None \<Rightarrow> None
       | Some (combs, parts, subs) \<Rightarrow>
           if parts = [] then None
           else Some \<lparr>sel_comb = combs, sel_spec = sum_list (map (compound_spec subs) parts), sel_subs = subs,
             sel_anc_req = 0, sel_subj_req = 0, sel_part_req = [], sel_parts = parts\<rparr>))"

definition csel_parse :: "string \<Rightarrow> css_sel option" where
  "csel_parse s = map_option with_requirements (csel_parse_core s)"

text \<open>The compounds start at byte 1560 of \<^verbatim>\<open>css_sel\<close> and take 1412 bytes each.\<close>

definition csel_compact_size :: "nat \<Rightarrow> nat" where
  "csel_compact_size n = 1560 + min (max n 1) CSS_MAX_COMPOUNDS * 1412"

definition csel_compact_dup :: "allocator \<Rightarrow> css_sel \<Rightarrow> css_sel option" where
  "csel_compact_dup mem sel =
     (if nparts sel < 1 \<or> nparts sel > CSS_MAX_COMPOUNDS then None
      else if \<not> mem (csel_compact_size (nparts sel)) then None else Some sel)"

section \<open>The type of a parsed selector\<close>

lemma length_ident_fold: "length (csel_ident_fold s) < CSS_TOK_MAX"
  by (auto simp: csel_ident_fold_def CSS_TOK_MAX_def CSEL_FOLD_PREFIX_def)

lemma hex_digit_not_upper: "\<not> is_upper (''0123456789abcdef'' ! unat (w AND 0xF :: 64 word))"
proof -
  have "\<forall>k \<in> set [0..<16]. \<not> is_upper (''0123456789abcdef'' ! k)" by code_simp
  moreover have "w AND 0xF \<le> 0xF" by (rule word_and_le1)
  then have "unat (w AND 0xF) < 16" by (simp add: word_le_nat_alt)
  ultimately show ?thesis by simp
qed

lemma lower_ident_fold: "lower_str (csel_ident_fold (lower_str s)) = csel_ident_fold (lower_str s)"
proof -
  have "ascii_lower CSEL_FOLD_MARK = CSEL_FOLD_MARK" by (rule ascii_lower_id) (simp add: CSEL_FOLD_MARK_def is_upper_def)
  moreover have "ascii_lower (''0123456789abcdef'' ! unat (w AND 0xF :: 64 word)) = ''0123456789abcdef'' ! unat (w AND 0xF)" for w
    by (rule ascii_lower_id [OF hex_digit_not_upper])
  then have "lower_str (map (\<lambda>k. ''0123456789abcdef'' ! unat (f k AND 0xF :: 64 word)) xs)
      = map (\<lambda>k. ''0123456789abcdef'' ! unat (f k AND 0xF)) xs" for f :: "nat \<Rightarrow> 64 word" and xs by simp
  ultimately show ?thesis unfolding csel_ident_fold_def by (simp add: take_map [symmetric] del: map_map)
qed

lemma read_ident_stored: "csel_read_ident s low = Some (t, r) \<Longrightarrow> stored_ok t"
  using length_ident_fold by (auto simp: csel_read_ident_def stored_ok_def Let_def split: prod.splits if_splits)

lemma read_ident_lower: "csel_read_ident s True = Some (t, r) \<Longrightarrow> lower_str t = t"
  using lower_ident_fold by (auto simp: csel_read_ident_def Let_def split: prod.splits if_splits)

definition attr_wf :: "css_attr_match \<Rightarrow> bool" where
  "attr_wf am \<longleftrightarrow> am_name am \<noteq> [] \<and> stored_ok (am_name am) \<and> stored_ok (am_value am)"

definition sub_wf :: "css_sub_sel \<Rightarrow> bool" where
  "sub_wf sub \<longleftrightarrow> pred_option stored_ok (sub_tag sub) \<and> pred_option stored_ok (sub_id sub) \<and> pred_option stored_ok (sub_cls sub)
     \<and> length (sub_attrs sub) \<le> CSS_SUB_MAX_ATTRS \<and> list_all attr_wf (sub_attrs sub)
     \<and> length (sub_pseudos sub) \<le> CSS_SUB_MAX_PSEUDOS"

text \<open>A pseudo-class against the sub-selectors of its selector: the range it names is there, and only a functional one has any.\<close>

definition pseudo_wf :: "nat \<Rightarrow> css_pseudo_match \<Rightarrow> bool" where
  "pseudo_wf n pm \<longleftrightarrow> 0 \<le> pm_sub_first pm \<and> nat (pm_sub_first pm) + pm_sub_count pm \<le> n
     \<and> \<bar>pm_a pm\<bar> \<le> int CSS_NTH_MAX \<and> \<bar>pm_b pm\<bar> \<le> int CSS_NTH_MAX \<and> stored_ok (pm_lang pm)"

definition parts_wf :: "nat \<Rightarrow> css_compound \<Rightarrow> bool" where
  "parts_wf n c \<longleftrightarrow> compound_wf c \<and> length (cp_cls c) \<le> CSS_MAX_CLASSES_PER_SEL
     \<and> length (cp_attrs c) \<le> CSS_MAX_ATTR_SEL \<and> list_all attr_wf (cp_attrs c)
     \<and> length (cp_pseudos c) \<le> CSS_MAX_PSEUDO_SEL \<and> list_all (pseudo_wf n) (cp_pseudos c)"

lemma stored_ok_slot [simp]: "stored_ok (take (CSS_TOK_MAX - Suc 0) s)" "stored_ok (lower_str (take (CSS_TOK_MAX - Suc 0) s))"
    "stored_ok (name_slot s)" "stored_ok []"
  by (simp_all add: stored_ok_def name_slot_def CSS_TOK_MAX_def)

lemma parse_attr_sel_wf:
  assumes "parse_attr_sel s = Some (am, r)"
  shows "attr_wf am"
proof -
  define s1 where "s1 = dropWhile ws2 s"
  define s2 where "s2 = dropWhile ws2 (dropWhile sel_ident_ch s1)"
  note p = assms [unfolded parse_attr_sel_def Let_def, folded s1_def, folded s2_def]
  have n: "name_slot s1 \<noteq> []" using p by (auto split: if_splits)
  have "am_name am = name_slot s1 \<and> (\<exists>v. am_value am = take (CSS_TOK_MAX - 1) v)"
  proof (cases "s2 \<noteq> [] \<and> hd s2 = CHR '']''")
    case True
    then show ?thesis using p n by auto
  next
    case False
    obtain oper s3 where o: "attr_operator s2 = Some (oper, s3)" using p n False by (cases "attr_operator s2") auto
    obtain v s4 where v: "attr_value_span (dropWhile ws2 s3) = (v, s4)" by fastforce
    show ?thesis using p n False unfolding o v option.case prod.case by (simp split: if_splits) auto
  qed
  then show ?thesis using n by (auto simp: attr_wf_def)
qed

lemma sub_loop_wf: "sub_loop s sub = Some sub' \<Longrightarrow> sub_wf sub \<Longrightarrow> sub_wf sub'"
proof (induction s sub rule: sub_loop.induct)
  case (1 s sub)
  show ?case
  proof (cases s)
    case Nil
    then have "sub' = sub" using "1.prems"(1) sub_loop.simps [of "[]" sub] by simp
    then show ?thesis using "1.prems"(2) by simp
  next
    case (Cons c r)
    note p = "1.prems"(1) [unfolded Cons, THEN trans [OF sub_loop.simps [of "c # r" sub, symmetric]], unfolded list.case]
    consider "c = CHR ''.''" | "c = CHR ''#''" | "c = CHR ''[''" | "c = CHR '':''" | "c \<noteq> CHR ''.'' \<and> c \<noteq> CHR ''#'' \<and> c \<noteq> CHR ''['' \<and> c \<noteq> CHR '':''" by argo
    then show ?thesis
    proof cases
      case c: 1
      obtain k r' where cls: "sub_cls sub = None" "csel_read_ident r False = Some (k, r')" "sub_loop r' (sub\<lparr>sub_cls := Some k\<rparr>) = Some sub'"
        using p by (auto simp: c split: if_splits option.splits)
      then show ?thesis using "1.IH"(1) [OF Cons c _ cls(2) refl cls(3)] "1.prems"(2) read_ident_stored [OF cls(2)] by (simp add: sub_wf_def)
    next
      case c: 2
      obtain k r' where id: "sub_id sub = None" "csel_read_ident r False = Some (k, r')" "sub_loop r' (sub\<lparr>sub_id := Some k\<rparr>) = Some sub'"
        using p by (auto simp: c split: if_splits option.splits)
      then show ?thesis using "1.IH"(2) [OF Cons _ c _ id(2) refl id(3)] c "1.prems"(2) read_ident_stored [OF id(2)] by (simp add: sub_wf_def)
    next
      case c: 3
      obtain am r' where attr: "\<not> CSS_SUB_MAX_ATTRS \<le> length (sub_attrs sub)" "parse_attr_sel r = Some (am, r')"
          "sub_loop r' (sub\<lparr>sub_attrs := sub_attrs sub @ [am]\<rparr>) = Some sub'"
        using p by (auto simp: c split: if_splits option.splits)
      then show ?thesis using "1.IH"(3) [OF Cons _ _ c attr(1,2) refl attr(3)] c "1.prems"(2) parse_attr_sel_wf [OF attr(2)] by (simp add: sub_wf_def)
    next
      case c: 4
      obtain k where ps: "r \<noteq> []" "hd r \<noteq> CHR '':''" "simple_pseudo_kind (name_slot r) = Some k" "\<not> CSS_SUB_MAX_PSEUDOS \<le> length (sub_pseudos sub)"
          "sub_loop (dropWhile sel_ident_ch r) (sub\<lparr>sub_pseudos := sub_pseudos sub @ [k]\<rparr>) = Some sub'"
        using p by (auto simp: c split: if_splits option.splits)
      then show ?thesis using "1.IH"(4) [OF Cons _ _ _ _ ps(3-5)] c "1.prems"(2) by (simp add: sub_wf_def)
    next
      case 5
      then show ?thesis using p by simp
    qed
  qed
qed

lemma parse_sub_compound_wf: "parse_sub_compound s = Some sub \<Longrightarrow> sub_wf sub"
proof -
  assume p: "parse_sub_compound s = Some sub"
  then obtain t r where t: "sub_type s = Some (t, r)" "sub_loop r (empty_sub\<lparr>sub_tag := t\<rparr>) = Some sub"
    by (auto simp: parse_sub_compound_def split: if_splits option.splits)
  have "pred_option stored_ok t" using t(1) read_ident_stored by (auto simp: sub_type_def split: if_splits option.splits)
  then have "sub_wf (empty_sub\<lparr>sub_tag := t\<rparr>)" by (simp add: sub_wf_def empty_sub_def)
  then show ?thesis using sub_loop_wf [OF t(2)] by blast
qed

text \<open>Sub-selectors are only ever appended, and stay within their array.\<close>

definition subs_ext :: "css_sub_sel list \<Rightarrow> css_sub_sel list \<Rightarrow> bool" where
  "subs_ext subs subs' \<longleftrightarrow> (\<exists>new. subs' = subs @ new \<and> list_all sub_wf new) \<and> (length subs \<le> CSS_MAX_SUB_SELS \<longrightarrow> length subs' \<le> CSS_MAX_SUB_SELS)"

lemma subs_ext_refl [simp]: "subs_ext subs subs"
  by (simp add: subs_ext_def)

lemma subs_ext_trans: "subs_ext a b \<Longrightarrow> subs_ext b c \<Longrightarrow> subs_ext a c"
  unfolding subs_ext_def by (metis append.assoc list_all_append)

lemma take_sub_arg_ext: "take_sub_arg seg subs strict = Some subs' \<Longrightarrow> subs_ext subs subs'"
  using parse_sub_compound_wf by (auto simp: take_sub_arg_def subs_ext_def split: option.splits if_splits)

lemma sub_args_ext: "sub_args s depth seg subs strict = Some (subs', r) \<Longrightarrow> subs_ext subs subs'"
proof (induction s depth seg subs strict rule: sub_args.induct)
  case (1 s depth seg subs strict)
  show ?case
  proof (cases s)
    case (Cons c t)
    define esc where "esc = csel_escape_len s"
    show ?thesis
    proof (cases "esc > 0")
      case True
      then have "sub_args (drop esc s) depth (seg @ take esc s) subs strict = Some (subs', r)"
        using "1.prems" Cons by (subst (asm) sub_args.simps) (simp add: Let_def esc_def)
      then show ?thesis using "1.IH"(1) [OF Cons esc_def True] by simp
    next
      case False
      note IH = "1.IH"(2-6) [OF Cons esc_def False]
      have z: "csel_escape_len (c # t) = 0" using False Cons by (simp add: esc_def)
      show ?thesis using "1.prems" IH unfolding Cons sub_args.simps [of "c # t"]
        by (auto simp: z split: if_splits option.splits dest: take_sub_arg_ext intro: subs_ext_trans)
    qed
  qed (use "1.prems" in \<open>simp add: sub_args.simps\<close>)
qed

lemma nth_digits_bound: "nth_digits v seen s = Some (v', seen', r) \<Longrightarrow> v \<le> CSS_NTH_MAX \<Longrightarrow> v' \<le> CSS_NTH_MAX"
  by (induction v seen s rule: nth_digits.induct) (auto simp: Let_def split: if_splits)

lemma nth_digits_int:
  "nth_digits 0 False s = Some (v, seen, r) \<Longrightarrow> x = 1 \<or> x = - 1 \<Longrightarrow> \<bar>x * int v\<bar> \<le> int CSS_NTH_MAX"
  using nth_digits_bound [of 0 False s v seen r] by auto

lemma nth_b_part_bound: "nth_b_part r = Some b \<Longrightarrow> \<bar>b\<bar> \<le> int CSS_NTH_MAX"
  unfolding nth_b_part_def by (auto split: if_splits option.splits prod.splits dest: nth_digits_bound)

lemma parse_nth_arg_bound:
  assumes "parse_nth_arg s0 = Some (a, b)"
  shows "\<bar>a\<bar> \<le> int CSS_NTH_MAX" and "\<bar>b\<bar> \<le> int CSS_NTH_MAX"
proof -
  define s where "s = trim ws2 s0"
  define x :: int where "x = (if hd s = CHR ''-'' then - 1 else 1)"
  define t where "t = (if hd s = CHR ''+'' \<or> hd s = CHR ''-'' then tl s else s)"
  have x: "x = 1 \<or> x = - 1" by (simp add: x_def)
  have one: "1 \<le> int CSS_NTH_MAX" "2 \<le> int CSS_NTH_MAX" by (simp_all add: CSS_NTH_MAX_def)
  have "\<bar>a\<bar> \<le> int CSS_NTH_MAX \<and> \<bar>b\<bar> \<le> int CSS_NTH_MAX"
  proof (cases "length s = 3 \<and> csel_span_eq s ''odd'' 3 True \<or> length s = 4 \<and> csel_span_eq s ''even'' 4 True")
    case True
    then have "a = 2 \<and> (b = 1 \<or> b = 0)" using assms unfolding parse_nth_arg_def Let_def s_def [symmetric] by (auto split: if_splits)
    then show ?thesis using one by auto
  next
    case False
    then obtain v1 d1 r where n: "nth_digits 0 False t = Some (v1, d1, r)"
      and ab: "(if r \<noteq> [] \<and> (hd r = CHR ''n'' \<or> hd r = CHR ''N'') then map_option (Pair (x * int (if d1 then v1 else 1))) (nth_b_part (dropWhile ws2 (tl r)))
          else if \<not> d1 \<or> r \<noteq> [] then None else Some (0, x * int v1)) = Some (a, b)"
      using assms unfolding parse_nth_arg_def Let_def s_def [symmetric] x_def [symmetric] t_def [symmetric]
      by (cases "nth_digits 0 False t") (auto split: if_splits)
    have v: "\<bar>x * int v1\<bar> \<le> int CSS_NTH_MAX" "\<bar>x * 1\<bar> \<le> int CSS_NTH_MAX" using nth_digits_int [OF n x] x one by auto
    show ?thesis using ab v nth_b_part_bound by (cases d1) (auto split: if_splits)
  qed
  then show "\<bar>a\<bar> \<le> int CSS_NTH_MAX" "\<bar>b\<bar> \<le> int CSS_NTH_MAX" by blast+
qed

lemma pseudo_wf_mono: "pseudo_wf n pm \<Longrightarrow> n \<le> m \<Longrightarrow> pseudo_wf m pm"
  by (auto simp: pseudo_wf_def)

lemma parts_wf_mono: "parts_wf n c \<Longrightarrow> n \<le> m \<Longrightarrow> parts_wf m c"
  using pseudo_wf_mono by (auto simp: parts_wf_def list_all_iff)

lemma zero_pseudo_wf [simp]: "pseudo_wf n (zero_pseudo k)"
  by (simp add: pseudo_wf_def zero_pseudo_def)

lemma subs_ext_length: "subs_ext subs subs' \<Longrightarrow> length subs \<le> length subs'"
  by (auto simp: subs_ext_def)

lemma parse_pseudo_ok:
  assumes "parse_pseudo s subs = Some (pm, subs', r)"
  shows "subs_ext subs subs' \<and> pseudo_wf (length subs') pm"
proof (cases "s \<noteq> [] \<and> hd s = CHR '':''")
  case True
  then show ?thesis using assms by (auto simp: parse_pseudo_def)
next
  case False
  define t where "t = dropWhile sel_ident_ch s"
  obtain k w where kw: "pseudo_named (name_slot s) = Some (k, w)"
    using assms False unfolding parse_pseudo_def Let_def by (cases "pseudo_named (name_slot s)") (auto split: if_splits)
  note p = assms [unfolded parse_pseudo_def Let_def kw option.case prod.case, folded t_def]
  show ?thesis
  proof (cases w)
    case No_arg
    then show ?thesis using p False by (auto split: if_splits)
  next
    case Nth_arg
    then obtain arg r' a b where "paren_arg t = Some (arg, r')" "parse_nth_arg arg = Some (a, b)" "pm = (zero_pseudo k)\<lparr>pm_a := a, pm_b := b\<rparr>" "subs' = subs"
      using p False by (auto split: if_splits option.splits)
    then show ?thesis using parse_nth_arg_bound [of arg a b] by (simp add: pseudo_wf_def zero_pseudo_def)
  next
    case Sub_arg
    then have a: "sub_args (tl t) 0 [] subs (k = PSEUDO_NOT) = Some (subs', r)"
      "pm = (zero_pseudo k)\<lparr>pm_sub_first := int (length subs), pm_sub_count := length subs' - length subs\<rparr>"
      using p False by (auto split: if_splits)
    show ?thesis using sub_args_ext [OF a(1)] subs_ext_length [OF sub_args_ext [OF a(1)]] a(2) by (simp add: pseudo_wf_def zero_pseudo_def)
  next
    case Lang_arg
    then obtain arg r' where "paren_arg t = Some (arg, r')" using p False by (auto split: if_splits option.splits)
    then show ?thesis using p Lang_arg False by (auto simp: pseudo_wf_def zero_pseudo_def split: if_splits)
  qed
qed

lemma compound_loop_ok:
  "compound_loop s cp subs = Some (cp', subs') \<Longrightarrow> parts_wf (length subs) cp \<Longrightarrow> subs_ext subs subs' \<and> parts_wf (length subs') cp'"
proof (induction s cp subs rule: compound_loop.induct)
  case (1 s cp subs)
  show ?case
  proof (cases s)
    case Nil
    then have "cp' = cp" "subs' = subs" using "1.prems"(1) compound_loop.simps [of "[]" cp subs] by simp_all
    then show ?thesis using "1.prems"(2) by simp
  next
    case (Cons c r)
    note p = "1.prems"(1) [unfolded Cons, THEN trans [OF compound_loop.simps [of "c # r" cp subs, symmetric]], unfolded list.case]
    consider "c = CHR '':''" | "c = CHR ''.''" | "c = CHR ''#''" | "c = CHR ''[''"
      | "c \<noteq> CHR ''.'' \<and> c \<noteq> CHR ''#'' \<and> c \<noteq> CHR ''['' \<and> c \<noteq> CHR '':''" by argo
    then show ?thesis
    proof cases
      case c: 1
      obtain pm s1 r' where ps: "\<not> CSS_MAX_PSEUDO_SEL \<le> length (cp_pseudos cp)" "parse_pseudo r subs = Some (pm, s1, r')"
          "compound_loop r' (cp\<lparr>cp_pseudos := cp_pseudos cp @ [pm]\<rparr>) s1 = Some (cp', subs')"
        using p by (auto simp: c split: if_splits option.splits)
      have e: "subs_ext subs s1" "pseudo_wf (length s1) pm" using parse_pseudo_ok [OF ps(2)] by blast+
      have "parts_wf (length s1) (cp\<lparr>cp_pseudos := cp_pseudos cp @ [pm]\<rparr>)"
        using parts_wf_mono [OF "1.prems"(2) subs_ext_length [OF e(1)]] e(2) ps(1) by (simp add: parts_wf_def compound_wf_def)
      then show ?thesis using "1.IH"(1) [OF Cons c ps(1,2) refl refl ps(3)] subs_ext_trans [OF e(1)] by blast
    next
      case c: 2
      obtain k r' where k: "\<not> CSS_MAX_CLASSES_PER_SEL \<le> length (cp_cls cp)" "csel_read_ident r False = Some (k, r')"
          "compound_loop r' (cp\<lparr>cp_cls := cp_cls cp @ [k]\<rparr>) subs = Some (cp', subs')"
        using p by (auto simp: c split: if_splits option.splits)
      have "parts_wf (length subs) (cp\<lparr>cp_cls := cp_cls cp @ [k]\<rparr>)"
        using "1.prems"(2) read_ident_stored [OF k(2)] k(1) by (simp add: parts_wf_def compound_wf_def)
      then show ?thesis using "1.IH"(2) [OF Cons _ c k(1,2) refl k(3)] c by simp
    next
      case c: 3
      obtain k r' where k: "cp_id cp = None" "csel_read_ident r False = Some (k, r')" "compound_loop r' (cp\<lparr>cp_id := Some k\<rparr>) subs = Some (cp', subs')"
        using p by (auto simp: c split: if_splits option.splits)
      have "parts_wf (length subs) (cp\<lparr>cp_id := Some k\<rparr>)"
        using "1.prems"(2) read_ident_stored [OF k(2)] by (simp add: parts_wf_def compound_wf_def)
      then show ?thesis using "1.IH"(3) [OF Cons _ _ c _ k(2) refl k(3)] c k(1) by simp
    next
      case c: 4
      obtain am r' where k: "\<not> CSS_MAX_ATTR_SEL \<le> length (cp_attrs cp)" "parse_attr_sel r = Some (am, r')"
          "compound_loop r' (cp\<lparr>cp_attrs := cp_attrs cp @ [am]\<rparr>) subs = Some (cp', subs')"
        using p by (auto simp: c split: if_splits option.splits)
      have "parts_wf (length subs) (cp\<lparr>cp_attrs := cp_attrs cp @ [am]\<rparr>)"
        using "1.prems"(2) parse_attr_sel_wf [OF k(2)] k(1) by (simp add: parts_wf_def compound_wf_def)
      then show ?thesis using "1.IH"(4) [OF Cons _ _ _ c k(1,2) refl k(3)] c by simp
    next
      case 5
      then show ?thesis using p by simp
    qed
  qed
qed

lemma parse_compound_ok:
  assumes "parse_compound s subs = Some (cp, subs')"
  shows "subs_ext subs subs' \<and> parts_wf (length subs') cp"
proof -
  have e: "parts_wf (length subs) empty_compound" by (simp add: parts_wf_def empty_compound_def compound_wf_def)
  have t: "parts_wf (length subs) (empty_compound\<lparr>cp_tag := Some t\<rparr>)" if "csel_read_ident s True = Some (t, r)" for t r
    using read_ident_stored [OF that] read_ident_lower [OF that] by (simp add: parts_wf_def empty_compound_def compound_wf_def)
  show ?thesis using assms compound_loop_ok [OF _ e] compound_loop_ok [OF _ t]
    unfolding parse_compound_def by (auto split: if_splits option.splits)
qed

lemma core_loop_ok:
  "core_loop s combs parts subs = Some (combs', parts', subs') \<Longrightarrow> length combs = length parts \<Longrightarrow> length parts \<le> CSS_MAX_COMPOUNDS \<Longrightarrow>
   list_all (parts_wf (length subs)) parts \<Longrightarrow>
   subs_ext subs subs' \<and> length combs' = length parts' \<and> length parts' \<le> CSS_MAX_COMPOUNDS \<and> list_all (parts_wf (length subs')) parts'"
proof (induction s combs parts subs rule: core_loop.induct)
  case (1 s combs parts subs)
  define t where "t = dropWhile is_sep s"
  note p = "1.prems"(1) [THEN trans [OF core_loop.simps [symmetric]], unfolded Let_def, folded t_def]
  show ?case
  proof (cases "s = [] \<or> t = []")
    case True
    then have "combs' = combs" "parts' = parts" "subs' = subs" using p by (auto split: if_splits option.splits)
    then show ?thesis using "1.prems"(2-4) by simp
  next
    case False
    obtain comb seen where sp: "read_seps s = Some (comb, seen)" using p False by (cases "read_seps s") auto
    obtain span r where cs: "\<not> (parts = [] \<and> seen)" "compound_span t False 0 = Some (span, r)" "\<not> CSS_MAX_COMPOUNDS \<le> length parts"
      using p False sp by (auto split: if_splits option.splits)
    obtain cp s1 where pc: "parse_compound span subs = Some (cp, s1)"
        "core_loop r (combs @ [if parts = [] then COMB_DESCENDANT else comb]) (parts @ [cp]) s1 = Some (combs', parts', subs')"
      using p False sp cs by (auto split: if_splits option.splits)
    have e: "subs_ext subs s1" "parts_wf (length s1) cp" using parse_compound_ok [OF pc(1)] by blast+
    have "list_all (parts_wf (length s1)) (parts @ [cp])"
      using "1.prems"(4) e(2) parts_wf_mono [OF _ subs_ext_length [OF e(1)]] by (auto simp: list_all_iff)
    then have "subs_ext s1 subs' \<and> length combs' = length parts' \<and> length parts' \<le> CSS_MAX_COMPOUNDS \<and> list_all (parts_wf (length subs')) parts'"
      using "1.IH" [OF _ sp refl t_def _ cs(1,2) refl cs(3) pc(1) refl pc(2)] False "1.prems"(2) cs(3) by simp
    then show ?thesis using subs_ext_trans [OF e(1)] by blast
  qed
qed

lemma with_requirements_idem: "with_requirements (with_requirements sel) = with_requirements sel"
proof -
  have "anc_req_from (sel\<lparr>sel_anc_req := a, sel_subj_req := b, sel_part_req := c\<rparr>) j = anc_req_from sel j" for a b c j
    by (induction j) simp_all
  then show ?thesis by (simp add: with_requirements_def compute_anc_req_def compute_subj_req_def)
qed

text \<open>C26: Whatever bytes a style sheet has for a selector, a selector that the parser accepts is well-formed: between one and eight compounds
  with a combinator each; names, values and languages that fit their slots; classes, attributes, pseudo-classes and
  sub-selectors within their arrays; every range of sub-selectors in bounds; \<open>An+B\<close> coefficients within the limit
  that keeps the matcher's arithmetic exact; type selectors in lower case; and the feature bits that the filters
  use computed from these compounds.\<close>

theorem csel_parse_type:
  assumes "csel_parse s = Some sel"
  shows "sel_wf sel \<and> length (sel_subs sel) \<le> CSS_MAX_SUB_SELS \<and> list_all sub_wf (sel_subs sel)
    \<and> list_all (parts_wf (length (sel_subs sel))) (sel_parts sel)"
proof -
  obtain combs parts subs core where c: "core_loop (trim ws4 s) [] [] [] = Some (combs, parts, subs)" "parts \<noteq> []"
      "sel = with_requirements core" "sel_comb core = combs" "sel_subs core = subs" "sel_parts core = parts"
    using assms by (auto simp: csel_parse_def csel_parse_core_def Let_def split: if_splits option.splits)
  have ok: "subs_ext [] subs" "length combs = length parts" "length parts \<le> CSS_MAX_COMPOUNDS" "list_all (parts_wf (length subs)) parts"
    using core_loop_ok [OF c(1)] by simp_all
  have f: "sel_comb sel = combs" "sel_subs sel = subs" "sel_parts sel = parts" using c by (simp_all add: with_requirements_def)
  have "sel_wf sel" unfolding sel_wf_def f
    using ok c(2,3) with_requirements_idem by (auto simp: Suc_le_eq parts_wf_def list_all_iff)
  then show ?thesis using ok(1,4) by (auto simp: f subs_ext_def)
qed

definition sample_selector :: string where
  "sample_selector = ''ul#nav > LI.item:not(.off, [hidden]):nth-child(2n+1)''"

lemma csel_parse_type_witness: "sel_wf (the (csel_parse sample_selector)) \<and> length (sel_subs (the (csel_parse sample_selector))) \<le> CSS_MAX_SUB_SELS"
proof -
  have "csel_parse_core sample_selector \<noteq> None" by code_simp
  then have "csel_parse sample_selector \<noteq> None" by (simp add: csel_parse_def)
  then obtain sel where "csel_parse sample_selector = Some sel" by blast
  then show ?thesis using csel_parse_type [of sample_selector sel] by simp
qed

end
