(* ===== verification/Css_Cascade.thy ===== *)
theory Css_Cascade
  imports Css_Chain Css_Parse
begin

text \<open>
  The selector side of the cascade put together: selectors as the parser leaves them, views as a walk of the document
  with the cached path hands them out, the rule index, the filters and the matcher. The rules that apply to an
  element are those whose selectors select it; two theorems show where the code departs from what its comments say
  of \<^verbatim>\<open>:has()\<close> and of unknown positions.
\<close>

section \<open>The rules that apply to an element of a document\<close>

definition parsed :: "css_sel \<Rightarrow> bool" where
  "parsed sel \<longleftrightarrow> (\<exists>s. csel_parse s = Some sel)"

lemma parsed_wf: "parsed sel \<Longrightarrow> sel_wf sel"
proof -
  assume "parsed sel"
  then obtain s where s: "csel_parse s = Some sel" by (auto simp: parsed_def)
  then obtain combs parts subs core where c: "core_loop (trim ws4 s) [] [] [] = Some (combs, parts, subs)" "parts \<noteq> []"
      "sel = with_requirements core" "sel_comb core = combs" "sel_parts core = parts"
    by (auto simp: csel_parse_def csel_parse_core_def Let_def split: if_splits option.splits)
  then show ?thesis unfolding sel_wf_def
    using core_loop_ok [OF c(1)] with_requirements_idem [of core]
    by (auto simp: with_requirements_def Suc_le_eq parts_wf_def list_all_iff)
qed

lemma resolved_chain: "Some el \<in> set (cch_resolve_all mem doc ok [] xs) \<Longrightarrow> \<exists>x \<in> set xs. build_chain mem doc x True = Some el"
  by (auto simp: cch_resolve_all_chain path_ok_def)

text \<open>C25: The rules the cascade applies to an element, in order and with their pseudo-elements, are exactly the matching selectors of the
  sheet in document order. This holds for every sheet of parsed selectors, for an index built when the sheet held
  its first \<open>k\<close> selectors (a stale one is not used), for every element of a walk with the cached path, and whichever
  allocations fail: the index, the ancestor filter, the feature bits, the cached path and the fallbacks change nothing.\<close>

theorem css_rules_match:
  assumes "names_lower doc" and "list_all parsed (sh_sels sheet)"
    and "sh_idx sheet = cix_build mem' (Some (take k (sh_sels sheet))) k" and "k \<le> sh_nsels sheet"
    and "Some el \<in> set (cch_resolve_all mem doc ok [] xs)"
  shows "applied_rules mem sheet el want = matching_rules (sh_sels sheet) el want"
proof -
  have "list_all sel_wf (sh_sels sheet)" using assms(2) parsed_wf by (auto simp: list_all_iff)
  moreover have "views_ok el" using resolved_chain [OF assms(5)] build_chain_ok [OF assms(1)] by blast
  ultimately show ?thesis by (rule applied_rules_matching [OF _ _ assms(3,4)])
qed

definition sample_doc :: document where
  "sample_doc = \<lparr>doc_element = (\<lambda>x. x < 2), doc_parent = (\<lambda>x. if x = 1 then Some 0 else None), doc_before = (\<lambda>x. []), doc_after = (\<lambda>x. []),
     doc_children = (\<lambda>x. 0), doc_name = (\<lambda>x. Some (if x = 0 then ''ul'' else ''li'')), doc_attribute = (\<lambda>x a. None),
     doc_attributes = (\<lambda>x. []), doc_tree = (\<lambda>x. Dom_Other)\<rparr>"

definition sample_sheet :: css_sheet where
  "sample_sheet = (let sel = with_requirements (the (csel_parse_core ''ul > li''))
     in \<lparr>sh_sels = [sel], sh_idx = cix_build (\<lambda>n. True) (Some [sel]) 1\<rparr>)"

lemma sample_parsed: "list_all parsed (sh_sels sample_sheet)"
proof -
  have "csel_parse_core ''ul > li'' \<noteq> None" by code_simp
  then have "csel_parse ''ul > li'' = Some (with_requirements (the (csel_parse_core ''ul > li'')))" by (auto simp: csel_parse_def)
  then show ?thesis by (auto simp: sample_sheet_def Let_def parsed_def)
qed

lemma sample_names: "names_lower sample_doc"
  by (auto simp: names_lower_def sample_doc_def ascii_lower_def is_upper_def)

lemma css_rules_match_witness:
  "\<exists>el. build_chain (\<lambda>n. True) sample_doc 1 True = Some el
    \<and> applied_rules (\<lambda>n. True) sample_sheet el 0 = matching_rules (sh_sels sample_sheet) el 0"
proof -
  have "build_chain (\<lambda>n. True) sample_doc 1 True \<noteq> None"
    by (auto simp: build_chain_def up_chain_first sample_doc_def Let_def split: option.splits prod.splits)
  then obtain el where el: "build_chain (\<lambda>n. True) sample_doc 1 True = Some el" by blast
  then have "Some el \<in> set (cch_resolve_all (\<lambda>n. True) sample_doc True [] [1])"
    using cch_resolve_all_chain [of "\<lambda>n. True" sample_doc "[]" True "[1]"] by (simp add: path_ok_def)
  moreover have "sh_idx sample_sheet = cix_build (\<lambda>n. True) (Some (take 1 (sh_sels sample_sheet))) 1" "1 \<le> sh_nsels sample_sheet"
    by (simp_all add: sample_sheet_def Let_def)
  ultimately show ?thesis using css_rules_match [OF sample_names sample_parsed] el by blast
qed

text \<open>C28: A selector query (\<^verbatim>\<open>matches()\<close> and the like, \<^verbatim>\<open>cch_element_matches_any\<close>) answers yes exactly when some selector of the
  list selects the element as the fully built chain shows it: neither the prefilter on the element's own feature
  bits nor leaving the structure unread changes the answer.\<close>

theorem cch_element_matches_any_selects:
  assumes "names_lower doc" and "list_all parsed sels"
  shows "cch_element_matches_any mem doc x sels \<longleftrightarrow>
    (\<exists>sel \<in> set sels. \<exists>e. build_chain mem doc x True = Some e \<and> selects sel None False (nparts sel - 1) e)"
  by (rule cch_matches_any_wf [OF assms(1)]) (use assms(2) parsed_wf in \<open>auto simp: list_all_iff\<close>)

lemma cch_element_matches_any_selects_witness:
  "cch_element_matches_any (\<lambda>n. True) sample_doc 1 (sh_sels sample_sheet) \<longleftrightarrow>
    (\<exists>e. build_chain (\<lambda>n. True) sample_doc 1 True = Some e
      \<and> selects (hd (sh_sels sample_sheet)) None False (nparts (hd (sh_sels sample_sheet)) - 1) e)"
proof -
  have "set (sh_sels sample_sheet) = {hd (sh_sels sample_sheet)}" by (simp add: sample_sheet_def Let_def)
  then show ?thesis using cch_element_matches_any_selects [OF sample_names sample_parsed, of "\<lambda>n. True" 1] by auto
qed

section \<open>Where the code departs from its comments\<close>

text \<open>C30: The argument of \<^verbatim>\<open>:has()\<close> may be a state or position (\<^verbatim>\<open>parse_sub_compound\<close> accepts it), but the descendant walk never looks at it:
  \<^verbatim>\<open>div:has(:checked)\<close> matches every \<^verbatim>\<open>div\<close> that has any element inside, checked or not.\<close>

theorem csel_has_ignores_state:
  assumes "csel_parse ''div:has(:checked)'' = Some sel" and "views_ok el" and "el_tag (el_view el) = Some ''div''"
    and "el_dom_node (el_view el) = Some root" and "dom_count root \<le> HAS_STACK"
    and "dom_below root 1 (Dom_Element name attrib chs)"
  shows "csel_matches sel el target allow \<noteq> None"
proof -
  define pm where "pm = (zero_pseudo PSEUDO_HAS)\<lparr>pm_sub_first := 0, pm_sub_count := 1\<rparr>"
  define core where "core = the (csel_parse_core ''div:has(:checked)'')"
  have c: "csel_parse_core ''div:has(:checked)'' \<noteq> None" "sel_parts core = [empty_compound\<lparr>cp_tag := Some ''div'', cp_pseudos := [pm]\<rparr>]"
    "sel_subs core = [empty_sub\<lparr>sub_pseudos := [PSEUDO_CHECKED]\<rparr>]" unfolding core_def pm_def by code_simp+
  have s: "sel = with_requirements core" using assms(1) c(1) by (auto simp: csel_parse_def core_def)
  have f: "sel_parts sel = [empty_compound\<lparr>cp_tag := Some ''div'', cp_pseudos := [pm]\<rparr>]" "sel_subs sel = [empty_sub\<lparr>sub_pseudos := [PSEUDO_CHECKED]\<rparr>]"
    using c(2,3) s by (simp_all add: with_requirements_def)
  have "has_hit (pm_subs sel pm) (Dom_Element name attrib chs)"
    by (simp add: has_hit_def pm_subs_def pm_def zero_pseudo_def f has_sub_matches_def empty_sub_def)
  then have "has_matches (pm_subs sel pm) root"
    using has_matches_small_document [OF assms(5)] assms(6) by (auto simp: HAS_MAX_DEPTH_def intro!: exI [of _ 1])
  then have "compound_sat sel target allow (sel_parts sel ! 0) (el_view el)"
    using assms(3,4) by (simp add: compound_sat_def f empty_compound_def tag_slot_matches_def id_slot_matches_def csel_ci_eq_iff
        pseudo_sat_def pm_def zero_pseudo_def)
  then have "selects sel target allow 0 el" by (rule selects_first)
  moreover have "sel_wf sel" by (rule parsed_wf) (use assms(1) in \<open>auto simp: parsed_def\<close>)
  ultimately show ?thesis unfolding csel_matches_def using complex_matches_selects [of sel 0 el target allow] assms(2) f(1) by simp
qed

definition has_root :: dom_node where
  "has_root = Dom_Element (Some ''div'') (\<lambda>a. None) [Dom_Element (Some ''p'') (\<lambda>a. None) []]"

definition has_element :: css_element where
  "has_element = Element \<lparr>el_tag = Some ''div'', el_id = None, el_classes = [], el_attrs = [], el_nth = 1, el_nsib = 1,
     el_nth_of_type = 1, el_nsib_of_type = 1, el_child_count = 1, el_dom_node = Some has_root, el_state = 0,
     el_anc_bloom = 0, el_own_bloom = 0, el_anc_bloom_valid = False\<rparr> None None"

lemma csel_has_ignores_state_witness:
  "csel_matches (the (csel_parse ''div:has(:checked)'')) has_element None False \<noteq> None"
proof -
  have "csel_parse_core ''div:has(:checked)'' \<noteq> None" by code_simp
  then have p: "csel_parse ''div:has(:checked)'' = Some (the (csel_parse ''div:has(:checked)''))" by (auto simp: csel_parse_def)
  have v: "views_ok has_element" by (simp add: has_element_def bloom_right_def ascii_lower_def is_upper_def)
  have d: "el_tag (el_view has_element) = Some ''div''" "el_dom_node (el_view has_element) = Some has_root" by (simp_all add: has_element_def)
  have b: "dom_below has_root 1 (Dom_Element (Some ''p'') (\<lambda>a. None) [])"
    unfolding has_root_def by (auto simp: dom_below_Element)
  have n: "dom_count has_root \<le> HAS_STACK" by (simp add: has_root_def HAS_STACK_def)
  show ?thesis by (rule csel_has_ignores_state [OF p v d n b])
qed

text \<open>The header of \<^verbatim>\<open>css_element\<close> says that an unknown position never makes a structural pseudo-class match; behind \<^verbatim>\<open>:not()\<close> it does:
  with more than 1024 siblings \<^verbatim>\<open>li:not(:first-child)\<close> matches the first child too.\<close>

theorem csel_not_unknown_matches:
  assumes "csel_parse ''li:not(:first-child)'' = Some sel" and "views_ok el" and "el_tag (el_view el) = Some ''li''" and "el_nth (el_view el) = 0"
  shows "csel_matches sel el target allow \<noteq> None"
proof -
  define pm where "pm = (zero_pseudo PSEUDO_NOT)\<lparr>pm_sub_first := 0, pm_sub_count := 1\<rparr>"
  define core where "core = the (csel_parse_core ''li:not(:first-child)'')"
  have c: "csel_parse_core ''li:not(:first-child)'' \<noteq> None" "sel_parts core = [empty_compound\<lparr>cp_tag := Some ''li'', cp_pseudos := [pm]\<rparr>]"
    "sel_subs core = [empty_sub\<lparr>sub_pseudos := [PSEUDO_FIRST_CHILD]\<rparr>]" unfolding core_def pm_def by code_simp+
  have s: "sel = with_requirements core" using assms(1) c(1) by (auto simp: csel_parse_def core_def)
  have f: "sel_parts sel = [empty_compound\<lparr>cp_tag := Some ''li'', cp_pseudos := [pm]\<rparr>]" "sel_subs sel = [empty_sub\<lparr>sub_pseudos := [PSEUDO_FIRST_CHILD]\<rparr>]"
    using c(2,3) s by (simp_all add: with_requirements_def)
  have "compound_sat sel target allow (sel_parts sel ! 0) (el_view el)"
    using assms(3,4) by (simp add: compound_sat_def f empty_compound_def tag_slot_matches_def id_slot_matches_def csel_ci_eq_iff
        pseudo_sat_def pm_def zero_pseudo_def pm_subs_def sub_sat_def empty_sub_def)
  then have "selects sel target allow 0 el" by (rule selects_first)
  moreover have "sel_wf sel" by (rule parsed_wf) (use assms(1) in \<open>auto simp: parsed_def\<close>)
  ultimately show ?thesis unfolding csel_matches_def using complex_matches_selects [of sel 0 el target allow] assms(2) f(1) by simp
qed

end
