(* ===== verification/Spec2Isabelle.thy ===== *)
theory Spec2Isabelle
  imports Url Request_Policy Net_Realm Data_Url Page_Caps Host_Block Host_Edit Frame_Broker Text_Field Web_Storage Utf8 Browser
    Http_Rules Http_Cache Cached_Fetch Ws_Hub Link_Nav Sha2 Form Download Import_Map Css_Vars Css_Subst Css_Counter Counter_Pass Prefetch_Scan Prefetch_Pool Css_Cascade
begin

text \<open>
  Verification of the policy and data core of Freedom, a web browser in C11.

  \<^bold>\<open>The program.\<close> A trusted process owns the network, the disk and the windows; pages run confined and
  ask it for everything. What decides in the trusted process is a ring of small modules without I/O of
  their own: they take hostile strings (URLs, headers, hrefs, form fields, file names, host lists,
  storage snapshots, frames, import maps) and say what may be done. The windows, the layout, the
  JavaScript host and the fetcher call them. This development models those modules, one theory each, and
  proves what their callers rely on.

  \<^bold>\<open>Conventions.\<close> \<open>C_Prelude\<close> holds what all theories share. A C string is the list of its bytes before the NUL,
  a \<^verbatim>\<open>const char *\<close> is a \<open>cptr\<close> with \<open>None\<close> for NULL, an output buffer is its capacity as a \<open>cbuf\<close>, a status
  code with an output is a sum (\<open>Inl\<close> the error, \<open>Inr\<close> the output), a struct is a record, an enum a
  datatype. Buffers are bounded as in the source and a result that does not fit is an error value. Loops
  are recursive functions with termination proofs; no fuel is used. Machine words are used where they
  matter (hash tables, base64, storage headers, digests) and naturals elsewhere. What the modules take
  from outside is a parameter: the generated public suffix tables, the allocator (\<open>mem\<close>, asked with the
  number of bytes), the files of the configuration directories, the sealing, keyed hash and disk of the
  HTTP cache (\<open>hc_env\<close>), the network fetcher of the cached fetch, the sockets and threads of the
  WebSocket hub, the URL resolver of import maps.

  \<^bold>\<open>URLs and navigation.\<close> \<open>Url\<close> is \<^verbatim>\<open>src/url.c\<close>: validity, dot segments, resolution against https and local
  bases, the omnibox, credentials, the location parts, History API targets. Resolution stays on the
  origin or below the directory, yields valid https and canonical paths. \<open>Link_Nav\<close> is
  \<^verbatim>\<open>src/link_nav.c\<close>: what a click does; local targets are in normal form and name the same file as the
  reference (\<open>walk\<close>). \<open>Form\<close> is \<^verbatim>\<open>src/form.c\<close>: submissions, proved against a decoder of the form encoding.
  \<open>Import_Map\<close> is \<^verbatim>\<open>src/import_map.c\<close>: the JSON reader (read back what was printed, bounds) and
  specifier resolution, equal to the standard's sorting formulation. \<open>Data_Url\<close> is \<^verbatim>\<open>src/data_url.c\<close>.
  \<open>Download\<close> is \<^verbatim>\<open>src/download.c\<close> with the file names of \<^verbatim>\<open>src/pdf_export.c\<close>: saved files lie directly in the
  chosen directory.

  \<^bold>\<open>Policy.\<close> \<open>Request_Policy\<close> is \<^verbatim>\<open>src/request_policy.c\<close>: registrable domains (equal to the algorithm of the
  Public Suffix List), third-party decisions, request headers. \<open>Net_Realm\<close> is \<^verbatim>\<open>src/net_realm.c\<close>: routing of
  onion and I2P hosts, with the case it gets wrong. \<open>Page_Caps\<close> is \<^verbatim>\<open>src/js_policy.c\<close>,
  \<^verbatim>\<open>src/render_policy.c\<close> and \<^verbatim>\<open>src/webcaps.c\<close>. \<open>Host_Block\<close> is \<^verbatim>\<open>src/hostblock.c\<close> and \<^verbatim>\<open>src/host_conf.c\<close>: an
  open-addressing hash table that refines a set, the hosts file parser, the decision; \<open>Host_Edit\<close> is
  \<^verbatim>\<open>src/hostedit.c\<close>. \<open>Frame_Broker\<close> is \<^verbatim>\<open>src/frame_broker.c\<close>: the tree of frames and message routing.

  \<^bold>\<open>State.\<close> \<open>Text_Field\<close> is \<^verbatim>\<open>src/textfield.c\<close> and \<open>Browser\<close> is \<^verbatim>\<open>src/browser.c\<close>: buffers edited by moving
  bytes refine texts with a cursor, the history keeps its invariant under every operation and every
  failure of the allocator; \<open>Utf8\<close> is its text repair. \<open>Web_Storage\<close> is \<^verbatim>\<open>src/web_storage.c\<close>: the wire format and
  the store with its least recently used victim. \<open>Http_Rules\<close> and \<open>Http_Cache\<close> are \<^verbatim>\<open>src/http_cache.c\<close>: freshness
  and dates against the calendar, the sealed store; \<open>Cached_Fetch\<close> is \<^verbatim>\<open>src/cached_fetch.c\<close> on top of them.
  \<open>Ws_Hub\<close> is \<^verbatim>\<open>src/ws_hub.c\<close>: a step relation of opens, threads, frames and page calls, with the event
  sequences a page can see and the ownership of every socket. \<open>Sha2\<close> is \<^verbatim>\<open>src/sha2.c\<close>: the digests of
  FIPS 180-4, stated on their own terms. \<open>Prefetch_Scan\<close> and \<open>Prefetch_Pool\<close> are \<^verbatim>\<open>src/prefetch.c\<close>: the scanner reads
  the references of printed pages; the download pool is a step relation of threads and callers that asks
  for each admitted URL once, comes to rest after boundedly many steps, and starves the second of two
  callers of one job. It composes the scanner, \<open>Url\<close> and \<open>Import_Map\<close>.

  \<^bold>\<open>Style.\<close> \<open>Css_Vars\<close> and \<open>Css_Subst\<close> are \<^verbatim>\<open>src/css_vars.c\<close>: the custom-property table, whose hash index is
  seen through the probing lemmas of \<open>Host_Block\<close>, refines a bounded map; the declaration scanner reads
  back what was printed; the substitution of \<^verbatim>\<open>var()\<close> and \<^verbatim>\<open>env()\<close> is compared with an inductive
  semantics of CSS Variables 1, and a time function bounds its work on every input. \<open>Css_Counter\<close> is \<^verbatim>\<open>src/css_counter.c\<close>: declarations, the counter
  styles, which read back as the value they show, generated content and its expansion; the numbers of both sides
  are those of \<open>Decimal\<close>. \<open>Counter_Pass\<close> is the pass of \<^verbatim>\<open>src/page_view.c\<close> that walks the document and drives them: the
  loop on pointers ends, is a recursive walk, and implements counters kept on the levels of the tree. \<open>Css_Parse\<close> and \<open>Css_Select\<close> are \<^verbatim>\<open>src/css_select.c\<close>: every
  selector the parser accepts is well-formed, and the matcher, which walks combinators and skips elements by
  their feature bits, agrees with a declarative meaning of selectors (\<open>selects\<close>). \<open>Css_Index\<close> is \<^verbatim>\<open>src/css_index.c\<close> with
  the matching pass of \<^verbatim>\<open>src/css.c\<close>, \<open>Css_Chain\<close> the views of \<^verbatim>\<open>src/css_chain.c\<close> and their cached path, and \<open>Css_Cascade\<close> puts
  them together: the rules applied to an element are the selectors that select it, whatever index, filters and
  caches do; and it shows where \<^verbatim>\<open>:has()\<close> and unknown positions depart from the comments.

  \<^bold>\<open>Interfaces.\<close> \<open>invariant_machine\<close> and \<open>simulation\<close> of \<open>C_Prelude\<close> carry invariants and refinements along runs
  of operations and are interpreted for the text field, the frame table, the storage, the navigation
  state and the address bar; \<open>step_invariant\<close> and \<open>ranked_steps\<close> do so for step relations and bound the length of runs, and
  are interpreted for the download pool; \<open>response_cache\<close> is what the cached fetch expects of the store;
  \<open>bounded_map\<close> is what the declaration scanner expects of the custom-property table and \<open>scope_lookup\<close> what the
  resolver expects of a scope; \<open>block_hash\<close> is what a digest needs of its block routine, interpreted for SHA-1, SHA-256 and SHA-512;
  \<open>rule_prefilter\<close> is what the cascade expects of a rule index, interpreted for the hash buckets of \<open>Css_Index\<close>.

  \<^bold>\<open>Not modelled.\<close> Windows, layout and painting, which compute with floating point and call graphics
  libraries; the DOM, HTML parser and JavaScript bindings, which wrap third-party code; processes and
  sandboxing, which are system calls; libcurl and OpenSSL configuration; pagination of exported
  pages, which is floating point. Release of memory has no counterpart in the models. The counters
  of the WebSocket hub are naturals, not 64-bit words.
  Declarations and computed values of the CSS engine, whose lengths and colours are floating point, are left
  out, and so are the playlist parser of \<^verbatim>\<open>src/hls.c\<close>, the line-by-line readers of preferences and profiles and the batch
  of subrequests, which carry little logic of their own.
\<close>

end
